(* ===== verification/Prelude.thy ===== *)
theory Prelude
  imports Main "HOL-Library.Monad_Syntax" "HOL-Library.Char_ord" "HOL-Library.List_Lexorder"
begin

text \<open>
  Shared vocabulary of the development: the option monad that stands for code that may abort
  (a failing \<^verbatim>\<open>assert\<close>, \<^verbatim>\<open>LOG_FATAL\<close>, a C++ exception that nobody catches, a call through
  an empty \<^verbatim>\<open>std::function\<close>), block copies on lists, C's integer division, byte
  representations of machine words, and decimal text.

  \<^verbatim>\<open>char\<close> of the source is \<^typ>\<open>char\<close>, \<^verbatim>\<open>std::string\<close> and byte ranges are \<^typ>\<open>string\<close>.
  A \<^verbatim>\<open>size_t\<close> is a \<^typ>\<open>nat\<close>; sums of the source that can exceed 64 bits are written with
  \<^verbatim>\<open>szwrap\<close>.
\<close>

section \<open>Aborting computations\<close>

text \<open>\<open>None\<close> is an aborted process; the makefile does not define \<^verbatim>\<open>NDEBUG\<close>, so every
  \<^verbatim>\<open>assert\<close> of the source is live.\<close>

definition assert_that :: "bool \<Rightarrow> unit option" where
  "assert_that p = (if p then Some () else None)"

named_theorems aborts \<open>rewrite rules for the abort monad\<close>

lemma assert_that_True [simp, aborts]: "assert_that True = Some ()"
  by (simp add: assert_that_def)

lemma assert_that_False [simp, aborts]: "assert_that False = None"
  by (simp add: assert_that_def)

lemma assert_that_bind [simp, aborts]:
  "Option.bind (assert_that p) f = (if p then f () else None)"
  by (simp add: assert_that_def)

lemma assert_that_eq_Some [simp, aborts]: "assert_that p = Some u \<longleftrightarrow> p"
  by (simp add: assert_that_def)

lemma assert_that_eq_None [simp]: "assert_that p = None \<longleftrightarrow> \<not> p"
  by (simp add: assert_that_def)

lemmas abort_elims = bind_eq_Some_conv

text \<open>A loop over a list whose body may abort.\<close>

fun put_all :: "('a \<Rightarrow> 's \<Rightarrow> 's option) \<Rightarrow> 'a list \<Rightarrow> 's \<Rightarrow> 's option" where
  "put_all put [] s = Some s"
| "put_all put (x # xs) s = Option.bind (put x s) (put_all put xs)"

lemma put_all_Nil_fun [simp]: "put_all put [] = Some"
  by (rule ext) simp

lemma put_all_Cons_fun: "put_all put (x # xs) = (\<lambda>s. Option.bind (put x s) (put_all put xs))"
  by (rule ext) simp

lemma put_all_append: "put_all put (xs @ ys) s = Option.bind (put_all put xs s) (put_all put ys)"
  by (induction xs arbitrary: s) (auto split: bind_splits)

lemma put_all_append_fun: "put_all put (xs @ ys) = (\<lambda>s. Option.bind (put_all put xs s) (put_all put ys))"
  by (rule ext) (rule put_all_append)

text \<open>An invariant of every step is an invariant of the loop.\<close>

lemma put_all_invariant:
  assumes "\<And>x s s'. x \<in> set xs \<Longrightarrow> I s \<Longrightarrow> put x s = Some s' \<Longrightarrow> I s'" and "I s" and "put_all put xs s = Some s'"
  shows "I s'"
  using assms
proof (induction xs arbitrary: s)
  case (Cons x xs)
  from Cons.prems(3) obtain t where "put x s = Some t" "put_all put xs t = Some s'"
    by (auto simp: bind_eq_Some_conv)
  with Cons show ?case by (metis list.set_intros)
qed simp

text \<open>Progress and preservation of a step give those of the loop.\<close>

lemma put_all_progress:
  assumes "\<And>x s. x \<in> set xs \<Longrightarrow> I s \<Longrightarrow> \<exists>s'. put x s = Some s' \<and> I s'" and "I s"
  shows "\<exists>s'. put_all put xs s = Some s' \<and> I s'"
  using assms
proof (induction xs arbitrary: s)
  case (Cons x xs)
  from Cons.prems obtain t where "put x s = Some t" "I t" by fastforce
  with Cons show ?case by auto
qed simp

section \<open>Sizes\<close>

definition size_max :: nat where
  "size_max = 2 ^ 64"

definition szwrap :: "nat \<Rightarrow> nat" where
  "szwrap n = n mod size_max"

text \<open>\<^verbatim>\<open>std::vector<char>::max_size()\<close> on a 64-bit platform.\<close>

definition vec_max :: nat where
  "vec_max = 2 ^ 63 - 1"

lemma szwrap_small [simp]: "n < size_max \<Longrightarrow> szwrap n = n"
  by (simp add: szwrap_def)

lemma vec_max_size_max: "n \<le> vec_max \<Longrightarrow> k \<le> 2 ^ 20 \<Longrightarrow> n + k < size_max"
  by (simp add: vec_max_def size_max_def)

section \<open>Block copies\<close>

text \<open>\<open>blit i xs ys\<close> is the array \<open>ys\<close> after \<^verbatim>\<open>std::copy\<close>/\<^verbatim>\<open>memcpy\<close> of \<open>xs\<close> to
  offset \<open>i\<close>. A copy that would leave the array is not allowed by the callers.\<close>

definition blit :: "nat \<Rightarrow> 'a list \<Rightarrow> 'a list \<Rightarrow> 'a list" where
  "blit i xs ys = take i ys @ xs @ drop (i + length xs) ys"

text \<open>\<open>subrange i n xs\<close> are the \<open>n\<close> elements of \<open>xs\<close> from index \<open>i\<close> on.\<close>

definition subrange :: "nat \<Rightarrow> nat \<Rightarrow> 'a list \<Rightarrow> 'a list" where
  "subrange i n xs = take n (drop i xs)"

lemma length_blit [simp]: "i + length xs \<le> length ys \<Longrightarrow> length (blit i xs ys) = length ys"
  by (simp add: blit_def)

lemma blit_Nil [simp]: "blit i [] ys = ys"
  by (simp add: blit_def)

lemma length_subrange [simp]: "i + n \<le> length xs \<Longrightarrow> length (subrange i n xs) = n"
  by (simp add: subrange_def)

lemma subrange_0 [simp]: "subrange i 0 xs = []"
  by (simp add: subrange_def)

lemma subrange_blit_before:
  "i + n \<le> j \<Longrightarrow> j + length ys \<le> length xs \<Longrightarrow> subrange i n (blit j ys xs) = subrange i n xs"
  by (auto simp: subrange_def blit_def drop_take min_def)

lemma subrange_blit_same [simp]:
  "j + length ys \<le> length xs \<Longrightarrow> subrange j (length ys) (blit j ys xs) = ys"
  by (simp add: subrange_def blit_def)

lemma subrange_blit_len:
  "length ys = n \<Longrightarrow> j + n \<le> length xs \<Longrightarrow> subrange j n (blit j ys xs) = ys"
  by auto

lemma subrange_append: "subrange i m xs @ subrange (i + m) n xs = subrange i (m + n) xs"
proof -
  have "take (m + n) (drop i xs) = take m (drop i xs) @ take n (drop m (drop i xs))"
    by (rule take_add)
  then show ?thesis by (simp add: subrange_def add.commute)
qed

lemma subrange_split:
  "m \<le> n \<Longrightarrow> subrange i n xs = subrange i m xs @ subrange (i + m) (n - m) xs"
  by (simp add: subrange_append)

lemma subrange_blit_extend:
  assumes "i + n = j" and "j + length ys \<le> length xs"
  shows "subrange i (n + length ys) (blit j ys xs) = subrange i n xs @ ys"
proof -
  have "subrange i (n + length ys) (blit j ys xs)
      = subrange i n (blit j ys xs) @ subrange (i + n) (length ys) (blit j ys xs)"
    by (simp add: subrange_append)
  with assms show ?thesis by (simp add: subrange_blit_before)
qed

lemma subrange_blit_after:
  assumes "j + length ys \<le> i" and "i + n \<le> length xs"
  shows "subrange i n (blit j ys xs) = subrange i n xs"
proof -
  have "length xs \<le> j \<Longrightarrow> ys = []"
    using assms by (cases ys) auto
  with assms show ?thesis by (auto simp: subrange_def blit_def min_def)
qed

lemma subrange_blit_prepend:
  assumes "j + length ys = i" and "i + n \<le> length xs"
  shows "subrange j (length ys + n) (blit j ys xs) = ys @ subrange i n xs"
  using assms by (simp add: subrange_blit_after flip: subrange_append)

lemma take_subrange: "k \<le> n \<Longrightarrow> take k (subrange i n xs) = subrange i k xs"
  by (simp add: subrange_def min_def)

lemma drop_subrange: "drop k (subrange i n xs) = subrange (i + k) (n - k) xs"
  by (simp add: subrange_def drop_take add.commute)

lemma subrange_append_left [simp]: "i + n \<le> length xs \<Longrightarrow> subrange i n (xs @ ys) = subrange i n xs"
  by (simp add: subrange_def)

section \<open>C integer division\<close>

text \<open>C++11 division truncates towards zero; the remainder has the sign of the dividend.\<close>

definition cdiv :: "int \<Rightarrow> int \<Rightarrow> int" where
  "cdiv a b = (if (a < 0) = (b < 0) then \<bar>a\<bar> div \<bar>b\<bar> else - (\<bar>a\<bar> div \<bar>b\<bar>))"

definition cmod :: "int \<Rightarrow> int \<Rightarrow> int" where
  "cmod a b = a - b * cdiv a b"

lemma cdiv_nonneg [simp]: "0 \<le> a \<Longrightarrow> 0 < b \<Longrightarrow> cdiv a b = a div b"
  by (auto simp: cdiv_def)

lemma cmod_nonneg [simp]: "0 \<le> a \<Longrightarrow> 0 < b \<Longrightarrow> cmod a b = a mod b"
  by (simp add: cmod_def minus_mult_div_eq_mod)

lemma cdiv_neg: "a < 0 \<Longrightarrow> 0 < b \<Longrightarrow> cdiv a b = - ((- a) div b)"
  by (simp add: cdiv_def)

lemma cmod_neg: "a < 0 \<Longrightarrow> 0 < b \<Longrightarrow> cmod a b = - ((- a) mod b)"
  by (simp add: cmod_def cdiv_neg minus_mult_div_eq_mod [symmetric])

lemma cdiv_cmod: "b * cdiv a b + cmod a b = a"
  by (simp add: cmod_def)

text \<open>A signed value of 32 or 64 bits that an operation of the source stores. Signed overflow is undefined in
  C++; here it wraps, and the theorems about signed arithmetic are stated where nothing wraps.\<close>

definition i32 :: "int \<Rightarrow> int" where
  "i32 x = (x + 2 ^ 31) mod 2 ^ 32 - 2 ^ 31"

definition i64 :: "int \<Rightarrow> int" where
  "i64 x = (x + 2 ^ 63) mod 2 ^ 64 - 2 ^ 63"

lemma i32_id [simp]: "- 2147483648 \<le> x \<Longrightarrow> x < 2147483648 \<Longrightarrow> i32 x = x"
  by (simp add: i32_def)

lemma i64_id [simp]: "- 9223372036854775808 \<le> x \<Longrightarrow> x < 9223372036854775808 \<Longrightarrow> i64 x = x"
  by (simp add: i64_def)

section \<open>Byte representations of numbers\<close>

text \<open>Little-endian bytes of a number and back.\<close>

fun le_bytes :: "nat \<Rightarrow> nat \<Rightarrow> string" where
  "le_bytes 0 v = []"
| "le_bytes (Suc n) v = char_of (v mod 256) # le_bytes n (v div 256)"

lemma le_bytes_numeral [simp]:
  "le_bytes (numeral k) v = char_of (v mod 256) # le_bytes (pred_numeral k) (v div 256)"
  by (simp only: numeral_eq_Suc [of k] le_bytes.simps)

fun le_val :: "string \<Rightarrow> nat" where
  "le_val [] = 0"
| "le_val (c # cs) = of_char c + 256 * le_val cs"

lemma length_le_bytes [simp]: "length (le_bytes n v) = n"
  by (induction n v rule: le_bytes.induct) auto

lemma le_val_le_bytes [simp]: "le_val (le_bytes n v) = v mod 256 ^ n"
proof (induction n v rule: le_bytes.induct)
  case (1 v)
  then show ?case by simp
next
  case (2 n v)
  have "v mod 256 + 256 * (v div 256 mod 256 ^ n) = v mod (256 * 256 ^ n)"
    by (metis add.commute mod_mult2_eq)
  with 2 show ?case by simp
qed

lemma le_val_less: "le_val cs < 256 ^ length cs"
proof (induction cs)
  case Nil
  then show ?case by simp
next
  case (Cons c cs)
  have "(of_char c :: nat) < 256"
    by (rule nat_of_char_less_256)
  then have "of_char c + 256 * le_val cs < 256 * Suc (le_val cs)" by simp
  also have "256 * Suc (le_val cs) \<le> 256 * 256 ^ length cs"
    using Cons by (simp only: Suc_le_eq mult_le_mono2)
  finally show ?case by simp
qed

lemma le_bytes_le_val [simp]: "le_bytes (length cs) (le_val cs) = cs"
  by (induction cs) simp_all

lemma le_bytes_le_val' [simp]: "length cs = n \<Longrightarrow> le_bytes n (le_val cs) = cs"
  by auto

section \<open>Decimal text\<close>

definition digit_char :: "nat \<Rightarrow> char" where
  "digit_char d = char_of (48 + d)"

fun dec_nat :: "nat \<Rightarrow> string" where
  "dec_nat n = (if n < 10 then [digit_char n] else dec_nat (n div 10) @ [digit_char (n mod 10)])"

declare dec_nat.simps [simp del]

text \<open>What \<^verbatim>\<open>snprintf("%d")\<close> prints.\<close>

definition dec_int :: "int \<Rightarrow> string" where
  "dec_int v = (if v < 0 then ''-'' @ dec_nat (nat (- v)) else dec_nat (nat v))"

text \<open>The \<^verbatim>\<open>%wd\<close> conversion pads with spaces, \<^verbatim>\<open>%0wd\<close> with zeros after the sign.\<close>

definition fmt_d :: "nat \<Rightarrow> int \<Rightarrow> string" where
  "fmt_d w v = replicate (w - length (dec_int v)) CHR '' '' @ dec_int v"

definition fmt_0d :: "nat \<Rightarrow> int \<Rightarrow> string" where
  "fmt_0d w v =
     (let ds = dec_nat (nat \<bar>v\<bar>); sign = (if v < 0 then ''-'' else [])
      in sign @ replicate (w - length sign - length ds) CHR ''0'' @ ds)"

text \<open>\<^verbatim>\<open>snprintf(buf, n, ...)\<close> keeps at most \<open>n - 1\<close> characters.\<close>

definition snprintf :: "nat \<Rightarrow> string \<Rightarrow> string" where
  "snprintf n cs = take (n - 1) cs"

fun undec :: "string \<Rightarrow> nat" where
  "undec cs = foldl (\<lambda>v c. 10 * v + (of_char c - 48)) 0 cs"

declare undec.simps [simp del]

text \<open>\<^verbatim>\<open>isspace\<close> and \<^verbatim>\<open>isdigit\<close> of the C locale.\<close>

definition isspace :: "char \<Rightarrow> bool" where
  "isspace c \<longleftrightarrow> c \<in> {CHR '' '', CHR 0x09, CHR 0x0A, CHR 0x0B, CHR 0x0C, CHR 0x0D}"

definition isdigit :: "char \<Rightarrow> bool" where
  "isdigit c \<longleftrightarrow> 48 \<le> (of_char c :: nat) \<and> (of_char c :: nat) \<le> 57"

lemma of_digit_char [simp]: "d < 10 \<Longrightarrow> of_char (digit_char d) = 48 + d"
  by (simp add: digit_char_def)

lemma digit_char_inj: "d < 10 \<Longrightarrow> e < 10 \<Longrightarrow> digit_char d = digit_char e \<longleftrightarrow> d = e"
  by (metis add_left_cancel of_digit_char)

lemma undec_snoc: "undec (cs @ [c]) = 10 * undec cs + (of_char c - 48)"
  by (simp add: undec.simps)

lemma undec_dec_nat [simp]: "undec (dec_nat n) = n"
proof (induction n rule: dec_nat.induct)
  case (1 n)
  show ?case
  proof (cases "n < 10")
    case True
    then show ?thesis by (simp add: dec_nat.simps [of n] undec.simps)
  next
    case False
    with 1 have "undec (dec_nat (n div 10)) = n div 10" by simp
    with False show ?thesis by (simp add: dec_nat.simps [of n] undec_snoc)
  qed
qed

lemma dec_nat_inj [simp]: "dec_nat m = dec_nat n \<longleftrightarrow> m = n"
  by (metis undec_dec_nat)

lemma dec_nat_ne_Nil [simp]: "dec_nat n \<noteq> []"
  by (subst dec_nat.simps) simp

lemma dec_nat_digits: "c \<in> set (dec_nat n) \<Longrightarrow> \<exists>d < 10. c = digit_char d"
proof (induction n rule: dec_nat.induct)
  case (1 n)
  show ?case
  proof (cases "n < 10")
    case True
    with "1.prems" show ?thesis by (auto simp: dec_nat.simps [of n])
  next
    case False
    with 1 show ?thesis
      by (auto simp: dec_nat.simps [of n] intro: exI [of _ "n mod 10"])
  qed
qed

lemma length_dec_nat: "n < 10 ^ Suc k \<Longrightarrow> length (dec_nat n) \<le> Suc k"
proof (induction k arbitrary: n)
  case 0
  then show ?case by (simp add: dec_nat.simps [of n])
next
  case (Suc k)
  show ?case
  proof (cases "n < 10")
    case True
    then show ?thesis by (simp add: dec_nat.simps [of n])
  next
    case False
    from Suc.prems have "n div 10 < 10 ^ Suc k"
      by (simp add: less_mult_imp_div_less mult.commute)
    with Suc.IH False show ?thesis by (simp add: dec_nat.simps [of n])
  qed
qed

lemma dec_nat_chars: "c \<in> set (dec_nat n) \<Longrightarrow> isdigit c"
  by (auto dest!: dec_nat_digits simp: isdigit_def)

lemma dec_nat_no: "\<not> isdigit c \<Longrightarrow> c \<notin> set (dec_nat n)"
  using dec_nat_chars by blast

lemma not_digits [simp]: "\<not> isdigit (CHR '' '')" "\<not> isdigit (CHR 0x0D)" "\<not> isdigit (CHR ''y'')" "\<not> isdigit (CHR ''-'')" "\<not> isdigit (CHR ''+'')"
  by (simp_all add: isdigit_def)

lemma digit_no_space: "isdigit c \<Longrightarrow> \<not> isspace c"
  by (auto simp: isdigit_def isspace_def)

end
