(* ===== verification/Date.thy ===== *)
theory Date
  imports Prelude
begin

text \<open>
  \<^verbatim>\<open>base/Date.h\<close> and \<^verbatim>\<open>base/Date.cc\<close>: dates as Julian day numbers. The source computes in
  32-bit \<^verbatim>\<open>int\<close>, so every sum, difference and product goes through \<^const>\<open>i32\<close>. The calendar itself
  (\<open>days_in_month\<close>, \<open>next_day\<close>) and the two formulas over unbounded integers (\<open>jdn\<close>,
  \<open>ymd_of\<close>) are the specification: the source's functions agree with them up to the year 1400000,
  and \<open>far_date_overflows\<close> shows a date beyond that they get wrong.
\<close>

section \<open>The source's functions\<close>

record YearMonthDay =
  year :: int
  month :: int
  day :: int

definition getJulianDayNumber :: "int \<Rightarrow> int \<Rightarrow> int \<Rightarrow> int" where
  "getJulianDayNumber y0 mo d =
     (let a = cdiv (i32 (14 - mo)) 12;
          y = i32 (i32 (y0 + 4800) - a);
          m = i32 (i32 (mo + i32 (12 * a)) - 3)
      in i32 (i32 (i32 (i32 (i32 (i32 (d + cdiv (i32 (i32 (153 * m) + 2)) 5) + i32 (y * 365)) + cdiv y 4)
           - cdiv y 100) + cdiv y 400) - 32045))"

definition getYearMonthDay :: "int \<Rightarrow> YearMonthDay" where
  "getYearMonthDay julianDayNumber =
     (let a = i32 (julianDayNumber + 32044);
          b = cdiv (i32 (i32 (4 * a) + 3)) 146097;
          c = i32 (a - cdiv (i32 (b * 146097)) 4);
          d = cdiv (i32 (i32 (4 * c) + 3)) 1461;
          e = i32 (c - cdiv (i32 (1461 * d)) 4);
          m = cdiv (i32 (i32 (5 * e) + 2)) 153
      in \<lparr>year = i32 (i32 (i32 (i32 (b * 100) + d) - 4800) + cdiv m 10),
          month = i32 (i32 (m + 3) - i32 (12 * cdiv m 10)),
          day = i32 (i32 (e - cdiv (i32 (i32 (153 * m) + 2)) 5) + 1)\<rparr>)"

definition kJulianDayOf1970_01_01 :: int where
  "kJulianDayOf1970_01_01 = getJulianDayNumber 1970 1 1"

definition kDaysPerWeek :: int where
  "kDaysPerWeek = 7"

text \<open>A \<^verbatim>\<open>Date\<close> is its Julian day number.\<close>

record Date =
  julianDayNumber :: int

definition Date_invalid :: Date where
  "Date_invalid = \<lparr>julianDayNumber = 0\<rparr>"

definition Date_of_ymd :: "int \<Rightarrow> int \<Rightarrow> int \<Rightarrow> Date" where
  "Date_of_ymd y m d = \<lparr>julianDayNumber = getJulianDayNumber y m d\<rparr>"

definition Date_of_jdn :: "int \<Rightarrow> Date" where
  "Date_of_jdn n = \<lparr>julianDayNumber = n\<rparr>"

definition Date_swap :: "Date \<Rightarrow> Date \<Rightarrow> Date \<times> Date" where
  "Date_swap this that = (this\<lparr>julianDayNumber := julianDayNumber that\<rparr>, that\<lparr>julianDayNumber := julianDayNumber this\<rparr>)"

definition Date_valid :: "Date \<Rightarrow> bool" where
  "Date_valid x \<longleftrightarrow> julianDayNumber x > 0"

definition yearMonthDay :: "Date \<Rightarrow> YearMonthDay" where
  "yearMonthDay x = getYearMonthDay (julianDayNumber x)"

definition Date_year :: "Date \<Rightarrow> int" where
  "Date_year x = year (yearMonthDay x)"

definition Date_month :: "Date \<Rightarrow> int" where
  "Date_month x = month (yearMonthDay x)"

definition Date_day :: "Date \<Rightarrow> int" where
  "Date_day x = day (yearMonthDay x)"

definition weekDay :: "Date \<Rightarrow> int" where
  "weekDay x = cmod (i32 (julianDayNumber x + 1)) kDaysPerWeek"

definition Date_less :: "Date \<Rightarrow> Date \<Rightarrow> bool" where
  "Date_less x y \<longleftrightarrow> julianDayNumber x < julianDayNumber y"

definition Date_eq :: "Date \<Rightarrow> Date \<Rightarrow> bool" where
  "Date_eq x y \<longleftrightarrow> julianDayNumber x = julianDayNumber y"

definition toIsoString :: "Date \<Rightarrow> string" where
  "toIsoString x =
     (let ymd = yearMonthDay x
      in snprintf 32 (fmt_d 4 (year ymd) @ ''-'' @ fmt_0d 2 (month ymd) @ ''-'' @ fmt_0d 2 (day ymd)))"

section \<open>The Gregorian calendar\<close>

definition leap :: "int \<Rightarrow> bool" where
  "leap y \<longleftrightarrow> 4 dvd y \<and> (\<not> 100 dvd y \<or> 400 dvd y)"

definition days_in_month :: "int \<Rightarrow> int \<Rightarrow> int" where
  "days_in_month y m =
     (if m = 2 then (if leap y then 29 else 28)
      else if m = 4 \<or> m = 6 \<or> m = 9 \<or> m = 11 then 30 else 31)"

text \<open>Calendar dates from 1 March 4801 BC (astronomical year -4800) on.\<close>

definition date_ok :: "int \<Rightarrow> int \<Rightarrow> int \<Rightarrow> bool" where
  "date_ok y m d \<longleftrightarrow> 1 \<le> m \<and> m \<le> 12 \<and> 1 \<le> d \<and> d \<le> days_in_month y m
     \<and> (if m \<le> 2 then - 4800 < y else - 4800 \<le> y)"

fun next_day :: "int \<times> int \<times> int \<Rightarrow> int \<times> int \<times> int" where
  "next_day (y, m, d) =
     (if d < days_in_month y m then (y, m, d + 1)
      else if m < 12 then (y, m + 1, 1)
      else (y + 1, 1, 1))"

text \<open>The source's two formulas over unbounded integers, with division rounding down.\<close>

definition jdn :: "int \<Rightarrow> int \<Rightarrow> int \<Rightarrow> int" where
  "jdn y0 mo d =
     (let a = (14 - mo) div 12;
          y = y0 + 4800 - a;
          m = mo + 12 * a - 3
      in d + (153 * m + 2) div 5 + y * 365 + y div 4 - y div 100 + y div 400 - 32045)"

definition ymd_of :: "int \<Rightarrow> YearMonthDay" where
  "ymd_of n =
     (let a = n + 32044;
          b = (4 * a + 3) div 146097;
          c = a - b * 146097 div 4;
          d = (4 * c + 3) div 1461;
          e = c - 1461 * d div 4;
          m = (5 * e + 2) div 153
      in \<lparr>year = b * 100 + d - 4800 + m div 10,
          month = m + 3 - 12 * (m div 10),
          day = e - (153 * m + 2) div 5 + 1\<rparr>)"

section \<open>From a date to its number and back\<close>

text \<open>Month and year of the source's calendar, which starts in March.\<close>

definition mmonth :: "int \<Rightarrow> int" where
  "mmonth m = (if m \<le> 2 then m + 9 else m - 3)"

definition myear :: "int \<Rightarrow> int \<Rightarrow> int" where
  "myear y m = y + 4800 - (if m \<le> 2 then 1 else 0)"

definition day_of_myear :: "int \<Rightarrow> int \<Rightarrow> int" where
  "day_of_myear m d = d - 1 + (153 * mmonth m + 2) div 5"

text \<open>Leap days before year \<open>Y\<close>.\<close>

definition leaps :: "int \<Rightarrow> int" where
  "leaps Y = Y div 4 - Y div 100 + Y div 400"

lemma month_cases:
  "1 \<le> m \<Longrightarrow> m \<le> (12::int) \<Longrightarrow>
   m = 1 \<or> m = 2 \<or> m = 3 \<or> m = 4 \<or> m = 5 \<or> m = 6 \<or> m = 7 \<or> m = 8 \<or> m = 9 \<or> m = 10 \<or> m = 11 \<or> m = 12"
  by presburger

lemma jdn_eq:
  assumes "date_ok y m d"
  defines "Y \<equiv> myear y m"
  shows "jdn y m d + 32044 = day_of_myear m d + 365 * Y + leaps Y"
proof -
  from assms(1) have m: "1 \<le> m" "m \<le> 12" by (simp_all add: date_ok_def)
  then have a: "(14 - m) div 12 = (if m \<le> 2 then 1 else 0)"
    using month_cases [of m] by auto
  have mm: "m + 12 * (if m \<le> 2 then 1 else 0) - 3 = mmonth m"
    using m by (auto simp: mmonth_def)
  have "y + 4800 - (if m \<le> 2 then 1 else 0) = Y" by (simp add: Y_def myear_def)
  with mm show ?thesis
    by (simp only: jdn_def a Let_def day_of_myear_def leaps_def)
qed

lemma leap_shift: "leap (4800 + y) = leap y"
proof -
  have "4 dvd 4800 + y \<longleftrightarrow> 4 dvd y" "100 dvd 4800 + y \<longleftrightarrow> 100 dvd y" "400 dvd 4800 + y \<longleftrightarrow> 400 dvd y"
    by (rule dvd_add_right_iff, simp)+
  then show ?thesis by (simp add: leap_def)
qed

lemma leap_shift': "leap (y + 4800) = leap y"
  using leap_shift [of y] by (simp only: add.commute)

lemma day_of_myear_month:
  assumes "date_ok y m d"
  shows "0 \<le> day_of_myear m d" and "(5 * day_of_myear m d + 2) div 153 = mmonth m"
    and "day_of_myear m d \<le> 365" and "day_of_myear m d = 365 \<Longrightarrow> leap (myear y m + 1)"
proof -
  from assms have d: "1 \<le> d" "d \<le> days_in_month y m" and m: "1 \<le> m" "m \<le> 12"
    by (simp_all add: date_ok_def)
  show "0 \<le> day_of_myear m d"
    using d m by (auto simp: day_of_myear_def mmonth_def)
  show "(5 * day_of_myear m d + 2) div 153 = mmonth m"
    using month_cases [OF m] d
    by (elim disjE) (auto simp: day_of_myear_def mmonth_def days_in_month_def split: if_splits)
  show "day_of_myear m d \<le> 365"
    using month_cases [OF m] d
    by (elim disjE) (auto simp: day_of_myear_def mmonth_def days_in_month_def split: if_splits)
  assume "day_of_myear m d = 365"
  then have "m = 2 \<and> leap y"
    using month_cases [OF m] d
    by (elim disjE) (auto simp: day_of_myear_def mmonth_def days_in_month_def split: if_splits)
  then show "leap (myear y m + 1)"
    by (simp add: leap_shift myear_def)
qed

text \<open>The century and the year of the century are recovered from the day count.\<close>

lemma century:
  assumes "0 \<le> (Y::int)" and "0 \<le> e" and "e \<le> 365" and "e = 365 \<Longrightarrow> leap (Y + 1)"
  defines "b \<equiv> Y div 100" and "d \<equiv> Y mod 100"
  defines "N \<equiv> e + 365 * Y + leaps Y"
  shows "(4 * N + 3) div 146097 = b" and "N - b * 146097 div 4 = 365 * d + d div 4 + e"
proof -
  define q where "q = b div 4"
  define r where "r = b mod 4"
  have b: "b = 4 * q + r" "0 \<le> r" "r \<le> 3" by (auto simp: q_def r_def)
  have Y: "Y = 100 * b + d" "0 \<le> d" "d \<le> 99" by (auto simp: b_def d_def)
  have N: "N = 36524 * b + q + 365 * d + d div 4 + e"
  proof -
    have "Y div 4 = 25 * b + d div 4" "Y div 400 = q"
      using Y b by auto
    then have "N = e + 365 * Y + (25 * b + d div 4) - b + q"
      by (simp add: N_def b_def leaps_def)
    with Y(1) show ?thesis by simp
  qed
  have top: "e = 365 \<Longrightarrow> d = 99 \<Longrightarrow> r = 3"
  proof -
    assume "e = 365" "d = 99"
    with assms(4) Y(1) have "leap (100 * (b + 1))" by (simp add: algebra_simps)
    then have "100 * 4 dvd 100 * (b + 1)" by (auto simp: leap_def)
    then have "4 dvd b + 1" by (simp only: dvd_times_left_cancel_iff)
    with b show "r = 3" by presburger
  qed
  have "365 * d + d div 4 + e \<le> 36523 \<or> 365 * d + d div 4 + e = 36524 \<and> r = 3"
    using Y(2,3) assms(2,3) top by (cases "d = 99"; cases "e = 365") auto
  then have "4 * (365 * d + d div 4 + e) + 3 - r < 146097"
    using b by auto
  moreover have "4 * N + 3 = 146097 * b + (4 * (365 * d + d div 4 + e) + 3 - r)"
    using N b by simp
  moreover have "0 \<le> 365 * d + d div 4 + e"
    using Y(2) assms(2) by (intro add_nonneg_nonneg) simp_all
  with b(3) have "0 \<le> 4 * (365 * d + d div 4 + e) + 3 - r" by arith
  ultimately show "(4 * N + 3) div 146097 = b"
    by (simp add: div_pos_pos_trivial)
  have "b * 146097 div 4 = 36524 * b + q"
    using b by auto
  with N show "N - b * 146097 div 4 = 365 * d + d div 4 + e" by simp
qed

lemma year_of_century:
  assumes "0 \<le> (d::int)" and "0 \<le> e" and "e \<le> 365" and "e = 365 \<Longrightarrow> 4 dvd d + 1"
  defines "c \<equiv> 365 * d + d div 4 + e"
  shows "(4 * c + 3) div 1461 = d" and "c - 1461 * d div 4 = e"
proof -
  define s where "s = d mod 4"
  have s: "d = 4 * (d div 4) + s" "0 \<le> s" "s \<le> 3" by (auto simp: s_def)
  have top: "e = 365 \<Longrightarrow> s = 3"
    using assms(4) s by presburger
  have "4 * c + 3 = 1461 * d + (4 * e + 3 - s)"
    using s by (simp add: c_def)
  moreover have "0 \<le> 4 * e + 3 - s" "4 * e + 3 - s < 1461"
    using assms(2,3) s top by (cases "e = 365", auto)+
  ultimately show "(4 * c + 3) div 1461 = d"
    by (simp add: div_pos_pos_trivial)
  have "1461 * d = d + (365 * d) * 4" by simp
  then have "1461 * d div 4 = 365 * d + d div 4"
    by (simp only: div_mult_self1)
  then show "c - 1461 * d div 4 = e" by (simp add: c_def)
qed

lemma ymd_of_jdn:
  assumes "date_ok y m d"
  shows "ymd_of (jdn y m d) = \<lparr>year = y, month = m, day = d\<rparr>"
proof -
  define Y where "Y = myear y m"
  define e where "e = day_of_myear m d"
  define N where "N = jdn y m d + 32044"
  define c where "c = 365 * (Y mod 100) + Y mod 100 div 4 + e"
  note e = day_of_myear_month [OF assms, folded e_def Y_def]
  have Y: "0 \<le> Y"
    using assms by (auto simp: Y_def myear_def date_ok_def)
  have N: "N = e + 365 * Y + leaps Y"
    using jdn_eq [OF assms] by (simp add: N_def Y_def e_def)
  have b: "(4 * N + 3) div 146097 = Y div 100" and c: "N - Y div 100 * 146097 div 4 = c"
    unfolding N c_def by (rule century [OF Y e(1,3,4)], assumption?)+
  have "4 dvd Y mod 100 + 1" if "e = 365"
  proof -
    from e(4) [OF that] have "4 dvd 100 * (Y div 100) + (Y mod 100 + 1)"
      by (simp add: leap_def add.assoc [symmetric])
    moreover have "4 dvd 100 * (Y div 100)" by (simp add: dvd_mult2)
    ultimately show ?thesis using dvd_add_right_iff by blast
  qed
  note top = this
  have d: "(4 * c + 3) div 1461 = Y mod 100" "c - 1461 * (Y mod 100) div 4 = e"
    unfolding c_def by (rule year_of_century [OF _ e(1,3) top]; simp)+
  have mm: "mmonth m div 10 = (if m \<le> 2 then 1 else 0)"
    using assms by (auto simp: mmonth_def date_ok_def)
  have "ymd_of (jdn y m d) =
      \<lparr>year = Y div 100 * 100 + Y mod 100 - 4800 + mmonth m div 10,
       month = mmonth m + 3 - 12 * (mmonth m div 10),
       day = e - (153 * mmonth m + 2) div 5 + 1\<rparr>"
    by (simp only: ymd_of_def Let_def N_def [symmetric] b c d e(2))
  also have "\<dots> = \<lparr>year = y, month = m, day = d\<rparr>"
    using mm by (simp add: Y_def myear_def mmonth_def e_def day_of_myear_def)
  finally show ?thesis .
qed

section \<open>Consecutive days have consecutive numbers\<close>

lemma next_day_ok: "date_ok y m d \<Longrightarrow> next_day (y, m, d) = (y', m', d') \<Longrightarrow> date_ok y' m' d'"
proof (cases "d < days_in_month y m")
  case True
  then show "date_ok y m d \<Longrightarrow> next_day (y, m, d) = (y', m', d') \<Longrightarrow> ?thesis"
    by (auto simp: date_ok_def)
next
  case False
  have "1 \<le> days_in_month y m" for y m by (simp add: days_in_month_def)
  with False show "date_ok y m d \<Longrightarrow> next_day (y, m, d) = (y', m', d') \<Longrightarrow> ?thesis"
    by (cases "m < 12") (auto simp: date_ok_def split: if_splits)
qed

lemma div_step:
  assumes "0 < (k::int)"
  shows "Y div k = (Y - 1) div k + (if k dvd Y then 1 else 0)"
proof (cases "k dvd Y")
  case True
  then obtain q where q: "Y = k * q" ..
  have "k * q - 1 = (k - 1) + (q - 1) * k" by (simp add: algebra_simps)
  then have "(k * q - 1) div k = (q - 1) + (k - 1) div k"
    using assms by (simp only: div_mult_self1)
  with assms q show ?thesis by (simp add: div_pos_pos_trivial)
next
  case False
  then have pos: "0 < Y mod k"
    using assms by (metis dvd_eq_mod_eq_0 order_less_le pos_mod_sign)
  have "Y - 1 = (Y mod k - 1) + (Y div k) * k"
    by (simp add: algebra_simps)
  then have "(Y - 1) div k = Y div k + (Y mod k - 1) div k"
    using assms by (metis div_mult_self1 less_irrefl)
  moreover have "(Y mod k - 1) div k = 0"
    using pos pos_mod_bound [OF assms, of Y] by (intro div_pos_pos_trivial) simp_all
  ultimately show ?thesis using False by simp
qed

lemma leaps_step: "leaps Y = leaps (Y - 1) + (if leap Y then 1 else 0)"
proof -
  have dvds: "100 dvd Y \<Longrightarrow> 4 dvd Y" "400 dvd Y \<Longrightarrow> 100 dvd Y"
    by (erule dvd_trans [rotated], simp)+
  define a b c where "a = (Y - 1) div 4" and "b = (Y - 1) div 100" and "c = (Y - 1) div 400"
  have "Y div 4 = a + (if 4 dvd Y then 1 else 0)" "Y div 100 = b + (if 100 dvd Y then 1 else 0)"
      "Y div 400 = c + (if 400 dvd Y then 1 else 0)"
    unfolding a_def b_def c_def by (rule div_step, simp)+
  then have "leaps Y = a + (if 4 dvd Y then 1 else 0) - (b + (if 100 dvd Y then 1 else 0))
      + (c + (if 400 dvd Y then 1 else 0))"
    by (simp only: leaps_def)
  also have "\<dots> = (a - b + c) + (if leap Y then 1 else 0)"
    using dvds by (cases "4 dvd Y"; cases "100 dvd Y"; cases "400 dvd Y") (simp_all add: leap_def)
  finally show ?thesis by (simp only: leaps_def a_def b_def c_def)
qed

lemma jdn_next_day:
  assumes "date_ok y m d" and "next_day (y, m, d) = (y', m', d')"
  shows "jdn y' m' d' = jdn y m d + 1"
proof -
  have m: "1 \<le> m" "m \<le> 12" and d: "d \<le> days_in_month y m"
    using assms(1) by (simp_all add: date_ok_def)
  show ?thesis
  proof (cases "d < days_in_month y m")
    case True
    with assms(2) show ?thesis by (auto simp: jdn_def Let_def)
  next
    case False
    with d have last: "d = days_in_month y m" by simp
    show ?thesis
    proof (cases "m = 2")
      case True
      with False assms have ok': "date_ok y 3 1" "y' = y" "m' = 3" "d' = 1"
        by (auto simp: date_ok_def days_in_month_def)
      from leaps_step [of "4800 + y"] jdn_eq [OF assms(1)] jdn_eq [OF ok'(1)] True last ok'
      show ?thesis
        by (simp add: day_of_myear_def mmonth_def myear_def days_in_month_def leap_shift' add.commute
            split: if_splits)
    next
      case False
      with month_cases [OF m] assms(2) last show ?thesis
        by (elim disjE) (auto simp: days_in_month_def jdn_def Let_def add.commute)
    qed
  qed
qed

section \<open>Every number is a date\<close>

lemma jdn_first: "jdn (- 4800) 3 1 = - 32044"
  by (simp add: jdn_def)

lemma jdn_epoch [simp]: "jdn 1970 1 1 = 2440588" "getJulianDayNumber 1970 1 1 = 2440588"
  by (simp add: jdn_def) code_simp

lemma date_of_number: "\<exists>y m d. date_ok y m d \<and> jdn y m d = int n - 32044"
proof (induction n)
  case 0
  have "date_ok (- 4800) 3 1" by (simp add: date_ok_def days_in_month_def)
  with jdn_first show ?case by fastforce
next
  case (Suc n)
  then obtain y m d where ymd: "date_ok y m d" "jdn y m d = int n - 32044" by blast
  obtain y' m' d' where next_ymd: "next_day (y, m, d) = (y', m', d')" by (metis prod_cases3)
  from next_day_ok [OF ymd(1) this] jdn_next_day [OF ymd(1) this] ymd(2) show ?case
    by (intro exI [of _ y'] exI [of _ m'] exI [of _ d']) simp
qed

lemma ymd_of_number:
  assumes "- 32044 \<le> n"
  shows "\<exists>y m d. date_ok y m d \<and> ymd_of n = \<lparr>year = y, month = m, day = d\<rparr>
           \<and> jdn y m d = n"
proof -
  from assms have "int (nat (n + 32044)) - 32044 = n" by simp
  with date_of_number [of "nat (n + 32044)"] obtain y m d where
      "date_ok y m d" "jdn y m d = n" by auto
  with ymd_of_jdn show ?thesis by blast
qed

section \<open>The source's arithmetic fits 32 bits up to the year 1400000\<close>

lemma leaps_bounds:
  assumes "0 \<le> Y"
  shows "0 \<le> leaps Y" and "leaps Y \<le> Y div 4"
proof -
  have "Y div 400 \<le> Y div 100" "0 \<le> Y div 400" "Y div 100 \<le> Y div 4"
    using assms by (simp_all add: zdiv_mono2)
  then show "0 \<le> leaps Y" and "leaps Y \<le> Y div 4"
    unfolding leaps_def by linarith+
qed

text \<open>The largest intermediate value of the two conversions is \<open>4 * a + 3\<close>.\<close>

lemma jdn_fits_int:
  assumes "date_ok y m d" and "y \<le> 1400000"
  shows "- 32044 \<le> jdn y m d" and "4 * (jdn y m d + 32044) + 3 < 2147483648"
proof -
  let ?Y = "myear y m"
  have Y: "0 \<le> ?Y" "?Y \<le> 1404800"
    using assms by (auto simp: myear_def date_ok_def)
  then have "?Y div 4 \<le> 351200" by simp
  with jdn_eq [OF assms(1)] day_of_myear_month(1,3) [OF assms(1)] Y leaps_bounds [OF Y(1)]
  show "- 32044 \<le> jdn y m d" and "4 * (jdn y m d + 32044) + 3 < 2147483648"
    by simp_all
qed

lemma getJulianDayNumber_jdn:
  assumes "date_ok y m d" and "y \<le> 1400000"
  shows "getJulianDayNumber y m d = jdn y m d"
proof -
  let ?Y = "myear y m" and ?M = "mmonth m"
  from assms(1) have m: "1 \<le> m" "m \<le> 12" and d: "1 \<le> d" "d \<le> 31"
    by (auto simp: date_ok_def days_in_month_def split: if_splits)
  have Y: "0 \<le> ?Y" "?Y \<le> 1404800"
    using assms by (auto simp: myear_def date_ok_def)
  have M: "0 \<le> ?M" "?M \<le> 11"
    using m by (auto simp: mmonth_def)
  have a: "cdiv (i32 (14 - m)) 12 = (if m \<le> 2 then 1 else 0)"
    using month_cases [OF m] by auto
  have y: "i32 (i32 (y + 4800) - (if m \<le> 2 then 1 else 0)) = ?Y"
    using Y by (simp add: myear_def split: if_splits)
  have mo: "i32 (i32 (m + i32 (12 * (if m \<le> 2 then 1 else 0))) - 3) = ?M"
    using m by (simp add: mmonth_def)
  define q where "q = (153 * ?M + 2) div 5"
  have q: "0 \<le> q" "q \<le> 337"
    using M by (simp_all add: q_def)
  have dq: "cdiv (i32 (i32 (153 * ?M) + 2)) 5 = q"
    using M by (simp add: q_def)
  have div: "cdiv ?Y 4 = ?Y div 4" "cdiv ?Y 100 = ?Y div 100" "cdiv ?Y 400 = ?Y div 400"
    using Y by simp_all
  have rng: "0 \<le> ?Y div 4" "?Y div 4 \<le> 351200" "0 \<le> ?Y div 100" "?Y div 100 \<le> 14048" "0 \<le> ?Y div 400"
      "?Y div 400 \<le> 3512"
    using Y by simp_all
  have "getJulianDayNumber y m d = d + q + ?Y * 365 + ?Y div 4 - ?Y div 100 + ?Y div 400 - 32045"
    unfolding getJulianDayNumber_def a y mo dq div Let_def using q rng d Y
    by simp
  moreover have "jdn y m d + 32044 = d - 1 + q + 365 * ?Y + (?Y div 4 - ?Y div 100 + ?Y div 400)"
    using jdn_eq [OF assms(1)] by (simp add: day_of_myear_def leaps_def q_def)
  ultimately show ?thesis by linarith
qed

text \<open>Every step of \<^verbatim>\<open>getYearMonthDay\<close> stays between 0 and \<open>4 * a + 3\<close>.\<close>

lemma ymd_of_steps:
  assumes "0 \<le> (a::int)"
  defines "b \<equiv> (4 * a + 3) div 146097"
  defines "c \<equiv> a - b * 146097 div 4"
  defines "d \<equiv> (4 * c + 3) div 1461"
  defines "e \<equiv> c - 1461 * d div 4"
  shows "0 \<le> b" "b * 146097 \<le> 4 * a + 3" "0 \<le> c" "c \<le> 36525" "0 \<le> d" "d \<le> 100" "0 \<le> e" "e \<le> 366"
proof -
  show b: "0 \<le> b" "b * 146097 \<le> 4 * a + 3"
    using assms(1) by (simp_all add: b_def div_times_less_eq_dividend)
  have "4 * a + 3 < b * 146097 + 146097"
    using pos_mod_bound [of 146097 "4 * a + 3"] unfolding b_def
    by (simp add: minus_mult_div_eq_mod [symmetric])
  then show c: "0 \<le> c" "c \<le> 36525"
    using b unfolding c_def by simp_all
  show d: "0 \<le> d" "d \<le> 100"
    using c by (simp_all add: d_def)
  have "d * 1461 \<le> 4 * c + 3" "4 * c + 3 < d * 1461 + 1461"
    unfolding d_def using pos_mod_bound [of 1461 "4 * c + 3"]
    by (simp_all add: minus_mult_div_eq_mod [symmetric] div_times_less_eq_dividend)
  then show "0 \<le> e" "e \<le> 366"
    unfolding e_def by simp_all
qed

lemma getYearMonthDay_ymd_of:
  assumes "- 32044 \<le> n" and "4 * (n + 32044) + 3 < 2147483648"
  shows "getYearMonthDay n = ymd_of n"
proof -
  define a where "a = n + 32044"
  define b where "b = (4 * a + 3) div 146097"
  define c where "c = a - b * 146097 div 4"
  define d where "d = (4 * c + 3) div 1461"
  define e where "e = c - 1461 * d div 4"
  define m where "m = (5 * e + 2) div 153"
  have a: "0 \<le> a" "4 * a + 3 < 2147483648"
    using assms by (simp_all add: a_def)
  note r = ymd_of_steps [OF a(1), folded b_def, folded c_def, folded d_def, folded e_def]
  have m0: "0 \<le> m" "m \<le> 11"
    using r(7,8) by (simp_all add: m_def)
  then have m: "0 \<le> m" "m \<le> 11" "0 \<le> m div 10" "m div 10 \<le> 1" "0 \<le> (153 * m + 2) div 5"
      "(153 * m + 2) div 5 \<le> 337"
    by simp_all
  have wrapped: "i32 (n + 32044) = a" "cdiv (i32 (i32 (4 * a) + 3)) 146097 = b"
      "i32 (a - cdiv (i32 (b * 146097)) 4) = c" "cdiv (i32 (i32 (4 * c) + 3)) 1461 = d"
      "i32 (c - cdiv (i32 (1461 * d)) 4) = e" "cdiv (i32 (i32 (5 * e) + 2)) 153 = m"
    using a r by (simp_all add: a_def [symmetric] b_def [symmetric] c_def [symmetric] d_def [symmetric]
        e_def [symmetric] m_def [symmetric])
  have fields: "i32 (i32 (i32 (i32 (b * 100) + d) - 4800) + cdiv m 10) = b * 100 + d - 4800 + m div 10"
      "i32 (i32 (m + 3) - i32 (12 * cdiv m 10)) = m + 3 - 12 * (m div 10)"
      "i32 (i32 (e - cdiv (i32 (i32 (153 * m) + 2)) 5) + 1) = e - (153 * m + 2) div 5 + 1"
    using a r m by simp_all
  show ?thesis
    unfolding getYearMonthDay_def wrapped Let_def fields
    by (simp only: ymd_of_def Let_def a_def [symmetric] b_def [symmetric] c_def [symmetric] d_def [symmetric]
        e_def [symmetric] m_def [symmetric])
qed

text \<open>Beyond that range the arithmetic overflows: the first day of the year 1500000 is converted to a
  year before the epoch of the Julian day numbers.\<close>

lemma far_date_overflows:
  "date_ok 1500000 1 1" "year (yearMonthDay (Date_of_ymd 1500000 1 1)) < - 4800"
  by (simp add: date_ok_def days_in_month_def) code_simp

section \<open>The calendar's properties\<close>

text \<open>C6: converting a calendar date to its Julian day number and back gives the same year, month and
  day, for every Gregorian date from March 4801 BC to the year 1400000: in that range nothing
  overflows the 32-bit arithmetic of the two conversions.\<close>

theorem date_roundtrip:
  assumes "date_ok y m d" and "y \<le> 1400000"
  shows "yearMonthDay (Date_of_ymd y m d) = \<lparr>year = y, month = m, day = d\<rparr>"
  using ymd_of_jdn [OF assms(1)] getJulianDayNumber_jdn [OF assms] getYearMonthDay_ymd_of jdn_fits_int [OF assms]
  by (simp add: yearMonthDay_def Date_of_ymd_def)

theorem date_roundtrip_witness:
  "yearMonthDay (Date_of_ymd 2000 2 29) = \<lparr>year = 2000, month = 2, day = 29\<rparr>
   \<and> yearMonthDay (Date_of_ymd 1400000 12 31) = \<lparr>year = 1400000, month = 12, day = 31\<rparr>"
  using date_roundtrip [of 2000 2 29] date_roundtrip [of 1400000 12 31]
  by (simp add: date_ok_def days_in_month_def leap_def)

text \<open>The Julian day number counts days of the Gregorian calendar: it is 2440588 on 1 January
  1970 and grows by one, and the weekday by one modulo seven, from each date to the next.\<close>

theorem jdn_counts_days:
  assumes "date_ok y m d" and "next_day (y, m, d) = (y', m', d')" and "0 \<le> getJulianDayNumber y m d"
    and "y' \<le> 1400000"
  shows "kJulianDayOf1970_01_01 = 2440588
       \<and> getJulianDayNumber y' m' d' = getJulianDayNumber y m d + 1
       \<and> weekDay (Date_of_ymd y' m' d') = (weekDay (Date_of_ymd y m d) + 1) mod 7"
proof -
  have y: "y \<le> 1400000" using assms(2,4) by (auto split: if_splits)
  note ok' = next_day_ok [OF assms(1,2)]
  have eqs: "getJulianDayNumber y' m' d' = jdn y m d + 1" "getJulianDayNumber y m d = jdn y m d"
    using jdn_next_day [OF assms(1,2)] getJulianDayNumber_jdn [OF ok' assms(4)]
      getJulianDayNumber_jdn [OF assms(1) y] by simp_all
  have "i32 (jdn y m d + 1) = jdn y m d + 1" "i32 (jdn y m d + 2) = jdn y m d + 2"
    using jdn_fits_int [OF assms(1) y] by simp_all
  then show ?thesis
    using assms(3) unfolding eqs weekDay_def Date_of_ymd_def kDaysPerWeek_def kJulianDayOf1970_01_01_def
    by (simp add: eqs mod_simps add.commute)
qed

theorem jdn_counts_days_witness:
  "weekDay (Date_of_ymd 2017 10 1) = (weekDay (Date_of_ymd 2017 9 30) + 1) mod 7"
proof -
  have "getJulianDayNumber 2017 9 30 = 2458027" by code_simp
  then have "date_ok 2017 9 30" "next_day (2017, 9, 30) = (2017, 10, 1)" "0 \<le> getJulianDayNumber 2017 9 30"
    by (simp_all add: date_ok_def days_in_month_def)
  from jdn_counts_days [OF this] show ?thesis by simp
qed

end
