(* ===== verification/TimeZone.thy ===== *)
theory TimeZone
  imports Date
begin

text \<open>
  \<^verbatim>\<open>base/TimeZone.h\<close> and \<^verbatim>\<open>base/TimeZone.cc\<close>: broken-down UTC time, the reader of TZif files and
  the conversion between UTC and local time. Values of type \<^verbatim>\<open>int\<close> go through \<^const>\<open>i32\<close>, those of
  type \<^verbatim>\<open>time_t\<close> through \<^const>\<open>i64\<close>; 32-bit values read from a file are sign-extended as the
  source's \<^verbatim>\<open>int32_t\<close> does. \<^verbatim>\<open>gmtime_r\<close> and \<^verbatim>\<open>timegm\<close> of the C library are modelled by the
  calendar \<^const>\<open>ymd_of\<close>, \<^const>\<open>jdn\<close>, with the normalisation of the month that \<^verbatim>\<open>timegm\<close> does and the
  failure of \<^verbatim>\<open>gmtime_r\<close> when the year does not fit \<^verbatim>\<open>tm_year\<close>. Undefined behaviour (an index
  outside a vector, an array of negative size) is a value of its own.
\<close>

section \<open>Broken-down time\<close>

record tm =
  tm_sec :: int
  tm_min :: int
  tm_hour :: int
  tm_mday :: int
  tm_mon :: int
  tm_year :: int
  tm_wday :: int
  tm_yday :: int
  tm_isdst :: bool
  tm_gmtoff :: int
  tm_zone :: string

definition tm_zero :: tm where
  "tm_zero = \<lparr>tm_sec = 0, tm_min = 0, tm_hour = 0, tm_mday = 0, tm_mon = 0, tm_year = 0, tm_wday = 0,
              tm_yday = 0, tm_isdst = False, tm_gmtoff = 0, tm_zone = []\<rparr>"

definition kSecondsPerDay :: int where
  "kSecondsPerDay = 24 * 60 * 60"

definition fillHMS :: "int \<Rightarrow> tm \<Rightarrow> tm" where
  "fillHMS seconds utc =
     (let minutes = cdiv seconds 60
      in utc\<lparr>tm_sec := cmod seconds 60, tm_min := cmod minutes 60, tm_hour := cdiv minutes 60\<rparr>)"

definition toUtcTime :: "int \<Rightarrow> bool \<Rightarrow> tm" where
  "toUtcTime secondsSinceEpoch yday =
     (let utc = tm_zero\<lparr>tm_zone := ''GMT''\<rparr>;
          seconds0 = i32 (cmod secondsSinceEpoch kSecondsPerDay);
          days0 = i32 (cdiv secondsSinceEpoch kSecondsPerDay);
          seconds = (if seconds0 < 0 then i32 (seconds0 + kSecondsPerDay) else seconds0);
          days = (if seconds0 < 0 then i32 (days0 - 1) else days0);
          utc = fillHMS seconds utc;
          date = Date_of_jdn (i32 (days + kJulianDayOf1970_01_01));
          ymd = yearMonthDay date;
          utc = utc\<lparr>tm_year := i32 (year ymd - 1900), tm_mon := i32 (month ymd - 1), tm_mday := day ymd,
                    tm_wday := weekDay date\<rparr>
      in if yday
         then utc\<lparr>tm_yday := i32 (julianDayNumber date - julianDayNumber (Date_of_ymd (year ymd) 1 1))\<rparr>
         else utc)"

definition fromUtcTime_ymd :: "int \<Rightarrow> int \<Rightarrow> int \<Rightarrow> int \<Rightarrow> int \<Rightarrow> int \<Rightarrow> int" where
  "fromUtcTime_ymd y m d hour minute seconds =
     (let date = Date_of_ymd y m d;
          secondsInDay = i32 (i32 (i32 (hour * 3600) + i32 (minute * 60)) + seconds);
          days = i32 (julianDayNumber date - kJulianDayOf1970_01_01)
      in i64 (i64 (days * kSecondsPerDay) + secondsInDay))"

definition fromUtcTime :: "tm \<Rightarrow> int" where
  "fromUtcTime utc = fromUtcTime_ymd (i32 (tm_year utc + 1900)) (i32 (tm_mon utc + 1)) (tm_mday utc)
                       (tm_hour utc) (tm_min utc) (tm_sec utc)"

text \<open>The two functions of the C library that the source calls. \<open>gm t\<close> are the fields of the UTC time
  \<open>t\<close>; \<^verbatim>\<open>gmtime_r\<close> fails with \<^verbatim>\<open>EOVERFLOW\<close>, leaving the result unspecified, when the year does not fit
  its \<^verbatim>\<open>int\<close>. The fields that \<^verbatim>\<open>timegm\<close> gets are of type \<^verbatim>\<open>int\<close>, so that its result always fits 64 bits.\<close>

definition gm :: "int \<Rightarrow> tm" where
  "gm t =
     (let n = t div 86400 + 2440588;
          s = t mod 86400;
          ymd = ymd_of n
      in \<lparr>tm_sec = s mod 60, tm_min = s div 60 mod 60, tm_hour = s div 60 div 60, tm_mday = day ymd,
          tm_mon = month ymd - 1, tm_year = year ymd - 1900, tm_wday = (n + 1) mod 7,
          tm_yday = n - jdn (year ymd) 1 1, tm_isdst = False, tm_gmtoff = 0, tm_zone = ''GMT''\<rparr>)"

definition gmtime_r :: "int \<Rightarrow> tm option" where
  "gmtime_r t = (if i32 (tm_year (gm t)) = tm_year (gm t) then Some (gm t) else None)"

definition timegm :: "tm \<Rightarrow> int" where
  "timegm x =
     (jdn (tm_year x + 1900 + tm_mon x div 12) (tm_mon x mod 12 + 1) (tm_mday x) - 2440588) * 86400
     + (tm_hour x * 3600 + tm_min x * 60 + tm_sec x)"

section \<open>Zone data\<close>

record Transition =
  gmttime :: int
  localtime :: int
  localtimeIdx :: nat

text \<open>\<^verbatim>\<open>Comp(true)\<close> compares the UTC times, \<^verbatim>\<open>Comp(false)\<close> the local times.\<close>

definition Comp_less :: "bool \<Rightarrow> Transition \<Rightarrow> Transition \<Rightarrow> bool" where
  "Comp_less compareGmt lhs rhs =
     (if compareGmt then gmttime lhs < gmttime rhs else localtime lhs < localtime rhs)"

definition Comp_equal :: "bool \<Rightarrow> Transition \<Rightarrow> Transition \<Rightarrow> bool" where
  "Comp_equal compareGmt lhs rhs =
     (if compareGmt then gmttime lhs = gmttime rhs else localtime lhs = localtime rhs)"

record Localtime =
  gmtOffset :: int
  isDst :: bool
  arrbIdx :: nat

record Data =
  transitions :: "Transition list"
  localtimes :: "Localtime list"
  names :: "string list"
  abbreviation_chars :: string

definition empty_Data :: Data where
  "empty_Data = \<lparr>transitions = [], localtimes = [], names = [], abbreviation_chars = []\<rparr>"

section \<open>Reading a TZif file\<close>

text \<open>A step of the reader works on the zone data built so far and the bytes not yet read. It returns,
  throws a \<^verbatim>\<open>logic_error\<close> (the data built so far stays), or is undefined.\<close>

datatype 'a outcome = Ret 'a | Throw string | Undef

type_synonym 'a reader = "Data \<times> string \<Rightarrow> 'a outcome \<times> Data \<times> string"

definition rd_return :: "'a \<Rightarrow> 'a reader" where
  "rd_return x s = (Ret x, s)"

definition rd_bind :: "'a reader \<Rightarrow> ('a \<Rightarrow> 'b reader) \<Rightarrow> 'b reader" where
  "rd_bind m k s = (case m s of
       (Ret x, s') \<Rightarrow> k x s'
     | (Throw e, s') \<Rightarrow> (Throw e, s')
     | (Undef, s') \<Rightarrow> (Undef, s'))"

definition rd_throw :: "string \<Rightarrow> 'a reader" where
  "rd_throw e s = (Throw e, s)"

text \<open>\<^verbatim>\<open>for (i = 0; i < n; ++i) acc.push_back(m())\<close>.\<close>

fun rd_times :: "nat \<Rightarrow> 'a reader \<Rightarrow> 'a list reader" where
  "rd_times 0 m = rd_return []"
| "rd_times (Suc n) m = rd_bind m (\<lambda>x. rd_bind (rd_times n m) (\<lambda>xs. rd_return (x # xs)))"

text \<open>\<^verbatim>\<open>fread\<close> consumes what there is, also when it is too short.\<close>

definition readBytes :: "int \<Rightarrow> string reader" where
  "readBytes n = (\<lambda>(d, bs).
     if n < 0 then (Undef, d, bs)
     else if int (length bs) < n then (Throw ''no enough data'', d, [])
     else (Ret (take (nat n) bs), d, drop (nat n) bs))"

definition be32_int :: "string \<Rightarrow> int" where
  "be32_int bs = (let u = int (le_val (rev bs)) in if u < 2 ^ 31 then u else u - 2 ^ 32)"

definition File_readInt32 :: "int reader" where
  "File_readInt32 = (\<lambda>(d, bs).
     if length bs < 4 then (Throw ''bad int32_t data'', d, [])
     else (Ret (be32_int (take 4 bs)), d, drop 4 bs))"

definition readUInt8 :: "nat reader" where
  "readUInt8 = (\<lambda>(d, bs). case bs of
       [] \<Rightarrow> (Throw ''bad uint8_t data'', d, [])
     | b # bs' \<Rightarrow> (Ret (of_char b), d, bs'))"

definition push_localtime :: "Localtime \<Rightarrow> unit reader" where
  "push_localtime l = (\<lambda>(d, bs). (Ret (), d\<lparr>localtimes := localtimes d @ [l]\<rparr>, bs))"

text \<open>One round of the loop over \<^verbatim>\<open>typecnt\<close>.\<close>

definition read_type :: "unit reader" where
  "read_type =
     rd_bind File_readInt32 (\<lambda>gmtoff.
     rd_bind readUInt8 (\<lambda>isdst.
     rd_bind readUInt8 (\<lambda>abbrind.
     push_localtime \<lparr>gmtOffset = gmtoff, isDst = (isdst \<noteq> 0), arrbIdx = abbrind\<rparr>)))"

text \<open>The loop that builds \<^verbatim>\<open>data->transitions\<close>; the list holds \<^verbatim>\<open>trans[i]\<close> and \<^verbatim>\<open>localtimes[i]\<close>.\<close>

fun push_transitions :: "(int \<times> nat) list \<Rightarrow> unit reader" where
  "push_transitions [] s = (Ret (), s)"
| "push_transitions ((t, localIdx) # ts) (d, bs) =
     (if localIdx < length (localtimes d)
      then push_transitions ts
             (d\<lparr>transitions := transitions d @
                  [\<lparr>gmttime = t, localtime = t + gmtOffset (localtimes d ! localIdx), localtimeIdx = localIdx\<rparr>]\<rparr>, bs)
      else (Undef, d, bs))"

definition set_abbreviation :: "string \<Rightarrow> unit reader" where
  "set_abbreviation a = (\<lambda>(d, bs). (Ret (), d\<lparr>abbreviation_chars := a\<rparr>, bs))"

text \<open>The body of the \<^verbatim>\<open>try\<close> block. \<^verbatim>\<open>trans.reserve\<close> of a negative count (a huge \<^verbatim>\<open>size_t\<close>) throws
  \<^verbatim>\<open>length_error\<close>, which is a \<^verbatim>\<open>logic_error\<close>.\<close>

definition readTimeZoneBody :: "unit reader" where
  "readTimeZoneBody =
     rd_bind (readBytes 4) (\<lambda>head.
     if head \<noteq> ''TZif'' then rd_throw ''bad head'' else
     rd_bind (readBytes 1) (\<lambda>version.
     rd_bind (readBytes 15) (\<lambda>_.
     rd_bind File_readInt32 (\<lambda>isgmtcnt.
     rd_bind File_readInt32 (\<lambda>isstdcnt.
     rd_bind File_readInt32 (\<lambda>leapcnt.
     rd_bind File_readInt32 (\<lambda>timecnt.
     rd_bind File_readInt32 (\<lambda>typecnt.
     rd_bind File_readInt32 (\<lambda>charcnt.
     if timecnt < 0 then rd_throw ''vector::reserve'' else
     rd_bind (rd_times (nat timecnt) File_readInt32) (\<lambda>trans.
     rd_bind (rd_times (nat timecnt) readUInt8) (\<lambda>locals.
     rd_bind (rd_times (nat typecnt) read_type) (\<lambda>_.
     rd_bind (push_transitions (zip trans locals)) (\<lambda>_.
     rd_bind (readBytes charcnt) set_abbreviation)))))))))))))"

text \<open>\<open>file\<close> is \<open>None\<close> when \<^verbatim>\<open>fopen\<close> fails. The result is the returned flag and the data, or \<open>None\<close> when
  the behaviour is undefined.\<close>

definition readTimeZoneFile :: "string option \<Rightarrow> Data \<Rightarrow> (bool \<times> Data) option" where
  "readTimeZoneFile file d = (case file of
       None \<Rightarrow> Some (True, d)
     | Some bytes \<Rightarrow> (case readTimeZoneBody (d, bytes) of
           (Ret _, d', _) \<Rightarrow> Some (True, d')
         | (Throw _, d', _) \<Rightarrow> Some (True, d')
         | (Undef, _) \<Rightarrow> None))"

section \<open>Finding the local time type\<close>

text \<open>\<^verbatim>\<open>std::lower_bound\<close> on a range partitioned by the comparison: the first element not less than the
  key.\<close>

fun lower_bound :: "('a \<Rightarrow> 'a \<Rightarrow> bool) \<Rightarrow> 'a list \<Rightarrow> 'a \<Rightarrow> nat" where
  "lower_bound lt [] x = 0"
| "lower_bound lt (y # ys) x = (if lt y x then Suc (lower_bound lt ys x) else 0)"

definition nth_opt :: "'a list \<Rightarrow> nat \<Rightarrow> 'a option" where
  "nth_opt xs i = (if i < length xs then Some (xs ! i) else None)"

definition findLocaltime :: "Data \<Rightarrow> Transition \<Rightarrow> bool \<Rightarrow> Localtime option" where
  "findLocaltime data sentry compareGmt =
     (let ts = transitions data in
      if ts = [] \<or> Comp_less compareGmt sentry (hd ts) then nth_opt (localtimes data) 0
      else
        let i = lower_bound (Comp_less compareGmt) ts sentry in
        if i < length ts then
          (if \<not> Comp_equal compareGmt sentry (ts ! i)
           then do { assert_that (i \<noteq> 0); nth_opt (localtimes data) (localtimeIdx (ts ! (i - 1))) }
           else nth_opt (localtimes data) (localtimeIdx (ts ! i)))
        else nth_opt (localtimes data) (localtimeIdx (last ts)))"

section \<open>The TimeZone class\<close>

text \<open>\<^verbatim>\<open>data_\<close> is a shared pointer: \<open>None\<close> for the invalid zone. The outer option of the constructor from
  a file is undefined behaviour of the reader.\<close>

type_synonym TimeZone = "Data option"

definition TimeZone_of_file :: "string option \<Rightarrow> TimeZone option" where
  "TimeZone_of_file zonefile =
     do { (ok, d) \<leftarrow> readTimeZoneFile zonefile empty_Data; Some (if ok then Some d else None) }"

definition TimeZone_fixed :: "int \<Rightarrow> string \<Rightarrow> TimeZone" where
  "TimeZone_fixed eastOfUtc name =
     Some (empty_Data\<lparr>localtimes := [\<lparr>gmtOffset = eastOfUtc, isDst = False, arrbIdx = 0\<rparr>], abbreviation_chars := name\<rparr>)"

definition TimeZone_invalid :: TimeZone where
  "TimeZone_invalid = None"

definition TimeZone_valid :: "TimeZone \<Rightarrow> bool" where
  "TimeZone_valid tz \<longleftrightarrow> tz \<noteq> None"

text \<open>\<^verbatim>\<open>tm_zone\<close> is a C string inside \<^verbatim>\<open>abbreviation\<close>.\<close>

definition c_str_at :: "string \<Rightarrow> nat \<Rightarrow> string option" where
  "c_str_at s i = (if i \<le> length s then Some (takeWhile (\<lambda>c. c \<noteq> CHR 0x00) (drop i s)) else None)"

definition toLocalTime :: "TimeZone \<Rightarrow> int \<Rightarrow> tm option" where
  "toLocalTime tz seconds = do {
     data \<leftarrow> tz;
     local \<leftarrow> findLocaltime data \<lparr>gmttime = seconds, localtime = 0, localtimeIdx = 0\<rparr> True;
     localTime \<leftarrow> gmtime_r (i64 (seconds + gmtOffset local));
     zone \<leftarrow> c_str_at (abbreviation_chars data) (arrbIdx local);
     Some (localTime\<lparr>tm_isdst := isDst local, tm_gmtoff := gmtOffset local, tm_zone := zone\<rparr>)
   }"

definition fromLocalTime :: "TimeZone \<Rightarrow> tm \<Rightarrow> int option" where
  "fromLocalTime tz localTm = do {
     data \<leftarrow> tz;
     let seconds = timegm localTm;
     local \<leftarrow> findLocaltime data \<lparr>gmttime = 0, localtime = seconds, localtimeIdx = 0\<rparr> False;
     seconds' \<leftarrow> (if tm_isdst localTm
        then do {
          tryTm \<leftarrow> toLocalTime tz (i64 (seconds - gmtOffset local));
          Some (if \<not> tm_isdst tryTm \<and> tm_hour tryTm = tm_hour localTm \<and> tm_min tryTm = tm_min localTm
                then i64 (seconds - 3600) else seconds) }
        else Some seconds);
     Some (i64 (seconds' - gmtOffset local))
   }"

section \<open>UTC round trip\<close>

lemma floor_split:
  assumes "0 < k"
  shows "(if cmod t k < 0 then cmod t k + k else cmod t k) = t mod k"
    and "(if cmod t k < 0 then cdiv t k - 1 else cdiv t k) = t div k"
proof -
  have "cmod t k + k = t mod k \<and> cdiv t k - 1 = t div k" if "cmod t k < 0"
  proof -
    from that assms have t: "t < 0" 
      by (metis cmod_nonneg not_le pos_mod_sign)
    with that assms have nz: "(- t) mod k \<noteq> 0" by (simp add: cmod_neg)
    then have "t mod k = k - (- t) mod k"
      by (metis zmod_zminus1_eq_if minus_minus)
    moreover have "t div k = - ((- t) div k) - 1"
      using nz by (metis zdiv_zminus1_eq_if minus_minus assms less_irrefl)
    ultimately show ?thesis using t assms by (simp add: cmod_neg cdiv_neg)
  qed
  moreover have "cmod t k = t mod k \<and> cdiv t k = t div k" if "\<not> cmod t k < 0"
  proof (cases "t < 0")
    case True
    with that assms have "(- t) mod k \<le> 0" by (simp add: cmod_neg)
    then have z: "(- t) mod k = 0" using pos_mod_sign [OF assms, of "- t"] by linarith
    then have "k dvd t" by (simp add: dvd_eq_mod_eq_0 [symmetric])
    then obtain q where q: "t = k * q" ..
    then have "(- t) div k = - q"
      using assms nonzero_mult_div_cancel_left [of k "- q"] by simp
    with assms True z q show ?thesis by (simp add: cmod_neg cdiv_neg)
  qed (use assms in simp)
  ultimately show "(if cmod t k < 0 then cmod t k + k else cmod t k) = t mod k"
    and "(if cmod t k < 0 then cdiv t k - 1 else cdiv t k) = t div k"
    by simp_all
qed

text \<open>The first second that the calendar conversion covers, 1 March 4801 BC, and a bound below which
  \<^verbatim>\<open>base/Date.cc\<close> stays in 32 bits (about the year 1395000).\<close>

definition first_second :: int where
  "first_second = (- 32044 - 2440588) * 86400"

definition last_second :: int where
  "last_second = (365 * 1400000 - 32044 - 2440588) * 86400"

lemma day_number_ge:
  assumes "first_second \<le> t"
  shows "- 32044 \<le> t div 86400 + 2440588"
proof -
  have "(- 32044 - 2440588) * 86400 div 86400 \<le> t div (86400::int)"
    using assms unfolding first_second_def by (rule zdiv_mono1) simp
  then show ?thesis by simp
qed

text \<open>The date of a day number, with a bound on its year.\<close>

lemma gm_date:
  assumes "first_second \<le> t"
  obtains y m d where "date_ok y m d" and "ymd_of (t div 86400 + 2440588) = \<lparr>year = y, month = m, day = d\<rparr>"
    and "jdn y m d = t div 86400 + 2440588" and "365 * (y + 4799) \<le> t div 86400 + 2472632"
proof -
  from ymd_of_number [OF day_number_ge [OF assms]] obtain y m d where ok: "date_ok y m d"
    and ymd: "ymd_of (t div 86400 + 2440588) = \<lparr>year = y, month = m, day = d\<rparr>"
    and jdn: "jdn y m d = t div 86400 + 2440588" by blast
  have Y: "0 \<le> myear y m" "y + 4799 \<le> myear y m"
    using ok by (auto simp: myear_def date_ok_def)
  have "365 * (y + 4799) \<le> t div 86400 + 2472632"
    using jdn_eq [OF ok] jdn day_of_myear_month(1) [OF ok] Y leaps_bounds(1) [OF Y(1)] by simp
  with ok ymd jdn show ?thesis by (rule that)
qed

lemma hms_roundtrip: "s div 60 div 60 * 3600 + s div 60 mod 60 * 60 + s mod 60 = (s::int)"
  using mult_div_mod_eq [of 60 s] mult_div_mod_eq [of 60 "s div 60"] by linarith

lemma gm_ranges:
  fixes t
  assumes "first_second \<le> t"
  defines "u \<equiv> gm t"
  shows "date_ok (tm_year u + 1900) (tm_mon u + 1) (tm_mday u)"
    and "0 \<le> tm_hour u" "tm_hour u < 24" "0 \<le> tm_min u" "tm_min u < 60" "0 \<le> tm_sec u" "tm_sec u < 60"
    and "0 \<le> tm_mon u" "tm_mon u < 12" and "365 * (tm_year u + 6699) \<le> t div 86400 + 2472632"
proof -
  from gm_date [OF assms(1)] obtain y m d where ok: "date_ok y m d"
    and ymd: "ymd_of (t div 86400 + 2440588) = \<lparr>year = y, month = m, day = d\<rparr>"
    and y: "365 * (y + 4799) \<le> t div 86400 + 2472632" by metis
  define s where "s = t mod 86400"
  have s: "0 \<le> s" "s < 86400" by (simp_all add: s_def)
  then have hms: "s div 60 div 60 < 24" "0 \<le> s div 60 div 60" "0 \<le> s div 60 mod 60" "s div 60 mod 60 < 60"
      "0 \<le> s mod 60" "s mod 60 < 60"
    by auto
  have mon: "0 \<le> m - 1" "m - 1 < 12"
    using ok by (simp_all add: date_ok_def)
  have u: "tm_year u = y - 1900" "tm_mon u = m - 1" "tm_mday u = d" "tm_hour u = s div 60 div 60"
      "tm_min u = s div 60 mod 60" "tm_sec u = s mod 60"
    by (simp_all add: u_def gm_def ymd s_def Let_def)
  from y have "365 * (tm_year u + 6699) \<le> t div 86400 + 2472632" by (simp add: u)
  then show "365 * (tm_year u + 6699) \<le> t div 86400 + 2472632" .
  show "date_ok (tm_year u + 1900) (tm_mon u + 1) (tm_mday u)"
    and "0 \<le> tm_hour u" "tm_hour u < 24" "0 \<le> tm_min u" "tm_min u < 60" "0 \<le> tm_sec u" "tm_sec u < 60"
    and "0 \<le> tm_mon u" "tm_mon u < 12"
    unfolding u by (simp_all only: diff_add_cancel ok hms mon)
qed

lemma timegm_gm:
  assumes "first_second \<le> t"
  shows "timegm ((gm t)\<lparr>tm_isdst := a, tm_gmtoff := b, tm_zone := c\<rparr>) = t"
proof -
  from gm_date [OF assms] obtain y m d where ok: "date_ok y m d"
    and ymd: "ymd_of (t div 86400 + 2440588) = \<lparr>year = y, month = m, day = d\<rparr>"
    and jdn: "jdn y m d = t div 86400 + 2440588" by metis
  have "(m - 1) div 12 = 0" "(m - 1) mod 12 = m - 1"
    using ok by (simp_all add: date_ok_def)
  then have "timegm ((gm t)\<lparr>tm_isdst := a, tm_gmtoff := b, tm_zone := c\<rparr>) = t div 86400 * 86400
      + (t mod 86400 div 60 div 60 * 3600 + t mod 86400 div 60 mod 60 * 60 + t mod 86400 mod 60)"
    by (simp add: timegm_def gm_def ymd jdn Let_def)
  then show ?thesis by (simp only: hms_roundtrip div_mult_mod_eq)
qed

text \<open>Up to about the year 1.9 billion \<^verbatim>\<open>gmtime_r\<close> succeeds.\<close>

lemma gmtime_r_ok:
  assumes "first_second \<le> t" and "t < 60000000000000000"
  shows "gmtime_r t = Some (gm t)"
proof -
  have "t div 86400 \<le> 694444444444" using assms(2) by simp
  with gm_ranges(10) [OF assms(1)] have "tm_year (gm t) < 2147483648" by simp
  moreover have "- 4800 \<le> tm_year (gm t) + 1900"
    using gm_ranges(1) [OF assms(1)] by (auto simp: date_ok_def split: if_splits)
  ultimately show ?thesis by (simp add: gmtime_r_def)
qed

text \<open>In the range of \<^verbatim>\<open>base/Date.cc\<close> the source's own conversions are those of the C library, up to the
  weekday and the day of the year.\<close>

lemma toUtcTime_gm:
  assumes "first_second \<le> t" and "t < last_second"
  obtains w yd where "toUtcTime t f = (gm t)\<lparr>tm_wday := w, tm_yday := yd\<rparr>"
proof -
  define n where "n = t div 86400 + 2440588"
  have n: "- 32044 \<le> n" "n + 32044 < 511000000"
    using day_number_ge [OF assms(1)] assms(2) by (simp_all add: n_def last_second_def)
  then have ymd: "getYearMonthDay n = ymd_of n"
    by (intro getYearMonthDay_ymd_of) simp_all
  have rng: "date_ok (tm_year (gm t) + 1900) (tm_mon (gm t) + 1) (tm_mday (gm t))" "365 * (tm_year (gm t) + 6699) \<le> n + 32044"
    using gm_ranges [OF assms(1)] by (simp_all add: n_def)
  then have y: "- 4800 \<le> tm_year (gm t) + 1900" "tm_year (gm t) < 1400000" "0 \<le> tm_mon (gm t)" "tm_mon (gm t) < 12"
    using n by (auto simp: date_ok_def split: if_splits)
  have gmf: "tm_year (gm t) = year (ymd_of n) - 1900" "tm_mon (gm t) = month (ymd_of n) - 1"
    by (simp_all add: gm_def n_def Let_def)
  have small: "i32 (year (ymd_of n) - 1900) = year (ymd_of n) - 1900" "i32 (month (ymd_of n) - 1) = month (ymd_of n) - 1"
    using y unfolding gmf by simp_all
  have nn: "0 \<le> t mod 86400" "t mod 86400 < 86400" by simp_all
  have day: "kSecondsPerDay = 86400" by (simp add: kSecondsPerDay_def)
  have "(0::int) < 86400" by simp
  note floor = floor_split [OF this, of t]
  have q: "cmod t 86400 < 0 \<longrightarrow> cdiv t 86400 - 1 = n - 2440588" "\<not> cmod t 86400 < 0 \<longrightarrow> cdiv t 86400 = n - 2440588"
    using floor(2) by (auto simp: n_def split: if_splits)
  have r: "cmod t 86400 < 0 \<longrightarrow> cmod t 86400 + 86400 = t mod 86400" "\<not> cmod t 86400 < 0 \<longrightarrow> cmod t 86400 = t mod 86400"
    using floor(1) by (auto split: if_splits)
  have i: "i32 (cmod t 86400) = cmod t 86400" "i32 (cdiv t 86400) = cdiv t 86400"
    using q r n nn by (intro i32_id; linarith)+
  have sec: "(if cmod t 86400 < 0 then i32 (cmod t 86400 + 86400) else cmod t 86400) = t mod 86400"
    using r nn by simp
  have days: "(if cmod t 86400 < 0 then i32 (cdiv t 86400 - 1) else cdiv t 86400) = n - 2440588"
    using q i32_id [of "n - 2440588"] n by auto
  have jn: "i32 (n - 2440588 + kJulianDayOf1970_01_01) = n"
    using n by (simp add: kJulianDayOf1970_01_01_def)
  show ?thesis
    by (rule that [of "tm_yday (toUtcTime t f)" "tm_wday (toUtcTime t f)"],
        simp only: toUtcTime_def Let_def day i sec days jn)
       (simp add: fillHMS_def Date_of_jdn_def yearMonthDay_def ymd small tm_zero_def nn
          gm_def n_def [symmetric] Let_def pos_imp_zdiv_nonneg_iff)
qed

lemma fromUtcTime_timegm:
  assumes "date_ok (tm_year u + 1900) (tm_mon u + 1) (tm_mday u)" and "tm_year u + 1900 \<le> 1400000"
    and "0 \<le> tm_hour u" "tm_hour u < 24" "0 \<le> tm_min u" "tm_min u < 60" "0 \<le> tm_sec u" "tm_sec u < 60"
  shows "fromUtcTime u = timegm u"
proof -
  let ?n = "jdn (tm_year u + 1900) (tm_mon u + 1) (tm_mday u)"
  have mon: "0 \<le> tm_mon u" "tm_mon u < 12" and y: "- 4800 \<le> tm_year u + 1900"
    using assms(1) by (auto simp: date_ok_def split: if_splits)
  have args: "i32 (tm_year u + 1900) = tm_year u + 1900" "i32 (tm_mon u + 1) = tm_mon u + 1"
    using mon y assms(2) by simp_all
  have n: "- 32044 \<le> ?n" "4 * (?n + 32044) + 3 < 2147483648"
    using jdn_fits_int [OF assms(1,2)] by simp_all
  define sid where "sid = tm_hour u * 3600 + tm_min u * 60 + tm_sec u"
  have sid: "i32 (i32 (i32 (tm_hour u * 3600) + i32 (tm_min u * 60)) + tm_sec u) = sid" "0 \<le> sid" "sid < 90000"
    using assms(3-8) by (simp_all add: sid_def)
  have days: "i32 (?n - 2440588) = ?n - 2440588" using n by simp
  have "fromUtcTime u = i64 (i64 ((?n - 2440588) * 86400) + sid)"
    using days unfolding fromUtcTime_def args fromUtcTime_ymd_def sid(1) Let_def
    by (simp add: Date_of_ymd_def getJulianDayNumber_jdn [OF assms(1,2)] kJulianDayOf1970_01_01_def kSecondsPerDay_def)
  also have "\<dots> = (?n - 2440588) * 86400 + sid"
    using n sid(2,3) by simp
  finally show ?thesis
    using mon by (simp add: timegm_def sid_def)
qed

lemma fromUtcTime_toUtcTime:
  assumes "first_second \<le> t" and "t < last_second"
  shows "fromUtcTime (toUtcTime t f) = t"
proof -
  from toUtcTime_gm [OF assms] obtain w yd where u: "toUtcTime t f = (gm t)\<lparr>tm_wday := w, tm_yday := yd\<rparr>" .
  have "t div 86400 < 508527368" using assms(2) by (simp add: last_second_def)
  with gm_ranges(10) [OF assms(1)] have y: "tm_year (gm t) + 1900 \<le> 1400000" by simp
  have "fromUtcTime (toUtcTime t f) = timegm (toUtcTime t f)"
    by (rule fromUtcTime_timegm) (use gm_ranges [OF assms(1)] y in \<open>simp_all add: u\<close>)
  also have "\<dots> = timegm ((gm t)\<lparr>tm_isdst := False, tm_gmtoff := 0, tm_zone := ''GMT''\<rparr>)"
    by (simp add: u timegm_def)
  finally show ?thesis by (simp only: timegm_gm [OF assms(1)])
qed

section \<open>The local time type in force\<close>

definition trans_key :: "bool \<Rightarrow> Transition \<Rightarrow> int" where
  "trans_key compareGmt x = (if compareGmt then gmttime x else localtime x)"

lemma Comp_less_key: "Comp_less c x y \<longleftrightarrow> trans_key c x < trans_key c y"
  and Comp_equal_key: "Comp_equal c x y \<longleftrightarrow> trans_key c x = trans_key c y"
  by (simp_all add: Comp_less_def Comp_equal_def trans_key_def)

text \<open>The specification: the type of the last transition at or before the given time, the first type
  before any transition.\<close>

definition type_in_force :: "Data \<Rightarrow> bool \<Rightarrow> int \<Rightarrow> nat" where
  "type_in_force data c t =
     (case filter (\<lambda>x. trans_key c x \<le> t) (transitions data) of
        [] \<Rightarrow> 0 | xs \<Rightarrow> localtimeIdx (last xs))"

definition strictly_ascending :: "bool \<Rightarrow> Transition list \<Rightarrow> bool" where
  "strictly_ascending c ts = sorted_wrt (\<lambda>x y. trans_key c x < trans_key c y) ts"

lemma type_in_force_last:
  "filter (\<lambda>x. trans_key c x \<le> t) (transitions data) = xs \<Longrightarrow> xs \<noteq> [] \<Longrightarrow>
   type_in_force data c t = localtimeIdx (last xs)"
  by (cases xs) (simp_all add: type_in_force_def)

lemma lower_bound_takeWhile: "lower_bound lt ys x = length (takeWhile (\<lambda>y. lt y x) ys)"
  by (induction ys) simp_all

lemma last_take_nth: "0 < i \<Longrightarrow> i \<le> length xs \<Longrightarrow> last (take i xs) = xs ! (i - 1)"
  by (cases "take i xs = []") (auto simp: last_conv_nth)

text \<open>On ascending keys the elements at most \<open>t\<close> are those before the lower bound of \<open>t\<close>, and the one at
  the lower bound when its key is \<open>t\<close>.\<close>

lemma filter_le_lower_bound:
  fixes t :: int
  assumes "sorted_wrt (\<lambda>x y. k x < (k y :: int)) ts"
  defines "i \<equiv> length (takeWhile (\<lambda>x. k x < t) ts)"
  shows "filter (\<lambda>x. k x \<le> t) ts
       = take (if i < length ts \<and> k (ts ! i) = t then Suc i else i) ts"
  using assms(1) unfolding i_def
proof (induction ts)
  case (Cons a ts)
  show ?case
  proof (cases "k a < t")
    case True
    with Cons show ?thesis by simp
  next
    case False
    with Cons.prems have "filter (\<lambda>x. k x \<le> t) ts = []"
      by (fastforce simp: filter_empty_conv)
    with False show ?thesis by auto
  qed
qed simp

lemma findLocaltime_in_force:
  assumes "strictly_ascending c (transitions data)"
    and "\<And>x. x \<in> set (transitions data) \<Longrightarrow> localtimeIdx x < length (localtimes data)"
    and "localtimes data \<noteq> []" and key: "trans_key c sentry = t"
  shows "findLocaltime data sentry c = Some (localtimes data ! type_in_force data c t)"
proof -
  let ?ts = "transitions data"
  define i where "i = length (takeWhile (\<lambda>x. trans_key c x < t) ?ts)"
  have flt: "filter (\<lambda>x. trans_key c x \<le> t) ?ts
      = take (if i < length ?ts \<and> trans_key c (?ts ! i) = t then Suc i else i) ?ts"
    using assms(1) unfolding strictly_ascending_def i_def by (rule filter_le_lower_bound)
  have le: "i \<le> length ?ts" unfolding i_def by (rule length_takeWhile_le)
  have lb: "lower_bound (Comp_less c) ?ts sentry = i"
    by (simp add: lower_bound_takeWhile Comp_less_key key i_def)
  show ?thesis
  proof (cases "?ts = [] \<or> t < trans_key c (hd ?ts)")
    case True
    then have "filter (\<lambda>x. trans_key c x \<le> t) ?ts = []"
      using assms(1) by (cases ?ts) (auto simp: strictly_ascending_def filter_empty_conv)
    with True assms(3) key show ?thesis
      by (auto simp: findLocaltime_def type_in_force_def Comp_less_key nth_opt_def)
  next
    case False
    then obtain x xs where ts: "?ts = x # xs" "trans_key c x \<le> t" by (cases ?ts) auto
    have zero: "i = 0 \<Longrightarrow> trans_key c (?ts ! 0) = t"
      using ts by (simp add: i_def split: if_splits)
    have force: "localtimeIdx (?ts ! (if i < length ?ts \<and> trans_key c (?ts ! i) = t then i else i - 1))
        = type_in_force data c t"
    proof (cases "i < length ?ts \<and> trans_key c (?ts ! i) = t")
      case True
      then have "filter (\<lambda>x. trans_key c x \<le> t) ?ts = take i ?ts @ [?ts ! i]"
        by (simp only: flt take_Suc_conv_app_nth simp_thms if_True)
      from type_in_force_last [OF this] True show ?thesis by simp
    next
      case False
      with zero ts(1) have i: "0 < i" by (cases "i = 0") auto
      from False have "filter (\<lambda>x. trans_key c x \<le> t) ?ts = take i ?ts" by (simp only: flt if_False)
      moreover have "take i ?ts \<noteq> []" using i ts(1) by simp
      ultimately have "type_in_force data c t = localtimeIdx (?ts ! (i - 1))"
        using type_in_force_last last_take_nth [OF i le] by metis
      with False show ?thesis by (simp only: if_False)
    qed
    have idx: "j < length ?ts \<Longrightarrow> localtimeIdx (?ts ! j) < length (localtimes data)" for j
      by (rule assms(2)) simp
    have last: "last ?ts = ?ts ! (length ?ts - 1)" by (rule last_conv_nth) (simp add: ts(1))
    have enter: "findLocaltime data sentry c =
        (if i < length ?ts then
           (if t \<noteq> trans_key c (?ts ! i)
            then do { assert_that (i \<noteq> 0); nth_opt (localtimes data) (localtimeIdx (?ts ! (i - 1))) }
            else nth_opt (localtimes data) (localtimeIdx (?ts ! i)))
         else nth_opt (localtimes data) (localtimeIdx (last ?ts)))"
      using False by (simp add: findLocaltime_def Comp_less_key Comp_equal_key key lb Let_def)
    consider (hit) "i < length ?ts" "trans_key c (?ts ! i) = t"
      | (between) "i < length ?ts" "trans_key c (?ts ! i) \<noteq> t"
      | (after) "i = length ?ts" using le by linarith
    then show ?thesis
    proof cases
      case hit
      with force idx [of i] show ?thesis by (simp add: enter nth_opt_def)
    next
      case between
      with zero have "i \<noteq> 0" by metis
      with between force idx [of "i - 1"] show ?thesis unfolding enter by (auto simp: nth_opt_def)
    next
      case after
      with force idx [of "length ?ts - 1"] ts(1) show ?thesis unfolding enter last by (auto simp: nth_opt_def)
    qed
  qed
qed

section \<open>Writing a TZif file\<close>

text \<open>An encoder for version-1 TZif data, the specification the reader is checked against. A zone is given
  by its transitions (UTC time and type index), its types and its abbreviation characters.\<close>

definition be32_bytes :: "int \<Rightarrow> string" where
  "be32_bytes v = rev (le_bytes 4 (nat (v mod 2 ^ 32)))"

definition in_int32 :: "int \<Rightarrow> bool" where
  "in_int32 v \<longleftrightarrow> - (2 ^ 31) \<le> v \<and> v < 2 ^ 31"

definition type_bytes :: "Localtime \<Rightarrow> string" where
  "type_bytes l = be32_bytes (gmtOffset l) @ [char_of (if isDst l then 1 else 0 :: nat), char_of (arrbIdx l)]"

definition tzif :: "(int \<times> nat) list \<Rightarrow> Localtime list \<Rightarrow> string \<Rightarrow> string" where
  "tzif ts ls chars =
     ''TZif'' @ replicate 16 (CHR 0x00)
     @ be32_bytes 0 @ be32_bytes 0 @ be32_bytes 0
     @ be32_bytes (int (length ts)) @ be32_bytes (int (length ls)) @ be32_bytes (int (length chars))
     @ concat (map (be32_bytes \<circ> fst) ts) @ map (char_of \<circ> snd) ts
     @ concat (map type_bytes ls) @ chars"

definition zone_ok :: "(int \<times> nat) list \<Rightarrow> Localtime list \<Rightarrow> string \<Rightarrow> bool" where
  "zone_ok ts ls chars \<longleftrightarrow>
     (\<forall>(t, i) \<in> set ts. in_int32 t \<and> i < length ls \<and> i < 256)
     \<and> (\<forall>l \<in> set ls. in_int32 (gmtOffset l) \<and> arrbIdx l < 256)
     \<and> in_int32 (int (length ts)) \<and> in_int32 (int (length ls)) \<and> in_int32 (int (length chars))"

definition zone_data :: "(int \<times> nat) list \<Rightarrow> Localtime list \<Rightarrow> string \<Rightarrow> Data" where
  "zone_data ts ls chars =
     \<lparr>transitions = map (\<lambda>(t, i). \<lparr>gmttime = t, localtime = t + gmtOffset (ls ! i), localtimeIdx = i\<rparr>) ts,
      localtimes = ls, names = [], abbreviation_chars = chars\<rparr>"

lemma be32_int_bytes [simp]:
  assumes "in_int32 v"
  shows "be32_int (be32_bytes v) = v"
proof -
  have "int (nat (v mod 2 ^ 32) mod 256 ^ 4) = v mod 2 ^ 32"
    by (simp add: zmod_int)
  moreover have "(if v mod 2 ^ 32 < 2 ^ 31 then v mod 2 ^ 32 else v mod 2 ^ 32 - 2 ^ 32) = v"
  proof (cases "0 \<le> v")
    case True
    with assms show ?thesis by (simp add: in_int32_def)
  next
    case False
    have "v mod 2 ^ 32 = (v + 2 ^ 32) mod 2 ^ 32" by simp
    also have "\<dots> = v + 2 ^ 32"
      using assms False by (intro mod_pos_pos_trivial) (simp_all add: in_int32_def)
    finally show ?thesis using assms False by (simp add: in_int32_def)
  qed
  ultimately show ?thesis
    unfolding be32_int_def be32_bytes_def Let_def by (simp only: rev_rev_ident le_val_le_bytes)
qed

lemma length_be32_bytes [simp]: "length (be32_bytes v) = 4"
  by (simp only: be32_bytes_def length_rev length_le_bytes)

lemma rd_bind_Ret: "m s = (Ret x, s') \<Longrightarrow> rd_bind m k s = k x s'"
  by (simp add: rd_bind_def)

lemma readInt32_bytes: "in_int32 v \<Longrightarrow> File_readInt32 (d, be32_bytes v @ bs) = (Ret v, d, bs)"
  by (simp add: File_readInt32_def)

lemma readUInt8_byte: "n < 256 \<Longrightarrow> readUInt8 (d, char_of n # bs) = (Ret n, d, bs)"
  by (simp add: readUInt8_def)

lemma readBytes_app: "n = int (length xs) \<Longrightarrow> readBytes n (d, xs @ bs) = (Ret xs, d, bs)"
  by (simp add: readBytes_def)

lemma rd_times_enc:
  assumes "\<And>x d bs. x \<in> set xs \<Longrightarrow> m (d, enc x @ bs) = (Ret x, d, bs)"
  shows "rd_times (length xs) m (d, concat (map enc xs) @ bs) = (Ret xs, d, bs)"
  using assms
proof (induction xs arbitrary: bs)
  case (Cons x xs)
  then show ?case by (simp add: rd_bind_def rd_return_def)
qed (simp add: rd_return_def)

lemma read_type_bytes:
  assumes "in_int32 (gmtOffset l)" and "arrbIdx l < 256"
  shows "read_type (d, type_bytes l @ bs) = (Ret (), d\<lparr>localtimes := localtimes d @ [l]\<rparr>, bs)"
  using assms by (simp add: read_type_def type_bytes_def rd_bind_def readInt32_bytes readUInt8_byte push_localtime_def)

lemma read_types_bytes:
  assumes "\<forall>l \<in> set ls. in_int32 (gmtOffset l) \<and> arrbIdx l < 256"
  shows "\<exists>us. rd_times (length ls) read_type (d, concat (map type_bytes ls) @ bs)
           = (Ret us, d\<lparr>localtimes := localtimes d @ ls\<rparr>, bs)"
  using assms
proof (induction ls arbitrary: d)
  case (Cons l ls)
  let ?d = "d\<lparr>localtimes := localtimes d @ [l]\<rparr>"
  from Cons obtain us where
    "rd_times (length ls) read_type (?d, concat (map type_bytes ls) @ bs)
       = (Ret us, ?d\<lparr>localtimes := localtimes ?d @ ls\<rparr>, bs)" by fastforce
  with Cons.prems show ?case by (simp add: rd_bind_def rd_return_def read_type_bytes)
qed (simp add: rd_return_def)

lemma push_transitions_ok:
  assumes "\<forall>(t, i) \<in> set ts. i < length (localtimes d)"
  shows "push_transitions ts (d, bs) =
    (Ret (), d\<lparr>transitions := transitions d @
       map (\<lambda>(t, i). \<lparr>gmttime = t, localtime = t + gmtOffset (localtimes d ! i), localtimeIdx = i\<rparr>) ts\<rparr>, bs)"
  using assms
proof (induction ts arbitrary: d)
  case (Cons p ts)
  then show ?case by (cases p) auto
qed simp

lemma readTimeZoneBody_tzif:
  assumes "zone_ok ts ls chars"
  shows "readTimeZoneBody (empty_Data, tzif ts ls chars @ rest) = (Ret (), zone_data ts ls chars, rest)"
proof -
  have cnt: "in_int32 (int (length ts))" "in_int32 (int (length ls))" "in_int32 (int (length chars))"
    and ls: "\<forall>l \<in> set ls. in_int32 (gmtOffset l) \<and> arrbIdx l < 256"
    and ts: "\<forall>(t, i) \<in> set ts. in_int32 t \<and> i < length ls \<and> i < 256"
    using assms by (simp_all add: zone_ok_def)
  have zero: "in_int32 0" by (simp add: in_int32_def)
  have times: "rd_times (length ts) File_readInt32 (d, concat (map (be32_bytes \<circ> fst) ts) @ bs) = (Ret (map fst ts), d, bs)" for d bs
    using rd_times_enc [of "map fst ts" File_readInt32 be32_bytes d bs] ts readInt32_bytes by fastforce
  have idxs: "rd_times (length ts) readUInt8 (d, map (char_of \<circ> snd) ts @ bs) = (Ret (map snd ts), d, bs)" for d bs
  proof -
    have "map (char_of \<circ> snd) ts = concat (map (\<lambda>n. [char_of n]) (map snd ts))" by (induction ts) auto
    moreover have "readUInt8 (d, [char_of n] @ bs) = (Ret n, d, bs)" if "n \<in> set (map snd ts)" for n d bs
      using that ts readUInt8_byte [of n] by auto
    ultimately show ?thesis using rd_times_enc [of "map snd ts" readUInt8 "\<lambda>n. [char_of n]" d bs] by simp
  qed
  obtain us where types: "rd_times (length ls) read_type (empty_Data, concat (map type_bytes ls) @ chars @ rest)
      = (Ret us, empty_Data\<lparr>localtimes := ls\<rparr>, chars @ rest)"
    using read_types_bytes [OF ls, of empty_Data "chars @ rest"] by (auto simp: empty_Data_def)
  have push: "push_transitions ts (empty_Data\<lparr>localtimes := ls\<rparr>, chars @ rest)
      = (Ret (), (zone_data ts ls chars)\<lparr>abbreviation_chars := []\<rparr>, chars @ rest)"
    using ts by (subst push_transitions_ok) (auto simp: empty_Data_def zone_data_def)
  have head: "readBytes 4 (d, CHR ''T'' # CHR ''Z'' # CHR ''i'' # CHR ''f'' # bs) = (Ret ''TZif'', d, bs)"
    "readBytes 1 (d, CHR 0x00 # bs) = (Ret [CHR 0x00], d, bs)"
    "readBytes 15 (d, replicate 15 (CHR 0x00) @ bs) = (Ret (replicate 15 (CHR 0x00)), d, bs)" for d bs
    using readBytes_app [of 4 "''TZif''" d bs] readBytes_app [of 1 "[CHR 0x00]" d bs]
      readBytes_app [of 15 "replicate 15 (CHR 0x00)" d bs] by simp_all
  have "replicate 16 (CHR 0x00) = CHR 0x00 # replicate 15 (CHR 0x00)"
    using replicate_Suc [of 15 "CHR 0x00"] by simp
  then have bytes: "tzif ts ls chars @ rest = CHR ''T'' # CHR ''Z'' # CHR ''i'' # CHR ''f'' # CHR 0x00 # replicate 15 (CHR 0x00)
     @ be32_bytes 0 @ be32_bytes 0 @ be32_bytes 0
     @ be32_bytes (int (length ts)) @ be32_bytes (int (length ls)) @ be32_bytes (int (length chars))
     @ concat (map (be32_bytes \<circ> fst) ts) @ map (char_of \<circ> snd) ts
     @ concat (map type_bytes ls) @ chars @ rest"
    by (simp add: tzif_def)
  show ?thesis
    unfolding readTimeZoneBody_def bytes
    by (simp add: rd_bind_def head readInt32_bytes zero cnt times idxs types push zip_map_fst_snd readBytes_app
        set_abbreviation_def zone_data_def)
qed

section \<open>Properties\<close>

definition data_ok :: "Data \<Rightarrow> bool" where
  "data_ok data \<longleftrightarrow> strictly_ascending True (transitions data) \<and> localtimes data \<noteq> []
     \<and> (\<forall>x \<in> set (transitions data). localtimeIdx x < length (localtimes data))
     \<and> (\<forall>l \<in> set (localtimes data). arrbIdx l \<le> length (abbreviation_chars data))"

definition offset_at :: "Data \<Rightarrow> int \<Rightarrow> int" where
  "offset_at data t = gmtOffset (localtimes data ! type_in_force data True t)"

lemma type_in_force_less:
  assumes "localtimes data \<noteq> []" "\<forall>x \<in> set (transitions data). localtimeIdx x < length (localtimes data)"
  shows "type_in_force data c t < length (localtimes data)"
proof (cases "filter (\<lambda>x. trans_key c x \<le> t) (transitions data)")
  case Nil
  with assms(1) show ?thesis by (simp add: type_in_force_def)
next
  case (Cons a xs)
  then have "last (a # xs) \<in> set (transitions data)"
    by (metis filter_is_subset last_in_set list.distinct(1) subsetD)
  with assms(2) type_in_force_last [OF Cons] show ?thesis by simp
qed

lemma toLocalTime_ok:
  fixes t
  assumes "data_ok data"
  defines "l \<equiv> localtimes data ! type_in_force data True t"
  assumes "first_second \<le> t + gmtOffset l" and "t + gmtOffset l < 60000000000000000"
  obtains zone where "toLocalTime (Some data) t =
    Some ((gm (t + gmtOffset l))\<lparr>tm_isdst := isDst l, tm_gmtoff := gmtOffset l, tm_zone := zone\<rparr>)"
proof -
  have "findLocaltime data \<lparr>gmttime = t, localtime = 0, localtimeIdx = 0\<rparr> True = Some l"
    unfolding l_def using assms(1)
    by (intro findLocaltime_in_force) (auto simp: data_ok_def trans_key_def)
  moreover have "l \<in> set (localtimes data)"
    unfolding l_def using assms(1) by (intro nth_mem type_in_force_less) (simp_all add: data_ok_def)
  then have "arrbIdx l \<le> length (abbreviation_chars data)"
    using assms(1) by (simp add: data_ok_def)
  moreover have "i64 (t + gmtOffset l) = t + gmtOffset l"
    using assms(3,4) by (simp add: first_second_def)
  ultimately show ?thesis
    using gmtime_r_ok [OF assms(3,4)] by (intro that) (simp add: toLocalTime_def c_str_at_def Let_def)
qed

text \<open>Converting a time to broken-down UTC and back is the identity, for every time from March
  4801 BC to about the year 1395000, before and after 1970, and the fields are a valid Gregorian date
  and time of day.\<close>

theorem utc_roundtrip:
  assumes "first_second \<le> t" and "t < last_second" and "u = toUtcTime t f"
  shows "fromUtcTime u = t \<and> date_ok (tm_year u + 1900) (tm_mon u + 1) (tm_mday u)
       \<and> 0 \<le> tm_hour u \<and> tm_hour u < 24 \<and> 0 \<le> tm_min u \<and> tm_min u < 60 \<and> 0 \<le> tm_sec u \<and> tm_sec u < 60"
proof -
  from toUtcTime_gm [OF assms(1,2)] obtain w yd where "toUtcTime t f = (gm t)\<lparr>tm_wday := w, tm_yday := yd\<rparr>" .
  with gm_ranges [OF assms(1)] fromUtcTime_toUtcTime [OF assms(1,2), of f] show ?thesis
    unfolding assms(3) by simp
qed

theorem utc_roundtrip_witness: "fromUtcTime (toUtcTime (- 1) True) = - 1"
  using utc_roundtrip [of "- 1" "toUtcTime (- 1) True" True] by (simp add: first_second_def last_second_def)

text \<open>C7: reading a TZif file recovers the transitions, the local time types and the abbreviations that were
  written to it, whatever follows them in the file.\<close>

theorem tzif_roundtrip:
  assumes "zone_ok ts ls chars"
  shows "TimeZone_of_file (Some (tzif ts ls chars @ rest)) = Some (Some (zone_data ts ls chars))"
  using readTimeZoneBody_tzif [OF assms, of rest] by (simp add: TimeZone_of_file_def readTimeZoneFile_def)

definition sample_types :: "Localtime list" where
  "sample_types = [\<lparr>gmtOffset = 28800, isDst = False, arrbIdx = 0\<rparr>, \<lparr>gmtOffset = 32400, isDst = True, arrbIdx = 4\<rparr>]"

theorem tzif_roundtrip_witness:
  "TimeZone_of_file (Some (tzif [(515520000, 1), (527007600, 0)] sample_types ''CST CDT''))
   = Some (Some (zone_data [(515520000, 1), (527007600, 0)] sample_types ''CST CDT''))"
  using tzif_roundtrip [of "[(515520000, 1), (527007600, 0)]" sample_types "''CST CDT''" "[]"]
  by (simp add: zone_ok_def in_int32_def sample_types_def)

text \<open>C8: local time is UTC shifted by the offset of the last transition at or before the instant (of the
  first type when there is none), and converting it back gives the instant wherever the search by
  local time finds the same type, in daylight saving time too. The instant is a 64-bit \<^verbatim>\<open>time_t\<close> whose
  local time lies between March 4801 BC and about the year 1.9 billion, where \<^verbatim>\<open>gmtime_r\<close> succeeds; a
  local time whose year does not fit an \<^verbatim>\<open>int\<close> is not converted (\<open>far_local_time\<close>).\<close>

theorem local_time_roundtrip:
  assumes "data_ok data" and "strictly_ascending False (transitions data)"
    and "type_in_force data False (t + offset_at data t) = type_in_force data True t"
    and "- (2 ^ 63) \<le> t" and "t < 2 ^ 63"
    and "first_second \<le> t + offset_at data t" and "t + offset_at data t < 60000000000000000"
  shows "\<exists>x. toLocalTime (Some data) t = Some x \<and> tm_gmtoff x = offset_at data t
           \<and> timegm x = t + offset_at data t \<and> fromLocalTime (Some data) x = Some t"
proof -
  define l where "l = localtimes data ! type_in_force data True t"
  have off: "offset_at data t = gmtOffset l" by (simp add: offset_at_def l_def)
  note rng = assms(6,7) [unfolded off]
  from toLocalTime_ok [OF assms(1) rng [unfolded l_def]] obtain zone where x: "toLocalTime (Some data) t =
      Some ((gm (t + gmtOffset l))\<lparr>tm_isdst := isDst l, tm_gmtoff := gmtOffset l, tm_zone := zone\<rparr>)"
    unfolding l_def .
  let ?x = "(gm (t + gmtOffset l))\<lparr>tm_isdst := isDst l, tm_gmtoff := gmtOffset l, tm_zone := zone\<rparr>"
  have inv: "timegm ?x = t + gmtOffset l"
    using rng(1) by (rule timegm_gm)
  have "findLocaltime data \<lparr>gmttime = 0, localtime = t + gmtOffset l, localtimeIdx = 0\<rparr> False
      = Some (localtimes data ! type_in_force data False (t + gmtOffset l))"
    using assms(1,2) by (intro findLocaltime_in_force) (auto simp: data_ok_def trans_key_def)
  then have "findLocaltime data \<lparr>gmttime = 0, localtime = t + gmtOffset l, localtimeIdx = 0\<rparr> False = Some l"
    using assms(3) by (simp add: off l_def)
  moreover have "i64 t = t" using assms(4,5) by simp
  ultimately have "fromLocalTime (Some data) ?x = Some t"
    using inv x by (simp add: fromLocalTime_def Let_def)
  with x inv off show ?thesis by simp
qed

theorem local_time_roundtrip_witness:
  "\<exists>x. toLocalTime (Some (zone_data [(515520000, 1), (527007600, 0)] sample_types ''CST CDT'')) 520000000 = Some x
     \<and> tm_gmtoff x = 32400
     \<and> fromLocalTime (Some (zone_data [(515520000, 1), (527007600, 0)] sample_types ''CST CDT'')) x = Some 520000000"
proof -
  let ?d = "zone_data [(515520000, 1), (527007600, 0)] sample_types ''CST CDT''"
  have "data_ok ?d" "strictly_ascending False (transitions ?d)"
    by (simp_all add: data_ok_def strictly_ascending_def zone_data_def sample_types_def trans_key_def)
  moreover have off: "offset_at ?d 520000000 = 32400"
    by (simp add: offset_at_def type_in_force_def zone_data_def sample_types_def trans_key_def)
  moreover have "type_in_force ?d False 520032400 = type_in_force ?d True 520000000"
    by (simp add: type_in_force_def zone_data_def sample_types_def trans_key_def)
  ultimately show ?thesis
    using local_time_roundtrip [of ?d 520000000] by (auto simp: first_second_def)
qed

text \<open>A time so late that its year does not fit: \<^verbatim>\<open>gmtime_r\<close> fails, which \<^verbatim>\<open>toLocalTime\<close> does not check.\<close>

lemma far_local_time: "toLocalTime (TimeZone_fixed 28800 ''CST'') (2 ^ 62) = None"
proof -
  have "gmtime_r (i64 (2 ^ 62 + 28800)) = None" by code_simp
  then show ?thesis by (simp add: toLocalTime_def TimeZone_fixed_def findLocaltime_def nth_opt_def empty_Data_def)
qed

text \<open>A zone file that cannot be opened, or that does not start with the TZif magic, still gives a zone
  that reports itself valid; the first conversion to local time then reads an element of an empty
  vector.\<close>

theorem bad_zone_file:
  assumes "take 4 bytes \<noteq> ''TZif''" and "tz \<in> {TimeZone_of_file None, TimeZone_of_file (Some bytes)}"
  shows "tz = Some (Some empty_Data) \<and> TimeZone_valid (the tz) \<and> toLocalTime (the tz) t = None"
proof -
  have "readTimeZoneBody (empty_Data, bytes) =
      (if length bytes < 4 then (Throw ''no enough data'', empty_Data, [])
       else (Throw ''bad head'', empty_Data, drop 4 bytes))"
    using assms(1) by (simp add: readTimeZoneBody_def rd_bind_def readBytes_def rd_throw_def)
  then have "tz = Some (Some empty_Data)"
    using assms(2) by (auto simp: TimeZone_of_file_def readTimeZoneFile_def)
  then show ?thesis
    by (simp add: TimeZone_valid_def toLocalTime_def findLocaltime_def empty_Data_def nth_opt_def)
qed

theorem bad_zone_file_witness:
  "TimeZone_of_file (Some ''garbage'') = Some (Some empty_Data) \<and> toLocalTime (Some empty_Data) 0 = None"
  using bad_zone_file [of "''garbage''" "TimeZone_of_file (Some ''garbage'')" 0] by auto

end
