(* ===== verification/Timestamp.thy ===== *)
theory Timestamp
  imports TimeZone
begin

text \<open>
  \<^verbatim>\<open>base/Timestamp.h\<close> and \<^verbatim>\<open>base/Timestamp.cc\<close>: microseconds since the epoch. The operators of the
  source make \<open>Timestamp\<close> a linear order, which the type class instance records.
  \<^verbatim>\<open>gettimeofday\<close> and the conversion of a \<^verbatim>\<open>double\<close> to microseconds are arguments.
\<close>

datatype Timestamp = Timestamp (microSecondsSinceEpoch: int)

definition kMicroSecondsPerSecond :: int where
  "kMicroSecondsPerSecond = 1000 * 1000"

definition Timestamp_invalid :: Timestamp where
  "Timestamp_invalid = Timestamp 0"

definition Timestamp_swap :: "Timestamp \<Rightarrow> Timestamp \<Rightarrow> Timestamp \<times> Timestamp" where
  "Timestamp_swap this that = (that, this)"

definition Timestamp_valid :: "Timestamp \<Rightarrow> bool" where
  "Timestamp_valid x \<longleftrightarrow> microSecondsSinceEpoch x > 0"

definition secondsSinceEpoch :: "Timestamp \<Rightarrow> int" where
  "secondsSinceEpoch x = cdiv (microSecondsSinceEpoch x) kMicroSecondsPerSecond"

definition fromUnixTime_us :: "int \<Rightarrow> int \<Rightarrow> Timestamp" where
  "fromUnixTime_us t microseconds = Timestamp (t * kMicroSecondsPerSecond + microseconds)"

definition fromUnixTime :: "int \<Rightarrow> Timestamp" where
  "fromUnixTime t = fromUnixTime_us t 0"

text \<open>\<open>(tv_sec, tv_usec)\<close> is what \<^verbatim>\<open>gettimeofday\<close> stores.\<close>

definition now :: "int \<times> int \<Rightarrow> Timestamp" where
  "now tv = (let seconds = fst tv in Timestamp (seconds * kMicroSecondsPerSecond + snd tv))"

definition Timestamp_less :: "Timestamp \<Rightarrow> Timestamp \<Rightarrow> bool" where
  "Timestamp_less lhs rhs \<longleftrightarrow> microSecondsSinceEpoch lhs < microSecondsSinceEpoch rhs"

definition Timestamp_eq :: "Timestamp \<Rightarrow> Timestamp \<Rightarrow> bool" where
  "Timestamp_eq lhs rhs \<longleftrightarrow> microSecondsSinceEpoch lhs = microSecondsSinceEpoch rhs"

text \<open>\<open>to_us seconds\<close> is \<^verbatim>\<open>static_cast<int64_t>(seconds * kMicroSecondsPerSecond)\<close>.\<close>

definition addTime :: "('d \<Rightarrow> int) \<Rightarrow> Timestamp \<Rightarrow> 'd \<Rightarrow> Timestamp" where
  "addTime to_us timestamp seconds =
     (let delta = to_us seconds in Timestamp (microSecondsSinceEpoch timestamp + delta))"

definition Timestamp_toString :: "Timestamp \<Rightarrow> string" where
  "Timestamp_toString x =
     (let seconds = cdiv (microSecondsSinceEpoch x) kMicroSecondsPerSecond;
          microseconds = cmod (microSecondsSinceEpoch x) kMicroSecondsPerSecond
      in snprintf 31 (dec_int seconds @ ''.'' @ fmt_0d 6 microseconds))"

text \<open>A 64-bit number of microseconds is a time that \<^verbatim>\<open>gmtime_r\<close> converts (\<open>gmtime_r_of_us\<close> shows it from 1970 on), so the
  fields are those of \<^const>\<open>gm\<close>.\<close>

definition toFormattedString :: "Timestamp \<Rightarrow> bool \<Rightarrow> string" where
  "toFormattedString x showMicroseconds =
     (let seconds = cdiv (microSecondsSinceEpoch x) kMicroSecondsPerSecond;
          tm_time = gm seconds
      in if showMicroseconds then
           let microseconds = cmod (microSecondsSinceEpoch x) kMicroSecondsPerSecond
           in snprintf 32 (fmt_d 4 (tm_year tm_time + 1900) @ fmt_0d 2 (tm_mon tm_time + 1) @ fmt_0d 2 (tm_mday tm_time)
                @ '' '' @ fmt_0d 2 (tm_hour tm_time) @ '':'' @ fmt_0d 2 (tm_min tm_time) @ '':'' @ fmt_0d 2 (tm_sec tm_time)
                @ ''.'' @ fmt_0d 6 microseconds)
         else
           snprintf 32 (fmt_d 4 (tm_year tm_time + 1900) @ fmt_0d 2 (tm_mon tm_time + 1) @ fmt_0d 2 (tm_mday tm_time)
                @ '' '' @ fmt_0d 2 (tm_hour tm_time) @ '':'' @ fmt_0d 2 (tm_min tm_time) @ '':'' @ fmt_0d 2 (tm_sec tm_time)))"

section \<open>The order\<close>

instantiation Timestamp :: linorder
begin

definition less_Timestamp_def: "x < y \<longleftrightarrow> Timestamp_less x y"

definition less_eq_Timestamp_def: "x \<le> y \<longleftrightarrow> Timestamp_less x y \<or> Timestamp_eq x y"

instance
  by standard
     (auto simp: less_Timestamp_def less_eq_Timestamp_def Timestamp_less_def Timestamp_eq_def Timestamp.expand)

end

lemma less_eq_Timestamp [simp]: "Timestamp a \<le> Timestamp b \<longleftrightarrow> a \<le> b"
  and less_Timestamp [simp]: "Timestamp a < Timestamp b \<longleftrightarrow> a < b"
  by (auto simp: less_Timestamp_def less_eq_Timestamp_def Timestamp_less_def Timestamp_eq_def)

section \<open>Fixed-width decimal fields\<close>

lemma length_dec_nat_ge: "10 ^ k \<le> n \<Longrightarrow> k < length (dec_nat n)"
proof (induction k arbitrary: n)
  case (Suc k)
  then have "10 ^ k \<le> n div 10" "\<not> n < 10"
    by (simp_all add: less_eq_div_iff_mult_less_eq mult.commute) (metis le_trans mult.commute mult_le_mono2 nat_mult_1_right one_le_numeral one_le_power not_le)
  with Suc.IH show ?case by (simp add: dec_nat.simps [of n])
qed simp

lemma undec_zeros: "undec (replicate k CHR ''0'' @ cs) = undec cs"
  by (induction k) (simp_all add: undec.simps)

lemma fmt_0d_field:
  assumes "0 \<le> v" and "v < 10 ^ w" and "0 < w"
  shows "length (fmt_0d w v) = w" and "undec (fmt_0d w v) = nat v"
proof -
  from assms have "nat v < 10 ^ Suc (w - 1)" by (simp add: nat_less_iff)
  then have "length (dec_nat (nat v)) \<le> w" using length_dec_nat [of "nat v" "w - 1"] assms(3) by simp
  with assms(1) show "length (fmt_0d w v) = w" and "undec (fmt_0d w v) = nat v"
    by (simp_all add: fmt_0d_def Let_def undec_zeros)
qed

lemma fmt_d_field:
  assumes "10 ^ (w - 1) \<le> v" and "v < 10 ^ w" and "0 < w"
  shows "length (fmt_d w v) = w" and "undec (fmt_d w v) = nat v"
proof -
  have nn: "0 \<le> v" using assms(1) by (meson order_trans zero_le_numeral zero_le_power)
  from assms have "nat v < 10 ^ Suc (w - 1)" by (simp add: nat_less_iff)
  then have "length (dec_nat (nat v)) \<le> w" using length_dec_nat [of "nat v" "w - 1"] assms(3) by simp
  moreover have "10 ^ (w - 1) \<le> nat v" using assms(1) nn by (simp add: le_nat_iff)
  then have "w - 1 < length (dec_nat (nat v))" by (rule length_dec_nat_ge)
  ultimately have "length (dec_nat (nat v)) = w" by simp
  with nn show "length (fmt_d w v) = w" and "undec (fmt_d w v) = nat v"
    by (simp_all add: fmt_d_def dec_int_def)
qed

section \<open>Formatted time can be parsed back\<close>

lemma gmtime_r_of_us:
  assumes "0 \<le> us" and "us < 2 ^ 63"
  shows "gmtime_r (cdiv us kMicroSecondsPerSecond) = Some (gm (cdiv us kMicroSecondsPerSecond))"
proof -
  have "0 \<le> cdiv us kMicroSecondsPerSecond" "cdiv us kMicroSecondsPerSecond < 60000000000000000"
    using assms by (simp_all add: kMicroSecondsPerSecond_def pos_imp_zdiv_nonneg_iff)
  then show ?thesis by (intro gmtime_r_ok) (simp_all add: first_second_def)
qed

definition parse_formatted :: "string \<Rightarrow> Timestamp" where
  "parse_formatted cs =
     (let field = (\<lambda>i n. int (undec (subrange i n cs)))
      in fromUnixTime_us (fromUtcTime_ymd (field 0 4) (field 4 2) (field 6 2) (field 9 2) (field 12 2) (field 15 2))
           (field 18 6))"

lemma subrange_app_skip: "length xs \<le> i \<Longrightarrow> subrange i n (xs @ ys) = subrange (i - length xs) n ys"
  by (simp add: subrange_def)

lemma subrange_app_here: "length xs = n \<Longrightarrow> subrange 0 n (xs @ ys) = xs"
  by (simp add: subrange_def)

lemma subrange_Cons_skip: "0 < i \<Longrightarrow> subrange i n (c # ys) = subrange (i - 1) n ys"
  by (cases i) (simp_all add: subrange_def)

lemma subrange_all: "length xs = n \<Longrightarrow> subrange 0 n xs = xs"
  by (simp add: subrange_def)

lemmas subrange_eval = subrange_app_skip subrange_app_here subrange_Cons_skip subrange_all

text \<open>For non-negative times up to the year 9999, \<^verbatim>\<open>toFormattedString\<close> is a text of 24 characters
  (17 without microseconds) whose fields give the time stamp back, so no two times print alike;
  the 32-byte buffer is never cut.\<close>

theorem formatted_roundtrip:
  assumes "0 \<le> us"
    and "1000 \<le> tm_year (gm (us div 1000000)) + 1900" and "tm_year (gm (us div 1000000)) + 1900 \<le> 9999"
  shows "parse_formatted (toFormattedString (Timestamp us) True) = Timestamp us
       \<and> length (toFormattedString (Timestamp us) True) = 24
       \<and> toFormattedString (Timestamp us) False = take 17 (toFormattedString (Timestamp us) True)"
proof -
  define t where "t = us div 1000000"
  define u where "u = gm t"
  have t: "0 \<le> t" unfolding t_def using assms(1) by (simp add: pos_imp_zdiv_nonneg_iff)
  then have first: "first_second \<le> t" by (simp add: first_second_def)
  note rng = gm_ranges [OF first, folded u_def]
  have md: "1 \<le> tm_mday u" "tm_mday u < 100" "0 \<le> tm_mon u + 1" "tm_mon u + 1 < 100"
    using rng(1,8,9) by (auto simp: date_ok_def days_in_month_def split: if_splits)
  have yr: "1000 \<le> tm_year u + 1900" "tm_year u + 1900 \<le> 9999"
    using assms(2,3) unfolding u_def t_def by simp_all
  define m where "m = us mod 1000000"
  have m: "0 \<le> m" "m < 1000000" by (simp_all add: m_def)
  have Y: "length (fmt_d 4 (tm_year u + 1900)) = 4" "int (undec (fmt_d 4 (tm_year u + 1900))) = tm_year u + 1900"
    using fmt_d_field [of 4 "tm_year u + 1900"] yr by simp_all
  have two: "length (fmt_0d 2 v) = 2" "int (undec (fmt_0d 2 v)) = v" if "0 \<le> v" "v < 100" for v
    using fmt_0d_field [of v 2] that by simp_all
  have six: "length (fmt_0d 6 m) = 6" "int (undec (fmt_0d 6 m)) = m"
    using fmt_0d_field [of m 6] m by simp_all
  have lens: "length (fmt_0d 2 (tm_mon u + 1)) = 2" "length (fmt_0d 2 (tm_mday u)) = 2" "length (fmt_0d 2 (tm_hour u)) = 2"
      "length (fmt_0d 2 (tm_min u)) = 2" "length (fmt_0d 2 (tm_sec u)) = 2"
    using rng md by (auto intro!: two(1))
  have vals: "int (undec (fmt_0d 2 (tm_mon u + 1))) = tm_mon u + 1" "int (undec (fmt_0d 2 (tm_mday u))) = tm_mday u"
      "int (undec (fmt_0d 2 (tm_hour u))) = tm_hour u" "int (undec (fmt_0d 2 (tm_min u))) = tm_min u"
      "int (undec (fmt_0d 2 (tm_sec u))) = tm_sec u"
    using rng md by (auto intro!: two(2))
  let ?s = "fmt_d 4 (tm_year u + 1900) @ fmt_0d 2 (tm_mon u + 1) @ fmt_0d 2 (tm_mday u)
                @ '' '' @ fmt_0d 2 (tm_hour u) @ '':'' @ fmt_0d 2 (tm_min u) @ '':'' @ fmt_0d 2 (tm_sec u)"
  have cuts: "cdiv us kMicroSecondsPerSecond = t" "cmod us kMicroSecondsPerSecond = m"
    using assms(1) by (simp_all add: t_def m_def kMicroSecondsPerSecond_def)
  have out: "toFormattedString (Timestamp us) True = ?s @ ''.'' @ fmt_0d 6 m"
      "toFormattedString (Timestamp us) False = ?s" "length ?s = 17"
    by (simp_all add: toFormattedString_def cuts u_def [symmetric] Let_def snprintf_def Y lens six)
  have "fromUtcTime_ymd (tm_year u + 1900) (tm_mon u + 1) (tm_mday u) (tm_hour u) (tm_min u) (tm_sec u) = t"
  proof -
    have "fromUtcTime u = timegm u"
      by (rule fromUtcTime_timegm) (use rng yr in simp_all)
    also have "timegm u = t"
      using timegm_gm [OF first, of "''GMT''" 0 False] by (simp add: u_def timegm_def)
    moreover have "i32 (tm_year u + 1900) = tm_year u + 1900" "i32 (tm_mon u + 1) = tm_mon u + 1"
      using yr rng(8,9) by simp_all
    ultimately show ?thesis by (simp add: fromUtcTime_def)
  qed
  moreover have "t * 1000000 + m = us" by (simp add: t_def m_def)
  ultimately have "parse_formatted (toFormattedString (Timestamp us) True) = Timestamp us"
    unfolding out(1) parse_formatted_def
    by (simp add: subrange_eval Y lens vals six fromUnixTime_us_def kMicroSecondsPerSecond_def
        Let_def)
  moreover have "length (toFormattedString (Timestamp us) True) = 24"
    unfolding out(1) by (simp add: Y lens six)
  moreover have "take 17 (toFormattedString (Timestamp us) True) = ?s"
    unfolding out(1) using out(3) by (metis append_eq_conv_conj)
  ultimately show ?thesis by (simp only: out(2))
qed

theorem formatted_roundtrip_witness:
  "parse_formatted (toFormattedString (Timestamp 0) True) = Timestamp 0
   \<and> length (toFormattedString (Timestamp 0) True) = 24"
proof -
  have "tm_year (gm 0) = 70"
    by code_simp
  then show ?thesis using formatted_roundtrip [of 0] by simp
qed

end
