(* ===== verification/Channel.thy ===== *)
theory Channel
  imports Timestamp "HOL-Library.Word"
begin

text \<open>
  \<^verbatim>\<open>Channel.h\<close> and the part of \<^verbatim>\<open>Channel.cpp\<close> that works on one channel: the event masks
  as 32-bit words and their text. The operations that call back into the loop are in the
  theory \<open>EventLoop\<close>. Objects are named by numbers: \<open>ch_loop\<close> is the owner loop, \<open>ch_tie\<close> the object a
  weak pointer was taken of.
\<close>

unbundle bit_operations_syntax

section \<open>Event bits\<close>

definition POLLIN :: "32 word" where "POLLIN = 0x001"

definition POLLPRI :: "32 word" where "POLLPRI = 0x002"

definition POLLOUT :: "32 word" where "POLLOUT = 0x004"

definition POLLERR :: "32 word" where "POLLERR = 0x008"

definition POLLHUP :: "32 word" where "POLLHUP = 0x010"

definition POLLNVAL :: "32 word" where "POLLNVAL = 0x020"

definition POLLRDHUP :: "32 word" where "POLLRDHUP = 0x2000"

lemmas poll_bits = POLLIN_def POLLPRI_def POLLOUT_def POLLERR_def POLLHUP_def POLLNVAL_def POLLRDHUP_def

definition kNoneEvent :: "32 word" where
  "kNoneEvent = 0"

definition kReadEvent :: "32 word" where
  "kReadEvent = POLLIN OR POLLPRI"

definition kWriteEvent :: "32 word" where
  "kWriteEvent = POLLOUT"

text \<open>\<^verbatim>\<open>ev & mask\<close> used as a condition.\<close>

definition has :: "32 word \<Rightarrow> 32 word \<Rightarrow> bool" where
  "has ev m \<longleftrightarrow> ev AND m \<noteq> 0"

section \<open>The channel\<close>

record Channel =
  ch_loop :: nat
  ch_fd :: int
  ch_events :: "32 word"
  ch_revents :: "32 word"
  ch_index :: int
  ch_eventHandling :: bool
  ch_addedToLoop :: bool
  ch_tied :: bool
  ch_tie :: "nat option"

definition new_Channel :: "nat \<Rightarrow> int \<Rightarrow> Channel" where
  "new_Channel loop fd =
     \<lparr>ch_loop = loop, ch_fd = fd, ch_events = 0, ch_revents = 0, ch_index = -1, ch_eventHandling = False,
      ch_addedToLoop = False, ch_tied = False, ch_tie = None\<rparr>"

definition tie :: "nat \<Rightarrow> Channel \<Rightarrow> Channel" where
  "tie obj c = c\<lparr>ch_tie := Some obj, ch_tied := True\<rparr>"

definition set_revents :: "32 word \<Rightarrow> Channel \<Rightarrow> Channel" where
  "set_revents revt c = c\<lparr>ch_revents := revt\<rparr>"

definition set_index :: "int \<Rightarrow> Channel \<Rightarrow> Channel" where
  "set_index idx c = c\<lparr>ch_index := idx\<rparr>"

definition isNoneEvent :: "Channel \<Rightarrow> bool" where
  "isNoneEvent c \<longleftrightarrow> ch_events c = kNoneEvent"

definition isWriting :: "Channel \<Rightarrow> bool" where
  "isWriting c = has (ch_events c) kWriteEvent"

definition isReading :: "Channel \<Rightarrow> bool" where
  "isReading c = has (ch_events c) kReadEvent"

text \<open>What the five interest operations do to the mask; each is followed by \<^verbatim>\<open>update()\<close>.\<close>

datatype interest = EnableReading | DisableReading | EnableWriting | DisableWriting | DisableAll

fun apply_interest :: "interest \<Rightarrow> 32 word \<Rightarrow> 32 word" where
  "apply_interest EnableReading ev = ev OR kReadEvent"
| "apply_interest DisableReading ev = ev AND NOT kReadEvent"
| "apply_interest EnableWriting ev = ev OR kWriteEvent"
| "apply_interest DisableWriting ev = ev AND NOT kWriteEvent"
| "apply_interest DisableAll ev = kNoneEvent"

definition events_text :: "int \<Rightarrow> 32 word \<Rightarrow> string" where
  "events_text fd ev =
     dec_int fd @ '': '' @ (if has ev POLLIN then ''IN '' else []) @ (if has ev POLLPRI then ''PRI '' else [])
     @ (if has ev POLLOUT then ''OUT '' else []) @ (if has ev POLLHUP then ''HUP '' else [])
     @ (if has ev POLLRDHUP then ''RDDHUP '' else []) @ (if has ev POLLERR then ''ERR '' else [])
     @ (if has ev POLLNVAL then ''NVAL '' else [])"

definition eventsToString :: "Channel \<Rightarrow> string" where
  "eventsToString c = events_text (ch_fd c) (ch_events c)"

definition reventsToString :: "Channel \<Rightarrow> string" where
  "reventsToString c = events_text (ch_fd c) (ch_revents c)"

section \<open>The masks\<close>

text \<open>The events that \<^verbatim>\<open>handleEventWithGuard\<close> can take: after a hang-up without readable data the close callback has run,
  so no read event may come with it.\<close>

definition event_ok :: "32 word \<Rightarrow> bool" where
  "event_ok r \<longleftrightarrow> (has r POLLHUP \<and> \<not> has r POLLIN \<longrightarrow> \<not> has r POLLPRI \<and> \<not> has r POLLRDHUP)"

definition has_write :: "32 word \<Rightarrow> bool" where
  "has_write ev = has ev kWriteEvent"

definition has_read :: "32 word \<Rightarrow> bool" where
  "has_read ev = has ev kReadEvent"

lemma has_bits:
  "has ev POLLIN \<longleftrightarrow> bit ev 0" "has ev POLLPRI \<longleftrightarrow> bit ev 1" "has ev POLLOUT \<longleftrightarrow> bit ev 2"
  "has ev POLLERR \<longleftrightarrow> bit ev 3" "has ev POLLHUP \<longleftrightarrow> bit ev 4" "has ev POLLNVAL \<longleftrightarrow> bit ev 5"
  "has ev POLLRDHUP \<longleftrightarrow> bit ev 13"
proof -
  have pow: "ev AND push_bit n 1 \<noteq> 0 \<longleftrightarrow> bit ev n" for n
    by (simp only: bit_iff_and_push_bit_not_eq_0)
  have masks: "POLLIN = push_bit 0 1" "POLLPRI = push_bit 1 1" "POLLOUT = push_bit 2 1" "POLLERR = push_bit 3 1"
      "POLLHUP = push_bit 4 1" "POLLNVAL = push_bit 5 1" "POLLRDHUP = push_bit 13 1"
    by (simp_all add: poll_bits push_bit_eq_mult)
  show "has ev POLLIN \<longleftrightarrow> bit ev 0" "has ev POLLPRI \<longleftrightarrow> bit ev 1" "has ev POLLOUT \<longleftrightarrow> bit ev 2"
    "has ev POLLERR \<longleftrightarrow> bit ev 3" "has ev POLLHUP \<longleftrightarrow> bit ev 4" "has ev POLLNVAL \<longleftrightarrow> bit ev 5"
    "has ev POLLRDHUP \<longleftrightarrow> bit ev 13"
    by (simp_all only: has_def masks pow)
qed

lemma has_or: "has ev (m OR n) \<longleftrightarrow> has ev m \<or> has ev n"
  by (auto simp: has_def bit.conj_disj_distrib or_eq_0_iff)

lemma has_read_bits: "has ev kReadEvent \<longleftrightarrow> bit ev 0 \<or> bit ev 1"
  and has_write_bits: "has ev kWriteEvent \<longleftrightarrow> bit ev 2"
  by (simp_all add: kReadEvent_def kWriteEvent_def has_or has_bits)

text \<open>The interest operations touch only their own bits.\<close>

lemma apply_interest_write:
  "has (apply_interest EnableReading ev) kWriteEvent = has ev kWriteEvent"
  "has (apply_interest DisableReading ev) kWriteEvent = has ev kWriteEvent"
  "has (apply_interest EnableWriting ev) kWriteEvent"
  "\<not> has (apply_interest DisableWriting ev) kWriteEvent"
  "\<not> has (apply_interest DisableAll ev) kWriteEvent"
  by (simp_all only: has_write_bits apply_interest.simps)
     (simp_all add: kReadEvent_def kWriteEvent_def kNoneEvent_def poll_bits bit_simps)

lemma apply_interest_read:
  "has (apply_interest EnableReading ev) kReadEvent"
  "\<not> has (apply_interest DisableReading ev) kReadEvent"
  "has (apply_interest EnableWriting ev) kReadEvent = has ev kReadEvent"
  "has (apply_interest DisableWriting ev) kReadEvent = has ev kReadEvent"
  "\<not> has (apply_interest DisableAll ev) kReadEvent"
  by (simp_all only: has_read_bits apply_interest.simps)
     (simp_all add: kReadEvent_def kWriteEvent_def kNoneEvent_def poll_bits bit_simps)

end
