(* ===== verification/Poller.thy ===== *)
theory Poller
  imports Channel
begin

text \<open>
  \<^verbatim>\<open>Poller.h\<close>, \<^verbatim>\<open>Poller.cpp\<close>, \<^verbatim>\<open>poller/EPollPoller.h\<close> and \<^verbatim>\<open>poller/EPollPoller.cpp\<close>. The state holds the
  poller's map from descriptors to channels, the channel objects themselves (a map from object
  names; a missing object is a dangling pointer) and the kernel's interest list of \<^verbatim>\<open>_epollfd\<close>,
  with \<^verbatim>\<open>epoll_ctl\<close> as its manual page describes it. The in-loop-thread checks are done by the
  callers in the theory \<open>EventLoop\<close>.
\<close>

section \<open>State\<close>

definition kNew :: int where "kNew = -1"

definition kAdded :: int where "kAdded = 1"

definition kDeleted :: int where "kDeleted = 2"

lemmas index_defs = kNew_def kAdded_def kDeleted_def

lemma index_distinct [simp]:
  "kNew \<noteq> kAdded" "kNew \<noteq> kDeleted" "kAdded \<noteq> kDeleted" "kAdded \<noteq> kNew" "kDeleted \<noteq> kNew" "kDeleted \<noteq> kAdded"
  by (simp_all add: index_defs)

definition kInitEventListSize :: nat where
  "kInitEventListSize = 16"

record Poller =
  p_channels :: "int \<rightharpoonup> nat"
  p_objs :: "nat \<rightharpoonup> Channel"
  p_kernel :: "int \<rightharpoonup> (32 word \<times> nat)"
  p_events_size :: nat

text \<open>\<open>epollfd\<close> is what \<^verbatim>\<open>epoll_create\<close> returned; \<^verbatim>\<open>LOG_SYSFATAL\<close> aborts.\<close>

definition new_EPollPoller :: "int \<Rightarrow> Poller option" where
  "new_EPollPoller epollfd =
     (if epollfd < 0 then None
      else Some \<lparr>p_channels = Map.empty, p_objs = Map.empty, p_kernel = Map.empty, p_events_size = kInitEventListSize\<rparr>)"

section \<open>Changing the interest list\<close>

datatype epoll_op = EPOLL_CTL_ADD | EPOLL_CTL_MOD | EPOLL_CTL_DEL

fun operationToString :: "epoll_op \<Rightarrow> string" where
  "operationToString EPOLL_CTL_ADD = ''ADD''"
| "operationToString EPOLL_CTL_DEL = ''DEL''"
| "operationToString EPOLL_CTL_MOD = ''MOD''"

text \<open>\<open>None\<close> is a negative result: \<^verbatim>\<open>EEXIST\<close> for a descriptor that is registered already, \<^verbatim>\<open>ENOENT\<close> for
  one that is not.\<close>

fun epoll_ctl :: "epoll_op \<Rightarrow> int \<Rightarrow> 32 word \<times> nat \<Rightarrow> (int \<rightharpoonup> 32 word \<times> nat) \<Rightarrow> (int \<rightharpoonup> 32 word \<times> nat) option" where
  "epoll_ctl EPOLL_CTL_ADD fd ev k = (if k fd = None then Some (k(fd \<mapsto> ev)) else None)"
| "epoll_ctl EPOLL_CTL_MOD fd ev k = (if k fd = None then None else Some (k(fd \<mapsto> ev)))"
| "epoll_ctl EPOLL_CTL_DEL fd ev k = (if k fd = None then None else Some (k(fd := None)))"

definition poller_update :: "epoll_op \<Rightarrow> nat \<Rightarrow> Poller \<Rightarrow> Poller option" where
  "poller_update operation channel p = do {
     c \<leftarrow> p_objs p channel;
     (case epoll_ctl operation (ch_fd c) (ch_events c, channel) (p_kernel p) of
        Some k \<Rightarrow> Some (p\<lparr>p_kernel := k\<rparr>)
      | None \<Rightarrow> if operation = EPOLL_CTL_DEL then Some p else None)
   }"

definition on_channel :: "nat \<Rightarrow> (Channel \<Rightarrow> Channel) \<Rightarrow> Poller \<Rightarrow> Poller option" where
  "on_channel channel f p = do { c \<leftarrow> p_objs p channel; Some (p\<lparr>p_objs := (p_objs p)(channel \<mapsto> f c)\<rparr>) }"

definition updateChannel :: "nat \<Rightarrow> Poller \<Rightarrow> Poller option" where
  "updateChannel channel p = do {
     c \<leftarrow> p_objs p channel;
     let index = ch_index c;
     let fd = ch_fd c;
     if index = kNew \<or> index = kDeleted then do {
       p1 \<leftarrow> (if index = kNew
              then do { assert_that (p_channels p fd = None); Some (p\<lparr>p_channels := (p_channels p)(fd \<mapsto> channel)\<rparr>) }
              else do { assert_that (p_channels p fd \<noteq> None); assert_that (p_channels p fd = Some channel); Some p });
       p2 \<leftarrow> on_channel channel (set_index kAdded) p1;
       poller_update EPOLL_CTL_ADD channel p2
     } else do {
       assert_that (p_channels p fd \<noteq> None);
       assert_that (p_channels p fd = Some channel);
       assert_that (index = kAdded);
       (if isNoneEvent c
        then do { p1 \<leftarrow> poller_update EPOLL_CTL_DEL channel p; on_channel channel (set_index kDeleted) p1 }
        else poller_update EPOLL_CTL_MOD channel p)
     }
   }"

definition removeChannel :: "nat \<Rightarrow> Poller \<Rightarrow> Poller option" where
  "removeChannel channel p = do {
     c \<leftarrow> p_objs p channel;
     let fd = ch_fd c;
     assert_that (p_channels p fd \<noteq> None);
     assert_that (p_channels p fd = Some channel);
     assert_that (isNoneEvent c);
     let index = ch_index c;
     assert_that (index = kAdded \<or> index = kDeleted);
     let p1 = p\<lparr>p_channels := (p_channels p)(fd := None)\<rparr>;
     p2 \<leftarrow> (if index = kAdded then poller_update EPOLL_CTL_DEL channel p1 else Some p1);
     on_channel channel (set_index kNew) p2
   }"

definition Poller_hasChannel :: "nat \<Rightarrow> Poller \<Rightarrow> bool option" where
  "Poller_hasChannel channel p = do { c \<leftarrow> p_objs p channel; Some (p_channels p (ch_fd c) = Some channel) }"

section \<open>Waiting for events\<close>

definition fillActiveChannel :: "32 word \<times> nat \<Rightarrow> Poller \<times> nat list \<Rightarrow> (Poller \<times> nat list) option" where
  "fillActiveChannel ev = (\<lambda>(p, activeChannels). do {
     let channel = snd ev;
     c \<leftarrow> p_objs p channel;
     let fd = ch_fd c;
     assert_that (p_channels p fd \<noteq> None);
     assert_that (p_channels p fd = Some channel);
     p' \<leftarrow> on_channel channel (set_revents (fst ev)) p;
     Some (p', activeChannels @ [channel])
   })"

definition fillActiveChannels :: "(32 word \<times> nat) list \<Rightarrow> Poller \<times> nat list \<Rightarrow> (Poller \<times> nat list) option" where
  "fillActiveChannels evs s = do {
     assert_that (length evs \<le> p_events_size (fst s));
     put_all fillActiveChannel evs s
   }"

text \<open>\<open>waited\<close> is what \<^verbatim>\<open>epoll_wait\<close> stored: the events and the \<^verbatim>\<open>data.ptr\<close> of the entries, \<open>None\<close> for an
  error. \<open>timeoutMs\<close> is not used by the source.\<close>

definition poll :: "int \<Rightarrow> (32 word \<times> nat) list option \<Rightarrow> Timestamp \<Rightarrow> Poller \<times> nat list
    \<Rightarrow> (Timestamp \<times> Poller \<times> nat list) option" where
  "poll timeoutMs waited t s = (case waited of
       Some (e # es) \<Rightarrow> do { s' \<leftarrow> fillActiveChannels (e # es) s; Some (t, s') }
     | _ \<Rightarrow> Some (t, s))"

section \<open>The poller, the channels and the kernel agree\<close>

definition poll_inv :: "Poller \<Rightarrow> bool" where
  "poll_inv p \<longleftrightarrow>
     p_events_size p = kInitEventListSize
     \<and> (\<forall>fd ch. p_channels p fd = Some ch \<longrightarrow>
        (\<exists>c. p_objs p ch = Some c \<and> ch_fd c = fd \<and> (ch_index c = kAdded \<or> ch_index c = kDeleted)))
     \<and> (\<forall>ch c. p_objs p ch = Some c \<longrightarrow>
          (ch_index c = kNew \<or> p_channels p (ch_fd c) = Some ch)
          \<and> (ch_index c = kDeleted \<longrightarrow> isNoneEvent c))
     \<and> (\<forall>fd. p_kernel p fd =
          (case p_channels p fd of None \<Rightarrow> None
           | Some ch \<Rightarrow> (case p_objs p ch of None \<Rightarrow> None
               | Some c \<Rightarrow> if ch_index c = kAdded then Some (ch_events c, ch) else None)))"

lemma poll_inv_new: "new_EPollPoller fd = Some p \<Longrightarrow> poll_inv p"
  by (auto simp: new_EPollPoller_def poll_inv_def split: if_splits)

lemma poll_invI:
  assumes "p_events_size p = kInitEventListSize"
    and "\<And>fd ch. p_channels p fd = Some ch \<Longrightarrow>
        \<exists>c. p_objs p ch = Some c \<and> ch_fd c = fd \<and> (ch_index c = kAdded \<or> ch_index c = kDeleted)"
    and "\<And>ch c. p_objs p ch = Some c \<Longrightarrow> ch_index c = kNew \<or> p_channels p (ch_fd c) = Some ch"
    and "\<And>ch c. p_objs p ch = Some c \<Longrightarrow> ch_index c = kDeleted \<Longrightarrow> isNoneEvent c"
    and "\<And>fd. p_kernel p fd =
          (case p_channels p fd of None \<Rightarrow> None
           | Some ch \<Rightarrow> (case p_objs p ch of None \<Rightarrow> None
               | Some c \<Rightarrow> if ch_index c = kAdded then Some (ch_events c, ch) else None))"
  shows "poll_inv p"
  using assms unfolding poll_inv_def by blast

lemma poll_inv_map:
  assumes "poll_inv p" and "p_channels p fd = Some ch"
  obtains c where "p_objs p ch = Some c" "ch_fd c = fd" "ch_index c = kAdded \<or> ch_index c = kDeleted"
  using assms unfolding poll_inv_def by blast

lemma poll_inv_kernel:
  assumes "poll_inv p"
  shows "p_kernel p fd = (case p_channels p fd of None \<Rightarrow> None
           | Some ch \<Rightarrow> (case p_objs p ch of None \<Rightarrow> None
               | Some c \<Rightarrow> if ch_index c = kAdded then Some (ch_events c, ch) else None))"
  using assms unfolding poll_inv_def by blast

lemma poll_inv_obj:
  assumes "poll_inv p" and "p_objs p ch = Some c"
  shows "ch_index c = kNew \<or> p_channels p (ch_fd c) = Some ch"
    and "ch_index c = kDeleted \<Longrightarrow> isNoneEvent c"
  using assms unfolding poll_inv_def by blast+

lemma poll_inv_cases:
  assumes "poll_inv p" and "p_objs p ch = Some c"
  obtains (new) "ch_index c = kNew" "\<And>fd. p_channels p fd \<noteq> Some ch"
  | (added) "ch_index c = kAdded" "p_channels p (ch_fd c) = Some ch" "p_kernel p (ch_fd c) = Some (ch_events c, ch)"
  | (deleted) "ch_index c = kDeleted" "p_channels p (ch_fd c) = Some ch" "p_kernel p (ch_fd c) = None" "isNoneEvent c"
proof (cases "ch_index c = kNew")
  case True
  with assms have "p_channels p fd \<noteq> Some ch" for fd
    by (metis index_distinct(1,2) option.inject poll_inv_map)
  with True show ?thesis by (rule new)
next
  case False
  with poll_inv_obj [OF assms] have m: "p_channels p (ch_fd c) = Some ch" by simp
  from poll_inv_map [OF assms(1) m] assms(2) have "ch_index c = kAdded \<or> ch_index c = kDeleted" by auto
  then show ?thesis
    using m assms(2) poll_inv_kernel [OF assms(1), of "ch_fd c"] poll_inv_obj(2) [OF assms] added deleted
    by (cases "ch_index c = kAdded") auto
qed

text \<open>What \<^verbatim>\<open>update()\<close> leaves after an interest operation changed the channel from \<open>c\<close> to \<open>c'\<close>.\<close>

definition after_update :: "nat \<Rightarrow> Channel \<Rightarrow> Poller \<Rightarrow> Poller" where
  "after_update ch c' p =
     (let gone = (ch_index c' = kAdded \<and> isNoneEvent c')
      in p\<lparr>p_channels := (p_channels p)(ch_fd c' \<mapsto> ch),
           p_objs := (p_objs p)(ch \<mapsto> set_index (if gone then kDeleted else kAdded) c'),
           p_kernel := (p_kernel p)(ch_fd c' := (if gone then None else Some (ch_events c', ch)))\<rparr>)"

lemma updateChannel_ok:
  assumes inv: "poll_inv p" and obj: "p_objs p ch = Some c"
    and c': "ch_fd c' = ch_fd c" "ch_index c' = ch_index c"
    and free: "ch_index c = kNew \<Longrightarrow> p_channels p (ch_fd c) = None"
  shows "updateChannel ch (p\<lparr>p_objs := (p_objs p)(ch \<mapsto> c')\<rparr>) = Some (after_update ch c' p)"
    and "poll_inv (after_update ch c' p)"
proof -
  note defs = updateChannel_def c' poller_update_def on_channel_def after_update_def set_index_def Let_def
  show "updateChannel ch (p\<lparr>p_objs := (p_objs p)(ch \<mapsto> c')\<rparr>) = Some (after_update ch c' p)"
    using inv obj
  proof (cases rule: poll_inv_cases)
    case new
    with free poll_inv_kernel [OF inv, of "ch_fd c"] show ?thesis by (simp add: defs)
  next
    case added
    with c' show ?thesis by (auto simp: defs intro!: Poller.equality)
  next
    case deleted
    with c' show ?thesis by (auto simp: defs intro!: Poller.equality)
  qed
  let ?p = "after_update ch c' p"
  have others: "p_channels p fd = Some ch \<Longrightarrow> fd = ch_fd c" for fd
    using inv obj by (auto elim!: poll_inv_map)
  have mine: "p_channels p (ch_fd c) = Some ch' \<Longrightarrow> ch' = ch" for ch'
    using poll_inv_obj(1) [OF inv obj] free by auto
  define c2 where "c2 = set_index (if ch_index c' = kAdded \<and> isNoneEvent c' then kDeleted else kAdded) c'"
  have c2: "p_objs ?p = (p_objs p)(ch \<mapsto> c2)" "ch_fd c2 = ch_fd c" "ch_index c2 = kAdded \<or> ch_index c2 = kDeleted"
      "ch_index c2 = kDeleted \<Longrightarrow> isNoneEvent c2"
      "p_kernel ?p = (p_kernel p)(ch_fd c := if ch_index c2 = kAdded then Some (ch_events c2, ch) else None)"
    using c' by (auto simp: after_update_def Let_def set_index_def isNoneEvent_def c2_def split: if_splits)
  have chans: "p_channels ?p = (p_channels p)(ch_fd c \<mapsto> ch)" "p_events_size ?p = p_events_size p"
    using c' by (simp_all add: after_update_def Let_def)
  show "poll_inv ?p"
  proof (rule poll_invI)
    show "p_events_size ?p = kInitEventListSize" using inv chans by (simp add: poll_inv_def)
  next
    fix fd ch'
    assume "p_channels ?p fd = Some ch'"
    then have "fd = ch_fd c \<and> ch' = ch \<or> p_channels p fd = Some ch' \<and> ch' \<noteq> ch"
      using others chans by (auto split: if_splits)
    then show "\<exists>c. p_objs ?p ch' = Some c \<and> ch_fd c = fd \<and> (ch_index c = kAdded \<or> ch_index c = kDeleted)"
      using c2 by (auto elim!: poll_inv_map [OF inv])
  next
    fix ch' c1
    assume "p_objs ?p ch' = Some c1"
    then show "ch_index c1 = kNew \<or> p_channels ?p (ch_fd c1) = Some ch'"
      using c2 chans mine poll_inv_obj(1) [OF inv, of ch' c1] by (auto split: if_splits)
  next
    fix ch' c1
    assume "p_objs ?p ch' = Some c1" "ch_index c1 = kDeleted"
    then show "isNoneEvent c1" using c2 poll_inv_obj(2) [OF inv] by (auto split: if_splits)
  next
    fix fd
    show "p_kernel ?p fd = (case p_channels ?p fd of None \<Rightarrow> None | Some ch \<Rightarrow> (case p_objs ?p ch of None \<Rightarrow> None
        | Some c \<Rightarrow> if ch_index c = kAdded then Some (ch_events c, ch) else None))"
    proof (cases "fd = ch_fd c")
      case True
      with c2 chans show ?thesis by simp
    next
      case False
      then have "p_channels p fd \<noteq> Some ch" using others by blast
      with False c2 chans poll_inv_kernel [OF inv, of fd] show ?thesis by (auto split: option.split)
    qed
  qed
qed

text \<open>Changes of a channel that the poller does not look at.\<close>

lemma poll_inv_touch:
  assumes "poll_inv p" and "p_objs p ch = Some c"
    and "ch_fd c' = ch_fd c" "ch_index c' = ch_index c" "ch_events c' = ch_events c"
  shows "poll_inv (p\<lparr>p_objs := (p_objs p)(ch \<mapsto> c')\<rparr>)"
proof (rule poll_invI)
  fix fd
  show "p_kernel (p\<lparr>p_objs := (p_objs p)(ch \<mapsto> c')\<rparr>) fd =
      (case p_channels (p\<lparr>p_objs := (p_objs p)(ch \<mapsto> c')\<rparr>) fd of None \<Rightarrow> None
       | Some x \<Rightarrow> (case p_objs (p\<lparr>p_objs := (p_objs p)(ch \<mapsto> c')\<rparr>) x of None \<Rightarrow> None
           | Some c \<Rightarrow> if ch_index c = kAdded then Some (ch_events c, x) else None))"
    using poll_inv_kernel [OF assms(1), of fd] assms(2-) by (auto split: option.splits)
next
  fix fd ch'
  assume "p_channels (p\<lparr>p_objs := (p_objs p)(ch \<mapsto> c')\<rparr>) fd = Some ch'"
  then show "\<exists>c. p_objs (p\<lparr>p_objs := (p_objs p)(ch \<mapsto> c')\<rparr>) ch' = Some c
      \<and> ch_fd c = fd \<and> (ch_index c = kAdded \<or> ch_index c = kDeleted)"
    using assms(2-) by (auto elim!: poll_inv_map [OF assms(1)])
qed (use assms in \<open>auto simp: isNoneEvent_def poll_inv_def split: if_splits\<close>)

lemma poll_inv_add_object:
  assumes "poll_inv p" and "p_objs p ch = None"
  shows "poll_inv (p\<lparr>p_objs := (p_objs p)(ch \<mapsto> new_Channel loop fd)\<rparr>)"
proof -
  have unmapped: "p_channels p fd' \<noteq> Some ch" for fd'
    using assms by (auto elim: poll_inv_map)
  show ?thesis
  proof (rule poll_invI)
    fix fd'
    show "p_kernel (p\<lparr>p_objs := (p_objs p)(ch \<mapsto> new_Channel loop fd)\<rparr>) fd' =
      (case p_channels (p\<lparr>p_objs := (p_objs p)(ch \<mapsto> new_Channel loop fd)\<rparr>) fd' of None \<Rightarrow> None
       | Some x \<Rightarrow> (case p_objs (p\<lparr>p_objs := (p_objs p)(ch \<mapsto> new_Channel loop fd)\<rparr>) x of None \<Rightarrow> None
           | Some c \<Rightarrow> if ch_index c = kAdded then Some (ch_events c, x) else None))"
      using poll_inv_kernel [OF assms(1), of fd'] unmapped by (auto split: option.splits)
  next
    fix fd' ch'
    assume "p_channels (p\<lparr>p_objs := (p_objs p)(ch \<mapsto> new_Channel loop fd)\<rparr>) fd' = Some ch'"
    then have "p_channels p fd' = Some ch'" "ch' \<noteq> ch" using unmapped by auto
    then show "\<exists>c. p_objs (p\<lparr>p_objs := (p_objs p)(ch \<mapsto> new_Channel loop fd)\<rparr>) ch' = Some c
        \<and> ch_fd c = fd' \<and> (ch_index c = kAdded \<or> ch_index c = kDeleted)"
      by (auto elim!: poll_inv_map [OF assms(1)])
  qed (use assms in \<open>auto simp: isNoneEvent_def poll_inv_def new_Channel_def index_defs split: if_splits\<close>)
qed

lemma poll_inv_drop_object:
  assumes "poll_inv p" and "p_objs p ch = Some c" and "ch_index c = kNew"
  shows "poll_inv (p\<lparr>p_objs := (p_objs p)(ch := None)\<rparr>)"
proof -
  have unmapped: "p_channels p fd' \<noteq> Some ch" for fd'
    using assms by (auto elim!: poll_inv_map)
  show ?thesis
  proof (rule poll_invI)
    fix fd'
    show "p_kernel (p\<lparr>p_objs := (p_objs p)(ch := None)\<rparr>) fd' =
      (case p_channels (p\<lparr>p_objs := (p_objs p)(ch := None)\<rparr>) fd' of None \<Rightarrow> None
       | Some x \<Rightarrow> (case p_objs (p\<lparr>p_objs := (p_objs p)(ch := None)\<rparr>) x of None \<Rightarrow> None
           | Some c \<Rightarrow> if ch_index c = kAdded then Some (ch_events c, x) else None))"
      using poll_inv_kernel [OF assms(1), of fd'] unmapped by (auto split: option.splits)
  next
    fix fd' ch'
    assume "p_channels (p\<lparr>p_objs := (p_objs p)(ch := None)\<rparr>) fd' = Some ch'"
    then have "p_channels p fd' = Some ch'" "ch' \<noteq> ch" using unmapped by auto
    then show "\<exists>c. p_objs (p\<lparr>p_objs := (p_objs p)(ch := None)\<rparr>) ch' = Some c
        \<and> ch_fd c = fd' \<and> (ch_index c = kAdded \<or> ch_index c = kDeleted)"
      by (auto elim!: poll_inv_map [OF assms(1)])
  qed (use assms in \<open>auto simp: isNoneEvent_def poll_inv_def split: if_splits\<close>)
qed

text \<open>\<^verbatim>\<open>removeChannel\<close> forgets the channel everywhere; \<open>c'\<close> may differ from the registered channel in what the
  poller does not look at.\<close>

lemma removeChannel_ok:
  assumes inv: "poll_inv p" and obj: "p_objs p ch = Some c" and "isNoneEvent c" and "ch_index c \<noteq> kNew"
  defines "p' \<equiv> p\<lparr>p_channels := (p_channels p)(ch_fd c := None), p_objs := (p_objs p)(ch \<mapsto> set_index kNew c),
                  p_kernel := (p_kernel p)(ch_fd c := None)\<rparr>"
  shows "removeChannel ch p = Some p'" and "poll_inv p'"
proof -
  show "removeChannel ch p = Some p'"
    using inv obj
  proof (cases rule: poll_inv_cases)
    case new
    with assms show ?thesis by simp
  next
    case added
    with assms show ?thesis
      by (auto simp: removeChannel_def Let_def poller_update_def on_channel_def p'_def intro!: Poller.equality)
  next
    case deleted
    with assms show ?thesis
      by (auto simp: removeChannel_def Let_def poller_update_def on_channel_def p'_def intro!: Poller.equality)
  qed
  have mine: "p_channels p (ch_fd c) = Some ch"
    using poll_inv_obj(1) [OF inv obj] assms(4) by simp
  have others: "p_channels p fd = Some ch \<Longrightarrow> fd = ch_fd c" for fd
    using inv obj by (auto elim!: poll_inv_map)
  show "poll_inv p'"
  proof (rule poll_invI)
    fix fd ch'
    assume "p_channels p' fd = Some ch'"
    then have "p_channels p fd = Some ch'" "ch' \<noteq> ch" "fd \<noteq> ch_fd c"
      using others by (auto simp: p'_def split: if_splits)
    then show "\<exists>c. p_objs p' ch' = Some c \<and> ch_fd c = fd \<and> (ch_index c = kAdded \<or> ch_index c = kDeleted)"
      by (auto simp: p'_def elim!: poll_inv_map [OF inv])
  next
    fix fd
    show "p_kernel p' fd = (case p_channels p' fd of None \<Rightarrow> None | Some x \<Rightarrow> (case p_objs p' x of None \<Rightarrow> None
        | Some c \<Rightarrow> if ch_index c = kAdded then Some (ch_events c, x) else None))"
      using poll_inv_kernel [OF inv, of fd] others [of fd] by (auto simp: p'_def split: option.splits)
  next
    fix ch' c1
    assume "p_objs p' ch' = Some c1"
    then show "ch_index c1 = kNew \<or> p_channels p' (ch_fd c1) = Some ch'"
      using poll_inv_obj(1) [OF inv, of ch' c1] mine by (auto simp: p'_def set_index_def split: if_splits)
  qed (use inv in \<open>auto simp: poll_inv_def p'_def set_index_def split: if_splits\<close>)
qed

section \<open>Waiting\<close>

text \<open>What \<^verbatim>\<open>epoll_wait\<close> promises: at most as many entries as fit, one per registered channel, each with
  events that were asked for or that are always reported.\<close>

definition wait_ok :: "Poller \<Rightarrow> (32 word \<times> nat) list \<Rightarrow> bool" where
  "wait_ok p evs \<longleftrightarrow> length evs \<le> p_events_size p \<and> distinct (map snd evs)
     \<and> (\<forall>(r, ch) \<in> set evs. \<exists>fd ev. p_kernel p fd = Some (ev, ch)
          \<and> r AND NOT (ev OR POLLERR OR POLLHUP) = 0 \<and> r \<noteq> 0)"

definition same_but_revents :: "Poller \<Rightarrow> Poller \<Rightarrow> bool" where
  "same_but_revents p p' \<longleftrightarrow> p_channels p' = p_channels p \<and> p_kernel p' = p_kernel p
     \<and> p_events_size p' = p_events_size p
     \<and> (\<forall>ch. map_option (\<lambda>c. c\<lparr>ch_revents := 0\<rparr>) (p_objs p' ch) = map_option (\<lambda>c. c\<lparr>ch_revents := 0\<rparr>) (p_objs p ch))"

lemma same_but_revents_refl [simp]: "same_but_revents p p"
  by (simp add: same_but_revents_def)

lemma same_but_revents_trans: "same_but_revents p q \<Longrightarrow> same_but_revents q r \<Longrightarrow> same_but_revents p r"
  by (simp add: same_but_revents_def)

lemma same_but_revents_dom: "same_but_revents p p' \<Longrightarrow> p_objs p' ch = None \<longleftrightarrow> p_objs p ch = None"
  unfolding same_but_revents_def by (metis map_option_is_None)

lemma same_but_revents_obj:
  assumes "same_but_revents p p'" and "p_objs p ch = Some c"
  obtains c' where "p_objs p' ch = Some c'" "ch_fd c' = ch_fd c" "ch_index c' = ch_index c" "ch_events c' = ch_events c"
    "ch_loop c' = ch_loop c" "ch_tied c' = ch_tied c" "ch_tie c' = ch_tie c" "ch_addedToLoop c' = ch_addedToLoop c"
    "ch_eventHandling c' = ch_eventHandling c"
proof -
  from assms have eq: "map_option (\<lambda>c. c\<lparr>ch_revents := 0\<rparr>) (p_objs p' ch) = Some (c\<lparr>ch_revents := 0\<rparr>)"
    by (simp add: same_but_revents_def)
  then obtain c' where c': "p_objs p' ch = Some c'" "c'\<lparr>ch_revents := 0\<rparr> = c\<lparr>ch_revents := 0\<rparr>" by auto
  show ?thesis
    by (rule that [OF c'(1)])
       (use arg_cong [OF c'(2), of ch_fd] arg_cong [OF c'(2), of ch_index] arg_cong [OF c'(2), of ch_events]
         arg_cong [OF c'(2), of ch_loop] arg_cong [OF c'(2), of ch_tied] arg_cong [OF c'(2), of ch_tie]
         arg_cong [OF c'(2), of ch_addedToLoop] arg_cong [OF c'(2), of ch_eventHandling] in simp_all)
qed

lemma fillActiveChannel_ok:
  assumes "poll_inv p" and "p_kernel p fd = Some (ev, ch)"
  obtains c where "p_objs p ch = Some c"
    "fillActiveChannel (r, ch) (p, act) = Some (p\<lparr>p_objs := (p_objs p)(ch \<mapsto> set_revents r c)\<rparr>, act @ [ch])"
    "poll_inv (p\<lparr>p_objs := (p_objs p)(ch \<mapsto> set_revents r c)\<rparr>)"
proof -
  from poll_inv_kernel [OF assms(1), of fd] assms(2) have m: "p_channels p fd = Some ch"
    by (auto split: option.splits if_splits)
  then obtain c where c: "p_objs p ch = Some c" "ch_fd c = fd" by (rule poll_inv_map [OF assms(1)])
  show ?thesis
    using m c poll_inv_touch [OF assms(1) c(1), of "set_revents r c"]
    by (intro that [OF c(1)]) (auto simp: fillActiveChannel_def on_channel_def set_revents_def Let_def)
qed

lemma fill_ok:
  assumes "poll_inv p" and "\<forall>(r, ch) \<in> set evs. \<exists>fd ev. p_kernel p fd = Some (ev, ch)" and "distinct (map snd evs)"
  shows "\<exists>p'. put_all fillActiveChannel evs (p, act) = Some (p', act @ map snd evs) \<and> poll_inv p'
           \<and> same_but_revents p p' \<and> (\<forall>(r, ch) \<in> set evs. \<exists>c. p_objs p' ch = Some c \<and> ch_revents c = r)
           \<and> (\<forall>ch. ch \<notin> snd ` set evs \<longrightarrow> p_objs p' ch = p_objs p ch)"
  using assms
proof (induction evs arbitrary: p act)
  case (Cons e evs)
  obtain r ch where e: "e = (r, ch)" by (cases e)
  from Cons.prems(2) e obtain fd ev where "p_kernel p fd = Some (ev, ch)" by auto
  then obtain c where c: "p_objs p ch = Some c"
    and fill: "fillActiveChannel (r, ch) (p, act) = Some (p\<lparr>p_objs := (p_objs p)(ch \<mapsto> set_revents r c)\<rparr>, act @ [ch])"
    and inv: "poll_inv (p\<lparr>p_objs := (p_objs p)(ch \<mapsto> set_revents r c)\<rparr>)"
    by (rule fillActiveChannel_ok [OF Cons.prems(1), where r = r and act = act])
  let ?q = "p\<lparr>p_objs := (p_objs p)(ch \<mapsto> set_revents r c)\<rparr>"
  have same: "same_but_revents p ?q" using c by (auto simp: same_but_revents_def set_revents_def)
  have "\<forall>(r, ch) \<in> set evs. \<exists>fd ev. p_kernel ?q fd = Some (ev, ch)" using Cons.prems(2) by auto
  from Cons.IH [OF inv this, of "act @ [ch]"] Cons.prems(3) obtain p' where
      p': "put_all fillActiveChannel evs (?q, act @ [ch]) = Some (p', act @ [ch] @ map snd evs)" "poll_inv p'"
      "same_but_revents ?q p'" "\<forall>(r, ch) \<in> set evs. \<exists>c. p_objs p' ch = Some c \<and> ch_revents c = r"
      "\<forall>ch. ch \<notin> snd ` set evs \<longrightarrow> p_objs p' ch = p_objs ?q ch" by auto
  have "p_objs p' ch = Some (set_revents r c)" using p'(5) Cons.prems(3) e by auto
  with p' fill same_but_revents_trans [OF same p'(3)] e show ?case
    by (intro exI [of _ p']) (auto simp: set_revents_def)
qed simp

lemma poll_ok:
  assumes "poll_inv p" and "wait_ok p evs"
  obtains p' where "poll tmo (Some evs) t (p, []) = Some (t, p', map snd evs)" "poll_inv p'" "same_but_revents p p'"
    "\<forall>(r, ch) \<in> set evs. \<exists>c. p_objs p' ch = Some c \<and> ch_revents c = r"
proof -
  from assms(2) have evs: "length evs \<le> p_events_size p" "distinct (map snd evs)"
      "\<forall>(r, ch) \<in> set evs. \<exists>fd ev. p_kernel p fd = Some (ev, ch)"
    unfolding wait_ok_def by fast+
  from fill_ok [OF assms(1) evs(3,2), of "[]"] obtain p' where
    p': "put_all fillActiveChannel evs (p, []) = Some (p', map snd evs)" "poll_inv p'" "same_but_revents p p'"
    "\<forall>(r, ch) \<in> set evs. \<exists>c. p_objs p' ch = Some c \<and> ch_revents c = r" by auto
  then have "fillActiveChannels evs (p, []) = Some (p', map snd evs)"
    using evs(1) by (simp add: fillActiveChannels_def)
  with p'(1) have "poll tmo (Some evs) t (p, []) = Some (t, p', map snd evs)"
    by (cases evs) (simp_all add: poll_def del: put_all.simps(2))
  with p' show ?thesis by (intro that)
qed

end
