(* ===== verification/EventLoop.thy ===== *)
theory EventLoop
  imports Poller
begin

text \<open>
  \<^verbatim>\<open>EventLoop.h\<close>, \<^verbatim>\<open>EventLoop.cpp\<close> and the operations of \<^verbatim>\<open>Channel.cpp\<close> that call the loop.
  The loop is an extensible record: a program built on it adds its own state. A functor is a value of
  type \<open>'f\<close> that \<open>run\<close> executes; \<open>cbs\<close> gives the callbacks of each channel. \<open>tid\<close> is
  \<^verbatim>\<open>CurrentThread::tid()\<close> of the caller. The returns of the system call \<^verbatim>\<open>epoll_wait\<close> and the calls of other
  threads are the list of inputs of \<open>loop_run\<close>: a loop that has no more inputs is blocked in
  \<^verbatim>\<open>epoll_wait\<close>. Which returns are possible depends on the events pending on the registered descriptors
  and on the timeout (\<open>epoll_returns\<close>, \<open>kernel_allows\<close>).
\<close>

section \<open>State\<close>

record 'f EventLoop =
  el_id :: nat
  el_looping :: bool
  el_quit :: bool
  el_eventHandling :: bool
  el_callingPendingFunctors :: bool
  el_threadId :: int
  el_pollReturnTime :: Timestamp
  el_poller :: Poller
  el_activeChannels :: "nat list"
  el_currentActiveChannel :: "nat option"
  el_pendingFunctors :: "'f list"

definition kPollTimeMs :: int where
  "kPollTimeMs = 10000"

text \<open>\<open>existing\<close> is the thread-local \<^verbatim>\<open>t_loopInThisThread\<close>; the result is the loop and the new value of
  \<^verbatim>\<open>t_loopInThisThread\<close>. \<^verbatim>\<open>LOG_FATAL\<close> aborts.\<close>

definition new_EventLoop :: "nat \<Rightarrow> int \<Rightarrow> nat option \<Rightarrow> int \<Rightarrow> ('f EventLoop \<times> nat option) option" where
  "new_EventLoop this tid existing epollfd = do {
     p \<leftarrow> new_EPollPoller epollfd;
     (if existing \<noteq> None then None
      else Some (\<lparr>el_id = this, el_looping = False, el_quit = False, el_eventHandling = False,
                  el_callingPendingFunctors = False, el_threadId = tid, el_pollReturnTime = Timestamp_invalid,
                  el_poller = p, el_activeChannels = [], el_currentActiveChannel = None, el_pendingFunctors = []\<rparr>,
                 Some this))
   }"

definition isInLoopThread :: "int \<Rightarrow> ('f, 'z) EventLoop_scheme \<Rightarrow> bool" where
  "isInLoopThread tid l \<longleftrightarrow> el_threadId l = tid"

text \<open>\<^verbatim>\<open>abortNotInLoopThread\<close> logs a fatal message, which aborts.\<close>

definition assertInLoopThread :: "int \<Rightarrow> ('f, 'z) EventLoop_scheme \<Rightarrow> unit option" where
  "assertInLoopThread tid l = assert_that (isInLoopThread tid l)"

section \<open>Channels of the loop\<close>

definition EventLoop_updateChannel :: "int \<Rightarrow> nat \<Rightarrow> ('f, 'z) EventLoop_scheme \<Rightarrow> ('f, 'z) EventLoop_scheme option" where
  "EventLoop_updateChannel tid channel l = do {
     c \<leftarrow> p_objs (el_poller l) channel;
     assert_that (ch_loop c = el_id l);
     assertInLoopThread tid l;
     p \<leftarrow> updateChannel channel (el_poller l);
     Some (l\<lparr>el_poller := p\<rparr>)
   }"

definition EventLoop_removeChannel :: "int \<Rightarrow> nat \<Rightarrow> ('f, 'z) EventLoop_scheme \<Rightarrow> ('f, 'z) EventLoop_scheme option" where
  "EventLoop_removeChannel tid channel l = do {
     c \<leftarrow> p_objs (el_poller l) channel;
     assert_that (ch_loop c = el_id l);
     assertInLoopThread tid l;
     assert_that (el_eventHandling l \<longrightarrow>
       el_currentActiveChannel l = Some channel \<or> channel \<notin> set (el_activeChannels l));
     p \<leftarrow> removeChannel channel (el_poller l);
     Some (l\<lparr>el_poller := p\<rparr>)
   }"

definition EventLoop_hasChannel :: "int \<Rightarrow> nat \<Rightarrow> ('f, 'z) EventLoop_scheme \<Rightarrow> bool option" where
  "EventLoop_hasChannel tid channel l = do {
     c \<leftarrow> p_objs (el_poller l) channel;
     assert_that (ch_loop c = el_id l);
     assertInLoopThread tid l;
     Poller_hasChannel channel (el_poller l)
   }"

definition on_chan :: "nat \<Rightarrow> (Channel \<Rightarrow> Channel) \<Rightarrow> ('f, 'z) EventLoop_scheme \<Rightarrow> ('f, 'z) EventLoop_scheme option" where
  "on_chan channel f l = do { p \<leftarrow> on_channel channel f (el_poller l); Some (l\<lparr>el_poller := p\<rparr>) }"

text \<open>A new channel object; \<open>channel\<close> is its name, which must be free.\<close>

definition alloc_Channel :: "nat \<Rightarrow> int \<Rightarrow> ('f, 'z) EventLoop_scheme \<Rightarrow> ('f, 'z) EventLoop_scheme option" where
  "alloc_Channel channel fd l =
     (let p = el_poller l
      in if p_objs p channel = None
         then Some (l\<lparr>el_poller := p\<lparr>p_objs := (p_objs p)(channel \<mapsto> new_Channel (el_id l) fd)\<rparr>\<rparr>) else None)"

definition delete_Channel :: "int \<Rightarrow> nat \<Rightarrow> ('f, 'z) EventLoop_scheme \<Rightarrow> ('f, 'z) EventLoop_scheme option" where
  "delete_Channel tid channel l = do {
     c \<leftarrow> p_objs (el_poller l) channel;
     assert_that (\<not> ch_eventHandling c);
     assert_that (\<not> ch_addedToLoop c);
     (if isInLoopThread tid l
      then do { b \<leftarrow> EventLoop_hasChannel tid channel l; assert_that (\<not> b) }
      else Some ());
     Some (l\<lparr>el_poller := (el_poller l)\<lparr>p_objs := (p_objs (el_poller l))(channel := None)\<rparr>\<rparr>)
   }"

definition Channel_update :: "int \<Rightarrow> nat \<Rightarrow> ('f, 'z) EventLoop_scheme \<Rightarrow> ('f, 'z) EventLoop_scheme option" where
  "Channel_update tid channel l = do {
     l' \<leftarrow> on_chan channel (\<lambda>c. c\<lparr>ch_addedToLoop := True\<rparr>) l;
     EventLoop_updateChannel tid channel l'
   }"

definition Channel_remove :: "int \<Rightarrow> nat \<Rightarrow> ('f, 'z) EventLoop_scheme \<Rightarrow> ('f, 'z) EventLoop_scheme option" where
  "Channel_remove tid channel l = do {
     c \<leftarrow> p_objs (el_poller l) channel;
     assert_that (isNoneEvent c);
     l' \<leftarrow> on_chan channel (\<lambda>c. c\<lparr>ch_addedToLoop := False\<rparr>) l;
     EventLoop_removeChannel tid channel l'
   }"

text \<open>\<^verbatim>\<open>enableReading\<close>, \<^verbatim>\<open>disableReading\<close>, \<^verbatim>\<open>enableWriting\<close>, \<^verbatim>\<open>disableWriting\<close> and \<^verbatim>\<open>disableAll\<close>.\<close>

definition set_interest :: "int \<Rightarrow> interest \<Rightarrow> nat \<Rightarrow> ('f, 'z) EventLoop_scheme \<Rightarrow> ('f, 'z) EventLoop_scheme option" where
  "set_interest tid i channel l = do {
     l' \<leftarrow> on_chan channel (\<lambda>c. c\<lparr>ch_events := apply_interest i (ch_events c)\<rparr>) l;
     Channel_update tid channel l'
   }"

section \<open>Dispatching events\<close>

text \<open>An empty \<^verbatim>\<open>std::function\<close> is \<open>None\<close>.\<close>

record 'l callbacks =
  cb_read :: "(Timestamp \<Rightarrow> 'l \<Rightarrow> 'l option) option"
  cb_write :: "('l \<Rightarrow> 'l option) option"
  cb_close :: "('l \<Rightarrow> 'l option) option"
  cb_error :: "('l \<Rightarrow> 'l option) option"

definition when_call :: "bool \<Rightarrow> ('l \<Rightarrow> 'l option) option \<Rightarrow> 'l \<Rightarrow> 'l option" where
  "when_call b cb l = (if b then (case cb of Some f \<Rightarrow> f l | None \<Rightarrow> Some l) else Some l)"

text \<open>\<^verbatim>\<open>_revents\<close> is read before each test, from the channel object as the callbacks so far left it.\<close>

definition revents_of :: "nat \<Rightarrow> ('f, 'z) EventLoop_scheme \<Rightarrow> 32 word option" where
  "revents_of channel l = map_option ch_revents (p_objs (el_poller l) channel)"

definition handleEventWithGuard ::
    "('f, 'z) EventLoop_scheme callbacks \<Rightarrow> nat \<Rightarrow> Timestamp \<Rightarrow> ('f, 'z) EventLoop_scheme \<Rightarrow> ('f, 'z) EventLoop_scheme option" where
  "handleEventWithGuard cb channel receiveTime l = do {
     l \<leftarrow> on_chan channel (\<lambda>c. c\<lparr>ch_eventHandling := True\<rparr>) l;
     r \<leftarrow> revents_of channel l;
     l \<leftarrow> when_call (has r POLLHUP \<and> \<not> has r POLLIN) (cb_close cb) l;
     r \<leftarrow> revents_of channel l;
     l \<leftarrow> when_call (has r (POLLERR OR POLLNVAL)) (cb_error cb) l;
     r \<leftarrow> revents_of channel l;
     l \<leftarrow> when_call (has r (POLLIN OR POLLPRI OR POLLRDHUP)) (map_option (\<lambda>f. f receiveTime) (cb_read cb)) l;
     r \<leftarrow> revents_of channel l;
     l \<leftarrow> when_call (has r POLLOUT) (cb_write cb) l;
     on_chan channel (\<lambda>c. c\<lparr>ch_eventHandling := False\<rparr>) l
   }"

text \<open>\<open>alive obj l\<close> says whether locking a weak pointer to \<open>obj\<close> gives a non-null pointer.\<close>

definition handleEvent ::
    "(nat \<Rightarrow> ('f, 'z) EventLoop_scheme \<Rightarrow> bool) \<Rightarrow> (nat \<Rightarrow> ('f, 'z) EventLoop_scheme callbacks) \<Rightarrow> nat \<Rightarrow> Timestamp
     \<Rightarrow> ('f, 'z) EventLoop_scheme \<Rightarrow> ('f, 'z) EventLoop_scheme option" where
  "handleEvent alive cbs channel receiveTime l = do {
     c \<leftarrow> p_objs (el_poller l) channel;
     (if ch_tied c
      then (case ch_tie c of
              Some obj \<Rightarrow> if alive obj l then handleEventWithGuard (cbs channel) channel receiveTime l else Some l
            | None \<Rightarrow> Some l)
      else handleEventWithGuard (cbs channel) channel receiveTime l)
   }"

section \<open>Functors\<close>

text \<open>The events pending on each descriptor, as the kernel knows them: what a write to a descriptor such as an
  \<^verbatim>\<open>eventfd\<close> would change.\<close>

type_synonym readiness = "int \<Rightarrow> 32 word"

text \<open>\<^verbatim>\<open>wakeup\<close> writes nothing: its body is a comment.\<close>

definition wakeup :: "readiness \<Rightarrow> readiness" where
  "wakeup k = k"

definition queueInLoop :: "'f \<Rightarrow> ('f, 'z) EventLoop_scheme \<Rightarrow> ('f, 'z) EventLoop_scheme" where
  "queueInLoop cb l = l\<lparr>el_pendingFunctors := el_pendingFunctors l @ [cb]\<rparr>"

text \<open>What the end of \<^verbatim>\<open>queueInLoop\<close> does to descriptors: the branch for the wake-up is empty.\<close>

definition queueInLoop_wakes :: "int \<Rightarrow> ('f, 'z) EventLoop_scheme \<Rightarrow> readiness \<Rightarrow> readiness" where
  "queueInLoop_wakes tid l k = (if \<not> isInLoopThread tid l \<or> el_callingPendingFunctors l then k else k)"

definition runInLoop ::
    "('f \<Rightarrow> ('f, 'z) EventLoop_scheme \<Rightarrow> ('f, 'z) EventLoop_scheme option) \<Rightarrow> int \<Rightarrow> 'f
     \<Rightarrow> ('f, 'z) EventLoop_scheme \<Rightarrow> ('f, 'z) EventLoop_scheme option" where
  "runInLoop run tid cb l = (if isInLoopThread tid l then run cb l else Some (queueInLoop cb l))"

definition doPendingFunctors ::
    "('f \<Rightarrow> ('f, 'z) EventLoop_scheme \<Rightarrow> ('f, 'z) EventLoop_scheme option)
     \<Rightarrow> ('f, 'z) EventLoop_scheme \<Rightarrow> ('f, 'z) EventLoop_scheme option" where
  "doPendingFunctors run l = do {
     let l1 = l\<lparr>el_callingPendingFunctors := True\<rparr>;
     let functors = el_pendingFunctors l1;
     let l2 = l1\<lparr>el_pendingFunctors := []\<rparr>;
     l3 \<leftarrow> put_all run functors l2;
     Some (l3\<lparr>el_callingPendingFunctors := False\<rparr>)
   }"

definition quit :: "('f, 'z) EventLoop_scheme \<Rightarrow> ('f, 'z) EventLoop_scheme" where
  "quit l = l\<lparr>el_quit := True\<rparr>"

section \<open>The loop\<close>

text \<open>One round of \<^verbatim>\<open>while (!_quit)\<close>, with the result of \<^verbatim>\<open>epoll_wait\<close> and the time.\<close>

definition loop_body ::
    "(nat \<Rightarrow> ('f, 'z) EventLoop_scheme \<Rightarrow> bool) \<Rightarrow> (nat \<Rightarrow> ('f, 'z) EventLoop_scheme callbacks)
     \<Rightarrow> ('f \<Rightarrow> ('f, 'z) EventLoop_scheme \<Rightarrow> ('f, 'z) EventLoop_scheme option)
     \<Rightarrow> (32 word \<times> nat) list option \<Rightarrow> Timestamp \<Rightarrow> ('f, 'z) EventLoop_scheme \<Rightarrow> ('f, 'z) EventLoop_scheme option" where
  "loop_body alive cbs run waited t l = do {
     let l1 = l\<lparr>el_activeChannels := []\<rparr>;
     (tm, p, act) \<leftarrow> poll kPollTimeMs waited t (el_poller l1, el_activeChannels l1);
     let l2 = l1\<lparr>el_pollReturnTime := tm, el_poller := p, el_activeChannels := act, el_eventHandling := True\<rparr>;
     l3 \<leftarrow> put_all (\<lambda>ch l. handleEvent alive cbs ch (el_pollReturnTime l) (l\<lparr>el_currentActiveChannel := Some ch\<rparr>)) act l2;
     doPendingFunctors run (l3\<lparr>el_currentActiveChannel := None, el_eventHandling := False\<rparr>)
   }"

text \<open>What can happen while the loop waits: \<^verbatim>\<open>epoll_wait\<close> returns, another thread queues a functor, another
  thread calls \<^verbatim>\<open>quit\<close>.\<close>

datatype 'f loop_input = Waited "(32 word \<times> nat) list option" Timestamp | Queued int 'f | QuitCalled

text \<open>The result says whether the loop has ended, or is waiting.\<close>

fun loop_run ::
    "(nat \<Rightarrow> ('f, 'z) EventLoop_scheme \<Rightarrow> bool) \<Rightarrow> (nat \<Rightarrow> ('f, 'z) EventLoop_scheme callbacks)
     \<Rightarrow> ('f \<Rightarrow> ('f, 'z) EventLoop_scheme \<Rightarrow> ('f, 'z) EventLoop_scheme option)
     \<Rightarrow> 'f loop_input list \<Rightarrow> ('f, 'z) EventLoop_scheme \<Rightarrow> (bool \<times> ('f, 'z) EventLoop_scheme) option" where
  "loop_run alive cbs run [] l = Some (False, l)"
| "loop_run alive cbs run (Queued tid f # is) l = loop_run alive cbs run is (queueInLoop f l)"
| "loop_run alive cbs run (QuitCalled # is) l = loop_run alive cbs run is (quit l)"
| "loop_run alive cbs run (Waited w t # is) l = do {
     l' \<leftarrow> loop_body alive cbs run w t l;
     (if el_quit l' then Some (True, l'\<lparr>el_looping := False\<rparr>) else loop_run alive cbs run is l')
   }"

text \<open>The timeout that \<^verbatim>\<open>EPollPoller::poll\<close> passes to \<^verbatim>\<open>epoll_wait\<close>, whatever the loop asked for.\<close>

definition epoll_timeout :: int where
  "epoll_timeout = - 1"

text \<open>When \<^verbatim>\<open>epoll_wait\<close> returns: with events that are pending on registered descriptors, or with none when the
  timeout is not negative. Signals, which make it fail, are left out.\<close>

definition epoll_returns :: "Poller \<Rightarrow> readiness \<Rightarrow> (32 word \<times> nat) list option \<Rightarrow> bool" where
  "epoll_returns p k waited = (case waited of
       None \<Rightarrow> False
     | Some evs \<Rightarrow> if evs = [] then 0 \<le> epoll_timeout
         else wait_ok p evs \<and> (\<forall>(r, ch) \<in> set evs. \<exists>fd ev. p_kernel p fd = Some (ev, ch) \<and> r = k fd AND (ev OR POLLERR OR POLLHUP)))"

text \<open>The inputs that the kernel allows, if nothing but the loop and the callers touches descriptors until the next
  return; what is pending after a round is up to the handlers and the peers.\<close>

fun kernel_allows ::
    "(nat \<Rightarrow> ('f, 'z) EventLoop_scheme \<Rightarrow> bool) \<Rightarrow> (nat \<Rightarrow> ('f, 'z) EventLoop_scheme callbacks)
     \<Rightarrow> ('f \<Rightarrow> ('f, 'z) EventLoop_scheme \<Rightarrow> ('f, 'z) EventLoop_scheme option)
     \<Rightarrow> readiness \<Rightarrow> 'f loop_input list \<Rightarrow> ('f, 'z) EventLoop_scheme \<Rightarrow> bool" where
  "kernel_allows alive cbs run k [] l = True"
| "kernel_allows alive cbs run k (Queued tid f # is) l =
     kernel_allows alive cbs run (queueInLoop_wakes tid (queueInLoop f l) k) is (queueInLoop f l)"
| "kernel_allows alive cbs run k (QuitCalled # is) l = kernel_allows alive cbs run k is (quit l)"
| "kernel_allows alive cbs run k (Waited w t # is) l =
     (epoll_returns (el_poller l) k w
      \<and> (\<forall>l'. loop_body alive cbs run w t l = Some l' \<longrightarrow> (\<exists>k'. kernel_allows alive cbs run k' is l')))"

definition loop ::
    "(nat \<Rightarrow> ('f, 'z) EventLoop_scheme \<Rightarrow> bool) \<Rightarrow> (nat \<Rightarrow> ('f, 'z) EventLoop_scheme callbacks)
     \<Rightarrow> ('f \<Rightarrow> ('f, 'z) EventLoop_scheme \<Rightarrow> ('f, 'z) EventLoop_scheme option)
     \<Rightarrow> int \<Rightarrow> 'f loop_input list \<Rightarrow> ('f, 'z) EventLoop_scheme \<Rightarrow> (bool \<times> ('f, 'z) EventLoop_scheme) option" where
  "loop alive cbs run tid is l = do {
     assert_that (\<not> el_looping l);
     assertInLoopThread tid l;
     loop_run alive cbs run is (l\<lparr>el_looping := True, el_quit := False\<rparr>)
   }"

definition printActiveChannels :: "('f, 'z) EventLoop_scheme \<Rightarrow> string list option" where
  "printActiveChannels l =
     those (map (\<lambda>ch. map_option (\<lambda>c. ''('' @ reventsToString c @ '')'') (p_objs (el_poller l) ch)) (el_activeChannels l))"

section \<open>The channel operations keep the poller consistent\<close>

lemmas in_loop_defs = assertInLoopThread_def isInLoopThread_def

lemma on_chan_Some:
  "p_objs (el_poller l) ch = Some c \<Longrightarrow>
   on_chan ch f l = Some (l\<lparr>el_poller := (el_poller l)\<lparr>p_objs := (p_objs (el_poller l))(ch \<mapsto> f c)\<rparr>\<rparr>)"
  by (simp add: on_chan_def on_channel_def)

text \<open>The channel after an interest operation, before the poller sets its index.\<close>

definition with_interest :: "interest \<Rightarrow> Channel \<Rightarrow> Channel" where
  "with_interest i c = c\<lparr>ch_events := apply_interest i (ch_events c), ch_addedToLoop := True\<rparr>"

lemma set_interest_ok:
  assumes "poll_inv (el_poller l)" and "p_objs (el_poller l) ch = Some c" and "ch_loop c = el_id l"
    and "tid = el_threadId l" and "ch_index c = kNew \<Longrightarrow> p_channels (el_poller l) (ch_fd c) = None"
  shows "set_interest tid i ch l = Some (l\<lparr>el_poller := after_update ch (with_interest i c) (el_poller l)\<rparr>)"
    and "poll_inv (after_update ch (with_interest i c) (el_poller l))"
proof -
  have c': "ch_fd (with_interest i c) = ch_fd c" "ch_index (with_interest i c) = ch_index c"
    by (simp_all add: with_interest_def)
  show "set_interest tid i ch l = Some (l\<lparr>el_poller := after_update ch (with_interest i c) (el_poller l)\<rparr>)"
    using updateChannel_ok(1) [OF assms(1,2) c' assms(5)] assms(2-4)
    by (simp add: set_interest_def on_chan_Some Channel_update_def EventLoop_updateChannel_def in_loop_defs with_interest_def)
  show "poll_inv (after_update ch (with_interest i c) (el_poller l))"
    by (rule updateChannel_ok(2) [OF assms(1,2) c' assms(5)])
qed

definition after_remove :: "nat \<Rightarrow> Channel \<Rightarrow> Poller \<Rightarrow> Poller" where
  "after_remove ch c p =
     p\<lparr>p_channels := (p_channels p)(ch_fd c := None),
       p_objs := (p_objs p)(ch \<mapsto> c\<lparr>ch_addedToLoop := False, ch_index := kNew\<rparr>),
       p_kernel := (p_kernel p)(ch_fd c := None)\<rparr>"

lemma Channel_remove_ok:
  assumes "poll_inv (el_poller l)" and "p_objs (el_poller l) ch = Some c" and "ch_loop c = el_id l"
    and "tid = el_threadId l" and "isNoneEvent c" and "ch_index c \<noteq> kNew"
    and "el_eventHandling l \<longrightarrow> el_currentActiveChannel l = Some ch \<or> ch \<notin> set (el_activeChannels l)"
  shows "Channel_remove tid ch l = Some (l\<lparr>el_poller := after_remove ch c (el_poller l)\<rparr>)"
    and "poll_inv (after_remove ch c (el_poller l))"
proof -
  let ?c = "c\<lparr>ch_addedToLoop := False\<rparr>"
  let ?p = "(el_poller l)\<lparr>p_objs := (p_objs (el_poller l))(ch \<mapsto> ?c)\<rparr>"
  have inv: "poll_inv ?p" by (rule poll_inv_touch [OF assms(1,2)]) simp_all
  have c: "p_objs ?p ch = Some ?c" "isNoneEvent ?c" "ch_index ?c \<noteq> kNew"
    using assms(5,6) by (simp_all add: isNoneEvent_def)
  note rm = removeChannel_ok [OF inv c]
  have eq: "?p\<lparr>p_channels := (p_channels ?p)(ch_fd ?c := None), p_objs := (p_objs ?p)(ch \<mapsto> set_index kNew ?c),
                  p_kernel := (p_kernel ?p)(ch_fd ?c := None)\<rparr> = after_remove ch c (el_poller l)"
    by (simp add: after_remove_def set_index_def)
  show "Channel_remove tid ch l = Some (l\<lparr>el_poller := after_remove ch c (el_poller l)\<rparr>)"
    using rm(1) assms(2-) unfolding eq
    by (simp add: Channel_remove_def on_chan_Some EventLoop_removeChannel_def in_loop_defs)
  show "poll_inv (after_remove ch c (el_poller l))" using rm(2) unfolding eq .
qed

lemma alloc_Channel_ok:
  assumes "poll_inv (el_poller l)" and "p_objs (el_poller l) ch = None"
  shows "\<exists>l'. alloc_Channel ch fd l = Some l' \<and> poll_inv (el_poller l') \<and> el_id l' = el_id l \<and> el_threadId l' = el_threadId l"
  using poll_inv_add_object [OF assms] assms(2) by (simp add: alloc_Channel_def Let_def)

lemma delete_Channel_ok:
  assumes "poll_inv (el_poller l)" and "p_objs (el_poller l) ch = Some c" and "ch_loop c = el_id l"
    and "tid = el_threadId l" and "\<not> ch_eventHandling c" and "\<not> ch_addedToLoop c" and "ch_index c = kNew"
  shows "\<exists>l'. delete_Channel tid ch l = Some l' \<and> poll_inv (el_poller l') \<and> el_id l' = el_id l \<and> el_threadId l' = el_threadId l"
proof -
  have "p_channels (el_poller l) fd \<noteq> Some ch" for fd
    using assms(1,2,7) by (cases rule: poll_inv_cases) auto
  with poll_inv_drop_object [OF assms(1,2,7)] assms(2-) show ?thesis
    by (simp add: delete_Channel_def EventLoop_hasChannel_def Poller_hasChannel_def in_loop_defs)
qed

text \<open>Every use of channels by the loop's own thread: create, change interest, remove, delete, wait. The
  premises are the callers' obligations.\<close>

inductive chan_step :: "int \<Rightarrow> ('f, 'z) EventLoop_scheme \<Rightarrow> ('f, 'z) EventLoop_scheme \<Rightarrow> bool" for tid where
  create: "p_objs (el_poller l) ch = None \<Longrightarrow> alloc_Channel ch fd l = Some l' \<Longrightarrow> chan_step tid l l'"
| change: "p_objs (el_poller l) ch = Some c \<Longrightarrow> (ch_index c = kNew \<Longrightarrow> p_channels (el_poller l) (ch_fd c) = None) \<Longrightarrow>
     set_interest tid i ch l = Some l' \<Longrightarrow> chan_step tid l l'"
| remove: "p_objs (el_poller l) ch = Some c \<Longrightarrow> isNoneEvent c \<Longrightarrow> ch_index c \<noteq> kNew \<Longrightarrow>
     Channel_remove tid ch l = Some l' \<Longrightarrow> chan_step tid l l'"
| delete: "p_objs (el_poller l) ch = Some c \<Longrightarrow> \<not> ch_addedToLoop c \<Longrightarrow>
     delete_Channel tid ch l = Some l' \<Longrightarrow> chan_step tid l l'"
| wait: "wait_ok (el_poller l) evs \<Longrightarrow> poll tmo (Some evs) t (el_poller l, []) = Some (t', p', act) \<Longrightarrow>
     chan_step tid l (l\<lparr>el_poller := p', el_activeChannels := act\<rparr>)"

inductive chan_reach :: "int \<Rightarrow> ('f, 'z) EventLoop_scheme \<Rightarrow> bool" for tid where
  start: "el_poller l = p \<Longrightarrow> new_EPollPoller epollfd = Some p \<Longrightarrow> el_threadId l = tid \<Longrightarrow> \<not> el_eventHandling l \<Longrightarrow> chan_reach tid l"
| step: "chan_reach tid l \<Longrightarrow> chan_step tid l l' \<Longrightarrow> chan_reach tid l'"

inductive_cases chan_stepE: "chan_step tid l l'"

text \<open>Beside the poller's invariant: every channel belongs to the loop, and \<^verbatim>\<open>_addedToLoop\<close> says whether the
  poller knows the channel.\<close>

definition loop_inv :: "int \<Rightarrow> ('f, 'z) EventLoop_scheme \<Rightarrow> bool" where
  "loop_inv tid l \<longleftrightarrow> poll_inv (el_poller l) \<and> el_threadId l = tid \<and> \<not> el_eventHandling l
     \<and> (\<forall>ch c. p_objs (el_poller l) ch = Some c \<longrightarrow>
          ch_loop c = el_id l \<and> (ch_addedToLoop c \<longleftrightarrow> ch_index c \<noteq> kNew) \<and> \<not> ch_eventHandling c)"

lemma new_EPollPoller_objs: "new_EPollPoller epollfd = Some p \<Longrightarrow> p_objs p ch = None"
  by (auto simp: new_EPollPoller_def split: if_splits)

lemma loop_inv_start:
  "el_poller l = p \<Longrightarrow> new_EPollPoller epollfd = Some p \<Longrightarrow> el_threadId l = tid \<Longrightarrow> \<not> el_eventHandling l \<Longrightarrow> loop_inv tid l"
  using poll_inv_new new_EPollPoller_objs by (auto simp: loop_inv_def)

lemma chan_step_inv:
  assumes "chan_step tid l l'" and "loop_inv tid l"
  shows "loop_inv tid l'"
proof -
  from assms(2) have inv: "poll_inv (el_poller l)" and tid: "tid = el_threadId l" and eh: "\<not> el_eventHandling l"
    and own: "\<And>ch c. p_objs (el_poller l) ch = Some c \<Longrightarrow>
        ch_loop c = el_id l \<and> (ch_addedToLoop c \<longleftrightarrow> ch_index c \<noteq> kNew) \<and> \<not> ch_eventHandling c"
    by (auto simp: loop_inv_def)
  from assms(1) show ?thesis
  proof cases
    case (create ch fd)
    with inv tid own eh poll_inv_add_object [OF inv, of ch "el_id l" fd] show ?thesis
      by (auto simp: alloc_Channel_def loop_inv_def Let_def new_Channel_def kNew_def split: if_splits)
  next
    case (change ch c i)
    from set_interest_ok [OF inv change(1) _ tid change(2)] own [OF change(1)] change(3)
    have "l' = l\<lparr>el_poller := after_update ch (with_interest i c) (el_poller l)\<rparr>"
      "poll_inv (after_update ch (with_interest i c) (el_poller l))" by simp_all
    with own tid eh own [OF change(1)] show ?thesis
      by (auto simp: loop_inv_def after_update_def Let_def set_index_def with_interest_def)
  next
    case (remove ch c)
    from Channel_remove_ok [OF inv remove(1) _ tid remove(2,3)] own [OF remove(1)] remove(4) eh
    have "l' = l\<lparr>el_poller := after_remove ch c (el_poller l)\<rparr>" "poll_inv (after_remove ch c (el_poller l))"
      by simp_all
    with own tid eh own [OF remove(1)] show ?thesis by (auto simp: loop_inv_def after_remove_def)
  next
    case (delete ch c)
    with own have "ch_index c = kNew" by blast
    with poll_inv_drop_object [OF inv delete(1)] delete own tid eh show ?thesis
      by (auto simp: loop_inv_def delete_Channel_def EventLoop_hasChannel_def Poller_hasChannel_def in_loop_defs
          split: if_splits)
  next
    case (wait evs tmo t t' p' act)
    obtain p2 where "poll tmo (Some evs) t (el_poller l, []) = Some (t, p2, map snd evs)" "poll_inv p2"
        "same_but_revents (el_poller l) p2"
      by (rule poll_ok [OF inv wait(2)])
    with wait(3) have p': "poll_inv p'" "same_but_revents (el_poller l) p'" by simp_all
    have "ch_loop c' = el_id l \<and> (ch_addedToLoop c' \<longleftrightarrow> ch_index c' \<noteq> kNew) \<and> \<not> ch_eventHandling c'"
      if "p_objs p' ch = Some c'" for ch c'
    proof -
      have "p_objs (el_poller l) ch \<noteq> None"
        using same_but_revents_dom [OF p'(2)] that by (metis option.distinct(1))
      then obtain c where c: "p_objs (el_poller l) ch = Some c" by blast
      obtain c2 where "p_objs p' ch = Some c2" "ch_loop c2 = ch_loop c" "ch_addedToLoop c2 = ch_addedToLoop c"
          "ch_index c2 = ch_index c" "ch_eventHandling c2 = ch_eventHandling c"
        by (rule same_but_revents_obj [OF p'(2) c])
      with that own [OF c] show ?thesis by simp
    qed
    with p' tid eh wait(1) show ?thesis by (auto simp: loop_inv_def)
  qed
qed

lemma chan_reach_inv: "chan_reach tid l \<Longrightarrow> loop_inv tid l"
  by (induction rule: chan_reach.induct) (auto intro: loop_inv_start chan_step_inv)

section \<open>Properties\<close>

text \<open>C3: however the loop's thread creates, changes, removes and deletes channels and waits for events, the
  poller's map, the index kept in each channel and the kernel's interest list agree; no operation used
  within its contract trips an assertion or a fatal \<^verbatim>\<open>epoll_ctl\<close> error.\<close>

theorem poller_agrees:
  assumes "chan_reach tid l"
  shows "poll_inv (el_poller l)
    \<and> (\<forall>ch c i. p_objs (el_poller l) ch = Some c \<longrightarrow> (ch_index c = kNew \<longrightarrow> p_channels (el_poller l) (ch_fd c) = None) \<longrightarrow>
         set_interest tid i ch l \<noteq> None)
    \<and> (\<forall>ch c. p_objs (el_poller l) ch = Some c \<longrightarrow> isNoneEvent c \<longrightarrow> ch_index c \<noteq> kNew \<longrightarrow> Channel_remove tid ch l \<noteq> None)
    \<and> (\<forall>ch c. p_objs (el_poller l) ch = Some c \<longrightarrow> \<not> ch_addedToLoop c \<longrightarrow> delete_Channel tid ch l \<noteq> None)
    \<and> (\<forall>evs t. wait_ok (el_poller l) evs \<longrightarrow> poll kPollTimeMs (Some evs) t (el_poller l, []) \<noteq> None)"
proof -
  from chan_reach_inv [OF assms] have inv: "poll_inv (el_poller l)" and tid: "tid = el_threadId l" "\<not> el_eventHandling l"
    and own: "\<And>ch c. p_objs (el_poller l) ch = Some c \<Longrightarrow>
        ch_loop c = el_id l \<and> (ch_addedToLoop c \<longleftrightarrow> ch_index c \<noteq> kNew) \<and> \<not> ch_eventHandling c"
    by (auto simp: loop_inv_def)
  have "set_interest tid i ch l \<noteq> None"
    if "p_objs (el_poller l) ch = Some c" "ch_index c = kNew \<longrightarrow> p_channels (el_poller l) (ch_fd c) = None" for ch c i
    using set_interest_ok(1) [OF inv that(1) _ tid(1)] that own by simp
  moreover have "Channel_remove tid ch l \<noteq> None"
    if "p_objs (el_poller l) ch = Some c" "isNoneEvent c" "ch_index c \<noteq> kNew" for ch c
    using Channel_remove_ok(1) [OF inv that(1) _ tid(1) that(2,3)] own [OF that(1)] tid(2) by simp
  moreover have "delete_Channel tid ch l \<noteq> None" if "p_objs (el_poller l) ch = Some c" "\<not> ch_addedToLoop c" for ch c
    using delete_Channel_ok [OF inv that(1) _ tid(1) _ that(2)] own [OF that(1)] that(2) by auto
  moreover have "poll kPollTimeMs (Some evs) t (el_poller l, []) \<noteq> None" if w: "wait_ok (el_poller l) evs" for evs t
  proof -
    obtain p' where "poll kPollTimeMs (Some evs) t (el_poller l, []) = Some (t, p', map snd evs)"
      by (rule poll_ok [OF inv w])
    then show ?thesis by simp
  qed
  ultimately show ?thesis using inv by blast
qed

definition ex_loop :: "nat EventLoop" where
  "ex_loop = fst (the (new_EventLoop 0 7 None 3))"

lemma ex_loop_start: "chan_reach 7 ex_loop"
  by (rule chan_reach.start [OF refl, where epollfd = 3])
     (simp_all add: ex_loop_def new_EventLoop_def new_EPollPoller_def)

text \<open>A channel on descriptor 9 that is registered for reading.\<close>

definition ex_reg :: "nat EventLoop" where
  "ex_reg = ex_loop\<lparr>el_poller := (el_poller ex_loop)\<lparr>p_channels := [9 \<mapsto> 4], p_kernel := [9 \<mapsto> (3, 4)],
     p_objs := [4 \<mapsto> (new_Channel 0 9)\<lparr>ch_events := 3, ch_index := 1, ch_addedToLoop := True\<rparr>]\<rparr>\<rparr>"

lemmas ex_loop_defs = ex_loop_def ex_reg_def new_EventLoop_def new_EPollPoller_def alloc_Channel_def new_Channel_def Let_def
  set_interest_def on_chan_def on_channel_def Channel_update_def EventLoop_updateChannel_def updateChannel_def
  poller_update_def set_index_def index_defs in_loop_defs kReadEvent_def POLLIN_def POLLPRI_def isNoneEvent_def kNoneEvent_def

lemma ex_reg_reach: "chan_reach 7 ex_reg"
proof -
  let ?l = "the (alloc_Channel 4 9 ex_loop)"
  have a: "alloc_Channel 4 9 ex_loop = Some ?l" and n: "p_objs (el_poller ex_loop) 4 = None"
    by (simp_all add: ex_loop_defs)
  have b: "set_interest 7 EnableReading 4 ?l = Some ex_reg" and c: "p_objs (el_poller ?l) 4 = Some (new_Channel 0 9)"
      "p_channels (el_poller ?l) 9 = None"
    by (simp_all add: ex_loop_defs)
  from chan_reach.step [OF ex_loop_start create [OF n a]] have "chan_reach 7 ?l" .
  then show ?thesis by (rule chan_reach.step, intro change [OF c(1) _ b]) (simp add: c(2) new_Channel_def)
qed

theorem poller_agrees_witness:
  "poll_inv (el_poller ex_reg) \<and> p_kernel (el_poller ex_reg) 9 = Some (3, 4)
     \<and> set_interest 7 DisableAll 4 ex_reg \<noteq> None \<and> poll kPollTimeMs (Some [(1, 4)]) (Timestamp 0) (el_poller ex_reg, []) \<noteq> None"
proof -
  have k: "p_kernel (el_poller ex_reg) 9 = Some (3, 4)" "p_objs (el_poller ex_reg) 4 \<noteq> None"
      "\<And>c. p_objs (el_poller ex_reg) 4 = Some c \<Longrightarrow> ch_index c \<noteq> kNew"
    by (simp_all add: ex_loop_defs)
  have "wait_ok (el_poller ex_reg) [(1, 4)]"
    by (auto simp: wait_ok_def ex_loop_defs POLLERR_def POLLHUP_def kInitEventListSize_def)
  with k poller_agrees [OF ex_reg_reach] show ?thesis by blast
qed

text \<open>The order of the callbacks.\<close>

datatype event_kind = CloseEvent | ErrorEvent | ReadEvent | WriteEvent

fun call_kind :: "'l callbacks \<Rightarrow> Timestamp \<Rightarrow> event_kind \<Rightarrow> 'l \<Rightarrow> 'l option" where
  "call_kind cb t CloseEvent = when_call True (cb_close cb)"
| "call_kind cb t ErrorEvent = when_call True (cb_error cb)"
| "call_kind cb t ReadEvent = when_call True (map_option (\<lambda>f. f t) (cb_read cb))"
| "call_kind cb t WriteEvent = when_call True (cb_write cb)"

definition kinds_of :: "32 word \<Rightarrow> event_kind list" where
  "kinds_of r =
     (if has r POLLHUP \<and> \<not> has r POLLIN then [CloseEvent] else [])
     @ (if has r POLLERR \<or> has r POLLNVAL then [ErrorEvent] else [])
     @ (if has r POLLIN \<or> has r POLLPRI \<or> has r POLLRDHUP then [ReadEvent] else [])
     @ (if has r POLLOUT then [WriteEvent] else [])"

text \<open>For callbacks that leave the channel's received events alone, \<^verbatim>\<open>handleEventWithGuard\<close> calls exactly
  the callbacks of the received events, close first, then error, read and write, between setting
  and clearing \<^verbatim>\<open>_eventHandling\<close>.\<close>

theorem handleEvent_dispatch:
  assumes keep: "\<And>k l l'. call_kind cb t k l = Some l' \<Longrightarrow> revents_of ch l' = revents_of ch l"
    and "revents_of ch l = Some r"
  shows "handleEventWithGuard cb ch t l = do {
     l \<leftarrow> on_chan ch (\<lambda>c. c\<lparr>ch_eventHandling := True\<rparr>) l;
     l \<leftarrow> put_all (call_kind cb t) (kinds_of r) l;
     on_chan ch (\<lambda>c. c\<lparr>ch_eventHandling := False\<rparr>) l }"
proof -
  from assms(2) obtain c where c: "p_objs (el_poller l) ch = Some c" "ch_revents c = r" by (auto simp: revents_of_def)
  obtain l1 where l1: "on_chan ch (\<lambda>c. c\<lparr>ch_eventHandling := True\<rparr>) l = Some l1" "revents_of ch l1 = Some r"
    using on_chan_Some [OF c(1), of "\<lambda>c. c\<lparr>ch_eventHandling := True\<rparr>"] c(2) by (simp add: revents_of_def)
  have step: "(when_call b f x \<bind> (\<lambda>y. revents_of ch y \<bind> (\<lambda>r'. g r' y)))
      = (put_all (call_kind cb t) (if b then [k] else []) x \<bind> g r)"
    if "revents_of ch x = Some r" "call_kind cb t k = when_call True f" for b f x g k
  proof (cases b)
    case True
    then have "when_call b f x = call_kind cb t k x" using that(2) by simp
    with True that keep [of k x] show ?thesis by (auto split: bind_split)
  next
    case False
    with that show ?thesis by (simp add: when_call_def)
  qed
  have keep_all: "put_all (call_kind cb t) ks x = Some y \<Longrightarrow> revents_of ch x = Some r \<Longrightarrow> revents_of ch y = Some r" for ks x y
    by (rule put_all_invariant [where I = "\<lambda>x. revents_of ch x = Some r" and put = "call_kind cb t" and s = x])
       (use keep in auto)
  let ?run = "put_all (call_kind cb t)" and ?fin = "on_chan ch (\<lambda>c. c\<lparr>ch_eventHandling := False\<rparr>)"
  let ?kw = "if has r POLLOUT then [WriteEvent] else []"
  let ?kr = "if has r (POLLIN OR POLLPRI OR POLLRDHUP) then [ReadEvent] else []"
  let ?ke = "if has r (POLLERR OR POLLNVAL) then [ErrorEvent] else []"
  let ?kc = "if has r POLLHUP \<and> \<not> has r POLLIN then [CloseEvent] else []"
  let ?w = "\<lambda>r' x. when_call (has r' POLLOUT) (cb_write cb) x \<bind> ?fin"
  let ?rd = "\<lambda>r' x. when_call (has r' (POLLIN OR POLLPRI OR POLLRDHUP)) (map_option (\<lambda>f. f t) (cb_read cb)) x
      \<bind> (\<lambda>x. revents_of ch x \<bind> (\<lambda>r'. ?w r' x))"
  let ?er = "\<lambda>r' x. when_call (has r' (POLLERR OR POLLNVAL)) (cb_error cb) x \<bind> (\<lambda>x. revents_of ch x \<bind> (\<lambda>r'. ?rd r' x))"
  have w: "?w r x = (?run ?kw x \<bind> ?fin)" for x
    by (cases "has r POLLOUT") (simp_all add: when_call_def)
  have rd: "?rd r x = (?run (?kr @ ?kw) x \<bind> ?fin)" if "revents_of ch x = Some r" for x
    using step [OF that, of ReadEvent _ _ ?w] w by (simp add: put_all_append)
  have er: "?er r x = (?run (?ke @ ?kr @ ?kw) x \<bind> ?fin)" if "revents_of ch x = Some r" for x
  proof -
    have "?er r x = (?run ?ke x \<bind> ?rd r)" using step [OF that, of ErrorEvent _ _ ?rd] by simp
    also have "\<dots> = (?run ?ke x \<bind> (\<lambda>y. ?run (?kr @ ?kw) y \<bind> ?fin))"
      by (rule Option.bind_cong [OF refl]) (rule rd, rule keep_all [OF _ that])
    finally show ?thesis by (simp only: put_all_append bind_assoc)
  qed
  have "handleEventWithGuard cb ch t l = (when_call (has r POLLHUP \<and> \<not> has r POLLIN) (cb_close cb) l1
      \<bind> (\<lambda>x. revents_of ch x \<bind> (\<lambda>r'. ?er r' x)))"
    by (simp add: handleEventWithGuard_def l1)
  also have "\<dots> = (?run ?kc l1 \<bind> ?er r)" using step [OF l1(2), of CloseEvent _ _ ?er] by simp
  also have "\<dots> = (?run ?kc l1 \<bind> (\<lambda>y. ?run (?ke @ ?kr @ ?kw) y \<bind> ?fin))"
    by (rule Option.bind_cong [OF refl]) (rule er, rule keep_all [OF _ l1(2)])
  also have "\<dots> = (?run (kinds_of r) l1 \<bind> ?fin)"
    by (simp only: kinds_of_def has_or put_all_append bind_assoc)
  finally show ?thesis by (simp add: l1(1))
qed

definition ex_callbacks :: "nat EventLoop callbacks" where
  "ex_callbacks = \<lparr>cb_read = Some (\<lambda>t l. Some (queueInLoop 1 l)), cb_write = Some (\<lambda>l. Some (queueInLoop 2 l)),
                   cb_close = Some (\<lambda>l. Some (queueInLoop 3 l)), cb_error = None\<rparr>"

definition ex_loop_chan :: "nat EventLoop" where
  "ex_loop_chan = ex_loop\<lparr>el_poller := (el_poller ex_loop)\<lparr>p_objs := [4 \<mapsto> (new_Channel 0 9)\<lparr>ch_revents := 5\<rparr>]\<rparr>\<rparr>"

theorem handleEvent_dispatch_witness:
  "map_option el_pendingFunctors (handleEventWithGuard ex_callbacks 4 (Timestamp 0) ex_loop_chan) = Some [1, 2]"
proof -
  have "revents_of ch l' = revents_of ch l" if "call_kind ex_callbacks t k l = Some l'" for ch t k l l'
    using that by (cases k) (auto simp: ex_callbacks_def when_call_def queueInLoop_def revents_of_def)
  moreover have "revents_of 4 ex_loop_chan = Some 5"
    by (simp add: ex_loop_chan_def revents_of_def)
  ultimately have eq: "handleEventWithGuard ex_callbacks 4 (Timestamp 0) ex_loop_chan = do {
      l \<leftarrow> on_chan 4 (\<lambda>c. c\<lparr>ch_eventHandling := True\<rparr>) ex_loop_chan;
      l \<leftarrow> put_all (call_kind ex_callbacks (Timestamp 0)) (kinds_of 5) l;
      on_chan 4 (\<lambda>c. c\<lparr>ch_eventHandling := False\<rparr>) l }"
    by (rule handleEvent_dispatch)
  have "kinds_of 5 = [ReadEvent, WriteEvent]" by (simp add: kinds_of_def has_bits bit_simps)
  then show ?thesis
    unfolding eq by (simp add: on_chan_def on_channel_def ex_loop_chan_def ex_callbacks_def when_call_def queueInLoop_def
        ex_loop_def new_EventLoop_def new_EPollPoller_def)
qed

section \<open>Queued functors\<close>

text \<open>The contract of a program's functors: \<open>ready fs l\<close> says that the loop can run the functors \<open>fs\<close>; running the
  first succeeds and leaves the loop ready for the others.\<close>

locale functor_runner =
  fixes run :: "'f \<Rightarrow> ('f, 'z) EventLoop_scheme \<Rightarrow> ('f, 'z) EventLoop_scheme option"
    and ready :: "'f list \<Rightarrow> ('f, 'z) EventLoop_scheme \<Rightarrow> bool"
  assumes run_ready: "ready (f # fs) l \<Longrightarrow> \<exists>l'. run f l = Some l' \<and> ready fs l'"
    and ready_flag: "ready fs (l\<lparr>el_callingPendingFunctors := b\<rparr>) = ready fs l"
begin

lemma run_all: "ready fs l \<Longrightarrow> \<exists>l'. put_all run fs l = Some l' \<and> ready [] l'"
proof (induction fs arbitrary: l)
  case (Cons f fs)
  from run_ready [OF Cons.prems] obtain l1 where "run f l = Some l1" "ready fs l1" by blast
  with Cons.IH show ?case by auto
qed simp

text \<open>Every functor queued so far runs once, in the order of queueing.\<close>

lemma drain:
  assumes "ready (el_pendingFunctors l) (l\<lparr>el_pendingFunctors := []\<rparr>)"
  shows "\<exists>l'. doPendingFunctors run l = Some l' \<and> ready [] l'"
proof -
  have "l\<lparr>el_callingPendingFunctors := True, el_pendingFunctors := []\<rparr>
      = (l\<lparr>el_pendingFunctors := []\<rparr>)\<lparr>el_callingPendingFunctors := True\<rparr>" by simp
  then have "ready (el_pendingFunctors l) (l\<lparr>el_callingPendingFunctors := True, el_pendingFunctors := []\<rparr>)"
    using assms by (simp only: ready_flag)
  from run_all [OF this] show ?thesis by (auto simp: doPendingFunctors_def ready_flag)
qed

end

text \<open>The functors that are queued while the loop waits.\<close>

fun queued :: "'f loop_input list \<Rightarrow> 'f list" where
  "queued [] = []"
| "queued (Queued tid f # is) = f # queued is"
| "queued (_ # is) = queued is"

text \<open>No descriptor that is registered has an event pending.\<close>

definition idle :: "Poller \<Rightarrow> readiness \<Rightarrow> bool" where
  "idle p k \<longleftrightarrow> (\<forall>fd ev ch. p_kernel p fd = Some (ev, ch) \<longrightarrow> k fd AND (ev OR POLLERR OR POLLHUP) = 0)"

lemma idle_blocks:
  assumes "idle p k"
  shows "\<not> epoll_returns p k w"
proof
  assume ret: "epoll_returns p k w"
  then obtain evs where evs: "w = Some evs" "evs \<noteq> []"
    by (cases w) (auto simp: epoll_returns_def epoll_timeout_def split: if_splits)
  then obtain r ch where rc: "(r, ch) \<in> set evs" by (cases evs) auto
  with ret evs obtain fd ev where "p_kernel p fd = Some (ev, ch)" "r = k fd AND (ev OR POLLERR OR POLLHUP)" "r \<noteq> 0"
    by (fastforce simp: epoll_returns_def wait_ok_def)
  with assms show False by (simp add: idle_def)
qed

text \<open>C10: other threads cannot wake the loop. While no event is pending on a registered descriptor, whatever calls of
  \<^verbatim>\<open>queueInLoop\<close> and \<^verbatim>\<open>quit\<close> other threads make, \<^verbatim>\<open>epoll_wait\<close> cannot return: neither call writes to a
  descriptor and the timeout is infinite. The functors pile up without being run and the loop does not end.\<close>

theorem no_wakeup:
  assumes "idle (el_poller l) k" and "kernel_allows alive cbs run k is l"
  shows "loop_run alive cbs run is l
       = Some (False, l\<lparr>el_pendingFunctors := el_pendingFunctors l @ queued is, el_quit := el_quit l \<or> QuitCalled \<in> set is\<rparr>)"
  using assms
proof (induction "is" arbitrary: l)
  case (Cons i "is")
  show ?case
  proof (cases i)
    case (Waited w t)
    with Cons.prems idle_blocks show ?thesis by simp
  next
    case (Queued tid f)
    with Cons show ?thesis by (simp add: queueInLoop_def queueInLoop_wakes_def)
  next
    case QuitCalled
    with Cons show ?thesis by (simp add: quit_def)
  qed
qed simp

theorem no_wakeup_witness:
  "loop_run (\<lambda>_ _. True) (\<lambda>_. ex_callbacks) (\<lambda>f. Some) [Queued 8 5, QuitCalled, Queued 9 6] ex_reg
   = Some (False, ex_reg\<lparr>el_pendingFunctors := [5, 6], el_quit := True\<rparr>) \<and> p_kernel (el_poller ex_reg) 9 = Some (3, 4)"
proof -
  have "idle (el_poller ex_reg) (\<lambda>_. 0)" by (simp add: idle_def)
  moreover have "kernel_allows (\<lambda>_ _. True) (\<lambda>_. ex_callbacks) (\<lambda>f. Some) (\<lambda>_. 0) [Queued 8 5, QuitCalled, Queued 9 6] ex_reg"
    by simp
  moreover have "el_pendingFunctors ex_reg = []" "p_kernel (el_poller ex_reg) 9 = Some (3, 4)"
    by (simp_all add: ex_loop_defs)
  ultimately show ?thesis
    using no_wakeup [of ex_reg "\<lambda>_. 0" "\<lambda>_ _. True" "\<lambda>_. ex_callbacks" "\<lambda>f. Some" "[Queued 8 5, QuitCalled, Queued 9 6]"]
    by simp
qed

end
