(* ===== verification/Buffer.thy ===== *)
theory Buffer
  imports Prelude "HOL-Library.Word"
begin

text \<open>
  \<^verbatim>\<open>Buffer.h\<close>, \<^verbatim>\<open>Buffer.cpp\<close> and \<^verbatim>\<open>Endian.h\<close>: the growable byte buffer between a socket and the
  user. A pointer into the buffer is its offset in \<^verbatim>\<open>buffer_\<close>. The interface \<open>byte_queue\<close> is what
  the clients of the buffer rely on; it is interpreted on the operations of this theory.
\<close>

section \<open>Byte order (Endian.h)\<close>

text \<open>\<open>le\<close> says whether the host is little-endian. \<open>host_bytes\<close> is the object representation of
  a word on that host, \<open>host_val\<close> what \<^verbatim>\<open>memcpy\<close> of such bytes into a word gives.\<close>

definition host_bytes :: "bool \<Rightarrow> 'a::len word \<Rightarrow> string" where
  "host_bytes le w =
     (let bs = le_bytes (LENGTH('a) div 8) (unat w) in if le then bs else rev bs)"

definition host_val :: "bool \<Rightarrow> string \<Rightarrow> 'a::len word" where
  "host_val le bs = of_nat (le_val (if le then bs else rev bs))"

definition bswap :: "'a::len word \<Rightarrow> 'a word" where
  "bswap w = host_val False (host_bytes True w)"

definition hostToNetwork64 :: "bool \<Rightarrow> 64 word \<Rightarrow> 64 word" where
  "hostToNetwork64 le x = (if le then bswap x else x)"

definition hostToNetwork32 :: "bool \<Rightarrow> 32 word \<Rightarrow> 32 word" where
  "hostToNetwork32 le x = (if le then bswap x else x)"

definition hostToNetwork16 :: "bool \<Rightarrow> 16 word \<Rightarrow> 16 word" where
  "hostToNetwork16 le x = (if le then bswap x else x)"

definition networkToHost64 :: "bool \<Rightarrow> 64 word \<Rightarrow> 64 word" where
  "networkToHost64 le x = (if le then bswap x else x)"

definition networkToHost32 :: "bool \<Rightarrow> 32 word \<Rightarrow> 32 word" where
  "networkToHost32 le x = (if le then bswap x else x)"

definition networkToHost16 :: "bool \<Rightarrow> 16 word \<Rightarrow> 16 word" where
  "networkToHost16 le x = (if le then bswap x else x)"

lemmas endian_defs =
  hostToNetwork64_def hostToNetwork32_def hostToNetwork16_def
  networkToHost64_def networkToHost32_def networkToHost16_def

section \<open>The buffer's state\<close>

record Buffer =
  buffer :: string
  readerIndex :: nat
  writerIndex :: nat

definition kCheapPrepend :: nat where
  "kCheapPrepend = 8"

definition kInitialSize :: nat where
  "kInitialSize = 1024"

definition kCRLF :: string where
  "kCRLF = [CHR 0x0D, CHR 0x0A]"

definition readableBytes :: "Buffer \<Rightarrow> nat" where
  "readableBytes b = writerIndex b - readerIndex b"

definition writableBytes :: "Buffer \<Rightarrow> nat" where
  "writableBytes b = length (buffer b) - writerIndex b"

definition prependableBytes :: "Buffer \<Rightarrow> nat" where
  "prependableBytes b = readerIndex b"

definition peek :: "Buffer \<Rightarrow> nat" where
  "peek b = readerIndex b"

definition beginWrite :: "Buffer \<Rightarrow> nat" where
  "beginWrite b = writerIndex b"

definition new_Buffer :: "nat \<Rightarrow> Buffer option" where
  "new_Buffer initialSize =
     (let b = \<lparr>buffer = replicate (kCheapPrepend + initialSize) (CHR 0x00),
               readerIndex = kCheapPrepend, writerIndex = kCheapPrepend\<rparr>
      in do { assert_that (readableBytes b = 0);
              assert_that (writableBytes b = initialSize);
              assert_that (prependableBytes b = kCheapPrepend);
              Some b })"

definition Buffer_swap :: "Buffer \<Rightarrow> Buffer \<Rightarrow> Buffer \<times> Buffer" where
  "Buffer_swap this rhs =
     (this\<lparr>buffer := buffer rhs, readerIndex := readerIndex rhs, writerIndex := writerIndex rhs\<rparr>,
      rhs\<lparr>buffer := buffer this, readerIndex := readerIndex this, writerIndex := writerIndex this\<rparr>)"

section \<open>Searching\<close>

text \<open>\<open>search_at\<close> is \<^verbatim>\<open>std::search\<close> for the pattern \<open>p\<close>: the offset of its first
  occurrence, if any. \<^verbatim>\<open>memchr\<close> is the search for a single character.\<close>

fun search_at :: "string \<Rightarrow> string \<Rightarrow> nat option" where
  "search_at p [] = (if p = [] then Some 0 else None)"
| "search_at p (c # cs) =
     (if take (length p) (c # cs) = p then Some 0 else map_option Suc (search_at p cs))"

text \<open>\<^verbatim>\<open>std::find\<close> for one character, the length if there is none.\<close>

definition find_char :: "char \<Rightarrow> string \<Rightarrow> nat" where
  "find_char c s = length (takeWhile (\<lambda>x. x \<noteq> c) s)"

definition findCRLF :: "Buffer \<Rightarrow> nat option" where
  "findCRLF b =
     map_option ((+) (peek b)) (search_at kCRLF (subrange (peek b) (beginWrite b - peek b) (buffer b)))"

definition findCRLF_from :: "Buffer \<Rightarrow> nat \<Rightarrow> nat option option" where
  "findCRLF_from b start =
     do { assert_that (peek b \<le> start);
          assert_that (start \<le> beginWrite b);
          Some (map_option ((+) start) (search_at kCRLF (subrange start (beginWrite b - start) (buffer b)))) }"

definition findEOL :: "Buffer \<Rightarrow> nat option" where
  "findEOL b =
     map_option ((+) (peek b)) (search_at [CHR 0x0A] (subrange (peek b) (readableBytes b) (buffer b)))"

definition findEOL_from :: "Buffer \<Rightarrow> nat \<Rightarrow> nat option option" where
  "findEOL_from b start =
     do { assert_that (peek b \<le> start);
          assert_that (start \<le> beginWrite b);
          Some (map_option ((+) start) (search_at [CHR 0x0A] (subrange start (beginWrite b - start) (buffer b)))) }"

section \<open>Consuming\<close>

definition retrieveAll :: "Buffer \<Rightarrow> Buffer" where
  "retrieveAll b = b\<lparr>readerIndex := kCheapPrepend, writerIndex := kCheapPrepend\<rparr>"

definition retrieve :: "nat \<Rightarrow> Buffer \<Rightarrow> Buffer option" where
  "retrieve len b =
     do { assert_that (len \<le> readableBytes b);
          if len < readableBytes b
          then Some (b\<lparr>readerIndex := readerIndex b + len\<rparr>)
          else Some (retrieveAll b) }"

definition retrieveUntil :: "nat \<Rightarrow> Buffer \<Rightarrow> Buffer option" where
  "retrieveUntil end_ptr b =
     do { assert_that (peek b \<le> end_ptr);
          assert_that (end_ptr \<le> beginWrite b);
          retrieve (end_ptr - peek b) b }"

definition retrieveInt64 :: "Buffer \<Rightarrow> Buffer option" where
  "retrieveInt64 b = retrieve 8 b"

definition retrieveInt32 :: "Buffer \<Rightarrow> Buffer option" where
  "retrieveInt32 b = retrieve 4 b"

definition retrieveInt16 :: "Buffer \<Rightarrow> Buffer option" where
  "retrieveInt16 b = retrieve 2 b"

definition retrieveInt8 :: "Buffer \<Rightarrow> Buffer option" where
  "retrieveInt8 b = retrieve 1 b"

definition retrieveAsString :: "nat \<Rightarrow> Buffer \<Rightarrow> (string \<times> Buffer) option" where
  "retrieveAsString len b =
     do { assert_that (len \<le> readableBytes b);
          let result = subrange (peek b) len (buffer b);
          b' \<leftarrow> retrieve len b;
          Some (result, b') }"

definition retrieveAllAsString :: "Buffer \<Rightarrow> (string \<times> Buffer) option" where
  "retrieveAllAsString b = retrieveAsString (readableBytes b) b"

text \<open>The length of a \<^verbatim>\<open>StringPiece\<close> is an \<^verbatim>\<open>int\<close>: from \<open>2^31\<close> bytes on the cast yields a
  negative length, whose use is undefined (\<open>None\<close>).\<close>

definition toStringPiece :: "Buffer \<Rightarrow> string option" where
  "toStringPiece b =
     (if readableBytes b < 2 ^ 31 then Some (subrange (peek b) (readableBytes b) (buffer b)) else None)"

section \<open>Producing\<close>

text \<open>\<^verbatim>\<open>vector::resize\<close> throws \<^verbatim>\<open>length_error\<close> above \<^verbatim>\<open>max_size()\<close> and fills with zeros.\<close>

definition vec_resize :: "nat \<Rightarrow> string \<Rightarrow> string option" where
  "vec_resize n v =
     (if n \<le> vec_max then Some (take n v @ replicate (n - length v) (CHR 0x00)) else None)"

definition makeSpace :: "nat \<Rightarrow> Buffer \<Rightarrow> Buffer option" where
  "makeSpace len b =
     (if szwrap (writableBytes b + prependableBytes b) < szwrap (len + kCheapPrepend)
      then do { v \<leftarrow> vec_resize (szwrap (writerIndex b + len)) (buffer b);
                Some (b\<lparr>buffer := v\<rparr>) }
      else do { assert_that (kCheapPrepend < readerIndex b);
                let readable = readableBytes b;
                let b' = b\<lparr>buffer := blit kCheapPrepend
                             (subrange (readerIndex b) (writerIndex b - readerIndex b) (buffer b)) (buffer b),
                           readerIndex := kCheapPrepend,
                           writerIndex := kCheapPrepend + readable\<rparr>;
                assert_that (readable = readableBytes b');
                Some b' })"

definition ensureWritableBytes :: "nat \<Rightarrow> Buffer \<Rightarrow> Buffer option" where
  "ensureWritableBytes len b =
     do { b' \<leftarrow> (if writableBytes b < len then makeSpace len b else Some b);
          assert_that (len \<le> writableBytes b');
          Some b' }"

definition hasWritten :: "nat \<Rightarrow> Buffer \<Rightarrow> Buffer option" where
  "hasWritten len b =
     do { assert_that (len \<le> writableBytes b);
          Some (b\<lparr>writerIndex := writerIndex b + len\<rparr>) }"

definition unwrite :: "nat \<Rightarrow> Buffer \<Rightarrow> Buffer option" where
  "unwrite len b =
     do { assert_that (len \<le> readableBytes b);
          Some (b\<lparr>writerIndex := writerIndex b - len\<rparr>) }"

definition Buffer_append :: "string \<Rightarrow> Buffer \<Rightarrow> Buffer option" where
  "Buffer_append data b =
     do { b' \<leftarrow> ensureWritableBytes (length data) b;
          hasWritten (length data) (b'\<lparr>buffer := blit (beginWrite b') data (buffer b')\<rparr>) }"

definition appendInt64 :: "bool \<Rightarrow> 64 word \<Rightarrow> Buffer \<Rightarrow> Buffer option" where
  "appendInt64 le x b = Buffer_append (host_bytes le (hostToNetwork64 le x)) b"

definition appendInt32 :: "bool \<Rightarrow> 32 word \<Rightarrow> Buffer \<Rightarrow> Buffer option" where
  "appendInt32 le x b = Buffer_append (host_bytes le (hostToNetwork32 le x)) b"

definition appendInt16 :: "bool \<Rightarrow> 16 word \<Rightarrow> Buffer \<Rightarrow> Buffer option" where
  "appendInt16 le x b = Buffer_append (host_bytes le (hostToNetwork16 le x)) b"

definition appendInt8 :: "bool \<Rightarrow> 8 word \<Rightarrow> Buffer \<Rightarrow> Buffer option" where
  "appendInt8 le x b = Buffer_append (host_bytes le x) b"

definition peekInt64 :: "bool \<Rightarrow> Buffer \<Rightarrow> 64 word option" where
  "peekInt64 le b =
     do { assert_that (8 \<le> readableBytes b);
          Some (networkToHost64 le (host_val le (subrange (peek b) 8 (buffer b)))) }"

definition peekInt32 :: "bool \<Rightarrow> Buffer \<Rightarrow> 32 word option" where
  "peekInt32 le b =
     do { assert_that (4 \<le> readableBytes b);
          Some (networkToHost32 le (host_val le (subrange (peek b) 4 (buffer b)))) }"

definition peekInt16 :: "bool \<Rightarrow> Buffer \<Rightarrow> 16 word option" where
  "peekInt16 le b =
     do { assert_that (2 \<le> readableBytes b);
          Some (networkToHost16 le (host_val le (subrange (peek b) 2 (buffer b)))) }"

definition peekInt8 :: "bool \<Rightarrow> Buffer \<Rightarrow> 8 word option" where
  "peekInt8 le b =
     do { assert_that (1 \<le> readableBytes b);
          Some (host_val le (subrange (peek b) 1 (buffer b))) }"

definition readInt64 :: "bool \<Rightarrow> Buffer \<Rightarrow> (64 word \<times> Buffer) option" where
  "readInt64 le b = do { result \<leftarrow> peekInt64 le b; b' \<leftarrow> retrieveInt64 b; Some (result, b') }"

definition readInt32 :: "bool \<Rightarrow> Buffer \<Rightarrow> (32 word \<times> Buffer) option" where
  "readInt32 le b = do { result \<leftarrow> peekInt32 le b; b' \<leftarrow> retrieveInt32 b; Some (result, b') }"

definition readInt16 :: "bool \<Rightarrow> Buffer \<Rightarrow> (16 word \<times> Buffer) option" where
  "readInt16 le b = do { result \<leftarrow> peekInt16 le b; b' \<leftarrow> retrieveInt16 b; Some (result, b') }"

definition readInt8 :: "bool \<Rightarrow> Buffer \<Rightarrow> (8 word \<times> Buffer) option" where
  "readInt8 le b = do { result \<leftarrow> peekInt8 le b; b' \<leftarrow> retrieveInt8 b; Some (result, b') }"

definition prepend :: "string \<Rightarrow> Buffer \<Rightarrow> Buffer option" where
  "prepend data b =
     do { assert_that (length data \<le> prependableBytes b);
          let b' = b\<lparr>readerIndex := readerIndex b - length data\<rparr>;
          Some (b'\<lparr>buffer := blit (readerIndex b') data (buffer b')\<rparr>) }"

definition prependInt64 :: "bool \<Rightarrow> 64 word \<Rightarrow> Buffer \<Rightarrow> Buffer option" where
  "prependInt64 le x b = prepend (host_bytes le (hostToNetwork64 le x)) b"

definition prependInt32 :: "bool \<Rightarrow> 32 word \<Rightarrow> Buffer \<Rightarrow> Buffer option" where
  "prependInt32 le x b = prepend (host_bytes le (hostToNetwork32 le x)) b"

definition prependInt16 :: "bool \<Rightarrow> 16 word \<Rightarrow> Buffer \<Rightarrow> Buffer option" where
  "prependInt16 le x b = prepend (host_bytes le (hostToNetwork16 le x)) b"

definition prependInt8 :: "bool \<Rightarrow> 8 word \<Rightarrow> Buffer \<Rightarrow> Buffer option" where
  "prependInt8 le x b = prepend (host_bytes le x) b"

definition shrink :: "nat \<Rightarrow> Buffer \<Rightarrow> Buffer option" where
  "shrink reserve b =
     do { other \<leftarrow> new_Buffer kInitialSize;
          other \<leftarrow> ensureWritableBytes (szwrap (readableBytes b + reserve)) other;
          piece \<leftarrow> toStringPiece b;
          other \<leftarrow> Buffer_append piece other;
          Some (fst (Buffer_swap b other)) }"

section \<open>Reading from a socket (Buffer.cpp)\<close>

text \<open>The result of \<^verbatim>\<open>readv(2)\<close>: an \<^verbatim>\<open>errno\<close>, or the bytes the kernel scattered over the
  segments, first segment first.\<close>

datatype readv_result = ReadvError int | ReadvData string

definition extrabuf_size :: nat where
  "extrabuf_size = 65536"

definition readFd_iov :: "Buffer \<Rightarrow> nat list" where
  "readFd_iov b =
     (let writable = writableBytes b
      in if writable < extrabuf_size then [writable, extrabuf_size] else [writable])"

text \<open>\<open>readFd readv b\<close> gives the return value, the saved \<^verbatim>\<open>errno\<close> if one was saved, and the new
  buffer. \<open>readv\<close> stands for the system call and gets the lengths of the segments.\<close>

definition readFd :: "(nat list \<Rightarrow> readv_result) \<Rightarrow> Buffer \<Rightarrow> (int \<times> int option \<times> Buffer) option" where
  "readFd readv b =
     (let writable = writableBytes b
      in case readv (readFd_iov b) of
           ReadvError e \<Rightarrow> Some (-1, Some e, b)
         | ReadvData data \<Rightarrow>
             let n = length data;
                 b' = b\<lparr>buffer := blit (writerIndex b) (take writable data) (buffer b)\<rparr>
             in if n \<le> writable
                then Some (int n, None, b'\<lparr>writerIndex := writerIndex b + n\<rparr>)
                else do { b'' \<leftarrow> Buffer_append (drop writable data) (b'\<lparr>writerIndex := length (buffer b')\<rparr>);
                          Some (int n, None, b'') })"

section \<open>What clients rely on: a queue of bytes\<close>

text \<open>\<open>bytes\<close> is the content, \<open>room b n\<close> says that \<open>n\<close> more bytes can be stored without
  exceeding the largest vector.\<close>

locale byte_queue =
  fixes bytes :: "'b \<Rightarrow> string"
    and invar :: "'b \<Rightarrow> bool"
    and room :: "'b \<Rightarrow> nat \<Rightarrow> bool"
    and put :: "string \<Rightarrow> 'b \<Rightarrow> 'b option"
    and get :: "nat \<Rightarrow> 'b \<Rightarrow> (string \<times> 'b) option"
  assumes put_ok: "invar b \<Longrightarrow> room b (length xs) \<Longrightarrow>
      \<exists>b'. put xs b = Some b' \<and> invar b' \<and> bytes b' = bytes b @ xs
         \<and> (\<forall>n. room b (length xs + n) \<longrightarrow> room b' n)"
    and get_ok: "invar b \<Longrightarrow> n \<le> length (bytes b) \<Longrightarrow>
      \<exists>b'. get n b = Some (take n (bytes b), b') \<and> invar b' \<and> bytes b' = drop n (bytes b)
         \<and> (\<forall>m. room b m \<longrightarrow> room b' m)"
    and get_none: "invar b \<Longrightarrow> length (bytes b) < n \<Longrightarrow> get n b = None"
    and room_mono: "room b n \<Longrightarrow> m \<le> n \<Longrightarrow> room b m"
begin

lemma put_all_ok:
  "invar b \<Longrightarrow> room b (length (concat xss)) \<Longrightarrow>
   \<exists>b'. put_all put xss b = Some b' \<and> invar b' \<and> bytes b' = bytes b @ concat xss"
proof (induction xss arbitrary: b)
  case Nil
  then show ?case by simp
next
  case (Cons xs xss)
  from Cons.prems have "room b (length xs)"
    by (auto intro: room_mono)
  with Cons.prems put_ok obtain b1 where b1: "put xs b = Some b1" "invar b1"
      "bytes b1 = bytes b @ xs" "\<forall>n. room b (length xs + n) \<longrightarrow> room b1 n"
    by blast
  with Cons.prems have "room b1 (length (concat xss))" by simp
  with Cons.IH b1 obtain b' where "put_all put xss b1 = Some b'" "invar b'"
      "bytes b' = bytes b1 @ concat xss"
    by blast
  with b1 show ?case by simp
qed

text \<open>First in, first out: whatever the chunks were, reading gives their concatenation in order.\<close>

lemma put_all_get:
  assumes "invar b" and "bytes b = []" and "room b (length (concat xss))"
    and "n \<le> length (concat xss)"
  shows "\<exists>b' b''. put_all put xss b = Some b' \<and> get n b' = Some (take n (concat xss), b'')
           \<and> bytes b'' = drop n (concat xss)"
proof -
  from put_all_ok [OF assms(1,3)] assms(2) obtain b' where
      b': "put_all put xss b = Some b'" "invar b'" "bytes b' = concat xss"
    by auto
  with assms(4) get_ok [of b' n] show ?thesis by auto
qed

end

section \<open>Well-formed buffers and their content\<close>

definition buf_ok :: "Buffer \<Rightarrow> bool" where
  "buf_ok b \<longleftrightarrow> readerIndex b \<le> writerIndex b \<and> writerIndex b \<le> length (buffer b)
     \<and> kCheapPrepend \<le> length (buffer b) \<and> length (buffer b) \<le> vec_max"

definition content :: "Buffer \<Rightarrow> string" where
  "content b = subrange (readerIndex b) (writerIndex b - readerIndex b) (buffer b)"

definition room :: "Buffer \<Rightarrow> nat \<Rightarrow> bool" where
  "room b n \<longleftrightarrow> max kCheapPrepend (writerIndex b) + n \<le> vec_max"

named_theorems buf_defs \<open>the buffer's observers, unfolded\<close>

declare readableBytes_def [buf_defs] writableBytes_def [buf_defs] prependableBytes_def [buf_defs]
  peek_def [buf_defs] beginWrite_def [buf_defs] kCheapPrepend_def [buf_defs]

lemma length_content [simp]: "buf_ok b \<Longrightarrow> length (content b) = readableBytes b"
  by (simp add: buf_ok_def content_def readableBytes_def)

lemma room_mono_buf: "room b n \<Longrightarrow> m \<le> n \<Longrightarrow> room b m"
  by (simp add: room_def)

lemma new_Buffer_ok:
  "kCheapPrepend + n \<le> vec_max \<Longrightarrow>
   \<exists>b. new_Buffer n = Some b \<and> buf_ok b \<and> content b = [] \<and> writerIndex b = kCheapPrepend
     \<and> length (buffer b) = kCheapPrepend + n"
  by (simp add: new_Buffer_def buf_defs buf_ok_def content_def)

subsection \<open>Consuming\<close>

lemma retrieveAll_ok [simp]: "buf_ok b \<Longrightarrow> buf_ok (retrieveAll b) \<and> content (retrieveAll b) = []"
  by (simp add: buf_ok_def retrieveAll_def content_def)

lemma retrieve_ok:
  assumes "buf_ok b" and "n \<le> readableBytes b"
  shows "\<exists>b'. retrieve n b = Some b' \<and> buf_ok b' \<and> content b' = drop n (content b)
           \<and> (\<forall>m. room b m \<longrightarrow> room b' m)"
proof (cases "n < readableBytes b")
  case True
  with assms show ?thesis
    by (auto simp: retrieve_def buf_ok_def content_def readableBytes_def drop_subrange room_def)
next
  case False
  with assms have "retrieve n b = Some (retrieveAll b)" and "drop n (content b) = []"
    by (simp_all add: retrieve_def)
  moreover have "room b m \<Longrightarrow> room (retrieveAll b) m" for m
    by (simp add: room_def retrieveAll_def)
  ultimately show ?thesis using assms(1) by auto
qed

lemma retrieve_too_much: "readableBytes b < n \<Longrightarrow> retrieve n b = None"
  by (simp add: retrieve_def)

lemma retrieveAsString_ok:
  assumes "buf_ok b" and "n \<le> readableBytes b"
  shows "\<exists>b'. retrieveAsString n b = Some (take n (content b), b') \<and> buf_ok b'
           \<and> content b' = drop n (content b) \<and> (\<forall>m. room b m \<longrightarrow> room b' m)"
proof -
  have "take n (content b) = subrange (peek b) n (buffer b)"
    using assms(2) by (simp add: content_def take_subrange buf_defs)
  with retrieve_ok [OF assms] assms(2) show ?thesis
    by (auto simp: retrieveAsString_def)
qed

subsection \<open>Making space\<close>

text \<open>The assertion of the compacting branch cannot fail: that branch is only reached when the
  free space lies in front of the readable bytes.\<close>

lemma makeSpace_ok:
  assumes "buf_ok b" and "room b n" and "writableBytes b < n"
  shows "\<exists>b'. makeSpace n b = Some b' \<and> buf_ok b' \<and> content b' = content b
           \<and> n \<le> writableBytes b' \<and> writerIndex b' \<le> writerIndex b"
proof -
  from assms(1,2) have nowrap: "szwrap (writableBytes b + prependableBytes b) = writableBytes b + prependableBytes b"
      "szwrap (n + kCheapPrepend) = n + kCheapPrepend" "szwrap (writerIndex b + n) = writerIndex b + n"
      and fits: "writerIndex b + n \<le> vec_max"
    by (auto simp: buf_ok_def room_def buf_defs vec_max_def size_max_def)
  show ?thesis
  proof (cases "writableBytes b + prependableBytes b < n + kCheapPrepend")
    case True
    with assms nowrap fits show ?thesis
      by (auto simp: makeSpace_def vec_resize_def buf_ok_def content_def writableBytes_def)
  next
    case False
    with assms have "kCheapPrepend < readerIndex b"
      by (simp add: buf_defs)
    with False assms nowrap show ?thesis
      by (auto simp: makeSpace_def Let_def buf_ok_def content_def writableBytes_def readableBytes_def
          prependableBytes_def subrange_blit_len)
  qed
qed

lemma ensureWritableBytes_ok:
  assumes "buf_ok b" and "room b n"
  shows "\<exists>b'. ensureWritableBytes n b = Some b' \<and> buf_ok b' \<and> content b' = content b
           \<and> n \<le> writableBytes b' \<and> writerIndex b' \<le> writerIndex b"
proof (cases "writableBytes b < n")
  case True
  with makeSpace_ok [OF assms True] show ?thesis
    by (auto simp: ensureWritableBytes_def)
next
  case False
  with assms show ?thesis by (auto simp: ensureWritableBytes_def)
qed

subsection \<open>Producing\<close>

lemma append_in_place:
  assumes "buf_ok b" and "length xs \<le> writableBytes b"
  defines "b' \<equiv> b\<lparr>buffer := blit (writerIndex b) xs (buffer b), writerIndex := writerIndex b + length xs\<rparr>"
  shows "buf_ok b' \<and> content b' = content b @ xs"
proof -
  from assms(1,2) have bounds: "readerIndex b \<le> writerIndex b" "writerIndex b + length xs \<le> length (buffer b)"
    by (auto simp: buf_ok_def writableBytes_def)
  have "content b' = subrange (readerIndex b) ((writerIndex b - readerIndex b) + length xs)
          (blit (writerIndex b) xs (buffer b))"
    using bounds by (simp add: b'_def content_def)
  also have "\<dots> = content b @ xs"
    using bounds by (subst subrange_blit_extend) (simp_all add: content_def)
  finally show ?thesis
    using assms(1) bounds by (simp add: b'_def buf_ok_def)
qed

lemma Buffer_append_ok:
  assumes "buf_ok b" and "room b (length xs)"
  shows "\<exists>b'. Buffer_append xs b = Some b' \<and> buf_ok b' \<and> content b' = content b @ xs
           \<and> (\<forall>n. room b (length xs + n) \<longrightarrow> room b' n)"
proof -
  from ensureWritableBytes_ok [OF assms] obtain c where
      c: "ensureWritableBytes (length xs) b = Some c" "buf_ok c" "content c = content b"
         "length xs \<le> writableBytes c" "writerIndex c \<le> writerIndex b"
    by blast
  have fits: "writerIndex c + length xs \<le> length (buffer c)"
    using c(2,4) by (auto simp: buf_ok_def writableBytes_def)
  then have "Buffer_append xs b = Some (c\<lparr>buffer := blit (writerIndex c) xs (buffer c),
      writerIndex := writerIndex c + length xs\<rparr>)"
    using c(1) by (simp add: Buffer_append_def hasWritten_def beginWrite_def writableBytes_def)
  with append_in_place [OF c(2,4)] c(3,5) show ?thesis
    by (auto simp: room_def)
qed

lemma Buffer_append_Some:
  assumes "buf_ok b" and "length xs \<le> vec_max" and "Buffer_append xs b = Some b'"
  shows "buf_ok b' \<and> content b' = content b @ xs"
proof -
  let ?n = "length xs"
  from assms(1,2) have nowrap: "szwrap (writableBytes b + prependableBytes b) = writableBytes b + prependableBytes b"
      "szwrap (?n + kCheapPrepend) = ?n + kCheapPrepend" "szwrap (writerIndex b + ?n) = writerIndex b + ?n"
    by (auto simp: buf_ok_def buf_defs vec_max_def size_max_def)
  from assms(3) obtain c where c: "ensureWritableBytes ?n b = Some c" "?n \<le> writableBytes c"
      "b' = c\<lparr>buffer := blit (writerIndex c) xs (buffer c), writerIndex := writerIndex c + ?n\<rparr>"
    by (auto simp: Buffer_append_def hasWritten_def beginWrite_def ensureWritableBytes_def abort_elims split: if_splits)
  have "buf_ok c \<and> content c = content b"
  proof (cases "writableBytes b < ?n")
    case False
    with c(1) assms(1) show ?thesis by (auto simp: ensureWritableBytes_def)
  next
    case True
    with c(1) have "makeSpace ?n b = Some c" by (auto simp: ensureWritableBytes_def abort_elims split: if_splits)
    with assms(1) True show ?thesis
      unfolding makeSpace_def nowrap
      by (auto simp: vec_resize_def Let_def abort_elims buf_ok_def content_def writableBytes_def readableBytes_def
          prependableBytes_def subrange_blit_len split: if_splits)
  qed
  with append_in_place [of c xs] c(2,3) show ?thesis by simp
qed

text \<open>A successful \<^verbatim>\<open>append\<close> had no more bytes than a vector can hold, so its effect is the expected one.\<close>

lemma Buffer_append_bound:
  assumes "buf_ok b" and "Buffer_append xs b = Some b'"
  shows "length xs \<le> vec_max"
proof -
  from assms(2) obtain c where c: "ensureWritableBytes (length xs) b = Some c" "length xs \<le> writableBytes c"
    by (auto simp: Buffer_append_def ensureWritableBytes_def abort_elims split: if_splits)
  have blit: "length (blit i xs ys) \<le> max (length ys) (i + length xs)" for i :: nat and xs ys :: string by (simp add: blit_def)
  have "length (buffer c) \<le> vec_max"
  proof (cases "writableBytes b < length xs")
    case False
    with c(1) assms(1) show ?thesis by (auto simp: ensureWritableBytes_def buf_ok_def)
  next
    case True
    with c(1) have "makeSpace (length xs) b = Some c" by (auto simp: ensureWritableBytes_def abort_elims split: if_splits)
    then consider n where "n \<le> vec_max" "length (buffer c) = n"
      | "buffer c = blit kCheapPrepend (subrange (readerIndex b) (writerIndex b - readerIndex b) (buffer b)) (buffer b)"
          "kCheapPrepend < readerIndex b"
      by (auto simp: makeSpace_def vec_resize_def Let_def abort_elims split: if_splits dest!: arg_cong [of _ c buffer])
    then show ?thesis
    proof cases
      case 2
      then have "length (buffer c) \<le> max (length (buffer b)) (kCheapPrepend + length (subrange (readerIndex b) (writerIndex b - readerIndex b) (buffer b)))"
        using blit by simp
      also have "\<dots> \<le> vec_max" using 2(2) assms(1) by (auto simp: buf_ok_def)
      finally show ?thesis .
    qed simp
  qed
  with c(2) show ?thesis by (simp add: writableBytes_def)
qed

lemma Buffer_append_effect:
  assumes "buf_ok b" and "Buffer_append xs b = Some b'"
  shows "buf_ok b' \<and> content b' = content b @ xs"
  by (rule Buffer_append_Some [OF assms(1) Buffer_append_bound [OF assms] assms(2)])

interpretation bq: byte_queue content buf_ok room Buffer_append retrieveAsString
proof unfold_locales
  fix b :: Buffer and n
  assume "buf_ok b" and "length (content b) < n"
  then show "retrieveAsString n b = None"
    by (simp add: retrieveAsString_def)
qed (use Buffer_append_ok retrieveAsString_ok room_mono_buf in auto)

subsection \<open>Prepending, unwriting, shrinking\<close>

lemma prepend_ok:
  assumes "buf_ok b" and "length xs \<le> prependableBytes b"
  shows "\<exists>b'. prepend xs b = Some b' \<and> buf_ok b' \<and> content b' = xs @ content b"
proof -
  define i where "i = readerIndex b - length xs"
  from assms have i: "i + length xs = readerIndex b"
    and bounds: "readerIndex b \<le> writerIndex b" "writerIndex b \<le> length (buffer b)"
    by (auto simp: i_def buf_ok_def prependableBytes_def)
  have len: "writerIndex b - i = length xs + (writerIndex b - readerIndex b)"
    using i bounds by simp
  have "subrange i (length xs + (writerIndex b - readerIndex b)) (blit i xs (buffer b)) = xs @ content b"
    using i bounds by (subst subrange_blit_prepend [of i xs "readerIndex b"]) (simp_all add: content_def)
  with assms i bounds len show ?thesis
    by (simp add: prepend_def prependableBytes_def Let_def buf_ok_def content_def flip: i_def)
qed

lemma unwrite_ok:
  assumes "buf_ok b" and "n \<le> readableBytes b"
  shows "\<exists>b'. unwrite n b = Some b' \<and> buf_ok b' \<and> content b' = take (readableBytes b - n) (content b)"
  using assms
  by (auto simp: unwrite_def buf_ok_def content_def readableBytes_def take_subrange add.commute)

lemma shrink_ok:
  assumes "buf_ok b" and "readableBytes b < 2 ^ 31" and "reserve \<le> 2 ^ 62"
  shows "\<exists>b'. shrink reserve b = Some b' \<and> buf_ok b' \<and> content b' = content b"
proof -
  have small: "kCheapPrepend + kInitialSize \<le> vec_max"
    by (simp add: kCheapPrepend_def kInitialSize_def vec_max_def)
  from new_Buffer_ok [OF small] obtain c where
      c: "new_Buffer kInitialSize = Some c" "buf_ok c" "content c = []" "writerIndex c = kCheapPrepend"
    by blast
  have nowrap: "szwrap (readableBytes b + reserve) = readableBytes b + reserve"
    using assms(2,3) by (simp add: size_max_def)
  have "room c (readableBytes b + reserve)"
    using assms(2,3) c(4) by (simp add: room_def kCheapPrepend_def vec_max_def)
  from ensureWritableBytes_ok [OF c(2) this] obtain d where
      d: "ensureWritableBytes (readableBytes b + reserve) c = Some d" "buf_ok d" "content d = content c"
         "writerIndex d \<le> writerIndex c"
    by blast
  have piece: "toStringPiece b = Some (content b)"
    using assms(2) by (simp add: toStringPiece_def content_def peek_def readableBytes_def)
  have "room d (length (content b))"
    using d(4) c(4) assms(1,2) by (simp add: room_def kCheapPrepend_def vec_max_def)
  from Buffer_append_ok [OF d(2) this] obtain e where
      "Buffer_append (content b) d = Some e" "buf_ok e" "content e = content d @ content b"
    by blast
  with c d piece nowrap show ?thesis
    by (simp add: shrink_def Buffer_swap_def buf_ok_def content_def)
qed

subsection \<open>Integers in network byte order\<close>

text \<open>The eight, four, two or one bytes on the wire: most significant byte first.\<close>

definition be_bytes :: "'a::len word \<Rightarrow> string" where
  "be_bytes w = rev (le_bytes (LENGTH('a) div 8) (unat w))"

lemma length_be_bytes [simp]: "length (be_bytes (w :: 'a::len word)) = LENGTH('a) div 8"
  by (simp add: be_bytes_def)

lemma le_val_bound:
  assumes "LENGTH('a::len) = 8 * n" and "length cs = n"
  shows "le_val cs < 2 ^ LENGTH('a)"
  using le_val_less [of cs] assms by (simp add: power_mult)

lemma unat_of_le_val:
  assumes "LENGTH('a::len) = 8 * n" and "length cs = n"
  shows "unat (of_nat (le_val cs) :: 'a word) = le_val cs"
  using le_val_bound [OF assms] by (simp add: unat_of_nat)

lemma le_val_le_bytes_unat:
  assumes "LENGTH('a::len) = 8 * n"
  shows "le_val (le_bytes n (unat (w :: 'a word))) = unat w"
proof -
  have "unat w < 256 ^ n"
    using unsigned_less [of w] assms by (simp add: power_mult)
  then show ?thesis by simp
qed

lemma host_bytes_bswap:
  assumes "LENGTH('a::len) = 8 * n"
  shows "host_bytes le (if le then bswap w else w) = be_bytes (w :: 'a word)"
proof (cases le)
  case True
  have "unat (bswap w) = le_val (rev (le_bytes n (unat w)))"
    using assms unat_of_le_val [OF assms, of "rev (le_bytes n (unat w))"]
    by (simp add: bswap_def host_val_def host_bytes_def)
  with assms True show ?thesis by (simp add: host_bytes_def be_bytes_def)
next
  case False
  then show ?thesis by (simp add: host_bytes_def be_bytes_def)
qed

lemma bswap_host_val:
  assumes "LENGTH('a::len) = 8 * n"
  shows "(if le then bswap (host_val le (be_bytes w)) else host_val le (be_bytes w)) = (w :: 'a word)"
proof (cases le)
  case True
  have "unat (host_val True (be_bytes w) :: 'a word) = le_val (rev (le_bytes n (unat w)))"
    using assms unat_of_le_val [OF assms, of "rev (le_bytes n (unat w))"]
    by (simp add: host_val_def be_bytes_def)
  then have "bswap (host_val True (be_bytes w)) = (of_nat (unat w) :: 'a word)"
    using assms le_val_le_bytes_unat [OF assms, of w]
    by (simp add: bswap_def host_bytes_def host_val_def)
  with True show ?thesis by simp
next
  case False
  with assms le_val_le_bytes_unat [OF assms, of w] show ?thesis
    by (simp add: host_val_def be_bytes_def)
qed

lemma host_bytes_8: "host_bytes le (x :: 8 word) = be_bytes x"
  by (simp add: host_bytes_def be_bytes_def Let_def)

lemma host_val_8: "host_val le (be_bytes x) = (x :: 8 word)"
  using le_val_le_bytes_unat [where 'a = 8 and n = 1, of x] by (simp add: host_val_def be_bytes_def)

lemmas wire_bytes [simp] =
  host_bytes_bswap [where 'a = 64 and n = 8, simplified] host_bytes_bswap [where 'a = 32 and n = 4, simplified]
  host_bytes_bswap [where 'a = 16 and n = 2, simplified] host_bytes_8

lemmas wire_vals [simp] =
  bswap_host_val [where 'a = 64 and n = 8, simplified] bswap_host_val [where 'a = 32 and n = 4, simplified]
  bswap_host_val [where 'a = 16 and n = 2, simplified] host_val_8

text \<open>Peeking at a buffer whose content starts with given bytes.\<close>

lemma content_prefix:
  assumes "buf_ok b" and "content b = xs @ rest" and "length xs = n"
  shows "n \<le> readableBytes b \<and> subrange (peek b) n (buffer b) = xs"
proof -
  have "n \<le> length (content b)"
    using assms(2,3) by simp
  then have le: "n \<le> readableBytes b"
    using assms(1) by simp
  then have "take n (content b) = subrange (peek b) n (buffer b)"
    by (simp add: content_def take_subrange buf_defs)
  with le assms show ?thesis by simp
qed

lemma retrieve_prefix:
  assumes "buf_ok b" and "content b = xs @ rest" and "length xs = n"
  shows "\<exists>b'. retrieve n b = Some b' \<and> buf_ok b' \<and> content b' = rest"
  using retrieve_ok [OF assms(1), of n] content_prefix [OF assms] assms by auto

lemmas read_int_defs =
  readInt64_def readInt32_def readInt16_def readInt8_def peekInt64_def peekInt32_def peekInt16_def
  peekInt8_def retrieveInt64_def retrieveInt32_def retrieveInt16_def retrieveInt8_def endian_defs

lemma readInt64_wire:
  "buf_ok b \<Longrightarrow> content b = be_bytes x @ rest \<Longrightarrow>
   \<exists>b'. readInt64 le b = Some (x, b') \<and> buf_ok b' \<and> content b' = rest"
  using content_prefix [of b "be_bytes x" rest 8] retrieve_prefix [of b "be_bytes x" rest 8]
  by (auto simp: read_int_defs simp del: if_split)

lemma readInt32_wire:
  "buf_ok b \<Longrightarrow> content b = be_bytes x @ rest \<Longrightarrow>
   \<exists>b'. readInt32 le b = Some (x, b') \<and> buf_ok b' \<and> content b' = rest"
  using content_prefix [of b "be_bytes x" rest 4] retrieve_prefix [of b "be_bytes x" rest 4]
  by (auto simp: read_int_defs simp del: if_split)

lemma readInt16_wire:
  "buf_ok b \<Longrightarrow> content b = be_bytes x @ rest \<Longrightarrow>
   \<exists>b'. readInt16 le b = Some (x, b') \<and> buf_ok b' \<and> content b' = rest"
  using content_prefix [of b "be_bytes x" rest 2] retrieve_prefix [of b "be_bytes x" rest 2]
  by (auto simp: read_int_defs simp del: if_split)

lemma readInt8_wire:
  "buf_ok b \<Longrightarrow> content b = be_bytes x @ rest \<Longrightarrow>
   \<exists>b'. readInt8 le b = Some (x, b') \<and> buf_ok b' \<and> content b' = rest"
  using content_prefix [of b "be_bytes x" rest 1] retrieve_prefix [of b "be_bytes x" rest 1]
  by (auto simp: read_int_defs simp del: if_split)

lemmas append_int_defs =
  appendInt64_def appendInt32_def appendInt16_def appendInt8_def
  prependInt64_def prependInt32_def prependInt16_def prependInt8_def endian_defs

lemma append_int_wire:
  "appendInt64 le x64 b = Buffer_append (be_bytes x64) b"
  "appendInt32 le x32 b = Buffer_append (be_bytes x32) b"
  "appendInt16 le x16 b = Buffer_append (be_bytes x16) b"
  "appendInt8 le x8 b = Buffer_append (be_bytes x8) b"
  by (simp_all add: append_int_defs del: if_split)

lemma prepend_int_wire:
  "prependInt64 le x64 b = prepend (be_bytes x64) b"
  "prependInt32 le x32 b = prepend (be_bytes x32) b"
  "prependInt16 le x16 b = prepend (be_bytes x16) b"
  "prependInt8 le x8 b = prepend (be_bytes x8) b"
  by (simp_all add: append_int_defs del: if_split)

subsection \<open>Searching\<close>

lemma search_at_Some:
  "search_at p cs = Some i \<Longrightarrow>
     take (length p) (drop i cs) = p \<and> (\<forall>j<i. take (length p) (drop j cs) \<noteq> p)"
proof (induction p cs arbitrary: i rule: search_at.induct)
  case (1 p)
  then show ?case by (simp split: if_splits)
next
  case (2 p c cs)
  show ?case
  proof (cases "take (length p) (c # cs) = p")
    case True
    with "2.prems" show ?thesis by simp
  next
    case False
    with "2.prems" obtain k where k: "search_at p cs = Some k" "i = Suc k" by auto
    with "2.IH" False have IH: "take (length p) (drop k cs) = p"
        "\<forall>j<k. take (length p) (drop j cs) \<noteq> p" by auto
    have "take (length p) (drop j (c # cs)) \<noteq> p" if "j < i" for j
      using that k IH False by (cases j) auto
    with k IH show ?thesis by simp
  qed
qed

lemma search_at_None:
  "search_at p cs = None \<Longrightarrow> take (length p) (drop j cs) \<noteq> p"
proof (induction p cs arbitrary: j rule: search_at.induct)
  case (1 p)
  then show ?case by (auto split: if_splits)
next
  case (2 p c cs)
  then show ?case by (cases j) (auto split: if_splits)
qed

lemma search_at_append:
  "search_at p cs = Some i \<Longrightarrow> search_at p (cs @ ds) = Some i"
proof (induction p cs arbitrary: i rule: search_at.induct)
  case (1 p)
  then show ?case by (cases ds) (auto split: if_splits)
next
  case (2 p c cs)
  show ?case
  proof (cases "take (length p) (c # cs) = p")
    case True
    then have "length p \<le> length (c # cs)"
      by (metis nat_le_linear take_all_iff)
    with True have "take (length p) ((c # cs) @ ds) = p"
      by (simp only: take_append) simp
    with 2 True show ?thesis by simp
  next
    case False
    with "2.prems" obtain k where k: "search_at p cs = Some k" "i = Suc k" by auto
    with "2.IH" False have IH: "search_at p (cs @ ds) = Some k" by blast
    from search_at_Some [OF k(1)] have "length p \<le> length cs"
      by (metis le_trans length_drop length_take min.cobounded1 min.commute diff_le_self)
    with False have "take (length p) (c # (cs @ ds)) \<noteq> p"
      by (cases "length p") auto
    with IH k show ?thesis by simp
  qed
qed

lemma search_at_iff:
  assumes "p \<noteq> []"
  shows "search_at p cs = Some i \<longleftrightarrow>
     take (length p) (drop i cs) = p \<and> (\<forall>j<i. take (length p) (drop j cs) \<noteq> p)" (is "_ \<longleftrightarrow> ?R i")
proof
  assume "?R i"
  then obtain k where k: "search_at p cs = Some k"
    using search_at_None [of p cs i] by fastforce
  then have "?R k" by (rule search_at_Some)
  with \<open>?R i\<close> have "k = i"
    by (metis linorder_neqE_nat)
  with k show "search_at p cs = Some i" by simp
qed (rule search_at_Some)

lemma findCRLF_content: "findCRLF b = map_option ((+) (peek b)) (search_at kCRLF (content b))"
  by (simp add: findCRLF_def content_def peek_def beginWrite_def)

lemma crlf_inside:
  assumes "search_at kCRLF s = Some k"
  shows "k + 2 \<le> length s" and "s = take k s @ kCRLF @ drop (k + 2) s"
proof -
  have "take 2 (drop k s) = kCRLF" using search_at_Some [OF assms] by (simp add: kCRLF_def numeral_2_eq_2)
  then have len: "length (take 2 (drop k s)) = 2" by (simp add: kCRLF_def)
  then show "k + 2 \<le> length s" by simp
  have "s = take k s @ take 2 (drop k s) @ drop 2 (drop k s)" by (simp only: append_take_drop_id)
  then show "s = take k s @ kCRLF @ drop (k + 2) s" using \<open>take 2 (drop k s) = kCRLF\<close> by (simp add: add.commute)
qed

lemma retrieveUntil_ok:
  assumes "buf_ok b" and "search_at kCRLF (content b) = Some k"
  shows "findCRLF b = Some (peek b + k)" and "subrange (peek b) k (buffer b) = take k (content b)"
    and "\<exists>b'. retrieveUntil (peek b + k + 2) b = Some b' \<and> buf_ok b' \<and> content b' = drop (k + 2) (content b)"
proof -
  have le: "k + 2 \<le> readableBytes b" using crlf_inside(1) [OF assms(2)] assms(1) by simp
  show "findCRLF b = Some (peek b + k)" using assms(2) by (simp add: findCRLF_content)
  show "subrange (peek b) k (buffer b) = take k (content b)"
    using le by (simp add: content_def subrange_def buf_defs min_def)
  from retrieve_ok [OF assms(1) le] show "\<exists>b'. retrieveUntil (peek b + k + 2) b = Some b' \<and> buf_ok b' \<and> content b' = drop (k + 2) (content b)"
    using le assms(1) by (auto simp: retrieveUntil_def buf_defs buf_ok_def)
qed

lemma find_char_here: "c \<notin> set xs \<Longrightarrow> find_char c (xs @ c # ys) = length xs"
  and find_char_none: "c \<notin> set xs \<Longrightarrow> find_char c xs = length xs"
  by (induction xs) (auto simp: find_char_def)

lemma search_line: "CHR 0x0D \<notin> set line \<Longrightarrow> search_at kCRLF (line @ kCRLF @ rest) = Some (length line)"
  by (induction line) (auto simp: kCRLF_def)

lemma line_parts: "take (length line) (line @ kCRLF @ rest) = line" "drop (length line + 2) (line @ kCRLF @ rest) = rest"
  by (simp_all add: kCRLF_def)

lemma retrieveUntil_keeps: "buf_ok b \<Longrightarrow> retrieveUntil e b = Some b' \<Longrightarrow> buf_ok b'"
  by (auto simp: retrieveUntil_def retrieve_def retrieveAll_def buf_ok_def buf_defs abort_elims vec_max_def split: if_splits)

lemma retrieve_less:
  assumes "retrieve n b = Some b'" and "0 < n" and "n \<le> readableBytes b"
  shows "readableBytes b' < readableBytes b"
  using assms by (auto simp: retrieve_def retrieveAll_def readableBytes_def split: if_splits)

lemma ensureWritableBytes_reader:
  "ensureWritableBytes n b = Some b' \<Longrightarrow> kCheapPrepend \<le> readerIndex b \<Longrightarrow> kCheapPrepend \<le> readerIndex b'"
  by (auto simp: ensureWritableBytes_def makeSpace_def Let_def abort_elims split: if_splits dest!: arg_cong [of _ b' readerIndex])

lemma Buffer_append_reader: "Buffer_append xs b = Some b' \<Longrightarrow> kCheapPrepend \<le> readerIndex b \<Longrightarrow> kCheapPrepend \<le> readerIndex b'"
  by (auto simp: Buffer_append_def hasWritten_def abort_elims dest: ensureWritableBytes_reader split: if_splits)

text \<open>A buffer that holds some bytes.\<close>

definition ex_input :: "string \<Rightarrow> Buffer" where
  "ex_input s = \<lparr>buffer = replicate kCheapPrepend (CHR 0x00) @ s, readerIndex = kCheapPrepend, writerIndex = kCheapPrepend + length s\<rparr>"

lemma ex_input_ok: "length s < 1000 \<Longrightarrow> buf_ok (ex_input s)" "content (ex_input s) = s" "readableBytes (ex_input s) = length s"
  by (simp_all add: ex_input_def buf_ok_def content_def subrange_def buf_defs vec_max_def)

lemma content_window:
  assumes "buf_ok b" and "k + n \<le> readableBytes b"
  shows "take n (drop k (content b)) = subrange (readerIndex b + k) n (buffer b)"
  using assms by (simp add: content_def drop_subrange take_subrange readableBytes_def)

lemma window_in_content:
  assumes "buf_ok b" and "take 2 (drop k (content b)) = kCRLF"
  shows "k + 2 \<le> readableBytes b"
proof -
  have "length (take 2 (drop k (content b))) = 2"
    using assms(2) by (simp add: kCRLF_def)
  with assms(1) show ?thesis by (simp add: min_def split: if_splits)
qed

lemma length_kCRLF [simp]: "length kCRLF = 2" and kCRLF_ne [simp]: "kCRLF \<noteq> []"
  by (simp_all add: kCRLF_def)

section \<open>The buffer's properties\<close>

text \<open>C4: storing any sequence of chunks in an empty buffer that has room for them never aborts,
  whether the buffer has to grow or to move its readable bytes, and any prefix read back
  with \<^verbatim>\<open>retrieveAsString\<close> is the prefix of the chunks' concatenation: no byte is lost,
  duplicated or reordered.\<close>

theorem buffer_fifo:
  assumes "buf_ok b" and "content b = []" and "room b (length (concat chunks))"
    and "n \<le> length (concat chunks)"
  shows "\<exists>b' b''. put_all Buffer_append chunks b = Some b'
           \<and> retrieveAsString n b' = Some (take n (concat chunks), b'')
           \<and> content b'' = drop n (concat chunks)"
  using assms by (rule bq.put_all_get)

definition ex_buf :: Buffer where
  "ex_buf = \<lparr>buffer = ''................'', readerIndex = 12, writerIndex = 12\<rparr>"

theorem buffer_fifo_witness:
  "\<exists>b' b''. put_all Buffer_append [''abc'', ''defgh''] ex_buf = Some b'
     \<and> retrieveAsString 5 b' = Some (''abcde'', b'') \<and> content b'' = ''fgh''"
proof -
  have "buf_ok ex_buf" "content ex_buf = []" "room ex_buf (length (concat [''abc'', ''defgh'']))"
    by (simp_all add: ex_buf_def buf_ok_def content_def room_def kCheapPrepend_def vec_max_def)
  with buffer_fifo [of ex_buf "[''abc'', ''defgh'']" 5] show ?thesis by simp
qed

text \<open>Appending to a well-formed buffer with enough room keeps it well-formed and extends its
  content by exactly the appended bytes; in particular the assertion in \<^verbatim>\<open>makeSpace\<close> that
  \<^verbatim>\<open>kCheapPrepend < readerIndex_\<close> and the one in \<^verbatim>\<open>ensureWritableBytes\<close> cannot fail.\<close>

theorem Buffer_append_refines:
  assumes "buf_ok b" and "room b (length xs)"
  shows "\<exists>b'. Buffer_append xs b = Some b' \<and> buf_ok b' \<and> content b' = content b @ xs"
  using Buffer_append_ok [OF assms] by blast

theorem Buffer_append_refines_witness:
  "\<exists>b'. Buffer_append ''hello!'' ex_buf = Some b' \<and> buf_ok b' \<and> content b' = ''hello!''"
proof -
  have "buf_ok ex_buf" "content ex_buf = []" "room ex_buf (length ''hello!'')"
    by (simp_all add: ex_buf_def buf_ok_def content_def room_def kCheapPrepend_def vec_max_def)
  with Buffer_append_refines [of ex_buf "''hello!''"] show ?thesis by simp
qed

lemma wire_roundtrip:
  assumes "buf_ok b" and "room b 8" and "length xs \<le> 8" and "app = Buffer_append xs"
    and "content c = xs @ rest \<Longrightarrow> \<exists>c'. rd c = Some (x, c') \<and> buf_ok c' \<and> content c' = rest"
  shows "\<exists>b'. app b = Some b' \<and> (content c = drop (length (content b)) (content b') @ rest \<longrightarrow>
           (\<exists>c'. rd c = Some (x, c') \<and> content c' = rest))"
  using Buffer_append_ok [OF assms(1) room_mono_buf [OF assms(2,3)]] assms(4,5) by fastforce

text \<open>C5: integers of every width survive the wire: the bytes that \<^verbatim>\<open>appendInt64/32/16/8\<close> add on a
  host of either byte order are read back as the same value by \<^verbatim>\<open>readInt64/32/16/8\<close> on a host
  of either byte order, which consumes exactly these bytes.\<close>

theorem int_wire_roundtrip:
  assumes "buf_ok b" and "room b 8" and "buf_ok c"
  shows "(\<exists>b'. appendInt64 sle xl b = Some b' \<and>
            (content c = drop (length (content b)) (content b') @ rest \<longrightarrow>
              (\<exists>c'. readInt64 rle c = Some (xl, c') \<and> content c' = rest)))
       \<and> (\<exists>b'. appendInt32 sle xi b = Some b' \<and>
            (content c = drop (length (content b)) (content b') @ rest \<longrightarrow>
              (\<exists>c'. readInt32 rle c = Some (xi, c') \<and> content c' = rest)))
       \<and> (\<exists>b'. appendInt16 sle xs b = Some b' \<and>
            (content c = drop (length (content b)) (content b') @ rest \<longrightarrow>
              (\<exists>c'. readInt16 rle c = Some (xs, c') \<and> content c' = rest)))
       \<and> (\<exists>b'. appendInt8 sle xc b = Some b' \<and>
            (content c = drop (length (content b)) (content b') @ rest \<longrightarrow>
              (\<exists>c'. readInt8 rle c = Some (xc, c') \<and> content c' = rest)))"
proof (intro conjI)
  note rt = wire_roundtrip [OF assms(1,2), where c = c and rest = rest]
  show "\<exists>b'. appendInt64 sle xl b = Some b' \<and>
            (content c = drop (length (content b)) (content b') @ rest \<longrightarrow>
              (\<exists>c'. readInt64 rle c = Some (xl, c') \<and> content c' = rest))"
    by (rule rt [of "be_bytes xl"]) (simp_all add: append_int_wire fun_eq_iff readInt64_wire [OF assms(3)])
  show "\<exists>b'. appendInt32 sle xi b = Some b' \<and>
            (content c = drop (length (content b)) (content b') @ rest \<longrightarrow>
              (\<exists>c'. readInt32 rle c = Some (xi, c') \<and> content c' = rest))"
    by (rule rt [of "be_bytes xi"]) (simp_all add: append_int_wire fun_eq_iff readInt32_wire [OF assms(3)])
  show "\<exists>b'. appendInt16 sle xs b = Some b' \<and>
            (content c = drop (length (content b)) (content b') @ rest \<longrightarrow>
              (\<exists>c'. readInt16 rle c = Some (xs, c') \<and> content c' = rest))"
    by (rule rt [of "be_bytes xs"]) (simp_all add: append_int_wire fun_eq_iff readInt16_wire [OF assms(3)])
  show "\<exists>b'. appendInt8 sle xc b = Some b' \<and>
            (content c = drop (length (content b)) (content b') @ rest \<longrightarrow>
              (\<exists>c'. readInt8 rle c = Some (xc, c') \<and> content c' = rest))"
    by (rule rt [of "be_bytes xc"]) (simp_all add: append_int_wire fun_eq_iff readInt8_wire [OF assms(3)])
qed

theorem int_wire_roundtrip_witness:
  "\<exists>c'. readInt32 True \<lparr>buffer = [CHR 0x00, CHR 0x00, CHR 0x00, CHR 0x00, CHR 0x12, CHR 0x34, CHR 0x56, CHR 0x78],
        readerIndex = 4, writerIndex = 8\<rparr> = Some (0x12345678, c') \<and> content c' = []"
proof -
  let ?c = "\<lparr>buffer = [CHR 0x00, CHR 0x00, CHR 0x00, CHR 0x00, CHR 0x12, CHR 0x34, CHR 0x56, CHR 0x78],
        readerIndex = 4, writerIndex = 8\<rparr>"
  have ok: "buf_ok ex_buf" "room ex_buf 8" "buf_ok ?c"
    by (simp_all add: ex_buf_def buf_ok_def room_def kCheapPrepend_def vec_max_def)
  have "be_bytes (0x12345678 :: 32 word) = content ?c"
    by (simp add: be_bytes_def content_def subrange_def char_of_def bit_Suc_0_iff)
  moreover have "\<exists>b'. appendInt32 False 0x12345678 ex_buf = Some b'
      \<and> drop (length (content ex_buf)) (content b') = be_bytes (0x12345678 :: 32 word)"
    using Buffer_append_ok [OF ok(1), of "be_bytes (0x12345678 :: 32 word)"] room_mono_buf [OF ok(2)]
    by (auto simp: append_int_wire)
  ultimately show ?thesis
    using int_wire_roundtrip [OF ok, where sle = False and rle = True and rest = "[]" and xi = "0x12345678"]
    by auto
qed

text \<open>A header written with \<^verbatim>\<open>prependInt32\<close> in the reserved space in front of a payload is
  what \<^verbatim>\<open>readInt32\<close> returns first, on either byte order, and the payload follows unchanged;
  without eight prependable bytes \<^verbatim>\<open>prependInt64\<close> aborts instead of overwriting anything.\<close>

theorem prepend_header_roundtrip:
  assumes "buf_ok b" and "4 \<le> prependableBytes b"
  shows "(\<exists>b' b''. prependInt32 le1 x b = Some b' \<and> buf_ok b' \<and> readInt32 le2 b' = Some (x, b'')
            \<and> content b'' = content b)
       \<and> (prependableBytes b < 8 \<longrightarrow> prependInt64 le1 y b = None)"
proof -
  from prepend_ok [OF assms(1), of "be_bytes x"] assms(2) obtain b' where
      b': "prependInt32 le1 x b = Some b'" "buf_ok b'" "content b' = be_bytes x @ content b"
    by (auto simp: prepend_int_wire)
  from readInt32_wire [OF b'(2,3)] b' show ?thesis
    by (auto simp: prepend_int_wire prepend_def)
qed

theorem prepend_header_roundtrip_witness:
  "\<exists>b' b''. prependInt32 True 7 ex_buf = Some b' \<and> buf_ok b' \<and> readInt32 False b' = Some (7, b'')
     \<and> content b'' = content ex_buf"
proof -
  have "buf_ok ex_buf" "4 \<le> prependableBytes ex_buf"
    by (simp_all add: ex_buf_def buf_ok_def buf_defs vec_max_def)
  from prepend_header_roundtrip [OF this] show ?thesis by blast
qed

text \<open>\<^verbatim>\<open>findCRLF\<close> returns the first position of a carriage return followed by a line feed among
  the readable bytes, and no position exactly when there is none.\<close>

theorem findCRLF_first:
  assumes "buf_ok b"
  shows "findCRLF b = Some i \<longleftrightarrow>
     peek b \<le> i \<and> i + 2 \<le> beginWrite b \<and> subrange i 2 (buffer b) = kCRLF
     \<and> (\<forall>j. peek b \<le> j \<and> j < i \<longrightarrow> subrange j 2 (buffer b) \<noteq> kCRLF)" (is "_ \<longleftrightarrow> ?R")
proof -
  note window = content_window [OF assms, of _ 2] and inside = window_in_content [OF assms]
  show ?thesis
  proof
    assume "findCRLF b = Some i"
    then obtain k where k: "search_at kCRLF (content b) = Some k" "i = readerIndex b + k"
      by (auto simp: findCRLF_content peek_def)
    then have first: "take 2 (drop k (content b)) = kCRLF" "\<forall>j<k. take 2 (drop j (content b)) \<noteq> kCRLF"
      by (simp_all add: search_at_iff)
    note kle = inside [OF first(1)]
    have "subrange j 2 (buffer b) \<noteq> kCRLF" if "readerIndex b \<le> j" "j < i" for j
      using first(2) window [of "j - readerIndex b"] that k(2) kle by force
    with first(1) window [OF kle] kle k(2) assms show ?R
      by (auto simp: buf_defs buf_ok_def)
  next
    assume R: ?R
    define k where "k = i - readerIndex b"
    from R have ik: "i = readerIndex b + k" and kle: "k + 2 \<le> readableBytes b"
      by (auto simp: k_def buf_defs)
    have "take 2 (drop j (content b)) \<noteq> kCRLF" if "j < k" for j
      using R window [of j] that ik kle by (auto simp: peek_def)
    with R window [OF kle] ik have "search_at kCRLF (content b) = Some k"
      by (simp add: search_at_iff)
    with ik show "findCRLF b = Some i"
      by (simp add: findCRLF_content peek_def)
  qed
qed

theorem findCRLF_first_witness:
  "findCRLF \<lparr>buffer = ''GET / HT'' @ kCRLF @ ''xx'', readerIndex = 4, writerIndex = 12\<rparr> = Some 8"
proof -
  have ok: "buf_ok \<lparr>buffer = ''GET / HT'' @ kCRLF @ ''xx'', readerIndex = 4, writerIndex = 12\<rparr>"
    by (simp add: buf_ok_def kCRLF_def kCheapPrepend_def vec_max_def)
  have "\<And>j::nat. 4 \<le> j \<and> j < 8 \<Longrightarrow> j = 4 \<or> j = 5 \<or> j = 6 \<or> j = 7"
    by arith
  with findCRLF_first [OF ok, of 8] show ?thesis
    by (force simp: peek_def beginWrite_def subrange_def kCRLF_def)
qed

text \<open>\<^verbatim>\<open>readFd\<close> appends exactly the bytes the kernel delivered, whether they fit the free space
  or overflow into the 64 KiB stack buffer; on an error it returns -1, saves the \<^verbatim>\<open>errno\<close> and
  leaves the buffer alone. \<open>readv\<close> is the system call: it never delivers more than the
  segments hold.\<close>

theorem readFd_appends:
  assumes "buf_ok b" and "length (buffer b) + extrabuf_size \<le> vec_max"
    and contract: "\<And>data. readv (readFd_iov b) = ReadvData data \<Longrightarrow> length data \<le> sum_list (readFd_iov b)"
  shows "case readv (readFd_iov b) of
           ReadvError e \<Rightarrow> readFd readv b = Some (-1, Some e, b)
         | ReadvData data \<Rightarrow> (\<exists>b'. readFd readv b = Some (int (length data), None, b')
              \<and> buf_ok b' \<and> content b' = content b @ data)"
proof (cases "readv (readFd_iov b)")
  case (ReadvError e)
  then show ?thesis by (simp add: readFd_def)
next
  case (ReadvData data)
  let ?w = "writableBytes b"
  have full: "writerIndex b + ?w = length (buffer b)"
    using assms(1) by (simp add: buf_ok_def writableBytes_def)
  have "\<exists>b'. readFd readv b = Some (int (length data), None, b') \<and> buf_ok b' \<and> content b' = content b @ data"
  proof (cases "length data \<le> ?w")
    case True
    with append_in_place [OF assms(1) True] ReadvData show ?thesis
      by (simp add: readFd_def Let_def)
  next
    case False
    then have len: "length (take ?w data) = ?w" by simp
    define c where "c = b\<lparr>buffer := blit (writerIndex b) (take ?w data) (buffer b), writerIndex := length (buffer b)\<rparr>"
    from append_in_place [OF assms(1), of "take ?w data"] len full
    have c: "buf_ok c" "content c = content b @ take ?w data" "writerIndex c = length (buffer b)"
      by (simp_all add: c_def)
    have "length data \<le> ?w + extrabuf_size"
      using contract [OF ReadvData] by (auto simp: readFd_iov_def Let_def split: if_splits)
    with assms(1,2) c(3) have "room c (length (drop ?w data))"
      by (auto simp: room_def buf_ok_def)
    from Buffer_append_ok [OF c(1) this] c(2) obtain b' where
        "Buffer_append (drop ?w data) c = Some b'" "buf_ok b'" "content b' = content b @ data"
      by auto
    moreover have "length (blit (writerIndex b) (take ?w data) (buffer b)) = length (buffer b)"
      using len full by simp
    ultimately show ?thesis
      using False ReadvData by (simp add: readFd_def Let_def c_def)
  qed
  with ReadvData show ?thesis by simp
qed

definition ex_readv :: "nat list \<Rightarrow> readv_result" where
  "ex_readv vec = ReadvData (take (sum_list vec) ''ping pong'')"

theorem readFd_appends_witness:
  "\<exists>b'. readFd ex_readv ex_buf = Some (9, None, b') \<and> buf_ok b' \<and> content b' = ''ping pong''"
proof -
  have iov: "readFd_iov ex_buf = [4, 65536]"
    by (simp add: ex_buf_def readFd_iov_def writableBytes_def extrabuf_size_def)
  have "buf_ok ex_buf" "length (buffer ex_buf) + extrabuf_size \<le> vec_max" "content ex_buf = []"
    by (simp_all add: ex_buf_def buf_ok_def content_def kCheapPrepend_def extrabuf_size_def vec_max_def)
  with readFd_appends [of ex_buf ex_readv] iov show ?thesis
    by (simp add: ex_readv_def)
qed

text \<open>\<^verbatim>\<open>shrink\<close> gives a fresh buffer with the same content, for contents whose length fits the
  \<^verbatim>\<open>int\<close> of a \<^verbatim>\<open>StringPiece\<close>.\<close>

theorem shrink_keeps_content:
  assumes "buf_ok b" and "readableBytes b < 2 ^ 31" and "reserve \<le> 2 ^ 62"
  shows "\<exists>b'. shrink reserve b = Some b' \<and> buf_ok b' \<and> content b' = content b"
  using assms by (rule shrink_ok)

theorem shrink_keeps_content_witness:
  "\<exists>b'. shrink 0 (ex_buf\<lparr>readerIndex := 9\<rparr>) = Some b' \<and> buf_ok b' \<and> content b' = ''...''"
proof -
  let ?b = "ex_buf\<lparr>readerIndex := 9\<rparr>"
  have "buf_ok ?b" "readableBytes ?b < 2 ^ 31" "content ?b = ''...''"
    by (simp_all add: ex_buf_def buf_ok_def readableBytes_def content_def subrange_def kCheapPrepend_def vec_max_def)
  with shrink_keeps_content [of ?b 0] show ?thesis by simp
qed

end
