(* ===== verification/TcpConnection.thy ===== *)
theory TcpConnection
  imports EventLoop Buffer
begin

text \<open>
  \<^verbatim>\<open>TcpConnection.h\<close> and \<^verbatim>\<open>TcpConnection.cpp\<close>. The loop's record is extended by the connection objects
  and by what passed each socket: \<open>w_rcvd\<close> the bytes read from it, \<open>w_sent\<close> the bytes the
  kernel accepted from it, \<open>w_shut\<close> whether its writing side was shut down. Results of system calls are
  arguments. The user callbacks are the default ones of the source; the close callback, which belongs to the
  server, is an argument. The channel of connection \<open>cid\<close> is the channel object of the same number.
\<close>

section \<open>State\<close>

datatype StateE = kDisconnected | kConnecting | kConnected | kDisconnecting

record TcpConnection =
  c_state :: StateE
  c_name :: string
  c_reading :: bool
  c_fd :: int
  c_channel :: nat
  c_connectionCallback :: bool
  c_messageCallback :: bool
  c_closeCallback :: bool
  c_writecompleteCB :: bool
  c_inputBuffer :: Buffer
  c_outputBuffer :: Buffer

text \<open>The functors the connections and the server queue.\<close>

datatype Functor =
    ConnectEstablished nat
  | ConnectDestroyed nat
  | WriteComplete nat
  | SendInLoop nat string
  | ShutdownInLoop nat
  | RemoveConnectionInLoop nat
  | AcceptorListen

record NetLoop = "Functor EventLoop" +
  w_conns :: "nat \<rightharpoonup> TcpConnection"
  w_rcvd :: "nat \<Rightarrow> string"
  w_sent :: "nat \<Rightarrow> string"
  w_shut :: "nat \<Rightarrow> bool"

text \<open>The result of \<^verbatim>\<open>write(2)\<close>: the number of bytes taken, or an \<^verbatim>\<open>errno\<close>.\<close>

datatype write_result = Wrote nat | WriteError int

definition EWOULDBLOCK :: int where "EWOULDBLOCK = 11"

definition EPIPE :: int where "EPIPE = 32"

definition ECONNRESET :: int where "ECONNRESET = 104"

text \<open>What the kernel does for one connection during one event.\<close>

record conn_io =
  io_readv :: "nat list \<Rightarrow> readv_result"
  io_write :: "string \<Rightarrow> write_result"

definition set_conn :: "nat \<Rightarrow> TcpConnection \<Rightarrow> 'z NetLoop_scheme \<Rightarrow> 'z NetLoop_scheme" where
  "set_conn cid c w = w\<lparr>w_conns := (w_conns w)(cid \<mapsto> c)\<rparr>"

definition setState :: "nat \<Rightarrow> StateE \<Rightarrow> 'z NetLoop_scheme \<Rightarrow> 'z NetLoop_scheme option" where
  "setState cid s w = do { c \<leftarrow> w_conns w cid; Some (set_conn cid (c\<lparr>c_state := s\<rparr>) w) }"

fun stateToString :: "StateE \<Rightarrow> string" where
  "stateToString kDisconnected = ''kDisconnected''"
| "stateToString kConnecting = ''kConnecting''"
| "stateToString kConnected = ''kConnected''"
| "stateToString kDisconnecting = ''kDisconnecting''"

text \<open>The constructor; the callbacks of the connection are empty until the server sets them.\<close>

definition new_TcpConnection :: "nat \<Rightarrow> string \<Rightarrow> int \<Rightarrow> 'z NetLoop_scheme \<Rightarrow> 'z NetLoop_scheme option" where
  "new_TcpConnection cid nameArg sockfd w = do {
     w \<leftarrow> alloc_Channel cid sockfd w;
     inb \<leftarrow> new_Buffer kInitialSize;
     outb \<leftarrow> new_Buffer kInitialSize;
     Some (set_conn cid
       \<lparr>c_state = kConnecting, c_name = nameArg, c_reading = True, c_fd = sockfd, c_channel = cid,
        c_connectionCallback = False, c_messageCallback = False, c_closeCallback = False, c_writecompleteCB = False,
        c_inputBuffer = inb, c_outputBuffer = outb\<rparr>
       (w\<lparr>w_rcvd := (w_rcvd w)(cid := []), w_sent := (w_sent w)(cid := []), w_shut := (w_shut w)(cid := False)\<rparr>))
   }"

text \<open>The four setters, with the default callbacks and the server's close callback.\<close>

definition set_callbacks :: "nat \<Rightarrow> 'z NetLoop_scheme \<Rightarrow> 'z NetLoop_scheme option" where
  "set_callbacks cid w = do {
     c \<leftarrow> w_conns w cid;
     Some (set_conn cid (c\<lparr>c_connectionCallback := True, c_messageCallback := True, c_closeCallback := True,
                           c_writecompleteCB := True\<rparr>) w)
   }"

text \<open>The destructor: the assertion, then the members \<^verbatim>\<open>_channel\<close> and \<^verbatim>\<open>_socket\<close>.\<close>

definition delete_TcpConnection :: "int \<Rightarrow> nat \<Rightarrow> 'z NetLoop_scheme \<Rightarrow> 'z NetLoop_scheme option" where
  "delete_TcpConnection tid cid w = do {
     c \<leftarrow> w_conns w cid;
     assert_that (c_state c = kDisconnected);
     w \<leftarrow> delete_Channel tid (c_channel c) w;
     Some (w\<lparr>w_conns := (w_conns w)(cid := None)\<rparr>)
   }"

section \<open>Sending\<close>

text \<open>Bytes the kernel takes from a \<^verbatim>\<open>write\<close> on the connection's socket.\<close>

definition kernel_takes :: "nat \<Rightarrow> string \<Rightarrow> 'z NetLoop_scheme \<Rightarrow> 'z NetLoop_scheme" where
  "kernel_takes cid bytes w = w\<lparr>w_sent := (w_sent w)(cid := w_sent w cid @ bytes)\<rparr>"

definition sendInLoopEX :: "int \<Rightarrow> conn_io \<Rightarrow> nat \<Rightarrow> string \<Rightarrow> 'z NetLoop_scheme \<Rightarrow> 'z NetLoop_scheme option" where
  "sendInLoopEX tid io cid dat w = do {
     assertInLoopThread tid w;
     c \<leftarrow> w_conns w cid;
     if c_state c = kDisconnected then Some w
     else do {
       h \<leftarrow> p_objs (el_poller w) (c_channel c);
       let (w, nwrote, faultError) =
         (if \<not> isWriting h \<and> readableBytes (c_outputBuffer c) \<noteq> 0
          then (case io_write io dat of
                  Wrote n \<Rightarrow>
                    (let w = kernel_takes cid (take n dat) w;
                         w = (if length dat - n = 0 \<and> c_writecompleteCB c then queueInLoop (WriteComplete cid) w else w)
                     in (w, n, False))
                | WriteError e \<Rightarrow> (w, 0, e \<noteq> EWOULDBLOCK \<and> (e = EPIPE \<or> e = ECONNRESET)))
          else (w, 0, False));
       let remaining = length dat - nwrote;
       assert_that (nwrote \<le> length dat);
       if \<not> faultError \<and> remaining > 0
       then do {
         outb \<leftarrow> Buffer_append (drop nwrote dat) (c_outputBuffer c);
         let w = set_conn cid (c\<lparr>c_outputBuffer := outb\<rparr>) w;
         (if \<not> isWriting h then set_interest tid EnableWriting (c_channel c) w else Some w)
       }
       else Some w
     }
   }"

definition sendInLoop :: "int \<Rightarrow> conn_io \<Rightarrow> nat \<Rightarrow> string \<Rightarrow> 'z NetLoop_scheme \<Rightarrow> 'z NetLoop_scheme option" where
  "sendInLoop tid io cid message w = sendInLoopEX tid io cid message w"

definition send :: "int \<Rightarrow> conn_io \<Rightarrow> nat \<Rightarrow> string \<Rightarrow> 'z NetLoop_scheme \<Rightarrow> 'z NetLoop_scheme option" where
  "send tid io cid message w = do {
     c \<leftarrow> w_conns w cid;
     (if c_state c = kConnected
      then (if isInLoopThread tid w then sendInLoop tid io cid message w
            else Some (queueInLoop (SendInLoop cid message) w))
      else Some w)
   }"

text \<open>\<^verbatim>\<open>send(const void*, int)\<close>\<close>

definition send_bytes :: "int \<Rightarrow> conn_io \<Rightarrow> nat \<Rightarrow> string \<Rightarrow> nat \<Rightarrow> 'z NetLoop_scheme \<Rightarrow> 'z NetLoop_scheme option" where
  "send_bytes tid io cid dat len w = send tid io cid (take len dat) w"

text \<open>\<^verbatim>\<open>send(Buffer*)\<close> also gives back the emptied buffer.\<close>

definition send_buffer ::
    "int \<Rightarrow> conn_io \<Rightarrow> nat \<Rightarrow> Buffer \<Rightarrow> 'z NetLoop_scheme \<Rightarrow> ('z NetLoop_scheme \<times> Buffer) option" where
  "send_buffer tid io cid buf w = do {
     c \<leftarrow> w_conns w cid;
     (if c_state c = kConnected
      then (if isInLoopThread tid w
            then do { w \<leftarrow> sendInLoopEX tid io cid (subrange (peek buf) (readableBytes buf) (buffer buf)) w;
                      Some (w, retrieveAll buf) }
            else do { (msg, buf) \<leftarrow> retrieveAllAsString buf; Some (queueInLoop (SendInLoop cid msg) w, buf) })
      else Some (w, buf))
   }"

section \<open>Closing\<close>

definition shutdownInLoop :: "int \<Rightarrow> nat \<Rightarrow> 'z NetLoop_scheme \<Rightarrow> 'z NetLoop_scheme option" where
  "shutdownInLoop tid cid w = do {
     assertInLoopThread tid w;
     c \<leftarrow> w_conns w cid;
     h \<leftarrow> p_objs (el_poller w) (c_channel c);
     (if \<not> isWriting h then Some (w\<lparr>w_shut := (w_shut w)(cid := True)\<rparr>) else Some w)
   }"

text \<open>The loop thread runs \<^verbatim>\<open>shutdownInLoop\<close> at once.\<close>

definition shutdown :: "int \<Rightarrow> nat \<Rightarrow> 'z NetLoop_scheme \<Rightarrow> 'z NetLoop_scheme option" where
  "shutdown tid cid w = do {
     assertInLoopThread tid w;
     c \<leftarrow> w_conns w cid;
     (if c_state c = kConnected
      then do { w \<leftarrow> setState cid kDisconnecting w;
                (if isInLoopThread tid w then shutdownInLoop tid cid w else Some (queueInLoop (ShutdownInLoop cid) w)) }
      else Some w)
   }"

text \<open>The default connection and write-complete callbacks only log; calling an empty one throws.\<close>

definition connectionCallback :: "nat \<Rightarrow> 'z NetLoop_scheme \<Rightarrow> 'z NetLoop_scheme option" where
  "connectionCallback cid w = do { c \<leftarrow> w_conns w cid; assert_that (c_connectionCallback c); Some w }"

definition defaultWriteCompleteCallback :: "nat \<Rightarrow> 'z NetLoop_scheme \<Rightarrow> 'z NetLoop_scheme option" where
  "defaultWriteCompleteCallback cid w = Some w"

definition handleClose ::
    "(nat \<Rightarrow> 'z NetLoop_scheme \<Rightarrow> 'z NetLoop_scheme option) \<Rightarrow> int \<Rightarrow> nat \<Rightarrow> 'z NetLoop_scheme \<Rightarrow> 'z NetLoop_scheme option" where
  "handleClose closeCB tid cid w = do {
     assertInLoopThread tid w;
     c \<leftarrow> w_conns w cid;
     assert_that (c_state c = kConnected \<or> c_state c = kDisconnecting);
     w \<leftarrow> setState cid kDisconnected w;
     w \<leftarrow> set_interest tid DisableAll (c_channel c) w;
     w \<leftarrow> connectionCallback cid w;
     assert_that (c_closeCallback c);
     closeCB cid w
   }"

text \<open>\<^verbatim>\<open>handleError\<close> reads \<^verbatim>\<open>SO_ERROR\<close> and logs it.\<close>

definition handleError :: "nat \<Rightarrow> 'z NetLoop_scheme \<Rightarrow> 'z NetLoop_scheme option" where
  "handleError cid w = do { c \<leftarrow> w_conns w cid; h \<leftarrow> p_objs (el_poller w) (c_channel c); Some w }"

definition connectEstablished :: "int \<Rightarrow> nat \<Rightarrow> 'z NetLoop_scheme \<Rightarrow> 'z NetLoop_scheme option" where
  "connectEstablished tid cid w = do {
     assertInLoopThread tid w;
     c \<leftarrow> w_conns w cid;
     assert_that (c_state c = kConnecting);
     w \<leftarrow> setState cid kConnected w;
     w \<leftarrow> on_chan (c_channel c) (tie cid) w;
     w \<leftarrow> set_interest tid EnableReading (c_channel c) w;
     connectionCallback cid w
   }"

definition connectDestroyed :: "int \<Rightarrow> nat \<Rightarrow> 'z NetLoop_scheme \<Rightarrow> 'z NetLoop_scheme option" where
  "connectDestroyed tid cid w = do {
     assertInLoopThread tid w;
     c \<leftarrow> w_conns w cid;
     w \<leftarrow> (if c_state c = kConnected
          then do { w \<leftarrow> setState cid kDisconnected w;
                    w \<leftarrow> set_interest tid DisableAll (c_channel c) w;
                    connectionCallback cid w }
          else Some w);
     Channel_remove tid (c_channel c) w
   }"

section \<open>Events\<close>

definition defaultMessageCallback :: "int \<Rightarrow> conn_io \<Rightarrow> nat \<Rightarrow> 'z NetLoop_scheme \<Rightarrow> 'z NetLoop_scheme option" where
  "defaultMessageCallback tid io cid w = do {
     c \<leftarrow> w_conns w cid;
     (msg, inb) \<leftarrow> retrieveAllAsString (c_inputBuffer c);
     send tid io cid msg (set_conn cid (c\<lparr>c_inputBuffer := inb\<rparr>) w)
   }"

text \<open>The bytes a successful \<^verbatim>\<open>readv\<close> delivered are recorded in \<open>w_rcvd\<close>.\<close>

definition kernel_gives :: "nat \<Rightarrow> readv_result \<Rightarrow> 'z NetLoop_scheme \<Rightarrow> 'z NetLoop_scheme" where
  "kernel_gives cid r w =
     (case r of ReadvData bytes \<Rightarrow> w\<lparr>w_rcvd := (w_rcvd w)(cid := w_rcvd w cid @ bytes)\<rparr> | ReadvError e \<Rightarrow> w)"

definition handleRead ::
    "(nat \<Rightarrow> 'z NetLoop_scheme \<Rightarrow> 'z NetLoop_scheme option) \<Rightarrow> int \<Rightarrow> conn_io \<Rightarrow> nat \<Rightarrow> Timestamp
     \<Rightarrow> 'z NetLoop_scheme \<Rightarrow> 'z NetLoop_scheme option" where
  "handleRead closeCB tid io cid receiveTime w = do {
     assertInLoopThread tid w;
     c \<leftarrow> w_conns w cid;
     (n, savedErrno, inb) \<leftarrow> readFd (io_readv io) (c_inputBuffer c);
     let w = set_conn cid (c\<lparr>c_inputBuffer := inb\<rparr>) (kernel_gives cid (io_readv io (readFd_iov (c_inputBuffer c))) w);
     (if n > 0 then do { assert_that (c_messageCallback c); defaultMessageCallback tid io cid w }
      else if n = 0 then handleClose closeCB tid cid w
      else handleError cid w)
   }"

definition handleWrite :: "int \<Rightarrow> conn_io \<Rightarrow> nat \<Rightarrow> 'z NetLoop_scheme \<Rightarrow> 'z NetLoop_scheme option" where
  "handleWrite tid io cid w = do {
     assertInLoopThread tid w;
     c \<leftarrow> w_conns w cid;
     h \<leftarrow> p_objs (el_poller w) (c_channel c);
     if isWriting h then
       let outb = c_outputBuffer c;
           bytes = subrange (peek outb) (readableBytes outb) (buffer outb)
       in case io_write io bytes of
         Wrote n \<Rightarrow>
           if n > 0 then do {
             outb \<leftarrow> retrieve n outb;
             let w = set_conn cid (c\<lparr>c_outputBuffer := outb\<rparr>) (kernel_takes cid (take n bytes) w);
             (if readableBytes outb = 0
              then do {
                w \<leftarrow> set_interest tid DisableWriting (c_channel c) w;
                let w = (if c_writecompleteCB c then queueInLoop (WriteComplete cid) w else w);
                (if c_state c = kDisconnecting then shutdownInLoop tid cid w else Some w)
              }
              else Some w)
           }
           else Some w
       | WriteError e \<Rightarrow> Some w
     else Some w
   }"

text \<open>The callbacks the constructor installs in the channel.\<close>

definition conn_callbacks ::
    "(nat \<Rightarrow> 'z NetLoop_scheme \<Rightarrow> 'z NetLoop_scheme option) \<Rightarrow> int \<Rightarrow> conn_io \<Rightarrow> nat \<Rightarrow> 'z NetLoop_scheme callbacks" where
  "conn_callbacks closeCB tid io cid =
     \<lparr>cb_read = Some (handleRead closeCB tid io cid), cb_write = Some (handleWrite tid io cid),
      cb_close = Some (handleClose closeCB tid cid), cb_error = Some (handleError cid)\<rparr>"

end
