(* ===== verification/LoopPool.thy ===== *)
theory LoopPool
  imports Prelude "HOL-Library.Word"
begin

text \<open>
  \<^verbatim>\<open>EventLoopThreadPool.h\<close>, \<^verbatim>\<open>EventLoopThreadPool.cpp\<close> and \<^verbatim>\<open>base/Atomic.h\<close>. A loop is named by a
  value of type \<open>'l\<close>; \<open>inBase\<close> says whether the caller runs in the thread of the base loop. The loops that
  the new threads publish are an argument of \<open>Pool_start\<close>.
\<close>

section \<open>The pool\<close>

record 'l EventLoopThreadPool =
  baseLoop :: 'l
  pool_name :: string
  started :: bool
  numThreads :: int
  pool_next :: int
  threads :: "string list"
  loops :: "'l list"

definition new_Pool :: "'l \<Rightarrow> string \<Rightarrow> 'l EventLoopThreadPool" where
  "new_Pool base nameArg =
     \<lparr>baseLoop = base, pool_name = nameArg, started = False, numThreads = 0, pool_next = 0, threads = [], loops = []\<rparr>"

definition setThreadNum :: "int \<Rightarrow> 'l EventLoopThreadPool \<Rightarrow> 'l EventLoopThreadPool" where
  "setThreadNum n p = p\<lparr>numThreads := n\<rparr>"

text \<open>\<open>startLoop i\<close> is the loop that the \<open>i\<close>-th thread published.\<close>

definition start_thread :: "(nat \<Rightarrow> 'l) \<Rightarrow> nat \<Rightarrow> 'l EventLoopThreadPool \<Rightarrow> 'l EventLoopThreadPool option" where
  "start_thread startLoop i p =
     (let buf = snprintf (length (pool_name p) + 32) (pool_name p @ dec_int (int i))
      in Some (p\<lparr>threads := threads p @ [buf], loops := loops p @ [startLoop i]\<rparr>))"

definition Pool_start :: "bool \<Rightarrow> (nat \<Rightarrow> 'l) \<Rightarrow> 'l EventLoopThreadPool \<Rightarrow> 'l EventLoopThreadPool option" where
  "Pool_start inBase startLoop p = do {
     assert_that (\<not> started p);
     assert_that inBase;
     put_all (start_thread startLoop) [0..<nat (numThreads p)] (p\<lparr>started := True\<rparr>)
   }"

text \<open>An index outside \<^verbatim>\<open>loops_\<close> is undefined behaviour.\<close>

definition getNextLoop :: "bool \<Rightarrow> 'l EventLoopThreadPool \<Rightarrow> ('l \<times> 'l EventLoopThreadPool) option" where
  "getNextLoop inBase p = do {
     assert_that inBase;
     assert_that (started p);
     if loops p = [] then Some (baseLoop p, p)
     else do {
       assert_that (0 \<le> pool_next p \<and> pool_next p < int (length (loops p)));
       let l = loops p ! nat (pool_next p);
       let n = pool_next p + 1;
       Some (l, p\<lparr>pool_next := (if n \<ge> int (length (loops p)) then 0 else n)\<rparr>)
     }
   }"

definition getLoopForHash :: "bool \<Rightarrow> nat \<Rightarrow> 'l EventLoopThreadPool \<Rightarrow> 'l option" where
  "getLoopForHash inBase hashCode p = do {
     assert_that inBase;
     Some (if loops p = [] then baseLoop p else loops p ! (hashCode mod length (loops p)))
   }"

definition getAllLoops :: "bool \<Rightarrow> 'l EventLoopThreadPool \<Rightarrow> 'l list option" where
  "getAllLoops inBase p = do {
     assert_that inBase;
     assert_that (started p);
     Some (if loops p = [] then [baseLoop p] else loops p)
   }"

section \<open>Atomic integers\<close>

text \<open>\<^verbatim>\<open>AtomicIntegerT\<close>; each operation is one step, values wrap at their width.\<close>

type_synonym 'n atomic = "'n word"

definition atomic_get :: "'n::len atomic \<Rightarrow> 'n word" where
  "atomic_get v = v"

definition getAndAdd :: "'n word \<Rightarrow> 'n::len atomic \<Rightarrow> 'n word \<times> 'n atomic" where
  "getAndAdd x v = (v, v + x)"

definition addAndGet :: "'n word \<Rightarrow> 'n::len atomic \<Rightarrow> 'n word \<times> 'n atomic" where
  "addAndGet x v = (case getAndAdd x v of (old, v') \<Rightarrow> (old + x, v'))"

definition incrementAndGet :: "'n::len atomic \<Rightarrow> 'n word \<times> 'n atomic" where
  "incrementAndGet v = addAndGet 1 v"

definition decrementAndGet :: "'n::len atomic \<Rightarrow> 'n word \<times> 'n atomic" where
  "decrementAndGet v = addAndGet (- 1) v"

definition atomic_add :: "'n word \<Rightarrow> 'n::len atomic \<Rightarrow> 'n atomic" where
  "atomic_add x v = snd (getAndAdd x v)"

definition increment :: "'n::len atomic \<Rightarrow> 'n atomic" where
  "increment v = snd (incrementAndGet v)"

definition decrement :: "'n::len atomic \<Rightarrow> 'n atomic" where
  "decrement v = snd (decrementAndGet v)"

definition getAndSet :: "'n word \<Rightarrow> 'n::len atomic \<Rightarrow> 'n word \<times> 'n atomic" where
  "getAndSet newValue v = (v, newValue)"

section \<open>Round robin\<close>

definition pool_ok :: "'l EventLoopThreadPool \<Rightarrow> bool" where
  "pool_ok p \<longleftrightarrow> started p \<and> 0 \<le> pool_next p \<and> (loops p \<noteq> [] \<longrightarrow> pool_next p < int (length (loops p)))"

lemma start_threads:
  "put_all (start_thread startLoop) is p
   = Some (p\<lparr>threads := threads p @ map (\<lambda>i. snprintf (length (pool_name p) + 32) (pool_name p @ dec_int (int i))) is,
             loops := loops p @ map startLoop is\<rparr>)"
  by (induction "is" arbitrary: p) (simp_all add: start_thread_def Let_def)

fun next_loops :: "nat \<Rightarrow> 'l EventLoopThreadPool \<Rightarrow> ('l list \<times> 'l EventLoopThreadPool) option" where
  "next_loops 0 p = Some ([], p)"
| "next_loops (Suc k) p = do { (l, p) \<leftarrow> getNextLoop True p; (ls, p) \<leftarrow> next_loops k p; Some (l # ls, p) }"

lemma getNextLoop_ok:
  assumes "pool_ok p"
  shows "getNextLoop True p = Some (if loops p = [] then (baseLoop p, p)
      else (loops p ! nat (pool_next p), p\<lparr>pool_next := (pool_next p + 1) mod int (length (loops p))\<rparr>))"
proof -
  have wrap: "(if n \<ge> k then 0 else n) = n mod k" if "0 \<le> n" "n \<le> k" "0 < k" for n k :: int
    using that by auto
  show ?thesis
  proof (cases "loops p = []")
    case False
    with assms have "0 \<le> pool_next p + 1" "pool_next p + 1 \<le> int (length (loops p))" "0 < int (length (loops p))"
      by (auto simp: pool_ok_def)
    from wrap [OF this] False assms show ?thesis
      by (simp only: getNextLoop_def pool_ok_def Let_def assert_that_bind) simp
  qed (use assms in \<open>simp add: getNextLoop_def pool_ok_def\<close>)
qed

lemma next_loops_ok:
  assumes "pool_ok p" and "loops p \<noteq> []"
  shows "\<exists>p'. next_loops k p = Some (map (\<lambda>i. loops p ! ((nat (pool_next p) + i) mod length (loops p))) [0..<k], p')
           \<and> pool_ok p' \<and> loops p' = loops p"
  using assms
proof (induction k arbitrary: p)
  case (Suc k)
  let ?n = "length (loops p)"
  let ?q = "p\<lparr>pool_next := (pool_next p + 1) mod int ?n\<rparr>"
  have n: "0 < ?n" using Suc.prems(2) by simp
  have step: "getNextLoop True p = Some (loops p ! nat (pool_next p), ?q)"
    using getNextLoop_ok [OF Suc.prems(1)] Suc.prems(2) by simp
  have q: "pool_ok ?q" "loops ?q = loops p" "loops ?q \<noteq> []"
    using Suc.prems n by (simp_all add: pool_ok_def)
  have idx: "nat (pool_next ?q) = (nat (pool_next p) + 1) mod ?n"
    using Suc.prems(1) n by (simp add: pool_ok_def nat_mod_distrib nat_add_distrib)
  have first: "nat (pool_next p) mod ?n = nat (pool_next p)"
    using Suc.prems by (simp add: pool_ok_def nat_less_iff)
  have shift: "((nat (pool_next p) + 1) mod ?n + i) mod ?n = (nat (pool_next p) + Suc i) mod ?n" for i
    by (simp add: mod_simps)
  from Suc.IH [OF q(1,3)] obtain p' where p': "next_loops k ?q = Some (map (\<lambda>i. loops p ! ((nat (pool_next p) + Suc i) mod ?n)) [0..<k], p')"
      "pool_ok p'" "loops p' = loops p" unfolding idx q(2) shift by blast
  have "map (\<lambda>i. loops p ! ((nat (pool_next p) + i) mod ?n)) [0..<Suc k]
      = loops p ! nat (pool_next p) # map (\<lambda>i. loops p ! ((nat (pool_next p) + Suc i) mod ?n)) [0..<k]"
    by (simp only: map_upt_Suc add_0_right first)
  with step p' show ?case by simp
qed simp

text \<open>A pool started with \<open>n > 0\<close> threads hands out the loops of its threads in turn: \<open>k\<close> calls of
  \<^verbatim>\<open>getNextLoop\<close> return loops 0, 1, ..., n-1, 0, 1, ...; none ever indexes outside \<^verbatim>\<open>loops_\<close>, and without
  threads every call returns the base loop.\<close>

theorem pool_round_robin:
  assumes "Pool_start True startLoop (setThreadNum n (new_Pool base nm)) = Some p"
  shows "(0 < n \<longrightarrow> (\<exists>p'. next_loops k p = Some (map (\<lambda>i. startLoop (i mod nat n)) [0..<k], p')))
       \<and> (n \<le> 0 \<longrightarrow> next_loops k p = Some (replicate k base, p))"
proof -
  from assms have p: "loops p = map startLoop [0..<nat n]" "started p" "pool_next p = 0" "baseLoop p = base"
    by (auto simp: Pool_start_def new_Pool_def setThreadNum_def start_threads)
  have "\<exists>p'. next_loops k p = Some (map (\<lambda>i. startLoop (i mod nat n)) [0..<k], p')" if "0 < n"
    using next_loops_ok [of p k] p that by (auto simp: pool_ok_def)
  moreover have "next_loops k p = Some (replicate k base, p)" if "n \<le> 0"
  proof -
    from p that have "getNextLoop True p = Some (base, p)" by (simp add: getNextLoop_def)
    then show ?thesis by (induction k) simp_all
  qed
  ultimately show ?thesis by blast
qed

theorem pool_round_robin_witness:
  "\<exists>p p'. Pool_start True (\<lambda>i. i + 10) (setThreadNum 2 (new_Pool (0::nat) ''srv'')) = Some p
     \<and> next_loops 5 p = Some ([10, 11, 10, 11, 10], p')"
proof -
  have "\<exists>p. Pool_start True (\<lambda>i. i + 10) (setThreadNum 2 (new_Pool (0::nat) ''srv'')) = Some p"
    by (simp add: Pool_start_def new_Pool_def setThreadNum_def start_threads)
  then obtain p where p: "Pool_start True (\<lambda>i. i + 10) (setThreadNum 2 (new_Pool (0::nat) ''srv'')) = Some p" ..
  from pool_round_robin [OF this, of 5] obtain p' where
    "next_loops 5 p = Some (map (\<lambda>i. i mod nat 2 + 10) [0..<5], p')" by auto
  moreover have "map (\<lambda>i. i mod nat 2 + 10) [0..<5] = [10, 11, 10, 11, 10 :: nat]" by code_simp
  ultimately have "next_loops 5 p = Some ([10, 11, 10, 11, 10], p')" by (simp only:)
  with p show ?thesis by blast
qed

end
