(* ===== verification/TcpServer.thy ===== *)
theory TcpServer
  imports TcpConnection LoopPool
begin

text \<open>
  \<^verbatim>\<open>TcpServer.h\<close>, \<^verbatim>\<open>TcpServer.cpp\<close>, \<^verbatim>\<open>Acceptor.h\<close>, \<^verbatim>\<open>Acceptor.cpp\<close>, \<^verbatim>\<open>main.cpp\<close> and the accept
  wrapper of \<^verbatim>\<open>SocketsOps.cpp\<close>: the server of \<^verbatim>\<open>main.cpp\<close>, one loop without worker threads and with
  the default callbacks, which echo what they receive. Connection objects are named by their
  connection number, the acceptor's channel is number 0. An object is destroyed when neither the
  server's map nor a queued functor refers to it.
\<close>

section \<open>State\<close>

record Server = NetLoop +
  s_name :: string
  s_ipPort :: string
  s_started :: "32 word"
  s_nextConnId :: int
  s_connections :: "string \<rightharpoonup> nat"
  s_threadPool :: "nat EventLoopThreadPool"
  a_fd :: int
  a_listenning :: bool
  a_newConnectionCB :: bool

definition acceptChannel :: nat where
  "acceptChannel = 0"

section \<open>Accepting\<close>

text \<open>The result of \<^verbatim>\<open>accept4\<close>: a descriptor, or an \<^verbatim>\<open>errno\<close>.\<close>

datatype accept_result = Accepted int | AcceptError int

definition EAGAIN :: int where "EAGAIN = 11"

definition ECONNABORTED :: int where "ECONNABORTED = 103"

definition EINTR :: int where "EINTR = 4"

definition EPROTO :: int where "EPROTO = 71"

definition EPERM :: int where "EPERM = 1"

definition EMFILE :: int where "EMFILE = 24"

definition expected_accept_errors :: "int set" where
  "expected_accept_errors = {EAGAIN, ECONNABORTED, EINTR, EPROTO, EPERM, EMFILE}"

text \<open>\<^verbatim>\<open>sockets::accept\<close>: the descriptor, \<open>-1\<close> after an expected error, or the abort of \<^verbatim>\<open>LOG_FATAL\<close>.\<close>

definition sockets_accept :: "accept_result \<Rightarrow> int option" where
  "sockets_accept r = (case r of
       Accepted connfd \<Rightarrow> Some connfd
     | AcceptError savedErrno \<Rightarrow> if savedErrno \<in> expected_accept_errors then Some (-1) else None)"

text \<open>What the kernel does during one round of the loop.\<close>

record server_io =
  sio_conn :: "nat \<Rightarrow> conn_io"
  sio_accept :: accept_result

section \<open>The server\<close>

text \<open>The name of connection number \<open>connId\<close>.\<close>

definition conn_name :: "string \<Rightarrow> string \<Rightarrow> int \<Rightarrow> string" where
  "conn_name nm ipPort connId = nm @ snprintf 64 (''-'' @ ipPort @ ''#'' @ dec_int connId)"

text \<open>\<^verbatim>\<open>getNextLoop\<close> of a pool without threads is the base loop, the only one modelled here.\<close>

definition newConnection :: "int \<Rightarrow> int \<Rightarrow> Server \<Rightarrow> Server option" where
  "newConnection tid sockfd w = do {
     assertInLoopThread tid w;
     (ioLoop, pool) \<leftarrow> getNextLoop (isInLoopThread tid w) (s_threadPool w);
     assert_that (ioLoop = el_id w);
     let w = w\<lparr>s_threadPool := pool\<rparr>;
     let connId = s_nextConnId w;
     let connName = conn_name (s_name w) (s_ipPort w) connId;
     let w = w\<lparr>s_nextConnId := connId + 1\<rparr>;
     let cid = nat connId;
     w \<leftarrow> new_TcpConnection cid connName sockfd w;
     let w = w\<lparr>s_connections := (s_connections w)(connName \<mapsto> cid)\<rparr>;
     w \<leftarrow> set_callbacks cid w;
     (if isInLoopThread tid w then connectEstablished tid cid w else Some (queueInLoop (ConnectEstablished cid) w))
   }"

definition removeConnectionInLoop :: "int \<Rightarrow> nat \<Rightarrow> Server \<Rightarrow> Server option" where
  "removeConnectionInLoop tid cid w = do {
     assertInLoopThread tid w;
     c \<leftarrow> w_conns w cid;
     assert_that (s_connections w (c_name c) \<noteq> None);
     let w = w\<lparr>s_connections := (s_connections w)(c_name c := None)\<rparr>;
     Some (queueInLoop (ConnectDestroyed cid) w)
   }"

definition removeConnection :: "int \<Rightarrow> nat \<Rightarrow> Server \<Rightarrow> Server option" where
  "removeConnection tid cid w =
     (if isInLoopThread tid w then removeConnectionInLoop tid cid w
      else Some (queueInLoop (RemoveConnectionInLoop cid) w))"

text \<open>\<^verbatim>\<open>listened\<close> is what \<^verbatim>\<open>listen(2)\<close> returned; \<^verbatim>\<open>listenOrDie\<close> aborts on an error.\<close>

definition Acceptor_listen :: "int \<Rightarrow> int \<Rightarrow> Server \<Rightarrow> Server option" where
  "Acceptor_listen listened tid w = do {
     assertInLoopThread tid w;
     let w = w\<lparr>a_listenning := True\<rparr>;
     assert_that (0 \<le> listened);
     set_interest tid EnableReading acceptChannel w
   }"

definition Acceptor_handleRead :: "int \<Rightarrow> accept_result \<Rightarrow> Server \<Rightarrow> Server option" where
  "Acceptor_handleRead tid accepted w = do {
     assertInLoopThread tid w;
     connfd \<leftarrow> sockets_accept accepted;
     (if connfd \<ge> 0
      then (if a_newConnectionCB w then newConnection tid connfd w else Some w)
      else Some w)
   }"

text \<open>The functors, run by the loop.\<close>

fun run_functor :: "int \<Rightarrow> server_io \<Rightarrow> Functor \<Rightarrow> Server \<Rightarrow> Server option" where
  "run_functor tid io (ConnectEstablished cid) w = connectEstablished tid cid w"
| "run_functor tid io (ConnectDestroyed cid) w = connectDestroyed tid cid w"
| "run_functor tid io (WriteComplete cid) w = defaultWriteCompleteCallback cid w"
| "run_functor tid io (SendInLoop cid msg) w = sendInLoop tid (sio_conn io cid) cid msg w"
| "run_functor tid io (ShutdownInLoop cid) w = shutdownInLoop tid cid w"
| "run_functor tid io (RemoveConnectionInLoop cid) w = removeConnectionInLoop tid cid w"
| "run_functor tid io AcceptorListen w = Acceptor_listen 0 tid w"

definition start :: "int \<Rightarrow> int \<Rightarrow> Server \<Rightarrow> Server option" where
  "start listened tid w =
     (case getAndSet 1 (s_started w) of (old, v) \<Rightarrow>
        let w = w\<lparr>s_started := v\<rparr> in
        if old = 0 then do {
          pool \<leftarrow> Pool_start (isInLoopThread tid w) (\<lambda>i. i) (s_threadPool w);
          let w = w\<lparr>s_threadPool := pool\<rparr>;
          assert_that (\<not> a_listenning w);
          (if isInLoopThread tid w then Acceptor_listen listened tid w else Some (queueInLoop AcceptorListen w))
        }
        else Some w)"

text \<open>The constructor of the server with its acceptor: \<open>sockfd\<close> and \<open>bound\<close> are what \<^verbatim>\<open>socket\<close> and \<^verbatim>\<open>bind\<close> returned.\<close>

definition new_TcpServer :: "Functor EventLoop \<Rightarrow> string \<Rightarrow> string \<Rightarrow> int \<Rightarrow> int \<Rightarrow> Server option" where
  "new_TcpServer l ipPort nameArg sockfd bound = do {
     assert_that (0 \<le> sockfd);
     assert_that (0 \<le> bound);
     alloc_Channel acceptChannel sockfd
       \<lparr>el_id = el_id l, el_looping = el_looping l, el_quit = el_quit l, el_eventHandling = el_eventHandling l,
        el_callingPendingFunctors = el_callingPendingFunctors l, el_threadId = el_threadId l,
        el_pollReturnTime = el_pollReturnTime l, el_poller = el_poller l, el_activeChannels = el_activeChannels l,
        el_currentActiveChannel = el_currentActiveChannel l, el_pendingFunctors = el_pendingFunctors l,
        w_conns = Map.empty, w_rcvd = (\<lambda>_. []), w_sent = (\<lambda>_. []), w_shut = (\<lambda>_. False),
        s_name = nameArg, s_ipPort = ipPort, s_started = 0, s_nextConnId = 1, s_connections = Map.empty,
        s_threadPool = new_Pool (el_id l) nameArg, a_fd = sockfd, a_listenning = False, a_newConnectionCB = True\<rparr>
   }"

text \<open>The destructor; \<open>cids\<close> are the connections in the order of the map. Each is destroyed once the functor
  has run, when the last pointer goes away. After the body the members go: with \<^verbatim>\<open>_acceptor\<close> its \<^verbatim>\<open>_acceptChannel\<close>.\<close>

definition delete_TcpServer :: "int \<Rightarrow> nat list \<Rightarrow> Server \<Rightarrow> Server option" where
  "delete_TcpServer tid cids w = do {
     assertInLoopThread tid w;
     w \<leftarrow> put_all (\<lambda>cid w. do {
       w \<leftarrow> (if isInLoopThread tid w then connectDestroyed tid cid w else Some (queueInLoop (ConnectDestroyed cid) w));
       delete_TcpConnection tid cid w }) cids w;
     delete_Channel tid acceptChannel w
   }"

section \<open>The program\<close>

definition server_alive :: "nat \<Rightarrow> Server \<Rightarrow> bool" where
  "server_alive cid w \<longleftrightarrow> w_conns w cid \<noteq> None"

definition server_callbacks :: "int \<Rightarrow> server_io \<Rightarrow> nat \<Rightarrow> Server callbacks" where
  "server_callbacks tid io ch =
     (if ch = acceptChannel
      then \<lparr>cb_read = Some (\<lambda>_. Acceptor_handleRead tid (sio_accept io)), cb_write = None, cb_close = None, cb_error = None\<rparr>
      else conn_callbacks (removeConnection tid) tid (sio_conn io ch) ch)"

fun functor_conn :: "Functor \<Rightarrow> nat option" where
  "functor_conn (ConnectEstablished cid) = Some cid"
| "functor_conn (ConnectDestroyed cid) = Some cid"
| "functor_conn (WriteComplete cid) = Some cid"
| "functor_conn (SendInLoop cid _) = None"
| "functor_conn (ShutdownInLoop cid) = None"
| "functor_conn (RemoveConnectionInLoop cid) = Some cid"
| "functor_conn AcceptorListen = None"

text \<open>The shared pointers to a connection: the server's map and the bound arguments of queued functors
  (\<^verbatim>\<open>sendInLoop\<close> and \<^verbatim>\<open>shutdownInLoop\<close> are bound to a raw \<^verbatim>\<open>this\<close>).\<close>

definition referenced :: "nat \<Rightarrow> TcpConnection \<Rightarrow> Server \<Rightarrow> bool" where
  "referenced cid c w \<longleftrightarrow> s_connections w (c_name c) = Some cid
     \<or> (\<exists>f \<in> set (el_pendingFunctors w). functor_conn f = Some cid)"

definition release :: "int \<Rightarrow> nat \<Rightarrow> Server \<Rightarrow> Server option" where
  "release tid cid w = (case w_conns w cid of
       Some c \<Rightarrow> if referenced cid c w then Some w else delete_TcpConnection tid cid w
     | None \<Rightarrow> Some w)"

text \<open>One round of the loop, after which the connections without owner are gone.\<close>

definition server_round :: "int \<Rightarrow> server_io \<Rightarrow> (32 word \<times> nat) list option \<Rightarrow> Timestamp \<Rightarrow> Server \<Rightarrow> Server option" where
  "server_round tid io waited t w = do {
     w \<leftarrow> loop_body server_alive (server_callbacks tid io) (run_functor tid io) waited t w;
     put_all (release tid) [1..<nat (s_nextConnId w)] w
   }"

text \<open>\<^verbatim>\<open>main\<close> up to the loop.\<close>

definition main_init :: "int \<Rightarrow> string \<Rightarrow> int \<Rightarrow> int \<Rightarrow> Server option" where
  "main_init tid ipPort epollfd sockfd = do {
     (l, _) \<leftarrow> new_EventLoop 0 tid None epollfd;
     w \<leftarrow> new_TcpServer l ipPort ''TcpServer'' sockfd 0;
     start 0 tid w
   }"

end
