(* ===== verification/EchoServer.thy ===== *)
theory EchoServer
  imports TcpServer "HOL-Library.Sublist"
begin

text \<open>
  The server of \<^verbatim>\<open>main.cpp\<close> as a whole: an invariant of its state, that every round of the loop keeps it and
  does not abort, and that every connection echoes the bytes it received, in order.
\<close>

section \<open>Growth of a buffer\<close>

lemma makeSpace_growth:
  assumes "buf_ok b" and "room b n" and "makeSpace n b = Some b'"
  shows "length (buffer b') \<le> length (buffer b) + n"
proof -
  have "szwrap (writerIndex b + n) = writerIndex b + n"
    using assms(1,2) by (auto simp: buf_ok_def room_def vec_max_def size_max_def)
  with assms show ?thesis
    by (auto simp: makeSpace_def vec_resize_def buf_ok_def Let_def bind_eq_Some_conv readableBytes_def split: if_splits)
qed

lemma Buffer_append_growth:
  assumes "buf_ok b" and "room b (length xs)" and "Buffer_append xs b = Some b'"
  shows "length (buffer b') \<le> length (buffer b) + length xs"
proof -
  from assms(3) obtain c where c: "ensureWritableBytes (length xs) b = Some c"
      "b' = c\<lparr>buffer := blit (writerIndex c) xs (buffer c), writerIndex := writerIndex c + length xs\<rparr>"
    by (auto simp: Buffer_append_def hasWritten_def beginWrite_def bind_eq_Some_conv split: if_splits)
  from ensureWritableBytes_ok [OF assms(1,2)] c(1) have ok: "buf_ok c" "length xs \<le> writableBytes c" by auto
  from c(1) have "c = b \<or> makeSpace (length xs) b = Some c"
    by (auto simp: ensureWritableBytes_def bind_eq_Some_conv split: if_splits)
  with makeSpace_growth [OF assms(1,2)] have "length (buffer c) \<le> length (buffer b) + length xs" by auto
  moreover have "length (blit (writerIndex c) xs (buffer c)) = length (buffer c)"
    using ok by (auto simp: buf_ok_def writableBytes_def)
  ultimately show ?thesis using c(2) by simp
qed

lemma retrieve_growth: "retrieve n b = Some b' \<Longrightarrow> buffer b' = buffer b"
  by (auto simp: retrieve_def retrieveAll_def split: if_splits)

lemma readFd_ok:
  assumes "buf_ok b" and "length (buffer b) + extrabuf_size \<le> vec_max"
    and data: "readv (readFd_iov b) = ReadvData data" "length data \<le> sum_list (readFd_iov b)"
  shows "\<exists>b'. readFd readv b = Some (int (length data), None, b') \<and> buf_ok b' \<and> content b' = content b @ data
           \<and> length (buffer b') \<le> length (buffer b) + length data"
proof -
  let ?w = "writableBytes b"
  have full: "writerIndex b + ?w = length (buffer b)"
    using assms(1) by (simp add: buf_ok_def writableBytes_def)
  show ?thesis
  proof (cases "length data \<le> ?w")
    case True
    with append_in_place [OF assms(1) True] data full show ?thesis
      by (simp add: readFd_def Let_def)
  next
    case False
    then have len: "length (take ?w data) = ?w" by simp
    define c where "c = b\<lparr>buffer := blit (writerIndex b) (take ?w data) (buffer b), writerIndex := length (buffer b)\<rparr>"
    from append_in_place [OF assms(1), of "take ?w data"] len full
    have c: "buf_ok c" "content c = content b @ take ?w data" "writerIndex c = length (buffer b)"
        "length (buffer c) = length (buffer b)"
      by (simp_all add: c_def)
    have "length data \<le> ?w + extrabuf_size"
      using data(2) by (auto simp: readFd_iov_def Let_def split: if_splits)
    with assms(1,2) c(3) have room: "room c (length (drop ?w data))"
      by (auto simp: room_def buf_ok_def)
    from Buffer_append_ok [OF c(1) this] c(2) obtain b' where
        b': "Buffer_append (drop ?w data) c = Some b'" "buf_ok b'" "content b' = content b @ data"
      by auto
    from Buffer_append_growth [OF c(1) room b'(1)] c(4) have "length (buffer b') \<le> length (buffer b) + length data"
      by simp
    moreover have "length (blit (writerIndex b) (take ?w data) (buffer b)) = length (buffer b)"
      using len full by simp
    ultimately show ?thesis
      using False data b' by (simp add: readFd_def Let_def c_def)
  qed
qed

section \<open>The invariant\<close>

definition max_bytes :: nat where
  "max_bytes = 2 ^ 62"

text \<open>A connection \<open>c\<close> with its channel \<open>h\<close>, the bytes \<open>snt\<close> that went out and \<open>rcv\<close> that came in. While it is
  connected, what went out followed by what is still buffered is what came in, and the channel waits for
  writability exactly when something is buffered. \<open>D\<close> are the connections that are closed but not yet
  removed from the poller.\<close>

definition conn_ok :: "nat set \<Rightarrow> nat \<Rightarrow> TcpConnection \<Rightarrow> Channel \<Rightarrow> string \<Rightarrow> string \<Rightarrow> bool" where
  "conn_ok D cid c h snt rcv \<longleftrightarrow>
     c_channel c = cid \<and> buf_ok (c_inputBuffer c) \<and> content (c_inputBuffer c) = [] \<and> buf_ok (c_outputBuffer c)
     \<and> length (buffer (c_inputBuffer c)) \<le> 2000 + length rcv \<and> length (buffer (c_outputBuffer c)) \<le> 2000 + length rcv
     \<and> length rcv \<le> max_bytes
     \<and> c_connectionCallback c \<and> c_messageCallback c \<and> c_closeCallback c \<and> c_writecompleteCB c
     \<and> ch_fd h = c_fd c \<and> ch_tied h \<and> ch_tie h = Some cid
     \<and> (if c_state c = kConnected
        then ch_index h = kAdded \<and> ch_addedToLoop h \<and> isReading h \<and> (isWriting h \<longleftrightarrow> content (c_outputBuffer c) \<noteq> [])
             \<and> snt @ content (c_outputBuffer c) = rcv \<and> cid \<notin> D
        else c_state c = kDisconnected \<and> isNoneEvent h \<and> prefix snt rcv
             \<and> (if cid \<in> D then ch_index h = kDeleted \<and> ch_addedToLoop h else ch_index h = kNew \<and> \<not> ch_addedToLoop h))"

text \<open>\<open>cur\<close> is the channel whose events are being handled.\<close>

definition srv_inv :: "int \<Rightarrow> nat set \<Rightarrow> nat option \<Rightarrow> Server \<Rightarrow> bool" where
  "srv_inv tid D cur w \<longleftrightarrow>
     poll_inv (el_poller w) \<and> el_threadId w = tid
     \<and> (\<forall>cid c. w_conns w cid = Some c \<longrightarrow>
          0 < cid \<and> int cid < s_nextConnId w \<and> c_name c = conn_name (s_name w) (s_ipPort w) (int cid)
          \<and> (\<exists>h. p_objs (el_poller w) cid = Some h \<and> conn_ok D cid c h (w_sent w cid) (w_rcvd w cid)))
     \<and> (\<forall>ch h. p_objs (el_poller w) ch = Some h \<longrightarrow>
          (ch = acceptChannel \<or> w_conns w ch \<noteq> None) \<and> ch_loop h = el_id w \<and> (ch_eventHandling h \<longleftrightarrow> cur = Some ch))
     \<and> (\<exists>h. p_objs (el_poller w) acceptChannel = Some h \<and> ch_fd h = a_fd w \<and> ch_index h = kAdded \<and> \<not> ch_tied h \<and> ch_addedToLoop h)
     \<and> (\<forall>nm cid. s_connections w nm = Some cid \<longleftrightarrow>
          (\<exists>c. w_conns w cid = Some c \<and> c_name c = nm \<and> c_state c = kConnected))
     \<and> D \<subseteq> dom (w_conns w) \<and> length (s_ipPort w) \<le> 40 \<and> 1 \<le> s_nextConnId w \<and> s_nextConnId w < 2 ^ 31
     \<and> a_newConnectionCB w \<and> started (s_threadPool w) \<and> loops (s_threadPool w) = [] \<and> baseLoop (s_threadPool w) = el_id w"

text \<open>The fields that handling a connection does not change.\<close>

definition static :: "Server \<Rightarrow> Server \<Rightarrow> bool" where
  "static w w' \<longleftrightarrow> el_id w' = el_id w \<and> el_threadId w' = el_threadId w \<and> s_nextConnId w' = s_nextConnId w
     \<and> s_name w' = s_name w \<and> s_ipPort w' = s_ipPort w \<and> a_fd w' = a_fd w \<and> a_newConnectionCB w' = a_newConnectionCB w
     \<and> s_threadPool w' = s_threadPool w"

lemma conn_name_inj:
  assumes "length ip \<le> 40" and "int a < 2 ^ 31" and "int b < 2 ^ 31"
  shows "conn_name nm ip (int a) = conn_name nm ip (int b) \<longleftrightarrow> a = b"
proof -
  have "length (dec_nat k) \<le> 10" if "int k < 2 ^ 31" for k
  proof -
    from that have "k < 10 ^ Suc 9" by simp
    then show ?thesis using length_dec_nat by fastforce
  qed
  then have "length (dec_nat a) \<le> 10" "length (dec_nat b) \<le> 10" using assms(2,3) by blast+
  with assms(1) have "take 63 (''-'' @ ip @ ''#'' @ dec_nat a) = ''-'' @ ip @ ''#'' @ dec_nat a"
      "take 63 (''-'' @ ip @ ''#'' @ dec_nat b) = ''-'' @ ip @ ''#'' @ dec_nat b" by (intro take_all; simp)+
  then show ?thesis by (simp add: conn_name_def snprintf_def dec_int_def)
qed

text \<open>The part of the invariant that concerns neither connections nor channels.\<close>

definition srv_fixed :: "int \<Rightarrow> Server \<Rightarrow> bool" where
  "srv_fixed tid w \<longleftrightarrow> el_threadId w = tid \<and> length (s_ipPort w) \<le> 40 \<and> 1 \<le> s_nextConnId w \<and> s_nextConnId w < 2 ^ 31
     \<and> a_newConnectionCB w \<and> started (s_threadPool w) \<and> loops (s_threadPool w) = [] \<and> baseLoop (s_threadPool w) = el_id w"

lemma srv_inv_fixed: "srv_inv tid D cur w \<Longrightarrow> srv_fixed tid w"
  by (simp add: srv_inv_def srv_fixed_def)

lemma srv_invI:
  assumes "poll_inv (el_poller w)" and "srv_fixed tid w"
    and "\<And>cid c. w_conns w cid = Some c \<Longrightarrow>
          0 < cid \<and> int cid < s_nextConnId w \<and> c_name c = conn_name (s_name w) (s_ipPort w) (int cid)
          \<and> (\<exists>h. p_objs (el_poller w) cid = Some h \<and> conn_ok D cid c h (w_sent w cid) (w_rcvd w cid))"
    and "\<And>ch h. p_objs (el_poller w) ch = Some h \<Longrightarrow>
          (ch = acceptChannel \<or> w_conns w ch \<noteq> None) \<and> ch_loop h = el_id w \<and> (ch_eventHandling h \<longleftrightarrow> cur = Some ch)"
    and "\<exists>h. p_objs (el_poller w) acceptChannel = Some h \<and> ch_fd h = a_fd w \<and> ch_index h = kAdded \<and> \<not> ch_tied h \<and> ch_addedToLoop h"
    and "\<And>nm cid. s_connections w nm = Some cid \<longleftrightarrow>
          (\<exists>c. w_conns w cid = Some c \<and> c_name c = nm \<and> c_state c = kConnected)"
    and "D \<subseteq> dom (w_conns w)"
  shows "srv_inv tid D cur w"
  unfolding srv_inv_def using assms(2) [unfolded srv_fixed_def] assms(1,3-) by (intro conjI allI impI; blast)

lemma srv_inv_conn:
  assumes "srv_inv tid D cur w" and "w_conns w cid = Some c"
  obtains h where "p_objs (el_poller w) cid = Some h" "conn_ok D cid c h (w_sent w cid) (w_rcvd w cid)" "0 < cid"
    "ch_loop h = el_id w" "int cid < s_nextConnId w" "c_name c = conn_name (s_name w) (s_ipPort w) (int cid)"
  using assms unfolding srv_inv_def by metis

lemma srv_inv_names:
  assumes "srv_inv tid D cur w" and "w_conns w a = Some ca" and "w_conns w b = Some cb" and "c_name ca = c_name cb"
  shows "a = b"
proof -
  from assms have "int a < 2 ^ 31" "int b < 2 ^ 31" "length (s_ipPort w) \<le> 40"
    "conn_name (s_name w) (s_ipPort w) (int a) = conn_name (s_name w) (s_ipPort w) (int b)"
    unfolding srv_inv_def by (metis order.strict_trans)+
  with conn_name_inj show ?thesis by blast
qed

lemma conn_ok_D: "D' - {cid} = D - {cid} \<Longrightarrow> x \<noteq> cid \<Longrightarrow> conn_ok D' x c h s r = conn_ok D x c h s r"
proof -
  assume "D' - {cid} = D - {cid}" "x \<noteq> cid"
  then have "x \<in> D' \<longleftrightarrow> x \<in> D" by blast
  then show ?thesis by (simp add: conn_ok_def)
qed

text \<open>A step that changes one connection, its channel and what passed its socket.\<close>

lemma srv_inv_upd:
  assumes inv: "srv_inv tid D cur w" and c: "w_conns w cid = Some c" and h: "p_objs (el_poller w) cid = Some h"
    and P: "poll_inv (el_poller w')" "p_objs (el_poller w') = (p_objs (el_poller w))(cid \<mapsto> h')"
    and h': "ch_loop h' = ch_loop h" "ch_eventHandling h' = ch_eventHandling h"
    and c': "w_conns w' = (w_conns w)(cid \<mapsto> c')" "c_name c' = c_name c"
    and ok: "conn_ok D' cid c' h' (w_sent w' cid) (w_rcvd w' cid)"
    and io: "\<And>x. x \<noteq> cid \<Longrightarrow> w_sent w' x = w_sent w x" "\<And>x. x \<noteq> cid \<Longrightarrow> w_rcvd w' x = w_rcvd w x"
    and D: "D' - {cid} = D - {cid}" and st: "static w w'"
    and sc: "s_connections w' = (if c_state c' = kConnected then s_connections w else (s_connections w)(c_name c := None))"
    and still: "c_state c' = kConnected \<Longrightarrow> c_state c = kConnected"
  shows "srv_inv tid D' cur w'"
proof -
  note st' = st [unfolded static_def]
  note i = inv [unfolded srv_inv_def]
  have cid: "cid \<noteq> acceptChannel" using srv_inv_conn [OF inv c] by (auto simp: acceptChannel_def)
  have 1: "0 < x \<and> int x < s_nextConnId w' \<and> c_name cx = conn_name (s_name w') (s_ipPort w') (int x)
      \<and> (\<exists>hx. p_objs (el_poller w') x = Some hx \<and> conn_ok D' x cx hx (w_sent w' x) (w_rcvd w' x))"
    if "w_conns w' x = Some cx" for x cx
  proof (cases "x = cid")
    case True
    with that c' have "cx = c'" by simp
    with True ok P(2) c'(2) st' srv_inv_conn [OF inv c] show ?thesis by auto
  next
    case False
    with that c' have cx: "w_conns w x = Some cx" by simp
    obtain hx where "p_objs (el_poller w) x = Some hx" "conn_ok D x cx hx (w_sent w x) (w_rcvd w x)" "0 < x"
        "int x < s_nextConnId w" "c_name cx = conn_name (s_name w) (s_ipPort w) (int x)"
      by (rule srv_inv_conn [OF inv cx])
    with False P(2) io st' conn_ok_D [OF D False] show ?thesis by auto
  qed
  have 2: "s_connections w' nm = Some x \<longleftrightarrow> (\<exists>cx. w_conns w' x = Some cx \<and> c_name cx = nm \<and> c_state cx = kConnected)" for nm x
  proof (cases "c_state c' = kConnected")
    case True
    with still have "c_state c = kConnected" by simp
    with True i c c' sc show ?thesis by auto
  next
    case False
    have old: "s_connections w nm = Some x \<longleftrightarrow> (\<exists>c. w_conns w x = Some c \<and> c_name c = nm \<and> c_state c = kConnected)"
      using i by blast
    have "w_conns w x = Some cx \<Longrightarrow> x \<noteq> cid \<Longrightarrow> c_name cx \<noteq> c_name c" for cx
      using srv_inv_names [OF inv _ c] by blast
    with old False c c' sc show ?thesis by auto
  qed
  have 3: "(ch = acceptChannel \<or> w_conns w' ch \<noteq> None) \<and> ch_loop hx = el_id w' \<and> (ch_eventHandling hx \<longleftrightarrow> cur = Some ch)"
    if "p_objs (el_poller w') ch = Some hx" for ch hx
    using that i h P(2) h' c' st' by (auto split: if_splits)
  have 4: "\<exists>h. p_objs (el_poller w') acceptChannel = Some h \<and> ch_fd h = a_fd w' \<and> ch_index h = kAdded \<and> \<not> ch_tied h \<and> ch_addedToLoop h"
    using i cid P(2) st' by auto
  have 5: "D' \<subseteq> dom (w_conns w')"
  proof
    fix x assume "x \<in> D'"
    then have "x = cid \<or> x \<in> D" using D by blast
    then show "x \<in> dom (w_conns w')" using i c' by auto
  qed
  have "srv_fixed tid w'" using srv_inv_fixed [OF inv] st' by (simp add: srv_fixed_def)
  then show ?thesis by (rule srv_invI [OF P(1)]) (rule 1 3 4 2 5, assumption?)+
qed

section \<open>Handling the events of one connection\<close>

lemma has_zero: "\<not> has 0 m"
  by (simp add: has_def)

lemma with_interest_sel [simp]:
  "ch_fd (with_interest i h) = ch_fd h" "ch_loop (with_interest i h) = ch_loop h" "ch_index (with_interest i h) = ch_index h"
  "ch_revents (with_interest i h) = ch_revents h" "ch_tied (with_interest i h) = ch_tied h"
  "ch_tie (with_interest i h) = ch_tie h" "ch_eventHandling (with_interest i h) = ch_eventHandling h"
  "ch_addedToLoop (with_interest i h)" "ch_events (with_interest i h) = apply_interest i (ch_events h)"
  by (simp_all add: with_interest_def)

lemma set_index_sel [simp]:
  "ch_fd (set_index n h) = ch_fd h" "ch_loop (set_index n h) = ch_loop h" "ch_index (set_index n h) = n"
  "ch_revents (set_index n h) = ch_revents h" "ch_tied (set_index n h) = ch_tied h"
  "ch_tie (set_index n h) = ch_tie h" "ch_eventHandling (set_index n h) = ch_eventHandling h"
  "ch_addedToLoop (set_index n h) = ch_addedToLoop h" "ch_events (set_index n h) = ch_events h"
  by (simp_all add: set_index_def)

fun destroy_ids :: "Functor list \<Rightarrow> nat list" where
  "destroy_ids [] = []"
| "destroy_ids (ConnectDestroyed cid # fs) = cid # destroy_ids fs"
| "destroy_ids (_ # fs) = destroy_ids fs"

lemma destroy_ids_append [simp]: "destroy_ids (fs @ gs) = destroy_ids fs @ destroy_ids gs"
  by (induction fs rule: destroy_ids.induct) auto

text \<open>Each closed connection has its \<^verbatim>\<open>connectDestroyed\<close> queued once; beside these only write-complete
  callbacks are queued.\<close>

definition pend_ok :: "nat set \<Rightarrow> Functor list \<Rightarrow> bool" where
  "pend_ok D fs \<longleftrightarrow> distinct (destroy_ids fs) \<and> set (destroy_ids fs) = D
     \<and> (\<forall>f \<in> set fs. \<exists>cid. f = ConnectDestroyed cid \<or> f = WriteComplete cid)"

text \<open>What handling connection \<open>cid\<close> leaves alone.\<close>

definition frame :: "nat \<Rightarrow> Server \<Rightarrow> Server \<Rightarrow> bool" where
  "frame cid w w' \<longleftrightarrow> static w w'
     \<and> (\<forall>x. x \<noteq> cid \<longrightarrow> w_conns w' x = w_conns w x \<and> w_rcvd w' x = w_rcvd w x
          \<and> p_objs (el_poller w') x = p_objs (el_poller w) x)
     \<and> map_option c_fd (w_conns w' cid) = map_option c_fd (w_conns w cid) \<and> revents_of cid w' = revents_of cid w"

lemma frame_refl [simp]: "frame cid w w"
  by (simp add: frame_def static_def)

lemma frame_trans: "frame cid w w1 \<Longrightarrow> frame cid w1 w2 \<Longrightarrow> frame cid w w2"
  by (simp add: frame_def static_def)

lemma srv_inv_tid: "srv_inv tid D cur w \<Longrightarrow> el_threadId w = tid"
  and srv_inv_poll: "srv_inv tid D cur w \<Longrightarrow> poll_inv (el_poller w)"
  and srv_inv_registered: "srv_inv tid D cur w \<Longrightarrow> s_connections w nm = Some cid \<longleftrightarrow>
          (\<exists>c. w_conns w cid = Some c \<and> c_name c = nm \<and> c_state c = kConnected)"
  by (simp_all add: srv_inv_def)

text \<open>The outcome every handler has: the invariant with the closed connections \<open>D'\<close>.\<close>

definition handled :: "int \<Rightarrow> nat set \<Rightarrow> nat option \<Rightarrow> nat \<Rightarrow> Server \<Rightarrow> Server option \<Rightarrow> bool" where
  "handled tid D cur cid w r \<longleftrightarrow> (\<exists>w' D'. r = Some w' \<and> srv_inv tid D' cur w' \<and> pend_ok D' (el_pendingFunctors w')
     \<and> (D' = D \<or> D' = insert cid D) \<and> frame cid w w')"

lemma handleClose_ok:
  assumes inv: "srv_inv tid D cur w" and pend: "pend_ok D (el_pendingFunctors w)"
    and c: "w_conns w cid = Some c" and state: "c_state c = kConnected"
  shows "handled tid D cur cid w (handleClose (removeConnection tid) tid cid w)"
proof -
  obtain h where h: "p_objs (el_poller w) cid = Some h" and ok: "conn_ok D cid c h (w_sent w cid) (w_rcvd w cid)"
    and own: "ch_loop h = el_id w" by (rule srv_inv_conn [OF inv c])
  note cok = ok [unfolded conn_ok_def]
  let ?c = "c\<lparr>c_state := kDisconnected\<rparr>"
  let ?w1 = "set_conn cid ?c w"
  let ?h = "with_interest DisableAll h"
  let ?P = "after_update cid ?h (el_poller w)"
  have tid: "tid = el_threadId ?w1" using srv_inv_tid [OF inv] by (simp add: set_conn_def)
  have p1: "poll_inv (el_poller ?w1)" "p_objs (el_poller ?w1) cid = Some h" "ch_loop h = el_id ?w1"
    using srv_inv_poll [OF inv] h own by (simp_all add: set_conn_def)
  have idx: "ch_index h = kAdded" "cid \<notin> D" using cok state by auto
  have upd: "set_interest tid DisableAll cid ?w1 = Some (?w1\<lparr>el_poller := ?P\<rparr>)" and inv1: "poll_inv ?P"
    using set_interest_ok [OF p1 tid, of DisableAll] idx by (simp_all add: set_conn_def)
  have h': "?P = (el_poller w)\<lparr>p_channels := (p_channels (el_poller w))(ch_fd h \<mapsto> cid),
      p_objs := (p_objs (el_poller w))(cid \<mapsto> set_index kDeleted ?h), p_kernel := (p_kernel (el_poller w))(ch_fd h := None)\<rparr>"
    using idx by (simp add: after_update_def with_interest_def isNoneEvent_def Let_def)
  have pre: "prefix (w_sent w cid) (w_rcvd w cid)"
    using cok state prefixI [of "w_rcvd w cid" "w_sent w cid" "content (c_outputBuffer c)"] by simp
  have reg: "s_connections w (c_name c) = Some cid"
    using srv_inv_registered [OF inv] c state by blast
  let ?w2 = "?w1\<lparr>el_poller := ?P, s_connections := (s_connections w)(c_name c := None),
      el_pendingFunctors := el_pendingFunctors w @ [ConnectDestroyed cid]\<rparr>"
  have run: "handleClose (removeConnection tid) tid cid w = Some ?w2"
    using c state tid upd reg cok
    by (simp add: handleClose_def in_loop_defs setState_def connectionCallback_def removeConnection_def
        removeConnectionInLoop_def queueInLoop_def set_conn_def Let_def)
  have "srv_inv tid (insert cid D) cur ?w2"
  proof (rule srv_inv_upd [OF inv c h, where c' = ?c and h' = "set_index kDeleted ?h"])
    show "conn_ok (insert cid D) cid ?c (set_index kDeleted ?h) (w_sent ?w2 cid) (w_rcvd ?w2 cid)"
      using cok state pre by (simp add: conn_ok_def set_conn_def set_index_def with_interest_def isNoneEvent_def)
  qed (use inv1 h' in \<open>auto simp: set_conn_def set_index_def with_interest_def static_def\<close>)
  moreover have "pend_ok (insert cid D) (el_pendingFunctors ?w2)"
    using pend idx by (auto simp: pend_ok_def set_conn_def)
  moreover have "frame cid w ?w2"
    using h c by (simp add: frame_def static_def set_conn_def h' revents_of_def)
  ultimately show ?thesis using run unfolding handled_def by blast
qed

lemma set_conn_same: "w_conns w cid = Some c \<Longrightarrow> set_conn cid c w = w"
  by (simp add: set_conn_def fun_upd_idem)

text \<open>Sending appends to the output buffer and never writes to the socket: the test for a direct write asks for a
  channel that is not waiting for writability and a buffer that is not empty, which exclude each other.\<close>

lemma sendInLoopEX_appends:
  assumes tid: "el_threadId w = tid" and c: "w_conns w cid = Some c" "c_state c = kConnected" "c_channel c = cid"
    and h: "p_objs (el_poller w) cid = Some h" "poll_inv (el_poller w)" "ch_loop h = el_id w" "ch_index h = kAdded"
    and out: "buf_ok (c_outputBuffer c)" "isWriting h \<longleftrightarrow> content (c_outputBuffer c) \<noteq> []"
    and dat: "dat \<noteq> []" "room (c_outputBuffer c) (length dat)"
  shows "\<exists>outb. Buffer_append dat (c_outputBuffer c) = Some outb \<and> buf_ok outb
      \<and> content outb = content (c_outputBuffer c) @ dat
      \<and> length (buffer outb) \<le> length (buffer (c_outputBuffer c)) + length dat
      \<and> sendInLoopEX tid io cid dat w = Some (w\<lparr>w_conns := (w_conns w)(cid \<mapsto> c\<lparr>c_outputBuffer := outb\<rparr>),
           el_poller := (if isWriting h then el_poller w else after_update cid (with_interest EnableWriting h) (el_poller w))\<rparr>)"
proof -
  from Buffer_append_ok [OF out(1) dat(2)] obtain outb where
    b: "Buffer_append dat (c_outputBuffer c) = Some outb" "buf_ok outb" "content outb = content (c_outputBuffer c) @ dat" by blast
  have dead: "\<not> (\<not> isWriting h \<and> readableBytes (c_outputBuffer c) \<noteq> 0)"
    using out(2) length_content [OF out(1)] by (metis list.size(3))
  let ?w = "set_conn cid (c\<lparr>c_outputBuffer := outb\<rparr>) w"
  have p: "poll_inv (el_poller ?w)" "p_objs (el_poller ?w) cid = Some h" "ch_loop h = el_id ?w" "tid = el_threadId ?w"
    using h tid by (simp_all add: set_conn_def)
  have "set_interest tid EnableWriting cid ?w = Some (?w\<lparr>el_poller := after_update cid (with_interest EnableWriting h) (el_poller w)\<rparr>)"
    using set_interest_ok(1) [OF p, of EnableWriting] h(4) by (simp add: set_conn_def)
  then have "sendInLoopEX tid io cid dat w = Some (w\<lparr>w_conns := (w_conns w)(cid \<mapsto> c\<lparr>c_outputBuffer := outb\<rparr>),
           el_poller := (if isWriting h then el_poller w else after_update cid (with_interest EnableWriting h) (el_poller w))\<rparr>)"
    unfolding sendInLoopEX_def using tid c h(1) dead b(1) dat(1)
    by (cases "isWriting h") (simp_all add: in_loop_defs set_conn_def Let_def)
  with b Buffer_append_growth [OF out(1) dat(2) b(1)] show ?thesis by blast
qed

text \<open>The kernel's promises for one event of connection \<open>cid\<close>.\<close>

definition write_ok :: "conn_io \<Rightarrow> bool" where
  "write_ok io \<longleftrightarrow> (\<forall>bytes n. io_write io bytes = Wrote n \<longrightarrow> n \<le> length bytes)"

definition io_ok :: "conn_io \<Rightarrow> nat \<Rightarrow> bool" where
  "io_ok io len \<longleftrightarrow>
     (\<forall>iov bytes. io_readv io iov = ReadvData bytes \<longrightarrow> length bytes \<le> sum_list iov \<and> len + length bytes \<le> max_bytes)
     \<and> write_ok io"

lemma conn_room:
  assumes "conn_ok D cid c h s r" and "length r + n \<le> max_bytes"
  shows "room (c_outputBuffer c) n" and "length (buffer (c_inputBuffer c)) + extrabuf_size \<le> vec_max"
  using assms by (auto simp: conn_ok_def room_def buf_ok_def max_bytes_def vec_max_def extrabuf_size_def kCheapPrepend_def)

lemma handleError_same:
  assumes inv: "srv_inv tid D cur w" and c: "w_conns w cid = Some c"
  shows "handleError cid w = Some w"
proof -
  obtain h where "p_objs (el_poller w) cid = Some h" "conn_ok D cid c h (w_sent w cid) (w_rcvd w cid)"
    by (rule srv_inv_conn [OF inv c])
  then show "handleError cid w = Some w" using c by (simp add: handleError_def conn_ok_def)
qed

lemma handled_same: "srv_inv tid D cur w \<Longrightarrow> pend_ok D (el_pendingFunctors w) \<Longrightarrow> handled tid D cur cid w (Some w)"
  unfolding handled_def by (auto intro!: exI [of _ w])

lemma handled_trans:
  assumes "frame cid w w1" and "handled tid D cur cid w1 r"
  shows "handled tid D cur cid w r"
  using assms frame_trans unfolding handled_def by blast

text \<open>A write event drains a prefix of the output buffer.\<close>

lemma handleWrite_ok:
  assumes inv: "srv_inv tid D cur w" and pend: "pend_ok D (el_pendingFunctors w)" and c: "w_conns w cid = Some c"
    and io: "write_ok io"
  shows "handled tid D cur cid w (handleWrite tid io cid w)"
proof -
  obtain h where h: "p_objs (el_poller w) cid = Some h" and ok: "conn_ok D cid c h (w_sent w cid) (w_rcvd w cid)"
    and own: "ch_loop h = el_id w" by (rule srv_inv_conn [OF inv c])
  note cok = ok [unfolded conn_ok_def]
  have tid: "el_threadId w = tid" by (rule srv_inv_tid [OF inv])
  let ?out = "c_outputBuffer c"
  have bytes: "subrange (peek ?out) (readableBytes ?out) (buffer ?out) = content ?out"
    by (simp add: content_def buf_defs)
  note skip = handled_same [OF inv pend, of cid]
  show ?thesis
  proof (cases "isWriting h \<and> (\<exists>n>0. io_write io (content ?out) = Wrote n)")
    case False
    then have idle: "\<not> isWriting h \<or> io_write io (content ?out) = Wrote 0 \<or> (\<exists>e. io_write io (content ?out) = WriteError e)"
      by (cases "io_write io (content ?out)") auto
    have "c_channel c = cid" using cok by blast
    with idle have "handleWrite tid io cid w = Some w"
      using c h tid by (elim disjE exE) (simp_all add: handleWrite_def in_loop_defs bytes Let_def)
    with skip show ?thesis by simp
  next
    case True
    then obtain n where wr: "isWriting h" "0 < n" "io_write io (content ?out) = Wrote n" by blast
    have state: "c_state c = kConnected" using cok wr(1) has_write_bits by (auto simp: isWriting_def isNoneEvent_def kNoneEvent_def split: if_splits)
    have n: "n \<le> readableBytes ?out"
    proof -
      have "n \<le> length (content ?out)" using io wr(3) unfolding write_ok_def by blast
      moreover have "buf_ok ?out" using cok by blast
      ultimately show ?thesis by simp
    qed
    from retrieve_ok [OF _ n] cok obtain outb where
      outb: "retrieve n ?out = Some outb" "buf_ok outb" "content outb = drop n (content ?out)" by blast
    have size: "buffer outb = buffer ?out" by (rule retrieve_growth [OF outb(1)])
    have sent: "(w_sent w cid @ take n (content ?out)) @ content outb = w_rcvd w cid"
      using cok state outb(3) by simp
    have empty: "readableBytes outb = 0 \<longleftrightarrow> content outb = []"
      using length_content [OF outb(2)] by (metis length_0_conv)
    let ?c = "c\<lparr>c_outputBuffer := outb\<rparr>"
    let ?w1 = "set_conn cid ?c (kernel_takes cid (take n (content ?out)) w)"
    show ?thesis
    proof (cases "content outb = []")
      case False
      then have run: "handleWrite tid io cid w = Some ?w1"
        using c h tid cok wr outb(1) empty by (simp add: handleWrite_def in_loop_defs bytes Let_def)
      have "srv_inv tid D cur ?w1"
      proof (rule srv_inv_upd [OF inv c h, where c' = ?c and h' = h])
        show "conn_ok D cid ?c h (w_sent ?w1 cid) (w_rcvd ?w1 cid)"
          using cok state outb(2) size sent wr(1) False by (simp add: conn_ok_def set_conn_def kernel_takes_def)
      qed (use h state srv_inv_poll [OF inv] in \<open>auto simp: set_conn_def kernel_takes_def static_def\<close>)
      moreover have "frame cid w ?w1"
        using c by (simp add: frame_def static_def set_conn_def kernel_takes_def revents_of_def)
      ultimately show ?thesis
        using run pend unfolding handled_def by (intro exI [of _ ?w1] exI [of _ D]) (simp add: set_conn_def kernel_takes_def)
    next
      case True
      let ?h = "with_interest DisableWriting h"
      let ?P = "after_update cid ?h (el_poller w)"
      have p1: "poll_inv (el_poller ?w1)" "p_objs (el_poller ?w1) cid = Some h" "ch_loop h = el_id ?w1" "tid = el_threadId ?w1"
        using srv_inv_poll [OF inv] h own tid by (simp_all add: set_conn_def kernel_takes_def)
      have upd: "set_interest tid DisableWriting cid ?w1 = Some (?w1\<lparr>el_poller := ?P\<rparr>)" and inv1: "poll_inv ?P"
        using set_interest_ok [OF p1, of DisableWriting] cok state by (simp_all add: set_conn_def kernel_takes_def)
      have reading: "isReading ?h" "\<not> isWriting ?h" "\<not> isNoneEvent ?h"
        using cok state apply_interest_read(4) [of "ch_events h"] apply_interest_write(4) [of "ch_events h"]
        by (auto simp: isReading_def isWriting_def isNoneEvent_def kNoneEvent_def has_def)
      have P: "p_objs ?P = (p_objs (el_poller w))(cid \<mapsto> set_index kAdded ?h)"
        using reading cok state by (simp add: after_update_def Let_def)
      let ?w2 = "?w1\<lparr>el_poller := ?P, el_pendingFunctors := el_pendingFunctors w @ [WriteComplete cid]\<rparr>"
      have run: "handleWrite tid io cid w = Some ?w2"
        using c h tid cok wr outb(1) empty True upd state
        by (simp add: handleWrite_def in_loop_defs bytes Let_def queueInLoop_def set_conn_def kernel_takes_def)
      have "srv_inv tid D cur ?w2"
      proof (rule srv_inv_upd [OF inv c h, where c' = ?c and h' = "set_index kAdded ?h"])
        show "conn_ok D cid ?c (set_index kAdded ?h) (w_sent ?w2 cid) (w_rcvd ?w2 cid)"
          using cok state outb(2) size sent True reading
          by (simp add: conn_ok_def set_conn_def kernel_takes_def isReading_def isWriting_def)
      qed (use P state inv1 in \<open>auto simp: set_conn_def kernel_takes_def static_def\<close>)
      moreover have "frame cid w ?w2"
        using c h P by (simp add: frame_def static_def set_conn_def kernel_takes_def revents_of_def)
      moreover have "pend_ok D (el_pendingFunctors ?w2)" using pend by (auto simp: pend_ok_def)
      ultimately show ?thesis using run unfolding handled_def by blast
    qed
  qed
qed

text \<open>A read event: the bytes received are appended to the output, an end of file closes the connection.\<close>

lemma handleRead_ok:
  assumes inv: "srv_inv tid D cur w" and pend: "pend_ok D (el_pendingFunctors w)" and c: "w_conns w cid = Some c"
    and state: "c_state c = kConnected" and io: "io_ok io (length (w_rcvd w cid))"
  shows "handled tid D cur cid w (handleRead (removeConnection tid) tid io cid t w)"
proof -
  obtain h where h: "p_objs (el_poller w) cid = Some h" and ok: "conn_ok D cid c h (w_sent w cid) (w_rcvd w cid)"
    and own: "ch_loop h = el_id w" by (rule srv_inv_conn [OF inv c])
  note cok = ok [unfolded conn_ok_def]
  have tid: "el_threadId w = tid" by (rule srv_inv_tid [OF inv])
  let ?in = "c_inputBuffer c"
  show ?thesis
  proof (cases "io_readv io (readFd_iov ?in)")
    case (ReadvError e)
    then have "readFd (io_readv io) ?in = Some (-1, Some e, ?in)" by (simp add: readFd_def)
    then have "handleRead (removeConnection tid) tid io cid t w = handleError cid w"
      using c tid ReadvError by (simp add: handleRead_def in_loop_defs kernel_gives_def set_conn_same Let_def)
    with handleError_same [OF inv c] handled_same [OF inv pend] show ?thesis by simp
  next
    case (ReadvData data)
    with io have data: "length data \<le> sum_list (readFd_iov ?in)" "length (w_rcvd w cid) + length data \<le> max_bytes"
      by (auto simp: io_ok_def)
    note room = conn_room [OF ok data(2)]
    from readFd_ok [of ?in "io_readv io" data] cok room(2) ReadvData data(1) obtain inb where
      inb: "readFd (io_readv io) ?in = Some (int (length data), None, inb)" "buf_ok inb" "content inb = data"
        "length (buffer inb) \<le> length (buffer ?in) + length data" by auto
    let ?r = "w_rcvd w cid @ data"
    let ?w1 = "set_conn cid (c\<lparr>c_inputBuffer := inb\<rparr>) (kernel_gives cid (ReadvData data) w)"
    show ?thesis
    proof (cases "data = []")
      case True
      have inv1: "srv_inv tid D cur ?w1"
      proof (rule srv_inv_upd [OF inv c h, where c' = "c\<lparr>c_inputBuffer := inb\<rparr>" and h' = h])
        show "conn_ok D cid (c\<lparr>c_inputBuffer := inb\<rparr>) h (w_sent ?w1 cid) (w_rcvd ?w1 cid)"
          using cok state inb True by (simp add: conn_ok_def set_conn_def kernel_gives_def)
      qed (use h state srv_inv_poll [OF inv] in \<open>auto simp: set_conn_def kernel_gives_def static_def\<close>)
      have fr: "frame cid w ?w1"
        using c True by (simp add: frame_def static_def set_conn_def kernel_gives_def revents_of_def)
      have "handleRead (removeConnection tid) tid io cid t w = handleClose (removeConnection tid) tid cid ?w1"
        using c tid inb(1) True ReadvData by (simp add: handleRead_def in_loop_defs Let_def)
      moreover have "handled tid D cur cid ?w1 (handleClose (removeConnection tid) tid cid ?w1)"
        by (rule handleClose_ok [OF inv1, where c = "c\<lparr>c_inputBuffer := inb\<rparr>"])
           (use pend state in \<open>simp_all add: set_conn_def kernel_gives_def\<close>)
      ultimately show ?thesis using handled_trans [OF fr] by simp
    next
      case False
      have readable: "readableBytes inb = length data" using length_content [OF inb(2)] inb(3) by simp
      from retrieveAsString_ok [OF inb(2), of "length data"] readable inb(3) obtain inb' where
        inb': "retrieveAllAsString inb = Some (data, inb')" "buf_ok inb'" "content inb' = []"
        by (auto simp: retrieveAllAsString_def)
      have size': "buffer inb' = buffer inb"
        using inb'(1) retrieve_growth by (auto simp: retrieveAllAsString_def retrieveAsString_def bind_eq_Some_conv Let_def split: if_splits)
      let ?c2 = "c\<lparr>c_inputBuffer := inb'\<rparr>"
      let ?w2 = "set_conn cid ?c2 (kernel_gives cid (ReadvData data) w)"
      have w2: "el_threadId ?w2 = tid" "w_conns ?w2 cid = Some ?c2" "c_state ?c2 = kConnected" "c_channel ?c2 = cid"
        "p_objs (el_poller ?w2) cid = Some h" "poll_inv (el_poller ?w2)" "ch_loop h = el_id ?w2" "ch_index h = kAdded"
        "buf_ok (c_outputBuffer ?c2)" "isWriting h \<longleftrightarrow> content (c_outputBuffer ?c2) \<noteq> []"
        using tid h own state cok srv_inv_poll [OF inv] by (simp_all add: set_conn_def kernel_gives_def)
      have room2: "room (c_outputBuffer ?c2) (length data)" using room(1) by simp
      let ?h = "if isWriting h then h else set_index kAdded (with_interest EnableWriting h)"
      let ?P = "if isWriting h then el_poller w else after_update cid (with_interest EnableWriting h) (el_poller w)"
      have same: "el_poller ?w2 = el_poller w" "c_outputBuffer ?c2 = c_outputBuffer c"
        by (simp_all add: set_conn_def kernel_gives_def)
      from sendInLoopEX_appends [OF w2 False room2, of io] obtain outb where
        outb: "buf_ok outb" "content outb = content (c_outputBuffer c) @ data"
          "length (buffer outb) \<le> length (buffer (c_outputBuffer c)) + length data"
          "sendInLoopEX tid io cid data ?w2 = Some (?w2\<lparr>w_conns := (w_conns ?w2)(cid \<mapsto> ?c2\<lparr>c_outputBuffer := outb\<rparr>), el_poller := ?P\<rparr>)"
        unfolding same by blast
      let ?c3 = "?c2\<lparr>c_outputBuffer := outb\<rparr>"
      let ?w3 = "?w2\<lparr>w_conns := (w_conns ?w2)(cid \<mapsto> ?c3), el_poller := ?P\<rparr>"
      have run: "handleRead (removeConnection tid) tid io cid t w = Some ?w3"
        using c tid inb(1) False ReadvData inb'(1) outb(4) state cok
        by (simp add: handleRead_def in_loop_defs Let_def defaultMessageCallback_def send_def sendInLoop_def set_conn_def
            kernel_gives_def)
      have writing: "has (apply_interest EnableWriting (ch_events h)) kWriteEvent" by (rule apply_interest_write)
      have reading: "has (apply_interest EnableWriting (ch_events h)) kReadEvent"
        using apply_interest_read(3) [of "ch_events h"] cok state by (simp add: isReading_def)
      have not_none: "\<not> isNoneEvent (with_interest EnableWriting h)"
        using writing by (metis has_zero isNoneEvent_def kNoneEvent_def with_interest_sel(9))
      have P: "p_objs ?P = (p_objs (el_poller w))(cid \<mapsto> ?h)"
        using h not_none by (simp add: after_update_def Let_def fun_upd_idem)
      have invP: "poll_inv ?P"
        using srv_inv_poll [OF inv] set_interest_ok(2) [OF srv_inv_poll [OF inv] h own tid [symmetric], of EnableWriting] w2(8) by simp
      have "srv_inv tid D cur ?w3"
      proof (rule srv_inv_upd [OF inv c h, where c' = ?c3 and h' = ?h])
        show "conn_ok D cid ?c3 ?h (w_sent ?w3 cid) (w_rcvd ?w3 cid)"
          using cok state outb inb(2,4) inb'(2,3) size' data(2) False writing reading
          by (simp add: conn_ok_def set_conn_def kernel_gives_def isReading_def isWriting_def)
      qed (use P invP state in \<open>auto simp: set_conn_def kernel_gives_def static_def\<close>)
      moreover have "frame cid w ?w3"
        using c h P by (simp add: frame_def static_def set_conn_def kernel_gives_def revents_of_def)
      ultimately show ?thesis
        using run pend unfolding handled_def by (intro exI [of _ ?w3] exI [of _ D]) (simp add: set_conn_def kernel_gives_def)
    qed
  qed
qed

section \<open>Handling one channel\<close>

definition marked :: "nat \<Rightarrow> bool \<Rightarrow> Server \<Rightarrow> Server" where
  "marked ch b w = w\<lparr>el_poller := (el_poller w)\<lparr>p_objs :=
     (p_objs (el_poller w))(ch := map_option (\<lambda>c. c\<lparr>ch_eventHandling := b\<rparr>) (p_objs (el_poller w) ch))\<rparr>\<rparr>"

lemma mark_ok:
  assumes inv: "srv_inv tid D cur w" and cur: "cur = None \<or> cur = Some ch" and h: "p_objs (el_poller w) ch = Some h"
  shows "on_chan ch (\<lambda>c. c\<lparr>ch_eventHandling := b\<rparr>) w = Some (marked ch b w)"
    and "srv_inv tid D (if b then Some ch else None) (marked ch b w)"
    and "frame ch w (marked ch b w)" and "el_pendingFunctors (marked ch b w) = el_pendingFunctors w"
    and "w_conns (marked ch b w) = w_conns w" and "w_rcvd (marked ch b w) = w_rcvd w"
proof -
  note i = inv [unfolded srv_inv_def]
  let ?h = "h\<lparr>ch_eventHandling := b\<rparr>" and ?w = "marked ch b w"
  have m: "?w = w\<lparr>el_poller := (el_poller w)\<lparr>p_objs := (p_objs (el_poller w))(ch \<mapsto> ?h)\<rparr>\<rparr>"
    using h by (simp add: marked_def)
  show "on_chan ch (\<lambda>c. c\<lparr>ch_eventHandling := b\<rparr>) w = Some ?w"
    using h by (simp add: on_chan_Some m)
  show "frame ch w ?w" using h by (simp add: frame_def static_def m revents_of_def)
  show "el_pendingFunctors ?w = el_pendingFunctors w" "w_conns ?w = w_conns w" "w_rcvd ?w = w_rcvd w"
    by (simp_all add: m)
  have same: "conn_ok D x c ?h s r = conn_ok D x c h s r" for x c s r
    by (simp add: conn_ok_def isReading_def isWriting_def isNoneEvent_def)
  show "srv_inv tid D (if b then Some ch else None) ?w"
  proof (rule srv_invI)
    show "poll_inv (el_poller ?w)" using poll_inv_touch [OF srv_inv_poll [OF inv] h, of ?h] by (simp add: m)
    show "srv_fixed tid ?w" using srv_inv_fixed [OF inv] by (simp add: srv_fixed_def m)
    fix cid c
    assume "w_conns ?w cid = Some c"
    then have c: "w_conns w cid = Some c" by (simp add: m)
    obtain hx where "p_objs (el_poller w) cid = Some hx" "conn_ok D cid c hx (w_sent w cid) (w_rcvd w cid)" "0 < cid"
        "int cid < s_nextConnId w" "c_name c = conn_name (s_name w) (s_ipPort w) (int cid)"
      by (rule srv_inv_conn [OF inv c])
    with h same show "0 < cid \<and> int cid < s_nextConnId ?w \<and> c_name c = conn_name (s_name ?w) (s_ipPort ?w) (int cid)
          \<and> (\<exists>h. p_objs (el_poller ?w) cid = Some h \<and> conn_ok D cid c h (w_sent ?w cid) (w_rcvd ?w cid))"
      by (cases "cid = ch") (auto simp: m)
  next
    fix x hx
    assume "p_objs (el_poller ?w) x = Some hx"
    with i h cur show "(x = acceptChannel \<or> w_conns ?w x \<noteq> None) \<and> ch_loop hx = el_id ?w
        \<and> (ch_eventHandling hx \<longleftrightarrow> (if b then Some ch else None) = Some x)"
      by (cases "x = ch") (auto simp: m)
  next
    show "\<exists>h. p_objs (el_poller ?w) acceptChannel = Some h \<and> ch_fd h = a_fd ?w \<and> ch_index h = kAdded \<and> \<not> ch_tied h \<and> ch_addedToLoop h"
      using i h unfolding m by (cases "ch = acceptChannel") auto
  qed (use i in \<open>simp_all add: m\<close>)
qed

lemma handled_step:
  assumes "handled tid D cur cid w r"
  obtains w' D' where "r = Some w'" "srv_inv tid D' cur w'" "pend_ok D' (el_pendingFunctors w')" "D' = D \<or> D' = insert cid D"
    "frame cid w w'"
  using assms unfolding handled_def by blast

lemma frame_conn: "frame cid w w' \<Longrightarrow> w_conns w cid = Some c \<Longrightarrow> \<exists>c'. w_conns w' cid = Some c' \<and> c_fd c' = c_fd c"
  by (auto simp: frame_def map_option_eq_Some)

lemma conn_event_ok:
  assumes inv: "srv_inv tid D None w" and pend: "pend_ok D (el_pendingFunctors w)" and c: "w_conns w cid = Some c"
    and state: "c_state c = kConnected" and io: "io_ok (sio_conn io cid) (length (w_rcvd w cid))"
    and r: "revents_of cid w = Some r" "event_ok r"
  shows "handled tid D None cid w (handleEvent server_alive (server_callbacks tid io) cid t w)"
proof -
  obtain h where h: "p_objs (el_poller w) cid = Some h" and ok: "conn_ok D cid c h (w_sent w cid) (w_rcvd w cid)" and pos: "0 < cid"
    by (rule srv_inv_conn [OF inv c])
  let ?cb = "conn_callbacks (removeConnection tid) tid (sio_conn io cid) cid"
  let ?hup = "has r POLLHUP \<and> \<not> has r POLLIN" and ?rd = "has r (POLLIN OR POLLPRI OR POLLRDHUP)"
  let ?w1 = "marked cid True w"
  note m = mark_ok [OF inv _ h, of True]
  have w1: "srv_inv tid D (Some cid) ?w1" "pend_ok D (el_pendingFunctors ?w1)" "w_conns ?w1 cid = Some c" "frame cid w ?w1"
      "io_ok (sio_conn io cid) (length (w_rcvd ?w1 cid))" "revents_of cid ?w1 = Some r"
    using m pend c io r(1) by (simp_all add: frame_def)
  have excl: "?hup \<Longrightarrow> \<not> ?rd" using r(2) by (auto simp: event_ok_def has_or)
  have "handled tid D (Some cid) cid ?w1 (when_call ?hup (Some (handleClose (removeConnection tid) tid cid)) ?w1)"
    using handleClose_ok [OF w1(1,2,3) state] handled_same [OF w1(1,2)] by (simp add: when_call_def)
  then obtain w2 D2 where w2: "when_call ?hup (Some (handleClose (removeConnection tid) tid cid)) ?w1 = Some w2"
      "srv_inv tid D2 (Some cid) w2" "pend_ok D2 (el_pendingFunctors w2)" "D2 = D \<or> D2 = insert cid D" "frame cid ?w1 w2"
    by (rule handled_step)
  from frame_conn [OF w2(5) w1(3)] obtain c2 where c2: "w_conns w2 cid = Some c2" by blast
  have err: "when_call b (Some (handleError cid)) w2 = Some w2" for b
    using handleError_same [OF w2(2) c2] by (simp add: when_call_def)
  have "handled tid D2 (Some cid) cid w2 (when_call ?rd (Some (handleRead (removeConnection tid) tid (sio_conn io cid) cid t)) w2)"
  proof (cases ?rd)
    case True
    with excl have "\<not> ?hup" by blast
    with w2(1) have "w2 = ?w1" unfolding when_call_def by (simp only: if_False option.inject)
    then show ?thesis using True w2(2,3) handleRead_ok [OF _ _ _ state w1(5)] w1(3) by (simp add: when_call_def)
  next
    case False
    then show ?thesis using handled_same [OF w2(2,3)] by (simp add: when_call_def)
  qed
  then obtain w3 D3 where w3: "when_call ?rd (Some (handleRead (removeConnection tid) tid (sio_conn io cid) cid t)) w2 = Some w3"
      "srv_inv tid D3 (Some cid) w3" "pend_ok D3 (el_pendingFunctors w3)" "D3 = D2 \<or> D3 = insert cid D2" "frame cid w2 w3"
    by (rule handled_step)
  from frame_conn [OF w3(5) c2] obtain c3 where c3: "w_conns w3 cid = Some c3" by blast
  have wr_ok: "write_ok (sio_conn io cid)" using io by (simp add: io_ok_def)
  have "handled tid D3 (Some cid) cid w3 (when_call (has r POLLOUT) (Some (handleWrite tid (sio_conn io cid) cid)) w3)"
    using handleWrite_ok [OF w3(2,3) c3 wr_ok] handled_same [OF w3(2,3)] by (simp add: when_call_def)
  then obtain w4 D4 where w4: "when_call (has r POLLOUT) (Some (handleWrite tid (sio_conn io cid) cid)) w3 = Some w4"
      "srv_inv tid D4 (Some cid) w4" "pend_ok D4 (el_pendingFunctors w4)" "D4 = D3 \<or> D4 = insert cid D3" "frame cid w3 w4"
    by (rule handled_step)
  from frame_conn [OF w4(5) c3] obtain c4 where c4: "w_conns w4 cid = Some c4" by blast
  obtain h4 where h4: "p_objs (el_poller w4) cid = Some h4" by (rule srv_inv_conn [OF w4(2) c4])
  note u = mark_ok [OF w4(2) _ h4, of False]
  have rs: "revents_of cid w2 = Some r" "revents_of cid w3 = Some r" "revents_of cid w4 = Some r"
    using w1(6) w2(5) w3(5) w4(5) by (simp_all add: frame_def)
  have "handleEventWithGuard ?cb cid t w = Some (marked cid False w4)"
    using m(1) w1(6) w2(1) err w3(1) w4(1) u(1) rs
    by (simp add: handleEventWithGuard_def conn_callbacks_def)
  moreover have "handleEvent server_alive (server_callbacks tid io) cid t w = handleEventWithGuard ?cb cid t w"
    using h ok c pos by (simp add: handleEvent_def conn_ok_def server_alive_def server_callbacks_def acceptChannel_def)
  moreover have "frame cid w (marked cid False w4)"
    using frame_trans w1(4) w2(5) w3(5) w4(5) u(3) by blast
  ultimately show ?thesis
    unfolding handled_def using u(2,4) w4(3,4) w3(4) w2(4)
    by (intro exI [of _ "marked cid False w4"] exI [of _ D4]) auto
qed

section \<open>A new connection\<close>

text \<open>What accepting connection number \<open>n\<close> leaves alone.\<close>

definition grown :: "nat \<Rightarrow> Server \<Rightarrow> Server \<Rightarrow> bool" where
  "grown n w w' \<longleftrightarrow> (\<forall>x. x \<noteq> n \<longrightarrow> w_conns w' x = w_conns w x \<and> w_rcvd w' x = w_rcvd w x
      \<and> p_objs (el_poller w') x = p_objs (el_poller w) x)"

lemma fresh_number:
  assumes "srv_inv tid D cur w"
  defines "n \<equiv> nat (s_nextConnId w)"
  shows "0 < n" "w_conns w n = None" "p_objs (el_poller w) n = None" "int n = s_nextConnId w"
proof -
  have "1 \<le> s_nextConnId w" using assms(1) by (simp add: srv_inv_def)
  then show "0 < n" "int n = s_nextConnId w" by (simp_all add: n_def)
  have "w_conns w n \<noteq> Some c" for c
  proof
    assume c: "w_conns w n = Some c"
    have "int n < s_nextConnId w" by (rule srv_inv_conn [OF assms(1) c])
    with \<open>int n = s_nextConnId w\<close> show False by simp
  qed
  then show none: "w_conns w n = None" by (cases "w_conns w n") auto
  show "p_objs (el_poller w) n = None"
  proof (rule ccontr)
    assume "p_objs (el_poller w) n \<noteq> None"
    then obtain h where "p_objs (el_poller w) n = Some h" by blast
    then have "n = acceptChannel \<or> w_conns w n \<noteq> None" using assms(1) unfolding srv_inv_def by blast
    with none \<open>0 < n\<close> show False by (simp add: acceptChannel_def)
  qed
qed

lemma fresh_fd:
  assumes "srv_inv tid D cur w" and "\<And>cid c. w_conns w cid = Some c \<Longrightarrow> c_fd c \<noteq> fd" and "a_fd w \<noteq> fd"
  shows "p_channels (el_poller w) fd = None"
proof (rule ccontr)
  assume "p_channels (el_poller w) fd \<noteq> None"
  then obtain ch where "p_channels (el_poller w) fd = Some ch" by blast
  then obtain h where h: "p_objs (el_poller w) ch = Some h" "ch_fd h = fd" by (rule poll_inv_map [OF srv_inv_poll [OF assms(1)]])
  show False
  proof (cases "ch = acceptChannel")
    case True
    with assms(1) h assms(3) show False by (auto simp: srv_inv_def)
  next
    case False
    with assms(1) h(1) obtain c where c: "w_conns w ch = Some c" unfolding srv_inv_def by blast
    from srv_inv_conn [OF assms(1) c] h have "c_fd c = fd" by (metis conn_ok_def option.inject)
    with assms(2) [OF c] show False by simp
  qed
qed

lemma newConnection_ok:
  assumes inv: "srv_inv tid D cur w"
    and fd: "\<forall>cid c. w_conns w cid = Some c \<longrightarrow> c_fd c \<noteq> fd" "a_fd w \<noteq> fd"
    and bound: "s_nextConnId w + 1 < 2 ^ 31" and cur: "cur \<noteq> Some (nat (s_nextConnId w))"
  shows "\<exists>w'. newConnection tid fd w = Some w' \<and> srv_inv tid D cur w' \<and> el_pendingFunctors w' = el_pendingFunctors w
           \<and> grown (nat (s_nextConnId w)) w w' \<and> (\<exists>c. w_conns w' (nat (s_nextConnId w)) = Some c)
           \<and> a_fd w' = a_fd w \<and> el_threadId w' = el_threadId w"
proof -
  define n where "n = nat (s_nextConnId w)"
  note n = fresh_number [OF inv, folded n_def]
  note i = inv [unfolded srv_inv_def]
  have free: "p_channels (el_poller w) fd = None" by (rule fresh_fd [OF inv]) (use fd in auto)
  obtain b where b: "new_Buffer kInitialSize = Some b" "buf_ok b" "content b = []" "length (buffer b) = kCheapPrepend + kInitialSize"
    using new_Buffer_ok [of kInitialSize] by (auto simp: vec_max_def kInitialSize_def kCheapPrepend_def)
  let ?nm = "conn_name (s_name w) (s_ipPort w) (int n)"
  let ?h0 = "new_Channel (el_id w) fd" and ?h1 = "tie n (new_Channel (el_id w) fd)"
  let ?h2 = "set_index kAdded (with_interest EnableReading (tie n (new_Channel (el_id w) fd)))"
  let ?p1 = "(el_poller w)\<lparr>p_objs := (p_objs (el_poller w))(n \<mapsto> ?h1)\<rparr>"
  let ?P = "after_update n (with_interest EnableReading ?h1) ?p1"
  let ?c = "\<lparr>c_state = kConnected, c_name = ?nm, c_reading = True, c_fd = fd, c_channel = n,
        c_connectionCallback = True, c_messageCallback = True, c_closeCallback = True, c_writecompleteCB = True,
        c_inputBuffer = b, c_outputBuffer = b\<rparr>"
  let ?w = "w\<lparr>s_nextConnId := s_nextConnId w + 1, w_conns := (w_conns w)(n \<mapsto> ?c),
      w_rcvd := (w_rcvd w)(n := []), w_sent := (w_sent w)(n := []), w_shut := (w_shut w)(n := False),
      s_connections := (s_connections w)(?nm \<mapsto> n), el_poller := ?P\<rparr>"
  have p0: "poll_inv ((el_poller w)\<lparr>p_objs := (p_objs (el_poller w))(n \<mapsto> ?h0)\<rparr>)"
    by (rule poll_inv_add_object [OF srv_inv_poll [OF inv] n(3)])
  have p1: "poll_inv ?p1" using poll_inv_touch [OF p0, of n ?h0 ?h1] by (simp add: tie_def)
  have idx: "ch_index ?h1 = kNew" "ch_fd ?h1 = fd" "ch_loop ?h1 = el_id w"
    by (simp_all add: tie_def new_Channel_def kNew_def)
  have upd: "set_interest tid EnableReading n (x\<lparr>el_poller := ?p1\<rparr>) = Some (x\<lparr>el_poller := ?P\<rparr>)"
    if "el_id x = el_id w" "el_threadId x = tid" for x :: Server
    using set_interest_ok(1) [of "x\<lparr>el_poller := ?p1\<rparr>" n ?h1 tid EnableReading] p1 idx free that by simp
  have invP: "poll_inv ?P"
    using set_interest_ok(2) [of "w\<lparr>el_poller := ?p1\<rparr>" n ?h1 tid EnableReading] p1 idx free srv_inv_tid [OF inv] by simp
  have P: "p_objs ?P = (p_objs (el_poller w))(n \<mapsto> ?h2)"
    using idx by (simp add: after_update_def Let_def)
  have run: "newConnection tid fd w = Some ?w"
  proof -
    have loop: "getNextLoop True (s_threadPool w) = Some (el_id w, s_threadPool w)" using i by (simp add: getNextLoop_def)
    show ?thesis
      using upd srv_inv_tid [OF inv] n b(1) loop
      by (simp add: newConnection_def in_loop_defs n_def [symmetric] Let_def new_TcpConnection_def alloc_Channel_def
          set_callbacks_def connectEstablished_def setState_def on_chan_def on_channel_def set_conn_def connectionCallback_def)
  qed
  have new: "conn_ok D n ?c ?h2 [] []"
  proof -
    have "n \<notin> D" using i n(2) by blast
    moreover have "has (apply_interest EnableReading 0) kReadEvent" "\<not> has (apply_interest EnableReading 0) kWriteEvent"
      by (rule apply_interest_read, metis apply_interest_write(1) has_zero)
    ultimately show ?thesis
      using b by (simp add: conn_ok_def tie_def new_Channel_def isReading_def isWriting_def kCheapPrepend_def kInitialSize_def)
  qed
  have nm: "w_conns w x = Some cx \<Longrightarrow> c_name cx \<noteq> ?nm" for x cx
  proof
    assume cx: "w_conns w x = Some cx" and "c_name cx = ?nm"
    moreover from srv_inv_conn [OF inv cx] have "c_name cx = conn_name (s_name w) (s_ipPort w) (int x)" "int x < s_nextConnId w" by metis+
    moreover have "length (s_ipPort w) \<le> 40" "int n < 2 ^ 31" using i n(4) by auto
    ultimately have "x = n" using conn_name_inj [of "s_ipPort w" x n "s_name w"] n(4) by auto
    with cx n(2) show False by simp
  qed
  have "srv_inv tid D cur ?w"
  proof (rule srv_invI)
    show "poll_inv (el_poller ?w)" using invP by simp
    show "srv_fixed tid ?w" using srv_inv_fixed [OF inv] bound by (simp add: srv_fixed_def)
  next
    fix x cx
    assume cx: "w_conns ?w x = Some cx"
    show "0 < x \<and> int x < s_nextConnId ?w \<and> c_name cx = conn_name (s_name ?w) (s_ipPort ?w) (int x)
        \<and> (\<exists>h. p_objs (el_poller ?w) x = Some h \<and> conn_ok D x cx h (w_sent ?w x) (w_rcvd ?w x))"
    proof (cases "x = n")
      case True
      with cx new n P show ?thesis by auto
    next
      case False
      with cx have "w_conns w x = Some cx" by simp
      from srv_inv_conn [OF inv this] obtain h where "p_objs (el_poller w) x = Some h" "conn_ok D x cx h (w_sent w x) (w_rcvd w x)"
        "0 < x" "int x < s_nextConnId w" "c_name cx = conn_name (s_name w) (s_ipPort w) (int x)" by blast
      with False P show ?thesis by simp
    qed
  next
    fix ch h
    assume ch: "p_objs (el_poller ?w) ch = Some h"
    show "(ch = acceptChannel \<or> w_conns ?w ch \<noteq> None) \<and> ch_loop h = el_id ?w \<and> (ch_eventHandling h \<longleftrightarrow> cur = Some ch)"
    proof (cases "ch = n")
      case True
      with ch P cur n_def show ?thesis by (auto simp: tie_def new_Channel_def)
    next
      case False
      with ch P have "p_objs (el_poller w) ch = Some h" by simp
      with i have "(ch = acceptChannel \<or> w_conns w ch \<noteq> None) \<and> ch_loop h = el_id w \<and> (ch_eventHandling h \<longleftrightarrow> cur = Some ch)" by blast
      with False show ?thesis by simp
    qed
  next
    show "\<exists>h. p_objs (el_poller ?w) acceptChannel = Some h \<and> ch_fd h = a_fd ?w \<and> ch_index h = kAdded \<and> \<not> ch_tied h \<and> ch_addedToLoop h"
      using i n(1) P by (simp add: acceptChannel_def)
  next
    fix nm' x
    have "s_connections w nm' = Some x \<longleftrightarrow> (\<exists>c. w_conns w x = Some c \<and> c_name c = nm' \<and> c_state c = kConnected)"
      by (rule srv_inv_registered [OF inv])
    with nm n(2) show "s_connections ?w nm' = Some x \<longleftrightarrow> (\<exists>c. w_conns ?w x = Some c \<and> c_name c = nm' \<and> c_state c = kConnected)"
      by (cases "x = n"; cases "nm' = ?nm") auto
  next
    show "D \<subseteq> dom (w_conns ?w)" using i by auto
  qed
  moreover have "grown n w ?w" using P by (simp add: grown_def)
  ultimately show ?thesis
    unfolding n_def [symmetric] using run by (intro exI [of _ ?w]) simp
qed

text \<open>The acceptor's channel: the kernel gives a descriptor that is not in use, or an expected error.\<close>

definition accept_ok :: "accept_result \<Rightarrow> Server \<Rightarrow> bool" where
  "accept_ok r w \<longleftrightarrow> (case r of
       Accepted fd \<Rightarrow> 0 \<le> fd \<and> fd \<noteq> a_fd w \<and> (\<forall>cid c. w_conns w cid = Some c \<longrightarrow> c_fd c \<noteq> fd) \<and> s_nextConnId w + 1 < 2 ^ 31
     | AcceptError e \<Rightarrow> e \<in> expected_accept_errors)"

lemma accept_event_ok:
  assumes inv: "srv_inv tid D None w" and pend: "pend_ok D (el_pendingFunctors w)" and acc: "accept_ok (sio_accept io) w"
  shows "\<exists>w'. handleEvent server_alive (server_callbacks tid io) acceptChannel t w = Some w' \<and> srv_inv tid D None w'
           \<and> pend_ok D (el_pendingFunctors w') \<and> (\<forall>x. x \<in> dom (w_conns w) \<longrightarrow> x \<noteq> acceptChannel \<longrightarrow> w_conns w' x = w_conns w x \<and> w_rcvd w' x = w_rcvd w x
              \<and> p_objs (el_poller w') x = p_objs (el_poller w) x)"
proof -
  let ?a = acceptChannel
  note i = inv [unfolded srv_inv_def]
  from i obtain h where h: "p_objs (el_poller w) ?a = Some h" "\<not> ch_tied h" by blast
  let ?w1 = "marked ?a True w"
  note m = mark_ok [OF inv _ h(1), of True]
  have w1: "srv_inv tid D (Some ?a) ?w1" "el_pendingFunctors ?w1 = el_pendingFunctors w" "w_conns ?w1 = w_conns w"
      "w_rcvd ?w1 = w_rcvd w" "static w ?w1" "\<And>x. x \<noteq> ?a \<Longrightarrow> p_objs (el_poller ?w1) x = p_objs (el_poller w) x"
      "revents_of ?a ?w1 = Some (ch_revents h)"
    using m h by (simp_all add: frame_def revents_of_def)
  let ?n = "nat (s_nextConnId ?w1)"
  note n = fresh_number [OF w1(1)]
  have read: "\<exists>w2. Acceptor_handleRead tid (sio_accept io) ?w1 = Some w2 \<and> srv_inv tid D (Some ?a) w2
      \<and> el_pendingFunctors w2 = el_pendingFunctors ?w1 \<and> grown ?n ?w1 w2"
  proof (cases "sio_accept io")
    case (Accepted fd)
    with acc have fd: "0 \<le> fd" "a_fd ?w1 \<noteq> fd" "\<forall>cid c. w_conns ?w1 cid = Some c \<longrightarrow> c_fd c \<noteq> fd" "s_nextConnId ?w1 + 1 < 2 ^ 31"
      using w1(3,5) by (auto simp: accept_ok_def static_def)
    have "Some ?a \<noteq> Some ?n" using n(1) by (simp add: acceptChannel_def)
    from newConnection_ok [OF w1(1) fd(3,2,4) this] obtain w2 where "newConnection tid fd ?w1 = Some w2"
      "srv_inv tid D (Some ?a) w2" "el_pendingFunctors w2 = el_pendingFunctors ?w1" "grown ?n ?w1 w2" by blast
    moreover have "Acceptor_handleRead tid (sio_accept io) ?w1 = newConnection tid fd ?w1"
      using Accepted fd(1) srv_inv_tid [OF w1(1)] w1(1) by (simp add: Acceptor_handleRead_def in_loop_defs sockets_accept_def srv_inv_def)
    ultimately show ?thesis by auto
  next
    case (AcceptError e)
    with acc have "Acceptor_handleRead tid (sio_accept io) ?w1 = Some ?w1"
      using srv_inv_tid [OF w1(1)] by (simp add: Acceptor_handleRead_def in_loop_defs sockets_accept_def accept_ok_def)
    with w1(1) show ?thesis by (intro exI [of _ ?w1]) (simp add: grown_def)
  qed
  let ?rd = "has (ch_revents h) (POLLIN OR POLLPRI OR POLLRDHUP)"
  obtain w2 where w2: "when_call ?rd (Some (Acceptor_handleRead tid (sio_accept io))) ?w1 = Some w2"
      "srv_inv tid D (Some ?a) w2" "el_pendingFunctors w2 = el_pendingFunctors ?w1" "grown ?n ?w1 w2"
  proof (cases ?rd)
    case True
    with read that show ?thesis by (auto simp: when_call_def)
  next
    case False
    with that [of ?w1] w1(1) show ?thesis by (simp add: when_call_def grown_def)
  qed
  have na: "?a \<noteq> ?n" using n(1) by (simp add: acceptChannel_def)
  then obtain h2 where h2: "p_objs (el_poller w2) ?a = Some h2" and r2: "revents_of ?a w2 = Some (ch_revents h)"
    using w2(4) w1(7) by (auto simp: grown_def revents_of_def)
  note u = mark_ok [OF w2(2) _ h2, of False]
  have skip: "when_call b None x = Some x" for b and x :: Server by (simp add: when_call_def)
  have "handleEvent server_alive (server_callbacks tid io) ?a t w = Some (marked ?a False w2)"
    using h m(1) w1(7) w2(1) r2 u(1)
    by (simp add: handleEvent_def handleEventWithGuard_def server_callbacks_def skip)
  moreover have "w_conns (marked ?a False w2) x = w_conns w x \<and> w_rcvd (marked ?a False w2) x = w_rcvd w x
      \<and> p_objs (el_poller (marked ?a False w2)) x = p_objs (el_poller w) x" if "x \<in> dom (w_conns w)" "x \<noteq> ?a" for x
  proof -
    have "x \<noteq> ?n" using that(1) n(2) w1(3) by auto
    with that u(3,5,6) w2(4) w1 show ?thesis by (simp add: grown_def frame_def)
  qed
  ultimately show ?thesis
    using u(2,4) w2(3) w1(2) pend by (intro exI [of _ "marked ?a False w2"]) simp
qed

section \<open>The event phase of a round\<close>

lemma srv_inv_loop_fields [simp]:
  "srv_inv tid D cur (w\<lparr>el_currentActiveChannel := a\<rparr>) = srv_inv tid D cur w"
  "srv_inv tid D cur (w\<lparr>el_eventHandling := b\<rparr>) = srv_inv tid D cur w"
  "srv_inv tid D cur (w\<lparr>el_callingPendingFunctors := b\<rparr>) = srv_inv tid D cur w"
  "srv_inv tid D cur (w\<lparr>el_pendingFunctors := fs\<rparr>) = srv_inv tid D cur w"
  "srv_inv tid D cur (w\<lparr>el_pollReturnTime := tm\<rparr>) = srv_inv tid D cur w"
  "srv_inv tid D cur (w\<lparr>el_activeChannels := act\<rparr>) = srv_inv tid D cur w"
  by (simp_all add: srv_inv_def)

lemma conn_ok_cong:
  "ch_fd h' = ch_fd h \<Longrightarrow> ch_index h' = ch_index h \<Longrightarrow> ch_events h' = ch_events h \<Longrightarrow> ch_tied h' = ch_tied h \<Longrightarrow>
   ch_tie h' = ch_tie h \<Longrightarrow> ch_addedToLoop h' = ch_addedToLoop h \<Longrightarrow> conn_ok D cid c h' s r = conn_ok D cid c h s r"
  by (simp add: conn_ok_def isReading_def isWriting_def isNoneEvent_def)

lemma srv_inv_poller:
  assumes inv: "srv_inv tid D cur w" and p: "poll_inv p'" "same_but_revents (el_poller w) p'"
  shows "srv_inv tid D cur (w\<lparr>el_poller := p'\<rparr>)"
proof (rule srv_invI)
  note i = inv [unfolded srv_inv_def]
  show "poll_inv (el_poller (w\<lparr>el_poller := p'\<rparr>))" using p by simp
  show "srv_fixed tid (w\<lparr>el_poller := p'\<rparr>)" using srv_inv_fixed [OF inv] by (simp add: srv_fixed_def)
  fix cid c
  assume "w_conns (w\<lparr>el_poller := p'\<rparr>) cid = Some c"
  then have c: "w_conns w cid = Some c" by simp
  obtain h where h: "p_objs (el_poller w) cid = Some h" "conn_ok D cid c h (w_sent w cid) (w_rcvd w cid)" "0 < cid"
      "int cid < s_nextConnId w" "c_name c = conn_name (s_name w) (s_ipPort w) (int cid)"
    by (rule srv_inv_conn [OF inv c])
  obtain h' where "p_objs p' cid = Some h'" "ch_fd h' = ch_fd h" "ch_index h' = ch_index h" "ch_events h' = ch_events h"
      "ch_tied h' = ch_tied h" "ch_tie h' = ch_tie h" "ch_addedToLoop h' = ch_addedToLoop h"
    by (rule same_but_revents_obj [OF p(2) h(1)])
  with h show "0 < cid \<and> int cid < s_nextConnId (w\<lparr>el_poller := p'\<rparr>)
      \<and> c_name c = conn_name (s_name (w\<lparr>el_poller := p'\<rparr>)) (s_ipPort (w\<lparr>el_poller := p'\<rparr>)) (int cid)
      \<and> (\<exists>h. p_objs (el_poller (w\<lparr>el_poller := p'\<rparr>)) cid = Some h
           \<and> conn_ok D cid c h (w_sent (w\<lparr>el_poller := p'\<rparr>) cid) (w_rcvd (w\<lparr>el_poller := p'\<rparr>) cid))"
    by (simp add: conn_ok_cong [of h' h])
next
  fix ch h'
  assume "p_objs (el_poller (w\<lparr>el_poller := p'\<rparr>)) ch = Some h'"
  then have h': "p_objs p' ch = Some h'" by simp
  then obtain h where h: "p_objs (el_poller w) ch = Some h"
    using same_but_revents_dom [OF p(2), of ch] by (metis option.exhaust)
  obtain h2 where "p_objs p' ch = Some h2" "ch_loop h2 = ch_loop h" "ch_eventHandling h2 = ch_eventHandling h"
    by (rule same_but_revents_obj [OF p(2) h])
  with h h' inv [unfolded srv_inv_def]
  show "(ch = acceptChannel \<or> w_conns (w\<lparr>el_poller := p'\<rparr>) ch \<noteq> None) \<and> ch_loop h' = el_id (w\<lparr>el_poller := p'\<rparr>)
      \<and> (ch_eventHandling h' \<longleftrightarrow> cur = Some ch)" by auto
next
  from inv obtain h where h: "p_objs (el_poller w) acceptChannel = Some h" "ch_fd h = a_fd w" "ch_index h = kAdded" "\<not> ch_tied h"
      "ch_addedToLoop h"
    unfolding srv_inv_def by blast
  obtain h2 where "p_objs p' acceptChannel = Some h2" "ch_fd h2 = ch_fd h" "ch_index h2 = ch_index h" "ch_tied h2 = ch_tied h"
      "ch_addedToLoop h2 = ch_addedToLoop h"
    by (rule same_but_revents_obj [OF p(2) h(1)])
  with h show "\<exists>h. p_objs (el_poller (w\<lparr>el_poller := p'\<rparr>)) acceptChannel = Some h \<and> ch_fd h = a_fd (w\<lparr>el_poller := p'\<rparr>)
      \<and> ch_index h = kAdded \<and> \<not> ch_tied h \<and> ch_addedToLoop h" by simp
qed (use inv in \<open>simp_all add: srv_inv_def\<close>)

text \<open>The channels still to be handled in this round.\<close>

definition to_handle :: "server_io \<Rightarrow> nat list \<Rightarrow> Server \<Rightarrow> bool" where
  "to_handle io chs w \<longleftrightarrow> distinct chs
     \<and> (\<forall>ch \<in> set chs. ch = acceptChannel \<or>
          (\<exists>c r. w_conns w ch = Some c \<and> c_state c = kConnected \<and> io_ok (sio_conn io ch) (length (w_rcvd w ch))
             \<and> revents_of ch w = Some r \<and> event_ok r))
     \<and> (acceptChannel \<in> set chs \<longrightarrow> accept_ok (sio_accept io) w)"

lemma accept_ok_current [simp]: "accept_ok r (w\<lparr>el_currentActiveChannel := x\<rparr>) = accept_ok r w"
  by (simp add: accept_ok_def split: accept_result.split)

lemma frame_accept_ok:
  assumes "frame cid w w'" and "accept_ok r w"
  shows "accept_ok r w'"
proof -
  have "c_fd c' \<noteq> fd" if "\<forall>x c. w_conns w x = Some c \<longrightarrow> c_fd c \<noteq> fd" "w_conns w' x = Some c'" for x c' fd
  proof (cases "x = cid")
    case True
    with assms(1) that(2) have "map_option c_fd (w_conns w cid) = Some (c_fd c')" by (simp add: frame_def)
    with that(1) show ?thesis by auto
  next
    case False
    with assms(1) that show ?thesis by (auto simp: frame_def)
  qed
  with assms show ?thesis by (auto simp: accept_ok_def frame_def static_def split: accept_result.splits)
qed

lemma handle_channels_ok:
  assumes "srv_inv tid D None w" and "pend_ok D (el_pendingFunctors w)" and "to_handle io chs w"
  shows "\<exists>w' D'. put_all (\<lambda>ch w. handleEvent server_alive (server_callbacks tid io) ch (el_pollReturnTime w) (w\<lparr>el_currentActiveChannel := Some ch\<rparr>)) chs w = Some w'
           \<and> srv_inv tid D' None w' \<and> pend_ok D' (el_pendingFunctors w')"
  using assms
proof (induction chs arbitrary: w D)
  case (Cons ch chs)
  let ?w = "w\<lparr>el_currentActiveChannel := Some ch\<rparr>"
  let ?f = "\<lambda>ch w. handleEvent server_alive (server_callbacks tid io) ch (el_pollReturnTime w) (w\<lparr>el_currentActiveChannel := Some ch\<rparr>)"
  have inv: "srv_inv tid D None ?w" and pend: "pend_ok D (el_pendingFunctors ?w)" using Cons.prems(1,2) by simp_all
  have "\<exists>w1 D1. ?f ch w = Some w1 \<and> srv_inv tid D1 None w1 \<and> pend_ok D1 (el_pendingFunctors w1) \<and> to_handle io chs w1"
  proof (cases "ch = acceptChannel")
    case True
    have "accept_ok (sio_accept io) ?w" using Cons.prems(3) True by (simp add: to_handle_def)
    from accept_event_ok [OF inv pend this, of "el_pollReturnTime w"] obtain w1 where
      w1: "?f ch w = Some w1" "srv_inv tid D None w1" "pend_ok D (el_pendingFunctors w1)"
      and old: "\<forall>x. x \<in> dom (w_conns ?w) \<longrightarrow> x \<noteq> acceptChannel \<longrightarrow> w_conns w1 x = w_conns ?w x \<and> w_rcvd w1 x = w_rcvd ?w x
              \<and> p_objs (el_poller w1) x = p_objs (el_poller ?w) x" unfolding True by blast
    have "to_handle io chs w1"
      unfolding to_handle_def
    proof (intro conjI ballI impI)
      show "distinct chs" using Cons.prems(3) by (simp add: to_handle_def)
    next
      fix x assume x: "x \<in> set chs"
      with Cons.prems(3) True have "x \<noteq> acceptChannel" by (auto simp: to_handle_def)
      moreover from this Cons.prems(3) x obtain c r where "w_conns w x = Some c" "c_state c = kConnected"
          "io_ok (sio_conn io x) (length (w_rcvd w x))" "revents_of x w = Some r" "event_ok r"
        by (auto simp: to_handle_def)
      ultimately show "x = acceptChannel \<or> (\<exists>c r. w_conns w1 x = Some c \<and> c_state c = kConnected
          \<and> io_ok (sio_conn io x) (length (w_rcvd w1 x)) \<and> revents_of x w1 = Some r \<and> event_ok r)"
        using old by (auto simp: revents_of_def)
    next
      assume "acceptChannel \<in> set chs"
      with Cons.prems(3) True show "accept_ok (sio_accept io) w1" by (simp add: to_handle_def)
    qed
    with w1 show ?thesis by blast
  next
    case False
    with Cons.prems(3) obtain c r where c: "w_conns ?w ch = Some c" "c_state c = kConnected"
        "io_ok (sio_conn io ch) (length (w_rcvd ?w ch))" "revents_of ch ?w = Some r" "event_ok r"
      by (auto simp: to_handle_def revents_of_def)
    have "handled tid D None ch ?w (?f ch w)" by (rule conn_event_ok [OF inv pend c])
    then obtain w1 D1 where w1: "?f ch w = Some w1" "srv_inv tid D1 None w1" "pend_ok D1 (el_pendingFunctors w1)" "frame ch ?w w1"
      by (rule handled_step)
    have "to_handle io chs w1"
      unfolding to_handle_def
    proof (intro conjI ballI impI)
      show "distinct chs" using Cons.prems(3) by (simp add: to_handle_def)
    next
      fix x assume x: "x \<in> set chs"
      with Cons.prems(3) have "x \<noteq> ch" by (auto simp: to_handle_def)
      with Cons.prems(3) x w1(4) show "x = acceptChannel \<or> (\<exists>c r. w_conns w1 x = Some c \<and> c_state c = kConnected
          \<and> io_ok (sio_conn io x) (length (w_rcvd w1 x)) \<and> revents_of x w1 = Some r \<and> event_ok r)"
        by (auto simp: to_handle_def frame_def revents_of_def)
    next
      assume "acceptChannel \<in> set chs"
      then have "accept_ok (sio_accept io) ?w" using Cons.prems(3) by (simp add: to_handle_def)
      with frame_accept_ok [OF w1(4)] show "accept_ok (sio_accept io) w1" by blast
    qed
    with w1 show ?thesis by blast
  qed
  with Cons.IH show ?case by fastforce
qed auto

section \<open>The functor phase and the release of closed connections\<close>

lemma closed_unregistered:
  assumes inv: "srv_inv tid D cur w" and c: "w_conns w cid = Some c" and "c_state c \<noteq> kConnected"
  shows "s_connections w (c_name c) = None"
proof (rule ccontr)
  assume "s_connections w (c_name c) \<noteq> None"
  then obtain x where "s_connections w (c_name c) = Some x" by blast
  then obtain cx where "w_conns w x = Some cx" "c_name cx = c_name c" "c_state cx = kConnected"
    using srv_inv_registered [OF inv] by blast
  with srv_inv_names [OF inv _ c] c assms(3) show False by (metis option.inject)
qed

lemma connectDestroyed_ok:
  assumes inv: "srv_inv tid D None w" and cid: "cid \<in> D" and idle: "\<not> el_eventHandling w"
  shows "\<exists>w'. connectDestroyed tid cid w = Some w' \<and> srv_inv tid (D - {cid}) None w'
           \<and> el_pendingFunctors w' = el_pendingFunctors w \<and> \<not> el_eventHandling w' \<and> w_conns w' = w_conns w"
proof -
  from inv cid obtain c where c: "w_conns w cid = Some c" unfolding srv_inv_def by blast
  obtain h where h: "p_objs (el_poller w) cid = Some h" "ch_loop h = el_id w" and ok: "conn_ok D cid c h (w_sent w cid) (w_rcvd w cid)"
    by (rule srv_inv_conn [OF inv c])
  note cok = ok [unfolded conn_ok_def]
  have st: "c_state c = kDisconnected" "isNoneEvent h" "ch_index h = kDeleted" "c_channel c = cid"
    using cok cid by (auto split: if_splits)
  have tid: "tid = el_threadId w" using srv_inv_tid [OF inv] by simp
  have ix: "ch_index h \<noteq> kNew" using st(3) by simp
  note rm = Channel_remove_ok [OF srv_inv_poll [OF inv] h tid st(2) ix]
  let ?w = "w\<lparr>el_poller := after_remove cid h (el_poller w)\<rparr>"
  have run: "connectDestroyed tid cid w = Some ?w"
    using c st rm(1) idle tid by (simp add: connectDestroyed_def in_loop_defs)
  have "srv_inv tid (D - {cid}) None ?w"
  proof (rule srv_inv_upd [OF inv c h(1), where c' = c and h' = "h\<lparr>ch_addedToLoop := False, ch_index := kNew\<rparr>"])
    show "conn_ok (D - {cid}) cid c (h\<lparr>ch_addedToLoop := False, ch_index := kNew\<rparr>) (w_sent ?w cid) (w_rcvd ?w cid)"
      using cok st by (simp add: conn_ok_def isNoneEvent_def)
    show "s_connections ?w = (if c_state c = kConnected then s_connections w else (s_connections w)(c_name c := None))"
      using closed_unregistered [OF inv c] st(1) by (simp add: fun_upd_idem)
  qed (use rm(2) idle c in \<open>auto simp: after_remove_def static_def fun_upd_idem\<close>)
  with run idle show ?thesis by (intro exI [of _ ?w]) simp
qed

text \<open>The server can run functors \<open>fs\<close> when they are the ones its closed connections need.\<close>

definition functors_ready :: "int \<Rightarrow> Functor list \<Rightarrow> Server \<Rightarrow> bool" where
  "functors_ready tid fs w \<longleftrightarrow> (\<exists>D. srv_inv tid D None w \<and> pend_ok D fs \<and> \<not> el_eventHandling w \<and> el_pendingFunctors w = [])"

lemma run_functor_ready:
  assumes "functors_ready tid (f # fs) w"
  shows "\<exists>w'. run_functor tid io f w = Some w' \<and> functors_ready tid fs w'"
proof -
  from assms obtain D where D: "srv_inv tid D None w" "pend_ok D (f # fs)" "\<not> el_eventHandling w" "el_pendingFunctors w = []"
    unfolding functors_ready_def by blast
  from D(2) obtain cid where "f = ConnectDestroyed cid \<or> f = WriteComplete cid" by (auto simp: pend_ok_def)
  then show ?thesis
  proof
    assume f: "f = ConnectDestroyed cid"
    with D(2) have "cid \<in> D" "pend_ok (D - {cid}) fs" by (auto simp: pend_ok_def)
    with connectDestroyed_ok [OF D(1) _ D(3), of cid] f D(4) show ?thesis unfolding functors_ready_def by auto
  next
    assume f: "f = WriteComplete cid"
    with D have "pend_ok D fs" by (auto simp: pend_ok_def)
    with f D show ?thesis unfolding functors_ready_def by (auto simp: defaultWriteCompleteCallback_def)
  qed
qed

interpretation srv: functor_runner "run_functor tid io" "functors_ready tid" for tid io
  by unfold_locales (blast intro: run_functor_ready, simp add: functors_ready_def)

lemma release_ok:
  assumes inv: "srv_inv tid {} None w" and pend: "el_pendingFunctors w = []"
  shows "\<exists>w'. release tid cid w = Some w' \<and> srv_inv tid {} None w' \<and> el_pendingFunctors w' = []
           \<and> (\<forall>x. w_conns w' x = (if x = cid \<and> (\<exists>c. w_conns w x = Some c \<and> c_state c \<noteq> kConnected) then None else w_conns w x))
           \<and> s_nextConnId w' = s_nextConnId w"
proof (cases "w_conns w cid")
  case None
  with inv pend show ?thesis by (intro exI [of _ w]) (simp add: release_def)
next
  case (Some c)
  show ?thesis
  proof (cases "c_state c = kConnected")
    case True
    then have "s_connections w (c_name c) = Some cid" using srv_inv_registered [OF inv] Some by blast
    with Some True inv pend show ?thesis by (intro exI [of _ w]) (auto simp: release_def referenced_def)
  next
    case False
    obtain h where h: "p_objs (el_poller w) cid = Some h" "ch_loop h = el_id w" "0 < cid"
      and ok: "conn_ok {} cid c h (w_sent w cid) (w_rcvd w cid)" by (rule srv_inv_conn [OF inv Some])
    note cok = ok [unfolded conn_ok_def]
    have st: "c_state c = kDisconnected" "ch_index h = kNew" "\<not> ch_addedToLoop h" "c_channel c = cid"
      using cok False by (auto split: if_splits)
    have quiet: "\<not> ch_eventHandling h" using inv h(1) unfolding srv_inv_def by blast
    note gone = closed_unregistered [OF inv Some False]
    have tid: "tid = el_threadId w" using srv_inv_tid [OF inv] by simp
    have unmapped: "p_channels (el_poller w) fd \<noteq> Some cid" for fd
      using srv_inv_poll [OF inv] h(1) by (cases rule: poll_inv_cases) (use st in auto)
    let ?p = "(el_poller w)\<lparr>p_objs := (p_objs (el_poller w))(cid := None)\<rparr>"
    let ?w = "w\<lparr>el_poller := ?p, w_conns := (w_conns w)(cid := None)\<rparr>"
    have run: "release tid cid w = Some ?w"
      using Some gone pend h st quiet tid unmapped
      by (simp add: release_def referenced_def delete_TcpConnection_def delete_Channel_def EventLoop_hasChannel_def
          Poller_hasChannel_def in_loop_defs)
    have "srv_inv tid {} None ?w"
    proof (rule srv_invI)
      show "poll_inv (el_poller ?w)" using poll_inv_drop_object [OF srv_inv_poll [OF inv] h(1) st(2)] by simp
      show "srv_fixed tid ?w" using srv_inv_fixed [OF inv] by (simp add: srv_fixed_def)
    next
      fix x cx assume "w_conns ?w x = Some cx"
      then have x: "x \<noteq> cid" "w_conns w x = Some cx" by (auto split: if_splits)
      obtain hx where "p_objs (el_poller w) x = Some hx" "conn_ok {} x cx hx (w_sent w x) (w_rcvd w x)" "0 < x"
          "int x < s_nextConnId w" "c_name cx = conn_name (s_name w) (s_ipPort w) (int x)"
        by (rule srv_inv_conn [OF inv x(2)])
      with x(1) show "0 < x \<and> int x < s_nextConnId ?w \<and> c_name cx = conn_name (s_name ?w) (s_ipPort ?w) (int x)
          \<and> (\<exists>h. p_objs (el_poller ?w) x = Some h \<and> conn_ok {} x cx h (w_sent ?w x) (w_rcvd ?w x))" by simp
    next
      fix ch hx assume "p_objs (el_poller ?w) ch = Some hx"
      then have "ch \<noteq> cid" "p_objs (el_poller w) ch = Some hx" by (auto split: if_splits)
      moreover from this(2) have "(ch = acceptChannel \<or> w_conns w ch \<noteq> None) \<and> ch_loop hx = el_id w \<and> (ch_eventHandling hx \<longleftrightarrow> None = Some ch)"
        using inv unfolding srv_inv_def by blast
      ultimately show "(ch = acceptChannel \<or> w_conns ?w ch \<noteq> None) \<and> ch_loop hx = el_id ?w \<and> (ch_eventHandling hx \<longleftrightarrow> None = Some ch)"
        by simp
    next
      show "\<exists>h. p_objs (el_poller ?w) acceptChannel = Some h \<and> ch_fd h = a_fd ?w \<and> ch_index h = kAdded \<and> \<not> ch_tied h \<and> ch_addedToLoop h"
        using inv h(3) by (simp add: srv_inv_def acceptChannel_def)
    next
      fix nm x
      show "s_connections ?w nm = Some x \<longleftrightarrow> (\<exists>c. w_conns ?w x = Some c \<and> c_name c = nm \<and> c_state c = kConnected)"
        using srv_inv_registered [OF inv, of nm x] Some False by auto
    qed simp
    with run Some False pend show ?thesis by (intro exI [of _ ?w]) auto
  qed
qed

text \<open>Releasing all connections drops exactly the closed ones.\<close>

lemma release_all_ok:
  assumes "srv_inv tid {} None w" and "el_pendingFunctors w = []"
  shows "\<exists>w'. put_all (release tid) cids w = Some w' \<and> srv_inv tid {} None w' \<and> el_pendingFunctors w' = []
           \<and> (\<forall>x c. w_conns w' x = Some c \<longrightarrow> w_conns w x = Some c \<and> (x \<in> set cids \<longrightarrow> c_state c = kConnected))
           \<and> s_nextConnId w' = s_nextConnId w"
  using assms
proof (induction cids arbitrary: w)
  case (Cons cid cids)
  from release_ok [OF Cons.prems, of cid] obtain w1 where w1: "release tid cid w = Some w1" "srv_inv tid {} None w1"
      "el_pendingFunctors w1 = []" "s_nextConnId w1 = s_nextConnId w"
      "\<forall>x. w_conns w1 x = (if x = cid \<and> (\<exists>c. w_conns w x = Some c \<and> c_state c \<noteq> kConnected) then None else w_conns w x)"
    by blast
  from Cons.IH [OF w1(2,3)] obtain w2 where w2: "put_all (release tid) cids w1 = Some w2" "srv_inv tid {} None w2"
      "el_pendingFunctors w2 = []" "s_nextConnId w2 = s_nextConnId w1"
      "\<forall>x c. w_conns w2 x = Some c \<longrightarrow> w_conns w1 x = Some c \<and> (x \<in> set cids \<longrightarrow> c_state c = kConnected)"
    by blast
  have "w_conns w x = Some c \<and> (x \<in> set (cid # cids) \<longrightarrow> c_state c = kConnected)" if "w_conns w2 x = Some c" for x c
    using w2(5) [rule_format, OF that] w1(5) [rule_format, of x] by (auto split: if_splits)
  with w1 w2 show ?case by auto
qed auto

section \<open>A round\<close>

text \<open>Between two rounds: no closed connection is left, nothing is queued.\<close>

definition server_ok :: "int \<Rightarrow> Server \<Rightarrow> bool" where
  "server_ok tid w \<longleftrightarrow> srv_inv tid {} None w \<and> el_pendingFunctors w = []
     \<and> (\<forall>cid c. w_conns w cid = Some c \<longrightarrow> c_state c = kConnected)"

text \<open>What the kernel promises for one round: \<^verbatim>\<open>epoll_wait\<close> reports registered channels once, system calls
  transfer at most what they are asked to, \<^verbatim>\<open>accept4\<close> gives a fresh descriptor or fails. The server
  handles fewer than \<open>2 ^ 31\<close> connections and at most \<^const>\<open>max_bytes\<close> bytes on each.\<close>

definition kernel_ok :: "server_io \<Rightarrow> (32 word \<times> nat) list \<Rightarrow> Server \<Rightarrow> bool" where
  "kernel_ok io evs w \<longleftrightarrow> wait_ok (el_poller w) evs \<and> (\<forall>cid. io_ok (sio_conn io cid) (length (w_rcvd w cid)))
     \<and> (acceptChannel \<in> snd ` set evs \<longrightarrow> (case sio_accept io of
          Accepted fd \<Rightarrow> 0 \<le> fd \<and> fd \<noteq> a_fd w \<and> (\<forall>cid c. w_conns w cid = Some c \<longrightarrow> c_fd c \<noteq> fd) \<and> s_nextConnId w + 1 < 2 ^ 31
        | AcceptError e \<Rightarrow> True))"

text \<open>The two things the server does not survive: a failure of \<^verbatim>\<open>accept4\<close> that \<^verbatim>\<open>sockets::accept\<close> does not
  expect, such as a full file table, and a hang-up
  reported without ordinary data but with priority data (or with \<^verbatim>\<open>POLLRDHUP\<close>), see \<^const>\<open>event_ok\<close>.\<close>

definition accept_fatal :: "server_io \<Rightarrow> (32 word \<times> nat) list \<Rightarrow> bool" where
  "accept_fatal io evs \<longleftrightarrow> acceptChannel \<in> snd ` set evs
     \<and> (case sio_accept io of Accepted fd \<Rightarrow> False | AcceptError e \<Rightarrow> e \<notin> expected_accept_errors)"

definition hangup_mixed :: "(32 word \<times> nat) list \<Rightarrow> bool" where
  "hangup_mixed evs \<longleftrightarrow> (\<exists>(r, ch) \<in> set evs. \<not> event_ok r)"

definition round_ok :: "server_io \<Rightarrow> (32 word \<times> nat) list \<Rightarrow> Server \<Rightarrow> bool" where
  "round_ok io evs w \<longleftrightarrow> kernel_ok io evs w \<and> \<not> accept_fatal io evs \<and> \<not> hangup_mixed evs"

lemma round_ok_parts:
  assumes "round_ok io evs w"
  shows "wait_ok (el_poller w) evs" "\<forall>(r, ch) \<in> set evs. event_ok r" "\<forall>cid. io_ok (sio_conn io cid) (length (w_rcvd w cid))"
    "acceptChannel \<in> snd ` set evs \<longrightarrow> accept_ok (sio_accept io) w"
  using assms by (auto simp: round_ok_def kernel_ok_def accept_fatal_def hangup_mixed_def accept_ok_def split: accept_result.splits)

lemma round_to_handle:
  assumes ok: "server_ok tid w" and rnd: "round_ok io evs w"
    and p: "same_but_revents (el_poller w) p'" "\<forall>(r, ch) \<in> set evs. \<exists>c. p_objs p' ch = Some c \<and> ch_revents c = r"
  shows "to_handle io (map snd evs) (w\<lparr>el_poller := p'\<rparr>)"
proof -
  have inv: "srv_inv tid {} None w" using ok by (simp add: server_ok_def)
  have "ch = acceptChannel \<or> (\<exists>c r. w_conns w ch = Some c \<and> c_state c = kConnected
      \<and> io_ok (sio_conn io ch) (length (w_rcvd w ch)) \<and> revents_of ch (w\<lparr>el_poller := p'\<rparr>) = Some r \<and> event_ok r)"
    if mem: "(r, ch) \<in> set evs" for r ch
  proof -
    from p(2) mem obtain h where h: "p_objs p' ch = Some h" "ch_revents h = r" by blast
    then have "p_objs (el_poller w) ch \<noteq> None" using same_but_revents_dom [OF p(1), of ch] by simp
    then have "ch = acceptChannel \<or> w_conns w ch \<noteq> None" using inv unfolding srv_inv_def by blast
    moreover have "event_ok r" "io_ok (sio_conn io ch) (length (w_rcvd w ch))"
      using round_ok_parts(2,3) [OF rnd] mem by auto
    ultimately show ?thesis using ok h by (auto simp: server_ok_def revents_of_def)
  qed
  then have each: "\<forall>x \<in> set evs. snd x = acceptChannel \<or> (\<exists>c r. w_conns w (snd x) = Some c \<and> c_state c = kConnected
      \<and> io_ok (sio_conn io (snd x)) (length (w_rcvd w (snd x))) \<and> revents_of (snd x) (w\<lparr>el_poller := p'\<rparr>) = Some r \<and> event_ok r)"
    by (metis prod.collapse)
  have "accept_ok (sio_accept io) (w\<lparr>el_poller := p'\<rparr>)" if "acceptChannel \<in> snd ` set evs"
    using round_ok_parts(4) [OF rnd] that by (auto simp: accept_ok_def split: accept_result.splits)
  moreover have "distinct (map snd evs)" using round_ok_parts(1) [OF rnd] by (simp add: wait_ok_def)
  ultimately show ?thesis using each by (simp add: to_handle_def)
qed

lemma to_handle_fields [simp]:
  "to_handle io chs (w\<lparr>el_pollReturnTime := tm\<rparr>) = to_handle io chs w"
  "to_handle io chs (w\<lparr>el_activeChannels := act\<rparr>) = to_handle io chs w"
  "to_handle io chs (w\<lparr>el_eventHandling := b\<rparr>) = to_handle io chs w"
  by (simp_all add: to_handle_def revents_of_def accept_ok_def split: accept_result.split)

lemma srv_inv_time: "srv_inv tid D cur (w\<lparr>el_pollReturnTime := tm, el_poller := p\<rparr>) = srv_inv tid D cur (w\<lparr>el_poller := p\<rparr>)"
  and to_handle_time: "to_handle io chs (w\<lparr>el_pollReturnTime := tm, el_poller := p\<rparr>) = to_handle io chs (w\<lparr>el_poller := p\<rparr>)"
  by (simp_all add: srv_inv_def to_handle_def revents_of_def accept_ok_def split: accept_result.split)

lemma loop_body_ok:
  assumes ok: "server_ok tid w" and rnd: "round_ok io evs w"
  shows "\<exists>w'. loop_body server_alive (server_callbacks tid io) (run_functor tid io) (Some evs) t w = Some w'
           \<and> srv_inv tid {} None w' \<and> el_pendingFunctors w' = []"
proof -
  have inv: "srv_inv tid {} None w" and pend: "el_pendingFunctors w = []" using ok by (simp_all add: server_ok_def)
  note wait = round_ok_parts(1) [OF rnd]
  obtain p' where p': "poll kPollTimeMs (Some evs) t (el_poller w, []) = Some (t, p', map snd evs)" "poll_inv p'"
      "same_but_revents (el_poller w) p'" "\<forall>(r, ch) \<in> set evs. \<exists>c. p_objs p' ch = Some c \<and> ch_revents c = r"
    by (rule poll_ok [OF srv_inv_poll [OF inv] wait])
  let ?w1 = "w\<lparr>el_pollReturnTime := t, el_poller := p', el_activeChannels := map snd evs, el_eventHandling := True\<rparr>"
  have w1: "srv_inv tid {} None ?w1" "pend_ok {} (el_pendingFunctors ?w1)" "to_handle io (map snd evs) ?w1"
    using srv_inv_poller [OF inv p'(2,3)] round_to_handle [OF ok rnd p'(3,4)] pend
    by (simp_all add: pend_ok_def srv_inv_time to_handle_time)
  from handle_channels_ok [OF w1] obtain w2 D where
    w2: "put_all (\<lambda>ch w. handleEvent server_alive (server_callbacks tid io) ch (el_pollReturnTime w)
            (w\<lparr>el_currentActiveChannel := Some ch\<rparr>)) (map snd evs) ?w1 = Some w2"
      "srv_inv tid D None w2" "pend_ok D (el_pendingFunctors w2)" by blast
  let ?w3 = "w2\<lparr>el_currentActiveChannel := None, el_eventHandling := False\<rparr>"
  have "functors_ready tid (el_pendingFunctors ?w3) (?w3\<lparr>el_pendingFunctors := []\<rparr>)"
    using w2(2,3) unfolding functors_ready_def by (intro exI [of _ D]) simp
  from srv.drain [OF this] obtain w4 where w4: "doPendingFunctors (run_functor tid io) ?w3 = Some w4" "functors_ready tid [] w4"
    by blast
  from w4(2) have "srv_inv tid {} None w4" "el_pendingFunctors w4 = []"
    unfolding functors_ready_def pend_ok_def by auto
  moreover have "loop_body server_alive (server_callbacks tid io) (run_functor tid io) (Some evs) t w = Some w4"
    using p'(1) w2(1) w4(1) by (simp add: loop_body_def)
  ultimately show ?thesis by blast
qed

lemma server_round_ok:
  assumes ok: "server_ok tid w" and rnd: "round_ok io evs w"
  shows "\<exists>w'. server_round tid io (Some evs) t w = Some w' \<and> server_ok tid w'"
proof -
  from loop_body_ok [OF assms] obtain w1 where
    w1: "loop_body server_alive (server_callbacks tid io) (run_functor tid io) (Some evs) t w = Some w1"
      "srv_inv tid {} None w1" "el_pendingFunctors w1 = []" by blast
  from release_all_ok [OF w1(2,3), of "[1..<nat (s_nextConnId w1)]"] obtain w2 where
    w2: "put_all (release tid) [1..<nat (s_nextConnId w1)] w1 = Some w2" "srv_inv tid {} None w2" "el_pendingFunctors w2 = []"
      "\<forall>x c. w_conns w2 x = Some c \<longrightarrow> w_conns w1 x = Some c \<and> (x \<in> set [1..<nat (s_nextConnId w1)] \<longrightarrow> c_state c = kConnected)"
    by blast
  have "c_state c = kConnected" if "w_conns w2 x = Some c" for x c
  proof -
    from w2(4) that have c: "w_conns w1 x = Some c" by blast
    obtain h where "0 < x" "int x < s_nextConnId w1" by (rule srv_inv_conn [OF w1(2) c])
    then have "x \<in> set [1..<nat (s_nextConnId w1)]" by auto
    with w2(4) that show ?thesis by blast
  qed
  with w1(1) w2 show ?thesis by (simp add: server_round_def server_ok_def)
qed

text \<open>The state before the first round.\<close>

lemma main_init_ok:
  assumes "main_init tid ipPort epollfd sockfd = Some w" and "length ipPort \<le> 40"
  shows "server_ok tid w"
proof -
  let ?h = "new_Channel 0 sockfd"
  from assms(1) obtain p where p: "new_EPollPoller epollfd = Some p" and fd: "0 \<le> sockfd"
    by (auto simp: main_init_def new_EventLoop_def new_TcpServer_def alloc_Channel_def abort_elims split: if_splits)
  note none = new_EPollPoller_objs [OF p]
  let ?p = "p\<lparr>p_objs := (p_objs p)(acceptChannel \<mapsto> ?h)\<rparr>"
  let ?w0 = "\<lparr>el_id = 0, el_looping = False, el_quit = False, el_eventHandling = False,
        el_callingPendingFunctors = False, el_threadId = tid, el_pollReturnTime = Timestamp_invalid,
        el_poller = ?p, el_activeChannels = [], el_currentActiveChannel = None, el_pendingFunctors = [],
        w_conns = Map.empty, w_rcvd = (\<lambda>_. []), w_sent = (\<lambda>_. []), w_shut = (\<lambda>_. False),
        s_name = ''TcpServer'', s_ipPort = ipPort, s_started = 1, s_nextConnId = 1, s_connections = Map.empty,
        s_threadPool = (new_Pool 0 ''TcpServer'')\<lparr>started := True\<rparr>, a_fd = sockfd, a_listenning = True, a_newConnectionCB = True\<rparr> :: Server"
  have p0: "poll_inv (el_poller ?w0)" "p_objs (el_poller ?w0) acceptChannel = Some ?h" "ch_loop ?h = el_id ?w0"
      "tid = el_threadId ?w0" "ch_index ?h = kNew \<Longrightarrow> p_channels (el_poller ?w0) (ch_fd ?h) = None"
    using poll_inv_add_object [OF poll_inv_new [OF p] none] p
    by (auto simp: new_Channel_def new_EPollPoller_def split: if_splits)
  let ?q = "after_update acceptChannel (with_interest EnableReading ?h) ?p"
  have upd: "set_interest tid EnableReading acceptChannel ?w0 = Some (?w0\<lparr>el_poller := ?q\<rparr>)" "poll_inv ?q"
    using set_interest_ok [OF p0, of EnableReading] by simp_all
  have w: "w = ?w0\<lparr>el_poller := ?q\<rparr>"
    using assms(1) p fd none upd(1)
    by (simp add: main_init_def new_EventLoop_def new_TcpServer_def alloc_Channel_def Let_def start_def getAndSet_def
        Pool_start_def new_Pool_def in_loop_defs Acceptor_listen_def)
  have read: "isReading (with_interest EnableReading ?h)" "\<not> isNoneEvent (with_interest EnableReading ?h)"
    using apply_interest_read(1) [of "ch_events ?h"]
    by (auto simp: isReading_def isNoneEvent_def kNoneEvent_def with_interest_def has_def simp del: apply_interest.simps)
  have obj: "p_objs ?q = (p_objs p)(acceptChannel \<mapsto> set_index kAdded (with_interest EnableReading ?h))"
    using read by (simp add: after_update_def Let_def new_Channel_def)
  have "srv_inv tid {} None w"
    unfolding w
  proof (rule srv_invI)
    fix ch h assume "p_objs (el_poller (?w0\<lparr>el_poller := ?q\<rparr>)) ch = Some h"
    with none have "ch = acceptChannel \<and> h = set_index kAdded (with_interest EnableReading ?h)"
      by (simp add: obj split: if_splits)
    then show "(ch = acceptChannel \<or> w_conns (?w0\<lparr>el_poller := ?q\<rparr>) ch \<noteq> None) \<and> ch_loop h = el_id (?w0\<lparr>el_poller := ?q\<rparr>)
        \<and> (ch_eventHandling h \<longleftrightarrow> None = Some ch)" by (simp add: new_Channel_def with_interest_def set_index_def)
  next
    show "\<exists>h. p_objs (el_poller (?w0\<lparr>el_poller := ?q\<rparr>)) acceptChannel = Some h \<and> ch_fd h = a_fd (?w0\<lparr>el_poller := ?q\<rparr>)
        \<and> ch_index h = kAdded \<and> \<not> ch_tied h \<and> ch_addedToLoop h"
      by (simp add: obj) (simp add: new_Channel_def)
  qed (use upd(2) assms(2) in \<open>simp_all add: srv_fixed_def new_Pool_def\<close>)
  then show ?thesis by (simp add: server_ok_def w)
qed

section \<open>The program\<close>

inductive server_reach :: "int \<Rightarrow> Server \<Rightarrow> bool" for tid where
  init: "main_init tid ipPort epollfd sockfd = Some w \<Longrightarrow> length ipPort \<le> 40 \<Longrightarrow> server_reach tid w"
| round: "server_reach tid w \<Longrightarrow> round_ok io evs w \<Longrightarrow> server_round tid io (Some evs) t w = Some w' \<Longrightarrow> server_reach tid w'"

lemma server_reach_ok: "server_reach tid w \<Longrightarrow> server_ok tid w"
proof (induction rule: server_reach.induct)
  case (round w io evs t w')
  with server_round_ok [OF round.IH round.hyps(2), of t] show ?case by simp
qed (rule main_init_ok)

text \<open>An error of \<^verbatim>\<open>epoll_wait\<close> is logged; the round is one without events.\<close>

lemma server_round_error: "server_round tid io None t w = server_round tid io (Some []) t w"
  by (simp add: server_round_def loop_body_def poll_def)

text \<open>C1: the server of \<^verbatim>\<open>main.cpp\<close> echoes. In every state it reaches by rounds without the two cases below, a further
  round of the loop (with an unused descriptor for a new connection, memory for what arrives and fewer than
  2^31 connections so far) ends in a failing assertion, a fatal log or a stale pointer at most in two cases: \<^verbatim>\<open>accept4\<close> fails with an error
  that \<^verbatim>\<open>sockets::accept\<close> does not expect, or a hang-up is reported together with priority data but no
  ordinary data (lemmas \<open>accept_error_aborts\<close> and \<open>double_close\<close> show that both do abort). Every live
  connection is connected and registered with the poller for reading; the bytes the kernel took from it
  followed by the bytes in its output buffer are exactly the bytes it received, and it waits for
  writability exactly when its output buffer is not empty.\<close>

theorem echo_server:
  assumes "server_reach tid w"
  shows "(\<forall>io evs t. kernel_ok io evs w \<longrightarrow>
         server_round tid io (Some evs) t w \<noteq> None \<or> accept_fatal io evs \<or> hangup_mixed evs)
    \<and> (\<forall>io t. kernel_ok io [] w \<longrightarrow> server_round tid io None t w \<noteq> None)
    \<and> (\<forall>cid c. w_conns w cid = Some c \<longrightarrow> c_state c = kConnected
         \<and> w_sent w cid @ content (c_outputBuffer c) = w_rcvd w cid
         \<and> (\<exists>h. p_objs (el_poller w) cid = Some h \<and> p_kernel (el_poller w) (c_fd c) = Some (ch_events h, cid)
              \<and> isReading h \<and> (isWriting h \<longleftrightarrow> content (c_outputBuffer c) \<noteq> [])))"
proof -
  note ok = server_reach_ok [OF assms]
  have inv: "srv_inv tid {} None w" using ok by (simp add: server_ok_def)
  have rnd: "server_round tid io (Some evs) t w \<noteq> None \<or> accept_fatal io evs \<or> hangup_mixed evs" if "kernel_ok io evs w" for io evs t
    using server_round_ok [OF ok, of io evs t] that by (auto simp: round_ok_def)
  moreover have "server_round tid io None t w \<noteq> None" if "kernel_ok io [] w" for io t
    using rnd [OF that, of t] by (simp add: server_round_error accept_fatal_def hangup_mixed_def)
  moreover have "c_state c = kConnected \<and> w_sent w cid @ content (c_outputBuffer c) = w_rcvd w cid
      \<and> (\<exists>h. p_objs (el_poller w) cid = Some h \<and> p_kernel (el_poller w) (c_fd c) = Some (ch_events h, cid)
           \<and> isReading h \<and> (isWriting h \<longleftrightarrow> content (c_outputBuffer c) \<noteq> []))" if c: "w_conns w cid = Some c" for cid c
  proof -
    have st: "c_state c = kConnected" using ok c by (simp add: server_ok_def)
    obtain h where h: "p_objs (el_poller w) cid = Some h" and "conn_ok {} cid c h (w_sent w cid) (w_rcvd w cid)"
      by (rule srv_inv_conn [OF inv c])
    then have h': "ch_index h = kAdded" "ch_fd h = c_fd c" "isReading h" "isWriting h \<longleftrightarrow> content (c_outputBuffer c) \<noteq> []"
        "w_sent w cid @ content (c_outputBuffer c) = w_rcvd w cid"
      using st unfolding conn_ok_def by (auto split: if_splits)
    have "p_kernel (el_poller w) (ch_fd h) = Some (ch_events h, cid)"
      using srv_inv_poll [OF inv] h by (cases rule: poll_inv_cases) (use h'(1) in auto)
    with st h h' show ?thesis by auto
  qed
  ultimately show ?thesis by blast
qed

text \<open>A run: a client connects, sends two bytes, and the kernel takes one of them.\<close>

definition ex_init :: Server where
  "ex_init = the (main_init 7 ''0.0.0.0:9981'' 3 4)"

definition ex_io :: server_io where
  "ex_io = \<lparr>sio_conn = (\<lambda>_. \<lparr>io_readv = (\<lambda>iov. ReadvData (take (sum_list iov) ''hi'')),
                              io_write = (\<lambda>bytes. Wrote (min 1 (length bytes)))\<rparr>), sio_accept = Accepted 5\<rparr>"

lemma ex_init_eq: "main_init 7 ''0.0.0.0:9981'' 3 4 = Some ex_init"
  and ex_init_kernel: "p_kernel (el_poller ex_init) 4 = Some (kReadEvent, 0)" "p_events_size (el_poller ex_init) = 16"
    "w_conns ex_init = Map.empty" "w_rcvd ex_init = (\<lambda>_. [])" "a_fd ex_init = 4" "s_nextConnId ex_init = 1"
  by (simp_all add: ex_init_def main_init_def new_EventLoop_def new_EPollPoller_def new_TcpServer_def alloc_Channel_def Let_def
      start_def getAndSet_def Pool_start_def new_Pool_def in_loop_defs Acceptor_listen_def set_interest_def on_chan_def
      on_channel_def Channel_update_def EventLoop_updateChannel_def updateChannel_def poller_update_def set_index_def
      new_Channel_def index_defs kInitEventListSize_def acceptChannel_def)

lemma ex_init_reach: "server_reach 7 ex_init"
  by (rule server_reach.init [OF ex_init_eq]) simp

lemma ex_round: "round_ok ex_io [(1, 0)] ex_init"
proof -
  have "wait_ok (el_poller ex_init) [(1, 0)]"
  proof -
    have "(1::32 word) AND NOT (kReadEvent OR POLLERR OR POLLHUP) = 0"
      by (simp add: kReadEvent_def POLLIN_def POLLPRI_def POLLERR_def POLLHUP_def)
    then have "\<exists>fd ev. p_kernel (el_poller ex_init) fd = Some (ev, 0) \<and> (1::32 word) AND NOT (ev OR POLLERR OR POLLHUP) = 0"
      using ex_init_kernel(1) by blast
    then show ?thesis by (simp add: wait_ok_def ex_init_kernel)
  qed
  moreover have "event_ok 1" by (simp add: event_ok_def has_bits bit_simps)
  ultimately show ?thesis
    by (auto simp: round_ok_def kernel_ok_def accept_fatal_def hangup_mixed_def ex_io_def io_ok_def write_ok_def ex_init_kernel
        max_bytes_def)
qed

definition ex_buf :: Buffer where
  "ex_buf = the (new_Buffer kInitialSize)"

lemma ex_buf: "new_Buffer kInitialSize = Some ex_buf" "content ex_buf = []"
  using new_Buffer_ok [of kInitialSize] by (auto simp: ex_buf_def kCheapPrepend_def kInitialSize_def vec_max_def)

lemmas ex_run_defs =
  server_round_def loop_body_def poll_def fillActiveChannels_def fillActiveChannel_def on_channel_def set_revents_def
  handleEvent_def handleEventWithGuard_def when_call_def server_callbacks_def acceptChannel_def on_chan_def revents_of_def
  has_def POLLIN_def POLLHUP_def POLLPRI_def POLLERR_def POLLNVAL_def POLLRDHUP_def POLLOUT_def Acceptor_handleRead_def
  sockets_accept_def ex_io_def newConnection_def getNextLoop_def in_loop_defs new_TcpConnection_def alloc_Channel_def
  new_Channel_def Let_def index_defs set_callbacks_def connectEstablished_def setState_def set_conn_def tie_def
  set_interest_def Channel_update_def EventLoop_updateChannel_def updateChannel_def poller_update_def set_index_def
  connectionCallback_def doPendingFunctors_def kReadEvent_def release_def referenced_def

definition ex_conn :: Server where
  "ex_conn = the (server_round 7 ex_io (Some [(1, 0)]) (Timestamp 0) ex_init)"

definition ex_c :: TcpConnection where
  "ex_c = \<lparr>c_state = kConnected, c_name = conn_name ''TcpServer'' ''0.0.0.0:9981'' 1, c_reading = True, c_fd = 5,
     c_channel = 1, c_connectionCallback = True, c_messageCallback = True, c_closeCallback = True,
     c_writecompleteCB = True, c_inputBuffer = ex_buf, c_outputBuffer = ex_buf\<rparr>"

lemma ex_init_value:
  "ex_init =
     \<lparr>el_id = 0, el_looping = False, el_quit = False, el_eventHandling = False, el_callingPendingFunctors = False,
      el_threadId = 7, el_pollReturnTime = Timestamp_invalid,
      el_poller = \<lparr>p_channels = [4 \<mapsto> 0],
        p_objs = [0 \<mapsto> \<lparr>ch_loop = 0, ch_fd = 4, ch_events = 3, ch_revents = 0, ch_index = 1, ch_eventHandling = False,
                         ch_addedToLoop = True, ch_tied = False, ch_tie = None\<rparr>],
        p_kernel = [4 \<mapsto> (3, 0)], p_events_size = 16\<rparr>,
      el_activeChannels = [], el_currentActiveChannel = None, el_pendingFunctors = [],
      w_conns = Map.empty, w_rcvd = (\<lambda>_. []), w_sent = (\<lambda>_. []), w_shut = (\<lambda>_. False),
      s_name = ''TcpServer'', s_ipPort = ''0.0.0.0:9981'', s_started = 1, s_nextConnId = 1, s_connections = Map.empty,
      s_threadPool = \<lparr>baseLoop = 0, pool_name = ''TcpServer'', started = True, numThreads = 0, pool_next = 0,
                      threads = [], loops = []\<rparr>,
      a_fd = 4, a_listenning = True, a_newConnectionCB = True\<rparr>"
  by (simp add: ex_init_def main_init_def new_EventLoop_def new_EPollPoller_def new_TcpServer_def start_def getAndSet_def
      Pool_start_def new_Pool_def Acceptor_listen_def kInitEventListSize_def ex_run_defs)

lemma ex_conn_eq: "server_round 7 ex_io (Some [(1, 0)]) (Timestamp 0) ex_init = Some ex_conn"
  and ex_conn_conns: "w_conns ex_conn = [1 \<mapsto> ex_c]" "w_rcvd ex_conn 1 = []" "w_sent ex_conn 1 = []"
  by (simp_all add: ex_conn_def ex_init_value ex_c_def ex_run_defs ex_buf upt_rec)

lemma ex_conn_reach: "server_reach 7 ex_conn"
  by (rule server_reach.round [OF ex_init_reach ex_round ex_conn_eq])

lemma ex_conn_value:
  "ex_conn = ex_init\<lparr>
      el_poller := \<lparr>p_channels = [4 \<mapsto> 0, 5 \<mapsto> 1],
        p_objs = [0 \<mapsto> \<lparr>ch_loop = 0, ch_fd = 4, ch_events = 3, ch_revents = 1, ch_index = 1, ch_eventHandling = False,
                         ch_addedToLoop = True, ch_tied = False, ch_tie = None\<rparr>,
                  1 \<mapsto> \<lparr>ch_loop = 0, ch_fd = 5, ch_events = 3, ch_revents = 0, ch_index = 1, ch_eventHandling = False,
                         ch_addedToLoop = True, ch_tied = True, ch_tie = Some 1\<rparr>],
        p_kernel = [4 \<mapsto> (3, 0), 5 \<mapsto> (3, 1)], p_events_size = 16\<rparr>,
      el_pollReturnTime := Timestamp 0, el_activeChannels := [0], 
      w_conns := [1 \<mapsto> ex_c], s_nextConnId := 2, s_connections := [conn_name ''TcpServer'' ''0.0.0.0:9981'' 1 \<mapsto> 1]\<rparr>"
  by (simp add: ex_conn_def ex_init_value ex_c_def ex_run_defs ex_buf upt_rec fun_eq_iff)

text \<open>The input and the output buffer after two bytes came in.\<close>

definition ex_in :: Buffer where
  "ex_in = ex_buf\<lparr>buffer := blit 8 ''hi'' (buffer ex_buf), writerIndex := 10\<rparr>"

lemma ex_buf_value: "ex_buf = \<lparr>buffer = replicate 1032 (CHR 0x00), readerIndex = 8, writerIndex = 8\<rparr>"
  by (simp add: ex_buf_def new_Buffer_def kCheapPrepend_def kInitialSize_def buf_defs Let_def)

lemma ex_in_ops:
  "readFd (\<lambda>iov. ReadvData (take (sum_list iov) ''hi'')) ex_buf = Some (2, None, ex_in)"
  "readFd_iov ex_buf = [1024, 65536]"
  "retrieveAllAsString ex_in = Some (''hi'', ex_in\<lparr>writerIndex := 8\<rparr>)"
  "Buffer_append ''hi'' ex_buf = Some ex_in" "readableBytes ex_buf = 0" "readableBytes ex_in = 2"
  "retrieve (Suc 0) ex_in = Some (ex_in\<lparr>readerIndex := 9\<rparr>)"
  "subrange (peek ex_in) 2 (buffer ex_in) = ''hi''" "content ex_in = ''hi''" "content (ex_in\<lparr>readerIndex := 9\<rparr>) = ''i''" "readableBytes (ex_in\<lparr>readerIndex := 9\<rparr>) = Suc 0"
  by (simp_all add: ex_buf_value ex_in_def readFd_def readFd_iov_def buf_defs extrabuf_size_def Let_def retrieveAllAsString_def retrieveAsString_def
    retrieve_def retrieveAll_def Buffer_append_def ensureWritableBytes_def hasWritten_def content_def subrange_def blit_def)

lemmas ex_io_defs = ex_run_defs ex_in_ops conn_callbacks_def handleRead_def handleWrite_def kernel_gives_def kernel_takes_def
  defaultMessageCallback_def send_def sendInLoop_def sendInLoopEX_def server_alive_def isWriting_def kWriteEvent_def
  queueInLoop_def defaultWriteCompleteCallback_def kNoneEvent_def isNoneEvent_def

text \<open>A second round: the client has sent two bytes, which are read and buffered for output.\<close>

definition ex_echo :: Server where
  "ex_echo = the (server_round 7 ex_io (Some [(1, 1)]) (Timestamp 1) ex_conn)"

definition ex_c2 :: TcpConnection where
  "ex_c2 = ex_c\<lparr>c_inputBuffer := ex_in\<lparr>writerIndex := 8\<rparr>, c_outputBuffer := ex_in\<rparr>"

lemma ex_echo_value:
  "ex_echo = ex_conn\<lparr>
      el_poller := \<lparr>p_channels = [4 \<mapsto> 0, 5 \<mapsto> 1],
        p_objs = [0 \<mapsto> \<lparr>ch_loop = 0, ch_fd = 4, ch_events = 3, ch_revents = 1, ch_index = 1, ch_eventHandling = False,
                         ch_addedToLoop = True, ch_tied = False, ch_tie = None\<rparr>,
                  1 \<mapsto> \<lparr>ch_loop = 0, ch_fd = 5, ch_events = 7, ch_revents = 1, ch_index = 1, ch_eventHandling = False,
                         ch_addedToLoop = True, ch_tied = True, ch_tie = Some 1\<rparr>],
        p_kernel = [4 \<mapsto> (3, 0), 5 \<mapsto> (7, 1)], p_events_size = 16\<rparr>,
      el_pollReturnTime := Timestamp 1, el_activeChannels := [1],
      w_conns := [1 \<mapsto> ex_c2], w_rcvd := (\<lambda>_. [])(1 := ''hi'')\<rparr>"
  and ex_echo_eq: "server_round 7 ex_io (Some [(1, 1)]) (Timestamp 1) ex_conn = Some ex_echo"
  by (simp_all add: ex_echo_def ex_conn_value ex_init_value ex_c_def ex_c2_def ex_io_defs upt_rec fun_eq_iff)

text \<open>A third round: the socket is writable, and the kernel takes one byte.\<close>

definition ex_half :: Server where
  "ex_half = the (server_round 7 ex_io (Some [(4, 1)]) (Timestamp 2) ex_echo)"

definition ex_c3 :: TcpConnection where
  "ex_c3 = ex_c2\<lparr>c_outputBuffer := ex_in\<lparr>readerIndex := 9\<rparr>\<rparr>"

lemma ex_half_value:
  "w_conns ex_half = [1 \<mapsto> ex_c3]" "w_rcvd ex_half 1 = ''hi''" "w_sent ex_half 1 = ''h''"
  and ex_half_eq: "server_round 7 ex_io (Some [(4, 1)]) (Timestamp 2) ex_echo = Some ex_half"
  by (simp_all add: ex_half_def ex_echo_value ex_conn_value ex_init_value ex_c_def ex_c2_def ex_c3_def ex_io_defs upt_rec fun_eq_iff)

lemma ex_io_ok: "(\<And>cid. length (w_rcvd w cid) \<le> 2) \<Longrightarrow> io_ok (sio_conn ex_io cid) (length (w_rcvd w cid))"
proof -
  assume "\<And>cid. length (w_rcvd w cid) \<le> 2"
  then have "length (w_rcvd w cid) \<le> 2" .
  then show ?thesis by (auto simp: io_ok_def write_ok_def ex_io_def max_bytes_def)
qed

lemma ex_conn_event:
  assumes "p_kernel (el_poller w) 5 = Some (ev, 1)" and "(r::32 word) AND NOT (ev OR POLLERR OR POLLHUP) = 0" and "r \<noteq> 0" and "event_ok r"
    and "p_events_size (el_poller w) = 16" and "\<And>cid. length (w_rcvd w cid) \<le> 2"
  shows "round_ok ex_io [(r, 1)] w"
proof -
  have "wait_ok (el_poller w) [(r, 1)]"
    using assms(1,2,3,5) by (auto simp: wait_ok_def)
  with assms(4) ex_io_ok [OF assms(6)] show ?thesis
    by (simp add: round_ok_def kernel_ok_def accept_fatal_def hangup_mixed_def acceptChannel_def)
qed

lemma ex_echo_reach: "server_reach 7 ex_echo"
proof (rule server_reach.round [OF ex_conn_reach _ ex_echo_eq])
  show "round_ok ex_io [(1, 1)] ex_conn"
    by (rule ex_conn_event [of _ 3]) (simp_all add: ex_conn_value ex_init_value POLLERR_def POLLHUP_def event_ok_def has_bits bit_simps)
qed

lemma ex_half_reach: "server_reach 7 ex_half"
proof (rule server_reach.round [OF ex_echo_reach _ ex_half_eq])
  show "round_ok ex_io [(4, 1)] ex_echo"
    by (rule ex_conn_event [of _ 7]) (simp_all add: ex_echo_value ex_conn_value ex_init_value POLLERR_def POLLHUP_def event_ok_def has_def POLLPRI_def POLLRDHUP_def POLLIN_def)
qed

theorem echo_server_witness:
  "w_conns ex_half 1 = Some ex_c3 \<and> w_rcvd ex_half 1 = ''hi'' \<and> w_sent ex_half 1 = ''h'' \<and> content (c_outputBuffer ex_c3) = ''i''
     \<and> w_sent ex_half 1 @ content (c_outputBuffer ex_c3) = w_rcvd ex_half 1"
proof -
  have "w_conns ex_half 1 = Some ex_c3" by (simp add: ex_half_value(1))
  moreover from this echo_server [OF ex_half_reach] have "w_sent ex_half 1 @ content (c_outputBuffer ex_c3) = w_rcvd ex_half 1" by blast
  moreover have "content (c_outputBuffer ex_c3) = ''i''" by (simp add: ex_c3_def ex_in_ops)
  ultimately show ?thesis using ex_half_value(2,3) by blast
qed

section \<open>Draining the output\<close>

lemma set_interest_only: "set_interest tid i ch l = Some l' \<Longrightarrow> \<exists>p. l' = l\<lparr>el_poller := p\<rparr>"
  by (auto simp: set_interest_def Channel_update_def EventLoop_updateChannel_def on_chan_def abort_elims in_loop_defs
      split: if_splits)

lemma shutdownInLoop_only:
  assumes "shutdownInLoop tid cid w = Some w'"
  shows "w' = w \<or> w' = w\<lparr>w_shut := (w_shut w)(cid := True)\<rparr>"
proof -
  from assms obtain c h where "(if \<not> isWriting h then Some (w\<lparr>w_shut := (w_shut w)(cid := True)\<rparr>) else Some w) = Some w'"
    by (auto simp: shutdownInLoop_def abort_elims)
  then show ?thesis by (cases "isWriting h") auto
qed

lemma handleWrite_effect:
  assumes "handleWrite tid io cid w = Some w'" and "w_conns w cid = Some c" and "p_objs (el_poller w) (c_channel c) = Some h"
    and "isWriting h" and "io_write io (content (c_outputBuffer c)) = Wrote n"
  shows "w_sent w' cid = w_sent w cid @ take n (content (c_outputBuffer c)) \<and> w_rcvd w' = w_rcvd w
    \<and> (\<exists>c'. w_conns w' cid = Some c' \<and> c_state c' = c_state c)"
proof -
  let ?out = "c_outputBuffer c"
  have bytes: "subrange (peek ?out) (readableBytes ?out) (buffer ?out) = content ?out"
    by (simp add: content_def buf_defs)
  let ?w1 = "\<lambda>outb. set_conn cid (c\<lparr>c_outputBuffer := outb\<rparr>) (kernel_takes cid (take n (content ?out)) w)"
  let ?done = "\<lambda>w2. let w3 = if c_writecompleteCB c then queueInLoop (WriteComplete cid) w2 else w2
      in if c_state c = kDisconnecting then shutdownInLoop tid cid w3 else Some w3"
  have keep: "?done w2 = Some w3 \<Longrightarrow> w_sent w3 = w_sent w2 \<and> w_rcvd w3 = w_rcvd w2 \<and> w_conns w3 = w_conns w2" for w2 w3
  proof -
    assume fin: "?done w2 = Some w3"
    define q where "q = (if c_writecompleteCB c then queueInLoop (WriteComplete cid) w2 else w2)"
    have "w_sent q = w_sent w2 \<and> w_rcvd q = w_rcvd w2 \<and> w_conns q = w_conns w2" by (simp add: q_def queueInLoop_def)
    moreover have "w3 = q \<or> w3 = q\<lparr>w_shut := (w_shut q)(cid := True)\<rparr>"
    proof (cases "c_state c = kDisconnecting")
      case True
      with fin have "shutdownInLoop tid cid q = Some w3" unfolding Let_def q_def [symmetric] by simp
      then show ?thesis by (rule shutdownInLoop_only)
    next
      case False
      with fin show ?thesis unfolding Let_def q_def [symmetric] by simp
    qed
    ultimately show ?thesis by auto
  qed
  show ?thesis
  proof (cases "0 < n")
    case True
    have "(retrieve n ?out \<bind> (\<lambda>outb. if readableBytes outb = 0
        then set_interest tid DisableWriting (c_channel c) (?w1 outb) \<bind> ?done else Some (?w1 outb))) = Some w'"
      using assms True by (simp add: handleWrite_def bytes in_loop_defs Let_def split: if_splits)
    then obtain outb where outb: "(if readableBytes outb = 0
        then set_interest tid DisableWriting (c_channel c) (?w1 outb) \<bind> ?done else Some (?w1 outb)) = Some w'"
      by (auto simp: abort_elims)
    have "w_sent w' = w_sent (?w1 outb) \<and> w_rcvd w' = w_rcvd (?w1 outb) \<and> w_conns w' = w_conns (?w1 outb)"
    proof (cases "readableBytes outb = 0")
      case True
      with outb obtain w2 where w2: "set_interest tid DisableWriting (c_channel c) (?w1 outb) = Some w2" "?done w2 = Some w'"
        by (auto simp: abort_elims simp del: Let_def)
      with keep [OF w2(2)] set_interest_only [OF w2(1)] show ?thesis by auto
    qed (use outb in simp)
    then show ?thesis by (simp add: set_conn_def kernel_takes_def)
  next
    case False
    with assms have "w' = w" by (simp add: handleWrite_def bytes in_loop_defs split: if_splits)
    with False assms(2) show ?thesis by simp
  qed
qed

text \<open>A kernel that takes at least one byte of what it is offered.\<close>

definition takes_some :: "conn_io \<Rightarrow> bool" where
  "takes_some io \<longleftrightarrow> (\<forall>bytes. \<exists>n. io_write io bytes = Wrote n \<and> n \<le> length bytes \<and> (bytes \<noteq> [] \<longrightarrow> 0 < n))"

lemma takes_some_ok: "takes_some io \<Longrightarrow> write_ok io"
  unfolding takes_some_def write_ok_def by (metis write_result.inject(1))

lemma drain_ok:
  assumes io: "takes_some io"
  shows "srv_inv tid D cur w \<Longrightarrow> pend_ok D (el_pendingFunctors w) \<Longrightarrow> w_conns w cid = Some c \<Longrightarrow> c_state c = kConnected \<Longrightarrow>
    length (content (c_outputBuffer c)) \<le> m \<Longrightarrow>
    \<exists>w' c'. put_all (\<lambda>_. handleWrite tid io cid) (replicate m ()) w = Some w' \<and> w_conns w' cid = Some c'
      \<and> w_sent w' cid = w_rcvd w cid \<and> content (c_outputBuffer c') = []"
proof (induction m arbitrary: w D c)
  case 0
  obtain h where "conn_ok D cid c h (w_sent w cid) (w_rcvd w cid)" by (rule srv_inv_conn [OF 0(1,3)])
  with 0 show ?case by (simp add: conn_ok_def)
next
  case (Suc m)
  obtain h where h: "p_objs (el_poller w) cid = Some h" and ok: "conn_ok D cid c h (w_sent w cid) (w_rcvd w cid)"
    by (rule srv_inv_conn [OF Suc.prems(1,3)])
  let ?out = "content (c_outputBuffer c)"
  have c: "c_channel c = cid" "isWriting h \<longleftrightarrow> ?out \<noteq> []" "w_sent w cid @ ?out = w_rcvd w cid"
    using ok Suc.prems(4) unfolding conn_ok_def by simp_all
  have "handled tid D cur cid w (handleWrite tid io cid w)"
    by (rule handleWrite_ok [OF Suc.prems(1-3) takes_some_ok [OF io]])
  then obtain w1 D1 where w1: "handleWrite tid io cid w = Some w1" "srv_inv tid D1 cur w1" "pend_ok D1 (el_pendingFunctors w1)"
    by (rule handled_step)
  have "\<exists>c1. w_conns w1 cid = Some c1 \<and> c_state c1 = kConnected \<and> w_rcvd w1 = w_rcvd w
      \<and> length (content (c_outputBuffer c1)) \<le> m"
  proof (cases "?out = []")
    case True
    then have "w1 = w" using w1(1) Suc.prems(3) h c(1,2) by (auto simp: handleWrite_def in_loop_defs split: if_splits)
    with True Suc.prems show ?thesis by simp
  next
    case False
    from io obtain n where n: "io_write io ?out = Wrote n" "n \<le> length ?out" "?out \<noteq> [] \<longrightarrow> 0 < n"
      unfolding takes_some_def by blast
    from handleWrite_effect [OF w1(1) Suc.prems(3) _ _ n(1)] h c False obtain c1 where
      e: "w_sent w1 cid = w_sent w cid @ take n ?out" "w_rcvd w1 = w_rcvd w" "w_conns w1 cid = Some c1" "c_state c1 = kConnected"
      using Suc.prems(4) by auto
    obtain h1 where "conn_ok D1 cid c1 h1 (w_sent w1 cid) (w_rcvd w1 cid)" by (rule srv_inv_conn [OF w1(2) e(3)])
    then have "w_sent w1 cid @ content (c_outputBuffer c1) = w_rcvd w1 cid" using e(4) by (simp add: conn_ok_def)
    with e(1,2) c(3) have "take n ?out @ content (c_outputBuffer c1) = ?out" by (metis append.assoc same_append_eq)
    then have "length (take n ?out) + length (content (c_outputBuffer c1)) = length ?out" by (metis length_append)
    then have "length (content (c_outputBuffer c1)) \<le> m" using n False Suc.prems(5) by simp
    with e show ?thesis by blast
  qed
  then obtain c1 where c1: "w_conns w1 cid = Some c1" "c_state c1 = kConnected" "w_rcvd w1 = w_rcvd w"
      "length (content (c_outputBuffer c1)) \<le> m" by blast
  from Suc.IH [OF w1(2,3) c1(1,2,4)] w1(1) c1(3) show ?case by simp
qed

text \<open>C2: no byte stays behind: in any reachable state, if the kernel takes at least one byte at each write event, then
  after at most as many write events as there are bytes in the output buffer of a connection, everything
  received on that connection has been sent back.\<close>

theorem output_drains:
  assumes "server_reach tid w" and "w_conns w cid = Some c" and "takes_some io" and "length (content (c_outputBuffer c)) \<le> m"
  shows "\<exists>w' c'. put_all (\<lambda>_. handleWrite tid io cid) (replicate m ()) w = Some w' \<and> w_conns w' cid = Some c'
      \<and> w_sent w' cid = w_rcvd w cid \<and> content (c_outputBuffer c') = []"
proof -
  note ok = server_reach_ok [OF assms(1)]
  then have "srv_inv tid {} None w" "pend_ok {} (el_pendingFunctors w)" "c_state c = kConnected"
    using assms(2) by (simp_all add: server_ok_def pend_ok_def)
  then show ?thesis by (rule drain_ok [OF assms(3) _ _ assms(2) _ assms(4)])
qed

theorem output_drains_witness:
  "\<exists>w' c'. put_all (\<lambda>_. handleWrite 7 (sio_conn ex_io 1) 1) (replicate 2 ()) ex_echo = Some w' \<and> w_conns w' 1 = Some c'
      \<and> content (c_outputBuffer ex_c2) = ''hi'' \<and> w_sent ex_echo 1 = [] \<and> w_sent w' 1 = ''hi'' \<and> content (c_outputBuffer c') = []"
proof -
  have "takes_some (sio_conn ex_io 1)" by (simp add: takes_some_def ex_io_def)
  moreover have c: "content (c_outputBuffer ex_c2) = ''hi''" by (simp add: ex_c2_def ex_in_ops)
  moreover have w: "w_conns ex_echo 1 = Some ex_c2" "w_rcvd ex_echo 1 = ''hi''" "w_sent ex_echo 1 = []"
    by (simp_all add: ex_echo_value ex_conn_value ex_init_value)
  moreover have "length (content (c_outputBuffer ex_c2)) \<le> 2" by (simp add: c)
  ultimately show ?thesis using output_drains [OF ex_echo_reach, of 1 ex_c2 "sio_conn ex_io 1" 2] by simp
qed

section \<open>Where the code fails its own expectations\<close>

text \<open>The direct write of \<^verbatim>\<open>sendInLoopEX\<close> never happens: the guard tests for a non-empty output buffer while the
  channel is not writing, a combination that no reachable state has. What the kernel would answer to the
  write makes no difference to the result.\<close>

theorem send_never_writes_directly:
  assumes "server_reach tid w"
  shows "sendInLoopEX tid io cid dat w = sendInLoopEX tid io' cid dat w"
proof (cases "w_conns w cid")
  case None
  then show ?thesis by (simp add: sendInLoopEX_def)
next
  case (Some c)
  note ok = server_reach_ok [OF assms]
  have inv: "srv_inv tid {} None w" and st: "c_state c = kConnected" using ok Some by (simp_all add: server_ok_def)
  obtain h where h: "p_objs (el_poller w) cid = Some h" and "conn_ok {} cid c h (w_sent w cid) (w_rcvd w cid)"
    by (rule srv_inv_conn [OF inv Some])
  then have "c_channel c = cid" "buf_ok (c_outputBuffer c)" "isWriting h \<longleftrightarrow> content (c_outputBuffer c) \<noteq> []"
    using st unfolding conn_ok_def by simp_all
  then have "c_channel c = cid" "isWriting h \<or> readableBytes (c_outputBuffer c) = 0"
    using length_content [of "c_outputBuffer c"] by (metis list.size(3))+
  with Some h show ?thesis by (elim disjE) (simp_all add: sendInLoopEX_def)
qed

theorem send_never_writes_directly_witness:
  "sendInLoopEX 7 \<lparr>io_readv = (\<lambda>_. ReadvError 4), io_write = (\<lambda>_. WriteError 32)\<rparr> 1 ''abc'' ex_conn
     = sendInLoopEX 7 (sio_conn ex_io 1) 1 ''abc'' ex_conn"
  by (rule send_never_writes_directly [OF ex_conn_reach])

lemma handleClose_disconnects:
  assumes "handleClose (removeConnection tid) tid cid w = Some w'"
  shows "\<exists>c'. w_conns w' cid = Some c' \<and> c_state c' = kDisconnected"
proof -
  from assms obtain c w1 w2 where "w_conns w cid = Some c" "setState cid kDisconnected w = Some w1"
      "set_interest tid DisableAll (c_channel c) w1 = Some w2" "removeConnection tid cid w2 = Some w'"
    by (auto simp: handleClose_def connectionCallback_def abort_elims split: if_splits)
  then show ?thesis
    by (auto simp: setState_def set_conn_def removeConnection_def removeConnectionInLoop_def queueInLoop_def Let_def abort_elims
        split: if_splits dest!: set_interest_only)
qed

lemma double_close_event:
  assumes "server_ok tid w" and "w_conns w cid = Some c" and "revents_of cid w = Some r"
    and "has r POLLHUP" and "\<not> has r POLLIN" and "has r POLLPRI" and "\<And>iov. io_readv (sio_conn io cid) iov = ReadvData []"
  shows "handleEvent server_alive (server_callbacks tid io) cid t w = None"
proof -
  let ?cb = "conn_callbacks (removeConnection tid) tid (sio_conn io cid) cid"
  have inv: "srv_inv tid {} None w" using assms(1) by (simp add: server_ok_def)
  obtain h where h: "p_objs (el_poller w) cid = Some h" "conn_ok {} cid c h (w_sent w cid) (w_rcvd w cid)" "0 < cid"
    by (rule srv_inv_conn [OF inv assms(2)])
  let ?w1 = "marked cid True w"
  note m = mark_ok [OF inv _ h(1), of True]
  have st: "c_state c = kConnected" using assms(1,2) by (simp add: server_ok_def)
  have pend: "pend_ok {} (el_pendingFunctors ?w1)" using assms(1) m(4) by (simp add: server_ok_def pend_ok_def)
  have "srv_inv tid {} (Some cid) ?w1" "w_conns ?w1 cid = Some c" using m(2,5) assms(2) by simp_all
  then have "handled tid {} (Some cid) cid ?w1 (handleClose (removeConnection tid) tid cid ?w1)"
    by (rule handleClose_ok [OF _ pend _ st])
  then obtain w2 D where w2: "handleClose (removeConnection tid) tid cid ?w1 = Some w2" "srv_inv tid D (Some cid) w2" "frame cid ?w1 w2"
    by (rule handled_step)
  from handleClose_disconnects [OF w2(1)] obtain c2 where c2: "w_conns w2 cid = Some c2" "c_state c2 = kDisconnected" by blast
  have rev: "revents_of cid ?w1 = Some r" "revents_of cid w2 = Some r"
    using m(3) w2(3) assms(3) by (simp_all add: frame_def)
  have close2: "handleClose (removeConnection tid) tid cid w' = None" if "w_conns w' cid = Some c'" "c_state c' = kDisconnected" for w' c'
    using that by (simp add: handleClose_def in_loop_defs)
  have read: "handleRead (removeConnection tid) tid (sio_conn io cid) cid t w2 = None"
    using c2 assms(7) close2
    by (simp add: handleRead_def in_loop_defs readFd_def Let_def kernel_gives_def set_conn_def split: bind_splits)
  have err: "when_call b (cb_error ?cb) w2 = Some w2" for b
    using handleError_same [OF w2(2) c2(1)] by (simp add: when_call_def conn_callbacks_def)
  have "handleEvent server_alive (server_callbacks tid io) cid t w = handleEventWithGuard ?cb cid t w"
    using h assms(2) by (simp add: handleEvent_def conn_ok_def server_alive_def server_callbacks_def acceptChannel_def)
  also have "\<dots> = None"
    using m(1) rev assms(4-6) w2(1) read err
    by (simp add: handleEventWithGuard_def when_call_def conn_callbacks_def has_or)
  finally show ?thesis .
qed

text \<open>A hang-up that comes with priority data but no ordinary data aborts the server when the read finds the end of
  the stream: the close callback runs, then the read callback closes the connection a second time and fails
  its assertion on the state.\<close>

theorem double_close:
  assumes "server_reach tid w" and "w_conns w cid = Some c" and "wait_ok (el_poller w) [(r, cid)]"
    and "has r POLLHUP" and "\<not> has r POLLIN" and "has r POLLPRI" and "\<And>iov. io_readv (sio_conn io cid) iov = ReadvData []"
  shows "server_round tid io (Some [(r, cid)]) t w = None"
proof -
  note ok = server_reach_ok [OF assms(1)]
  have inv: "srv_inv tid {} None w" using ok by (simp add: server_ok_def)
  obtain p' where p': "poll kPollTimeMs (Some [(r, cid)]) t (el_poller w, []) = Some (t, p', map snd [(r, cid)])" "poll_inv p'"
      "same_but_revents (el_poller w) p'" "\<forall>(r, ch) \<in> set [(r, cid)]. \<exists>c. p_objs p' ch = Some c \<and> ch_revents c = r"
    by (rule poll_ok [OF srv_inv_poll [OF inv] assms(3)])
  let ?w1 = "w\<lparr>el_pollReturnTime := t, el_poller := p', el_activeChannels := [cid], el_eventHandling := True,
      el_currentActiveChannel := Some cid\<rparr>"
  have "server_ok tid ?w1"
    using srv_inv_poller [OF inv p'(2,3)] ok by (simp add: server_ok_def srv_inv_time)
  moreover have "w_conns ?w1 cid = Some c" "revents_of cid ?w1 = Some r" using assms(2) p'(4) by (auto simp: revents_of_def)
  ultimately have "handleEvent server_alive (server_callbacks tid io) cid t ?w1 = None"
    by (rule double_close_event) (fact assms(4-7))+
  with p'(1) show ?thesis by (simp add: server_round_def loop_body_def)
qed

theorem double_close_witness:
  "server_round 7 \<lparr>sio_conn = (\<lambda>_. \<lparr>io_readv = (\<lambda>_. ReadvData []), io_write = (\<lambda>_. Wrote 0)\<rparr>), sio_accept = AcceptError 11\<rparr>
     (Some [(18, 1)]) (Timestamp 0) ex_conn = None"
proof -
  have k: "p_kernel (el_poller ex_conn) 5 = Some (3, 1)" "p_events_size (el_poller ex_conn) = 16"
    by (simp_all add: ex_conn_def ex_init_value ex_c_def ex_run_defs ex_buf upt_rec)
  have "(18::32 word) AND NOT (3 OR POLLERR OR POLLHUP) = 0" by (simp add: POLLERR_def POLLHUP_def)
  with k(1) have "\<exists>fd ev. p_kernel (el_poller ex_conn) fd = Some (ev, 1) \<and> (18::32 word) AND NOT (ev OR POLLERR OR POLLHUP) = 0"
    by blast
  with k(2) have "wait_ok (el_poller ex_conn) [(18, 1)]" by (simp add: wait_ok_def)
  moreover have "has (18::32 word) POLLHUP" "\<not> has (18::32 word) POLLIN" "has (18::32 word) POLLPRI"
    by (simp_all add: has_def POLLHUP_def POLLIN_def POLLPRI_def)
  moreover have "w_conns ex_conn 1 = Some ex_c" by (simp add: ex_conn_conns)
  ultimately show ?thesis by (intro double_close [OF ex_conn_reach]) simp_all
qed

text \<open>A failure of \<^verbatim>\<open>accept4\<close> that is not in the list of expected errors, for example a full file table
  (\<^verbatim>\<open>ENFILE\<close>, 23), ends the server with a fatal log.\<close>

theorem accept_error_aborts:
  assumes "server_reach tid w" and "wait_ok (el_poller w) [(r, acceptChannel)]" and "has r POLLIN"
    and "sio_accept io = AcceptError e" and "e \<notin> expected_accept_errors"
  shows "server_round tid io (Some [(r, acceptChannel)]) t w = None"
proof -
  let ?a = acceptChannel
  have inv: "srv_inv tid {} None w" using server_reach_ok [OF assms(1)] by (simp add: server_ok_def)
  obtain p' where p': "poll kPollTimeMs (Some [(r, ?a)]) t (el_poller w, []) = Some (t, p', map snd [(r, ?a)])" "poll_inv p'"
      "same_but_revents (el_poller w) p'" "\<forall>(r, ch) \<in> set [(r, ?a)]. \<exists>c. p_objs p' ch = Some c \<and> ch_revents c = r"
    by (rule poll_ok [OF srv_inv_poll [OF inv] assms(2)])
  let ?w1 = "w\<lparr>el_pollReturnTime := t, el_poller := p', el_activeChannels := [?a], el_eventHandling := True,
      el_currentActiveChannel := Some ?a\<rparr>"
  have w1: "srv_inv tid {} None ?w1"
    using srv_inv_poller [OF inv p'(2,3)] by (simp add: srv_inv_time)
  from w1 obtain h where h: "p_objs (el_poller ?w1) ?a = Some h" "\<not> ch_tied h"
    unfolding srv_inv_def by blast
  moreover have "ch_revents h = r" using p'(4) h(1) by simp
  moreover note m = mark_ok [OF w1 _ h(1), of True]
  ultimately have "revents_of ?a (marked ?a True ?w1) = Some r" by (simp add: frame_def revents_of_def)
  with h m(1) have "handleEvent server_alive (server_callbacks tid io) ?a t ?w1 = None"
    using assms(3-5)
    by (simp add: handleEvent_def handleEventWithGuard_def server_callbacks_def when_call_def has_or Acceptor_handleRead_def
        sockets_accept_def split: bind_splits)
  with p'(1) show ?thesis by (simp add: server_round_def loop_body_def)
qed

theorem accept_error_aborts_witness:
  "server_round 7 (ex_io\<lparr>sio_accept := AcceptError 23\<rparr>) (Some [(1, acceptChannel)]) (Timestamp 0) ex_init = None"
proof -
  have "wait_ok (el_poller ex_init) [(1, acceptChannel)]"
    using round_ok_parts(1) [OF ex_round] by (simp add: acceptChannel_def)
  moreover have "(23::int) \<notin> expected_accept_errors"
    by (simp add: expected_accept_errors_def EAGAIN_def ECONNABORTED_def EINTR_def EPROTO_def EPERM_def EMFILE_def)
  ultimately show ?thesis
    by (intro accept_error_aborts [OF ex_init_reach]) (simp_all add: has_def POLLIN_def)
qed

text \<open>Operations on one channel leave the others alone.\<close>

lemma on_chan_other: "on_chan ch f l = Some l' \<Longrightarrow> x \<noteq> ch \<Longrightarrow> p_objs (el_poller l') x = p_objs (el_poller l) x"
  by (auto simp: on_chan_def on_channel_def abort_elims)

lemma poller_update_objs: "poller_update op ch p = Some p' \<Longrightarrow> p_objs p' = p_objs p"
  by (auto simp: poller_update_def abort_elims split: option.splits if_splits)

lemma updateChannel_other: "updateChannel ch p = Some p' \<Longrightarrow> x \<noteq> ch \<Longrightarrow> p_objs p' x = p_objs p x"
  by (auto simp: updateChannel_def on_channel_def abort_elims Let_def split: if_splits dest!: poller_update_objs)

lemma removeChannel_other: "removeChannel ch p = Some p' \<Longrightarrow> x \<noteq> ch \<Longrightarrow> p_objs p' x = p_objs p x"
  by (auto simp: removeChannel_def on_channel_def abort_elims Let_def split: if_splits dest!: poller_update_objs)

lemma set_interest_other:
  assumes "set_interest tid i ch l = Some l'" and "x \<noteq> ch"
  shows "p_objs (el_poller l') x = p_objs (el_poller l) x"
proof -
  from assms(1) obtain l1 l2 p where r: "on_chan ch (\<lambda>c. c\<lparr>ch_events := apply_interest i (ch_events c)\<rparr>) l = Some l1"
      "on_chan ch (\<lambda>c. c\<lparr>ch_addedToLoop := True\<rparr>) l1 = Some l2" "updateChannel ch (el_poller l2) = Some p" "l' = l2\<lparr>el_poller := p\<rparr>"
    by (auto simp: set_interest_def Channel_update_def EventLoop_updateChannel_def abort_elims split: if_splits)
  then show ?thesis
    using on_chan_other [OF r(1) assms(2)] on_chan_other [OF r(2) assms(2)] updateChannel_other [OF r(3) assms(2)] by simp
qed

lemma Channel_remove_other:
  assumes "Channel_remove tid ch l = Some l'" and "x \<noteq> ch"
  shows "p_objs (el_poller l') x = p_objs (el_poller l) x"
proof -
  from assms(1) obtain l1 p where "on_chan ch (\<lambda>c. c\<lparr>ch_addedToLoop := False\<rparr>) l = Some l1"
      "removeChannel ch (el_poller l1) = Some p" "l' = l1\<lparr>el_poller := p\<rparr>"
    by (auto simp: Channel_remove_def EventLoop_removeChannel_def abort_elims split: if_splits)
  with on_chan_other [OF _ assms(2)] removeChannel_other [OF _ assms(2)] show ?thesis by simp
qed

lemma Channel_remove_only: "Channel_remove tid ch l = Some l' \<Longrightarrow> \<exists>p. l' = l\<lparr>el_poller := p\<rparr>"
  by (auto simp: Channel_remove_def EventLoop_removeChannel_def on_chan_def abort_elims in_loop_defs split: if_splits)

text \<open>While the connections go, the acceptor's channel stays registered.\<close>

definition acceptor_stays :: "Server \<Rightarrow> bool" where
  "acceptor_stays w \<longleftrightarrow> (\<exists>h. p_objs (el_poller w) acceptChannel = Some h \<and> ch_addedToLoop h)
     \<and> (\<forall>cid c. w_conns w cid = Some c \<longrightarrow> c_channel c \<noteq> acceptChannel)"

lemma connectDestroyed_other:
  assumes "connectDestroyed tid cid w = Some w'" and "acceptor_stays w"
  shows "acceptor_stays w'"
proof -
  from assms(1) obtain c where c: "w_conns w cid = Some c" by (auto simp: connectDestroyed_def abort_elims)
  then have ne: "acceptChannel \<noteq> c_channel c" using assms(2) unfolding acceptor_stays_def by metis
  from assms(1) c obtain w1 where
    mid: "(if c_state c = kConnected
          then do { w \<leftarrow> setState cid kDisconnected w; w \<leftarrow> set_interest tid DisableAll (c_channel c) w; connectionCallback cid w }
          else Some w) = Some w1" and rm: "Channel_remove tid (c_channel c) w1 = Some w'"
    by (auto simp: connectDestroyed_def abort_elims)
  have "acceptor_stays w1"
  proof (cases "c_state c = kConnected")
    case True
    let ?w = "set_conn cid (c\<lparr>c_state := kDisconnected\<rparr>) w"
    from True mid c have upd: "set_interest tid DisableAll (c_channel c) ?w = Some w1"
      by (auto simp: setState_def connectionCallback_def abort_elims split: if_splits)
    have "acceptor_stays ?w" using assms(2) c ne by (auto simp: acceptor_stays_def set_conn_def)
    with set_interest_only [OF upd] set_interest_other [OF upd ne] show ?thesis by (auto simp: acceptor_stays_def)
  qed (use mid assms(2) in simp)
  with Channel_remove_only [OF rm] Channel_remove_other [OF rm ne] show ?thesis by (auto simp: acceptor_stays_def)
qed

lemma delete_TcpConnection_other:
  assumes "delete_TcpConnection tid cid w = Some w'" and "acceptor_stays w"
  shows "acceptor_stays w'"
  using assms by (auto simp: delete_TcpConnection_def delete_Channel_def acceptor_stays_def abort_elims split: if_splits)

text \<open>A server that has been started cannot be destroyed: whatever its connections are, the destructor aborts,
  at the latest when the acceptor's channel, which nobody removed from the poller, fails the assertions of
  \<^verbatim>\<open>Channel::~Channel\<close>.\<close>

theorem started_server_destructor_aborts:
  assumes "server_reach tid w"
  shows "delete_TcpServer tid cids w = None"
proof (rule ccontr)
  assume "delete_TcpServer tid cids w \<noteq> None"
  then obtain w1 where del: "put_all (\<lambda>cid w. do {
       w \<leftarrow> (if isInLoopThread tid w then connectDestroyed tid cid w else Some (queueInLoop (ConnectDestroyed cid) w));
       delete_TcpConnection tid cid w }) cids w = Some w1" and fin: "delete_Channel tid acceptChannel w1 \<noteq> None"
    by (auto simp: delete_TcpServer_def abort_elims)
  have inv: "srv_inv tid {} None w" using server_reach_ok [OF assms] by (simp add: server_ok_def)
  have "c_channel c \<noteq> acceptChannel" if c: "w_conns w cid = Some c" for cid c
  proof -
    obtain h where "conn_ok {} cid c h (w_sent w cid) (w_rcvd w cid)" "0 < cid" by (rule srv_inv_conn [OF inv c])
    then show ?thesis by (simp add: conn_ok_def acceptChannel_def)
  qed
  with inv have "acceptor_stays w" unfolding srv_inv_def acceptor_stays_def by blast
  then have "acceptor_stays w1"
  proof (rule put_all_invariant [OF _ _ del, rotated])
    fix cid w w' assume "acceptor_stays w" and step: "do {
       w \<leftarrow> (if isInLoopThread tid w then connectDestroyed tid cid w else Some (queueInLoop (ConnectDestroyed cid) w));
       delete_TcpConnection tid cid w } = Some w'"
    from step obtain w2 where "(if isInLoopThread tid w then connectDestroyed tid cid w else Some (queueInLoop (ConnectDestroyed cid) w)) = Some w2"
        and "delete_TcpConnection tid cid w2 = Some w'" by (auto simp: abort_elims)
    moreover from this(1) \<open>acceptor_stays w\<close> have "acceptor_stays w2"
      by (auto simp: acceptor_stays_def queueInLoop_def split: if_splits dest!: connectDestroyed_other [unfolded acceptor_stays_def])
    ultimately show "acceptor_stays w'" by (blast intro: delete_TcpConnection_other)
  qed
  with fin show False by (auto simp: acceptor_stays_def delete_Channel_def split: if_splits)
qed

theorem started_server_destructor_aborts_witness: "delete_TcpServer 7 [1] ex_conn = None"
  by (rule started_server_destructor_aborts [OF ex_conn_reach])

end
