(* ===== verification/TimerQueue.thy ===== *)
theory TimerQueue
  imports Timestamp LoopPool "HOL-Library.Product_Lexorder" "HOL-Library.Multiset"
begin

text \<open>
  \<^verbatim>\<open>Timer.h\<close>, \<^verbatim>\<open>Timer.cpp\<close>, \<^verbatim>\<open>TimerId.h\<close>, \<^verbatim>\<open>TimerQueue.h\<close>, \<^verbatim>\<open>TimerQueue.cpp\<close>, and the parts of
  \<^verbatim>\<open>muduo/net/TimerQueue.cc\<close> in which the original differs: \<^verbatim>\<open>getExpired\<close>, \<^verbatim>\<open>handleRead\<close> and the destructor.

  A timer object is named by its address, a natural number; \<^verbatim>\<open>std::set\<close> is an ascending list or a
  set. An interval is a value of a type \<open>'d\<close> of doubles, with \<open>pos\<close> for \<^verbatim>\<open>interval > 0.0\<close> and \<open>to_us\<close>
  for its number of microseconds. The allocator may reuse any address that is free. A callback
  is the list of queue operations it performs, given by \<open>prog\<close>; \<open>tq_fired\<close> records the callbacks that were run.
\<close>

section \<open>State\<close>

record 'd Timer =
  t_callback :: nat
  t_expiration :: Timestamp
  t_interval :: 'd
  t_repeat :: bool
  t_sequence :: "64 word"

type_synonym TimerId = "nat \<times> 64 word"

datatype timer_functor = AddTimerInLoop nat | CancelInLoop TimerId

record 'd TimerQueue =
  tq_threadId :: int
  tq_timers :: "(Timestamp \<times> nat) list"
  tq_activeTimers :: "TimerId set"
  tq_callingExpiredTimers :: bool
  tq_cancelingTimers :: "TimerId set"
  tq_heap :: "nat \<rightharpoonup> 'd Timer"
  tq_brk :: nat
  tq_numCreated :: "64 atomic"
  tq_armed :: "(int \<times> int) option"
  tq_pending :: "timer_functor list"
  tq_fired :: "nat list"

text \<open>\<open>timerfd\<close> is what \<^verbatim>\<open>timerfd_create\<close> returned. The channel of the queue is registered with the loop by the
  operations of the theory \<open>EventLoop\<close>.\<close>

definition new_TimerQueue :: "int \<Rightarrow> int \<Rightarrow> 'd TimerQueue option" where
  "new_TimerQueue tid timerfd = do {
     assert_that (0 \<le> timerfd);
     Some \<lparr>tq_threadId = tid, tq_timers = [], tq_activeTimers = {}, tq_callingExpiredTimers = False,
           tq_cancelingTimers = {}, tq_heap = Map.empty, tq_brk = 1, tq_numCreated = 0, tq_armed = None,
           tq_pending = [], tq_fired = []\<rparr>
   }"

definition tq_sizes :: "'d TimerQueue \<Rightarrow> unit option" where
  "tq_sizes q = assert_that (length (tq_timers q) = card (tq_activeTimers q))"

definition tq_inLoop :: "int \<Rightarrow> 'd TimerQueue \<Rightarrow> unit option" where
  "tq_inLoop tid q = assert_that (tq_threadId q = tid)"

section \<open>The timer descriptor\<close>

text \<open>Seconds and nanoseconds, at least 100 microseconds; \<open>t\<close> is \<^verbatim>\<open>Timestamp::now()\<close>.\<close>

definition howMuchTimeFromNow :: "Timestamp \<Rightarrow> Timestamp \<Rightarrow> int \<times> int" where
  "howMuchTimeFromNow whn t =
     (let us = microSecondsSinceEpoch whn - microSecondsSinceEpoch t;
          us = (if us < 100 then 100 else us)
      in (cdiv us kMicroSecondsPerSecond, cmod us kMicroSecondsPerSecond * 1000))"

definition resetTimerfd :: "Timestamp \<Rightarrow> Timestamp \<Rightarrow> 'd TimerQueue \<Rightarrow> 'd TimerQueue" where
  "resetTimerfd expiration t q = q\<lparr>tq_armed := Some (howMuchTimeFromNow expiration t)\<rparr>"

section \<open>Timers\<close>

text \<open>The allocator returns the freed address \<open>prefer\<close> or a new one.\<close>

definition malloc :: "nat \<Rightarrow> 'd TimerQueue \<Rightarrow> nat \<times> 'd TimerQueue" where
  "malloc prefer q = (if 0 < prefer \<and> prefer < tq_brk q \<and> tq_heap q prefer = None then (prefer, q)
                      else (tq_brk q, q\<lparr>tq_brk := Suc (tq_brk q)\<rparr>))"

definition new_Timer :: "('d \<Rightarrow> bool) \<Rightarrow> nat \<Rightarrow> nat \<Rightarrow> Timestamp \<Rightarrow> 'd \<Rightarrow> 'd TimerQueue \<Rightarrow> nat \<times> 'd TimerQueue" where
  "new_Timer pos prefer cb whn interval q =
     (let (p, q) = malloc prefer q;
          (sq, n) = incrementAndGet (tq_numCreated q)
      in (p, q\<lparr>tq_heap := (tq_heap q)(p \<mapsto> \<lparr>t_callback = cb, t_expiration = whn, t_interval = interval,
                                         t_repeat = pos interval, t_sequence = sq\<rparr>), tq_numCreated := n\<rparr>))"

definition restart :: "('d \<Rightarrow> int) \<Rightarrow> Timestamp \<Rightarrow> 'd Timer \<Rightarrow> 'd Timer" where
  "restart to_us tnow tm = (if t_repeat tm then tm\<lparr>t_expiration := addTime to_us tnow (t_interval tm)\<rparr>
                           else tm\<lparr>t_expiration := Timestamp_invalid\<rparr>)"

definition delete_Timer :: "nat \<Rightarrow> 'd TimerQueue \<Rightarrow> 'd TimerQueue" where
  "delete_Timer p q = q\<lparr>tq_heap := (tq_heap q)(p := None)\<rparr>"

section \<open>Operations\<close>

definition tq_insert :: "int \<Rightarrow> nat \<Rightarrow> 'd TimerQueue \<Rightarrow> (bool \<times> 'd TimerQueue) option" where
  "tq_insert tid p q = do {
     tq_inLoop tid q;
     tq_sizes q;
     tm \<leftarrow> tq_heap q p;
     let whn = t_expiration tm;
     let earliestChanged = (tq_timers q = [] \<or> whn < fst (hd (tq_timers q)));
     assert_that ((whn, p) \<notin> set (tq_timers q));
     let q1 = q\<lparr>tq_timers := insort (whn, p) (tq_timers q)\<rparr>;
     assert_that ((p, t_sequence tm) \<notin> tq_activeTimers q1);
     let q2 = q1\<lparr>tq_activeTimers := insert (p, t_sequence tm) (tq_activeTimers q1)\<rparr>;
     tq_sizes q2;
     Some (earliestChanged, q2)
   }"

definition addTimerInLoop :: "int \<Rightarrow> Timestamp \<Rightarrow> nat \<Rightarrow> 'd TimerQueue \<Rightarrow> 'd TimerQueue option" where
  "addTimerInLoop tid t p q = do {
     tq_inLoop tid q;
     (earliestChanged, q) \<leftarrow> tq_insert tid p q;
     tm \<leftarrow> tq_heap q p;
     Some (if earliestChanged then resetTimerfd (t_expiration tm) t q else q)
   }"

definition addTimer ::
    "('d \<Rightarrow> bool) \<Rightarrow> int \<Rightarrow> Timestamp \<Rightarrow> nat \<Rightarrow> nat \<Rightarrow> Timestamp \<Rightarrow> 'd \<Rightarrow> 'd TimerQueue \<Rightarrow> (TimerId \<times> 'd TimerQueue) option" where
  "addTimer pos tid t prefer cb whn interval q = do {
     let (p, q) = new_Timer pos prefer cb whn interval q;
     tm \<leftarrow> tq_heap q p;
     q \<leftarrow> (if tq_threadId q = tid then addTimerInLoop tid t p q
           else Some (q\<lparr>tq_pending := tq_pending q @ [AddTimerInLoop p]\<rparr>));
     Some ((p, t_sequence tm), q)
   }"

definition cancelInLoop :: "int \<Rightarrow> TimerId \<Rightarrow> 'd TimerQueue \<Rightarrow> 'd TimerQueue option" where
  "cancelInLoop tid timer q = do {
     tq_inLoop tid q;
     tq_sizes q;
     q \<leftarrow> (if timer \<in> tq_activeTimers q
          then do {
            tm \<leftarrow> tq_heap q (fst timer);
            assert_that ((t_expiration tm, fst timer) \<in> set (tq_timers q));
            let q = q\<lparr>tq_timers := remove1 (t_expiration tm, fst timer) (tq_timers q)\<rparr>;
            let q = delete_Timer (fst timer) q;
            Some (q\<lparr>tq_activeTimers := tq_activeTimers q - {timer}\<rparr>)
          }
          else Some (if tq_callingExpiredTimers q then q\<lparr>tq_cancelingTimers := insert timer (tq_cancelingTimers q)\<rparr> else q));
     tq_sizes q;
     Some q
   }"

definition cancel :: "int \<Rightarrow> TimerId \<Rightarrow> 'd TimerQueue \<Rightarrow> 'd TimerQueue option" where
  "cancel tid timerId q = (if tq_threadId q = tid then cancelInLoop tid timerId q
     else Some (q\<lparr>tq_pending := tq_pending q @ [CancelInLoop timerId]\<rparr>))"

text \<open>What a callback does with the queue; the callbacks run in the loop's thread.\<close>

datatype 'd timer_cmd = CmdAdd nat nat Timestamp 'd Timestamp | CmdCancel TimerId

fun exec_cmd :: "('d \<Rightarrow> bool) \<Rightarrow> int \<Rightarrow> 'd timer_cmd \<Rightarrow> 'd TimerQueue \<Rightarrow> 'd TimerQueue option" where
  "exec_cmd pos tid (CmdAdd prefer cb whn interval t) q = map_option snd (addTimer pos tid t prefer cb whn interval q)"
| "exec_cmd pos tid (CmdCancel timerId) q = cancel tid timerId q"

definition run_timer :: "('d \<Rightarrow> bool) \<Rightarrow> (nat \<Rightarrow> 'd timer_cmd list) \<Rightarrow> int \<Rightarrow> nat \<Rightarrow> 'd TimerQueue \<Rightarrow> 'd TimerQueue option" where
  "run_timer pos prog tid p q = do {
     tm \<leftarrow> tq_heap q p;
     put_all (exec_cmd pos tid) (prog (t_callback tm)) (q\<lparr>tq_fired := tq_fired q @ [t_callback tm]\<rparr>)
   }"

section \<open>Expiration\<close>

text \<open>\<^verbatim>\<open>lower_bound(sentry)\<close>: no timer lives at address \<^verbatim>\<open>UINTPTR_MAX\<close>, so exactly the entries due at \<open>tnow\<close> or
  before precede the sentry.\<close>

definition due :: "Timestamp \<Rightarrow> Timestamp \<times> nat \<Rightarrow> bool" where
  "due tnow e \<longleftrightarrow> fst e \<le> tnow"

definition erase_active :: "Timestamp \<times> nat \<Rightarrow> 'd TimerQueue \<Rightarrow> 'd TimerQueue option" where
  "erase_active e q = do {
     tm \<leftarrow> tq_heap q (snd e);
     assert_that ((snd e, t_sequence tm) \<in> tq_activeTimers q);
     Some (q\<lparr>tq_activeTimers := tq_activeTimers q - {(snd e, t_sequence tm)}\<rparr>)
   }"

text \<open>\<^verbatim>\<open>TimerQueue.cpp\<close> copies the expired entries and leaves them in \<^verbatim>\<open>_timers\<close>.\<close>

definition getExpired :: "Timestamp \<Rightarrow> 'd TimerQueue \<Rightarrow> ((Timestamp \<times> nat) list \<times> 'd TimerQueue) option" where
  "getExpired tnow q = do {
     tq_sizes q;
     let expired = takeWhile (due tnow) (tq_timers q);
     let rest = dropWhile (due tnow) (tq_timers q);
     assert_that (rest = [] \<or> tnow < fst (hd rest));
     q \<leftarrow> put_all erase_active expired q;
     tq_sizes q;
     Some (expired, q)
   }"

text \<open>\<^verbatim>\<open>muduo/net/TimerQueue.cc\<close> erases them.\<close>

definition muduo_getExpired :: "Timestamp \<Rightarrow> 'd TimerQueue \<Rightarrow> ((Timestamp \<times> nat) list \<times> 'd TimerQueue) option" where
  "muduo_getExpired tnow q = do {
     tq_sizes q;
     let expired = takeWhile (due tnow) (tq_timers q);
     let rest = dropWhile (due tnow) (tq_timers q);
     assert_that (rest = [] \<or> tnow < fst (hd rest));
     q \<leftarrow> put_all erase_active expired (q\<lparr>tq_timers := rest\<rparr>);
     tq_sizes q;
     Some (expired, q)
   }"

definition reset_timer :: "('d \<Rightarrow> int) \<Rightarrow> int \<Rightarrow> Timestamp \<Rightarrow> Timestamp \<times> nat \<Rightarrow> 'd TimerQueue \<Rightarrow> 'd TimerQueue option" where
  "reset_timer to_us tid tnow e q = do {
     tm \<leftarrow> tq_heap q (snd e);
     (if t_repeat tm \<and> (snd e, t_sequence tm) \<notin> tq_cancelingTimers q
      then map_option snd (tq_insert tid (snd e) (q\<lparr>tq_heap := (tq_heap q)(snd e \<mapsto> restart to_us tnow tm)\<rparr>))
      else Some (delete_Timer (snd e) q))
   }"

definition tq_reset ::
    "('d \<Rightarrow> int) \<Rightarrow> int \<Rightarrow> Timestamp \<Rightarrow> (Timestamp \<times> nat) list \<Rightarrow> Timestamp \<Rightarrow> 'd TimerQueue \<Rightarrow> 'd TimerQueue option" where
  "tq_reset to_us tid t expired tnow q = do {
     q \<leftarrow> put_all (reset_timer to_us tid tnow) expired q;
     nextExpire \<leftarrow> (if tq_timers q = [] then Some Timestamp_invalid
                    else map_option t_expiration (tq_heap q (snd (hd (tq_timers q)))));
     Some (if Timestamp_valid nextExpire then resetTimerfd nextExpire t q else q)
   }"

text \<open>\<^verbatim>\<open>TimerQueue.cpp\<close>: the call of \<^verbatim>\<open>reset\<close> is a comment.\<close>

definition tq_handleRead ::
    "('d \<Rightarrow> bool) \<Rightarrow> (nat \<Rightarrow> 'd timer_cmd list) \<Rightarrow> int \<Rightarrow> Timestamp \<Rightarrow> 'd TimerQueue \<Rightarrow> 'd TimerQueue option" where
  "tq_handleRead pos prog tid tnow q = do {
     tq_inLoop tid q;
     (expired, q) \<leftarrow> getExpired tnow q;
     q \<leftarrow> put_all (\<lambda>e. run_timer pos prog tid (snd e)) expired (q\<lparr>tq_callingExpiredTimers := True, tq_cancelingTimers := {}\<rparr>);
     Some (q\<lparr>tq_callingExpiredTimers := False\<rparr>)
   }"

text \<open>\<open>t\<close> is the time at which \<^verbatim>\<open>reset\<close> arms the descriptor.\<close>

definition muduo_handleRead ::
    "('d \<Rightarrow> bool) \<Rightarrow> ('d \<Rightarrow> int) \<Rightarrow> (nat \<Rightarrow> 'd timer_cmd list) \<Rightarrow> int \<Rightarrow> Timestamp \<Rightarrow> Timestamp
     \<Rightarrow> 'd TimerQueue \<Rightarrow> 'd TimerQueue option" where
  "muduo_handleRead pos to_us prog tid tnow t q = do {
     tq_inLoop tid q;
     (expired, q) \<leftarrow> muduo_getExpired tnow q;
     q \<leftarrow> put_all (\<lambda>e. run_timer pos prog tid (snd e)) expired (q\<lparr>tq_callingExpiredTimers := True, tq_cancelingTimers := {}\<rparr>);
     tq_reset to_us tid t expired tnow (q\<lparr>tq_callingExpiredTimers := False\<rparr>)
   }"

text \<open>The destructor of the original deletes the timers; the one of \<^verbatim>\<open>TimerQueue.cpp\<close> does not.\<close>

definition muduo_delete_TimerQueue :: "'d TimerQueue \<Rightarrow> 'd TimerQueue option" where
  "muduo_delete_TimerQueue q = put_all (\<lambda>e q. do { tm \<leftarrow> tq_heap q (snd e); Some (delete_Timer (snd e) q) }) (tq_timers q) q"

section \<open>The two sets and the timer objects agree\<close>

definition id_of :: "(nat \<rightharpoonup> 'd Timer) \<Rightarrow> Timestamp \<times> nat \<Rightarrow> TimerId" where
  "id_of h e = (snd e, t_sequence (the (h (snd e))))"

text \<open>\<open>R\<close> are addresses of live timers that are in neither set: timers whose callbacks are being run.\<close>

definition tq_inv :: "nat set \<Rightarrow> 'd TimerQueue \<Rightarrow> bool" where
  "tq_inv R q \<longleftrightarrow> sorted (tq_timers q) \<and> distinct (map snd (tq_timers q))
     \<and> (\<forall>e \<in> set (tq_timers q). \<exists>tm. tq_heap q (snd e) = Some tm \<and> t_expiration tm = fst e)
     \<and> tq_activeTimers q = id_of (tq_heap q) ` set (tq_timers q)
     \<and> R \<inter> snd ` set (tq_timers q) = {} \<and> R \<subseteq> dom (tq_heap q) \<and> (\<forall>p \<in> dom (tq_heap q). p < tq_brk q)"

lemma card_ids: "distinct (map snd ts) \<Longrightarrow> card (id_of h ` set ts) = length ts"
proof -
  assume "distinct (map snd ts)"
  then have "distinct (map fst (map (id_of h) ts))" by (simp add: id_of_def comp_def)
  then have "distinct (map (id_of h) ts)" using distinct_map by blast
  from distinct_card [OF this] show ?thesis by simp
qed

lemma tq_inv_sizes [simp]: "tq_inv R q \<Longrightarrow> tq_sizes q = Some ()"
  by (auto simp: tq_inv_def tq_sizes_def card_ids)

lemma ids_cong: "(\<And>e. e \<in> set ts \<Longrightarrow> h' (snd e) = h (snd e)) \<Longrightarrow> id_of h' ` set ts = id_of h ` set ts"
  by (rule image_cong) (simp_all add: id_of_def)

text \<open>Changing an object that is in neither set.\<close>

lemma tq_inv_heap:
  assumes "tq_inv R q" and "p \<in> R"
  shows "tq_inv R (q\<lparr>tq_heap := (tq_heap q)(p \<mapsto> tm)\<rparr>)" and "tq_inv (R - {p}) (delete_Timer p q)"
proof -
  have "snd e \<noteq> p" if "e \<in> set (tq_timers q)" for e using assms that by (auto simp: tq_inv_def)
  then have same: "((tq_heap q)(p := x)) (snd e) = tq_heap q (snd e)" if "e \<in> set (tq_timers q)" for e x
    using that by simp
  have ids: "id_of ((tq_heap q)(p := x)) ` set (tq_timers q) = id_of (tq_heap q) ` set (tq_timers q)" for x
    by (rule ids_cong) (rule same)
  show "tq_inv R (q\<lparr>tq_heap := (tq_heap q)(p \<mapsto> tm)\<rparr>)"
    using assms same by (auto simp: tq_inv_def ids)
  show "tq_inv (R - {p}) (delete_Timer p q)"
    using assms same by (auto simp: tq_inv_def delete_Timer_def ids)
qed

lemma malloc_ok:
  assumes "\<forall>x \<in> dom (tq_heap q). x < tq_brk q" and "malloc prefer q = (p, q1)"
  obtains b where "q1 = q\<lparr>tq_brk := b\<rparr>" "p < b" "tq_brk q \<le> b" "tq_heap q p = None"
proof (cases "0 < prefer \<and> prefer < tq_brk q \<and> tq_heap q prefer = None")
  case True
  with assms(2) have "q1 = q\<lparr>tq_brk := tq_brk q\<rparr>" "p = prefer" by (simp_all add: malloc_def)
  with True show ?thesis by (intro that [of "tq_brk q"]) simp_all
next
  case False
  with assms(2) have "q1 = q\<lparr>tq_brk := Suc (tq_brk q)\<rparr>" "p = tq_brk q" by (auto simp: malloc_def)
  with assms(1) show ?thesis by (intro that [of "Suc (tq_brk q)"]) auto
qed

lemma new_Timer_shape:
  assumes "tq_inv R q" and "new_Timer pos prefer cb whn interval q = (p, q')"
  obtains b n tm where "q' = q\<lparr>tq_brk := b, tq_heap := (tq_heap q)(p \<mapsto> tm), tq_numCreated := n\<rparr>" "p < b" "tq_brk q \<le> b"
    "tq_heap q p = None" "t_expiration tm = whn"
proof -
  have brk: "\<forall>x \<in> dom (tq_heap q). x < tq_brk q" using assms(1) by (simp add: tq_inv_def)
  obtain p1 q1 where m: "malloc prefer q = (p1, q1)" by fastforce
  obtain b where b: "q1 = q\<lparr>tq_brk := b\<rparr>" "p1 < b" "tq_brk q \<le> b" "tq_heap q p1 = None" by (rule malloc_ok [OF brk m])
  obtain sq n where inc: "incrementAndGet (tq_numCreated q1) = (sq, n)" by fastforce
  from assms(2) m inc b(1) have r: "p = p1" "q' = q\<lparr>tq_brk := b, tq_heap := (tq_heap q)(p \<mapsto> \<lparr>t_callback = cb, t_expiration = whn,
      t_interval = interval, t_repeat = pos interval, t_sequence = sq\<rparr>), tq_numCreated := n\<rparr>"
    by (auto simp: new_Timer_def)
  show ?thesis by (rule that [OF r(2)]) (use b r(1) in simp_all)
qed

lemma new_Timer_ok:
  assumes inv: "tq_inv R q" and new: "new_Timer pos prefer cb whn interval q = (p, q')"
  shows "tq_inv (insert p R) q'" and "p \<notin> R"
proof -
  obtain b n tm where q': "q' = q\<lparr>tq_brk := b, tq_heap := (tq_heap q)(p \<mapsto> tm), tq_numCreated := n\<rparr>" "p < b" "tq_brk q \<le> b"
      "tq_heap q p = None" by (rule new_Timer_shape [OF inv new])
  show "p \<notin> R" using inv q'(4) by (auto simp: tq_inv_def)
  have other: "snd e \<noteq> p" if "e \<in> set (tq_timers q)" for e using inv that q'(4) by (auto simp: tq_inv_def)
  have ids: "id_of ((tq_heap q)(p \<mapsto> tm)) ` set (tq_timers q) = id_of (tq_heap q) ` set (tq_timers q)"
    by (rule ids_cong) (use other in simp)
  have "\<forall>x \<in> dom (tq_heap q). x < b" using inv q'(3) unfolding tq_inv_def by (metis order_less_le_trans)
  moreover have "insert p R \<inter> snd ` set (tq_timers q) = {}" using inv other by (auto simp: tq_inv_def)
  ultimately show "tq_inv (insert p R) q'"
    using inv q'(2) other by (auto simp: tq_inv_def q'(1) ids)
qed

lemma tq_insert_ok:
  assumes inv: "tq_inv R q" and p: "p \<in> R" "tq_heap q p = Some tm" and tid: "tq_threadId q = tid"
  shows "\<exists>e q'. tq_insert tid p q = Some (e, q') \<and> tq_inv (R - {p}) q'
     \<and> q' = q\<lparr>tq_timers := insort (t_expiration tm, p) (tq_timers q), tq_activeTimers := insert (p, t_sequence tm) (tq_activeTimers q)\<rparr>"
proof -
  let ?q = "q\<lparr>tq_timers := insort (t_expiration tm, p) (tq_timers q), tq_activeTimers := insert (p, t_sequence tm) (tq_activeTimers q)\<rparr>"
  have new: "p \<notin> snd ` set (tq_timers q)" using inv p(1) by (auto simp: tq_inv_def)
  have act: "tq_activeTimers q = id_of (tq_heap q) ` set (tq_timers q)" using inv by (simp add: tq_inv_def)
  have notin: "(t_expiration tm, p) \<notin> set (tq_timers q)" "(p, t_sequence tm) \<notin> tq_activeTimers q"
    using new unfolding act id_of_def by force+
  have dist: "distinct (map snd (insort (t_expiration tm, p) (tq_timers q)))"
  proof -
    have "mset (map snd (insort (t_expiration tm, p) (tq_timers q))) = mset (p # map snd (tq_timers q))" by simp
    then have "distinct (map snd (insort (t_expiration tm, p) (tq_timers q))) = distinct (p # map snd (tq_timers q))"
      by (rule mset_eq_imp_distinct_iff)
    then show ?thesis using inv new by (simp add: tq_inv_def)
  qed
  have "tq_inv (R - {p}) ?q"
    unfolding tq_inv_def
  proof (intro conjI)
    show "sorted (tq_timers ?q)" using inv by (simp add: tq_inv_def sorted_insort)
    show "tq_activeTimers ?q = id_of (tq_heap ?q) ` set (tq_timers ?q)"
      using inv p(2) by (simp add: tq_inv_def set_insort_key id_of_def)
  qed (use inv p dist in \<open>auto simp: tq_inv_def set_insort_key\<close>)
  moreover have "tq_insert tid p q = Some (tq_timers q = [] \<or> t_expiration tm < fst (hd (tq_timers q)), ?q)"
    using inv p notin tid tq_inv_sizes [OF calculation] by (simp add: tq_insert_def tq_inLoop_def Let_def)
  ultimately show ?thesis by blast
qed

lemma tq_inv_fields [simp]:
  "tq_inv R (q\<lparr>tq_armed := a\<rparr>) = tq_inv R q" "tq_inv R (q\<lparr>tq_fired := f\<rparr>) = tq_inv R q"
  "tq_inv R (q\<lparr>tq_callingExpiredTimers := c\<rparr>) = tq_inv R q" "tq_inv R (q\<lparr>tq_cancelingTimers := cs\<rparr>) = tq_inv R q"
  "tq_inv R (q\<lparr>tq_pending := fs\<rparr>) = tq_inv R q"
  by (simp_all add: tq_inv_def)

text \<open>What the operations of a callback leave alone.\<close>

definition tq_kept :: "nat set \<Rightarrow> 'd TimerQueue \<Rightarrow> 'd TimerQueue \<Rightarrow> bool" where
  "tq_kept R q q' \<longleftrightarrow> tq_threadId q' = tq_threadId q \<and> (\<forall>p \<in> R. tq_heap q' p = tq_heap q p)
     \<and> tq_callingExpiredTimers q' = tq_callingExpiredTimers q \<and> tq_cancelingTimers q \<subseteq> tq_cancelingTimers q'
     \<and> tq_fired q' = tq_fired q"

lemma tq_kept_trans: "tq_kept R q q1 \<Longrightarrow> tq_kept R q1 q2 \<Longrightarrow> tq_kept R q q2"
  unfolding tq_kept_def by auto

lemma addTimer_ok:
  assumes inv: "tq_inv R q" and tid: "tq_threadId q = tid"
  shows "\<exists>p sq q'. addTimer pos tid t prefer cb whn interval q = Some ((p, sq), q') \<and> tq_inv R q' \<and> tq_kept R q q'
      \<and> set (tq_timers q') = insert (whn, p) (set (tq_timers q)) \<and> tq_heap q p = None \<and> (\<forall>x. x \<noteq> p \<longrightarrow> tq_heap q' x = tq_heap q x)"
proof -
  obtain p q1 where new: "new_Timer pos prefer cb whn interval q = (p, q1)" by fastforce
  obtain b n tm where q1: "q1 = q\<lparr>tq_brk := b, tq_heap := (tq_heap q)(p \<mapsto> tm), tq_numCreated := n\<rparr>"
      "tq_heap q p = None" "t_expiration tm = whn" by (rule new_Timer_shape [OF inv new])
  note n = new_Timer_ok [OF inv new]
  have tm: "tq_heap q1 p = Some tm" and tid1: "tq_threadId q1 = tid" using q1(1) tid by simp_all
  from tq_insert_ok [OF n(1) _ tm tid1] obtain e q2 where
    q2: "tq_insert tid p q1 = Some (e, q2)" "tq_inv (insert p R - {p}) q2"
      "q2 = q1\<lparr>tq_timers := insort (t_expiration tm, p) (tq_timers q1), tq_activeTimers := insert (p, t_sequence tm) (tq_activeTimers q1)\<rparr>"
    by blast
  let ?q' = "if e then resetTimerfd whn t q2 else q2"
  have R: "insert p R - {p} = R" using n(2) by blast
  have "addTimer pos tid t prefer cb whn interval q = Some ((p, t_sequence tm), ?q')"
    using new tm tid1 q2(1,3) q1(3) by (simp add: addTimer_def addTimerInLoop_def tq_inLoop_def)
  moreover have "tq_inv R ?q'" using q2(2) unfolding R by (simp add: resetTimerfd_def)
  moreover have "tq_kept R q ?q'" "set (tq_timers ?q') = insert (whn, p) (set (tq_timers q))"
    using n(2) by (auto simp: q2(3) q1 tq_kept_def resetTimerfd_def set_insort_key)
  moreover have "\<forall>x. x \<noteq> p \<longrightarrow> tq_heap ?q' x = tq_heap q x" by (simp add: q2(3) q1(1) resetTimerfd_def)
  ultimately show ?thesis using q1(2) by blast
qed

lemma cancel_active:
  assumes inv: "tq_inv R q" and e: "e \<in> set (tq_timers q)"
  shows "tq_inv R (q\<lparr>tq_timers := remove1 e (tq_timers q), tq_heap := (tq_heap q)(snd e := None),
    tq_activeTimers := tq_activeTimers q - {id_of (tq_heap q) e}\<rparr>)"
proof -
  let ?ts = "remove1 e (tq_timers q)"
  have d: "distinct (map snd (tq_timers q))" using inv by (simp add: tq_inv_def)
  then have "distinct (tq_timers q)" using distinct_map by blast
  then have set: "set ?ts = set (tq_timers q) - {e}" by simp
  have other: "snd x \<noteq> snd e" if "x \<in> set (tq_timers q)" "x \<noteq> e" for x
    using d that e by (auto simp: distinct_map inj_on_def)
  have ids: "id_of ((tq_heap q)(snd e := None)) ` (set (tq_timers q) - {e}) = id_of (tq_heap q) ` set (tq_timers q) - {id_of (tq_heap q) e}"
  proof -
    have "id_of ((tq_heap q)(snd e := None)) ` (set (tq_timers q) - {e}) = id_of (tq_heap q) ` (set (tq_timers q) - {e})"
      by (rule image_cong) (use other in \<open>auto simp: id_of_def\<close>)
    also have "\<dots> = id_of (tq_heap q) ` set (tq_timers q) - {id_of (tq_heap q) e}"
      using other e by (auto simp: id_of_def)
    finally show ?thesis .
  qed
  have "distinct (map snd ?ts)" using d by (metis distinct_remove1 distinct_map inj_on_subset set Diff_subset)
  moreover have "sorted ?ts" using inv by (simp add: tq_inv_def sorted_remove1)
  moreover have "snd e \<notin> R" using inv e by (auto simp: tq_inv_def)
  ultimately show ?thesis
    using inv other by (auto simp: tq_inv_def set ids)
qed

lemma cancelInLoop_ok:
  assumes inv: "tq_inv R q" and tid: "tq_threadId q = tid"
  shows "\<exists>q'. cancelInLoop tid timer q = Some q' \<and> tq_inv R q' \<and> tq_kept R q q' \<and> set (tq_timers q') \<subseteq> set (tq_timers q)
      \<and> (tq_callingExpiredTimers q \<longrightarrow> fst timer \<in> R \<longrightarrow> timer \<in> tq_cancelingTimers q')
      \<and> (timer \<in> tq_activeTimers q \<longrightarrow> fst timer \<notin> snd ` set (tq_timers q'))
      \<and> (\<forall>e \<in> set (tq_timers q). id_of (tq_heap q) e \<noteq> timer \<longrightarrow> e \<in> set (tq_timers q') \<and> tq_heap q' (snd e) = tq_heap q (snd e))"
proof (cases "timer \<in> tq_activeTimers q")
  case True
  then obtain e where e: "e \<in> set (tq_timers q)" "timer = id_of (tq_heap q) e" using inv by (auto simp: tq_inv_def)
  with inv obtain tm where tm: "tq_heap q (snd e) = Some tm" "t_expiration tm = fst e" by (auto simp: tq_inv_def)
  let ?q = "q\<lparr>tq_timers := remove1 e (tq_timers q), tq_heap := (tq_heap q)(snd e := None),
    tq_activeTimers := tq_activeTimers q - {id_of (tq_heap q) e}\<rparr>"
  note inv' = cancel_active [OF inv e(1)]
  have nR: "snd e \<notin> R" using inv e(1) by (auto simp: tq_inv_def)
  have "cancelInLoop tid timer q = Some ?q"
    using True e tm tid inv tq_inv_sizes [OF inv'] by (simp add: cancelInLoop_def tq_inLoop_def id_of_def delete_Timer_def)
  moreover have "tq_kept R q ?q" using nR by (auto simp: tq_kept_def)
  moreover have "snd e \<notin> snd ` set (remove1 e (tq_timers q))"
    using inv e(1) by (auto simp: tq_inv_def distinct_map inj_on_def)
  moreover have "set (remove1 e (tq_timers q)) \<subseteq> set (tq_timers q)" by (rule set_remove1_subset)
  moreover have "x \<in> set (tq_timers ?q) \<and> tq_heap ?q (snd x) = tq_heap q (snd x)" if "x \<in> set (tq_timers q)" "id_of (tq_heap q) x \<noteq> timer" for x
  proof -
    have "x \<noteq> e" using that e(2) by auto
    moreover have "snd x \<noteq> snd e" using inv that(1) e(1) calculation by (auto simp: tq_inv_def distinct_map inj_on_def)
    ultimately show ?thesis using that(1) by simp
  qed
  ultimately show ?thesis using inv' e(2) nR by (intro exI [of _ ?q]) (simp add: id_of_def)
next
  case False
  with inv tid show ?thesis by (auto simp: cancelInLoop_def tq_inLoop_def tq_kept_def)
qed

section \<open>Running the expired timers\<close>

lemma exec_cmd_ok:
  assumes "tq_inv R q" and "tq_threadId q = tid"
  shows "\<exists>q'. exec_cmd pos tid c q = Some q' \<and> tq_inv R q' \<and> tq_kept R q q'
      \<and> (\<forall>timer. c = CmdCancel timer \<longrightarrow> tq_callingExpiredTimers q \<longrightarrow> fst timer \<in> R \<longrightarrow> timer \<in> tq_cancelingTimers q')"
proof (cases c)
  case (CmdAdd pf cb whn interval t)
  from addTimer_ok [OF assms, of pos t pf cb whn interval] CmdAdd show ?thesis by auto
next
  case (CmdCancel timer)
  from cancelInLoop_ok [OF assms, of timer] CmdCancel assms(2) show ?thesis by (auto simp: cancel_def)
qed

lemma exec_cmds_ok:
  assumes "tq_inv R q" and "tq_threadId q = tid"
  shows "\<exists>q'. put_all (exec_cmd pos tid) cs q = Some q' \<and> tq_inv R q' \<and> tq_kept R q q'
      \<and> (\<forall>timer. CmdCancel timer \<in> set cs \<longrightarrow> tq_callingExpiredTimers q \<longrightarrow> fst timer \<in> R \<longrightarrow> timer \<in> tq_cancelingTimers q')"
  using assms
proof (induction cs arbitrary: q)
  case Nil
  then show ?case by (simp add: tq_kept_def)
next
  case (Cons c cs)
  from exec_cmd_ok [OF Cons.prems, of pos c] obtain q1 where q1: "exec_cmd pos tid c q = Some q1" "tq_inv R q1" "tq_kept R q q1"
      "\<forall>timer. c = CmdCancel timer \<longrightarrow> tq_callingExpiredTimers q \<longrightarrow> fst timer \<in> R \<longrightarrow> timer \<in> tq_cancelingTimers q1" by blast
  have tid: "tq_threadId q1 = tid" using q1(3) Cons.prems(2) by (simp add: tq_kept_def)
  from Cons.IH [OF q1(2) tid] obtain q2 where q2: "put_all (exec_cmd pos tid) cs q1 = Some q2" "tq_inv R q2" "tq_kept R q1 q2"
      "\<forall>timer. CmdCancel timer \<in> set cs \<longrightarrow> tq_callingExpiredTimers q1 \<longrightarrow> fst timer \<in> R \<longrightarrow> timer \<in> tq_cancelingTimers q2" by blast
  have "tq_callingExpiredTimers q1 = tq_callingExpiredTimers q" "tq_cancelingTimers q1 \<subseteq> tq_cancelingTimers q2"
    using q1(3) q2(3) by (simp_all add: tq_kept_def)
  with q1 q2 tq_kept_trans [OF q1(3) q2(3)] show ?case by auto
qed

text \<open>The callback of the timer at an entry.\<close>

definition cb_of :: "(nat \<rightharpoonup> 'd Timer) \<Rightarrow> Timestamp \<times> nat \<Rightarrow> nat" where
  "cb_of h e = t_callback (the (h (snd e)))"

lemma run_timers_ok:
  assumes "tq_inv R q" and "tq_threadId q = tid" and "snd ` set es \<subseteq> R" and "tq_callingExpiredTimers q"
  shows "\<exists>q'. put_all (\<lambda>e. run_timer pos prog tid (snd e)) es q = Some q' \<and> tq_inv R q' \<and> tq_threadId q' = tid
      \<and> (\<forall>p \<in> R. tq_heap q' p = tq_heap q p) \<and> tq_cancelingTimers q \<subseteq> tq_cancelingTimers q'
      \<and> tq_fired q' = tq_fired q @ map (cb_of (tq_heap q)) es
      \<and> (\<forall>timer e. e \<in> set es \<longrightarrow> CmdCancel timer \<in> set (prog (cb_of (tq_heap q) e)) \<longrightarrow> fst timer \<in> R \<longrightarrow> timer \<in> tq_cancelingTimers q')"
  using assms
proof (induction es arbitrary: q)
  case (Cons e es)
  have R: "snd e \<in> R" using Cons.prems(3) by simp
  with Cons.prems(1) obtain tm where tm: "tq_heap q (snd e) = Some tm" by (auto simp: tq_inv_def)
  let ?q = "q\<lparr>tq_fired := tq_fired q @ [t_callback tm]\<rparr>"
  have "tq_inv R ?q" "tq_threadId ?q = tid" using Cons.prems(1,2) by simp_all
  from exec_cmds_ok [OF this, of pos "prog (t_callback tm)"] obtain q1 where
    q1: "put_all (exec_cmd pos tid) (prog (t_callback tm)) ?q = Some q1" "tq_inv R q1" "tq_kept R ?q q1"
      "\<forall>timer. CmdCancel timer \<in> set (prog (t_callback tm)) \<longrightarrow> tq_callingExpiredTimers ?q \<longrightarrow> fst timer \<in> R \<longrightarrow> timer \<in> tq_cancelingTimers q1"
    by blast
  have k: "tq_threadId q1 = tid" "\<forall>p \<in> R. tq_heap q1 p = tq_heap q p" "tq_callingExpiredTimers q1"
      "tq_cancelingTimers q \<subseteq> tq_cancelingTimers q1" "tq_fired q1 = tq_fired q @ [t_callback tm]"
    using q1(3) Cons.prems(2,4) by (simp_all add: tq_kept_def)
  have same: "cb_of (tq_heap q1) x = cb_of (tq_heap q) x" if "x \<in> set es" for x
    using k(2) that Cons.prems(3) by (auto simp: cb_of_def)
  from Cons.IH [OF q1(2) k(1) _ k(3)] Cons.prems(3) obtain q2 where
    q2: "put_all (\<lambda>e. run_timer pos prog tid (snd e)) es q1 = Some q2" "tq_inv R q2" "tq_threadId q2 = tid"
      "\<forall>p \<in> R. tq_heap q2 p = tq_heap q1 p" "tq_cancelingTimers q1 \<subseteq> tq_cancelingTimers q2"
      "tq_fired q2 = tq_fired q1 @ map (cb_of (tq_heap q1)) es"
      "\<forall>timer e. e \<in> set es \<longrightarrow> CmdCancel timer \<in> set (prog (cb_of (tq_heap q1) e)) \<longrightarrow> fst timer \<in> R \<longrightarrow> timer \<in> tq_cancelingTimers q2"
    by auto
  have cb: "cb_of (tq_heap q) e = t_callback tm" using tm by (simp add: cb_of_def)
  have "put_all (\<lambda>e. run_timer pos prog tid (snd e)) (e # es) q = Some q2"
    using tm q1(1) q2(1) by (simp add: run_timer_def)
  moreover have "tq_fired q2 = tq_fired q @ map (cb_of (tq_heap q)) (e # es)" using q2(6) k(5) cb same by simp
  moreover have "timer \<in> tq_cancelingTimers q2"
    if "x \<in> set (e # es)" "CmdCancel timer \<in> set (prog (cb_of (tq_heap q) x))" "fst timer \<in> R" for timer x
  proof (cases "x = e")
    case True
    with that cb q1(4) Cons.prems(4) have "timer \<in> tq_cancelingTimers q1" by (cases timer) simp
    with q2(5) show ?thesis by blast
  next
    case False
    with that have "x \<in> set es" by simp
    with q2(7) [rule_format, of x timer] that same show ?thesis by simp
  qed
  ultimately show ?case using q2 k by (intro exI [of _ q2]) auto
qed simp

text \<open>A timer in the queue that no callback cancels stays there.\<close>

definition queued_timer :: "Timestamp \<Rightarrow> nat \<Rightarrow> 'd Timer \<Rightarrow> 'd TimerQueue \<Rightarrow> bool" where
  "queued_timer w p tm q \<longleftrightarrow> (w, p) \<in> set (tq_timers q) \<and> tq_heap q p = Some tm"

lemma exec_cmd_stays:
  assumes "tq_inv R q" and "tq_threadId q = tid" and "queued_timer w p tm q" and "c \<noteq> CmdCancel (p, t_sequence tm)"
    and "exec_cmd pos tid c q = Some q'"
  shows "queued_timer w p tm q'"
proof (cases c)
  case (CmdAdd pf cb whn interval t)
  from addTimer_ok [OF assms(1,2), of pos t pf cb whn interval] obtain p' sq q1 where
    "addTimer pos tid t pf cb whn interval q = Some ((p', sq), q1)" "set (tq_timers q1) = insert (whn, p') (set (tq_timers q))"
    "tq_heap q p' = None" "\<forall>x. x \<noteq> p' \<longrightarrow> tq_heap q1 x = tq_heap q x" by auto
  moreover from this assms(3) have "p \<noteq> p'" by (auto simp: queued_timer_def)
  moreover have "q' = q1" using CmdAdd assms(5) calculation(1) by simp
  ultimately show ?thesis using assms(3) by (simp add: queued_timer_def)
next
  case (CmdCancel timer)
  from cancelInLoop_ok [OF assms(1,2), of timer] obtain q1 where "cancelInLoop tid timer q = Some q1"
    "\<forall>e \<in> set (tq_timers q). id_of (tq_heap q) e \<noteq> timer \<longrightarrow> e \<in> set (tq_timers q1) \<and> tq_heap q1 (snd e) = tq_heap q (snd e)" by blast
  moreover from this have "q' = q1" using CmdCancel assms(2,5) by (simp add: cancel_def)
  moreover have "id_of (tq_heap q) (w, p) \<noteq> timer" "(w, p) \<in> set (tq_timers q)"
    using CmdCancel assms(3,4) by (auto simp: queued_timer_def id_of_def)
  ultimately show ?thesis using assms(3) by (fastforce simp: queued_timer_def)
qed

lemma exec_cmds_stay:
  assumes "tq_inv R q" and "tq_threadId q = tid" and "queued_timer w p tm q" and "CmdCancel (p, t_sequence tm) \<notin> set cs"
    and "put_all (exec_cmd pos tid) cs q = Some q'"
  shows "queued_timer w p tm q'"
proof -
  have "tq_inv R q' \<and> tq_threadId q' = tid \<and> queued_timer w p tm q'"
  proof (rule put_all_invariant [where I = "\<lambda>q. tq_inv R q \<and> tq_threadId q = tid \<and> queued_timer w p tm q", OF _ _ assms(5)])
    fix c q q1
    assume c: "c \<in> set cs" and q: "tq_inv R q \<and> tq_threadId q = tid \<and> queued_timer w p tm q" and e: "exec_cmd pos tid c q = Some q1"
    have "c \<noteq> CmdCancel (p, t_sequence tm)" using c assms(4) by auto
    with exec_cmd_stays [of R q tid w p tm c pos q1] exec_cmd_ok [of R q tid pos c] q e
    show "tq_inv R q1 \<and> tq_threadId q1 = tid \<and> queued_timer w p tm q1" by (auto simp: tq_kept_def)
  qed (use assms in simp)
  then show ?thesis by simp
qed

lemma run_timers_stay:
  assumes "tq_inv R q" and "tq_threadId q = tid" and "snd ` set es \<subseteq> R" and "queued_timer w p tm q"
    and "\<forall>e \<in> set es. CmdCancel (p, t_sequence tm) \<notin> set (prog (cb_of (tq_heap q) e))"
    and "put_all (\<lambda>e. run_timer pos prog tid (snd e)) es q = Some q'"
  shows "queued_timer w p tm q'"
  using assms
proof (induction es arbitrary: q)
  case (Cons e es)
  have "snd e \<in> R" using Cons.prems(3) by simp
  with Cons.prems(1) obtain tm' where tm': "tq_heap q (snd e) = Some tm'" by (auto simp: tq_inv_def)
  let ?q = "q\<lparr>tq_fired := tq_fired q @ [t_callback tm']\<rparr>"
  have q: "tq_inv R ?q" "tq_threadId ?q = tid" "queued_timer w p tm ?q"
    using Cons.prems(1,2,4) by (simp_all add: queued_timer_def)
  from exec_cmds_ok [OF q(1,2), of pos "prog (t_callback tm')"] obtain q1 where
    q1: "put_all (exec_cmd pos tid) (prog (t_callback tm')) ?q = Some q1" "tq_inv R q1" "tq_kept R ?q q1" by blast
  have k: "tq_threadId q1 = tid" "\<forall>x \<in> R. tq_heap q1 x = tq_heap q x" using q1(3) Cons.prems(2) by (simp_all add: tq_kept_def)
  have "cb_of (tq_heap q) e = t_callback tm'" using tm' by (simp add: cb_of_def)
  then have "CmdCancel (p, t_sequence tm) \<notin> set (prog (t_callback tm'))" using Cons.prems(5) by simp
  from exec_cmds_stay [OF q this q1(1)] have st: "queued_timer w p tm q1" .
  have "\<forall>x \<in> set es. cb_of (tq_heap q1) x = cb_of (tq_heap q) x"
    using k(2) Cons.prems(3) by (auto simp: cb_of_def)
  then have nc: "\<forall>x \<in> set es. CmdCancel (p, t_sequence tm) \<notin> set (prog (cb_of (tq_heap q1) x))" using Cons.prems(5) by simp
  have "put_all (\<lambda>e. run_timer pos prog tid (snd e)) es q1 = Some q'"
  proof -
    have "run_timer pos prog tid (snd e) q = Some q1" using tm' q1(1) by (simp add: run_timer_def)
    with Cons.prems(6) show ?thesis by simp
  qed
  from Cons.IH [OF q1(2) k(1) _ st nc this] Cons.prems(3) show ?case by simp
qed simp

section \<open>Expiration in the original\<close>

lemma sorted_due: "sorted ts \<Longrightarrow> takeWhile (due tnow) ts = filter (due tnow) ts \<and> dropWhile (due tnow) ts = filter (\<lambda>e. \<not> due tnow e) ts"
proof (induction ts)
  case (Cons e ts)
  show ?case
  proof (cases "due tnow e")
    case True
    with Cons show ?thesis by simp
  next
    case False
    have "\<not> due tnow x" if "x \<in> set ts" for x
    proof -
      have "e \<le> x" using Cons.prems that by simp
      then have "fst e \<le> fst x" by (auto simp: less_eq_prod_def)
      with False show ?thesis by (auto simp: due_def)
    qed
    with False show ?thesis by simp
  qed
qed simp

lemma erase_active_ok:
  assumes "distinct (map snd es)" and "\<forall>e \<in> set es. tq_heap q (snd e) \<noteq> None" and "id_of (tq_heap q) ` set es \<subseteq> tq_activeTimers q"
  shows "put_all erase_active es q = Some (q\<lparr>tq_activeTimers := tq_activeTimers q - id_of (tq_heap q) ` set es\<rparr>)"
  using assms
proof (induction es arbitrary: q)
  case (Cons e es)
  let ?q = "q\<lparr>tq_activeTimers := tq_activeTimers q - {id_of (tq_heap q) e}\<rparr>"
  have e: "erase_active e q = Some ?q"
    using Cons.prems by (auto simp: erase_active_def id_of_def)
  have "snd e \<notin> snd ` set es" using Cons.prems(1) by simp
  then have "id_of (tq_heap q) e \<notin> id_of (tq_heap q) ` set es" by (auto simp: id_of_def)
  then have "id_of (tq_heap ?q) ` set es \<subseteq> tq_activeTimers ?q" using Cons.prems(3) by auto
  with Cons.IH [of ?q] Cons.prems(1,2) have "put_all erase_active es ?q
      = Some (?q\<lparr>tq_activeTimers := tq_activeTimers ?q - id_of (tq_heap q) ` set es\<rparr>)" by simp
  moreover have "A - {x} - B = A - insert x B" for A B :: "TimerId set" and x by blast
  ultimately show ?case using e by simp
qed simp

lemma ids_diff:
  assumes "distinct (map snd ts)"
  shows "id_of h ` set ts - id_of h ` set (filter P ts) = id_of h ` set (filter (\<lambda>e. \<not> P e) ts)"
proof -
  have "inj_on (id_of h) (set ts)"
    using assms by (auto simp: distinct_map inj_on_def id_of_def)
  then have "id_of h ` set ts - id_of h ` set (filter P ts) = id_of h ` (set ts - set (filter P ts))"
    by (metis filter_is_subset inj_on_image_set_diff Diff_subset order_refl)
  moreover have "set ts - set (filter P ts) = set (filter (\<lambda>e. \<not> P e) ts)" by auto
  ultimately show ?thesis by simp
qed

lemma muduo_getExpired_ok:
  assumes inv: "tq_inv {} q"
  shows "\<exists>q'. muduo_getExpired tnow q = Some (filter (due tnow) (tq_timers q), q')
      \<and> tq_inv (snd ` set (filter (due tnow) (tq_timers q))) q'
      \<and> q' = q\<lparr>tq_timers := filter (\<lambda>e. \<not> due tnow e) (tq_timers q), tq_activeTimers := tq_activeTimers q'\<rparr>"
proof -
  let ?ts = "tq_timers q" and ?ex = "filter (due tnow) (tq_timers q)" and ?rest = "filter (\<lambda>e. \<not> due tnow e) (tq_timers q)"
  have d: "distinct (map snd ?ts)" and act: "tq_activeTimers q = id_of (tq_heap q) ` set ?ts" and so: "sorted ?ts"
    using inv by (simp_all add: tq_inv_def)
  have parts: "takeWhile (due tnow) ?ts = ?ex" "dropWhile (due tnow) ?ts = ?rest" using sorted_due [OF so] by simp_all
  have later: "?rest = [] \<or> tnow < fst (hd ?rest)"
  proof (cases "?rest = []")
    case False
    then have "hd ?rest \<in> set ?rest" by (rule hd_in_set)
    then show ?thesis by (auto simp: due_def)
  qed simp
  let ?q = "q\<lparr>tq_timers := ?rest, tq_activeTimers := id_of (tq_heap q) ` set ?rest\<rparr>"
  have dex: "distinct (map snd ?ex)" "distinct (map snd ?rest)" using d by (simp_all add: distinct_map_filter)
  have al: "\<forall>e \<in> set ?ex. tq_heap (q\<lparr>tq_timers := ?rest\<rparr>) (snd e) \<noteq> None" using inv by (auto simp: tq_inv_def)
  have ac: "id_of (tq_heap (q\<lparr>tq_timers := ?rest\<rparr>)) ` set ?ex \<subseteq> tq_activeTimers (q\<lparr>tq_timers := ?rest\<rparr>)"
    using act by auto
  have er: "put_all erase_active ?ex (q\<lparr>tq_timers := ?rest\<rparr>) = Some ?q"
    using erase_active_ok [OF dex(1) al ac] ids_diff [OF d, of "tq_heap q" "due tnow"] act by simp
  have "snd ` set ?ex \<inter> snd ` set ?rest = {}" using d by (auto simp: distinct_map inj_on_def)
  moreover have "sorted ?rest" using so by (simp add: sorted_filter [of id, simplified])
  ultimately have inv': "tq_inv (snd ` set ?ex) ?q"
    using inv dex(2) by (auto simp: tq_inv_def)
  have "muduo_getExpired tnow q = Some (?ex, ?q)"
    using inv parts later er tq_inv_sizes [OF inv'] by (simp add: muduo_getExpired_def Let_def)
  with inv' show ?thesis by (intro exI [of _ ?q]) simp
qed

text \<open>What \<^verbatim>\<open>reset\<close> puts back.\<close>

definition rearmed :: "('d \<Rightarrow> int) \<Rightarrow> Timestamp \<Rightarrow> 'd TimerQueue \<Rightarrow> (Timestamp \<times> nat) list \<Rightarrow> (Timestamp \<times> nat) set" where
  "rearmed to_us tnow q es = {(addTime to_us tnow (t_interval tm), snd e) | e tm. e \<in> set es \<and> tq_heap q (snd e) = Some tm
     \<and> t_repeat tm \<and> (snd e, t_sequence tm) \<notin> tq_cancelingTimers q}"

lemma reset_timer_ok:
  assumes inv: "tq_inv R q" and tid: "tq_threadId q = tid" and e: "snd e \<in> R"
  shows "\<exists>q'. reset_timer to_us tid tnow e q = Some q' \<and> tq_inv (R - {snd e}) q' \<and> tq_threadId q' = tid
      \<and> set (tq_timers q') = set (tq_timers q) \<union> rearmed to_us tnow q [e]
      \<and> tq_cancelingTimers q' = tq_cancelingTimers q \<and> (\<forall>p. p \<noteq> snd e \<longrightarrow> tq_heap q' p = tq_heap q p) \<and> tq_fired q' = tq_fired q"
proof -
  from inv e obtain tm where tm: "tq_heap q (snd e) = Some tm" by (auto simp: tq_inv_def)
  show ?thesis
  proof (cases "t_repeat tm \<and> (snd e, t_sequence tm) \<notin> tq_cancelingTimers q")
    case True
    let ?tm = "restart to_us tnow tm"
    let ?q = "q\<lparr>tq_heap := (tq_heap q)(snd e \<mapsto> ?tm)\<rparr>"
    have "tq_heap ?q (snd e) = Some ?tm" "tq_threadId ?q = tid" using tid by simp_all
    from tq_insert_ok [OF tq_inv_heap(1) [OF inv e] e this] obtain b q' where
      q': "tq_insert tid (snd e) ?q = Some (b, q')" "tq_inv (R - {snd e}) q'"
        "q' = ?q\<lparr>tq_timers := insort (t_expiration ?tm, snd e) (tq_timers ?q), tq_activeTimers := insert (snd e, t_sequence ?tm) (tq_activeTimers ?q)\<rparr>"
      by blast
    have "rearmed to_us tnow q [e] = {(t_expiration ?tm, snd e)}"
      using True tm by (cases e) (auto simp: rearmed_def restart_def)
    then have "set (tq_timers q') = set (tq_timers q) \<union> rearmed to_us tnow q [e]" by (simp add: q'(3) set_insort_key)
    moreover have "reset_timer to_us tid tnow e q = Some q'" using True tm q'(1) by (simp add: reset_timer_def)
    ultimately show ?thesis using q'(2) tid by (intro exI [of _ q']) (simp add: q'(3))
  next
    case False
    then have "rearmed to_us tnow q [e] = {}" using tm by (auto simp: rearmed_def)
    with False tm tq_inv_heap(2) [OF inv e] tid show ?thesis
      by (intro exI [of _ "delete_Timer (snd e) q"]) (auto simp: reset_timer_def delete_Timer_def)
  qed
qed

lemma reset_timers_ok:
  assumes "tq_inv R q" and "tq_threadId q = tid" and "snd ` set es \<subseteq> R" and "distinct (map snd es)"
  shows "\<exists>q'. put_all (reset_timer to_us tid tnow) es q = Some q' \<and> tq_inv (R - snd ` set es) q' \<and> tq_threadId q' = tid
      \<and> set (tq_timers q') = set (tq_timers q) \<union> rearmed to_us tnow q es \<and> tq_fired q' = tq_fired q
      \<and> tq_cancelingTimers q' = tq_cancelingTimers q"
  using assms
proof (induction es arbitrary: q R)
  case Nil
  then show ?case by (simp add: rearmed_def)
next
  case (Cons e es)
  from reset_timer_ok [OF Cons.prems(1,2), of e to_us tnow] Cons.prems(3) obtain q1 where
    q1: "reset_timer to_us tid tnow e q = Some q1" "tq_inv (R - {snd e}) q1" "tq_threadId q1 = tid"
      "set (tq_timers q1) = set (tq_timers q) \<union> rearmed to_us tnow q [e]" "tq_cancelingTimers q1 = tq_cancelingTimers q"
      "\<forall>p. p \<noteq> snd e \<longrightarrow> tq_heap q1 p = tq_heap q p" "tq_fired q1 = tq_fired q" by auto
  have ne: "snd x \<noteq> snd e" if "x \<in> set es" for x using Cons.prems(4) that by (auto simp: image_iff)
  then have "snd ` set es \<subseteq> R - {snd e}" using Cons.prems(3) by auto
  from Cons.IH [OF q1(2,3) this] Cons.prems(4) obtain q2 where
    q2: "put_all (reset_timer to_us tid tnow) es q1 = Some q2" "tq_inv (R - {snd e} - snd ` set es) q2" "tq_threadId q2 = tid"
      "set (tq_timers q2) = set (tq_timers q1) \<union> rearmed to_us tnow q1 es" "tq_fired q2 = tq_fired q1"
      "tq_cancelingTimers q2 = tq_cancelingTimers q1" by auto
  have "rearmed to_us tnow q1 es = rearmed to_us tnow q es"
    using q1(5,6) ne unfolding rearmed_def by force
  moreover have "rearmed to_us tnow q (e # es) = rearmed to_us tnow q [e] \<union> rearmed to_us tnow q es"
    by (auto simp: rearmed_def)
  moreover have "R - {snd e} - snd ` set es = R - snd ` set (e # es)" by auto
  ultimately show ?case using q1 q2 by auto
qed

lemma tq_reset_ok:
  assumes "tq_inv R q" and "tq_threadId q = tid" and "snd ` set es = R" and "distinct (map snd es)"
  shows "\<exists>q'. tq_reset to_us tid t es tnow q = Some q' \<and> tq_inv {} q' \<and> tq_threadId q' = tid
      \<and> set (tq_timers q') = set (tq_timers q) \<union> rearmed to_us tnow q es \<and> tq_fired q' = tq_fired q
      \<and> tq_cancelingTimers q' = tq_cancelingTimers q"
proof -
  from reset_timers_ok [OF assms(1,2) _ assms(4), of to_us tnow] assms(3) obtain q1 where
    q1: "put_all (reset_timer to_us tid tnow) es q = Some q1" "tq_inv {} q1" "tq_threadId q1 = tid"
      "set (tq_timers q1) = set (tq_timers q) \<union> rearmed to_us tnow q es" "tq_fired q1 = tq_fired q"
      "tq_cancelingTimers q1 = tq_cancelingTimers q" by auto
  have "\<exists>w. (if tq_timers q1 = [] then Some Timestamp_invalid else map_option t_expiration (tq_heap q1 (snd (hd (tq_timers q1))))) = Some w"
  proof (cases "tq_timers q1 = []")
    case False
    then have "hd (tq_timers q1) \<in> set (tq_timers q1)" by simp
    with q1(2) False show ?thesis unfolding tq_inv_def by fastforce
  qed simp
  then obtain w where "(if tq_timers q1 = [] then Some Timestamp_invalid else map_option t_expiration (tq_heap q1 (snd (hd (tq_timers q1))))) = Some w"
    by blast
  with q1 show ?thesis by (auto simp: tq_reset_def resetTimerfd_def)
qed

lemma muduo_handleRead_ok:
  assumes inv: "tq_inv {} q" and tid: "tq_threadId q = tid"
  shows "\<exists>q'. muduo_handleRead pos to_us prog tid tnow t q = Some q' \<and> tq_inv {} q' \<and> tq_threadId q' = tid
      \<and> tq_fired q' = tq_fired q @ map (cb_of (tq_heap q)) (filter (due tnow) (tq_timers q))
      \<and> (\<forall>w p tm. (w, p) \<in> set (tq_timers q) \<longrightarrow> w \<le> tnow \<longrightarrow> tq_heap q p = Some tm \<longrightarrow>
           (if t_repeat tm \<and> (p, t_sequence tm) \<notin> tq_cancelingTimers q'
            then (addTime to_us tnow (t_interval tm), p) \<in> set (tq_timers q') else p \<notin> snd ` set (tq_timers q')))
      \<and> (\<forall>timer w p. (w, p) \<in> set (tq_timers q) \<longrightarrow> w \<le> tnow \<longrightarrow> CmdCancel timer \<in> set (prog (cb_of (tq_heap q) (w, p))) \<longrightarrow>
           (\<exists>w'. w' \<le> tnow \<and> (w', fst timer) \<in> set (tq_timers q)) \<longrightarrow> timer \<in> tq_cancelingTimers q')
      \<and> (\<forall>w p tm. (w, p) \<in> set (tq_timers q) \<longrightarrow> tnow < w \<longrightarrow> tq_heap q p = Some tm \<longrightarrow>
           (\<forall>e \<in> set (tq_timers q). due tnow e \<longrightarrow> CmdCancel (p, t_sequence tm) \<notin> set (prog (cb_of (tq_heap q) e))) \<longrightarrow>
           (w, p) \<in> set (tq_timers q'))"
proof -
  let ?ex = "filter (due tnow) (tq_timers q)" and ?R = "snd ` set (filter (due tnow) (tq_timers q))"
  from muduo_getExpired_ok [OF inv, of tnow] obtain q1 where
    q1: "muduo_getExpired tnow q = Some (?ex, q1)" "tq_inv ?R q1"
      "q1 = q\<lparr>tq_timers := filter (\<lambda>e. \<not> due tnow e) (tq_timers q), tq_activeTimers := tq_activeTimers q1\<rparr>" by blast
  let ?q1 = "q1\<lparr>tq_callingExpiredTimers := True, tq_cancelingTimers := {}\<rparr>"
  have fields: "tq_heap ?q1 = tq_heap q" "tq_threadId ?q1 = tid" "tq_fired ?q1 = tq_fired q" by (subst q1(3), simp add: tid)+
  have "tq_inv ?R ?q1" "tq_callingExpiredTimers ?q1" using q1(2) by simp_all
  from run_timers_ok [OF this(1) fields(2) subset_refl this(2), of pos prog] obtain q2 where
    q2: "put_all (\<lambda>e. run_timer pos prog tid (snd e)) ?ex ?q1 = Some q2" "tq_inv ?R q2" "tq_threadId q2 = tid"
      "\<forall>p \<in> ?R. tq_heap q2 p = tq_heap q p" "tq_fired q2 = tq_fired q @ map (cb_of (tq_heap q)) ?ex"
      "\<forall>timer e. e \<in> set ?ex \<longrightarrow> CmdCancel timer \<in> set (prog (cb_of (tq_heap q) e)) \<longrightarrow> fst timer \<in> ?R \<longrightarrow> timer \<in> tq_cancelingTimers q2"
    unfolding fields by blast
  let ?q2 = "q2\<lparr>tq_callingExpiredTimers := False\<rparr>"
  have "distinct (map snd ?ex)" using inv by (simp add: tq_inv_def distinct_map_filter)
  moreover have "tq_inv ?R ?q2" "tq_threadId ?q2 = tid" using q2(2,3) by simp_all
  ultimately obtain q' where q': "tq_reset to_us tid t ?ex tnow ?q2 = Some q'" "tq_inv {} q'" "tq_threadId q' = tid"
      "set (tq_timers q') = set (tq_timers ?q2) \<union> rearmed to_us tnow ?q2 ?ex" "tq_fired q' = tq_fired ?q2"
      "tq_cancelingTimers q' = tq_cancelingTimers ?q2"
    using tq_reset_ok [of ?R ?q2 tid ?ex to_us t tnow] by blast
  have run: "muduo_handleRead pos to_us prog tid tnow t q = Some q'"
    using tid q1(1) q2(1) q'(1) by (simp add: muduo_handleRead_def tq_inLoop_def)
  have again: "if t_repeat tm \<and> (p, t_sequence tm) \<notin> tq_cancelingTimers q'
            then (addTime to_us tnow (t_interval tm), p) \<in> set (tq_timers q') else p \<notin> snd ` set (tq_timers q')"
    if e: "(w, p) \<in> set (tq_timers q)" "w \<le> tnow" "tq_heap q p = Some tm" for w p tm
  proof -
    have ex: "(w, p) \<in> set ?ex" using e by (simp add: due_def)
    then have pR: "p \<in> ?R" by force
    then have h: "tq_heap ?q2 p = Some tm" using q2(4) [rule_format, OF pR] e(3) by simp
    have gone: "p \<notin> snd ` set (tq_timers ?q2)" using q2(2) pR by (auto simp: tq_inv_def)
    show ?thesis
    proof (cases "t_repeat tm \<and> (p, t_sequence tm) \<notin> tq_cancelingTimers q'")
      case True
      then have "(addTime to_us tnow (t_interval tm), p) \<in> rearmed to_us tnow ?q2 ?ex"
        using ex h q'(6) unfolding rearmed_def by (intro CollectI exI [of _ "(w, p)"] exI [of _ tm]) simp
      with True q'(4) show ?thesis by simp
    next
      case False
      have "p \<notin> snd ` rearmed to_us tnow ?q2 ?ex"
      proof
        assume "p \<in> snd ` rearmed to_us tnow ?q2 ?ex"
        then obtain tm' where "tq_heap ?q2 p = Some tm'" "t_repeat tm'" "(p, t_sequence tm') \<notin> tq_cancelingTimers ?q2"
          unfolding rearmed_def by fastforce
        with h False q'(6) show False by simp
      qed
      with False gone q'(4) show ?thesis by auto
    qed
  qed
  have cancel: "timer \<in> tq_cancelingTimers q'"
    if e: "(w, p) \<in> set (tq_timers q)" "w \<le> tnow" "CmdCancel timer \<in> set (prog (cb_of (tq_heap q) (w, p)))"
      "w' \<le> tnow" "(w', fst timer) \<in> set (tq_timers q)" for timer w p w'
  proof -
    have "(w, p) \<in> set ?ex" "(w', fst timer) \<in> set ?ex" using e by (simp_all add: due_def)
    then have "fst timer \<in> ?R" by force
    from q2(6) [rule_format, OF \<open>(w, p) \<in> set ?ex\<close> e(3) this] show ?thesis by (simp add: q'(6))
  qed
  have fired: "tq_fired q' = tq_fired q @ map (cb_of (tq_heap q)) ?ex" using q'(5) q2(5) by simp
  have stay: "(w, p) \<in> set (tq_timers q')"
    if e: "(w, p) \<in> set (tq_timers q)" "tnow < w" "tq_heap q p = Some tm"
      "\<forall>e \<in> set (tq_timers q). due tnow e \<longrightarrow> CmdCancel (p, t_sequence tm) \<notin> set (prog (cb_of (tq_heap q) e))" for w p tm
  proof -
    have "queued_timer w p tm ?q1"
      using e by (subst q1(3)) (simp add: queued_timer_def due_def)
    from run_timers_stay [OF _ fields(2) subset_refl this _ q2(1)] q1(2) e(4) fields(1) have "queued_timer w p tm q2" by simp
    then show ?thesis using q'(4) by (simp add: queued_timer_def)
  qed
  show ?thesis
    by (intro exI [of _ q'] conjI allI impI; (elim exE conjE)?)
       (fact run q'(2,3) fired | erule (2) again | erule (4) cancel | erule (3) stay)+
qed

section \<open>Properties\<close>

text \<open>The states of a queue whose loop's thread adds and cancels timers and handles expirations with \<open>handle\<close>.\<close>

inductive tq_reach :: "('d \<Rightarrow> bool) \<Rightarrow> (Timestamp \<Rightarrow> Timestamp \<Rightarrow> 'd TimerQueue \<Rightarrow> 'd TimerQueue option) \<Rightarrow> int \<Rightarrow> 'd TimerQueue \<Rightarrow> bool"
    for pos handle tid where
  new: "new_TimerQueue tid fd = Some q \<Longrightarrow> tq_reach pos handle tid q"
| add: "tq_reach pos handle tid q \<Longrightarrow> addTimer pos tid t pf cb whn interval q = Some (tmid, q') \<Longrightarrow> tq_reach pos handle tid q'"
| cancel: "tq_reach pos handle tid q \<Longrightarrow> cancel tid tmid q = Some q' \<Longrightarrow> tq_reach pos handle tid q'"
| expire: "tq_reach pos handle tid q \<Longrightarrow> handle tnow t q = Some q' \<Longrightarrow> tq_reach pos handle tid q'"

lemma tq_inv_new: "new_TimerQueue tid fd = Some q \<Longrightarrow> tq_inv {} q \<and> tq_threadId q = tid"
  by (auto simp: new_TimerQueue_def abort_elims tq_inv_def split: if_splits)

lemma tq_reach_inv:
  assumes handle: "\<And>q tnow t q'. tq_inv {} q \<Longrightarrow> tq_threadId q = tid \<Longrightarrow> handle tnow t q = Some q' \<Longrightarrow> tq_inv {} q' \<and> tq_threadId q' = tid"
  shows "tq_reach pos handle tid q \<Longrightarrow> tq_inv {} q \<and> tq_threadId q = tid"
proof (induction rule: tq_reach.induct)
  case (new fd q)
  then show ?case by (rule tq_inv_new)
next
  case (add q t pf cb whn interval tmid q')
  with addTimer_ok [of "{}" q tid pos t pf cb whn interval] show ?case by (auto simp: tq_kept_def)
next
  case (cancel q tmid q')
  with cancelInLoop_ok [of "{}" q tid tmid] show ?case by (auto simp: tq_kept_def cancel_def)
next
  case (expire q tnow t q')
  with handle show ?case by blast
qed

lemma muduo_reach_inv:
  assumes "tq_reach pos (muduo_handleRead pos to_us prog tid) tid q"
  shows "tq_inv {} q" and "tq_threadId q = tid"
proof -
  have "tq_inv {} q \<and> tq_threadId q = tid"
    using assms
  proof (rule tq_reach_inv [rotated])
    fix q tnow t q'
    assume "tq_inv {} q" "tq_threadId q = tid" "muduo_handleRead pos to_us prog tid tnow t q = Some q'"
    with muduo_handleRead_ok [of q tid pos to_us prog tnow t] show "tq_inv {} q' \<and> tq_threadId q' = tid" by auto
  qed
  then show "tq_inv {} q" "tq_threadId q = tid" by simp_all
qed

text \<open>C14: the timer queue of \<^verbatim>\<open>muduo/net\<close> keeps its two sets in step. However timers are added, cancelled and expire, and
  whatever further timers the callbacks add or cancel, no operation of the loop's thread fails an assertion
  or touches a deleted timer; handling an expiration runs exactly the callbacks that are due, in the order of
  their expiration.\<close>

theorem timer_queue_safe:
  assumes "tq_reach pos (muduo_handleRead pos to_us prog tid) tid q"
  shows "tq_inv {} q
    \<and> addTimer pos tid t pf cb whn interval q \<noteq> None \<and> cancel tid tmid q \<noteq> None
    \<and> (\<exists>q'. muduo_handleRead pos to_us prog tid tnow t q = Some q'
          \<and> tq_fired q' = tq_fired q @ map (cb_of (tq_heap q)) (filter (due tnow) (tq_timers q)))"
proof -
  note q = muduo_reach_inv [OF assms]
  have "addTimer pos tid t pf cb whn interval q \<noteq> None" using addTimer_ok [OF q, of pos t pf cb whn interval] by auto
  moreover have "cancel tid tmid q \<noteq> None" using cancelInLoop_ok [OF q, of tmid] q(2) by (auto simp: cancel_def)
  moreover have "\<exists>q'. muduo_handleRead pos to_us prog tid tnow t q = Some q'
          \<and> tq_fired q' = tq_fired q @ map (cb_of (tq_heap q)) (filter (due tnow) (tq_timers q))"
    using muduo_handleRead_ok [OF q, of pos to_us prog tnow t] by blast
  ultimately show ?thesis using q(1) by blast
qed

text \<open>A queue with a timer that repeats every two seconds and cancels itself the first time.\<close>

definition ex_prog :: "nat \<Rightarrow> int timer_cmd list" where
  "ex_prog cb = (if cb = 7 then [CmdCancel (1, 1)] else [])"

definition ex_queue :: "int TimerQueue" where
  "ex_queue = \<lparr>tq_threadId = 3, tq_timers = [(Timestamp 10, 1)], tq_activeTimers = {(1, 1)}, tq_callingExpiredTimers = False,
     tq_cancelingTimers = {},
     tq_heap = [1 \<mapsto> \<lparr>t_callback = 7, t_expiration = Timestamp 10, t_interval = 2, t_repeat = True, t_sequence = 1\<rparr>],
     tq_brk = 2, tq_numCreated = 1, tq_armed = Some (0, 100000), tq_pending = [], tq_fired = []\<rparr>"

lemma ex_queue_reach: "tq_reach (\<lambda>d. 0 < d) handle 3 ex_queue"
proof -
  obtain q :: "int TimerQueue" where q: "new_TimerQueue 3 9 = Some q" by (simp add: new_TimerQueue_def)
  have "addTimer (\<lambda>d. 0 < d) 3 (Timestamp 0) 0 7 (Timestamp 10) 2 q = Some ((1, 1), ex_queue)"
    using q by (auto simp: new_TimerQueue_def addTimer_def new_Timer_def malloc_def incrementAndGet_def addAndGet_def getAndAdd_def
        addTimerInLoop_def tq_insert_def tq_inLoop_def tq_sizes_def resetTimerfd_def howMuchTimeFromNow_def ex_queue_def
        kMicroSecondsPerSecond_def Let_def cdiv_def cmod_def)
  then show ?thesis by (rule tq_reach.add [OF tq_reach.new [OF q]])
qed

theorem timer_queue_safe_witness:
  "\<exists>q'. muduo_handleRead (\<lambda>d. 0 < d) (\<lambda>d. d * 1000000) ex_prog 3 (Timestamp 20) (Timestamp 21) ex_queue = Some q'
      \<and> tq_fired q' = [7]"
  using timer_queue_safe [OF ex_queue_reach [of "muduo_handleRead (\<lambda>d. 0 < d) (\<lambda>d. d * 1000000) ex_prog 3"],
      where tnow = "Timestamp 20" and t = "Timestamp 21"]
  by (simp add: ex_queue_def due_def cb_of_def less_eq_Timestamp_def Timestamp_less_def)

text \<open>C15: what becomes of the timers when an expiration is handled. Exactly the callbacks that are due are run, in the order of
  expiration. A due timer that repeats is due again one interval after the expiration was handled, unless a callback of the same
  batch cancelled it, its own callback included; a cancelled one and a one-shot timer are gone. A timer that is not due stays in the
  queue with its expiration, unless one of the callbacks that are run cancels it.\<close>

theorem repeat_or_cancel:
  assumes "tq_reach pos (muduo_handleRead pos to_us prog tid) tid q" and "muduo_handleRead pos to_us prog tid tnow t q = Some q'"
    and "(w, p) \<in> set (tq_timers q)" and "tq_heap q p = Some tm"
  shows "tq_fired q' = tq_fired q @ map (cb_of (tq_heap q)) (filter (due tnow) (tq_timers q))
    \<and> (w \<le> tnow \<longrightarrow> t_repeat tm \<longrightarrow> (p, t_sequence tm) \<notin> tq_cancelingTimers q' \<longrightarrow> (addTime to_us tnow (t_interval tm), p) \<in> set (tq_timers q'))
    \<and> (w \<le> tnow \<longrightarrow> \<not> t_repeat tm \<longrightarrow> p \<notin> snd ` set (tq_timers q'))
    \<and> (w \<le> tnow \<longrightarrow> (\<forall>e \<in> set (tq_timers q). due tnow e \<longrightarrow> CmdCancel (p, t_sequence tm) \<in> set (prog (cb_of (tq_heap q) e)) \<longrightarrow>
         p \<notin> snd ` set (tq_timers q')))
    \<and> (tnow < w \<longrightarrow> (\<forall>e \<in> set (tq_timers q). due tnow e \<longrightarrow> CmdCancel (p, t_sequence tm) \<notin> set (prog (cb_of (tq_heap q) e))) \<longrightarrow>
         (w, p) \<in> set (tq_timers q'))"
proof -
  note q = muduo_reach_inv [OF assms(1)]
  from muduo_handleRead_ok [OF q, of pos to_us prog tnow t] assms(2) have
    fired: "tq_fired q' = tq_fired q @ map (cb_of (tq_heap q)) (filter (due tnow) (tq_timers q))" and
    again: "\<forall>w p tm. (w, p) \<in> set (tq_timers q) \<longrightarrow> w \<le> tnow \<longrightarrow> tq_heap q p = Some tm \<longrightarrow>
           (if t_repeat tm \<and> (p, t_sequence tm) \<notin> tq_cancelingTimers q'
            then (addTime to_us tnow (t_interval tm), p) \<in> set (tq_timers q') else p \<notin> snd ` set (tq_timers q'))"
    and cancel: "\<forall>timer w p. (w, p) \<in> set (tq_timers q) \<longrightarrow> w \<le> tnow \<longrightarrow> CmdCancel timer \<in> set (prog (cb_of (tq_heap q) (w, p))) \<longrightarrow>
           (\<exists>w'. w' \<le> tnow \<and> (w', fst timer) \<in> set (tq_timers q)) \<longrightarrow> timer \<in> tq_cancelingTimers q'"
    and stay: "\<forall>w p tm. (w, p) \<in> set (tq_timers q) \<longrightarrow> tnow < w \<longrightarrow> tq_heap q p = Some tm \<longrightarrow>
           (\<forall>e \<in> set (tq_timers q). due tnow e \<longrightarrow> CmdCancel (p, t_sequence tm) \<notin> set (prog (cb_of (tq_heap q) e))) \<longrightarrow>
           (w, p) \<in> set (tq_timers q')"
    by auto
  have mine: "if t_repeat tm \<and> (p, t_sequence tm) \<notin> tq_cancelingTimers q'
      then (addTime to_us tnow (t_interval tm), p) \<in> set (tq_timers q') else p \<notin> snd ` set (tq_timers q')" if "w \<le> tnow"
    using again assms(3,4) that by blast
  have "p \<notin> snd ` set (tq_timers q')"
    if w: "w \<le> tnow" and e: "e \<in> set (tq_timers q)" "due tnow e" "CmdCancel (p, t_sequence tm) \<in> set (prog (cb_of (tq_heap q) e))" for e
  proof -
    have "(p, t_sequence tm) \<in> tq_cancelingTimers q'"
      using cancel [rule_format, of "fst e" "snd e" "(p, t_sequence tm)"] e assms(3) w by (auto simp: due_def)
    with mine [OF w] show ?thesis by simp
  qed
  with mine fired stay assms(3,4) show ?thesis by (simp split: if_splits)
qed

text \<open>A second timer, due later.\<close>

definition ex_queue2 :: "int TimerQueue" where
  "ex_queue2 = ex_queue\<lparr>tq_timers := [(Timestamp 10, 1), (Timestamp 90, 2)], tq_activeTimers := {(1, 1), (2, 2)},
     tq_heap := (tq_heap ex_queue)(2 \<mapsto> \<lparr>t_callback = 8, t_expiration = Timestamp 90, t_interval = 0, t_repeat = False, t_sequence = 2\<rparr>),
     tq_brk := 3, tq_numCreated := 2\<rparr>"

lemma ex_queue2_reach: "tq_reach (\<lambda>d. 0 < d) handle 3 ex_queue2"
proof -
  have "addTimer (\<lambda>d. 0 < d) 3 (Timestamp 0) 0 8 (Timestamp 90) 0 ex_queue = Some ((2, 2), ex_queue2)"
    by (auto simp: addTimer_def new_Timer_def malloc_def incrementAndGet_def addAndGet_def getAndAdd_def
        addTimerInLoop_def tq_insert_def tq_inLoop_def tq_sizes_def ex_queue2_def ex_queue_def Let_def)
  then show ?thesis by (rule tq_reach.add [OF ex_queue_reach])
qed

theorem repeat_or_cancel_witness:
  "\<exists>q'. muduo_handleRead (\<lambda>d. 0 < d) (\<lambda>d. d * 1000000) ex_prog 3 (Timestamp 20) (Timestamp 21) ex_queue2 = Some q'
      \<and> tq_fired q' = [7] \<and> 1 \<notin> snd ` set (tq_timers q') \<and> (Timestamp 90, 2) \<in> set (tq_timers q')"
proof -
  let ?h = "muduo_handleRead (\<lambda>d. 0 < d) (\<lambda>d. d * 1000000) ex_prog 3"
  note inv = muduo_reach_inv [OF ex_queue2_reach [of "muduo_handleRead (\<lambda>d. 0 < d) (\<lambda>d. d * 1000000) ex_prog 3"]]
  from muduo_handleRead_ok [OF inv, of "\<lambda>d. 0 < d" "\<lambda>d. d * 1000000" ex_prog "Timestamp 20" "Timestamp 21"]
  obtain q' where q': "?h (Timestamp 20) (Timestamp 21) ex_queue2 = Some q'" by blast
  have e: "(Timestamp 10, 1) \<in> set (tq_timers ex_queue2)" "(Timestamp 90, 2) \<in> set (tq_timers ex_queue2)"
      "tq_heap ex_queue2 1 = Some \<lparr>t_callback = 7, t_expiration = Timestamp 10, t_interval = 2, t_repeat = True, t_sequence = 1\<rparr>"
      "tq_heap ex_queue2 2 = Some \<lparr>t_callback = 8, t_expiration = Timestamp 90, t_interval = 0, t_repeat = False, t_sequence = 2\<rparr>"
    by (simp_all add: ex_queue2_def ex_queue_def)
  from repeat_or_cancel [OF ex_queue2_reach q' e(1,3)] have "tq_fired q' = [7]" "1 \<notin> snd ` set (tq_timers q')"
    by (simp_all add: ex_queue2_def ex_queue_def ex_prog_def cb_of_def due_def)
  moreover from repeat_or_cancel [OF ex_queue2_reach q' e(2,4)] have "(Timestamp 90, 2) \<in> set (tq_timers q')"
    by (simp add: ex_queue2_def ex_queue_def ex_prog_def cb_of_def due_def)
  ultimately show ?thesis using q' by blast
qed

text \<open>In \<^verbatim>\<open>TimerQueue.cpp\<close> the first expiration aborts: \<^verbatim>\<open>getExpired\<close> takes the expired timers out of one of the
  two sets only, so the comparison of their sizes fails as soon as one timer is due.\<close>

theorem first_expiration_aborts:
  assumes "tq_reach pos (\<lambda>tnow t. tq_handleRead pos prog tid tnow) tid q" and "e \<in> set (tq_timers q)" and "fst e \<le> tnow"
  shows "tq_handleRead pos prog tid tnow q = None"
proof -
  have sizes: "getExpired x q = None \<or> filter (due x) (tq_timers q) = []" if inv: "tq_inv {} q" for q :: "'a TimerQueue" and x
  proof -
    let ?ex = "filter (due x) (tq_timers q)"
    have d: "distinct (map snd (tq_timers q))" and act: "tq_activeTimers q = id_of (tq_heap q) ` set (tq_timers q)" and so: "sorted (tq_timers q)"
      using inv by (simp_all add: tq_inv_def)
    have dex: "distinct (map snd ?ex)" using d by (simp add: distinct_map_filter)
    have "\<forall>e \<in> set ?ex. tq_heap q (snd e) \<noteq> None" using inv by (auto simp: tq_inv_def)
    moreover have "id_of (tq_heap q) ` set ?ex \<subseteq> tq_activeTimers q" using act by auto
    ultimately have er: "put_all erase_active ?ex q = Some (q\<lparr>tq_activeTimers := tq_activeTimers q - id_of (tq_heap q) ` set ?ex\<rparr>)"
      by (rule erase_active_ok [OF dex])
    have "card (tq_activeTimers q - id_of (tq_heap q) ` set ?ex) = length (filter (\<lambda>e. \<not> due x e) (tq_timers q))"
      using d by (simp only: act ids_diff card_ids distinct_map_filter)
    moreover have "length ?ex + length (filter (\<lambda>e. \<not> due x e) (tq_timers q)) = length (tq_timers q)"
      by (rule sum_length_filter_compl)
    ultimately have "length (tq_timers q) = card (tq_activeTimers q - id_of (tq_heap q) ` set ?ex) \<Longrightarrow> ?ex = []" by simp
    then show ?thesis using sorted_due [OF so, of x] er by (auto simp: getExpired_def tq_sizes_def Let_def)
  qed
  have "tq_inv {} q \<and> tq_threadId q = tid"
    using assms(1)
  proof (rule tq_reach_inv [rotated])
    fix q tnow t q'
    assume q: "tq_inv {} q" "tq_threadId q = tid" "tq_handleRead pos prog tid tnow q = Some q'"
    then have none: "filter (due tnow) (tq_timers q) = []" using sizes [OF q(1), of tnow] by (auto simp: tq_handleRead_def)
    have "sorted (tq_timers q)" using q(1) by (simp add: tq_inv_def)
    with none sorted_due have "takeWhile (due tnow) (tq_timers q) = []" by metis
    with q show "tq_inv {} q' \<and> tq_threadId q' = tid"
      by (auto simp: tq_handleRead_def getExpired_def Let_def tq_inLoop_def split: if_splits)
  qed
  moreover have "filter (due tnow) (tq_timers q) \<noteq> []" using assms(2,3) by (auto simp: due_def filter_empty_conv)
  ultimately have "getExpired tnow q = None" using sizes [of q tnow] by blast
  then show ?thesis by (simp add: tq_handleRead_def)
qed

theorem first_expiration_aborts_witness: "tq_handleRead (\<lambda>d. 0 < d) ex_prog 3 (Timestamp 20) ex_queue = None"
  by (rule first_expiration_aborts [OF ex_queue_reach, of "(Timestamp 10, 1)"])
     (simp_all add: ex_queue_def less_eq_Timestamp_def Timestamp_less_def)

end
