(* ===== verification/MuduoConnection.thy ===== *)
theory MuduoConnection
  imports TcpConnection Complex_Main "HOL-Library.Sublist"
begin

text \<open>
  \<^verbatim>\<open>muduo/net/TcpConnection.h\<close> and \<^verbatim>\<open>muduo/net/TcpConnection.cc\<close> with the dispatch of \<^verbatim>\<open>muduo/net/Channel.cc\<close> and the close callback
  of \<^verbatim>\<open>muduo/net/TcpServer.cc\<close>: one connection, called from any thread. The state of the connection holds the part of its
  loop that it uses: the functors queued for it and its pending timers. \<open>m_kernel i\<close> is the \<open>i\<close>-th \<^verbatim>\<open>write(2)\<close> on its socket,
  \<open>m_sent\<close> the bytes the kernel took, \<open>m_shut\<close> whether the writing side was shut down. The user's callbacks are an argument;
  the record can be extended by the user's \<^verbatim>\<open>context_\<close>.
\<close>

section \<open>State\<close>

datatype TcFunctor =
    TcSend string
  | TcShutdown
  | TcForceClose
  | TcStartRead
  | TcStopRead
  | TcDestroyed
  | TcWriteComplete
  | TcHighWaterMark nat

record MuduoConn =
  m_thread :: int
  m_functors :: "TcFunctor list"
  m_timers :: "rat list"
  m_state :: StateE
  m_reading :: bool
  m_events :: "32 word"
  m_addedToLoop :: bool
  m_writeCompleteCallback :: bool
  m_highWaterMarkCallback :: bool
  m_highWaterMark :: nat
  m_inputBuffer :: Buffer
  m_outputBuffer :: Buffer
  m_kernel :: "nat \<Rightarrow> string \<Rightarrow> write_result"
  m_writes :: nat
  m_sent :: string
  m_shut :: bool

record 'c user_callbacks =
  u_connection :: "'c \<Rightarrow> 'c option"
  u_message :: "Timestamp \<Rightarrow> 'c \<Rightarrow> 'c option"
  u_writeComplete :: "'c \<Rightarrow> 'c option"
  u_highWaterMark :: "nat \<Rightarrow> 'c \<Rightarrow> 'c option"

text \<open>The constructor. The channel is not registered yet.\<close>

definition tc_new :: "int \<Rightarrow> (nat \<Rightarrow> string \<Rightarrow> write_result) \<Rightarrow> MuduoConn option" where
  "tc_new tid syswrite = do {
     inb \<leftarrow> new_Buffer kInitialSize;
     outb \<leftarrow> new_Buffer kInitialSize;
     Some \<lparr>m_thread = tid, m_functors = [], m_timers = [], m_state = kConnecting, m_reading = True, m_events = 0,
           m_addedToLoop = False, m_writeCompleteCallback = False, m_highWaterMarkCallback = False,
           m_highWaterMark = 64 * 1024 * 1024, m_inputBuffer = inb, m_outputBuffer = outb,
           m_kernel = syswrite, m_writes = 0, m_sent = [], m_shut = False\<rparr>
   }"

definition tc_setWriteCompleteCallback :: "bool \<Rightarrow> 'z MuduoConn_scheme \<Rightarrow> 'z MuduoConn_scheme" where
  "tc_setWriteCompleteCallback cb c = c\<lparr>m_writeCompleteCallback := cb\<rparr>"

definition tc_setHighWaterMarkCallback :: "bool \<Rightarrow> nat \<Rightarrow> 'z MuduoConn_scheme \<Rightarrow> 'z MuduoConn_scheme" where
  "tc_setHighWaterMarkCallback cb highWaterMark c = c\<lparr>m_highWaterMarkCallback := cb, m_highWaterMark := highWaterMark\<rparr>"

text \<open>The destructor, with that of the channel it owns.\<close>

definition tc_delete :: "'z MuduoConn_scheme \<Rightarrow> unit option" where
  "tc_delete c = do { assert_that (m_state c = kDisconnected); assert_that (\<not> m_addedToLoop c) }"

definition tc_assertInLoopThread :: "int \<Rightarrow> 'z MuduoConn_scheme \<Rightarrow> unit option" where
  "tc_assertInLoopThread tid c = assert_that (tid = m_thread c)"

definition tc_queue :: "TcFunctor \<Rightarrow> 'z MuduoConn_scheme \<Rightarrow> 'z MuduoConn_scheme" where
  "tc_queue f c = c\<lparr>m_functors := m_functors c @ [f]\<rparr>"

definition tc_isWriting :: "'z MuduoConn_scheme \<Rightarrow> bool" where
  "tc_isWriting c = has (m_events c) kWriteEvent"

definition tc_isReading :: "'z MuduoConn_scheme \<Rightarrow> bool" where
  "tc_isReading c = has (m_events c) kReadEvent"

definition tc_interest :: "interest \<Rightarrow> 'z MuduoConn_scheme \<Rightarrow> 'z MuduoConn_scheme" where
  "tc_interest i c = c\<lparr>m_events := apply_interest i (m_events c), m_addedToLoop := True\<rparr>"

text \<open>\<^verbatim>\<open>Channel::remove\<close>; the poller asserts that it knows the channel.\<close>

definition tc_removeChannel :: "'z MuduoConn_scheme \<Rightarrow> 'z MuduoConn_scheme option" where
  "tc_removeChannel c = do {
     assert_that (m_events c = kNoneEvent);
     assert_that (m_addedToLoop c);
     Some (c\<lparr>m_addedToLoop := False\<rparr>)
   }"

text \<open>One \<^verbatim>\<open>write(2)\<close>.\<close>

definition tc_write :: "string \<Rightarrow> 'z MuduoConn_scheme \<Rightarrow> write_result \<times> 'z MuduoConn_scheme" where
  "tc_write bytes c =
     (let r = m_kernel c (m_writes c) bytes;
          c = c\<lparr>m_writes := Suc (m_writes c)\<rparr>
      in (r, case r of Wrote n \<Rightarrow> c\<lparr>m_sent := m_sent c @ take n bytes\<rparr> | WriteError e \<Rightarrow> c))"

section \<open>Sending\<close>

text \<open>The direct write: the new state, the bytes written and whether the connection is broken.\<close>

definition tc_writeDirectly :: "string \<Rightarrow> 'z MuduoConn_scheme \<Rightarrow> 'z MuduoConn_scheme \<times> nat \<times> bool" where
  "tc_writeDirectly dat c =
     (case tc_write dat c of
        (Wrote n, c) \<Rightarrow> (if n = length dat \<and> m_writeCompleteCallback c then tc_queue TcWriteComplete c else c, n, False)
      | (WriteError e, c) \<Rightarrow> (c, 0, e \<noteq> EWOULDBLOCK \<and> (e = EPIPE \<or> e = ECONNRESET)))"

text \<open>The rest goes to the output buffer.\<close>

definition tc_bufferRest :: "string \<Rightarrow> 'z MuduoConn_scheme \<Rightarrow> 'z MuduoConn_scheme option" where
  "tc_bufferRest rest c = do {
     let oldLen = readableBytes (m_outputBuffer c);
     let c = (if oldLen + length rest \<ge> m_highWaterMark c \<and> oldLen < m_highWaterMark c \<and> m_highWaterMarkCallback c
              then tc_queue (TcHighWaterMark (oldLen + length rest)) c else c);
     outb \<leftarrow> Buffer_append rest (m_outputBuffer c);
     let c = c\<lparr>m_outputBuffer := outb\<rparr>;
     Some (if \<not> tc_isWriting c then tc_interest EnableWriting c else c)
   }"

definition tc_sendInLoop :: "int \<Rightarrow> string \<Rightarrow> 'z MuduoConn_scheme \<Rightarrow> 'z MuduoConn_scheme option" where
  "tc_sendInLoop tid dat c = do {
     tc_assertInLoopThread tid c;
     if m_state c = kDisconnected then Some c
     else do {
       let (c, nwrote, faultError) =
         (if \<not> tc_isWriting c \<and> readableBytes (m_outputBuffer c) = 0 then tc_writeDirectly dat c else (c, 0, False));
       assert_that (nwrote \<le> length dat);
       let remaining = length dat - nwrote;
       (if \<not> faultError \<and> remaining > 0 then tc_bufferRest (drop nwrote dat) c else Some c)
     }
   }"

definition tc_send :: "int \<Rightarrow> string \<Rightarrow> 'z MuduoConn_scheme \<Rightarrow> 'z MuduoConn_scheme option" where
  "tc_send tid message c =
     (if m_state c = kConnected
      then (if tid = m_thread c then tc_sendInLoop tid message c else Some (tc_queue (TcSend message) c))
      else Some c)"

definition tc_send_bytes :: "int \<Rightarrow> string \<Rightarrow> nat \<Rightarrow> 'z MuduoConn_scheme \<Rightarrow> 'z MuduoConn_scheme option" where
  "tc_send_bytes tid dat len c = tc_send tid (take len dat) c"

definition tc_send_buffer :: "int \<Rightarrow> Buffer \<Rightarrow> 'z MuduoConn_scheme \<Rightarrow> ('z MuduoConn_scheme \<times> Buffer) option" where
  "tc_send_buffer tid buf c =
     (if m_state c = kConnected
      then (if tid = m_thread c
            then do { c \<leftarrow> tc_sendInLoop tid (subrange (peek buf) (readableBytes buf) (buffer buf)) c; Some (c, retrieveAll buf) }
            else do { (msg, buf) \<leftarrow> retrieveAllAsString buf; Some (tc_queue (TcSend msg) c, buf) })
      else Some (c, buf))"

section \<open>Closing\<close>

definition tc_shutdownInLoop :: "int \<Rightarrow> 'z MuduoConn_scheme \<Rightarrow> 'z MuduoConn_scheme option" where
  "tc_shutdownInLoop tid c = do {
     tc_assertInLoopThread tid c;
     Some (if \<not> tc_isWriting c then c\<lparr>m_shut := True\<rparr> else c)
   }"

text \<open>\<^verbatim>\<open>shutdown\<close>, \<^verbatim>\<open>forceClose\<close> and \<^verbatim>\<open>forceCloseWithDelay\<close> test the state and then set it, without a lock or a compare and swap: what
  follows the test is a definition of its own, since another thread may change the state in between.\<close>

definition tc_shutdown_set :: "int \<Rightarrow> 'z MuduoConn_scheme \<Rightarrow> 'z MuduoConn_scheme option" where
  "tc_shutdown_set tid c =
     (let c = c\<lparr>m_state := kDisconnecting\<rparr>
      in if tid = m_thread c then tc_shutdownInLoop tid c else Some (tc_queue TcShutdown c))"

definition tc_shutdown :: "int \<Rightarrow> 'z MuduoConn_scheme \<Rightarrow> 'z MuduoConn_scheme option" where
  "tc_shutdown tid c = (if m_state c = kConnected then tc_shutdown_set tid c else Some c)"

definition tc_forceClose_set :: "'z MuduoConn_scheme \<Rightarrow> 'z MuduoConn_scheme" where
  "tc_forceClose_set c = tc_queue TcForceClose (c\<lparr>m_state := kDisconnecting\<rparr>)"

definition tc_forceClose :: "'z MuduoConn_scheme \<Rightarrow> 'z MuduoConn_scheme" where
  "tc_forceClose c = (if m_state c = kConnected \<or> m_state c = kDisconnecting then tc_forceClose_set c else c)"

definition tc_forceCloseWithDelay_set :: "rat \<Rightarrow> 'z MuduoConn_scheme \<Rightarrow> 'z MuduoConn_scheme" where
  "tc_forceCloseWithDelay_set seconds c =
     (let c = c\<lparr>m_state := kDisconnecting\<rparr> in c\<lparr>m_timers := m_timers c @ [seconds]\<rparr>)"

definition tc_forceCloseWithDelay :: "rat \<Rightarrow> 'z MuduoConn_scheme \<Rightarrow> 'z MuduoConn_scheme" where
  "tc_forceCloseWithDelay seconds c =
     (if m_state c = kConnected \<or> m_state c = kDisconnecting then tc_forceCloseWithDelay_set seconds c else c)"

text \<open>The close callback is \<^verbatim>\<open>TcpServer::removeConnection\<close>: the server forgets the connection and queues \<^verbatim>\<open>connectDestroyed\<close>.\<close>

definition tc_closeCallback :: "'z MuduoConn_scheme \<Rightarrow> 'z MuduoConn_scheme" where
  "tc_closeCallback c = tc_queue TcDestroyed c"

definition tc_handleClose :: "'z MuduoConn_scheme user_callbacks \<Rightarrow> int \<Rightarrow> 'z MuduoConn_scheme \<Rightarrow> 'z MuduoConn_scheme option" where
  "tc_handleClose u tid c = do {
     tc_assertInLoopThread tid c;
     assert_that (m_state c = kConnected \<or> m_state c = kDisconnecting);
     let c = tc_interest DisableAll (c\<lparr>m_state := kDisconnected\<rparr>);
     c \<leftarrow> u_connection u c;
     Some (tc_closeCallback c)
   }"

definition tc_forceCloseInLoop :: "'z MuduoConn_scheme user_callbacks \<Rightarrow> int \<Rightarrow> 'z MuduoConn_scheme \<Rightarrow> 'z MuduoConn_scheme option" where
  "tc_forceCloseInLoop u tid c = do {
     tc_assertInLoopThread tid c;
     (if m_state c = kConnected \<or> m_state c = kDisconnecting then tc_handleClose u tid c else Some c)
   }"

definition tc_startReadInLoop :: "int \<Rightarrow> 'z MuduoConn_scheme \<Rightarrow> 'z MuduoConn_scheme option" where
  "tc_startReadInLoop tid c = do {
     tc_assertInLoopThread tid c;
     Some (if \<not> m_reading c \<or> \<not> tc_isReading c then (tc_interest EnableReading c)\<lparr>m_reading := True\<rparr> else c)
   }"

definition tc_startRead :: "int \<Rightarrow> 'z MuduoConn_scheme \<Rightarrow> 'z MuduoConn_scheme option" where
  "tc_startRead tid c = (if tid = m_thread c then tc_startReadInLoop tid c else Some (tc_queue TcStartRead c))"

definition tc_stopReadInLoop :: "int \<Rightarrow> 'z MuduoConn_scheme \<Rightarrow> 'z MuduoConn_scheme option" where
  "tc_stopReadInLoop tid c = do {
     tc_assertInLoopThread tid c;
     Some (if m_reading c \<or> tc_isReading c then (tc_interest DisableReading c)\<lparr>m_reading := False\<rparr> else c)
   }"

definition tc_stopRead :: "int \<Rightarrow> 'z MuduoConn_scheme \<Rightarrow> 'z MuduoConn_scheme option" where
  "tc_stopRead tid c = (if tid = m_thread c then tc_stopReadInLoop tid c else Some (tc_queue TcStopRead c))"

definition tc_connectEstablished :: "'z MuduoConn_scheme user_callbacks \<Rightarrow> int \<Rightarrow> 'z MuduoConn_scheme \<Rightarrow> 'z MuduoConn_scheme option" where
  "tc_connectEstablished u tid c = do {
     tc_assertInLoopThread tid c;
     assert_that (m_state c = kConnecting);
     u_connection u (tc_interest EnableReading (c\<lparr>m_state := kConnected\<rparr>))
   }"

definition tc_connectDestroyed :: "'z MuduoConn_scheme user_callbacks \<Rightarrow> int \<Rightarrow> 'z MuduoConn_scheme \<Rightarrow> 'z MuduoConn_scheme option" where
  "tc_connectDestroyed u tid c = do {
     tc_assertInLoopThread tid c;
     c \<leftarrow> (if m_state c = kConnected then u_connection u (tc_interest DisableAll (c\<lparr>m_state := kDisconnected\<rparr>)) else Some c);
     tc_removeChannel c
   }"

section \<open>Events\<close>

text \<open>\<^verbatim>\<open>handleError\<close> reads \<^verbatim>\<open>SO_ERROR\<close> and logs it.\<close>

definition tc_handleError :: "'z MuduoConn_scheme \<Rightarrow> 'z MuduoConn_scheme" where
  "tc_handleError c = c"

definition tc_handleRead ::
    "'z MuduoConn_scheme user_callbacks \<Rightarrow> int \<Rightarrow> (nat list \<Rightarrow> readv_result) \<Rightarrow> Timestamp \<Rightarrow> 'z MuduoConn_scheme \<Rightarrow> 'z MuduoConn_scheme option" where
  "tc_handleRead u tid readv receiveTime c = do {
     tc_assertInLoopThread tid c;
     (n, savedErrno, inb) \<leftarrow> readFd readv (m_inputBuffer c);
     let c = c\<lparr>m_inputBuffer := inb\<rparr>;
     (if n > 0 then u_message u receiveTime c
      else if n = 0 then tc_handleClose u tid c
      else Some (tc_handleError c))
   }"

definition tc_handleWrite :: "int \<Rightarrow> 'z MuduoConn_scheme \<Rightarrow> 'z MuduoConn_scheme option" where
  "tc_handleWrite tid c = do {
     tc_assertInLoopThread tid c;
     if tc_isWriting c then
       let outb = m_outputBuffer c
       in case tc_write (subrange (peek outb) (readableBytes outb) (buffer outb)) c of
         (Wrote n, c) \<Rightarrow>
           if n > 0 then do {
             outb \<leftarrow> retrieve n (m_outputBuffer c);
             let c = c\<lparr>m_outputBuffer := outb\<rparr>;
             (if readableBytes outb = 0
              then do {
                let c = tc_interest DisableWriting c;
                let c = (if m_writeCompleteCallback c then tc_queue TcWriteComplete c else c);
                (if m_state c = kDisconnecting then tc_shutdownInLoop tid c else Some c)
              }
              else Some c)
           }
           else Some c
       | (WriteError e, c) \<Rightarrow> Some c
     else Some c
   }"

text \<open>The dispatch of \<^verbatim>\<open>muduo/net/Channel.cc\<close> on this connection's handlers, the connection being alive.\<close>

definition tc_handleEvent ::
    "'z MuduoConn_scheme user_callbacks \<Rightarrow> int \<Rightarrow> (nat list \<Rightarrow> readv_result) \<Rightarrow> 32 word \<Rightarrow> Timestamp
     \<Rightarrow> 'z MuduoConn_scheme \<Rightarrow> 'z MuduoConn_scheme option" where
  "tc_handleEvent u tid readv revents receiveTime c = do {
     c \<leftarrow> (if has revents POLLHUP \<and> \<not> has revents POLLIN then tc_handleClose u tid c else Some c);
     let c = (if has revents (POLLERR OR POLLNVAL) then tc_handleError c else c);
     c \<leftarrow> (if has revents (POLLIN OR POLLPRI OR POLLRDHUP) then tc_handleRead u tid readv receiveTime c else Some c);
     (if has revents POLLOUT then tc_handleWrite tid c else Some c)
   }"

text \<open>What the loop does with a functor.\<close>

fun tc_functor :: "'z MuduoConn_scheme user_callbacks \<Rightarrow> int \<Rightarrow> TcFunctor \<Rightarrow> 'z MuduoConn_scheme \<Rightarrow> 'z MuduoConn_scheme option" where
  "tc_functor u tid (TcSend msg) c = tc_sendInLoop tid msg c"
| "tc_functor u tid TcShutdown c = tc_shutdownInLoop tid c"
| "tc_functor u tid TcForceClose c = tc_forceCloseInLoop u tid c"
| "tc_functor u tid TcStartRead c = tc_startReadInLoop tid c"
| "tc_functor u tid TcStopRead c = tc_stopReadInLoop tid c"
| "tc_functor u tid TcDestroyed c = tc_connectDestroyed u tid c"
| "tc_functor u tid TcWriteComplete c = u_writeComplete u c"
| "tc_functor u tid (TcHighWaterMark n) c = u_highWaterMark u n c"

text \<open>The callbacks a server has when its user sets none.\<close>

definition tc_defaultConnectionCallback :: "'z MuduoConn_scheme \<Rightarrow> 'z MuduoConn_scheme option" where
  "tc_defaultConnectionCallback c = Some c"

definition tc_defaultMessageCallback :: "Timestamp \<Rightarrow> 'z MuduoConn_scheme \<Rightarrow> 'z MuduoConn_scheme option" where
  "tc_defaultMessageCallback t c = Some (c\<lparr>m_inputBuffer := retrieveAll (m_inputBuffer c)\<rparr>)"

section \<open>Invariant\<close>

text \<open>\<^verbatim>\<open>write(2)\<close> never takes more than it is offered.\<close>

definition kernel_ok :: "(nat \<Rightarrow> string \<Rightarrow> write_result) \<Rightarrow> bool" where
  "kernel_ok k \<longleftrightarrow> (\<forall>i bytes n. k i bytes = Wrote n \<longrightarrow> n \<le> length bytes)"

fun tc_functor_ok :: "TcFunctor \<Rightarrow> bool" where
  "tc_functor_ok (TcSend msg) \<longleftrightarrow> length msg \<le> vec_max"
| "tc_functor_ok TcStartRead \<longleftrightarrow> False"
| "tc_functor_ok TcStopRead \<longleftrightarrow> False"
| "tc_functor_ok _ \<longleftrightarrow> True"

text \<open>What holds at every call of a callback.\<close>

definition tc_ok :: "'z MuduoConn_scheme \<Rightarrow> bool" where
  "tc_ok c \<longleftrightarrow> buf_ok (m_inputBuffer c) \<and> buf_ok (m_outputBuffer c) \<and> kernel_ok (m_kernel c)
     \<and> (m_state c \<noteq> kDisconnected \<longrightarrow> (tc_isWriting c \<longleftrightarrow> content (m_outputBuffer c) \<noteq> []))
     \<and> (m_state c = kDisconnected \<longrightarrow> m_events c = kNoneEvent)
     \<and> (m_state c = kConnected \<or> m_state c = kDisconnecting \<longrightarrow> m_addedToLoop c)
     \<and> (m_shut c \<or> TcShutdown \<in> set (m_functors c) \<longrightarrow> m_state c = kDisconnecting \<or> m_state c = kDisconnected)
     \<and> list_all tc_functor_ok (m_functors c)"

definition tc_destroys :: "'z MuduoConn_scheme \<Rightarrow> nat" where
  "tc_destroys c = count_list (m_functors c) TcDestroyed"

text \<open>What holds between two steps of the loop: the channel of a closed connection is removed by exactly one functor.\<close>

definition tc_inv :: "'z MuduoConn_scheme \<Rightarrow> bool" where
  "tc_inv c \<longleftrightarrow> tc_ok c \<and> m_state c \<noteq> kConnecting
     \<and> tc_destroys c = (if m_state c = kDisconnected \<and> m_addedToLoop c then 1 else 0)"

text \<open>Everything handed over for sending, in order: what the kernel took and what waits.\<close>

definition tc_stream :: "'z MuduoConn_scheme \<Rightarrow> string" where
  "tc_stream c = m_sent c @ content (m_outputBuffer c)"

section \<open>What users may do\<close>

text \<open>The calls of a user, from any thread. The test of the state and what follows it may be two steps of a calling thread (the
  rules ending in \<open>late\<close>, for a test that succeeded earlier), as long as the connection was not closed in between; the code does not
  ensure that, see \<open>closing_race_aborts\<close>. Reading is switched on and off by the loop's thread and on open connections only.\<close>

inductive tc_call :: "'z MuduoConn_scheme \<Rightarrow> 'z MuduoConn_scheme \<Rightarrow> bool" where
  call_send: "length msg \<le> vec_max \<Longrightarrow> tc_send tid msg c = Some c' \<Longrightarrow> tc_call c c'"
| call_shutdown: "tc_shutdown tid c = Some c' \<Longrightarrow> tc_call c c'"
| call_forceClose: "tc_call c (tc_forceClose c)"
| call_delay: "tc_call c (tc_forceCloseWithDelay seconds c)"
| call_send_late: "length msg \<le> vec_max \<Longrightarrow> tc_call c (tc_queue (TcSend msg) c)"
| call_shutdown_late: "m_state c = kConnected \<or> m_state c = kDisconnecting \<Longrightarrow> tc_shutdown_set tid c = Some c' \<Longrightarrow> tc_call c c'"
| call_forceClose_late: "m_state c = kConnected \<or> m_state c = kDisconnecting \<Longrightarrow> tc_call c (tc_forceClose_set c)"
| call_delay_late: "m_state c = kConnected \<or> m_state c = kDisconnecting \<Longrightarrow> tc_call c (tc_forceCloseWithDelay_set seconds c)"
| call_startRead: "m_state c = kConnected \<Longrightarrow> tc_startRead (m_thread c) c = Some c' \<Longrightarrow> tc_call c c'"
| call_stopRead: "m_state c = kConnected \<Longrightarrow> tc_stopRead (m_thread c) c = Some c' \<Longrightarrow> tc_call c c'"
| call_consume: "buf_ok b \<Longrightarrow> tc_call c (c\<lparr>m_inputBuffer := b\<rparr>)"
| call_context: "tc_call c (MuduoConn.more_update (\<lambda>_. x) c)"

text \<open>What no call changes, and how the stream may grow.\<close>

definition tc_frame :: "'z MuduoConn_scheme \<Rightarrow> 'z MuduoConn_scheme \<Rightarrow> bool" where
  "tc_frame c c' \<longleftrightarrow> m_thread c' = m_thread c \<and> m_kernel c' = m_kernel c \<and> tc_destroys c' = tc_destroys c
     \<and> (m_state c' = kDisconnected \<longleftrightarrow> m_state c = kDisconnected)
     \<and> (m_state c' = kConnecting \<longleftrightarrow> m_state c = kConnecting)
     \<and> (m_state c = kDisconnected \<longrightarrow> m_addedToLoop c' = m_addedToLoop c)
     \<and> prefix (tc_stream c) (tc_stream c')
     \<and> (m_state c \<noteq> kConnected \<longrightarrow> m_outputBuffer c' = m_outputBuffer c \<and> m_state c' \<noteq> kConnected)
     \<and> (m_shut c \<longrightarrow> m_shut c') \<and> (m_shut c' \<longrightarrow> m_shut c \<or> content (m_outputBuffer c') = [])"

lemmas tc_basic = tc_assertInLoopThread_def tc_queue_def tc_isWriting_def tc_isReading_def tc_interest_def tc_destroys_def tc_stream_def

lemma tc_frame_refl: "tc_frame c c"
  by (simp add: tc_frame_def)

lemma tc_frame_trans:
  assumes "tc_ok b" and "tc_frame a b" and "tc_frame b c"
  shows "tc_frame a c"
proof -
  have "prefix (tc_stream a) (tc_stream b)" "prefix (tc_stream b) (tc_stream c)" using assms(2,3) by (simp_all add: tc_frame_def)
  then have "prefix (tc_stream a) (tc_stream c)" by (rule prefix_order.trans)
  moreover have "m_shut c \<longrightarrow> m_shut a \<or> content (m_outputBuffer c) = []"
  proof (cases "m_shut b")
    case True
    with assms(1) have "m_state b \<noteq> kConnected" by (auto simp: tc_ok_def)
    with assms(2,3) True show ?thesis unfolding tc_frame_def by metis
  next
    case False
    with assms(3) show ?thesis by (simp add: tc_frame_def)
  qed
  moreover have "m_state a \<noteq> kConnected \<longrightarrow> m_outputBuffer c = m_outputBuffer a \<and> m_state c \<noteq> kConnected"
    using assms(2,3) unfolding tc_frame_def by metis
  ultimately show ?thesis using assms(2,3) unfolding tc_frame_def by (intro conjI) (elim conjE, metis)+
qed

text \<open>The whole effect of \<^verbatim>\<open>sendInLoop\<close>.\<close>

definition tc_fault :: "string \<Rightarrow> 'z MuduoConn_scheme \<Rightarrow> bool" where
  "tc_fault msg c \<longleftrightarrow> content (m_outputBuffer c) = [] \<and> m_kernel c (m_writes c) msg \<in> {WriteError EPIPE, WriteError ECONNRESET}"

definition tc_appends :: "string \<Rightarrow> 'z MuduoConn_scheme \<Rightarrow> 'z MuduoConn_scheme \<Rightarrow> bool" where
  "tc_appends msg c c' \<longleftrightarrow> tc_ok c' \<and> tc_stream c' = tc_stream c @ (if tc_fault msg c then [] else msg)
     \<and> m_thread c' = m_thread c \<and> m_kernel c' = m_kernel c \<and> tc_destroys c' = tc_destroys c \<and> m_state c' = m_state c
     \<and> m_shut c' = m_shut c \<and> m_addedToLoop c'"

lemma tc_ok_added: "tc_ok c \<Longrightarrow> m_state c = kConnected \<or> m_state c = kDisconnecting \<Longrightarrow> m_addedToLoop c"
  by (simp add: tc_ok_def)

lemma readable_content: "buf_ok b \<Longrightarrow> readableBytes b = 0 \<longleftrightarrow> content b = []"
  by (metis length_0_conv length_content)

lemma tc_bufferRest_ok:
  assumes "tc_ok c" and "m_state c = kConnected \<or> m_state c = kDisconnecting" and "rest \<noteq> []" and "length rest \<le> vec_max"
    and "tc_bufferRest rest c = Some c'"
  shows "tc_ok c' \<and> tc_stream c' = tc_stream c @ rest \<and> m_thread c' = m_thread c \<and> m_kernel c' = m_kernel c
     \<and> tc_destroys c' = tc_destroys c \<and> m_state c' = m_state c \<and> m_shut c' = m_shut c"
proof -
  obtain outb where outb: "Buffer_append rest (m_outputBuffer c) = Some outb" "m_outputBuffer c' = outb"
    and c': "m_events c' = (if has (m_events c) kWriteEvent then m_events c else apply_interest EnableWriting (m_events c))"
      "m_addedToLoop c \<longrightarrow> m_addedToLoop c'" "m_inputBuffer c' = m_inputBuffer c" "m_kernel c' = m_kernel c"
      "m_thread c' = m_thread c" "m_state c' = m_state c" "m_shut c' = m_shut c" "m_sent c' = m_sent c"
      "m_functors c' = m_functors c \<or> (\<exists>n. m_functors c' = m_functors c @ [TcHighWaterMark n])"
  proof -
    define hw where "hw \<longleftrightarrow> m_highWaterMark c \<le> readableBytes (m_outputBuffer c) + length rest
       \<and> readableBytes (m_outputBuffer c) < m_highWaterMark c \<and> m_highWaterMarkCallback c"
    show thesis
      using assms(5) that unfolding tc_bufferRest_def Let_def hw_def [symmetric]
      by (cases hw; cases "has (m_events c) kWriteEvent") (auto simp: tc_basic abort_elims)
  qed
  have out: "buf_ok outb" "content outb = content (m_outputBuffer c) @ rest"
    using Buffer_append_Some [OF _ assms(4) outb(1)] assms(1) by (simp_all add: tc_ok_def)
  have w: "tc_isWriting c'" unfolding tc_isWriting_def
    by (cases "has (m_events c) kWriteEvent") (simp_all only: c'(1) if_True if_False apply_interest_write(3))
  have added: "m_addedToLoop c'" using tc_ok_added [OF assms(1,2)] c'(2) by simp
  have q: "tc_destroys c' = tc_destroys c"
    "list_all tc_functor_ok (m_functors c')" "TcShutdown \<in> set (m_functors c') \<longleftrightarrow> TcShutdown \<in> set (m_functors c)"
    using c'(9) assms(1) unfolding tc_ok_def tc_destroys_def by (elim disjE exE conjE; simp)+
  have st: "m_state c \<noteq> kDisconnected" "m_state c \<noteq> kConnecting" using assms(2) by auto
  have "tc_ok c'" using assms(1) st unfolding tc_ok_def
    by (simp add: outb(2) out w added q(2,3) c'(3,4,6,7) assms(3))
  then show ?thesis using out(2) outb(2) q(1) c'(4-8) by (simp add: tc_stream_def)
qed

lemma tc_writeDirectly_ok:
  assumes "tc_ok c" and "m_state c = kConnected \<or> m_state c = kDisconnecting" and "content (m_outputBuffer c) = []"
    and "tc_writeDirectly dat c = (c', n, fault)"
  shows "tc_ok c' \<and> n \<le> length dat \<and> tc_stream c' = tc_stream c @ take n dat \<and> m_thread c' = m_thread c \<and> m_kernel c' = m_kernel c
     \<and> tc_destroys c' = tc_destroys c \<and> m_state c' = m_state c \<and> m_shut c' = m_shut c \<and> fault = tc_fault dat c \<and> (fault \<longrightarrow> n = 0)"
proof (cases "m_kernel c (m_writes c) dat")
  case (Wrote k)
  then have "k \<le> length dat" using assms(1) by (auto simp: tc_ok_def kernel_ok_def)
  define c1 where "c1 = c\<lparr>m_writes := Suc (m_writes c), m_sent := m_sent c @ take k dat\<rparr>"
  define q where "q \<longleftrightarrow> k = length dat \<and> m_writeCompleteCallback c"
  have ok: "tc_ok (tc_queue TcWriteComplete c1)" "tc_ok c1" using assms(1,2) by (auto simp: c1_def tc_ok_def tc_basic)
  have "c' = (if q then tc_queue TcWriteComplete c1 else c1)" "n = k" "\<not> fault"
    using Wrote assms(4) by (auto simp: tc_writeDirectly_def tc_write_def c1_def q_def)
  with ok \<open>k \<le> length dat\<close> Wrote assms(3) show ?thesis
    by (cases q) (simp_all add: tc_basic tc_fault_def, simp_all add: c1_def)
next
  case (WriteError e)
  define c1 where "c1 = c\<lparr>m_writes := Suc (m_writes c)\<rparr>"
  have ok: "tc_ok c1" using assms(1) by (simp add: c1_def tc_ok_def tc_isWriting_def)
  have "c' = c1" "n = 0" "fault \<longleftrightarrow> e = EPIPE \<or> e = ECONNRESET"
    using WriteError assms(4) by (auto simp: tc_writeDirectly_def tc_write_def c1_def EPIPE_def ECONNRESET_def EWOULDBLOCK_def)
  with ok WriteError assms(3) show ?thesis by (simp add: tc_fault_def) (simp add: c1_def tc_basic)
qed

lemma tc_sendInLoop_ok:
  assumes "tc_ok c" and "m_state c = kConnected \<or> m_state c = kDisconnecting" and "length msg \<le> vec_max"
    and "tc_sendInLoop tid msg c = Some c'"
  shows "tc_appends msg c c'"
proof -
  have out: "buf_ok (m_outputBuffer c)" and w: "tc_isWriting c \<longleftrightarrow> content (m_outputBuffer c) \<noteq> []"
    using assms(1,2) by (auto simp: tc_ok_def)
  show ?thesis
  proof (cases "content (m_outputBuffer c) = []")
    case True
    obtain c1 n fault where d: "tc_writeDirectly msg c = (c1, n, fault)" by (cases "tc_writeDirectly msg c") auto
    note ok = tc_writeDirectly_ok [OF assms(1,2) True d]
    from ok have n: "n \<le> length msg" by simp
    from assms(2,4) True w d n have r: "(if \<not> fault \<and> 0 < length msg - n then tc_bufferRest (drop n msg) c1 else Some c1) = Some c'"
      by (cases "m_state c"; cases "tid = m_thread c") (simp_all add: tc_sendInLoop_def readable_content [OF out] tc_assertInLoopThread_def)
    show ?thesis
    proof (cases "\<not> fault \<and> 0 < length msg - n")
      case True
      with r have "tc_bufferRest (drop n msg) c1 = Some c'" by simp
      from tc_bufferRest_ok [OF _ _ _ _ this] True ok assms(2,3) have
        "tc_ok c' \<and> tc_stream c' = tc_stream c1 @ drop n msg \<and> m_thread c' = m_thread c1 \<and> m_kernel c' = m_kernel c1
           \<and> tc_destroys c' = tc_destroys c1 \<and> m_state c' = m_state c1 \<and> m_shut c' = m_shut c1" by simp
      moreover from this ok assms(2) have "m_addedToLoop c'" using tc_ok_added [of c'] by simp
      ultimately show ?thesis using True ok by (simp add: tc_appends_def)
    next
      case False
      with r have "c' = c1" by (simp only: if_False option.inject)
      moreover have "fault \<or> n = length msg" using False ok by auto
      moreover have "m_addedToLoop c1" using ok assms(2) tc_ok_added [of c1] by simp
      ultimately show ?thesis using ok by (auto simp: tc_appends_def)
    qed
  next
    case False
    with w assms(2,4) have r: "(if 0 < length msg then tc_bufferRest msg c else Some c) = Some c'"
      by (cases "m_state c"; cases "tid = m_thread c") (simp_all add: tc_sendInLoop_def tc_assertInLoopThread_def split: if_splits)
    show ?thesis
    proof (cases "msg = []")
      case True
      with r assms(1) tc_ok_added [OF assms(1,2)] show ?thesis by (simp add: tc_appends_def)
    next
      case nonempty: False
      with r have "tc_bufferRest msg c = Some c'" by simp
      from tc_bufferRest_ok [OF assms(1,2) nonempty assms(3) this] assms(2) False show ?thesis
        using tc_ok_added [of c'] by (simp add: tc_appends_def tc_fault_def)
    qed
  qed
qed

text \<open>\<^verbatim>\<open>sendInLoop\<close> does not abort when the output buffer can grow.\<close>

lemma tc_sendInLoop_total:
  assumes "tc_ok c" and "m_state c = kConnected \<or> m_state c = kDisconnecting" and "room (m_outputBuffer c) (length msg)"
  shows "\<exists>c'. tc_sendInLoop (m_thread c) msg c = Some c'"
proof -
  have total: "\<exists>d'. tc_bufferRest rest d = Some d'" if "m_outputBuffer d = m_outputBuffer c" "length rest \<le> length msg" for rest d
  proof -
    have "room (m_outputBuffer c) (length rest)" using room_mono_buf [OF assms(3) that(2)] .
    moreover have "buf_ok (m_outputBuffer c)" using assms(1) by (simp add: tc_ok_def)
    ultimately obtain b where "Buffer_append rest (m_outputBuffer c) = Some b" using Buffer_append_ok by blast
    moreover have "m_outputBuffer (if q then tc_queue f d else d) = m_outputBuffer c" for q f using that(1) by (simp add: tc_queue_def)
    ultimately show ?thesis by (simp add: tc_bufferRest_def Let_def)
  qed
  obtain d n fault where d: "tc_writeDirectly msg c = (d, n, fault)" by (cases "tc_writeDirectly msg c") auto
  then have "m_outputBuffer d = m_outputBuffer c"
    by (auto simp: tc_writeDirectly_def tc_write_def tc_queue_def Let_def split: write_result.splits if_splits)
  moreover have "n \<le> length msg" if "content (m_outputBuffer c) = []" using tc_writeDirectly_ok [OF assms(1,2) that d] by simp
  ultimately show ?thesis
    using d total [of d "drop n msg"] total [of c msg] assms(2) readable_content [of "m_outputBuffer c"] assms(1)
    by (auto simp: tc_sendInLoop_def tc_assertInLoopThread_def tc_ok_def Let_def)
qed

lemma tc_appends_frame:
  assumes "tc_ok c" and "m_state c = kConnected" and "tc_appends msg c c'"
  shows "tc_ok c' \<and> tc_frame c c'"
proof -
  have "\<not> m_shut c" using assms(1,2) by (auto simp: tc_ok_def)
  with assms(2,3) show ?thesis by (simp add: tc_appends_def tc_frame_def)
qed

lemma tc_send_ok:
  assumes "tc_ok c" and "length msg \<le> vec_max" and "tc_send tid msg c = Some c'"
  shows "tc_ok c' \<and> tc_frame c c'"
proof (cases "m_state c = kConnected")
  case True
  have "tc_ok (tc_queue (TcSend msg) c) \<and> tc_frame c (tc_queue (TcSend msg) c)"
    using assms(1,2) True by (simp add: tc_ok_def tc_frame_def tc_basic)
  moreover have "tc_ok c' \<and> tc_frame c c'" if "tc_sendInLoop tid msg c = Some c'"
    using tc_appends_frame [OF assms(1) True tc_sendInLoop_ok [OF assms(1) _ assms(2) that]] True by simp
  ultimately show ?thesis using assms(3) True by (cases "tid = m_thread c") (auto simp: tc_send_def)
next
  case False
  with assms show ?thesis by (simp add: tc_send_def tc_frame_refl)
qed

lemma tc_shutdownInLoop_ok:
  assumes "tc_ok c" and "m_state c = kDisconnecting \<or> m_state c = kDisconnected" and "tc_shutdownInLoop tid c = Some c'"
  shows "tc_ok c' \<and> m_thread c' = m_thread c \<and> m_kernel c' = m_kernel c \<and> tc_destroys c' = tc_destroys c \<and> m_state c' = m_state c
     \<and> m_addedToLoop c' = m_addedToLoop c \<and> m_outputBuffer c' = m_outputBuffer c \<and> m_sent c' = m_sent c \<and> (m_shut c \<longrightarrow> m_shut c')
     \<and> (m_shut c' \<longrightarrow> m_shut c \<or> \<not> tc_isWriting c)"
  using assms by (cases "tid = m_thread c"; cases "tc_isWriting c") (auto simp: tc_shutdownInLoop_def tc_assertInLoopThread_def tc_ok_def tc_isWriting_def tc_destroys_def)

lemma tc_ok_disconnecting:
  "tc_ok c \<Longrightarrow> m_state c = kConnected \<or> m_state c = kDisconnecting \<Longrightarrow> tc_ok (c\<lparr>m_state := kDisconnecting\<rparr>)"
  by (cases "m_state c") (simp_all add: tc_ok_def tc_isWriting_def)

lemma tc_queue_send_ok:
  assumes "tc_ok c" and "length msg \<le> vec_max"
  shows "tc_ok (tc_queue (TcSend msg) c) \<and> tc_frame c (tc_queue (TcSend msg) c)"
  using assms by (simp add: tc_ok_def tc_frame_def tc_basic)

lemma tc_shutdown_set_ok:
  assumes "tc_ok c" and "m_state c = kConnected \<or> m_state c = kDisconnecting" and "tc_shutdown_set tid c = Some c'"
  shows "tc_ok c' \<and> tc_frame c c'"
proof -
  let ?c = "c\<lparr>m_state := kDisconnecting\<rparr>"
  have ok: "tc_ok ?c" by (rule tc_ok_disconnecting [OF assms(1,2)])
  have w: "tc_isWriting ?c \<longleftrightarrow> content (m_outputBuffer c) \<noteq> []" using ok by (simp add: tc_ok_def)
  have st: "m_state c \<noteq> kDisconnected" "m_state c \<noteq> kConnecting" using assms(2) by auto
  show ?thesis
  proof (cases "tid = m_thread c")
    case True
    with assms(3) have "tc_shutdownInLoop tid ?c = Some c'" by (simp add: tc_shutdown_set_def)
    from tc_shutdownInLoop_ok [OF ok _ this] w st show ?thesis by (simp add: tc_frame_def tc_stream_def tc_destroys_def)
  next
    case False
    with assms(3) have "c' = tc_queue TcShutdown ?c" by (simp add: tc_shutdown_set_def)
    with ok st show ?thesis by (simp add: tc_frame_def tc_stream_def tc_destroys_def) (simp add: tc_ok_def tc_basic)
  qed
qed

lemma tc_forceClose_set_ok:
  assumes "tc_ok c" and "m_state c = kConnected \<or> m_state c = kDisconnecting"
  shows "tc_ok (tc_forceClose_set c) \<and> tc_frame c (tc_forceClose_set c)"
    and "tc_ok (tc_forceCloseWithDelay_set seconds c) \<and> tc_frame c (tc_forceCloseWithDelay_set seconds c)"
  using assms(2) tc_ok_disconnecting [OF assms]
  by (auto simp: tc_forceClose_set_def tc_forceCloseWithDelay_set_def tc_frame_def tc_basic Let_def)
     (auto simp: tc_ok_def tc_isWriting_def)

lemma tc_shutdown_ok:
  assumes "tc_ok c" and "tc_shutdown tid c = Some c'"
  shows "tc_ok c' \<and> tc_frame c c'"
  using assms tc_shutdown_set_ok [OF assms(1)] tc_frame_refl [of c]
  by (cases "m_state c = kConnected") (simp_all add: tc_shutdown_def)

lemma tc_forceClose_ok:
  assumes "tc_ok c"
  shows "tc_ok (tc_forceClose c) \<and> tc_frame c (tc_forceClose c)"
    and "tc_ok (tc_forceCloseWithDelay seconds c) \<and> tc_frame c (tc_forceCloseWithDelay seconds c)"
  using assms tc_forceClose_set_ok [OF assms] tc_frame_refl [of c]
  by (simp_all add: tc_forceClose_def tc_forceCloseWithDelay_def)

lemma tc_interest_reading_ok:
  assumes "tc_ok c" and "m_state c = kConnected" and "i = EnableReading \<or> i = DisableReading"
  shows "tc_ok ((tc_interest i c)\<lparr>m_reading := r\<rparr>) \<and> tc_frame c ((tc_interest i c)\<lparr>m_reading := r\<rparr>)"
proof -
  have "has (apply_interest i (m_events c)) kWriteEvent = has (m_events c) kWriteEvent"
    using assms(3) by (elim disjE) (simp_all only: apply_interest_write)
  with assms(1,2) show ?thesis
    by (simp add: tc_ok_def tc_frame_def tc_interest_def tc_isWriting_def tc_destroys_def tc_stream_def)
qed

lemma tc_call_ok:
  assumes "tc_call c c'" and "tc_ok c"
  shows "tc_ok c' \<and> tc_frame c c'"
  using assms
proof cases
  case (call_startRead)
  with tc_interest_reading_ok [OF assms(2), of EnableReading True] tc_frame_refl [of c] assms(2) show ?thesis
    by (auto simp: tc_startRead_def tc_startReadInLoop_def tc_assertInLoopThread_def split: if_splits)
next
  case (call_stopRead)
  with tc_interest_reading_ok [OF assms(2), of DisableReading False] tc_frame_refl [of c] assms(2) show ?thesis
    by (auto simp: tc_stopRead_def tc_stopReadInLoop_def tc_assertInLoopThread_def split: if_splits)
next
  case (call_consume b)
  with assms(2) show ?thesis by (simp add: tc_ok_def tc_frame_def tc_isWriting_def tc_destroys_def tc_stream_def)
next
  case (call_context x)
  with assms(2) show ?thesis by (simp add: tc_ok_def tc_frame_def tc_isWriting_def tc_destroys_def tc_stream_def)
next
  case (call_send msg tid)
  then show ?thesis by (intro tc_send_ok [OF assms(2)])
next
  case (call_shutdown tid)
  then show ?thesis by (rule tc_shutdown_ok [OF assms(2)])
next
  case call_forceClose
  then show ?thesis using tc_forceClose_ok(1) [OF assms(2)] by simp
next
  case (call_delay seconds)
  then show ?thesis using tc_forceClose_ok(2) [OF assms(2)] by simp
next
  case (call_send_late msg)
  then show ?thesis using tc_queue_send_ok [OF assms(2)] by simp
next
  case (call_shutdown_late tid)
  then show ?thesis by (intro tc_shutdown_set_ok [OF assms(2)])
next
  case call_forceClose_late
  then show ?thesis using tc_forceClose_set_ok(1) [OF assms(2)] by simp
next
  case (call_delay_late seconds)
  then show ?thesis using tc_forceClose_set_ok(2) [OF assms(2)] by simp
qed

lemma tc_calls_ok:
  assumes "tc_call\<^sup>*\<^sup>* c c'" and "tc_ok c"
  shows "tc_ok c' \<and> tc_frame c c'"
  using assms
proof (induction rule: rtranclp_induct)
  case base
  then show ?case by (simp add: tc_frame_refl)
next
  case (step x y)
  then have x: "tc_ok x" "tc_frame c x" by simp_all
  from tc_call_ok [OF step.hyps(2) x(1)] have y: "tc_ok y" "tc_frame x y" by simp_all
  with tc_frame_trans [OF x y(2)] show ?case by simp
qed

section \<open>Steps\<close>

text \<open>\<^verbatim>\<open>readv(2)\<close> never delivers more than its segments hold.\<close>

definition readv_ok :: "(nat list \<Rightarrow> readv_result) \<Rightarrow> bool" where
  "readv_ok readv \<longleftrightarrow> (\<forall>iov bytes. readv iov = ReadvData bytes \<longrightarrow> length bytes \<le> sum_list iov)"

text \<open>A call of a user, a queued functor, an expired timer, or an event the poller reports for the registered channel.\<close>

inductive tc_step :: "'z MuduoConn_scheme user_callbacks \<Rightarrow> 'z MuduoConn_scheme \<Rightarrow> 'z MuduoConn_scheme \<Rightarrow> bool"
  for u :: "'z MuduoConn_scheme user_callbacks" where
  step_call: "tc_call c c' \<Longrightarrow> tc_step u c c'"
| step_functor: "m_functors c = f # fs \<Longrightarrow> tc_functor u (m_thread c) f (c\<lparr>m_functors := fs\<rparr>) = Some c' \<Longrightarrow> tc_step u c c'"
| step_timer: "seconds \<in> set (m_timers c) \<Longrightarrow> tc_step u c (tc_forceClose (c\<lparr>m_timers := remove1 seconds (m_timers c)\<rparr>))"
| step_event: "m_events c \<noteq> kNoneEvent \<Longrightarrow> event_ok revents \<Longrightarrow> readv_ok readv
    \<Longrightarrow> tc_handleEvent u (m_thread c) readv revents t c = Some c' \<Longrightarrow> tc_step u c c'"

text \<open>A connection from \<^verbatim>\<open>connectEstablished\<close> on. \<open>ctx\<close> is the user's part of the record.\<close>

inductive tc_reach :: "'z MuduoConn_scheme user_callbacks \<Rightarrow> 'z MuduoConn_scheme \<Rightarrow> bool"
  for u :: "'z MuduoConn_scheme user_callbacks" where
  reach_new: "kernel_ok syswrite \<Longrightarrow> tc_new tid syswrite = Some c
    \<Longrightarrow> tc_connectEstablished u tid
          (MuduoConn.extend (tc_setHighWaterMarkCallback hw mark (tc_setWriteCompleteCallback wc c)) (MuduoConn.more ctx)) = Some c'
    \<Longrightarrow> tc_reach u c'"
| reach_step: "tc_reach u c \<Longrightarrow> tc_step u c c' \<Longrightarrow> tc_reach u c'"

text \<open>What one step does: the invariant holds again, the stream only grows, and the writing side of an open connection is
  shut down only when nothing waits to be written.\<close>

definition tc_progress :: "'z MuduoConn_scheme \<Rightarrow> 'z MuduoConn_scheme \<Rightarrow> bool" where
  "tc_progress c c' \<longleftrightarrow> m_thread c' = m_thread c \<and> prefix (tc_stream c) (tc_stream c')
     \<and> (m_state c = kDisconnected \<longrightarrow> m_state c' = kDisconnected \<and> m_outputBuffer c' = m_outputBuffer c)
     \<and> (m_shut c' \<longrightarrow> m_shut c \<or> content (m_outputBuffer c') = [] \<or> m_state c = kDisconnected)"

lemma tc_frame_progress: "tc_frame c c' \<Longrightarrow> tc_progress c c'"
  by (auto simp: tc_frame_def tc_progress_def)

lemma tc_frame_inv: "tc_inv c \<Longrightarrow> tc_ok c' \<Longrightarrow> tc_frame c c' \<Longrightarrow> tc_inv c'"
  unfolding tc_inv_def tc_frame_def by (elim conjE) (simp split: if_splits)

text \<open>\<^verbatim>\<open>handleWrite\<close> moves bytes from the buffer to the kernel. A connection that waits for nothing has nothing to do.\<close>

lemma tc_writing: "tc_ok c \<Longrightarrow> tc_isWriting c \<Longrightarrow> m_state c \<noteq> kDisconnected \<and> content (m_outputBuffer c) \<noteq> []"
  by (cases "m_state c = kDisconnected") (simp_all add: tc_ok_def tc_isWriting_def has_def kNoneEvent_def)

lemma tc_handleWrite_idle: "\<not> tc_isWriting c \<Longrightarrow> tc_handleWrite tid c = Some c' \<Longrightarrow> c' = c"
  by (auto simp: tc_handleWrite_def tc_assertInLoopThread_def split: if_splits)

lemma tc_shutdownInLoop_idle:
  "tc_ok c \<Longrightarrow> m_state c = kDisconnecting \<Longrightarrow> \<not> tc_isWriting c \<Longrightarrow> tc_shutdownInLoop (m_thread c) c = Some (c\<lparr>m_shut := True\<rparr>)"
  by (simp add: tc_shutdownInLoop_def tc_assertInLoopThread_def)

text \<open>The write that takes \<open>n\<close> bytes, before and after the buffer has become empty.\<close>

lemma tc_handleWrite_some:
  assumes ok: "tc_ok c" and est: "m_state c \<noteq> kConnecting" and w: "tc_isWriting c" and k: "m_kernel c (m_writes c) (content (m_outputBuffer c)) = Wrote n" "0 < n"
  shows "\<exists>c'. tc_handleWrite (m_thread c) c = Some c' \<and> tc_ok c' \<and> m_state c' = m_state c \<and> m_addedToLoop c' \<and> tc_destroys c' = tc_destroys c
     \<and> m_thread c' = m_thread c \<and> m_kernel c' = m_kernel c \<and> tc_stream c' = tc_stream c
     \<and> content (m_outputBuffer c') = drop n (content (m_outputBuffer c))
     \<and> (m_shut c' \<longleftrightarrow> m_shut c \<or> m_state c = kDisconnecting \<and> n = length (content (m_outputBuffer c)))"
proof -
  let ?b = "m_outputBuffer c"
  have st: "m_state c \<noteq> kDisconnected" "content ?b \<noteq> []" using tc_writing [OF ok w] by simp_all
  have out: "buf_ok ?b" using ok by (simp add: tc_ok_def)
  have n: "n \<le> length (content ?b)" using ok k(1) unfolding tc_ok_def kernel_ok_def by blast
  have bytes: "subrange (peek ?b) (readableBytes ?b) (buffer ?b) = content ?b" by (simp add: content_def buf_defs)
  from retrieve_ok [OF out, of n] n out obtain outb where r: "retrieve n ?b = Some outb" "buf_ok outb" "content outb = drop n (content ?b)"
    by auto
  let ?s = "m_sent c @ take n (content ?b)"
  let ?c = "c\<lparr>m_writes := Suc (m_writes c), m_sent := ?s, m_outputBuffer := outb\<rparr>"
  have added: "m_addedToLoop c" using ok st(1) est by (cases "m_state c") (auto simp: tc_ok_def)
  show ?thesis
  proof (cases "n = length (content ?b)")
    case False
    then have ne: "readableBytes outb \<noteq> 0" "content outb \<noteq> []" using n r readable_content [OF r(2)] by auto
    have "tc_handleWrite (m_thread c) c = Some ?c"
      using w k r(1) ne(1) by (simp add: tc_handleWrite_def tc_assertInLoopThread_def tc_write_def bytes)
    moreover have "tc_ok ?c" using ok st w ne(2) r(2) by (simp add: tc_ok_def tc_isWriting_def)
    ultimately show ?thesis using False r(3) added by (simp add: tc_stream_def tc_destroys_def)
  next
    case True
    then have e: "content outb = []" "readableBytes outb = 0" using r readable_content [OF r(2)] by auto
    let ?d = "tc_interest DisableWriting ?c"
    let ?e = "if m_writeCompleteCallback ?d then tc_queue TcWriteComplete ?d else ?d"
    have "\<not> has (apply_interest DisableWriting (m_events c)) kWriteEvent" by (rule apply_interest_write)
    then have nw: "\<not> tc_isWriting ?e" by (simp add: tc_basic)
    have eok: "tc_ok ?e" using ok st r(2) e(1) nw by (simp add: tc_ok_def tc_basic)
    have "tc_handleWrite (m_thread c) c = (if m_state ?e = kDisconnecting then tc_shutdownInLoop (m_thread c) ?e else Some ?e)"
      using w k r(1) e(2) by (simp add: tc_handleWrite_def tc_assertInLoopThread_def tc_write_def bytes Let_def)
    moreover have "m_thread ?e = m_thread c" "m_state ?e = m_state c" "tc_destroys ?e = tc_destroys c" "m_addedToLoop ?e" "m_kernel ?e = m_kernel c"
      "tc_stream ?e = tc_stream c" "m_outputBuffer ?e = outb" "m_shut ?e = m_shut c"
      by (simp_all add: tc_basic e(1) True)
    ultimately show ?thesis
      using tc_shutdownInLoop_idle [OF eok _ nw] eok True e(1)
      by (cases "m_state c = kDisconnecting") (simp_all add: tc_ok_def tc_isWriting_def tc_destroys_def tc_stream_def)
  qed
qed

lemma tc_handleWrite_inv:
  assumes "tc_inv c" and "tc_handleWrite (m_thread c) c = Some c'"
  shows "tc_inv c' \<and> tc_progress c c' \<and> m_state c' = m_state c \<and> (content (m_outputBuffer c) = [] \<or> m_state c = kDisconnected \<longrightarrow> c' = c)"
proof (cases "tc_isWriting c")
  case False
  with assms show ?thesis using tc_handleWrite_idle by (auto simp: tc_progress_def)
next
  case True
  have ok: "tc_ok c" and est: "m_state c \<noteq> kConnecting" using assms(1) by (simp_all add: tc_inv_def)
  have st: "m_state c \<noteq> kDisconnected" "content (m_outputBuffer c) \<noteq> []" using tc_writing [OF ok True] by simp_all
  have bytes: "subrange (peek (m_outputBuffer c)) (readableBytes (m_outputBuffer c)) (buffer (m_outputBuffer c)) = content (m_outputBuffer c)"
    by (simp add: content_def buf_defs)
  show ?thesis
  proof (cases "\<exists>n. m_kernel c (m_writes c) (content (m_outputBuffer c)) = Wrote n \<and> 0 < n")
    case some: True
    then obtain n where n: "m_kernel c (m_writes c) (content (m_outputBuffer c)) = Wrote n" "0 < n" by blast
    have "tc_ok c' \<and> m_state c' = m_state c \<and> m_addedToLoop c' \<and> tc_destroys c' = tc_destroys c
       \<and> m_thread c' = m_thread c \<and> tc_stream c' = tc_stream c \<and> content (m_outputBuffer c') = drop n (content (m_outputBuffer c))
       \<and> (m_shut c' \<longleftrightarrow> m_shut c \<or> m_state c = kDisconnecting \<and> n = length (content (m_outputBuffer c)))"
      using tc_handleWrite_some [OF ok est True n] assms(2) by auto
    with assms(1) st show ?thesis by (simp add: tc_inv_def tc_progress_def)
  next
    case none: False
    have "c' = c\<lparr>m_writes := Suc (m_writes c)\<rparr>"
      using assms(2) True none
      by (cases "m_kernel c (m_writes c) (content (m_outputBuffer c))")
         (auto simp: tc_handleWrite_def tc_assertInLoopThread_def tc_write_def bytes Let_def)
    with assms(1) st show ?thesis by (simp add: tc_inv_def tc_ok_def tc_progress_def tc_basic)
  qed
qed

lemma tc_readFd_ok:
  assumes "buf_ok b" and "readv_ok readv" and "readFd readv b = Some (n, e, b')"
  shows "buf_ok b' \<and> (\<exists>bytes. content b' = content b @ bytes)"
proof (cases "readv (readFd_iov b)")
  case (ReadvError err)
  with assms show ?thesis by (simp add: readFd_def)
next
  case (ReadvData bytes)
  let ?w = "writableBytes b"
  have len: "length bytes \<le> sum_list (readFd_iov b)" using assms(2) ReadvData by (simp add: readv_ok_def)
  have w: "?w \<le> vec_max" "writerIndex b + ?w = length (buffer b)" using assms(1) by (auto simp: buf_ok_def writableBytes_def)
  show ?thesis
  proof (cases "length bytes \<le> ?w")
    case True
    with append_in_place [OF assms(1) True] assms(3) ReadvData show ?thesis by (auto simp: readFd_def Let_def)
  next
    case False
    let ?b = "b\<lparr>buffer := blit (writerIndex b) (take ?w bytes) (buffer b), writerIndex := length (buffer b)\<rparr>"
    have l: "length (take ?w bytes) = ?w" using False by simp
    have b: "buf_ok ?b" "content ?b = content b @ take ?w bytes" using append_in_place [OF assms(1), of "take ?w bytes"] l w(2) by simp_all
    have "length (blit (writerIndex b) (take ?w bytes) (buffer b)) = length (buffer b)" using l w(2) by simp
    with assms(3) ReadvData False have "Buffer_append (drop ?w bytes) ?b = Some b'" by (auto simp: readFd_def Let_def abort_elims)
    from Buffer_append_effect [OF b(1) this] b(2) show ?thesis by auto
  qed
qed

text \<open>The contract of the callbacks: each acts on the connection only through the calls above.\<close>

locale tc_user =
  fixes u :: "'z MuduoConn_scheme user_callbacks"
  assumes connection: "tc_ok c \<Longrightarrow> u_connection u c = Some c' \<Longrightarrow> tc_call\<^sup>*\<^sup>* c c'"
    and message: "tc_ok c \<Longrightarrow> u_message u t c = Some c' \<Longrightarrow> tc_call\<^sup>*\<^sup>* c c'"
    and writeComplete: "tc_ok c \<Longrightarrow> u_writeComplete u c = Some c' \<Longrightarrow> tc_call\<^sup>*\<^sup>* c c'"
    and highWaterMark: "tc_ok c \<Longrightarrow> u_highWaterMark u n c = Some c' \<Longrightarrow> tc_call\<^sup>*\<^sup>* c c'"
begin

lemma callback_inv:
  assumes "tc_inv c"
  shows "u_message u t c = Some c' \<Longrightarrow> tc_inv c' \<and> tc_frame c c'"
    and "u_writeComplete u c = Some c' \<Longrightarrow> tc_inv c' \<and> tc_frame c c'"
    and "u_highWaterMark u n c = Some c' \<Longrightarrow> tc_inv c' \<and> tc_frame c c'"
proof -
  have ok: "tc_ok c" using assms by (simp add: tc_inv_def)
  have "tc_inv c' \<and> tc_frame c c'" if "tc_call\<^sup>*\<^sup>* c c'" using tc_calls_ok [OF that ok] tc_frame_inv [OF assms] by blast
  then show "u_message u t c = Some c' \<Longrightarrow> tc_inv c' \<and> tc_frame c c'"
    and "u_writeComplete u c = Some c' \<Longrightarrow> tc_inv c' \<and> tc_frame c c'"
    and "u_highWaterMark u n c = Some c' \<Longrightarrow> tc_inv c' \<and> tc_frame c c'"
    using message [OF ok] writeComplete [OF ok] highWaterMark [OF ok] by blast+
qed

lemma handleClose_inv:
  assumes "tc_inv c" and "tc_handleClose u tid c = Some c'"
  shows "tc_inv c' \<and> tc_progress c c' \<and> m_state c' = kDisconnected"
proof -
  let ?c = "tc_interest DisableAll (c\<lparr>m_state := kDisconnected\<rparr>)"
  from assms(2) obtain d where st: "m_state c = kConnected \<or> m_state c = kDisconnecting"
      and d: "u_connection u ?c = Some d" "c' = tc_queue TcDestroyed d"
    by (auto simp: tc_handleClose_def tc_closeCallback_def tc_assertInLoopThread_def Let_def abort_elims split: if_splits)
  have ok: "tc_ok ?c" using assms(1) by (simp add: tc_inv_def tc_ok_def tc_interest_def)
  have none: "tc_destroys ?c = 0" "m_state ?c = kDisconnected" "m_addedToLoop ?c" using assms(1) st by (auto simp: tc_inv_def tc_basic)
  from tc_calls_ok [OF connection [OF ok d(1)] ok] have f: "tc_ok d" "tc_frame ?c d" by simp_all
  then have "tc_ok c'" by (simp add: d(2) tc_ok_def tc_queue_def tc_isWriting_def)
  moreover have "m_state c' = kDisconnected" "m_addedToLoop c'" "tc_destroys c' = 1"
    using f(2) none by (simp_all add: d(2) tc_frame_def tc_basic)
  moreover have "prefix (tc_stream c) (tc_stream c')" "m_shut c' \<longrightarrow> m_shut c \<or> content (m_outputBuffer c') = []" "m_thread c' = m_thread c"
    using f(2) by (auto simp: d(2) tc_frame_def tc_basic)
  ultimately show ?thesis using st by (auto simp: tc_inv_def tc_progress_def)
qed

lemma handleRead_inv:
  assumes "tc_inv c" and "m_state c \<noteq> kDisconnected" and "readv_ok readv" and "tc_handleRead u (m_thread c) readv t c = Some c'"
  shows "tc_inv c' \<and> tc_progress c c'"
proof -
  from assms(4) obtain n e inb where r: "readFd readv (m_inputBuffer c) = Some (n, e, inb)"
    and c': "(if n > 0 then u_message u t (c\<lparr>m_inputBuffer := inb\<rparr>)
      else if n = 0 then tc_handleClose u (m_thread c) (c\<lparr>m_inputBuffer := inb\<rparr>) else Some (c\<lparr>m_inputBuffer := inb\<rparr>)) = Some c'"
    unfolding tc_handleRead_def tc_handleError_def Let_def by (auto simp: tc_assertInLoopThread_def abort_elims)
  let ?c = "c\<lparr>m_inputBuffer := inb\<rparr>"
  have "buf_ok inb" using tc_readFd_ok [OF _ assms(3) r] assms(1) by (simp add: tc_inv_def tc_ok_def)
  then have ok: "tc_inv ?c" using assms(1) by (simp add: tc_inv_def tc_ok_def tc_isWriting_def tc_destroys_def)
  have same: "tc_progress ?c d \<Longrightarrow> tc_progress c d" for d by (simp add: tc_progress_def tc_stream_def)
  consider "n > 0" "u_message u t ?c = Some c'" | "n = 0" "tc_handleClose u (m_thread c) ?c = Some c'" | "c' = ?c"
    using c' by (auto split: if_splits)
  then show ?thesis
  proof cases
    case 1
    from callback_inv(1) [OF ok 1(2)] show ?thesis using same tc_frame_progress by blast
  next
    case 2
    from handleClose_inv [OF ok 2(2)] show ?thesis using same by blast
  next
    case 3
    with ok same show ?thesis using tc_frame_progress [OF tc_frame_refl] by blast
  qed
qed

lemma handleEvent_inv:
  assumes "tc_inv c" and "m_events c \<noteq> kNoneEvent" and "event_ok revents" and "readv_ok readv"
    and "tc_handleEvent u (m_thread c) readv revents t c = Some c'"
  shows "tc_inv c' \<and> tc_progress c c'"
proof -
  have st: "m_state c \<noteq> kDisconnected" using assms(1,2) by (auto simp: tc_inv_def tc_ok_def)
  let ?hup = "has revents POLLHUP \<and> \<not> has revents POLLIN" and ?rd = "has revents (POLLIN OR POLLPRI OR POLLRDHUP)"
  have excl: "?hup \<Longrightarrow> \<not> ?rd" using assms(3) by (simp add: event_ok_def has_or)
  from assms(5) obtain c1 where c1: "(if ?hup then tc_handleClose u (m_thread c) c else if ?rd then tc_handleRead u (m_thread c) readv t c else Some c) = Some c1"
      and c': "(if has revents POLLOUT then tc_handleWrite (m_thread c) c1 else Some c1) = Some c'"
    using excl unfolding tc_handleEvent_def tc_handleError_def Let_def if_cancel by (cases ?hup; cases ?rd) (auto simp: abort_elims)
  have inv1: "tc_inv c1 \<and> tc_progress c c1"
  proof (cases ?hup)
    case True
    with c1 handleClose_inv [OF assms(1)] show ?thesis by simp
  next
    case False
    with c1 handleRead_inv [OF assms(1) st assms(4)] assms(1) tc_frame_progress [OF tc_frame_refl] show ?thesis
      by (cases ?rd) simp_all
  qed
  then have t: "m_thread c1 = m_thread c" by (simp add: tc_progress_def)
  show ?thesis
  proof (cases "has revents POLLOUT")
    case False
    with c' inv1 show ?thesis by simp
  next
    case True
    with c' t have w: "tc_handleWrite (m_thread c1) c1 = Some c'" by simp
    from tc_handleWrite_inv [OF _ this] inv1 have 2: "tc_inv c'" "tc_progress c1 c'" "content (m_outputBuffer c1) = [] \<or> m_state c1 = kDisconnected \<longrightarrow> c' = c1" by simp_all
    have "prefix (tc_stream c) (tc_stream c')" using inv1 2(2) prefix_order.trans unfolding tc_progress_def by blast
    with 2 inv1 st show ?thesis unfolding tc_progress_def by auto
  qed
qed

lemma functor_inv:
  assumes "tc_inv c" and "m_functors c = f # fs" and "tc_functor u (m_thread c) f (c\<lparr>m_functors := fs\<rparr>) = Some c'"
  shows "tc_inv c' \<and> tc_progress c c'"
proof -
  let ?c = "c\<lparr>m_functors := fs\<rparr>"
  have ok: "tc_ok ?c" using assms(1,2) by (simp add: tc_inv_def tc_ok_def tc_isWriting_def)
  have fok: "tc_functor_ok f" using assms(1,2) by (simp add: tc_inv_def tc_ok_def)
  have inv: "tc_inv ?c" if "f \<noteq> TcDestroyed"
    using assms(1,2) ok that by (simp add: tc_inv_def tc_destroys_def)
  have same: "tc_progress ?c d \<Longrightarrow> tc_progress c d" for d by (simp add: tc_progress_def tc_stream_def)
  have frame: "tc_inv d \<and> tc_frame ?c d \<Longrightarrow> tc_inv d \<and> tc_progress c d" for d using same tc_frame_progress by blast
  show ?thesis
  proof (cases f)
    case (TcSend msg)
    show ?thesis
    proof (cases "m_state c = kDisconnected")
      case True
      with TcSend assms(3) have "c' = ?c" by (auto simp: tc_sendInLoop_def tc_assertInLoopThread_def split: if_splits)
      with inv TcSend frame tc_frame_refl [of ?c] show ?thesis by simp
    next
      case False
      with inv TcSend have st: "m_state ?c = kConnected \<or> m_state ?c = kDisconnecting" by (cases "m_state c") (auto simp: tc_inv_def)
      have "tc_appends msg ?c c'" by (rule tc_sendInLoop_ok [OF ok st]) (use TcSend fok assms(3) in simp_all)
      with inv TcSend False same [of c'] show ?thesis by (simp add: tc_appends_def tc_inv_def tc_progress_def)
    qed
  next
    case TcShutdown
    then have st: "m_state ?c = kDisconnecting \<or> m_state ?c = kDisconnected" using assms(1,2) by (simp add: tc_inv_def tc_ok_def)
    have w: "\<not> tc_isWriting ?c \<Longrightarrow> m_state c = kDisconnecting \<Longrightarrow> content (m_outputBuffer c) = []" using ok by (simp add: tc_ok_def)
    from TcShutdown assms(3) have "tc_shutdownInLoop (m_thread ?c) ?c = Some c'" by simp
    from tc_shutdownInLoop_ok [OF ok st this] inv TcShutdown w st show ?thesis
      by (auto simp: tc_inv_def tc_progress_def tc_stream_def)
  next
    case TcForceClose
    with assms(3) inv handleClose_inv [of ?c "m_thread c" c'] same [of c'] frame [of ?c] tc_frame_refl [of ?c] show ?thesis
      by (auto simp: tc_forceCloseInLoop_def tc_assertInLoopThread_def split: if_splits)
  next
    case TcDestroyed
    with assms(1,2) have d: "m_state c = kDisconnected" "m_addedToLoop c" "count_list fs TcDestroyed = 0"
      by (auto simp: tc_inv_def tc_destroys_def split: if_splits)
    then have "c' = ?c\<lparr>m_addedToLoop := False\<rparr>" using TcDestroyed assms(3)
      by (auto simp: tc_connectDestroyed_def tc_removeChannel_def tc_assertInLoopThread_def split: if_splits)
    with d ok same show ?thesis by (simp add: tc_inv_def tc_ok_def tc_progress_def tc_basic)
  next
    case TcWriteComplete
    then show ?thesis using callback_inv(2) [OF inv, of c'] assms(3) frame by simp
  next
    case (TcHighWaterMark n)
    then show ?thesis using callback_inv(3) [OF inv, of n c'] assms(3) frame by simp
  qed (use fok in simp_all)
qed

lemma step_inv:
  assumes "tc_inv c" and "tc_step u c c'"
  shows "tc_inv c' \<and> tc_progress c c'"
  using assms(2)
proof cases
  case step_call
  from tc_call_ok [OF this] assms(1) tc_frame_inv [OF assms(1)] tc_frame_progress show ?thesis by (auto simp: tc_inv_def)
next
  case (step_timer seconds)
  let ?c = "c\<lparr>m_timers := remove1 seconds (m_timers c)\<rparr>"
  have inv: "tc_inv ?c" using assms(1) by (simp add: tc_inv_def tc_ok_def tc_isWriting_def tc_destroys_def)
  have "tc_frame ?c d \<Longrightarrow> tc_progress c d" for d by (auto dest!: tc_frame_progress simp: tc_progress_def tc_stream_def)
  with tc_forceClose_ok(1) [of ?c] tc_frame_inv [OF inv] inv step_timer(1) show ?thesis by (simp add: tc_inv_def)
qed (use assms(1) functor_inv handleEvent_inv in blast)+

lemma reach_inv: "tc_reach u c \<Longrightarrow> tc_inv c"
proof (induction rule: tc_reach.induct)
  case (reach_new syswrite tid c hw mark wc ctx c')
  let ?c = "MuduoConn.extend (tc_setHighWaterMarkCallback hw mark (tc_setWriteCompleteCallback wc c)) (MuduoConn.more ctx)"
  let ?d = "tc_interest EnableReading (?c\<lparr>m_state := kConnected\<rparr>)"
  obtain b where b: "new_Buffer kInitialSize = Some b" "buf_ok b" "content b = []"
    using new_Buffer_ok [of kInitialSize] by (auto simp: kInitialSize_def kCheapPrepend_def vec_max_def)
  have c: "m_functors ?d = []" "m_inputBuffer ?d = b" "m_outputBuffer ?d = b" "m_kernel ?d = syswrite" "m_events ?d = apply_interest EnableReading 0"
    "m_state ?d = kConnected" "m_addedToLoop ?d" "\<not> m_shut ?d"
    using reach_new(2) b(1)
    by (auto simp: tc_new_def MuduoConn.defs tc_setHighWaterMarkCallback_def tc_setWriteCompleteCallback_def tc_interest_def)
  have "\<not> has (apply_interest EnableReading 0) kWriteEvent" unfolding apply_interest_write by (simp add: has_def)
  with c b reach_new(1) have inv: "tc_inv ?d" unfolding tc_inv_def tc_ok_def tc_isWriting_def tc_destroys_def by simp
  then have ok: "tc_ok ?d" by (simp add: tc_inv_def)
  have "u_connection u ?d = Some c'"
    using reach_new(3) by (auto simp: tc_connectEstablished_def tc_assertInLoopThread_def split: if_splits)
  from tc_calls_ok [OF connection [OF ok this] ok] tc_frame_inv [OF inv] show ?case by blast
next
  case (reach_step c c')
  then show ?case using step_inv by blast
qed

end

text \<open>A server whose user sets no callbacks.\<close>

definition default_user :: "'z MuduoConn_scheme user_callbacks" where
  "default_user = \<lparr>u_connection = tc_defaultConnectionCallback, u_message = tc_defaultMessageCallback,
     u_writeComplete = (\<lambda>c. None), u_highWaterMark = (\<lambda>n c. None)\<rparr>"

interpretation dflt: tc_user "default_user :: 'z MuduoConn_scheme user_callbacks"
proof unfold_locales
  fix c c' :: "'z MuduoConn_scheme" and t
  assume "tc_ok c" "u_message default_user t c = Some c'"
  then show "tc_call\<^sup>*\<^sup>* c c'"
    by (auto simp: default_user_def tc_defaultMessageCallback_def tc_ok_def intro!: r_into_rtranclp call_consume)
qed (simp_all add: default_user_def tc_defaultConnectionCallback_def)

section \<open>Properties\<close>

definition ex_kernel :: "nat \<Rightarrow> string \<Rightarrow> write_result" where
  "ex_kernel i bytes = Wrote (min 2 (length bytes))"

definition ex_established :: MuduoConn where
  "ex_established =
     (let b = \<lparr>buffer = replicate 1032 (CHR 0x00), readerIndex = 8, writerIndex = 8\<rparr> in
      \<lparr>m_thread = 1, m_functors = [], m_timers = [], m_state = kConnected, m_reading = True, m_events = 3,
        m_addedToLoop = True, m_writeCompleteCallback = False, m_highWaterMarkCallback = False,
        m_highWaterMark = 100, m_inputBuffer = b, m_outputBuffer = b,
        m_kernel = ex_kernel, m_writes = 0, m_sent = [], m_shut = False\<rparr>)"

definition ex_connecting :: MuduoConn where
  "ex_connecting = ex_established\<lparr>m_state := kConnecting, m_events := 0, m_addedToLoop := False, m_highWaterMark := 64 * 1024 * 1024\<rparr>"

lemma ex_new: "tc_new 1 ex_kernel = Some ex_connecting" "kernel_ok ex_kernel"
  by (simp add: ex_connecting_def tc_new_def ex_established_def new_Buffer_def kInitialSize_def buf_defs vec_max_def Let_def)
     (auto simp: kernel_ok_def ex_kernel_def)

lemma ex_established_reach: "tc_reach default_user ex_established"
proof (rule reach_new [OF ex_new(2,1)])
  show "tc_connectEstablished default_user 1 (MuduoConn.extend (tc_setHighWaterMarkCallback False 100 (tc_setWriteCompleteCallback False ex_connecting))
      (MuduoConn.more ex_established)) = Some ex_established"
    by (simp add: ex_connecting_def tc_connectEstablished_def default_user_def tc_defaultConnectionCallback_def tc_assertInLoopThread_def ex_established_def
        MuduoConn.defs tc_setHighWaterMarkCallback_def tc_setWriteCompleteCallback_def tc_interest_def kReadEvent_def POLLIN_def POLLPRI_def Let_def)
qed

text \<open>A run that ends with a close: \<^verbatim>\<open>forceClose\<close> is called, its functor runs, and \<^verbatim>\<open>connectDestroyed\<close> is queued.\<close>

definition ex_closed :: MuduoConn where
  "ex_closed = ex_established\<lparr>m_state := kDisconnected, m_events := 0, m_functors := [TcDestroyed]\<rparr>"

lemma ex_closed_reach: "tc_reach default_user ex_closed"
proof -
  let ?forced = "ex_established\<lparr>m_state := kDisconnecting, m_functors := [TcForceClose]\<rparr>"
  have ex: "m_state ex_established = kConnected" "m_functors ex_established = []" "m_thread ex_established = 1"
    by (simp_all add: ex_established_def Let_def)
  have "tc_forceClose ex_established = ?forced" using ex by (simp add: tc_forceClose_def tc_forceClose_set_def tc_queue_def)
  then have r0: "tc_reach default_user ?forced" using reach_step [OF ex_established_reach step_call [OF call_forceClose]] by simp
  have "tc_step default_user ?forced ex_closed"
    unfolding ex_closed_def by (rule step_functor [of _ TcForceClose "[]"])
       (simp_all add: ex tc_forceCloseInLoop_def tc_handleClose_def tc_closeCallback_def tc_assertInLoopThread_def tc_interest_def tc_queue_def
          default_user_def tc_defaultConnectionCallback_def kNoneEvent_def ex_established_def Let_def)
  then show ?thesis by (rule reach_step [OF r0])
qed

text \<open>C11: a connection is closed once. Other threads may call \<^verbatim>\<open>send\<close>, \<^verbatim>\<open>shutdown\<close> and \<^verbatim>\<open>forceClose\<close> at any time, between any two
  steps of the loop, and the test of the state and its assignment in these calls may be separated by steps of other threads and of the
  loop that do not close the connection; the callbacks use the connection through its interface. Then an open connection asks for write
  events exactly while bytes wait; at most one \<^verbatim>\<open>connectDestroyed\<close> is queued, and only for a closed connection; when it runs, neither its
  assertions nor those of the destructors fail. An assignment that comes after the close is not covered: it does make the destructor
  fail (\<open>closing_race_aborts\<close>).\<close>

theorem connection_closed_once:
  assumes "tc_user u" and "tc_reach u c"
  shows "(m_state c \<noteq> kDisconnected \<longrightarrow> m_addedToLoop c \<and> (tc_isWriting c \<longleftrightarrow> content (m_outputBuffer c) \<noteq> []))
    \<and> count_list (m_functors c) TcDestroyed \<le> 1 \<and> (TcDestroyed \<in> set (m_functors c) \<longrightarrow> m_state c = kDisconnected)
    \<and> (\<forall>fs. m_functors c = TcDestroyed # fs \<longrightarrow>
         (\<exists>c'. tc_functor u (m_thread c) TcDestroyed (c\<lparr>m_functors := fs\<rparr>) = Some c' \<and> tc_delete c' = Some ()))"
proof -
  have inv: "tc_inv c" by (rule tc_user.reach_inv [OF assms])
  then have n: "count_list (m_functors c) TcDestroyed = (if m_state c = kDisconnected \<and> m_addedToLoop c then 1 else 0)"
    by (simp add: tc_inv_def tc_destroys_def)
  have mem: "TcDestroyed \<in> set (m_functors c) \<longrightarrow> m_state c = kDisconnected \<and> m_addedToLoop c"
    using n count_list_0_iff [of "m_functors c" TcDestroyed] by (auto split: if_splits)
  moreover have "m_state c \<noteq> kDisconnected \<longrightarrow> m_addedToLoop c \<and> (tc_isWriting c \<longleftrightarrow> content (m_outputBuffer c) \<noteq> [])"
    using inv by (cases "m_state c") (simp_all add: tc_inv_def tc_ok_def)
  moreover have "m_state c = kDisconnected \<longrightarrow> m_events c = kNoneEvent" using inv by (simp add: tc_inv_def tc_ok_def)
  ultimately show ?thesis using n
    by (auto simp: tc_connectDestroyed_def tc_removeChannel_def tc_delete_def tc_assertInLoopThread_def)
qed

theorem connection_closed_once_witness:
  "count_list (m_functors ex_closed) TcDestroyed = 1
     \<and> (\<exists>c'. tc_functor default_user 1 TcDestroyed (ex_closed\<lparr>m_functors := []\<rparr>) = Some c' \<and> tc_delete c' = Some ())"
proof -
  have "m_functors ex_closed = [TcDestroyed]" "m_thread ex_closed = 1" by (simp_all add: ex_closed_def ex_established_def Let_def)
  with connection_closed_once [OF dflt.tc_user_axioms ex_closed_reach] show ?thesis by auto
qed

text \<open>The race that the comments of the source mention: a thread has tested the state in \<^verbatim>\<open>shutdown\<close> and sets it to
  \<^verbatim>\<open>kDisconnecting\<close> after the loop has closed the connection. \<^verbatim>\<open>connectDestroyed\<close> still removes the channel, but the assertion of the
  destructor fails.\<close>

theorem closing_race_aborts:
  assumes "tc_user u" and "tc_reach u c" and "m_functors c = TcDestroyed # fs" and "tid \<noteq> m_thread c"
    and "tc_shutdown_set tid c = Some d"
  shows "m_functors d = TcDestroyed # fs @ [TcShutdown] \<and>
    (\<exists>c'. tc_functor u (m_thread d) TcDestroyed (d\<lparr>m_functors := fs @ [TcShutdown]\<rparr>) = Some c' \<and> tc_delete c' = None)"
proof -
  have inv: "tc_inv c" by (rule tc_user.reach_inv [OF assms(1,2)])
  with assms(3) have "m_state c = kDisconnected" "m_addedToLoop c" by (auto simp: tc_inv_def tc_destroys_def split: if_splits)
  with inv have "m_events c = kNoneEvent" by (simp add: tc_inv_def tc_ok_def)
  moreover have "d = c\<lparr>m_state := kDisconnecting, m_functors := m_functors c @ [TcShutdown]\<rparr>"
    using assms(4,5) by (simp add: tc_shutdown_set_def tc_queue_def)
  ultimately show ?thesis
    using \<open>m_addedToLoop c\<close> assms(3)
    by (simp add: tc_connectDestroyed_def tc_removeChannel_def tc_assertInLoopThread_def tc_delete_def)
qed

theorem closing_race_aborts_witness:
  "\<exists>d c'. tc_shutdown_set 2 ex_closed = Some d \<and> tc_functor default_user 1 TcDestroyed (d\<lparr>m_functors := [TcShutdown]\<rparr>) = Some c' \<and> tc_delete c' = None"
proof -
  have f: "m_functors ex_closed = [TcDestroyed]" and t: "2 \<noteq> m_thread ex_closed" by (simp_all add: ex_closed_def ex_established_def Let_def)
  then obtain d where d: "tc_shutdown_set 2 ex_closed = Some d" "m_thread d = 1"
    by (simp add: tc_shutdown_set_def tc_queue_def) (simp add: ex_closed_def ex_established_def Let_def)
  from closing_race_aborts [OF dflt.tc_user_axioms ex_closed_reach f t d(1)] d show ?thesis by auto
qed

text \<open>C12: the bytes handed over for sending reach the kernel in order and none is lost: no step of the loop or of another thread takes a byte
  out of the stream of bytes written and waiting; \<^verbatim>\<open>send\<close> in the loop's thread appends the whole message to it, unless the peer is gone;
  and the writing side is shut down only when all of the stream has been written.\<close>

theorem connection_stream:
  assumes "tc_user u" and "tc_reach u c"
  shows "(\<forall>c'. tc_step u c c' \<longrightarrow> prefix (tc_stream c) (tc_stream c')
             \<and> (m_shut c' \<longrightarrow> m_shut c \<or> content (m_outputBuffer c') = [] \<or> m_state c = kDisconnected))
    \<and> (\<forall>msg c'. length msg \<le> vec_max \<longrightarrow> m_state c = kConnected \<longrightarrow> tc_send (m_thread c) msg c = Some c' \<longrightarrow>
         tc_stream c' = tc_stream c @ (if tc_fault msg c then [] else msg))"
proof -
  have inv: "tc_inv c" by (rule tc_user.reach_inv [OF assms])
  then have ok: "tc_ok c" by (simp add: tc_inv_def)
  have "tc_appends msg c c'" if "length msg \<le> vec_max" "m_state c = kConnected" "tc_send (m_thread c) msg c = Some c'" for msg c'
    using tc_sendInLoop_ok [OF ok _ that(1)] that(2,3) by (simp add: tc_send_def)
  then have "tc_stream c' = tc_stream c @ (if tc_fault msg c then [] else msg)"
    if "length msg \<le> vec_max" "m_state c = kConnected" "tc_send (m_thread c) msg c = Some c'" for msg c'
    using that by (simp only: tc_appends_def)
  moreover have "prefix (tc_stream c) (tc_stream c') \<and> (m_shut c' \<longrightarrow> m_shut c \<or> content (m_outputBuffer c') = [] \<or> m_state c = kDisconnected)"
    if "tc_step u c c'" for c'
    using tc_user.step_inv [OF assms(1) inv that] unfolding tc_progress_def by blast
  ultimately show ?thesis by blast
qed

theorem connection_stream_witness:
  "\<exists>c'. tc_send 1 ''hello'' ex_established = Some c' \<and> tc_stream c' = ''hello''"
proof -
  have ex: "m_state ex_established = kConnected" "m_thread ex_established = 1" "tc_stream ex_established = []" "\<not> tc_fault ''hello'' ex_established"
    by (simp_all add: ex_established_def Let_def content_def tc_stream_def tc_fault_def ex_kernel_def)
  have "tc_ok ex_established" using dflt.reach_inv [OF ex_established_reach] by (simp add: tc_inv_def)
  moreover have "room (m_outputBuffer ex_established) (length ''hello'')"
    by (simp add: ex_established_def Let_def room_def kCheapPrepend_def vec_max_def)
  ultimately obtain c' where c': "tc_send (m_thread ex_established) ''hello'' ex_established = Some c'"
    using tc_sendInLoop_total [of ex_established "''hello''"] ex(1) by (auto simp: tc_send_def)
  have "length ''hello'' \<le> vec_max" by (simp add: vec_max_def)
  from connection_stream [OF dflt.tc_user_axioms ex_established_reach, THEN conjunct2, rule_format, OF this ex(1) c'] c' ex
  show ?thesis by simp
qed

text \<open>The loop reporting write events \<open>k\<close> times.\<close>

fun tc_handleWrites :: "nat \<Rightarrow> 'z MuduoConn_scheme \<Rightarrow> 'z MuduoConn_scheme option" where
  "tc_handleWrites 0 c = Some c"
| "tc_handleWrites (Suc k) c = do { c \<leftarrow> tc_handleWrite (m_thread c) c; tc_handleWrites k c }"

lemma tc_handleWrites_idle: "\<not> tc_isWriting c \<Longrightarrow> tc_handleWrites k c = Some c"
  by (induction k) (simp_all add: tc_handleWrite_def tc_assertInLoopThread_def)

lemma tc_handleWrites_drain:
  assumes "tc_ok c" and "m_state c = kDisconnecting" and "length (content (m_outputBuffer c)) \<le> k"
    and "content (m_outputBuffer c) = [] \<longrightarrow> m_shut c"
    and "\<And>i bytes. bytes \<noteq> [] \<Longrightarrow> \<exists>n > 0. m_kernel c i bytes = Wrote n"
  shows "\<exists>c'. tc_handleWrites k c = Some c' \<and> m_shut c' \<and> m_sent c' = tc_stream c \<and> content (m_outputBuffer c') = []"
  using assms
proof (induction k arbitrary: c)
  case 0
  then show ?case by (simp add: tc_stream_def)
next
  case (Suc k)
  show ?case
  proof (cases "content (m_outputBuffer c) = []")
    case True
    with Suc.prems(1,2) have "\<not> tc_isWriting c" by (simp add: tc_ok_def)
    from tc_handleWrites_idle [OF this] True Suc.prems(4) show ?thesis by (simp add: tc_stream_def)
  next
    case False
    with Suc.prems(1,2) have w: "tc_isWriting c" by (simp add: tc_ok_def)
    from Suc.prems(5) [OF False] obtain n where n: "m_kernel c (m_writes c) (content (m_outputBuffer c)) = Wrote n" "0 < n" by blast
    from tc_handleWrite_some [OF Suc.prems(1) _ w n] Suc.prems(2) obtain d where
      d: "tc_handleWrite (m_thread c) c = Some d" "tc_ok d" "m_state d = kDisconnecting" "m_kernel d = m_kernel c" "tc_stream d = tc_stream c"
        "content (m_outputBuffer d) = drop n (content (m_outputBuffer c))" "m_shut d \<longleftrightarrow> m_shut c \<or> n = length (content (m_outputBuffer c))"
      by auto
    have "n \<le> length (content (m_outputBuffer c))" using Suc.prems(1) n(1) unfolding tc_ok_def kernel_ok_def by blast
    then have "length (content (m_outputBuffer d)) \<le> k" "content (m_outputBuffer d) = [] \<longrightarrow> m_shut d"
      using d(6,7) n(2) Suc.prems(3) by auto
    from Suc.IH [OF d(2,3) this] Suc.prems(5) d(1,4,5) show ?thesis by simp
  qed
qed

text \<open>C13: \<^verbatim>\<open>shutdown\<close> in the loop's thread completes: as long as the kernel takes something of every non-empty write, at most one write
  event for each waiting byte delivers everything that was handed over, and then the writing side is shut down.\<close>

theorem shutdown_completes:
  assumes "tc_user u" and "tc_reach u c" and "m_state c = kConnected" and "tc_shutdown (m_thread c) c = Some c1"
    and "\<And>i bytes. bytes \<noteq> [] \<Longrightarrow> \<exists>n > 0. m_kernel c i bytes = Wrote n"
  shows "\<exists>c'. tc_handleWrites (length (content (m_outputBuffer c))) c1 = Some c' \<and> m_shut c' \<and> m_sent c' = tc_stream c
     \<and> content (m_outputBuffer c') = []"
proof -
  have ok: "tc_ok c" using tc_user.reach_inv [OF assms(1,2)] by (simp add: tc_inv_def)
  let ?c = "c\<lparr>m_state := kDisconnecting\<rparr>"
  have ok': "tc_ok ?c" using tc_ok_disconnecting [OF ok] assms(3) by simp
  have w: "tc_isWriting ?c \<longleftrightarrow> content (m_outputBuffer c) \<noteq> []" using ok' by (simp add: tc_ok_def)
  have s: "tc_shutdownInLoop (m_thread c) ?c = Some c1" using assms(3,4) by (simp add: tc_shutdown_def tc_shutdown_set_def)
  have c1: "tc_ok c1 \<and> m_state c1 = kDisconnecting \<and> m_kernel c1 = m_kernel c \<and> m_outputBuffer c1 = m_outputBuffer c \<and> m_sent c1 = m_sent c"
    using tc_shutdownInLoop_ok [OF ok' _ s] by simp
  moreover have "content (m_outputBuffer c) = [] \<longrightarrow> m_shut c1" using s w by (auto simp: tc_shutdownInLoop_def tc_assertInLoopThread_def)
  moreover have "tc_stream c1 = tc_stream c" using c1 by (simp add: tc_stream_def)
  ultimately show ?thesis
    using tc_handleWrites_drain [of c1 "length (content (m_outputBuffer c))"] assms(5) by simp
qed

text \<open>A connection on which ``hello'' was sent: the kernel took two bytes, three wait.\<close>

definition ex_sending :: MuduoConn where
  "ex_sending = the (tc_send 1 ''hello'' ex_established)"

lemma ex_sending:
  "tc_send 1 ''hello'' ex_established = Some ex_sending" "m_state ex_sending = kConnected" "m_thread ex_sending = 1"
  "m_sent ex_sending = ''he''" "content (m_outputBuffer ex_sending) = ''llo''" "m_kernel ex_sending = ex_kernel"
  by (simp_all add: ex_sending_def tc_send_def tc_sendInLoop_def tc_assertInLoopThread_def tc_isWriting_def has_def kWriteEvent_def POLLOUT_def
      ex_established_def Let_def buf_defs tc_writeDirectly_def tc_write_def ex_kernel_def tc_bufferRest_def Buffer_append_def
      ensureWritableBytes_def hasWritten_def blit_def tc_interest_def content_def subrange_def)

theorem shutdown_completes_witness:
  "\<exists>c1 c'. tc_shutdown 1 ex_sending = Some c1 \<and> \<not> m_shut c1 \<and> content (m_outputBuffer c1) = ''llo''
     \<and> tc_handleWrites 3 c1 = Some c' \<and> m_shut c' \<and> m_sent c' = ''hello'' \<and> content (m_outputBuffer c') = []"
proof -
  have "tc_call ex_established ex_sending" by (rule call_send [OF _ ex_sending(1)]) (simp add: vec_max_def)
  then have r: "tc_reach default_user ex_sending" by (intro reach_step [OF ex_established_reach] step_call)
  have "tc_isWriting ex_sending" using dflt.reach_inv [OF r] ex_sending(2,5) by (simp add: tc_inv_def tc_ok_def)
  then have s: "tc_shutdown (m_thread ex_sending) ex_sending = Some (ex_sending\<lparr>m_state := kDisconnecting\<rparr>)"
    by (simp add: tc_shutdown_def tc_shutdown_set_def tc_shutdownInLoop_def tc_assertInLoopThread_def ex_sending tc_isWriting_def)
  have "\<not> m_shut ex_sending" using dflt.reach_inv [OF r] ex_sending(2) by (auto simp: tc_inv_def tc_ok_def)
  moreover have "\<exists>n > 0. m_kernel ex_sending i bytes = Wrote n" if "bytes \<noteq> []" for i bytes
    using that by (simp add: ex_sending(6) ex_kernel_def)
  ultimately show ?thesis
    using shutdown_completes [OF dflt.tc_user_axioms r ex_sending(2) s] s ex_sending by (simp add: tc_stream_def numeral_3_eq_3)
qed

text \<open>\<^verbatim>\<open>connectDestroyed\<close> does not handle a connection that is shutting down: it leaves its channel registered for reading and aborts on
  the assertion of \<^verbatim>\<open>Channel::remove\<close>. The destructor of a server calls it for every connection it still has.\<close>

theorem destroy_half_closed_aborts:
  assumes "m_state c = kDisconnecting" and "tc_isReading c \<or> tc_isWriting c"
  shows "tc_connectDestroyed u (m_thread c) c = None"
proof -
  have "m_events c \<noteq> kNoneEvent" using assms(2) by (auto simp: tc_isReading_def tc_isWriting_def has_def kNoneEvent_def)
  with assms(1) show ?thesis by (simp add: tc_connectDestroyed_def tc_removeChannel_def tc_assertInLoopThread_def)
qed

theorem destroy_half_closed_aborts_witness:
  "tc_reach default_user (ex_established\<lparr>m_state := kDisconnecting, m_shut := True\<rparr>)
     \<and> tc_connectDestroyed default_user 1 (ex_established\<lparr>m_state := kDisconnecting, m_shut := True\<rparr>) = None"
proof -
  let ?c = "ex_established\<lparr>m_state := kDisconnecting, m_shut := True\<rparr>"
  have "tc_shutdown 1 ex_established = Some ?c"
    by (simp add: tc_shutdown_def tc_shutdown_set_def tc_shutdownInLoop_def tc_assertInLoopThread_def ex_established_def Let_def tc_isWriting_def has_def
        kWriteEvent_def POLLOUT_def)
  then have "tc_reach default_user ?c" by (intro reach_step [OF ex_established_reach] step_call call_shutdown)
  moreover have "tc_isReading ?c" "m_thread ?c = 1" "m_state ?c = kDisconnecting"
    by (simp_all add: ex_established_def Let_def tc_isReading_def has_def kReadEvent_def POLLIN_def POLLPRI_def)
  ultimately show ?thesis using destroy_half_closed_aborts [of ?c default_user] by simp
qed

text \<open>\<^verbatim>\<open>startRead\<close> does not look at the state: on a connection that is closed and destroyed it registers the channel with the poller
  again, so that the destructor of the channel aborts.\<close>

theorem start_read_after_close_aborts:
  assumes "tc_user u" and "tc_reach u c" and "m_state c = kDisconnected"
  shows "\<exists>c'. tc_startRead (m_thread c) c = Some c' \<and> m_addedToLoop c' \<and> tc_isReading c' \<and> tc_delete c' = None"
proof -
  have "m_events c = kNoneEvent" using tc_user.reach_inv [OF assms(1,2)] assms(3) by (simp add: tc_inv_def tc_ok_def)
  then have r: "\<not> tc_isReading c" by (simp add: tc_isReading_def has_def kNoneEvent_def)
  have "has (apply_interest EnableReading (m_events c)) kReadEvent" by (rule apply_interest_read)
  with r show ?thesis
    by (simp add: tc_startRead_def tc_startReadInLoop_def tc_assertInLoopThread_def tc_interest_def tc_delete_def) (simp add: tc_isReading_def)
qed

theorem start_read_after_close_aborts_witness:
  "\<exists>c'. tc_startRead 1 (ex_closed\<lparr>m_functors := [], m_addedToLoop := False\<rparr>) = Some c' \<and> tc_delete c' = None"
proof -
  let ?c = "ex_closed\<lparr>m_functors := [], m_addedToLoop := False\<rparr>"
  have ex: "m_state ex_closed = kDisconnected" "m_thread ex_closed = 1" by (simp_all add: ex_closed_def ex_established_def Let_def)
  have "tc_step default_user ex_closed ?c"
    by (rule step_functor [of _ TcDestroyed "[]"])
       (simp_all add: ex_closed_def tc_connectDestroyed_def tc_removeChannel_def tc_assertInLoopThread_def kNoneEvent_def ex_established_def Let_def)
  then have "tc_reach default_user ?c" by (rule reach_step [OF ex_closed_reach])
  from start_read_after_close_aborts [OF dflt.tc_user_axioms this] ex show ?thesis by auto
qed

end
