(* ===== verification/Http.thy ===== *)
theory Http
  imports MuduoConnection
begin

text \<open>
  \<^verbatim>\<open>muduo/net/http\<close>: \<^verbatim>\<open>HttpRequest.h\<close>, \<^verbatim>\<open>HttpContext.h\<close>, \<^verbatim>\<open>HttpContext.cc\<close>, \<^verbatim>\<open>HttpResponse.h\<close>,
  \<^verbatim>\<open>HttpResponse.cc\<close> and \<^verbatim>\<open>HttpServer.cc\<close>. The parser works on the buffers of the theory \<open>Buffer\<close>
  (\<^verbatim>\<open>muduo/net/Buffer.h\<close> is the same class as \<^verbatim>\<open>Buffer.h\<close>). Its loop gets fuel, one unit for each round;
  \<open>ParseLoops\<close> is a loop that outlasted its fuel, \<open>ParseAbort\<close> a failed assertion. The user's callback is an argument.
\<close>

section \<open>Requests\<close>

datatype Method = kInvalid | kGet | kPost | kHead | kPut | kDelete

datatype Version = kUnknownVersion | kHttp10 | kHttp11

record HttpRequest =
  r_method :: Method
  r_version :: Version
  r_path :: string
  r_query :: string
  r_receiveTime :: Timestamp
  r_headers :: "string \<rightharpoonup> string"

definition new_HttpRequest :: HttpRequest where
  "new_HttpRequest = \<lparr>r_method = kInvalid, r_version = kUnknownVersion, r_path = [], r_query = [],
     r_receiveTime = Timestamp_invalid, r_headers = Map.empty\<rparr>"

definition method_of_text :: "string \<Rightarrow> Method" where
  "method_of_text m =
     (if m = ''GET'' then kGet else if m = ''POST'' then kPost else if m = ''HEAD'' then kHead
      else if m = ''PUT'' then kPut else if m = ''DELETE'' then kDelete else kInvalid)"

definition setMethod :: "string \<Rightarrow> HttpRequest \<Rightarrow> (bool \<times> HttpRequest) option" where
  "setMethod m r = do {
     assert_that (r_method r = kInvalid);
     let r' = r\<lparr>r_method := method_of_text m\<rparr>;
     Some (r_method r' \<noteq> kInvalid, r')
   }"

fun methodString :: "Method \<Rightarrow> string" where
  "methodString kGet = ''GET''"
| "methodString kPost = ''POST''"
| "methodString kHead = ''HEAD''"
| "methodString kPut = ''PUT''"
| "methodString kDelete = ''DELETE''"
| "methodString kInvalid = ''UNKNOWN''"

definition rstrip :: "string \<Rightarrow> string" where
  "rstrip s = rev (dropWhile isspace (rev s))"

text \<open>\<open>colon\<close> is the offset of the colon in the line.\<close>

definition addHeader :: "string \<Rightarrow> nat \<Rightarrow> HttpRequest \<Rightarrow> HttpRequest" where
  "addHeader line colon r =
     (let field = take colon line;
          value = rstrip (dropWhile isspace (drop (Suc colon) line))
      in r\<lparr>r_headers := (r_headers r)(field \<mapsto> value)\<rparr>)"

definition getHeader :: "string \<Rightarrow> HttpRequest \<Rightarrow> string" where
  "getHeader field r = (case r_headers r field of Some v \<Rightarrow> v | None \<Rightarrow> [])"

definition HttpRequest_swap :: "HttpRequest \<Rightarrow> HttpRequest \<Rightarrow> HttpRequest \<times> HttpRequest" where
  "HttpRequest_swap this that = (that, this)"

section \<open>Parsing\<close>

datatype HttpRequestParseState = kExpectRequestLine | kExpectHeaders | kExpectBody | kGotAll

record HttpContext =
  h_state :: HttpRequestParseState
  h_request :: HttpRequest

definition new_HttpContext :: HttpContext where
  "new_HttpContext = \<lparr>h_state = kExpectRequestLine, h_request = new_HttpRequest\<rparr>"

definition gotAll :: "HttpContext \<Rightarrow> bool" where
  "gotAll ctx \<longleftrightarrow> h_state ctx = kGotAll"

definition HttpContext_reset :: "HttpContext \<Rightarrow> HttpContext" where
  "HttpContext_reset ctx = ctx\<lparr>h_state := kExpectRequestLine, h_request := fst (HttpRequest_swap (h_request ctx) new_HttpRequest)\<rparr>"

definition processRequestLine :: "string \<Rightarrow> HttpRequest \<Rightarrow> (bool \<times> HttpRequest) option" where
  "processRequestLine line r =
     (let space = find_char CHR '' '' line in
      if space = length line then Some (False, r)
      else do {
        (ok, r) \<leftarrow> setMethod (take space line) r;
        if \<not> ok then Some (False, r)
        else
          let start = drop (Suc space) line;
              space = find_char CHR '' '' start
          in if space = length start then Some (False, r)
             else
               let target = take space start;
                   question = find_char CHR ''?'' target;
                   r = (if question \<noteq> length target
                        then r\<lparr>r_path := take question target, r_query := drop question target\<rparr>
                        else r\<lparr>r_path := target\<rparr>);
                   ver = drop (Suc space) start
               in if length ver = 8 \<and> take 7 ver = ''HTTP/1.''
                  then (if ver ! 7 = CHR ''1'' then Some (True, r\<lparr>r_version := kHttp11\<rparr>)
                        else if ver ! 7 = CHR ''0'' then Some (True, r\<lparr>r_version := kHttp10\<rparr>)
                        else Some (False, r))
                  else Some (False, r)
      })"

datatype parse_result = ParseAbort | ParseLoops | Parsed bool HttpContext Buffer

fun parseRequest :: "nat \<Rightarrow> Timestamp \<Rightarrow> HttpContext \<Rightarrow> Buffer \<Rightarrow> parse_result" where
  "parseRequest 0 receiveTime ctx buf = ParseLoops"
| "parseRequest (Suc fuel) receiveTime ctx buf =
     (case h_state ctx of
        kExpectRequestLine \<Rightarrow>
          (case findCRLF buf of
             None \<Rightarrow> Parsed True ctx buf
           | Some crlf \<Rightarrow>
               (case processRequestLine (subrange (peek buf) (crlf - peek buf) (buffer buf)) (h_request ctx) of
                  None \<Rightarrow> ParseAbort
                | Some (ok, r) \<Rightarrow>
                    if ok
                    then (case retrieveUntil (crlf + 2) buf of
                            None \<Rightarrow> ParseAbort
                          | Some buf' \<Rightarrow> parseRequest fuel receiveTime
                              (ctx\<lparr>h_request := r\<lparr>r_receiveTime := receiveTime\<rparr>, h_state := kExpectHeaders\<rparr>) buf')
                    else Parsed False (ctx\<lparr>h_request := r\<rparr>) buf))
      | kExpectHeaders \<Rightarrow>
          (case findCRLF buf of
             None \<Rightarrow> Parsed True ctx buf
           | Some crlf \<Rightarrow>
               (let line = subrange (peek buf) (crlf - peek buf) (buffer buf);
                    colon = find_char CHR '':'' line
                in case retrieveUntil (crlf + 2) buf of
                     None \<Rightarrow> ParseAbort
                   | Some buf' \<Rightarrow>
                       if colon \<noteq> length line
                       then parseRequest fuel receiveTime (ctx\<lparr>h_request := addHeader line colon (h_request ctx)\<rparr>) buf'
                       else Parsed True (ctx\<lparr>h_state := kGotAll\<rparr>) buf'))
      | kExpectBody \<Rightarrow> parseRequest fuel receiveTime ctx buf
      | kGotAll \<Rightarrow> parseRequest fuel receiveTime ctx buf)"

section \<open>Responses\<close>

datatype HttpStatusCode = kUnknownStatus | k200Ok | k301MovedPermanently | k400BadRequest | k404NotFound

fun status_value :: "HttpStatusCode \<Rightarrow> nat" where
  "status_value kUnknownStatus = 0"
| "status_value k200Ok = 200"
| "status_value k301MovedPermanently = 301"
| "status_value k400BadRequest = 400"
| "status_value k404NotFound = 404"

text \<open>The headers are in the order of \<^verbatim>\<open>std::map\<close>.\<close>

record HttpResponse =
  p_headers :: "(string \<times> string) list"
  p_statusCode :: HttpStatusCode
  p_statusMessage :: string
  p_closeConnection :: bool
  p_body :: string

definition new_HttpResponse :: "bool \<Rightarrow> HttpResponse" where
  "new_HttpResponse close = \<lparr>p_headers = [], p_statusCode = kUnknownStatus, p_statusMessage = [], p_closeConnection = close, p_body = []\<rparr>"

fun map_put :: "string \<Rightarrow> string \<Rightarrow> (string \<times> string) list \<Rightarrow> (string \<times> string) list" where
  "map_put k v [] = [(k, v)]"
| "map_put k v ((k', v') # kvs) =
     (if k = k' then (k, v) # kvs else if k < k' then (k, v) # (k', v') # kvs else (k', v') # map_put k v kvs)"

definition setStatusCode :: "HttpStatusCode \<Rightarrow> HttpResponse \<Rightarrow> HttpResponse" where
  "setStatusCode code p = p\<lparr>p_statusCode := code\<rparr>"

definition setStatusMessage :: "string \<Rightarrow> HttpResponse \<Rightarrow> HttpResponse" where
  "setStatusMessage message p = p\<lparr>p_statusMessage := message\<rparr>"

definition setCloseConnection :: "bool \<Rightarrow> HttpResponse \<Rightarrow> HttpResponse" where
  "setCloseConnection on p = p\<lparr>p_closeConnection := on\<rparr>"

definition Response_addHeader :: "string \<Rightarrow> string \<Rightarrow> HttpResponse \<Rightarrow> HttpResponse" where
  "Response_addHeader key value p = p\<lparr>p_headers := map_put key value (p_headers p)\<rparr>"

definition setContentType :: "string \<Rightarrow> HttpResponse \<Rightarrow> HttpResponse" where
  "setContentType contentType p = Response_addHeader ''Content-Type'' contentType p"

definition setBody :: "string \<Rightarrow> HttpResponse \<Rightarrow> HttpResponse" where
  "setBody body p = p\<lparr>p_body := body\<rparr>"

definition appendToBuffer :: "HttpResponse \<Rightarrow> Buffer \<Rightarrow> Buffer option" where
  "appendToBuffer p output = do {
     output \<leftarrow> Buffer_append (snprintf 32 (''HTTP/1.1 '' @ dec_nat (status_value (p_statusCode p)) @ '' '')) output;
     output \<leftarrow> Buffer_append (p_statusMessage p) output;
     output \<leftarrow> Buffer_append kCRLF output;
     output \<leftarrow> (if p_closeConnection p then Buffer_append (''Connection: close'' @ kCRLF) output
               else do {
                 output \<leftarrow> Buffer_append (snprintf 32 (''Content-Length: '' @ dec_nat (length (p_body p)) @ kCRLF)) output;
                 Buffer_append (''Connection: Keep-Alive'' @ kCRLF) output });
     output \<leftarrow> put_all (\<lambda>(k, v) output. do {
       output \<leftarrow> Buffer_append k output;
       output \<leftarrow> Buffer_append '': '' output;
       output \<leftarrow> Buffer_append v output;
       Buffer_append kCRLF output }) (p_headers p) output;
     output \<leftarrow> Buffer_append kCRLF output;
     Buffer_append (p_body p) output
   }"

section \<open>The server\<close>

text \<open>A connection of the theory \<open>MuduoConnection\<close>, whose \<^verbatim>\<open>context_\<close> holds the parser's state.\<close>

record HttpConn = MuduoConn +
  hc_context :: HttpContext

definition defaultHttpCallback :: "HttpRequest \<Rightarrow> HttpResponse \<Rightarrow> HttpResponse" where
  "defaultHttpCallback req resp = setCloseConnection True (setStatusMessage ''Not Found'' (setStatusCode k404NotFound resp))"

definition onConnection :: "HttpConn \<Rightarrow> HttpConn option" where
  "onConnection c = Some (if m_state c = kConnected then c\<lparr>hc_context := new_HttpContext\<rparr> else c)"

definition onRequest :: "(HttpRequest \<Rightarrow> HttpResponse \<Rightarrow> HttpResponse) \<Rightarrow> HttpRequest \<Rightarrow> HttpConn \<Rightarrow> HttpConn option" where
  "onRequest httpCallback req c = do {
     let connection = getHeader ''Connection'' req;
     let close = (connection = ''close'' \<or> (r_version req = kHttp10 \<and> connection \<noteq> ''Keep-Alive''));
     let response = httpCallback req (new_HttpResponse close);
     buf \<leftarrow> new_Buffer kInitialSize;
     buf \<leftarrow> appendToBuffer response buf;
     (c, buf) \<leftarrow> tc_send_buffer (m_thread c) buf c;
     (if p_closeConnection response then tc_shutdown (m_thread c) c else Some c)
   }"

text \<open>The callback runs in the loop's thread, on the input buffer of the connection.\<close>

definition onMessage ::
    "(HttpRequest \<Rightarrow> HttpResponse \<Rightarrow> HttpResponse) \<Rightarrow> Timestamp \<Rightarrow> HttpConn \<Rightarrow> HttpConn option" where
  "onMessage httpCallback receiveTime c =
     (case parseRequest (Suc (readableBytes (m_inputBuffer c))) receiveTime (hc_context c) (m_inputBuffer c) of
        Parsed ok ctx buf \<Rightarrow> do {
          let c = c\<lparr>hc_context := ctx, m_inputBuffer := buf\<rparr>;
          c \<leftarrow> (if \<not> ok then do { c \<leftarrow> tc_send (m_thread c) (''HTTP/1.1 400 Bad Request'' @ kCRLF @ kCRLF) c; tc_shutdown (m_thread c) c }
               else Some c);
          (if gotAll (hc_context c)
           then do { c \<leftarrow> onRequest httpCallback (h_request (hc_context c)) c;
                     Some (c\<lparr>hc_context := HttpContext_reset (hc_context c)\<rparr>) }
           else Some c)
        }
      | _ \<Rightarrow> None)"

text \<open>The constructor of \<^verbatim>\<open>HttpServer\<close> installs these two callbacks.\<close>

definition http_user :: "(HttpRequest \<Rightarrow> HttpResponse \<Rightarrow> HttpResponse) \<Rightarrow> HttpConn user_callbacks" where
  "http_user httpCallback = \<lparr>u_connection = onConnection, u_message = onMessage httpCallback,
     u_writeComplete = (\<lambda>c. None), u_highWaterMark = (\<lambda>n c. None)\<rparr>"

section \<open>The parser on the readable bytes\<close>

text \<open>The same parser as a function of the bytes to be read; it has no loop to run out of. A context that
  expects neither a request line nor headers is left alone.\<close>

function parse_text :: "Timestamp \<Rightarrow> HttpContext \<Rightarrow> string \<Rightarrow> (bool \<times> HttpContext \<times> string) option" where
  "parse_text t ctx s =
     (case search_at kCRLF s of
        None \<Rightarrow> Some (True, ctx, s)
      | Some k \<Rightarrow>
          (if h_state ctx = kExpectRequestLine
           then do {
             (ok, r) \<leftarrow> processRequestLine (take k s) (h_request ctx);
             (if ok then parse_text t (ctx\<lparr>h_request := r\<lparr>r_receiveTime := t\<rparr>, h_state := kExpectHeaders\<rparr>) (drop (k + 2) s)
              else Some (False, ctx\<lparr>h_request := r\<rparr>, s)) }
           else if h_state ctx = kExpectHeaders
           then (let colon = find_char CHR '':'' (take k s)
                 in if colon \<noteq> k then parse_text t (ctx\<lparr>h_request := addHeader (take k s) colon (h_request ctx)\<rparr>) (drop (k + 2) s)
                    else Some (True, ctx\<lparr>h_state := kGotAll\<rparr>, drop (k + 2) s))
           else Some (True, ctx, s)))"
  by pat_completeness auto

termination parse_text
  by (relation "measure (\<lambda>(t, ctx, s). length s)") (auto dest!: crlf_inside(1))

declare parse_text.simps [simp del]

lemmas parse_text_unfold = parse_text.simps

text \<open>What a result of the loop says about the bytes.\<close>

fun parse_agrees :: "parse_result \<Rightarrow> (bool \<times> HttpContext \<times> string) option \<Rightarrow> bool" where
  "parse_agrees ParseAbort x \<longleftrightarrow> x = None"
| "parse_agrees ParseLoops x \<longleftrightarrow> False"
| "parse_agrees (Parsed ok ctx b) x \<longleftrightarrow> buf_ok b \<and> x = Some (ok, ctx, content b)"

definition expecting :: "HttpContext \<Rightarrow> bool" where
  "expecting ctx \<longleftrightarrow> h_state ctx = kExpectRequestLine \<or> h_state ctx = kExpectHeaders"

lemma parse_agrees_ok:
  assumes "buf_ok b" and "expecting ctx" and "length (content b) < fuel"
  shows "parse_agrees (parseRequest fuel t ctx b) (parse_text t ctx (content b))"
  using assms
proof (induction fuel arbitrary: ctx b)
  case (Suc fuel)
  show ?case
  proof (cases "search_at kCRLF (content b)")
    case None
    then have "findCRLF b = None" by (simp add: findCRLF_content)
    with None Suc.prems show ?thesis
      by (subst parse_text_unfold) (auto simp: expecting_def)
  next
    case (Some k)
    note r = retrieveUntil_ok [OF Suc.prems(1) Some]
    from r(3) obtain b' where b': "retrieveUntil (peek b + k + 2) b = Some b'" "buf_ok b'" "content b' = drop (k + 2) (content b)" by blast
    have fuel: "length (content b') < fuel" using crlf_inside(1) [OF Some] Suc.prems(3) b'(3) by simp
    have rest: "parse_agrees (parseRequest fuel t c b') (parse_text t c (drop (k + 2) (content b)))" if "expecting c" for c
      using Suc.IH [OF b'(2) that fuel] b'(3) by simp
    have lk: "length (take k (content b)) = k" using crlf_inside(1) [OF Some] by simp
    consider (line) "h_state ctx = kExpectRequestLine" | (hdrs) "h_state ctx = kExpectHeaders"
      using Suc.prems(2) by (auto simp: expecting_def)
    then show ?thesis
    proof cases
      case line
      then show ?thesis
        using Some r(1,2) b' Suc.prems(1) rest [unfolded expecting_def]
        by (subst parse_text_unfold) (auto split: option.split)
    next
      case hdrs
      then show ?thesis
        using Some r(1,2) b' rest [unfolded expecting_def] lk
        by (subst parse_text_unfold) (auto simp: Let_def)
    qed
  qed
qed simp

section \<open>Properties of the parser\<close>

text \<open>C16: the parser's loop ends: one round more than the number of readable bytes is enough, its result is the one the
  readable bytes determine, and the buffer keeps exactly the bytes that were not consumed; the only
  abort is the assertion of \<^verbatim>\<open>setMethod\<close>. Called again on a request that is complete, the loop never ends.\<close>

theorem http_parse_ends:
  assumes "buf_ok b" and "h_state ctx \<noteq> kExpectBody" and "length (content b) < fuel"
  shows "(h_state ctx \<noteq> kGotAll \<longrightarrow>
      (case parseRequest fuel t ctx b of
         ParseAbort \<Rightarrow> parse_text t ctx (content b) = None
       | ParseLoops \<Rightarrow> False
       | Parsed ok ctx' b' \<Rightarrow> buf_ok b' \<and> parse_text t ctx (content b) = Some (ok, ctx', content b')))
    \<and> (h_state ctx = kGotAll \<longrightarrow> (\<forall>fuel. parseRequest fuel t ctx b = ParseLoops))"
proof (cases "h_state ctx = kGotAll")
  case True
  have "parseRequest fuel t ctx b = ParseLoops" for fuel by (induction fuel) (simp_all add: True)
  with True show ?thesis by simp
next
  case False
  with assms(2) have "expecting ctx" by (cases "h_state ctx") (auto simp: expecting_def)
  from parse_agrees_ok [OF assms(1) this assms(3), of t] False show ?thesis
    by (auto split: parse_result.split)
qed

definition ex_http :: Buffer where
  "ex_http = \<lparr>buffer = ''xxxxxxxxGET /a?b HTTP/1.0'' @ kCRLF @ ''Host: h'' @ kCRLF @ kCRLF @ ''more'', readerIndex = 8, writerIndex = 42\<rparr>"

lemma ex_http_content: "content ex_http = ''GET /a?b HTTP/1.0'' @ kCRLF @ ''Host: h'' @ kCRLF @ kCRLF @ ''more''"
  by (simp add: content_def ex_http_def subrange_def kCRLF_def)

lemma ex_http_ok: "buf_ok ex_http"
  by (simp add: buf_ok_def ex_http_def kCRLF_def kCheapPrepend_def vec_max_def)

theorem http_parse_ends_witness:
  "parseRequest 36 (Timestamp 5) new_HttpContext ex_http \<noteq> ParseLoops
     \<and> parseRequest 100 (Timestamp 5) (new_HttpContext\<lparr>h_state := kGotAll\<rparr>) ex_http = ParseLoops"
proof -
  have len: "length (content ex_http) < 36" by (simp add: ex_http_content kCRLF_def)
  have "length (content ex_http) < 100" using len by simp
  then show ?thesis
    using http_parse_ends [OF ex_http_ok _ len, of new_HttpContext "Timestamp 5"]
      http_parse_ends [OF ex_http_ok, of "new_HttpContext\<lparr>h_state := kGotAll\<rparr>" 100 "Timestamp 5"]
    by (auto simp: new_HttpContext_def)
qed

lemma parse_text_chunk:
  "parse_text t ctx s = Some (True, c1, s1) \<Longrightarrow> expecting c1 \<Longrightarrow> parse_text t ctx (s @ u) = parse_text t c1 (s1 @ u)"
proof (induction t ctx s rule: parse_text.induct)
  case (1 t ctx s)
  show ?case
  proof (cases "search_at kCRLF s")
    case None
    with "1.prems"(1) show ?thesis by (simp add: parse_text_unfold [of t ctx s])
  next
    case (Some k)
    have app: "search_at kCRLF (s @ u) = Some k" by (rule search_at_append [OF Some])
    have parts: "take k (s @ u) = take k s" "drop (k + 2) (s @ u) = drop (k + 2) s @ u"
      using crlf_inside(1) [OF Some] by simp_all
    consider (line) "h_state ctx = kExpectRequestLine" | (hdrs) "h_state ctx = kExpectHeaders"
      | (other) "h_state ctx \<noteq> kExpectRequestLine" "h_state ctx \<noteq> kExpectHeaders" by blast
    then show ?thesis
    proof cases
      case line
      let ?c = "\<lambda>r. ctx\<lparr>h_request := r\<lparr>r_receiveTime := t\<rparr>, h_state := kExpectHeaders\<rparr>"
      from "1.prems"(1) Some line obtain r where r: "processRequestLine (take k s) (h_request ctx) = Some (True, r)"
          "parse_text t (?c r) (drop (k + 2) s) = Some (True, c1, s1)"
        by (subst (asm) parse_text_unfold) (auto simp: abort_elims split: if_splits)
      have "parse_text t (?c r) (drop (k + 2) s @ u) = parse_text t c1 (s1 @ u)"
        by (rule "1.IH"(1) [OF Some line r(1) refl TrueI r(2) "1.prems"(2)])
      with line r(1) show ?thesis
        unfolding parse_text_unfold [of t ctx "s @ u"] app option.case parts by simp
    next
      case hdrs
      let ?n = "find_char CHR '':'' (take k s)"
      from "1.prems" Some hdrs have n: "?n \<noteq> k"
        by (subst (asm) parse_text_unfold) (auto simp: Let_def expecting_def split: if_splits)
      with "1.prems"(1) Some hdrs have rest: "parse_text t (ctx\<lparr>h_request := addHeader (take k s) ?n (h_request ctx)\<rparr>) (drop (k + 2) s) = Some (True, c1, s1)"
        by (subst (asm) parse_text_unfold) (auto simp: Let_def)
      have "parse_text t (ctx\<lparr>h_request := addHeader (take k s) ?n (h_request ctx)\<rparr>) (drop (k + 2) s @ u) = parse_text t c1 (s1 @ u)"
        using "1.IH"(2) [OF Some _ hdrs refl n rest "1.prems"(2)] hdrs by simp
      with hdrs n show ?thesis
        unfolding parse_text_unfold [of t ctx "s @ u"] app option.case parts by (simp add: Let_def)
    next
      case other
      with "1.prems" Some show ?thesis
        by (subst (asm) parse_text_unfold) (auto simp: expecting_def)
    qed
  qed
qed

text \<open>C17: the parser does not depend on how the bytes are cut into messages: what it makes of a first part, continued with
  the rest, is what it makes of the whole, both parts being received at the same time \<open>t\<close>.\<close>

theorem http_chunks:
  assumes "buf_ok b" and "buf_ok b1" and "buf_ok b2" and "buf_ok b3" and "expecting ctx" and "expecting c1"
    and "parseRequest (Suc (readableBytes b)) t ctx b = Parsed True c1 b1"
    and "content b2 = content b1 @ u" and "content b3 = content b @ u"
  shows "case parseRequest (Suc (readableBytes b3)) t ctx b3 of
      Parsed ok c' b' \<Rightarrow> \<exists>b''. parseRequest (Suc (readableBytes b2)) t c1 b2 = Parsed ok c' b'' \<and> content b'' = content b'
    | ParseAbort \<Rightarrow> parseRequest (Suc (readableBytes b2)) t c1 b2 = ParseAbort
    | ParseLoops \<Rightarrow> False"
proof -
  have agree: "parse_agrees (parseRequest (Suc (readableBytes x)) t c x) (parse_text t c (content x))" if "buf_ok x" "expecting c" for x c
    by (rule parse_agrees_ok [OF that]) (use that in simp)
  have "parse_text t ctx (content b) = Some (True, c1, content b1)" using agree [OF assms(1,5)] assms(7) by simp
  from parse_text_chunk [OF this assms(6), of u] have "parse_text t ctx (content b3) = parse_text t c1 (content b2)"
    using assms(8,9) by simp
  with agree [OF assms(4,5)] agree [OF assms(3,6)] show ?thesis
    by (cases "parseRequest (Suc (readableBytes b3)) t ctx b3"; cases "parseRequest (Suc (readableBytes b2)) t c1 b2") auto
qed

definition ex_http_part :: Buffer where
  "ex_http_part = ex_http\<lparr>writerIndex := 29\<rparr>"

definition ex_http_ctx :: HttpContext where
  "ex_http_ctx = \<lparr>h_state = kExpectHeaders, h_request = new_HttpRequest\<lparr>r_method := kGet, r_path := ''/a'', r_query := ''?b'',
     r_version := kHttp10, r_receiveTime := Timestamp 5\<rparr>\<rparr>"

lemma ex_http_part_parsed:
  "parseRequest (Suc (readableBytes ex_http_part)) (Timestamp 5) new_HttpContext ex_http_part
     = Parsed True ex_http_ctx (ex_http\<lparr>readerIndex := 27, writerIndex := 29\<rparr>)"
proof -
  let ?b = "ex_http\<lparr>readerIndex := 27, writerIndex := 29\<rparr>"
  have n: "readableBytes ex_http_part = Suc 20" by (simp add: ex_http_part_def ex_http_def readableBytes_def)
  have c: "content ex_http_part = ''GET /a?b HTTP/1.0'' @ kCRLF @ ''Ho''" "content ?b = ''Ho''" "peek ex_http_part = 8" "peek ?b = 27"
    by (simp_all add: content_def ex_http_part_def ex_http_def subrange_def kCRLF_def peek_def)
  have crlf: "findCRLF ex_http_part = Some 25" "findCRLF ?b = None" unfolding findCRLF_content c by (simp_all add: kCRLF_def)
  have line: "subrange (peek ex_http_part) 17 (buffer ex_http_part) = ''GET /a?b HTTP/1.0''"
    unfolding c(3) by (simp add: ex_http_part_def ex_http_def subrange_def)
  have req: "processRequestLine ''GET /a?b HTTP/1.0'' new_HttpRequest
      = Some (True, new_HttpRequest\<lparr>r_method := kGet, r_path := ''/a'', r_query := ''?b'', r_version := kHttp10\<rparr>)"
    by (simp add: processRequestLine_def find_char_def setMethod_def method_of_text_def new_HttpRequest_def Let_def)
  have ret: "retrieveUntil 27 ex_http_part = Some ?b"
    by (simp add: retrieveUntil_def retrieve_def buf_defs ex_http_part_def ex_http_def)
  show ?thesis unfolding n parseRequest.simps crlf c(3)
    using line req ret crlf(2) c(3) by (simp add: new_HttpContext_def ex_http_ctx_def)
qed

theorem http_chunks_witness:
  "case parseRequest 35 (Timestamp 5) new_HttpContext ex_http of
     Parsed ok c' b' \<Rightarrow> \<exists>b''. parseRequest 16 (Timestamp 5) ex_http_ctx (ex_http\<lparr>readerIndex := 27\<rparr>) = Parsed ok c' b'' \<and> content b'' = content b'
   | ParseAbort \<Rightarrow> parseRequest 16 (Timestamp 5) ex_http_ctx (ex_http\<lparr>readerIndex := 27\<rparr>) = ParseAbort
   | ParseLoops \<Rightarrow> False"
proof -
  let ?b = "ex_http\<lparr>readerIndex := 27, writerIndex := 29\<rparr>" and ?r = "ex_http\<lparr>readerIndex := 27\<rparr>"
  have ok: "buf_ok ex_http_part" "buf_ok ?b" "buf_ok ?r" "expecting new_HttpContext" "expecting ex_http_ctx"
    by (simp_all add: buf_ok_def ex_http_part_def ex_http_def kCRLF_def kCheapPrepend_def vec_max_def expecting_def new_HttpContext_def ex_http_ctx_def)
  have c: "content ?r = content ?b @ (''st: h'' @ kCRLF @ kCRLF @ ''more'')" "content ex_http = content ex_http_part @ (''st: h'' @ kCRLF @ kCRLF @ ''more'')"
    by (simp_all add: content_def ex_http_part_def ex_http_def subrange_def kCRLF_def)
  have n: "Suc (readableBytes ex_http) = 35" "Suc (readableBytes ?r) = 16" by (simp_all add: ex_http_def readableBytes_def)
  from http_chunks [OF ok(1,2,3) ex_http_ok ok(4,5) ex_http_part_parsed c] show ?thesis unfolding n .
qed

section \<open>The server's callbacks keep the connection's contract\<close>

lemma parseRequest_keeps: "buf_ok b \<Longrightarrow> parseRequest fuel t ctx b = Parsed ok ctx' b' \<Longrightarrow> buf_ok b'"
proof (induction fuel arbitrary: ctx b)
  case (Suc fuel)
  show ?case
  proof (cases "h_state ctx")
    case kExpectRequestLine
    with Suc show ?thesis by (auto split: option.splits prod.splits if_splits dest: retrieveUntil_keeps)
  next
    case kExpectHeaders
    with Suc show ?thesis by (auto simp: Let_def split: option.splits if_splits dest: retrieveUntil_keeps)
  qed (use Suc in auto)
qed simp

lemma context_call: "tc_call c (c\<lparr>hc_context := x\<rparr>)" for c :: HttpConn
proof -
  have "c\<lparr>hc_context := x\<rparr> = MuduoConn.more_update (\<lambda>_. MuduoConn.more (c\<lparr>hc_context := x\<rparr>)) c" by (cases c) simp
  then show ?thesis by (metis call_context)
qed

text \<open>What \<^verbatim>\<open>appendToBuffer\<close> writes, in pieces.\<close>

definition response_parts :: "HttpResponse \<Rightarrow> string list" where
  "response_parts p =
     [snprintf 32 (''HTTP/1.1 '' @ dec_nat (status_value (p_statusCode p)) @ '' ''), p_statusMessage p, kCRLF]
     @ (if p_closeConnection p then [''Connection: close'' @ kCRLF]
        else [snprintf 32 (''Content-Length: '' @ dec_nat (length (p_body p)) @ kCRLF), ''Connection: Keep-Alive'' @ kCRLF])
     @ concat (map (\<lambda>(k, v). [k, '': '', v, kCRLF]) (p_headers p)) @ [kCRLF, p_body p]"

definition response_text :: "HttpResponse \<Rightarrow> string" where
  "response_text p = concat (response_parts p)"

lemma put_all_headers:
  "put_all (\<lambda>(k, v) b. do { b \<leftarrow> Buffer_append k b; b \<leftarrow> Buffer_append '': '' b; b \<leftarrow> Buffer_append v b; Buffer_append kCRLF b }) kvs
     = put_all Buffer_append (concat (map (\<lambda>(k, v). [k, '': '', v, kCRLF]) kvs))"
proof (rule ext, induction kvs)
  case (Cons kv kvs)
  then have "put_all (\<lambda>(k, v) b. do { b \<leftarrow> Buffer_append k b; b \<leftarrow> Buffer_append '': '' b; b \<leftarrow> Buffer_append v b; Buffer_append kCRLF b }) kvs
     = put_all Buffer_append (concat (map (\<lambda>(k, v). [k, '': '', v, kCRLF]) kvs))" by (intro ext)
  then show ?case by (cases kv) (simp add: put_all_Cons_fun)
qed simp

lemma appendToBuffer_parts: "appendToBuffer p b = put_all Buffer_append (response_parts p) b"
  unfolding appendToBuffer_def put_all_headers response_parts_def
  by (cases "p_closeConnection p") (simp_all add: put_all_append_fun put_all_Cons_fun)

lemma appendToBuffer_effect:
  assumes "buf_ok b" and "appendToBuffer p b = Some b'"
  shows "buf_ok b' \<and> content b' = content b @ response_text p"
proof -
  have "buf_ok b' \<and> content b' = content b @ concat xs" if "put_all Buffer_append xs b = Some b'" for xs
    using that assms(1)
  proof (induction xs arbitrary: b)
    case (Cons x xs)
    then obtain d where d: "Buffer_append x b = Some d" "put_all Buffer_append xs d = Some b'" by (auto simp: abort_elims)
    from Buffer_append_effect [OF Cons.prems(2) d(1)] Cons.IH [OF d(2)] show ?case by simp
  qed simp
  with assms(2) show ?thesis by (simp add: appendToBuffer_parts response_text_def)
qed

lemma content_bytes: "subrange (peek b) (readableBytes b) (buffer b) = content b"
  by (simp add: content_def buf_defs)

lemma send_buffer_send: "tc_send_buffer (m_thread c) buf c = Some (c', buf') \<Longrightarrow> tc_send (m_thread c) (content buf) c = Some c'"
  by (auto simp: tc_send_buffer_def tc_send_def content_bytes abort_elims split: if_splits)

lemma content_bound: "buf_ok b \<Longrightarrow> length (content b) \<le> vec_max"
  using length_content [of b] by (auto simp: buf_ok_def readableBytes_def)

lemma new_Buffer_effect: "\<exists>b. new_Buffer kInitialSize = Some b \<and> buf_ok b \<and> content b = [] \<and> writerIndex b = kCheapPrepend"
  using new_Buffer_ok [of kInitialSize] by (auto simp: kInitialSize_def kCheapPrepend_def vec_max_def)

lemma onRequest_calls:
  assumes "onRequest cb req c = Some c'"
  shows "tc_call\<^sup>*\<^sup>* c c'"
proof -
  obtain b0 where b0: "new_Buffer kInitialSize = Some b0" "buf_ok b0" using new_Buffer_effect by blast
  from assms b0(1) obtain p buf c1 buf' where buf: "appendToBuffer p b0 = Some buf" and send: "tc_send_buffer (m_thread c) buf c = Some (c1, buf')"
      and close: "(if p_closeConnection p then tc_shutdown (m_thread c1) c1 else Some c1) = Some c'"
    by (auto simp: onRequest_def abort_elims Let_def)
  have "tc_call c c1" using appendToBuffer_effect [OF b0(2) buf] content_bound send_buffer_send [OF send] call_send by blast
  moreover have "tc_call\<^sup>*\<^sup>* c1 c'" using close by (auto split: if_splits intro: call_shutdown)
  ultimately show ?thesis by (rule converse_rtranclp_into_rtranclp)
qed

lemma onMessage_calls:
  assumes "tc_ok c" and "onMessage cb t c = Some c'"
  shows "tc_call\<^sup>*\<^sup>* c c'"
proof -
  from assms(2) obtain ok ctx buf where p: "parseRequest (Suc (readableBytes (m_inputBuffer c))) t (hc_context c) (m_inputBuffer c) = Parsed ok ctx buf"
    by (auto simp: onMessage_def split: parse_result.splits)
  let ?c = "c\<lparr>hc_context := ctx\<rparr>\<lparr>m_inputBuffer := buf\<rparr>"
  let ?bad = "''HTTP/1.1 400 Bad Request'' @ kCRLF @ kCRLF"
  have same: "c\<lparr>hc_context := ctx, m_inputBuffer := buf\<rparr> = ?c" by simp
  from assms(2) p obtain d where
      d: "(if \<not> ok then do { e \<leftarrow> tc_send (m_thread ?c) ?bad ?c; tc_shutdown (m_thread e) e } else Some ?c) = Some d"
      and c': "(if gotAll (hc_context d) then do { e \<leftarrow> onRequest cb (h_request (hc_context d)) d;
           Some (e\<lparr>hc_context := HttpContext_reset (hc_context e)\<rparr>) } else Some d) = Some c'"
    unfolding onMessage_def by (auto simp: Let_def abort_elims split del: if_split)
  have "buf_ok buf" using parseRequest_keeps [OF _ p] assms(1) by (simp add: tc_ok_def)
  then have "tc_call (c\<lparr>hc_context := ctx\<rparr>) ?c" by (rule call_consume)
  with context_call have "tc_call\<^sup>*\<^sup>* c ?c" by (meson converse_rtranclp_into_rtranclp r_into_rtranclp)
  moreover have bad: "length ?bad \<le> vec_max" by (simp add: vec_max_def)
  have "tc_call\<^sup>*\<^sup>* ?c d"
  proof (cases ok)
    case False
    with d obtain e where "tc_send (m_thread ?c) ?bad ?c = Some e" "tc_shutdown (m_thread e) e = Some d" by (auto simp: abort_elims)
    then show ?thesis by (meson call_send [OF bad] call_shutdown rtranclp.rtrancl_into_rtrancl r_into_rtranclp)
  qed (use d in simp)
  moreover have "tc_call\<^sup>*\<^sup>* d c'"
  proof (cases "gotAll (hc_context d)")
    case True
    with c' obtain e where "onRequest cb (h_request (hc_context d)) d = Some e" "c' = e\<lparr>hc_context := HttpContext_reset (hc_context e)\<rparr>"
      by (auto simp: abort_elims)
    then show ?thesis by (auto intro!: rtranclp.rtrancl_into_rtrancl [where r = tc_call, OF onRequest_calls context_call])
  qed (use c' in simp)
  ultimately show ?thesis by (meson rtranclp_trans)
qed

interpretation http: tc_user "http_user httpCallback"
proof unfold_locales
  fix c c' :: HttpConn and t
  show "u_connection (http_user httpCallback) c = Some c' \<Longrightarrow> tc_call\<^sup>*\<^sup>* c c'"
    by (cases "m_state c = kConnected") (auto simp: http_user_def onConnection_def intro!: r_into_rtranclp [where r = tc_call] context_call)
  show "tc_ok c \<Longrightarrow> u_message (http_user httpCallback) t c = Some c' \<Longrightarrow> tc_call\<^sup>*\<^sup>* c c'"
    by (simp add: http_user_def onMessage_calls)
qed (simp_all add: http_user_def)

section \<open>Properties of the server\<close>

definition wants_close :: "HttpRequest \<Rightarrow> bool" where
  "wants_close req \<longleftrightarrow> getHeader ''Connection'' req = ''close'' \<or> r_version req = kHttp10 \<and> getHeader ''Connection'' req \<noteq> ''Keep-Alive''"

text \<open>Sending and shutting down leave the input and the context alone.\<close>

lemma tc_sendInLoop_input: "tc_sendInLoop tid msg c = Some c' \<Longrightarrow> m_inputBuffer c' = m_inputBuffer c \<and> MuduoConn.more c' = MuduoConn.more c"
  by (auto simp: tc_sendInLoop_def tc_bufferRest_def tc_writeDirectly_def tc_write_def tc_queue_def tc_interest_def Let_def abort_elims
      split: if_splits write_result.splits prod.splits)

lemma tc_shutdown_input: "tc_shutdown tid c = Some c' \<Longrightarrow> m_inputBuffer c' = m_inputBuffer c \<and> MuduoConn.more c' = MuduoConn.more c"
  by (auto simp: tc_shutdown_def tc_shutdown_set_def tc_shutdownInLoop_def tc_queue_def Let_def abort_elims split: if_splits)

lemma context_more: "MuduoConn.more c' = MuduoConn.more c \<Longrightarrow> hc_context c' = hc_context c" for c c' :: HttpConn
  by (cases c, cases c') simp

lemma onRequest_keeps_input:
  assumes "onRequest cb req c = Some c'"
  shows "m_inputBuffer c' = m_inputBuffer c \<and> hc_context c' = hc_context c"
proof -
  from assms obtain buf c1 buf' where send: "tc_send_buffer (m_thread c) buf c = Some (c1, buf')"
      and close: "tc_shutdown (m_thread c1) c1 = Some c' \<or> c' = c1"
    unfolding onRequest_def Let_def by (auto simp: abort_elims split: if_splits)
  from send have "m_inputBuffer c1 = m_inputBuffer c \<and> MuduoConn.more c1 = MuduoConn.more c"
    by (auto simp: tc_send_buffer_def abort_elims split: if_splits dest!: tc_sendInLoop_input)
  with close show ?thesis by (auto dest!: tc_shutdown_input intro: context_more)
qed

lemma appendToBuffer_total:
  assumes "buf_ok b" and "room b (length (response_text p))"
  shows "\<exists>b'. appendToBuffer p b = Some b' \<and> buf_ok b' \<and> content b' = content b @ response_text p"
  using bq.put_all_ok [OF assms(1), of "response_parts p"] assms(2) by (simp add: appendToBuffer_parts response_text_def)

lemma onRequest_effect:
  assumes ok: "tc_ok c" and st: "m_state c = kConnected"
    and p: "p = cb req (new_HttpResponse (wants_close req))" "length (response_text p) \<le> 2 ^ 62" "room (m_outputBuffer c) (length (response_text p))"
  shows "\<exists>c'. onRequest cb req c = Some c' \<and> tc_stream c' = tc_stream c @ (if tc_fault (response_text p) c then [] else response_text p)
     \<and> m_state c' = (if p_closeConnection p then kDisconnecting else kConnected)"
proof -
  obtain b0 where b0: "new_Buffer kInitialSize = Some b0" "buf_ok b0" "content b0 = []" "writerIndex b0 = kCheapPrepend"
    using new_Buffer_effect by blast
  have "room b0 (length (response_text p))" using p(2) b0(4) by (simp add: room_def kCheapPrepend_def vec_max_def)
  from appendToBuffer_total [OF b0(2) this] b0(3) obtain b1 where b1: "appendToBuffer p b0 = Some b1" "content b1 = response_text p" by auto
  from tc_sendInLoop_total [OF ok _ p(3)] st obtain c1 where c1: "tc_sendInLoop (m_thread c) (response_text p) c = Some c1" by auto
  have "length (response_text p) \<le> vec_max" using p(2) by (simp add: vec_max_def)
  from tc_sendInLoop_ok [OF ok _ this c1] st have a: "tc_appends (response_text p) c c1" by simp
  then have ok1: "tc_ok c1" "m_state c1 = kConnected" using st by (simp_all add: tc_appends_def)
  have eq: "onRequest cb req c = (if p_closeConnection p then tc_shutdown (m_thread c1) c1 else Some c1)"
    using b0(1) b1 c1 st p(1) unfolding onRequest_def wants_close_def
    by (simp add: Let_def tc_send_buffer_def content_bytes)
  show ?thesis
  proof (cases "p_closeConnection p")
    case True
    have "\<exists>c2. tc_shutdown (m_thread c1) c1 = Some c2 \<and> m_state c2 = kDisconnecting \<and> tc_stream c2 = tc_stream c1"
      using ok1(2) by (simp add: tc_shutdown_def tc_shutdown_set_def tc_shutdownInLoop_def tc_assertInLoopThread_def tc_stream_def Let_def)
    with True eq a show ?thesis by (auto simp: tc_appends_def)
  next
    case False
    with eq a ok1 show ?thesis by (simp add: tc_appends_def)
  qed
qed

text \<open>C19: a connection of an \<^verbatim>\<open>HttpServer\<close> that has read a whole request answers it: the response of the callback is appended to the
  stream of bytes to send, the connection starts to close exactly when the response says so, the parser starts afresh, and the bytes
  behind the request stay in the input buffer; also when they are a request of their own, which is not answered before more bytes arrive.\<close>

theorem http_answers:
  assumes "tc_reach (http_user cb) c" and "m_state c = kConnected" and "expecting (hc_context c)" and "readv_ok readv"
    and "readFd readv (m_inputBuffer c) = Some (n, e, inb)" and "0 < n"
    and "parse_text t (hc_context c) (content inb) = Some (True, ctx, rest)" and "gotAll ctx"
    and "p = cb (h_request ctx) (new_HttpResponse (wants_close (h_request ctx)))"
    and "length (response_text p) \<le> 2 ^ 62" and "room (m_outputBuffer c) (length (response_text p))"
  shows "\<exists>c'. tc_handleRead (http_user cb) (m_thread c) readv t c = Some c'
     \<and> tc_stream c' = tc_stream c @ (if tc_fault (response_text p) c then [] else response_text p)
     \<and> m_state c' = (if p_closeConnection p then kDisconnecting else kConnected)
     \<and> hc_context c' = new_HttpContext \<and> content (m_inputBuffer c') = rest"
proof -
  have ok: "tc_ok c" using http.reach_inv [OF assms(1)] by (simp add: tc_inv_def)
  then have bok: "buf_ok inb" using tc_readFd_ok [OF _ assms(4,5)] by (simp add: tc_ok_def)
  have "parse_agrees (parseRequest (Suc (readableBytes inb)) t (hc_context c) inb) (Some (True, ctx, rest))"
    using parse_agrees_ok [OF bok assms(3), of "Suc (readableBytes inb)" t] bok unfolding assms(7) by (simp del: parseRequest.simps)
  then obtain buf where pr: "parseRequest (Suc (readableBytes inb)) t (hc_context c) inb = Parsed True ctx buf"
      "buf_ok buf" "content buf = rest"
    by (cases "parseRequest (Suc (readableBytes inb)) t (hc_context c) inb") auto
  let ?i = "c\<lparr>m_inputBuffer := inb\<rparr>"
  let ?c = "?i\<lparr>hc_context := ctx, m_inputBuffer := buf\<rparr>"
  have ok': "tc_ok ?c" using ok pr(2) by (simp add: tc_ok_def tc_isWriting_def)
  obtain d where d: "onRequest cb (h_request ctx) ?c = Some d" "tc_stream d = tc_stream ?c @ (if tc_fault (response_text p) ?c then [] else response_text p)"
      "m_state d = (if p_closeConnection p then kDisconnecting else kConnected)"
    using onRequest_effect [OF ok', of p cb "h_request ctx"] assms(2,9-11) by auto
  have frame: "m_inputBuffer d = buf" "hc_context d = ctx" using onRequest_keeps_input [OF d(1)] by simp_all
  let ?d = "d\<lparr>hc_context := HttpContext_reset (hc_context d)\<rparr>"
  have "onMessage cb t ?i = Some ?d" using pr(1) assms(8) d(1) by (simp add: onMessage_def Let_def)
  then have "tc_handleRead (http_user cb) (m_thread c) readv t c = Some ?d"
    using assms(5,6) by (simp add: tc_handleRead_def tc_assertInLoopThread_def http_user_def Let_def)
  moreover have "hc_context ?d = new_HttpContext"
    by (simp add: HttpContext_reset_def HttpRequest_swap_def new_HttpContext_def)
  ultimately show ?thesis using d frame pr(3) by (simp add: tc_stream_def tc_fault_def)
qed

lemma tc_send_input: "tc_send tid msg c = Some c' \<Longrightarrow> m_inputBuffer c' = m_inputBuffer c \<and> MuduoConn.more c' = MuduoConn.more c"
  by (auto simp: tc_send_def tc_queue_def split: if_splits dest!: tc_sendInLoop_input)

lemma send_then_shutdown_context:
  fixes c c' :: HttpConn
  assumes "tc_send tid msg c = Some d" and "tc_shutdown tid' d = Some c'"
  shows "m_inputBuffer c' = m_inputBuffer c" and "hc_context c' = hc_context c"
  using tc_send_input [OF assms(1)] tc_shutdown_input [OF assms(2)] context_more [of c' c] by simp_all

lemma processRequestLine_no_space: "find_char CHR '' '' line = length line \<Longrightarrow> processRequestLine line r = Some (False, r)"
  by (simp add: processRequestLine_def)

lemma processRequestLine_again: "find_char CHR '' '' line \<noteq> length line \<Longrightarrow> r_method r \<noteq> kInvalid \<Longrightarrow> processRequestLine line r = None"
  by (simp add: processRequestLine_def setMethod_def)

lemma bad_request_again:
  assumes "buf_ok (m_inputBuffer c)" and "hc_context c = new_HttpContext" and "search_at kCRLF (content (m_inputBuffer c)) = Some k"
    and "processRequestLine (take k (content (m_inputBuffer c))) new_HttpRequest = Some (False, r)" and "r_method r \<noteq> kInvalid"
    and "onMessage cb t c = Some c1"
    and "buf_ok (m_inputBuffer c2)" and "content (m_inputBuffer c2) = content (m_inputBuffer c1) @ bytes" and "hc_context c2 = hc_context c1"
  shows "m_state c1 \<noteq> kConnected \<and> m_inputBuffer c1 = m_inputBuffer c \<and> onMessage cb t' c2 = None"
proof -
  let ?b = "m_inputBuffer c"
  let ?line = "take k (content ?b)"
  note r = retrieveUntil_ok [OF assms(1,3)]
  have p1: "parseRequest (Suc (readableBytes ?b)) t (hc_context c) ?b = Parsed False (new_HttpContext\<lparr>h_request := r\<rparr>) ?b"
    using r(1,2) assms(2,4) by (simp add: new_HttpContext_def)
  let ?c = "c\<lparr>hc_context := new_HttpContext\<lparr>h_request := r\<rparr>, m_inputBuffer := ?b\<rparr>"
  have "\<exists>d. tc_send (m_thread ?c) (''HTTP/1.1 400 Bad Request'' @ kCRLF @ kCRLF) ?c = Some d \<and> tc_shutdown (m_thread d) d = Some c1"
    using assms(6) unfolding onMessage_def p1
    by (auto simp: Let_def abort_elims gotAll_def new_HttpContext_def dest: send_then_shutdown_context(2) split: if_splits)
  then obtain d where d: "tc_send (m_thread ?c) (''HTTP/1.1 400 Bad Request'' @ kCRLF @ kCRLF) ?c = Some d" "tc_shutdown (m_thread d) d = Some c1" by blast
  from send_then_shutdown_context [OF d] have c1: "m_inputBuffer c1 = ?b" "hc_context c1 = new_HttpContext\<lparr>h_request := r\<rparr>" by simp_all
  have "search_at kCRLF (content (m_inputBuffer c2)) = Some k" using search_at_append [OF assms(3)] assms(8) c1(1) by simp
  note r2 = retrieveUntil_ok [OF assms(7) this]
  have line: "take k (content (m_inputBuffer c2)) = ?line" using crlf_inside(1) [OF assms(3)] assms(8) c1(1) by simp
  have "find_char CHR '' '' ?line \<noteq> length ?line"
    using assms(4,5) processRequestLine_no_space [of ?line new_HttpRequest] by (auto simp: new_HttpRequest_def)
  then have "processRequestLine ?line r = None" by (rule processRequestLine_again [OF _ assms(5)])
  then have "parseRequest (Suc (readableBytes (m_inputBuffer c2))) t' (hc_context c2) (m_inputBuffer c2) = ParseAbort"
    using r2(1,2) line assms(9) c1(2) by (simp add: new_HttpContext_def)
  moreover have "m_state c1 \<noteq> kConnected"
    using d(2) by (auto simp: tc_shutdown_def tc_shutdown_set_def tc_shutdownInLoop_def tc_queue_def abort_elims Let_def split: if_splits)
  ultimately show ?thesis using c1(1) by (simp add: onMessage_def)
qed

text \<open>A request line with a known method but an unknown version is answered with \<^verbatim>\<open>400 Bad Request\<close> and left in the input buffer, with the method
  already stored; as the connection goes on reading until the peer closes, any further byte makes the parser read the line again, and the
  assertion of \<^verbatim>\<open>setMethod\<close> aborts the server.\<close>

theorem bad_request_then_more_aborts:
  assumes "tc_reach (http_user cb) c" and "hc_context c = new_HttpContext" and "readv_ok readv" and "readv_ok readv'"
    and "readFd readv (m_inputBuffer c) = Some (n, e, inb)" and "0 < n" and "search_at kCRLF (content inb) = Some k"
    and "processRequestLine (take k (content inb)) new_HttpRequest = Some (False, r)" and "r_method r \<noteq> kInvalid"
    and "tc_handleRead (http_user cb) (m_thread c) readv t c = Some c1"
    and "readFd readv' (m_inputBuffer c1) = Some (n', e', inb')" and "0 < n'"
  shows "m_state c1 \<noteq> kConnected \<and> tc_handleRead (http_user cb) (m_thread c1) readv' t' c1 = None"
proof -
  let ?c = "c\<lparr>m_inputBuffer := inb\<rparr>" and ?d = "c1\<lparr>m_inputBuffer := inb'\<rparr>"
  have inv: "tc_inv c" by (rule http.reach_inv [OF assms(1)])
  then have "buf_ok (m_inputBuffer c)" by (simp add: tc_inv_def tc_ok_def)
  with tc_readFd_ok [OF _ assms(3,5)] have ib: "buf_ok (m_inputBuffer ?c)" by simp
  have m: "onMessage cb t ?c = Some c1"
    using assms(5,6,10) by (simp add: tc_handleRead_def tc_assertInLoopThread_def http_user_def Let_def)
  have "tc_inv ?c" using inv ib by (simp add: tc_inv_def tc_ok_def tc_isWriting_def tc_destroys_def)
  with http.callback_inv(1) [of ?c cb t c1] m have "buf_ok (m_inputBuffer c1)" by (simp add: http_user_def tc_inv_def tc_ok_def)
  from tc_readFd_ok [OF this assms(4,11)] obtain bytes where "buf_ok (m_inputBuffer ?d)" "content (m_inputBuffer ?d) = content (m_inputBuffer c1) @ bytes"
    by auto
  from bad_request_again [OF ib _ _ _ assms(9) m this] assms(2,7,8) have "m_state c1 \<noteq> kConnected \<and> onMessage cb t' ?d = None" by simp
  then show ?thesis using assms(11,12) by (simp add: tc_handleRead_def tc_assertInLoopThread_def http_user_def Let_def)
qed

section \<open>Printing requests\<close>

fun version_text :: "Version \<Rightarrow> string" where
  "version_text kHttp10 = ''HTTP/1.0''"
| "version_text kHttp11 = ''HTTP/1.1''"
| "version_text kUnknownVersion = []"

definition header_text :: "(string \<times> string) list \<Rightarrow> string" where
  "header_text hs = concat (map (\<lambda>(k, v). k @ '': '' @ v @ kCRLF) hs)"

definition request_text :: "Method \<Rightarrow> string \<Rightarrow> string \<Rightarrow> Version \<Rightarrow> (string \<times> string) list \<Rightarrow> string" where
  "request_text m path query ver hs =
     (methodString m @ '' '' @ path @ query @ '' '' @ version_text ver) @ kCRLF @ header_text hs @ kCRLF"

text \<open>The pieces hold none of the characters that end them.\<close>

definition target_ok :: "string \<Rightarrow> string \<Rightarrow> bool" where
  "target_ok path query \<longleftrightarrow> set path \<inter> {CHR '' '', CHR ''?'', CHR 0x0D} = {} \<and> set query \<inter> {CHR '' '', CHR 0x0D} = {}
     \<and> (query \<noteq> [] \<longrightarrow> hd query = CHR ''?'')"

definition header_ok :: "string \<times> string \<Rightarrow> bool" where
  "header_ok = (\<lambda>(k, v). CHR '':'' \<notin> set k \<and> CHR 0x0D \<notin> set k \<and> CHR 0x0D \<notin> set v
     \<and> (v \<noteq> [] \<longrightarrow> \<not> isspace (hd v) \<and> \<not> isspace (last v)))"

fun headers_of :: "(string \<times> string) list \<Rightarrow> (string \<rightharpoonup> string) \<Rightarrow> (string \<rightharpoonup> string)" where
  "headers_of [] m = m"
| "headers_of ((k, v) # hs) m = headers_of hs (m(k \<mapsto> v))"

lemma method_roundtrip: "m \<noteq> kInvalid \<Longrightarrow> method_of_text (methodString m) = m"
  by (cases m) (simp_all add: method_of_text_def)

lemma request_line_parsed:
  assumes "m \<noteq> kInvalid" and "ver \<noteq> kUnknownVersion" and "target_ok path query" and "r_method r = kInvalid" and "r_query r = []"
  shows "processRequestLine (methodString m @ '' '' @ path @ query @ '' '' @ version_text ver) r =
     Some (True, r\<lparr>r_method := m, r_path := path, r_query := query, r_version := ver\<rparr>)"
proof -
  let ?target = "path @ query"
  let ?start = "?target @ CHR '' '' # version_text ver"
  have line: "methodString m @ '' '' @ path @ query @ '' '' @ version_text ver = methodString m @ CHR '' '' # ?start" by simp
  have s1: "find_char CHR '' '' (methodString m @ CHR '' '' # ?start) = length (methodString m)"
    by (rule find_char_here) (cases m; simp)
  have s2: "find_char CHR '' '' ?start = length ?target"
    by (rule find_char_here) (use assms(3) in \<open>auto simp: target_ok_def\<close>)
  have q: "find_char CHR ''?'' ?target = length path"
  proof (cases query)
    case Nil
    then show ?thesis using find_char_none [of "CHR ''?''" path] assms(3) by (auto simp: target_ok_def)
  next
    case (Cons x xs)
    then show ?thesis using find_char_here [of "CHR ''?''" path xs] assms(3) by (auto simp: target_ok_def)
  qed
  have v: "length (version_text ver) = 8 \<and> take 7 (version_text ver) = ''HTTP/1.''
      \<and> (version_text ver ! 7 = CHR ''1'' \<longleftrightarrow> ver = kHttp11) \<and> (version_text ver ! 7 = CHR ''0'' \<longleftrightarrow> ver = kHttp10)"
    using assms(2) by (cases ver) (simp_all add: eval_nat_numeral)
  show ?thesis
    unfolding line processRequestLine_def s1
    using s2 q v assms(1,2,4,5)
    by (cases r; cases ver; cases "query = []") (simp_all add: setMethod_def method_roundtrip Let_def)
qed

lemma header_parsed:
  assumes "header_ok (k, v)"
  shows "addHeader (k @ '': '' @ v) (length k) r = r\<lparr>r_headers := (r_headers r)(k \<mapsto> v)\<rparr>"
proof -
  have "dropWhile isspace ('' '' @ v) = v" using assms by (cases v) (simp_all add: header_ok_def isspace_def)
  moreover have "rstrip v = v" using assms by (cases v rule: rev_cases) (simp_all add: rstrip_def header_ok_def)
  ultimately show ?thesis by (simp add: addHeader_def)
qed

lemma headers_parsed:
  "h_state ctx = kExpectHeaders \<Longrightarrow> list_all header_ok hs \<Longrightarrow>
   parse_text t ctx (header_text hs @ kCRLF @ rest) =
     Some (True, ctx\<lparr>h_state := kGotAll, h_request := (h_request ctx)\<lparr>r_headers := headers_of hs (r_headers (h_request ctx))\<rparr>\<rparr>, rest)"
proof (induction hs arbitrary: ctx)
  case Nil
  have "search_at kCRLF (kCRLF @ rest) = Some 0" using search_line [of "[]" rest] by simp
  with Nil show ?case by (simp add: parse_text_unfold [of t ctx] header_text_def find_char_def Let_def)
next
  case (Cons h hs)
  obtain k v where h: "h = (k, v)" by (cases h) auto
  let ?line = "k @ '': '' @ v" and ?more = "header_text hs @ kCRLF @ rest"
  let ?ctx = "ctx\<lparr>h_request := (h_request ctx)\<lparr>r_headers := (r_headers (h_request ctx))(k \<mapsto> v)\<rparr>\<rparr>"
  have ok: "header_ok (k, v)" "list_all header_ok hs" using Cons.prems(2) h by simp_all
  have whole: "header_text (h # hs) @ kCRLF @ rest = ?line @ kCRLF @ ?more" by (simp add: header_text_def h)
  have crlf: "search_at kCRLF (?line @ kCRLF @ ?more) = Some (length ?line)"
    by (rule search_line) (use ok(1) in \<open>simp add: header_ok_def\<close>)
  have colon: "find_char CHR '':'' ?line = length k" using find_char_here [of "CHR '':''" k "'' '' @ v"] ok(1) by (simp add: header_ok_def)
  have "parse_text t ctx (?line @ kCRLF @ ?more) = parse_text t ?ctx ?more"
    unfolding parse_text_unfold [of t ctx "?line @ kCRLF @ ?more"] crlf option.case line_parts
    using Cons.prems(1) colon header_parsed [OF ok(1)] by (simp add: Let_def)
  also have "\<dots> = Some (True, ?ctx\<lparr>h_state := kGotAll, h_request := (h_request ?ctx)\<lparr>r_headers := headers_of hs (r_headers (h_request ?ctx))\<rparr>\<rparr>, rest)"
    by (rule Cons.IH) (use Cons.prems(1) ok(2) in simp_all)
  finally show ?case unfolding whole by (simp add: h)
qed

lemma request_parsed:
  assumes "m \<noteq> kInvalid" and "ver \<noteq> kUnknownVersion" and "target_ok path query" and "list_all header_ok hs"
  shows "parse_text t new_HttpContext (request_text m path query ver hs @ rest) =
     Some (True, \<lparr>h_state = kGotAll, h_request = \<lparr>r_method = m, r_version = ver, r_path = path, r_query = query, r_receiveTime = t,
        r_headers = headers_of hs Map.empty\<rparr>\<rparr>, rest)"
proof -
  let ?line = "methodString m @ '' '' @ path @ query @ '' '' @ version_text ver"
  let ?more = "header_text hs @ kCRLF @ rest"
  let ?ctx = "\<lparr>h_state = kExpectHeaders, h_request = \<lparr>r_method = m, r_version = ver, r_path = path, r_query = query, r_receiveTime = t, r_headers = Map.empty\<rparr>\<rparr>"
  have whole: "request_text m path query ver hs @ rest = ?line @ kCRLF @ ?more" by (simp add: request_text_def)
  have cr: "CHR 0x0D \<notin> set ?line" using assms(3) by (cases m; cases ver) (auto simp: target_ok_def)
  have "parse_text t new_HttpContext (?line @ kCRLF @ ?more) = parse_text t ?ctx ?more"
    unfolding parse_text_unfold [of t new_HttpContext "?line @ kCRLF @ ?more"] search_line [OF cr] option.case line_parts
    using request_line_parsed [OF assms(1-3), of new_HttpRequest] by (simp add: new_HttpContext_def new_HttpRequest_def)
  also have "\<dots> = Some (True, ?ctx\<lparr>h_state := kGotAll, h_request := (h_request ?ctx)\<lparr>r_headers := headers_of hs (r_headers (h_request ?ctx))\<rparr>\<rparr>, rest)"
    by (rule headers_parsed) (simp_all add: assms(4))
  finally show ?thesis unfolding whole by simp
qed

text \<open>C18: a request that is printed and read again is the same request: the parser gives back the method, path, query and version,
  the last value of every header, and leaves exactly the bytes behind the empty line.\<close>

theorem http_roundtrip:
  assumes "buf_ok b" and "content b = request_text m path query ver hs @ rest" and "m \<noteq> kInvalid" and "ver \<noteq> kUnknownVersion"
    and "target_ok path query" and "list_all header_ok hs"
  shows "\<exists>b'. parseRequest (Suc (readableBytes b)) t new_HttpContext b =
     Parsed True \<lparr>h_state = kGotAll, h_request = \<lparr>r_method = m, r_version = ver, r_path = path, r_query = query, r_receiveTime = t,
        r_headers = headers_of hs Map.empty\<rparr>\<rparr> b' \<and> content b' = rest"
proof -
  have "expecting new_HttpContext" by (simp add: expecting_def new_HttpContext_def)
  moreover have "length (content b) < Suc (readableBytes b)" using assms(1) by simp
  ultimately have "parse_agrees (parseRequest (Suc (readableBytes b)) t new_HttpContext b) (parse_text t new_HttpContext (content b))"
    by (rule parse_agrees_ok [OF assms(1)])
  then show ?thesis unfolding assms(2) request_parsed [OF assms(3-6)]
    by (cases "parseRequest (Suc (readableBytes b)) t new_HttpContext b") (simp_all del: parseRequest.simps)
qed

theorem http_roundtrip_witness:
  "\<exists>b'. parseRequest 35 (Timestamp 5) new_HttpContext ex_http =
     Parsed True \<lparr>h_state = kGotAll, h_request = \<lparr>r_method = kGet, r_version = kHttp10, r_path = ''/a'', r_query = ''?b'', r_receiveTime = Timestamp 5,
        r_headers = [''Host'' \<mapsto> ''h'']\<rparr>\<rparr> b' \<and> content b' = ''more''"
proof -
  have c: "content ex_http = request_text kGet ''/a'' ''?b'' kHttp10 [(''Host'', ''h'')] @ ''more''"
    by (simp add: ex_http_content request_text_def header_text_def)
  have t: "target_ok ''/a'' ''?b''" "list_all header_ok [(''Host'', ''h'')]"
    by (simp_all add: target_ok_def header_ok_def isspace_def)
  have n: "Suc (readableBytes ex_http) = 35" by (simp add: ex_http_def readableBytes_def)
  from http_roundtrip [OF ex_http_ok c _ _ t, of "Timestamp 5"] show ?thesis unfolding n by (simp del: parseRequest.simps)
qed

section \<open>Witnesses on a connection\<close>

definition ex_hc :: HttpConn where
  "ex_hc = MuduoConn.extend ex_established \<lparr>hc_context = new_HttpContext\<rparr>"

lemma ex_hc_fields:
  "m_state ex_hc = kConnected" "m_thread ex_hc = 1" "hc_context ex_hc = new_HttpContext" "m_inputBuffer ex_hc = m_inputBuffer ex_established"
  "m_outputBuffer ex_hc = m_outputBuffer ex_established" "m_sent ex_hc = []" "m_kernel ex_hc = ex_kernel" "m_events ex_hc = 3" "m_writes ex_hc = 0"
  by (simp_all add: ex_hc_def MuduoConn.defs ex_established_def Let_def)

lemma ex_hc_reach: "tc_reach (http_user cb) ex_hc"
proof (rule reach_new [OF ex_new(2,1)])
  show "tc_connectEstablished (http_user cb) 1 (MuduoConn.extend (tc_setHighWaterMarkCallback False 100 (tc_setWriteCompleteCallback False ex_connecting))
      (MuduoConn.more ex_hc)) = Some ex_hc"
    by (simp add: ex_connecting_def tc_connectEstablished_def http_user_def onConnection_def tc_assertInLoopThread_def ex_established_def ex_hc_def
        MuduoConn.defs tc_setHighWaterMarkCallback_def tc_setWriteCompleteCallback_def tc_interest_def kReadEvent_def POLLIN_def POLLPRI_def Let_def)
qed

definition ex_arrives :: "string \<Rightarrow> nat list \<Rightarrow> readv_result" where
  "ex_arrives s iov = ReadvData (take (sum_list iov) s)"

lemma ex_arrives_ok: "readv_ok (ex_arrives s)"
  by (auto simp: readv_ok_def ex_arrives_def)

lemma ex_arrives_read:
  assumes "buf_ok b" and "length s \<le> writableBytes b"
  shows "\<exists>inb. readFd (ex_arrives s) b = Some (int (length s), None, inb) \<and> buf_ok inb \<and> content inb = content b @ s
     \<and> writableBytes inb = writableBytes b - length s"
proof -
  have "length s \<le> sum_list (readFd_iov b)" using assms(2) by (simp add: readFd_iov_def Let_def)
  then have "ex_arrives s (readFd_iov b) = ReadvData s" by (simp add: ex_arrives_def)
  moreover have "length (blit (writerIndex b) s (buffer b)) = length (buffer b)"
    using assms by (intro length_blit) (auto simp: buf_ok_def writableBytes_def)
  ultimately show ?thesis using append_in_place [OF assms] assms(2) by (simp add: readFd_def Let_def) (simp add: writableBytes_def)
qed

lemma ex_hc_input: "buf_ok (m_inputBuffer ex_hc)" "writableBytes (m_inputBuffer ex_hc) = 1024" "content (m_inputBuffer ex_hc) = []"
  by (simp_all add: ex_hc_fields ex_established_def Let_def buf_ok_def content_def buf_defs vec_max_def)

theorem http_answers_witness:
  "\<exists>c'. tc_handleRead (http_user defaultHttpCallback) 1 (ex_arrives (request_text kGet ''/a'' ''?b'' kHttp10 [(''Host'', ''h'')] @ ''more'')) (Timestamp 5) ex_hc = Some c'
     \<and> tc_stream c' = ''HTTP/1.1 404 Not Found'' @ kCRLF @ ''Connection: close'' @ kCRLF @ kCRLF \<and> m_state c' = kDisconnecting \<and> content (m_inputBuffer c') = ''more''"
proof -
  let ?s = "request_text kGet ''/a'' ''?b'' kHttp10 [(''Host'', ''h'')] @ ''more''"
  let ?p = "\<lparr>p_headers = [], p_statusCode = k404NotFound, p_statusMessage = ''Not Found'', p_closeConnection = True, p_body = []\<rparr>"
  have "length ?s \<le> 1024" by (simp add: request_text_def header_text_def)
  from ex_arrives_read [of "m_inputBuffer ex_hc" ?s] this obtain inb where
    r: "readFd (ex_arrives ?s) (m_inputBuffer ex_hc) = Some (int (length ?s), None, inb)" "content inb = ?s" by (auto simp: ex_hc_input)
  have t: "target_ok ''/a'' ''?b''" "list_all header_ok [(''Host'', ''h'')]"
    by (simp_all add: target_ok_def header_ok_def isspace_def)
  let ?ctx = "\<lparr>h_state = kGotAll, h_request = \<lparr>r_method = kGet, r_version = kHttp10, r_path = ''/a'', r_query = ''?b'', r_receiveTime = Timestamp 5,
      r_headers = headers_of [(''Host'', ''h'')] Map.empty\<rparr>\<rparr>"
  have parsed: "parse_text (Timestamp 5) new_HttpContext ?s = Some (True, ?ctx, ''more'')"
    by (rule request_parsed) (simp_all only: t, simp_all)
  have out: "room (m_outputBuffer ex_hc) n" if "n \<le> 2 ^ 62" for n using that by (simp add: ex_hc_fields ex_established_def Let_def room_def kCheapPrepend_def vec_max_def)
  have "dec_nat 404 = ''404''" by code_simp
  then have p: "response_text ?p = ''HTTP/1.1 404 Not Found'' @ kCRLF @ ''Connection: close'' @ kCRLF @ kCRLF"
    by (simp add: response_text_def response_parts_def snprintf_def digit_char_def)
  have nf: "\<not> tc_fault s ex_hc" for s by (simp add: tc_fault_def ex_hc_fields ex_kernel_def)
  have cb: "?p = defaultHttpCallback q (new_HttpResponse x)" for q x
    by (simp add: defaultHttpCallback_def setCloseConnection_def setStatusMessage_def setStatusCode_def new_HttpResponse_def)
  have s0: "tc_stream ex_hc = []" by (simp add: tc_stream_def ex_hc_fields(5,6)) (simp add: ex_established_def Let_def content_def)
  have ex: "expecting (hc_context ex_hc)" by (simp add: ex_hc_fields expecting_def new_HttpContext_def)
  have pos: "0 < int (length ?s)" by (simp add: request_text_def)
  have ps: "parse_text (Timestamp 5) (hc_context ex_hc) (content inb) = Some (True, ?ctx, ''more'')" using parsed r(2) by (simp only: ex_hc_fields(3))
  have ga: "gotAll ?ctx" by (simp add: gotAll_def)
  have len: "length (response_text ?p) \<le> 2 ^ 62" by (simp add: p)
  from http_answers [OF ex_hc_reach [of defaultHttpCallback] ex_hc_fields(1) ex ex_arrives_ok r(1) pos ps ga cb len out [OF len]] obtain c' where
    c': "tc_handleRead (http_user defaultHttpCallback) 1 (ex_arrives ?s) (Timestamp 5) ex_hc = Some c'" "tc_stream c' = response_text ?p"
      "m_state c' = kDisconnecting" "content (m_inputBuffer c') = ''more''"
    unfolding ex_hc_fields(2) by (auto simp: nf s0)
  from c'(2) have "tc_stream c' = ''HTTP/1.1 404 Not Found'' @ kCRLF @ ''Connection: close'' @ kCRLF @ kCRLF" unfolding p .
  with c'(1,3,4) show ?thesis by blast
qed

theorem bad_request_then_more_aborts_witness:
  "\<exists>c1 t'. tc_handleRead (http_user defaultHttpCallback) 1 (ex_arrives (''GET / HTTP/2.0'' @ kCRLF)) (Timestamp 5) ex_hc = Some c1
     \<and> m_state c1 \<noteq> kConnected \<and> tc_handleRead (http_user defaultHttpCallback) 1 (ex_arrives ''x'') t' c1 = None"
proof -
  let ?s = "''GET / HTTP/2.0'' @ kCRLF"
  let ?line = "''GET / HTTP/2.0''"
  let ?bad = "''HTTP/1.1 400 Bad Request'' @ kCRLF @ kCRLF"
  let ?r = "new_HttpRequest\<lparr>r_method := kGet, r_path := ''/''\<rparr>"
  have len: "length ?s \<le> writableBytes (m_inputBuffer ex_hc)" by (simp add: ex_hc_input)
  from ex_arrives_read [OF ex_hc_input(1) len] obtain inb where
    r: "readFd (ex_arrives ?s) (m_inputBuffer ex_hc) = Some (16, None, inb)" "buf_ok inb" "content inb = ?s" "writableBytes inb = 1008"
    by (auto simp: ex_hc_input)
  have k: "search_at kCRLF (content inb) = Some 14" unfolding r(3) by (simp add: kCRLF_def)
  have line: "take 14 (content inb) = ?line" unfolding r(3) by simp
  have bad: "processRequestLine ?line new_HttpRequest = Some (False, ?r)"
    by (simp add: processRequestLine_def find_char_def setMethod_def method_of_text_def new_HttpRequest_def Let_def)
  let ?ctx = "new_HttpContext\<lparr>h_request := ?r\<rparr>"
  let ?i = "ex_hc\<lparr>m_inputBuffer := inb\<rparr>"
  let ?c = "?i\<lparr>hc_context := ?ctx, m_inputBuffer := inb\<rparr>"
  note u = retrieveUntil_ok [OF r(2) k]
  have pr: "parseRequest (Suc (readableBytes inb)) (Timestamp 5) (hc_context ex_hc) inb = Parsed False ?ctx inb"
    using u(1,2) bad line by (simp add: ex_hc_fields new_HttpContext_def)
  have ok: "tc_ok ?c" using http.reach_inv [OF ex_hc_reach] r(2) by (simp add: tc_inv_def tc_ok_def tc_isWriting_def)
  have "room (m_outputBuffer ?c) (length ?bad)"
    by (simp add: ex_hc_fields ex_established_def Let_def room_def kCheapPrepend_def vec_max_def)
  from tc_sendInLoop_total [OF ok _ this] obtain d where d: "tc_sendInLoop 1 ?bad ?c = Some d" by (auto simp: ex_hc_fields)
  from tc_sendInLoop_ok [OF ok _ _ d] have st: "m_state d = kConnected" "m_thread d = 1"
    by (simp_all add: tc_appends_def ex_hc_fields vec_max_def)
  then obtain c1 where c1: "tc_shutdown (m_thread d) d = Some c1" "m_thread c1 = 1"
    by (auto simp: tc_shutdown_def tc_shutdown_set_def tc_shutdownInLoop_def tc_assertInLoopThread_def Let_def)
  have send: "tc_send (m_thread ?c) ?bad ?c = Some d" using d by (simp add: tc_send_def ex_hc_fields)
  from send_then_shutdown_context [OF send c1(1)] have frame: "m_inputBuffer c1 = inb" "hc_context c1 = ?ctx" by simp_all
  have "\<not> gotAll (hc_context c1)" by (simp add: frame gotAll_def new_HttpContext_def)
  then have m: "onMessage defaultHttpCallback (Timestamp 5) ?i = Some c1"
    unfolding onMessage_def using pr send c1(1) by (simp add: Let_def del: parseRequest.simps)
  then have h: "tc_handleRead (http_user defaultHttpCallback) (m_thread ex_hc) (ex_arrives ?s) (Timestamp 5) ex_hc = Some c1"
    using r(1) by (simp add: tc_handleRead_def tc_assertInLoopThread_def http_user_def Let_def del: onMessage_def)
  from ex_arrives_read [of inb "''x''"] r(2,4) obtain inb' where r': "readFd (ex_arrives ''x'') (m_inputBuffer c1) = Some (1, None, inb')"
    by (auto simp: frame)
  have "processRequestLine (take 14 (content inb)) new_HttpRequest = Some (False, ?r)" "r_method ?r \<noteq> kInvalid" using bad line by simp_all
  from bad_request_then_more_aborts [OF ex_hc_reach ex_hc_fields(3) ex_arrives_ok ex_arrives_ok r(1) _ k this h r'] h c1(2)
  show ?thesis by (auto simp: ex_hc_fields)
qed

end
