(* ===== verification/StringPiece.thy ===== *)
theory StringPiece
  imports Prelude "HOL-Library.Sublist"
begin

text \<open>
  \<^verbatim>\<open>base/StringPiece.h\<close>: a view of a range of characters. A view is the list of the characters it
  shows. A length that would leave the viewed range (a negative \<^verbatim>\<open>length_\<close>) is \<open>None\<close>.
\<close>

type_synonym StringPiece = string

text \<open>\<^verbatim>\<open>memcmp\<close> compares unsigned bytes; only the sign of its result is specified.\<close>

fun memcmp :: "string \<Rightarrow> string \<Rightarrow> nat \<Rightarrow> int" where
  "memcmp (x # xs) (y # ys) (Suc n) =
     (if x = y then memcmp xs ys n else if (of_char x :: nat) < of_char y then -1 else 1)"
| "memcmp _ _ _ = 0"

definition StringPiece_of :: "string \<Rightarrow> StringPiece" where
  "StringPiece_of str = str"

definition sp_clear :: "StringPiece \<Rightarrow> StringPiece" where
  "sp_clear x = []"

definition sp_set :: "string \<Rightarrow> nat \<Rightarrow> StringPiece \<Rightarrow> StringPiece option" where
  "sp_set memory len x = (if len \<le> length memory then Some (take len memory) else None)"

definition remove_prefix :: "nat \<Rightarrow> StringPiece \<Rightarrow> StringPiece option" where
  "remove_prefix n x = (if n \<le> length x then Some (drop n x) else None)"

definition remove_suffix :: "nat \<Rightarrow> StringPiece \<Rightarrow> StringPiece option" where
  "remove_suffix n x = (if n \<le> length x then Some (take (length x - n) x) else None)"

definition sp_eq :: "StringPiece \<Rightarrow> StringPiece \<Rightarrow> bool" where
  "sp_eq this x \<longleftrightarrow> length this = length x \<and> memcmp this x (length this) = 0"

definition sp_ne :: "StringPiece \<Rightarrow> StringPiece \<Rightarrow> bool" where
  "sp_ne this x \<longleftrightarrow> \<not> sp_eq this x"

text \<open>The four instances of \<^verbatim>\<open>STRINGPIECE_BINARY_PREDICATE(cmp, auxcmp)\<close>.\<close>

definition sp_binary_predicate ::
    "(int \<Rightarrow> int \<Rightarrow> bool) \<Rightarrow> (int \<Rightarrow> int \<Rightarrow> bool) \<Rightarrow> StringPiece \<Rightarrow> StringPiece \<Rightarrow> bool" where
  "sp_binary_predicate cmp auxcmp this x =
     (let r = memcmp this x (if length this < length x then length this else length x)
      in auxcmp r 0 \<or> (r = 0 \<and> cmp (int (length this)) (int (length x))))"

definition sp_less :: "StringPiece \<Rightarrow> StringPiece \<Rightarrow> bool" where
  "sp_less = sp_binary_predicate (<) (<)"

definition sp_le :: "StringPiece \<Rightarrow> StringPiece \<Rightarrow> bool" where
  "sp_le = sp_binary_predicate (\<le>) (<)"

definition sp_ge :: "StringPiece \<Rightarrow> StringPiece \<Rightarrow> bool" where
  "sp_ge = sp_binary_predicate (\<ge>) (>)"

definition sp_greater :: "StringPiece \<Rightarrow> StringPiece \<Rightarrow> bool" where
  "sp_greater = sp_binary_predicate (>) (>)"

definition compare :: "StringPiece \<Rightarrow> StringPiece \<Rightarrow> int" where
  "compare this x =
     (let r = memcmp this x (if length this < length x then length this else length x)
      in if r = 0 then (if length this < length x then -1 else if length this > length x then 1 else r) else r)"

definition as_string :: "StringPiece \<Rightarrow> string" where
  "as_string x = x"

definition CopyToString :: "StringPiece \<Rightarrow> string \<Rightarrow> string" where
  "CopyToString x target = x"

definition starts_with :: "StringPiece \<Rightarrow> StringPiece \<Rightarrow> bool" where
  "starts_with this x \<longleftrightarrow> length this \<ge> length x \<and> memcmp this x (length x) = 0"

section \<open>Comparison is the lexicographic order on bytes\<close>

lemma memcmp_min:
  defines "m \<equiv> \<lambda>xs ys. memcmp xs ys (min (length xs) (length ys))"
  shows "xs < ys \<longleftrightarrow> m xs ys < 0 \<or> (m xs ys = 0 \<and> length xs < length ys)"
    and "xs = ys \<longleftrightarrow> m xs ys = 0 \<and> length xs = length ys"
proof (induction xs arbitrary: ys)
  case Nil
  case 1 then show ?case by (cases ys) (simp_all add: m_def)
  case 2 then show ?case by (cases ys) (simp_all add: m_def)
next
  case (Cons x xs)
  case 1 show ?case using Cons.IH(1) by (cases ys) (auto simp: m_def less_char_def)
  case 2 show ?case using Cons.IH(2) by (cases ys) (auto simp: m_def)
qed

lemma memcmp_neg: "memcmp ys xs n = - memcmp xs ys n"
  by (induction xs ys n rule: memcmp.induct) auto

lemma min_if: "(if a < b then a else b) = min a (b::nat)"
  by (simp add: min_def)

lemma memcmp_prefix: "length x \<le> length this \<Longrightarrow> memcmp this x (length x) = 0 \<longleftrightarrow> prefix x this"
proof (induction x arbitrary: this)
  case (Cons c x)
  then show ?case by (cases this) auto
qed simp

lemmas sp_order_defs =
  sp_less_def sp_le_def sp_ge_def sp_greater_def sp_binary_predicate_def Let_def min_if

text \<open>The comparison operators of \<^verbatim>\<open>StringPiece\<close> are the lexicographic order on unsigned bytes
  (hence a total order), \<^verbatim>\<open>==\<close> is equality of the characters, \<^verbatim>\<open>compare\<close> agrees in sign with
  the operators, and \<^verbatim>\<open>starts_with\<close> is the prefix relation.\<close>

theorem stringpiece_order:
  "(sp_less x y \<longleftrightarrow> x < y) \<and> (sp_le x y \<longleftrightarrow> x \<le> y) \<and> (sp_greater x y \<longleftrightarrow> y < x)
   \<and> (sp_ge x y \<longleftrightarrow> y \<le> x) \<and> (sp_eq x y \<longleftrightarrow> x = y) \<and> (sp_ne x y \<longleftrightarrow> x \<noteq> y)
   \<and> (compare x y < 0 \<longleftrightarrow> x < y) \<and> (compare x y = 0 \<longleftrightarrow> x = y) \<and> (compare x y > 0 \<longleftrightarrow> y < x)
   \<and> (starts_with x y \<longleftrightarrow> prefix y x)"
proof -
  let ?r = "memcmp x y (min (length x) (length y))"
  have lt: "x < y \<longleftrightarrow> ?r < 0 \<or> (?r = 0 \<and> length x < length y)"
    and eq: "x = y \<longleftrightarrow> ?r = 0 \<and> length x = length y"
    by (rule memcmp_min)+
  have gt: "y < x \<longleftrightarrow> ?r > 0 \<or> (?r = 0 \<and> length y < length x)"
    using memcmp_min(1) [of y x] memcmp_neg [of y x] by (simp add: min.commute)
  have ops: "sp_less x y \<longleftrightarrow> x < y" "sp_greater x y \<longleftrightarrow> y < x"
    unfolding lt gt by (simp_all add: sp_order_defs)
  have weak: "sp_le x y \<longleftrightarrow> x \<le> y" "sp_ge x y \<longleftrightarrow> y \<le> x"
    unfolding le_less lt gt eq_commute [of y x] eq by (auto simp: sp_order_defs)
  have eqs: "sp_eq x y \<longleftrightarrow> x = y" "sp_ne x y \<longleftrightarrow> x \<noteq> y"
    unfolding sp_ne_def sp_eq_def eq by (auto simp: min_def)
  have cmp: "compare x y < 0 \<longleftrightarrow> x < y" "compare x y = 0 \<longleftrightarrow> x = y" "compare x y > 0 \<longleftrightarrow> y < x"
    unfolding lt gt eq by (auto simp: compare_def Let_def min_if)
  have "starts_with x y \<longleftrightarrow> prefix y x"
    using memcmp_prefix [of y x] prefix_length_le [of y x] by (auto simp: starts_with_def)
  with ops weak eqs cmp show ?thesis by simp
qed

end
