(* ===== verification/LogStream.thy ===== *)
theory LogStream
  imports StringPiece
begin

text \<open>
  \<^verbatim>\<open>base/LogStream.h\<close> and \<^verbatim>\<open>base/LogStream.cc\<close>: integer-to-text conversion, the fixed-size buffer
  and the stream's output operators. A write outside \<^verbatim>\<open>data_\<close> is \<open>None\<close>, so that
  a result \<open>Some\<close> says that no memory outside the buffer was touched. What \<^verbatim>\<open>snprintf\<close> prints for
  a \<^verbatim>\<open>double\<close> (and for a caller's format in \<^verbatim>\<open>Fmt\<close>) is an argument.
\<close>

section \<open>Integer to text\<close>

definition digits :: string where
  "digits = ''9876543210123456789''"

definition digitsHex :: string where
  "digitsHex = ''0123456789ABCDEF''"

text \<open>\<^verbatim>\<open>zero\<close> points at \<^verbatim>\<open>digits + 9\<close>, so it can be indexed with a negative remainder.\<close>

definition zero_at :: "int \<Rightarrow> char" where
  "zero_at lsd = digits ! nat (9 + lsd)"

lemma cdiv_ten_less: "cdiv i 10 \<noteq> 0 \<Longrightarrow> \<bar>cdiv i 10\<bar> < \<bar>i\<bar>"
  by (cases "0 \<le> i") (auto simp: cdiv_neg)

text \<open>The characters the loop of \<^verbatim>\<open>convert\<close> stores, least significant digit first.\<close>

function convert_loop :: "int \<Rightarrow> string" where
  "convert_loop i =
     (let lsd = cmod i 10; i' = cdiv i 10
      in zero_at lsd # (if i' \<noteq> 0 then convert_loop i' else []))"
  by pat_completeness auto
termination
  by (relation "measure (\<lambda>i. nat \<bar>i\<bar>)") (auto simp: cdiv_ten_less)

declare convert_loop.simps [simp del]

definition convert :: "int \<Rightarrow> string" where
  "convert value = (let p = convert_loop value in rev (if value < 0 then p @ ''-'' else p))"

fun convertHex_loop :: "nat \<Rightarrow> string" where
  "convertHex_loop i =
     (let lsd = i mod 16; i' = i div 16
      in digitsHex ! lsd # (if i' \<noteq> 0 then convertHex_loop i' else []))"

declare convertHex_loop.simps [simp del]

definition convertHex :: "nat \<Rightarrow> string" where
  "convertHex value = rev (convertHex_loop value)"

section \<open>The fixed buffer\<close>

definition kSmallBuffer :: nat where
  "kSmallBuffer = 4000"

definition kLargeBuffer :: nat where
  "kLargeBuffer = 4000 * 1000"

text \<open>\<^verbatim>\<open>cur_\<close> is an offset into \<^verbatim>\<open>data_\<close>; \<open>SIZE\<close> is the length of \<open>data_\<close>.\<close>

record FixedBuffer =
  fb_data :: string
  fb_cur :: nat

definition new_FixedBuffer :: "string \<Rightarrow> FixedBuffer" where
  "new_FixedBuffer mem = \<lparr>fb_data = mem, fb_cur = 0\<rparr>"

definition avail :: "FixedBuffer \<Rightarrow> int" where
  "avail b = int (length (fb_data b)) - int (fb_cur b)"

text \<open>A copy to \<^verbatim>\<open>current()\<close>, \<open>None\<close> when it leaves the array.\<close>

definition poke :: "string \<Rightarrow> FixedBuffer \<Rightarrow> FixedBuffer option" where
  "poke cs b = (if fb_cur b + length cs \<le> length (fb_data b)
                then Some (b\<lparr>fb_data := blit (fb_cur b) cs (fb_data b)\<rparr>) else None)"

definition fb_add :: "nat \<Rightarrow> FixedBuffer \<Rightarrow> FixedBuffer" where
  "fb_add len b = b\<lparr>fb_cur := fb_cur b + len\<rparr>"

definition fb_append :: "string \<Rightarrow> FixedBuffer \<Rightarrow> FixedBuffer option" where
  "fb_append buf b =
     (if avail b > int (length buf)
      then do { b' \<leftarrow> poke buf b; Some (fb_add (length buf) b') }
      else Some b)"

definition fb_length :: "FixedBuffer \<Rightarrow> nat" where
  "fb_length b = fb_cur b"

definition fb_reset :: "FixedBuffer \<Rightarrow> FixedBuffer" where
  "fb_reset b = b\<lparr>fb_cur := 0\<rparr>"

definition fb_bzero :: "FixedBuffer \<Rightarrow> FixedBuffer" where
  "fb_bzero b = b\<lparr>fb_data := replicate (length (fb_data b)) (CHR 0x00)\<rparr>"

definition fb_toString :: "FixedBuffer \<Rightarrow> string" where
  "fb_toString b = take (fb_length b) (fb_data b)"

definition debugString :: "FixedBuffer \<Rightarrow> FixedBuffer option" where
  "debugString b = poke [CHR 0x00] b"

section \<open>The stream\<close>

definition kMaxNumericSize :: int where
  "kMaxNumericSize = 32"

text \<open>\<^verbatim>\<open>convert\<close> stores the text and a terminating zero.\<close>

definition formatInteger :: "int \<Rightarrow> FixedBuffer \<Rightarrow> FixedBuffer option" where
  "formatInteger v b =
     (if avail b \<ge> kMaxNumericSize
      then do { b' \<leftarrow> poke (convert v @ [CHR 0x00]) b; Some (fb_add (length (convert v)) b') }
      else Some b)"

definition ls_bool :: "bool \<Rightarrow> FixedBuffer \<Rightarrow> FixedBuffer option" where
  "ls_bool v = fb_append (if v then ''1'' else ''0'')"

definition ls_int :: "int \<Rightarrow> FixedBuffer \<Rightarrow> FixedBuffer option" where
  "ls_int v = formatInteger v"

definition ls_unsigned_int :: "int \<Rightarrow> FixedBuffer \<Rightarrow> FixedBuffer option" where
  "ls_unsigned_int v = formatInteger v"

definition ls_short :: "int \<Rightarrow> FixedBuffer \<Rightarrow> FixedBuffer option" where
  "ls_short v = ls_int v"

definition ls_unsigned_short :: "int \<Rightarrow> FixedBuffer \<Rightarrow> FixedBuffer option" where
  "ls_unsigned_short v = ls_unsigned_int v"

definition ls_long :: "int \<Rightarrow> FixedBuffer \<Rightarrow> FixedBuffer option" where
  "ls_long v = formatInteger v"

definition ls_unsigned_long :: "int \<Rightarrow> FixedBuffer \<Rightarrow> FixedBuffer option" where
  "ls_unsigned_long v = formatInteger v"

definition ls_long_long :: "int \<Rightarrow> FixedBuffer \<Rightarrow> FixedBuffer option" where
  "ls_long_long v = formatInteger v"

definition ls_unsigned_long_long :: "int \<Rightarrow> FixedBuffer \<Rightarrow> FixedBuffer option" where
  "ls_unsigned_long_long v = formatInteger v"

definition ls_pointer :: "nat \<Rightarrow> FixedBuffer \<Rightarrow> FixedBuffer option" where
  "ls_pointer v b =
     (if avail b \<ge> kMaxNumericSize
      then do { b' \<leftarrow> poke (''0x'' @ convertHex v @ [CHR 0x00]) b; Some (fb_add (length (convertHex v) + 2) b') }
      else Some b)"

text \<open>\<open>printed\<close> is the text of \<^verbatim>\<open>%.12g\<close>; at most 31 of its characters and a zero are stored, the offset
  moves by its whole length.\<close>

definition ls_double :: "string \<Rightarrow> FixedBuffer \<Rightarrow> FixedBuffer option" where
  "ls_double printed b =
     (if avail b \<ge> kMaxNumericSize
      then do { b' \<leftarrow> poke (snprintf (nat kMaxNumericSize) printed @ [CHR 0x00]) b; Some (fb_add (length printed) b') }
      else Some b)"

definition ls_float :: "string \<Rightarrow> FixedBuffer \<Rightarrow> FixedBuffer option" where
  "ls_float printed = ls_double printed"

definition ls_char :: "char \<Rightarrow> FixedBuffer \<Rightarrow> FixedBuffer option" where
  "ls_char v = fb_append [v]"

text \<open>A C string is the characters before its terminating zero, \<open>None\<close> the null pointer.\<close>

definition ls_cstring :: "string option \<Rightarrow> FixedBuffer \<Rightarrow> FixedBuffer option" where
  "ls_cstring str = (case str of Some s \<Rightarrow> fb_append s | None \<Rightarrow> fb_append ''(null)'')"

definition ls_unsigned_cstring :: "string option \<Rightarrow> FixedBuffer \<Rightarrow> FixedBuffer option" where
  "ls_unsigned_cstring str = ls_cstring str"

definition ls_string :: "string \<Rightarrow> FixedBuffer \<Rightarrow> FixedBuffer option" where
  "ls_string v = fb_append v"

definition ls_StringPiece :: "StringPiece \<Rightarrow> FixedBuffer \<Rightarrow> FixedBuffer option" where
  "ls_StringPiece v = fb_append v"

definition ls_Buffer :: "FixedBuffer \<Rightarrow> FixedBuffer \<Rightarrow> FixedBuffer option" where
  "ls_Buffer v = ls_StringPiece (fb_toString v)"

definition ls_append :: "string \<Rightarrow> FixedBuffer \<Rightarrow> FixedBuffer option" where
  "ls_append d = fb_append d"

definition resetBuffer :: "FixedBuffer \<Rightarrow> FixedBuffer" where
  "resetBuffer b = fb_reset b"

text \<open>\<^verbatim>\<open>Fmt\<close>: the stored characters and the length, \<open>None\<close> when the assertion fails.\<close>

definition Fmt :: "string \<Rightarrow> (string \<times> nat) option" where
  "Fmt printed = do { assert_that (length printed < 32); Some (snprintf 32 printed, length printed) }"

definition ls_Fmt :: "string \<times> nat \<Rightarrow> FixedBuffer \<Rightarrow> FixedBuffer option" where
  "ls_Fmt fmt = ls_append (take (snd fmt) (fst fmt))"

section \<open>The conversions print decimal and hexadecimal numbers\<close>

lemma zero_at_digit: "\<bar>d\<bar> < 10 \<Longrightarrow> zero_at d = digit_char (nat \<bar>d\<bar>)"
proof -
  assume "\<bar>d\<bar> < 10"
  then have "d \<in> {-9, -8, -7, -6, -5, -4, -3, -2, -1, 0, 1, 2, 3, 4, 5, 6, 7, 8, 9}"
    by simp presburger
  then show ?thesis
    by (auto simp: zero_at_def digits_def digit_char_def char_of_def bit_Suc_0_iff)
qed

lemma cmod_ten: "\<bar>cmod i 10\<bar> = \<bar>i\<bar> mod 10" and cdiv_ten: "\<bar>cdiv i 10\<bar> = \<bar>i\<bar> div 10"
  by (cases "0 \<le> i"; simp add: cmod_neg cdiv_neg abs_of_neg pos_imp_zdiv_nonneg_iff)+

lemma convert_loop_dec: "rev (convert_loop i) = dec_nat (nat \<bar>i\<bar>)"
proof (induction i rule: convert_loop.induct)
  case (1 i)
  have lsd: "zero_at (cmod i 10) = digit_char (nat \<bar>i\<bar> mod 10)"
    by (simp add: zero_at_digit cmod_ten nat_mod_distrib)
  have quot: "nat \<bar>cdiv i 10\<bar> = nat \<bar>i\<bar> div 10"
    by (simp add: cdiv_ten nat_div_distrib)
  show ?case
  proof (cases "cdiv i 10 = 0")
    case True
    with quot have "nat \<bar>i\<bar> < 10" by simp
    with True lsd show ?thesis by (simp add: convert_loop.simps [of i] dec_nat.simps [of "nat \<bar>i\<bar>"] Let_def)
  next
    case False
    with quot have "\<not> nat \<bar>i\<bar> < 10" 
      by (metis abs_le_zero_iff div_less nat_0_iff)
    with False lsd quot 1 show ?thesis
      by (simp add: convert_loop.simps [of i] dec_nat.simps [of "nat \<bar>i\<bar>"] Let_def)
  qed
qed

lemma convert_dec_int: "convert v = dec_int v"
  by (simp add: convert_def dec_int_def Let_def convert_loop_dec)

definition hex_digit :: "char \<Rightarrow> nat" where
  "hex_digit c = (let n = of_char c in if n < 58 then n - 48 else n - 55)"

definition unhex :: "string \<Rightarrow> nat" where
  "unhex cs = foldl (\<lambda>v c. 16 * v + hex_digit c) 0 cs"

lemma hex_digit_table: "d < 16 \<Longrightarrow> hex_digit (digitsHex ! d) = d"
proof -
  assume "d < 16"
  then have "d \<in> {0, 1, 2, 3, 4, 5, 6, 7, 8, 9, 10, 11, 12, 13, 14, 15}" by simp presburger
  then show ?thesis by (auto simp: hex_digit_def digitsHex_def)
qed

lemma unhex_convertHex: "unhex (convertHex v) = v"
proof (induction v rule: convertHex_loop.induct)
  case (1 v)
  then show ?case
    by (cases "v div 16 = 0")
       (simp_all add: convertHex_def convertHex_loop.simps [of v] unhex_def hex_digit_table Let_def)
qed

lemma length_convertHex: "v < 16 ^ Suc k \<Longrightarrow> length (convertHex v) \<le> Suc k"
proof (induction k arbitrary: v)
  case 0
  then show ?case by (simp add: convertHex_def convertHex_loop.simps [of v])
next
  case (Suc k)
  then have "length (convertHex (v div 16)) \<le> Suc k"
    by (simp add: less_mult_imp_div_less mult.commute)
  then show ?case by (simp add: convertHex_def convertHex_loop.simps [of v] Let_def)
qed

lemma length_convert: "\<bar>v\<bar> \<le> 2 ^ 64 \<Longrightarrow> length (convert v) \<le> 21"
proof -
  assume "\<bar>v\<bar> \<le> 2 ^ 64"
  then have "nat \<bar>v\<bar> < 10 ^ Suc 19" by simp
  then have "length (dec_nat (nat \<bar>v\<bar>)) \<le> 20" using length_dec_nat by fastforce
  then show ?thesis by (cases "v < 0") (simp_all add: convert_dec_int dec_int_def)
qed

section \<open>The buffer is never overrun\<close>

text \<open>The offset stays strictly inside the array, so that there is always room for a terminating zero.\<close>

definition fb_ok :: "FixedBuffer \<Rightarrow> bool" where
  "fb_ok b \<longleftrightarrow> fb_cur b < length (fb_data b)"

lemma poke_add:
  assumes "fb_ok b" and "n \<le> length cs" and "fb_cur b + length cs \<le> length (fb_data b)"
    and "fb_cur b + n < length (fb_data b)"
  obtains b' where "poke cs b = Some b'" and "fb_ok (fb_add n b')"
    and "fb_toString (fb_add n b') = fb_toString b @ take n cs"
    and "length (fb_data (fb_add n b')) = length (fb_data b)"
proof
  show "poke cs b = Some (b\<lparr>fb_data := blit (fb_cur b) cs (fb_data b)\<rparr>)"
    using assms(3) by (simp add: poke_def)
qed (use assms in \<open>simp_all add: fb_ok_def fb_add_def fb_toString_def fb_length_def blit_def\<close>)

text \<open>What an output operator promises: it does not leave the array, keeps the invariant, and appends
  its whole text or nothing.\<close>

definition writes :: "(FixedBuffer \<Rightarrow> FixedBuffer option) \<Rightarrow> string \<Rightarrow> FixedBuffer \<Rightarrow> bool" where
  "writes op cs b \<longleftrightarrow> (\<exists>b'. op b = Some b' \<and> fb_ok b' \<and> length (fb_data b') = length (fb_data b)
     \<and> (if fb_cur b + max 32 (length cs + 1) \<le> length (fb_data b) then fb_toString b' = fb_toString b @ cs
        else fb_toString b' \<in> {fb_toString b, fb_toString b @ cs}))"

lemma fb_append_writes: "fb_ok b \<Longrightarrow> writes (fb_append cs) cs b"
proof (cases "avail b > int (length cs)")
  case True
  assume ok: "fb_ok b"
  from True have room: "fb_cur b + length cs < length (fb_data b)" by (simp add: avail_def)
  then have room': "fb_cur b + length cs \<le> length (fb_data b)" by simp
  from poke_add [OF ok order.refl room' room] obtain b' where "poke cs b = Some b'"
    "fb_ok (fb_add (length cs) b')" "fb_toString (fb_add (length cs) b') = fb_toString b @ cs"
    "length (fb_data (fb_add (length cs) b')) = length (fb_data b)" by auto
  with True show ?thesis
    unfolding writes_def fb_append_def by (intro exI [of _ "fb_add (length cs) b'"]) simp
next
  case False
  assume "fb_ok b"
  with False show ?thesis by (auto simp: writes_def fb_append_def avail_def)
qed

lemma formatted_writes:
  assumes "fb_ok b" and "op = (\<lambda>b. if avail b \<ge> kMaxNumericSize
      then do { b' \<leftarrow> poke (cs @ [CHR 0x00]) b; Some (fb_add (length cs) b') } else Some b)"
    and "length cs < 32"
  shows "writes op cs b"
proof (cases "avail b \<ge> kMaxNumericSize")
  case True
  then have room: "fb_cur b + length (cs @ [CHR 0x00]) \<le> length (fb_data b)" "fb_cur b + length cs < length (fb_data b)"
    using assms(3) by (simp_all add: avail_def kMaxNumericSize_def)
  have "length cs \<le> length (cs @ [CHR 0x00])" by simp
  from poke_add [OF assms(1) this room] obtain b' where "poke (cs @ [CHR 0x00]) b = Some b'"
    "fb_ok (fb_add (length cs) b')" "fb_toString (fb_add (length cs) b') = fb_toString b @ cs"
    "length (fb_data (fb_add (length cs) b')) = length (fb_data b)" by auto
  with True show ?thesis
    unfolding writes_def assms(2) by (intro exI [of _ "fb_add (length cs) b'"]) simp
next
  case False
  with assms(1) show ?thesis by (simp add: writes_def assms(2) avail_def kMaxNumericSize_def)
qed

section \<open>A chain of output operators\<close>

text \<open>The overloads of \<^verbatim>\<open>operator<<\<close>; an item is the overload and its argument.\<close>

datatype log_item =
    LBool bool | LShort int | LUShort int | LInt int | LUInt int | LLong int | LULong int
  | LLongLong int | LULongLong int | LPointer nat | LFloat string | LDouble string | LChar char
  | LCString "string option" | LUCString "string option" | LString string | LPiece StringPiece
  | LBuffer FixedBuffer | LFmt string

fun put_item :: "log_item \<Rightarrow> FixedBuffer \<Rightarrow> FixedBuffer option" where
  "put_item (LBool v) b = ls_bool v b"
| "put_item (LShort v) b = ls_short v b"
| "put_item (LUShort v) b = ls_unsigned_short v b"
| "put_item (LInt v) b = ls_int v b"
| "put_item (LUInt v) b = ls_unsigned_int v b"
| "put_item (LLong v) b = ls_long v b"
| "put_item (LULong v) b = ls_unsigned_long v b"
| "put_item (LLongLong v) b = ls_long_long v b"
| "put_item (LULongLong v) b = ls_unsigned_long_long v b"
| "put_item (LPointer v) b = ls_pointer v b"
| "put_item (LFloat s) b = ls_float s b"
| "put_item (LDouble s) b = ls_double s b"
| "put_item (LChar c) b = ls_char c b"
| "put_item (LCString s) b = ls_cstring s b"
| "put_item (LUCString s) b = ls_unsigned_cstring s b"
| "put_item (LString s) b = ls_string s b"
| "put_item (LPiece s) b = ls_StringPiece s b"
| "put_item (LBuffer v) b = ls_Buffer v b"
| "put_item (LFmt s) b = do { f \<leftarrow> Fmt s; ls_Fmt f b }"

text \<open>The text an item stands for, and the values the C++ types allow.\<close>

fun item_text :: "log_item \<Rightarrow> string" where
  "item_text (LBool v) = (if v then ''1'' else ''0'')"
| "item_text (LShort v) = dec_int v"
| "item_text (LUShort v) = dec_int v"
| "item_text (LInt v) = dec_int v"
| "item_text (LUInt v) = dec_int v"
| "item_text (LLong v) = dec_int v"
| "item_text (LULong v) = dec_int v"
| "item_text (LLongLong v) = dec_int v"
| "item_text (LULongLong v) = dec_int v"
| "item_text (LPointer v) = ''0x'' @ convertHex v"
| "item_text (LFloat s) = s"
| "item_text (LDouble s) = s"
| "item_text (LChar c) = [c]"
| "item_text (LCString s) = (case s of Some cs \<Rightarrow> cs | None \<Rightarrow> ''(null)'')"
| "item_text (LUCString s) = (case s of Some cs \<Rightarrow> cs | None \<Rightarrow> ''(null)'')"
| "item_text (LString s) = s"
| "item_text (LPiece s) = s"
| "item_text (LBuffer v) = fb_toString v"
| "item_text (LFmt s) = s"

definition fits :: "nat \<Rightarrow> bool \<Rightarrow> int \<Rightarrow> bool" where
  "fits w signed v = (if signed then - (2 ^ (w - 1)) \<le> v \<and> v < 2 ^ (w - 1) else 0 \<le> v \<and> v < 2 ^ w)"

fun item_ok :: "log_item \<Rightarrow> bool" where
  "item_ok (LShort v) = fits 16 True v"
| "item_ok (LUShort v) = fits 16 False v"
| "item_ok (LInt v) = fits 32 True v"
| "item_ok (LUInt v) = fits 32 False v"
| "item_ok (LLong v) = fits 64 True v"
| "item_ok (LULong v) = fits 64 False v"
| "item_ok (LLongLong v) = fits 64 True v"
| "item_ok (LULongLong v) = fits 64 False v"
| "item_ok (LPointer v) = (v < 2 ^ 64)"
| "item_ok (LFloat s) = (length s < 32)"
| "item_ok (LDouble s) = (length s < 32)"
| "item_ok (LFmt s) = (length s < 32)"
| "item_ok _ = True"

lemma fits_bound: "fits w signed v \<Longrightarrow> w \<in> {16, 32, 64} \<Longrightarrow> length (convert v) < 32"
proof -
  assume "fits w signed v" "w \<in> {16, 32, 64}"
  then have "\<bar>v\<bar> \<le> 2 ^ 64" by (auto simp: fits_def abs_le_iff split: if_splits)
  then show ?thesis using length_convert [of v] by simp
qed

lemma formatInteger_writes: "fb_ok b \<Longrightarrow> length (convert v) < 32 \<Longrightarrow> writes (formatInteger v) (dec_int v) b"
  by (rule formatted_writes) (auto simp: formatInteger_def convert_dec_int)

lemma ls_pointer_writes:
  assumes "fb_ok b" and "v < 2 ^ 64"
  shows "writes (ls_pointer v) (''0x'' @ convertHex v) b"
proof -
  have "v < 16 ^ Suc 15" using assms(2) by simp
  then have "length (convertHex v) \<le> 16" using length_convertHex by fastforce
  then show ?thesis by (intro formatted_writes [OF assms(1)]) (auto simp: ls_pointer_def)
qed

lemma ls_double_writes: "fb_ok b \<Longrightarrow> length s < 32 \<Longrightarrow> writes (ls_double s) s b"
  by (rule formatted_writes) (auto simp: ls_double_def snprintf_def kMaxNumericSize_def)

lemmas ls_defs =
  ls_bool_def ls_int_def ls_unsigned_int_def ls_short_def ls_unsigned_short_def ls_long_def ls_unsigned_long_def
  ls_long_long_def ls_unsigned_long_long_def ls_float_def ls_char_def ls_cstring_def ls_unsigned_cstring_def
  ls_string_def ls_StringPiece_def ls_Buffer_def ls_append_def ls_Fmt_def Fmt_def

lemma put_item_cases:
  assumes "item_ok x"
  shows "(\<exists>v. put_item x = formatInteger v \<and> item_text x = dec_int v \<and> length (convert v) < 32)
       \<or> (\<exists>v. put_item x = ls_pointer v \<and> item_text x = ''0x'' @ convertHex v \<and> v < 2 ^ 64)
       \<or> (\<exists>s. put_item x = ls_double s \<and> item_text x = s \<and> length s < 32)
       \<or> put_item x = fb_append (item_text x)"
  using assms
  by (cases x) (auto simp: ls_defs snprintf_def fun_eq_iff fits_bound split: option.split)

lemma put_item_writes: "fb_ok b \<Longrightarrow> item_ok x \<Longrightarrow> writes (put_item x) (item_text x) b"
  using put_item_cases [of x] formatInteger_writes [of b] ls_pointer_writes [of b] ls_double_writes [of b]
    fb_append_writes [of b] by metis

text \<open>The contract of a bounded sink of text, and what follows for a chain of writes.\<close>

locale text_sink =
  fixes ok :: "'s \<Rightarrow> bool" and content :: "'s \<Rightarrow> string" and cap :: "'s \<Rightarrow> nat"
    and put :: "'a \<Rightarrow> 's \<Rightarrow> 's option" and valid :: "'a \<Rightarrow> bool" and text_of :: "'a \<Rightarrow> string"
  assumes put_total: "ok s \<Longrightarrow> valid x \<Longrightarrow> \<exists>s'. put x s = Some s' \<and> ok s' \<and> cap s' = cap s
      \<and> (content s' = content s \<or> content s' = content s @ text_of x)"
    and put_room: "ok s \<Longrightarrow> valid x \<Longrightarrow> length (content s) + max 32 (length (text_of x) + 1) \<le> cap s \<Longrightarrow> put x s = Some s' \<Longrightarrow>
      content s' = content s @ text_of x"
begin

lemma put_all_total:
  "ok s \<Longrightarrow> \<forall>x \<in> set xs. valid x \<Longrightarrow>
   \<exists>s' ys. put_all put xs s = Some s' \<and> ok s' \<and> cap s' = cap s \<and> subseq ys xs
     \<and> content s' = content s @ concat (map text_of ys)"
proof (induction xs arbitrary: s)
  case Nil
  then show ?case by (auto intro!: exI [of _ "[]"])
next
  case (Cons x xs)
  then obtain s' where s': "put x s = Some s'" "ok s'" "cap s' = cap s"
      "content s' = content s \<or> content s' = content s @ text_of x"
    using put_total [of s x] by auto
  from Cons.IH [OF s'(2)] Cons.prems(2) obtain s'' ys where ys: "put_all put xs s' = Some s''" "ok s''"
      "cap s'' = cap s'" "subseq ys xs" "content s'' = content s' @ concat (map text_of ys)" by auto
  from s'(4) show ?case
  proof
    assume "content s' = content s"
    with s' ys show ?thesis by (intro exI [of _ s''] exI [of _ ys]) (simp add: list_emb_Cons)
  next
    assume "content s' = content s @ text_of x"
    with s' ys show ?thesis by (intro exI [of _ s''] exI [of _ "x # ys"]) simp
  qed
qed

lemma put_all_room:
  "ok s \<Longrightarrow> \<forall>x \<in> set xs. valid x \<Longrightarrow> length (content s @ concat (map text_of xs)) + 32 \<le> cap s \<Longrightarrow>
   \<exists>s'. put_all put xs s = Some s' \<and> ok s' \<and> content s' = content s @ concat (map text_of xs)"
proof (induction xs arbitrary: s)
  case (Cons x xs)
  then obtain s' where s': "put x s = Some s'" "ok s'" "cap s' = cap s"
    using put_total [of s x] by auto
  moreover have "content s' = content s @ text_of x"
    using Cons.prems s'(1) by (intro put_room) auto
  ultimately show ?case using Cons.IH [of s'] Cons.prems by auto
qed simp

end

lemma length_fb_toString: "fb_ok b \<Longrightarrow> length (fb_toString b) = fb_cur b"
  by (simp add: fb_ok_def fb_toString_def fb_length_def)

interpretation ls: text_sink fb_ok fb_toString "\<lambda>b. length (fb_data b)" put_item item_ok item_text
proof
  fix s x
  assume "fb_ok s" "item_ok x"
  then have "writes (put_item x) (item_text x) s" by (rule put_item_writes)
  then show "\<exists>s'. put_item x s = Some s' \<and> fb_ok s' \<and> length (fb_data s') = length (fb_data s)
      \<and> (fb_toString s' = fb_toString s \<or> fb_toString s' = fb_toString s @ item_text x)"
    unfolding writes_def by (auto split: if_splits)
next
  fix s x s'
  assume "fb_ok s" "item_ok x" "length (fb_toString s) + max 32 (length (item_text x) + 1) \<le> length (fb_data s)"
    "put_item x s = Some s'"
  then show "fb_toString s' = fb_toString s @ item_text x"
    using put_item_writes [of s x] unfolding writes_def by (simp add: length_fb_toString)
qed

text \<open>\<^verbatim>\<open>convert\<close> prints the decimal representation of every integer, the least ones included
  (no negation overflows), in at most 21 characters for every 64-bit type; \<^verbatim>\<open>convertHex\<close> prints a
  hexadecimal number that denotes the value.\<close>

theorem convert_correct:
  assumes "\<bar>v\<bar> \<le> 2 ^ 64" and "p < 2 ^ 64"
  shows "convert v = dec_int v \<and> length (convert v) \<le> 21
       \<and> unhex (convertHex p) = p \<and> length (convertHex p) \<le> 16"
proof -
  have "p < 16 ^ Suc 15" using assms(2) by simp
  then have "length (convertHex p) \<le> 16" using length_convertHex by fastforce
  with length_convert [OF assms(1)] show ?thesis by (simp add: convert_dec_int unhex_convertHex)
qed

theorem convert_correct_witness: "convert (- 2147483648) = dec_int (- 2147483648) \<and> unhex (convertHex 255) = 255"
  using convert_correct [of "- 2147483648" 255] by simp

text \<open>C9: no chain of output operators writes outside the stream's buffer; what it holds afterwards is what
  it held, followed by the texts of some of the items, whole and in order; and all of the items
  when 32 bytes stay free.\<close>

theorem logstream_never_overruns:
  assumes "fb_ok b" and "\<forall>x \<in> set xs. item_ok x"
  shows "(\<exists>b' ys. put_all put_item xs b = Some b' \<and> fb_ok b' \<and> subseq ys xs
            \<and> fb_toString b' = fb_toString b @ concat (map item_text ys))
       \<and> (length (fb_toString b @ concat (map item_text xs)) + 32 \<le> length (fb_data b) \<longrightarrow>
            (\<exists>b'. put_all put_item xs b = Some b' \<and> fb_toString b' = fb_toString b @ concat (map item_text xs)))"
  using ls.put_all_total [OF assms] ls.put_all_room [OF assms] by blast

theorem logstream_never_overruns_witness:
  "\<exists>b' ys. put_all put_item [LInt (- 5), LString ''x''] (new_FixedBuffer (replicate kSmallBuffer (CHR 0x00))) = Some b'
     \<and> subseq ys [LInt (- 5), LString ''x''] \<and> fb_toString b' = concat (map item_text ys)"
  using logstream_never_overruns [of "new_FixedBuffer (replicate kSmallBuffer (CHR 0x00))" "[LInt (- 5), LString ''x'']"]
  by (auto simp: new_FixedBuffer_def fb_ok_def fits_def fb_toString_def fb_length_def kSmallBuffer_def)

end
