(* ===== verification/AsyncLog.thy ===== *)
theory AsyncLog
  imports LogStream Timestamp "HOL-Library.Sublist"
begin

text \<open>
  \<^verbatim>\<open>base/AsyncLogging.h\<close>, \<^verbatim>\<open>base/AsyncLogging.cc\<close>, \<^verbatim>\<open>base/LogFile.h\<close>, \<^verbatim>\<open>base/LogFile.cc\<close> and the \<^verbatim>\<open>AppendFile\<close> of
  \<^verbatim>\<open>base/FileUtil.cc\<close>. The threads that log and the thread that writes take turns at the points where the mutex
  is released: every operation of the front end is one step, a round of \<^verbatim>\<open>threadFunc\<close> is the test of \<^verbatim>\<open>running_\<close>,
  the exchange of buffers under the mutex (after a wait that may end at any time) and the writing. \<open>lf_time i\<close> is what
  the \<open>i\<close>-th call of \<^verbatim>\<open>time(2)\<close> returns, \<open>lf_fopen i\<close> whether the \<^verbatim>\<open>fopen\<close> of a file named after it succeeds,
  \<open>lf_fwrite i n\<close> how many of \<open>n\<close> bytes the \<open>i\<close>-th \<^verbatim>\<open>fwrite\<close> takes.
\<close>

section \<open>Files\<close>

text \<open>\<open>af_data\<close> is what \<^verbatim>\<open>stdio\<close> took, \<open>af_flushed\<close> how much of it \<^verbatim>\<open>fflush\<close> wrote out.\<close>

record AppendFile =
  af_name :: string
  af_data :: string
  af_flushed :: nat
  af_writtenBytes :: nat

text \<open>\<open>opened\<close> tells whether \<^verbatim>\<open>fopen\<close> returned a file; the constructor asserts it.\<close>

definition new_AppendFile :: "bool \<Rightarrow> string \<Rightarrow> AppendFile option" where
  "new_AppendFile opened filename = do {
     assert_that opened;
     Some \<lparr>af_name = filename, af_data = [], af_flushed = 0, af_writtenBytes = 0\<rparr>
   }"

definition af_write :: "(nat \<Rightarrow> nat \<Rightarrow> nat) \<Rightarrow> nat \<Rightarrow> string \<Rightarrow> AppendFile \<Rightarrow> nat \<times> AppendFile" where
  "af_write fwrite i logline f = (let x = fwrite i (length logline) in (x, f\<lparr>af_data := af_data f @ take x logline\<rparr>))"

text \<open>The loop after the first \<^verbatim>\<open>write\<close>: it ends when nothing remains or a write takes nothing. It also
  gives back the number of calls so far.\<close>

function af_append_loop :: "(nat \<Rightarrow> nat \<Rightarrow> nat) \<Rightarrow> nat \<Rightarrow> string \<Rightarrow> AppendFile \<Rightarrow> nat \<times> AppendFile" where
  "af_append_loop fwrite i remain f =
     (if remain = [] then (i, f)
      else let (x, f) = af_write fwrite i remain f
           in if x = 0 then (Suc i, f) else af_append_loop fwrite (Suc i) (drop x remain) f)"
  by pat_completeness auto
termination
  by (relation "measure (\<lambda>(fwrite, i, remain, f). length remain)") auto

declare af_append_loop.simps [simp del]

definition af_append :: "(nat \<Rightarrow> nat \<Rightarrow> nat) \<Rightarrow> nat \<Rightarrow> string \<Rightarrow> AppendFile \<Rightarrow> nat \<times> AppendFile" where
  "af_append fwrite i logline f =
     (let (n, f) = af_write fwrite i logline f;
          (i, f) = af_append_loop fwrite (Suc i) (drop n logline) f
      in (i, f\<lparr>af_writtenBytes := af_writtenBytes f + length logline\<rparr>))"

definition af_flush :: "AppendFile \<Rightarrow> AppendFile" where
  "af_flush f = f\<lparr>af_flushed := length (af_data f)\<rparr>"

text \<open>\<open>lf_closed\<close> are the files that were closed, oldest first; \<open>lf_file\<close> is \<^verbatim>\<open>file_\<close>, null before the first file.\<close>

record LogFile =
  lf_basename :: string
  lf_rollSize :: nat
  lf_flushInterval :: int
  lf_checkEveryN :: int
  lf_count :: int
  lf_startOfPeriod :: int
  lf_lastRoll :: int
  lf_lastFlush :: int
  lf_file :: "AppendFile option"
  lf_closed :: "AppendFile list"
  lf_hostname :: string
  lf_pid :: int
  lf_time :: "nat \<Rightarrow> int"
  lf_ticks :: nat
  lf_fopen :: "nat \<Rightarrow> bool"
  lf_fwrite :: "nat \<Rightarrow> nat \<Rightarrow> nat"
  lf_writes :: nat

definition kRollPerSeconds :: int where
  "kRollPerSeconds = 60 * 60 * 24"

text \<open>The time is the system clock's, which is in the range of \<^verbatim>\<open>gmtime_r\<close>.\<close>

definition getLogFileName :: "string \<Rightarrow> string \<Rightarrow> int \<Rightarrow> int \<Rightarrow> string" where
  "getLogFileName basename hostname pid tnow =
     (let tm = gm tnow in
      basename @ ''.'' @ fmt_0d 4 (tm_year tm + 1900) @ fmt_0d 2 (tm_mon tm + 1) @ fmt_0d 2 (tm_mday tm) @ ''-''
      @ fmt_0d 2 (tm_hour tm) @ fmt_0d 2 (tm_min tm) @ fmt_0d 2 (tm_sec tm) @ ''.''
      @ hostname @ snprintf 32 (''.'' @ dec_int pid) @ ''.log'')"

definition lf_tick :: "LogFile \<Rightarrow> int \<times> LogFile" where
  "lf_tick f = (lf_time f (lf_ticks f), f\<lparr>lf_ticks := Suc (lf_ticks f)\<rparr>)"

text \<open>\<^verbatim>\<open>file_.reset\<close> closes the file that was open, with the \<^verbatim>\<open>fflush\<close> of \<^verbatim>\<open>fclose\<close>, after the new one is open.\<close>

definition rollFile :: "LogFile \<Rightarrow> (bool \<times> LogFile) option" where
  "rollFile f =
     (let (tnow, f) = lf_tick f;
          filename = getLogFileName (lf_basename f) (lf_hostname f) (lf_pid f) tnow;
          start = cdiv tnow kRollPerSeconds * kRollPerSeconds
      in if tnow > lf_lastRoll f
         then do {
           let f = f\<lparr>lf_lastRoll := tnow, lf_lastFlush := tnow, lf_startOfPeriod := start\<rparr>;
           file \<leftarrow> new_AppendFile (lf_fopen f (lf_ticks f)) filename;
           Some (True, f\<lparr>lf_closed := lf_closed f @ (case lf_file f of None \<Rightarrow> [] | Some old \<Rightarrow> [af_flush old]),
                         lf_file := Some file\<rparr>)
         }
         else Some (False, f))"

text \<open>The constructor: a slash in the name and a failing \<^verbatim>\<open>fopen\<close> abort. If the clock does not show a positive time
  then there is no file.\<close>

definition new_LogFile ::
    "string \<Rightarrow> nat \<Rightarrow> int \<Rightarrow> int \<Rightarrow> string \<Rightarrow> int \<Rightarrow> (nat \<Rightarrow> int) \<Rightarrow> (nat \<Rightarrow> bool) \<Rightarrow> (nat \<Rightarrow> nat \<Rightarrow> nat) \<Rightarrow> LogFile option" where
  "new_LogFile basename rollSize flushInterval checkEveryN hostname pid tm fo fw = do {
     assert_that (CHR ''/'' \<notin> set basename);
     (_, f) \<leftarrow> rollFile \<lparr>lf_basename = basename, lf_rollSize = rollSize, lf_flushInterval = flushInterval,
        lf_checkEveryN = checkEveryN, lf_count = 0, lf_startOfPeriod = 0, lf_lastRoll = 0, lf_lastFlush = 0,
        lf_file = None, lf_closed = [], lf_hostname = hostname, lf_pid = pid, lf_time = tm, lf_ticks = 0,
        lf_fopen = fo, lf_fwrite = fw, lf_writes = 0\<rparr>;
     Some f
   }"

text \<open>Every use of \<^verbatim>\<open>file_\<close> dereferences the pointer: \<open>None\<close> if it is null.\<close>

definition append_unlocked :: "string \<Rightarrow> LogFile \<Rightarrow> LogFile option" where
  "append_unlocked logline f = do {
     file \<leftarrow> lf_file f;
     let (i, file') = af_append (lf_fwrite f) (lf_writes f) logline file;
     let f = f\<lparr>lf_file := Some file', lf_writes := i\<rparr>;
     if af_writtenBytes file' > lf_rollSize f then map_option snd (rollFile f)
     else do {
       let f = f\<lparr>lf_count := lf_count f + 1\<rparr>;
       if lf_count f \<ge> lf_checkEveryN f
       then do {
         let (tnow, f) = lf_tick (f\<lparr>lf_count := 0\<rparr>);
         let thisPeriod = cdiv tnow kRollPerSeconds * kRollPerSeconds;
         if thisPeriod \<noteq> lf_startOfPeriod f then map_option snd (rollFile f)
         else if tnow - lf_lastFlush f > lf_flushInterval f
         then Some (f\<lparr>lf_lastFlush := tnow, lf_file := Some (af_flush file')\<rparr>)
         else Some f
       }
       else Some f
     }
   }"

text \<open>\<^verbatim>\<open>append\<close> and \<^verbatim>\<open>flush\<close> take the mutex, if the object has one, around the same work.\<close>

definition lf_append :: "string \<Rightarrow> LogFile \<Rightarrow> LogFile option" where
  "lf_append logline f = append_unlocked logline f"

definition lf_flush :: "LogFile \<Rightarrow> LogFile option" where
  "lf_flush f = do { file \<leftarrow> lf_file f; Some (f\<lparr>lf_file := Some (af_flush file)\<rparr>) }"

section \<open>The logger\<close>

text \<open>Where the thread is: at the test of the loop, before the exchange, before the writing, or at its end.\<close>

datatype log_pc = AtLoop | AtWait | AtWrite | Done

record AsyncLogging =
  al_running :: bool
  al_currentBuffer :: "FixedBuffer option"
  al_nextBuffer :: "FixedBuffer option"
  al_buffers :: "FixedBuffer list"
  th_pc :: log_pc
  th_newBuffer1 :: "FixedBuffer option"
  th_newBuffer2 :: "FixedBuffer option"
  th_buffersToWrite :: "FixedBuffer list"
  th_output :: LogFile

text \<open>The constructor and \<^verbatim>\<open>start\<close>, up to the first test of the loop; \<open>mem\<close> is the memory of the new buffers.\<close>

definition start_AsyncLogging :: "string \<Rightarrow> LogFile \<Rightarrow> AsyncLogging" where
  "start_AsyncLogging mem output =
     (let b = fb_bzero (new_FixedBuffer mem) in
      \<lparr>al_running = True, al_currentBuffer = Some b, al_nextBuffer = Some b, al_buffers = [], th_pc = AtLoop,
       th_newBuffer1 = Some b, th_newBuffer2 = Some b, th_buffersToWrite = [], th_output = output\<rparr>)"

definition al_append :: "string \<Rightarrow> string \<Rightarrow> AsyncLogging \<Rightarrow> AsyncLogging option" where
  "al_append mem logline s = do {
     cur \<leftarrow> al_currentBuffer s;
     if avail cur > int (length logline)
     then do { cur \<leftarrow> fb_append logline cur; Some (s\<lparr>al_currentBuffer := Some cur\<rparr>) }
     else do {
       let s = s\<lparr>al_buffers := al_buffers s @ [cur]\<rparr>;
       let (cur, s) = (case al_nextBuffer s of Some b \<Rightarrow> (b, s\<lparr>al_nextBuffer := None\<rparr>) | None \<Rightarrow> (new_FixedBuffer mem, s));
       cur \<leftarrow> fb_append logline cur;
       Some (s\<lparr>al_currentBuffer := Some cur\<rparr>)
     }
   }"

definition al_stop :: "AsyncLogging \<Rightarrow> AsyncLogging" where
  "al_stop s = s\<lparr>al_running := False\<rparr>"

text \<open>The head of the loop, with the assertions of the body and the last flush.\<close>

definition al_loop :: "AsyncLogging \<Rightarrow> AsyncLogging option" where
  "al_loop s =
     (if al_running s then do {
        b1 \<leftarrow> th_newBuffer1 s;
        assert_that (fb_length b1 = 0);
        b2 \<leftarrow> th_newBuffer2 s;
        assert_that (fb_length b2 = 0);
        assert_that (th_buffersToWrite s = []);
        Some (s\<lparr>th_pc := AtWait\<rparr>)
      }
      else do { output \<leftarrow> lf_flush (th_output s); Some (s\<lparr>th_output := output, th_pc := Done\<rparr>) })"

definition al_exchange :: "AsyncLogging \<Rightarrow> AsyncLogging option" where
  "al_exchange s = do {
     cur \<leftarrow> al_currentBuffer s;
     let s = s\<lparr>al_buffers := al_buffers s @ [cur]\<rparr>;
     let s = s\<lparr>al_currentBuffer := th_newBuffer1 s, th_newBuffer1 := None\<rparr>;
     let s = s\<lparr>th_buffersToWrite := al_buffers s, al_buffers := th_buffersToWrite s\<rparr>;
     let s = (if al_nextBuffer s = None then s\<lparr>al_nextBuffer := th_newBuffer2 s, th_newBuffer2 := None\<rparr> else s);
     Some (s\<lparr>th_pc := AtWrite\<rparr>)
   }"

definition dropped_message :: "Timestamp \<Rightarrow> nat \<Rightarrow> string" where
  "dropped_message tnow n =
     snprintf 256 (''Dropped log messages at '' @ toFormattedString tnow True @ '', '' @ dec_nat n @ '' larger buffers'' @ [CHR 0x0A])"

text \<open>Refilling one of the two spare buffers from the written ones.\<close>

definition take_back :: "FixedBuffer option \<Rightarrow> FixedBuffer list \<Rightarrow> (FixedBuffer option \<times> FixedBuffer list) option" where
  "take_back spare bufs =
     (if spare = None then do { assert_that (bufs \<noteq> []); Some (Some (fb_reset (last bufs)), butlast bufs) } else Some (spare, bufs))"

definition al_write :: "Timestamp \<Rightarrow> AsyncLogging \<Rightarrow> AsyncLogging option" where
  "al_write tnow s = do {
     let bufs = th_buffersToWrite s;
     let output = th_output s;
     assert_that (bufs \<noteq> []);
     (bufs, output) \<leftarrow> (if length bufs > 25
        then do { output \<leftarrow> lf_append (dropped_message tnow (length bufs - 2)) output; Some (take 2 bufs, output) }
        else Some (bufs, output));
     output \<leftarrow> put_all lf_append (map fb_toString bufs) output;
     let bufs = (if length bufs > 2 then take 2 bufs else bufs);
     (new1, bufs) \<leftarrow> take_back (th_newBuffer1 s) bufs;
     (new2, bufs) \<leftarrow> take_back (th_newBuffer2 s) bufs;
     output \<leftarrow> lf_flush output;
     Some (s\<lparr>th_newBuffer1 := new1, th_newBuffer2 := new2, th_buffersToWrite := [], th_output := output, th_pc := AtLoop\<rparr>)
   }"

section \<open>Files keep what is appended\<close>

text \<open>A disk that has not failed: every \<^verbatim>\<open>fwrite\<close> of something takes at least one byte, and never more than it is given.\<close>

definition fwrite_ok :: "(nat \<Rightarrow> nat \<Rightarrow> nat) \<Rightarrow> bool" where
  "fwrite_ok fw \<longleftrightarrow> (\<forall>i n. fw i n \<le> n \<and> (0 < n \<longrightarrow> 0 < fw i n))"

definition lf_data :: "LogFile \<Rightarrow> string" where
  "lf_data f = concat (map af_data (lf_closed f)) @ (case lf_file f of None \<Rightarrow> [] | Some file \<Rightarrow> af_data file)"

text \<open>A log on a disk that works: a file is open, every \<^verbatim>\<open>fopen\<close> succeeds and every \<^verbatim>\<open>fwrite\<close> takes something.\<close>

definition disk_ok :: "LogFile \<Rightarrow> bool" where
  "disk_ok f \<longleftrightarrow> lf_file f \<noteq> None \<and> (\<forall>i. lf_fopen f i) \<and> fwrite_ok (lf_fwrite f)"

lemma af_append_loop_data: "fwrite_ok fw \<Longrightarrow> af_data (snd (af_append_loop fw i r f)) = af_data f @ r"
proof (induction fw i r f rule: af_append_loop.induct)
  case (1 fw i r f)
  show ?case
  proof (cases "r = []")
    case False
    let ?x = "fw i (length r)"
    let ?f = "f\<lparr>af_data := af_data f @ take ?x r\<rparr>"
    have w: "af_write fw i r f = (?x, ?f)" by (simp add: af_write_def Let_def)
    have x: "0 < ?x" using "1.prems" False by (simp add: fwrite_ok_def)
    then have "af_append_loop fw i r f = af_append_loop fw (Suc i) (drop ?x r) ?f"
      using False by (subst af_append_loop.simps) (simp add: w)
    moreover have "af_data (snd (af_append_loop fw (Suc i) (drop ?x r) ?f)) = af_data ?f @ drop ?x r"
      using "1.IH" [OF False w [symmetric]] "1.prems" x by simp
    ultimately show ?thesis by simp
  qed (simp add: af_append_loop.simps)
qed

lemma af_append_data:
  assumes "fwrite_ok fw"
  shows "af_data (snd (af_append fw i l f)) = af_data f @ l"
proof -
  let ?x = "fw i (length l)"
  let ?f = "f\<lparr>af_data := af_data f @ take ?x l\<rparr>"
  have w: "af_write fw i l f = (?x, ?f)" by (simp add: af_write_def Let_def)
  show ?thesis using af_append_loop_data [OF assms, of "Suc i" "drop ?x l" ?f]
    by (simp add: af_append_def w case_prod_beta)
qed

lemma rollFile_ok:
  assumes "disk_ok f"
  shows "\<exists>ok f'. rollFile f = Some (ok, f') \<and> disk_ok f' \<and> lf_data f' = lf_data f"
  using assms
  by (auto simp: rollFile_def lf_tick_def lf_data_def new_AppendFile_def af_flush_def disk_ok_def Let_def)

lemma lf_append_ok:
  assumes "disk_ok f"
  shows "\<exists>f'. lf_append l f = Some f' \<and> disk_ok f' \<and> lf_data f' = lf_data f @ l"
proof -
  from assms obtain fl where fl: "lf_file f = Some fl" and fw: "fwrite_ok (lf_fwrite f)"
    by (auto simp: disk_ok_def)
  obtain i g where g: "af_append (lf_fwrite f) (lf_writes f) l fl = (i, g)" by fastforce
  with af_append_data [OF fw, of "lf_writes f" l fl] have ag: "af_data g = af_data fl @ l" by simp
  let ?f = "f\<lparr>lf_file := Some g, lf_writes := i\<rparr>"
  let ?c = "\<lambda>n. ?f\<lparr>lf_count := n, lf_ticks := Suc (lf_ticks ?f)\<rparr>"
  have d: "disk_ok ?f" "lf_data ?f = lf_data f @ l" "disk_ok (?c n)" "lf_data (?c n) = lf_data f @ l" for n
    using assms fl ag by (simp_all add: disk_ok_def lf_data_def)
  have rolls: "\<exists>f'. map_option snd (rollFile h) = Some f' \<and> disk_ok f' \<and> lf_data f' = lf_data f @ l"
    if "disk_ok h" "lf_data h = lf_data f @ l" for h
    using rollFile_ok [OF that(1)] that(2) by auto
  show ?thesis
    unfolding lf_append_def append_unlocked_def fl g Let_def prod.case bind.bind_lunit lf_tick_def
    using d rolls [OF d(1,2)] rolls [OF d(3,4)]
    by (auto simp: disk_ok_def lf_data_def af_flush_def ag)
qed

lemma lf_appends_ok:
  "disk_ok f \<Longrightarrow> \<exists>f'. put_all lf_append ls f = Some f' \<and> disk_ok f' \<and> lf_data f' = lf_data f @ concat ls"
proof (induction ls arbitrary: f)
  case (Cons l ls)
  from lf_append_ok [OF Cons.prems, of l] obtain g where "lf_append l f = Some g" "disk_ok g" "lf_data g = lf_data f @ l" by blast
  with Cons.IH [of g] show ?case by auto
qed simp

lemma lf_flush_ok:
  assumes "disk_ok f"
  shows "\<exists>f'. lf_flush f = Some f' \<and> disk_ok f' \<and> lf_data f' = lf_data f"
  using assms by (auto simp: lf_flush_def lf_data_def af_flush_def disk_ok_def)

section \<open>Invariant of the logger\<close>

definition large :: "FixedBuffer \<Rightarrow> bool" where
  "large b \<longleftrightarrow> fb_ok b \<and> length (fb_data b) = kLargeBuffer"

definition spare :: "FixedBuffer option \<Rightarrow> bool" where
  "spare x \<longleftrightarrow> (\<exists>b. x = Some b \<and> large b \<and> fb_length b = 0)"

definition al_inv :: "AsyncLogging \<Rightarrow> bool" where
  "al_inv s \<longleftrightarrow> disk_ok (th_output s)
     \<and> (\<exists>cur. al_currentBuffer s = Some cur \<and> large cur) \<and> list_all large (al_buffers s) \<and> list_all large (th_buffersToWrite s)
     \<and> (al_nextBuffer s = None \<and> al_buffers s \<noteq> [] \<or> spare (al_nextBuffer s))
     \<and> (if th_pc s = AtWrite
        then th_newBuffer1 s = None \<and> th_buffersToWrite s \<noteq> []
          \<and> (th_newBuffer2 s = None \<and> 2 \<le> length (th_buffersToWrite s) \<or> spare (th_newBuffer2 s))
        else spare (th_newBuffer1 s) \<and> spare (th_newBuffer2 s) \<and> th_buffersToWrite s = [])"

text \<open>The lines on their way, in order: in the files, in the hands of the thread, in the full buffers and in the current one.\<close>

definition al_unwritten :: "AsyncLogging \<Rightarrow> string" where
  "al_unwritten s = concat (map fb_toString (al_buffers s)) @ (case al_currentBuffer s of Some b \<Rightarrow> fb_toString b | None \<Rightarrow> [])"

definition al_stream :: "AsyncLogging \<Rightarrow> string" where
  "al_stream s = lf_data (th_output s) @ concat (map fb_toString (th_buffersToWrite s)) @ al_unwritten s"

definition fits :: "string \<Rightarrow> string" where
  "fits line = (if length line < kLargeBuffer then line else [])"

text \<open>What \<open>fb_append\<close> does to a large buffer.\<close>

lemma fb_append_large:
  assumes "large b"
  shows "\<exists>b'. fb_append l b = Some b' \<and> large b' \<and> fb_toString b' = fb_toString b @ (if int (length l) < avail b then l else [])"
proof (cases "int (length l) < avail b")
  case False
  with assms show ?thesis by (simp add: fb_append_def)
next
  case True
  then have room: "fb_cur b + length l < length (fb_data b)" by (simp add: avail_def)
  have ok: "fb_ok b" using assms by (simp add: large_def)
  obtain b' where "poke l b = Some b'" "fb_ok (fb_add (length l) b')" "length (fb_data (fb_add (length l) b')) = length (fb_data b)"
      "fb_toString (fb_add (length l) b') = fb_toString b @ l"
    by (rule poke_add [OF ok, of "length l" l]) (use room in simp_all)
  with True assms show ?thesis by (simp add: fb_append_def large_def)
qed

lemma spare_None [simp]: "\<not> spare None"
  by (simp add: spare_def)

lemma spare_text: "large b \<Longrightarrow> fb_length b = 0 \<Longrightarrow> fb_toString b = []"
  by (simp add: fb_toString_def)

lemma new_large: "length mem = kLargeBuffer \<Longrightarrow> large (new_FixedBuffer mem) \<and> fb_length (new_FixedBuffer mem) = 0"
  by (simp add: large_def fb_ok_def new_FixedBuffer_def fb_length_def kLargeBuffer_def)

lemma reset_large: "large b \<Longrightarrow> spare (Some (fb_reset b))"
  by (auto simp: spare_def large_def fb_ok_def fb_reset_def fb_length_def)

lemma fresh_append:
  assumes "large b" and "fb_length b = 0"
  shows "\<exists>b'. fb_append l b = Some b' \<and> large b' \<and> fb_toString b' = fits l"
  using fb_append_large [OF assms(1), of l] assms by (auto simp: fits_def avail_def large_def fb_length_def fb_toString_def)

lemma al_append_ok:
  assumes inv: "al_inv s" and mem: "length mem = kLargeBuffer"
  shows "\<exists>s'. al_append mem line s = Some s' \<and> al_inv s' \<and> al_stream s' = al_stream s @ fits line
     \<and> th_pc s' = th_pc s \<and> al_running s' = al_running s \<and> th_output s' = th_output s \<and> th_buffersToWrite s' = th_buffersToWrite s"
proof -
  from inv obtain cur where cur: "al_currentBuffer s = Some cur" "large cur" by (auto simp: al_inv_def)
  show ?thesis
  proof (cases "avail cur > int (length line)")
    case True
    with fb_append_large [OF cur(2), of line] obtain cur' where c': "fb_append line cur = Some cur'" "large cur'" "fb_toString cur' = fb_toString cur @ line"
      by auto
    have "length line < kLargeBuffer" using True cur(2) by (simp add: avail_def large_def)
    then have f: "fits line = line" by (simp add: fits_def)
    have "al_append mem line s = Some (s\<lparr>al_currentBuffer := Some cur'\<rparr>)" using cur(1) c'(1) True by (simp add: al_append_def)
    moreover have "al_inv (s\<lparr>al_currentBuffer := Some cur'\<rparr>)" using inv c'(2) by (simp add: al_inv_def)
    ultimately show ?thesis using cur(1) c'(3) f by (simp add: al_stream_def al_unwritten_def)
  next
    case False
    define nxt where "nxt = (case al_nextBuffer s of Some b \<Rightarrow> b | None \<Rightarrow> new_FixedBuffer mem)"
    have "large nxt \<and> fb_length nxt = 0"
      using inv new_large [OF mem] by (cases "al_nextBuffer s") (auto simp: nxt_def al_inv_def spare_def)
    then obtain n' where n': "fb_append line nxt = Some n'" "large n'" "fb_toString n' = fits line" using fresh_append by blast
    let ?s = "s\<lparr>al_buffers := al_buffers s @ [cur], al_nextBuffer := None, al_currentBuffer := Some n'\<rparr>"
    have "al_append mem line s = Some ?s"
      using cur(1) False n'(1) by (cases "al_nextBuffer s") (simp_all add: al_append_def nxt_def)
    moreover have "al_inv ?s" using inv cur(2) n'(2) by (simp add: al_inv_def)
    ultimately show ?thesis using cur(1) n'(3) by (simp add: al_stream_def al_unwritten_def)
  qed
qed

lemma al_loop_ok:
  assumes "al_inv s" and "th_pc s = AtLoop"
  shows "\<exists>s'. al_loop s = Some s' \<and> al_inv s' \<and> al_stream s' = al_stream s \<and> th_pc s' = (if al_running s then AtWait else Done)
     \<and> al_unwritten s' = al_unwritten s \<and> lf_data (th_output s') = lf_data (th_output s)"
proof (cases "al_running s")
  case True
  with assms have "al_loop s = Some (s\<lparr>th_pc := AtWait\<rparr>)" by (auto simp: al_loop_def al_inv_def spare_def)
  with assms True show ?thesis by (simp add: al_inv_def al_stream_def al_unwritten_def)
next
  case False
  from assms(1) have "disk_ok (th_output s)" by (simp add: al_inv_def)
  from lf_flush_ok [OF this] obtain out where "lf_flush (th_output s) = Some out" "disk_ok out" "lf_data out = lf_data (th_output s)"
    by blast
  with False assms show ?thesis by (simp add: al_loop_def al_inv_def al_stream_def al_unwritten_def)
qed

lemma al_exchange_ok:
  assumes "al_inv s" and "th_pc s = AtWait"
  shows "\<exists>s'. al_exchange s = Some s' \<and> al_inv s' \<and> al_stream s' = al_stream s \<and> th_pc s' = AtWrite \<and> al_running s' = al_running s
     \<and> th_output s' = th_output s"
proof -
  from assms obtain cur b1 b2 where c: "al_currentBuffer s = Some cur" "large cur" "th_newBuffer1 s = Some b1" "large b1" "fb_length b1 = 0"
    "th_newBuffer2 s = Some b2" "large b2" "fb_length b2 = 0" "th_buffersToWrite s = []"
    by (auto simp: al_inv_def spare_def)
  show ?thesis
  proof (cases "al_nextBuffer s")
    case None
    with assms c show ?thesis
      by (cases "al_buffers s") (auto simp: al_exchange_def al_inv_def al_stream_def al_unwritten_def spare_def spare_text [of b1] Let_def)
  next
    case (Some nb)
    with assms c show ?thesis
      by (auto simp: al_exchange_def al_inv_def al_stream_def al_unwritten_def spare_def spare_text [of b1] Let_def)
  qed
qed

lemma take_back_ok:
  assumes "list_all large bufs" and "spare x \<or> x = None \<and> bufs \<noteq> []"
  shows "\<exists>y rest. take_back x bufs = Some (y, rest) \<and> spare y \<and> list_all large rest \<and> length rest + (if x = None then 1 else 0) = length bufs"
proof (cases x)
  case None
  with assms have "bufs \<noteq> []" "large (last bufs)" "list_all large (butlast bufs)"
    by (auto simp: list_all_iff dest: in_set_butlastD)
  with None show ?thesis by (simp add: take_back_def reset_large)
next
  case (Some b)
  with assms show ?thesis by (simp add: take_back_def)
qed

text \<open>What one round of writing adds to the files: all the buffers the thread took, or, when there are more than 25, a
  message and the first two of them.\<close>

definition round_text :: "Timestamp \<times> string list \<Rightarrow> string" where
  "round_text r =
     (let (tnow, bufs) = r in
      if length bufs \<le> 25 then concat bufs else dropped_message tnow (length bufs - 2) @ concat (take 2 bufs))"

lemma al_write_ok:
  assumes inv: "al_inv s" and pc: "th_pc s = AtWrite"
  shows "\<exists>s'. al_write tnow s = Some s' \<and> al_inv s' \<and> th_pc s' = AtLoop \<and> al_running s' = al_running s
     \<and> al_unwritten s' = al_unwritten s \<and> th_buffersToWrite s' = []
     \<and> lf_data (th_output s') = lf_data (th_output s) @ round_text (tnow, map fb_toString (th_buffersToWrite s))"
proof -
  let ?bufs = "th_buffersToWrite s" and ?out = "th_output s"
  let ?kept = "if length ?bufs > 25 then take 2 ?bufs else ?bufs"
  let ?two = "if length ?kept > 2 then take 2 ?kept else ?kept"
  let ?msg = "if length ?bufs > 25 then dropped_message tnow (length ?bufs - 2) else []"
  have i: "disk_ok ?out" "list_all large ?bufs" "?bufs \<noteq> []" "th_newBuffer1 s = None"
    "th_newBuffer2 s = None \<and> 2 \<le> length ?bufs \<or> spare (th_newBuffer2 s)" using inv pc by (auto simp: al_inv_def)
  from lf_append_ok [OF i(1), of "dropped_message tnow (length ?bufs - 2)"] obtain out1 where
    first: "(if length ?bufs > 25
        then do { output \<leftarrow> lf_append (dropped_message tnow (length ?bufs - 2)) ?out; Some (take 2 ?bufs, output) }
        else Some (?bufs, ?out)) = Some (?kept, out1)" "disk_ok out1" "lf_data out1 = lf_data ?out @ ?msg"
    using i(1) by (cases "length ?bufs > 25") auto
  from lf_appends_ok [OF first(2), of "map fb_toString ?kept"] obtain out2 where
    out2: "put_all lf_append (map fb_toString ?kept) out1 = Some out2" "disk_ok out2"
      "lf_data out2 = lf_data out1 @ concat (map fb_toString ?kept)" by blast
  from lf_flush_ok [OF out2(2)] obtain out3 where out3: "lf_flush out2 = Some out3" "disk_ok out3" "lf_data out3 = lf_data out2" by blast
  have data: "lf_data out3 = lf_data ?out @ round_text (tnow, map fb_toString ?bufs)"
    using out3(3) out2(3) first(3) by (simp add: round_text_def take_map)
  have two: "list_all large ?two" "?two \<noteq> []" "th_newBuffer2 s = None \<Longrightarrow> 2 \<le> length ?two"
    using i(2,3,5) by (auto simp: list_all_iff dest!: in_set_takeD)
  obtain n1 r1 where t1: "take_back None ?two = Some (n1, r1)" "spare n1" "list_all large r1" "Suc (length r1) = length ?two"
    using take_back_ok [of ?two None] two(1,2) by auto
  have "spare (th_newBuffer2 s) \<or> th_newBuffer2 s = None \<and> r1 \<noteq> []" using i(5) two(3) t1(4) by auto
  from take_back_ok [OF t1(3) this] obtain n2 r2 where t2: "take_back (th_newBuffer2 s) r1 = Some (n2, r2)" "spare n2" by blast
  let ?s = "s\<lparr>th_newBuffer1 := n1, th_newBuffer2 := n2, th_buffersToWrite := [], th_output := out3, th_pc := AtLoop\<rparr>"
  have "al_write tnow s = Some ?s"
    unfolding al_write_def Let_def first(1) i(4) bind.bind_lunit prod.case out2(1) t1(1) t2(1) out3(1)
    using i(3) by simp
  moreover have "al_inv ?s" using inv out3(2) t1(2) t2(2) by (simp add: al_inv_def)
  ultimately show ?thesis using data by (simp add: al_unwritten_def)
qed

section \<open>Runs\<close>

text \<open>\<open>al_reach s log rounds\<close>: after some interleaving of the logging threads and the writing thread on a disk that works,
  \<open>log\<close> is the concatenation of the lines logged, and \<open>rounds\<close> are the rounds in which the thread wrote, each with the
  time it read and the contents of the buffers it had taken.\<close>

inductive al_reach :: "AsyncLogging \<Rightarrow> string \<Rightarrow> (Timestamp \<times> string list) list \<Rightarrow> bool" where
  log_start: "length mem = kLargeBuffer \<Longrightarrow> fwrite_ok fw \<Longrightarrow> (\<And>i. fo i) \<Longrightarrow> 0 < tm 0
    \<Longrightarrow> new_LogFile basename rollSize flushInterval checkEveryN hostname pid tm fo fw = Some output
    \<Longrightarrow> al_reach (start_AsyncLogging mem output) [] []"
| log_append: "al_reach s log rounds \<Longrightarrow> length mem = kLargeBuffer \<Longrightarrow> al_append mem line s = Some s'
    \<Longrightarrow> al_reach s' (log @ fits line) rounds"
| log_stop: "al_reach s log rounds \<Longrightarrow> al_reach (al_stop s) log rounds"
| log_loop: "al_reach s log rounds \<Longrightarrow> th_pc s = AtLoop \<Longrightarrow> al_loop s = Some s' \<Longrightarrow> al_reach s' log rounds"
| log_exchange: "al_reach s log rounds \<Longrightarrow> th_pc s = AtWait \<Longrightarrow> al_exchange s = Some s' \<Longrightarrow> al_reach s' log rounds"
| log_write: "al_reach s log rounds \<Longrightarrow> th_pc s = AtWrite \<Longrightarrow> al_write tnow s = Some s'
    \<Longrightarrow> al_reach s' log (rounds @ [(tnow, map fb_toString (th_buffersToWrite s))])"

lemma new_LogFile_empty:
  "new_LogFile basename rollSize flushInterval checkEveryN hostname pid tm fo fw = Some f \<Longrightarrow> fwrite_ok fw
   \<Longrightarrow> (\<And>i. fo i) \<Longrightarrow> 0 < tm 0 \<Longrightarrow> lf_data f = [] \<and> disk_ok f"
  by (auto simp: new_LogFile_def rollFile_def lf_tick_def lf_data_def new_AppendFile_def disk_ok_def Let_def abort_elims
      split: if_splits)

text \<open>Every line is in a buffer of a round, in the hands of the thread or in a buffer that waits; and the files hold the texts of
  the rounds.\<close>

lemma al_reach_inv:
  "al_reach s log rounds \<Longrightarrow> al_inv s \<and> lf_data (th_output s) = concat (map round_text rounds)
     \<and> concat (concat (map snd rounds)) @ concat (map fb_toString (th_buffersToWrite s)) @ al_unwritten s = log"
proof (induction rule: al_reach.induct)
  case (log_start mem fw fo tm basename rollSize flushInterval checkEveryN hostname pid outp)
  have b: "spare (Some (fb_bzero (new_FixedBuffer mem)))" "fb_toString (fb_bzero (new_FixedBuffer mem)) = []"
    using log_start(1) by (auto simp: spare_def large_def fb_ok_def fb_bzero_def new_FixedBuffer_def fb_length_def kLargeBuffer_def fb_toString_def)
  with new_LogFile_empty [OF log_start(5,2,3,4)] show ?case
    by (auto simp: start_AsyncLogging_def al_inv_def al_unwritten_def spare_def Let_def)
next
  case (log_append s log rounds mem line s')
  with al_append_ok [of s mem line] show ?case by (auto simp: al_stream_def)
next
  case (log_stop s log rounds)
  then show ?case by (simp add: al_stop_def al_inv_def al_unwritten_def)
next
  case (log_loop s log rounds s')
  with al_loop_ok [of s] show ?case by (auto simp: al_stream_def)
next
  case (log_exchange s log rounds s')
  with al_exchange_ok [of s] show ?case by (auto simp: al_stream_def)
next
  case (log_write s log rounds tnow s')
  with al_write_ok [of s tnow] show ?case by auto
qed

section \<open>Properties\<close>

text \<open>C21: the logger neither reorders nor duplicates, and loses exactly the buffers it reports. At any time the lines logged so
  far that fit a buffer are, in order, the contents of the buffers taken in the rounds of the writing thread, of those it
  holds and of those that wait; and the log files, rolled or not, hold for each round all its buffers or, if there were
  more than 25, a message with the number dropped and the first two. No assertion fails, whatever the interleaving, on a
  disk where \<^verbatim>\<open>fopen\<close> succeeds and \<^verbatim>\<open>fwrite\<close> takes something.\<close>

theorem async_logging:
  assumes "al_reach s log rounds"
  shows "concat (concat (map snd rounds)) @ concat (map fb_toString (th_buffersToWrite s)) @ al_unwritten s = log
    \<and> lf_data (th_output s) = concat (map round_text rounds)
    \<and> (length mem = kLargeBuffer \<longrightarrow> al_append mem line s \<noteq> None)
    \<and> (th_pc s = AtLoop \<longrightarrow> al_loop s \<noteq> None) \<and> (th_pc s = AtWait \<longrightarrow> al_exchange s \<noteq> None) \<and> (th_pc s = AtWrite \<longrightarrow> al_write tnow s \<noteq> None)"
proof -
  note i = al_reach_inv [OF assms]
  then show ?thesis
    using al_append_ok [of s mem line] al_loop_ok [of s] al_exchange_ok [of s] al_write_ok [of s tnow] by auto
qed

definition ex_mem :: string where
  "ex_mem = replicate kLargeBuffer (CHR 0x00)"

definition ex_out :: LogFile where
  "ex_out = (case new_LogFile ''log'' 1000 3 1024 ''host'' 1 (\<lambda>i. 86400 + int i) (\<lambda>i. True) (\<lambda>i n. min n 3) of Some f \<Rightarrow> f)"

lemma ex_mem_length: "length ex_mem = kLargeBuffer"
  by (simp add: ex_mem_def)

lemma ex_log_start: "al_reach (start_AsyncLogging ex_mem ex_out) [] []"
proof -
  have "\<exists>f. new_LogFile ''log'' 1000 3 1024 ''host'' 1 (\<lambda>i. 86400 + int i) (\<lambda>i. True) (\<lambda>i n. min n 3) = Some f"
    by (simp add: new_LogFile_def rollFile_def lf_tick_def new_AppendFile_def Let_def)
  then have "new_LogFile ''log'' 1000 3 1024 ''host'' 1 (\<lambda>i. 86400 + int i) (\<lambda>i. True) (\<lambda>i n. min n 3) = Some ex_out"
    by (auto simp: ex_out_def)
  moreover have "fwrite_ok (\<lambda>i n. min n 3)" by (simp add: fwrite_ok_def)
  ultimately show ?thesis by (intro log_start [OF ex_mem_length]) simp_all
qed

text \<open>One round of the thread: from the head of the loop to the head of the loop.\<close>

lemma al_round:
  assumes "al_reach s log rounds" and "th_pc s = AtLoop" and "al_running s"
  obtains s' bufs where "al_reach s' log (rounds @ [(tnow, bufs)])" and "th_pc s' = AtLoop" and "al_running s'"
proof -
  note i = al_reach_inv [OF assms(1), THEN conjunct1]
  from al_loop_ok [OF i assms(2)] assms(3) obtain s1 where s1: "al_loop s = Some s1" "al_inv s1" "th_pc s1 = AtWait" by auto
  then have "al_running s1" using assms(3) by (auto simp: al_loop_def abort_elims split: if_splits)
  with al_exchange_ok [OF s1(2,3)] obtain s2 where s2: "al_exchange s1 = Some s2" "al_inv s2" "th_pc s2 = AtWrite" "al_running s2" by auto
  from al_write_ok [OF s2(2,3), of tnow] s2(4) obtain s3 where s3: "al_write tnow s2 = Some s3" "th_pc s3 = AtLoop" "al_running s3" by auto
  have "al_reach s2 log rounds"
    by (rule log_exchange [OF log_loop [OF assms(1,2) s1(1)] s1(3) s2(1)])
  from log_write [OF this s2(3) s3(1)] s3(2,3) show ?thesis by (rule that)
qed

text \<open>A line is logged, a round writes it, and it is in the file; a second line is in the buffer.\<close>

theorem async_logging_witness:
  "\<exists>s rounds. al_reach s ''first second'' rounds \<and> length rounds = 1
     \<and> concat (concat (map snd rounds)) @ concat (map fb_toString (th_buffersToWrite s)) @ al_unwritten s = ''first second''
     \<and> lf_data (th_output s) = concat (map round_text rounds)"
proof -
  let ?s = "start_AsyncLogging ex_mem ex_out"
  have f: "fits ''first '' = ''first ''" "fits ''second'' = ''second''" by (simp_all add: fits_def kLargeBuffer_def)
  from al_append_ok [OF conjunct1 [OF al_reach_inv [OF ex_log_start]] ex_mem_length, of "''first ''"] obtain s1 where
    s1: "al_append ex_mem ''first '' ?s = Some s1" "th_pc s1 = AtLoop" "al_running s1"
    by (auto simp: start_AsyncLogging_def Let_def)
  have "al_reach s1 ''first '' []"
    using log_append [OF ex_log_start ex_mem_length s1(1)] f(1) by simp
  from al_round [OF this s1(2,3), of "Timestamp 0"] obtain s2 bufs where s2: "al_reach s2 ''first '' [(Timestamp 0, bufs)]"
    unfolding append_Nil .
  from al_append_ok [OF conjunct1 [OF al_reach_inv [OF s2]] ex_mem_length, of "''second''"] obtain s3 where
    s3: "al_append ex_mem ''second'' s2 = Some s3" by blast
  from log_append [OF s2 ex_mem_length s3] f(2) have r: "al_reach s3 ''first second'' [(Timestamp 0, bufs)]" by simp
  from async_logging [OF r] r show ?thesis by (intro exI [of _ s3] exI [of _ "[(Timestamp 0, bufs)]"]) simp
qed

text \<open>Lines are also lost at the end: what is logged after the thread has taken the buffers of its last round is never written,
  since once \<^verbatim>\<open>stop\<close> is called the thread writes what it holds and ends.\<close>

theorem log_lines_lost:
  assumes "al_reach s log rounds" and "th_pc s = AtWrite" and "\<not> al_running s"
  shows "\<exists>s1 s2. al_write tnow s = Some s1 \<and> al_loop s1 = Some s2 \<and> th_pc s2 = Done
     \<and> lf_data (th_output s2) = lf_data (th_output s) @ round_text (tnow, map fb_toString (th_buffersToWrite s))
     \<and> al_unwritten s2 = al_unwritten s"
proof -
  note i = al_reach_inv [OF assms(1), THEN conjunct1]
  from al_write_ok [OF i assms(2), of tnow] obtain s1 where s1: "al_write tnow s = Some s1" "al_inv s1" "th_pc s1 = AtLoop"
      "al_running s1 = al_running s" "al_unwritten s1 = al_unwritten s"
      "lf_data (th_output s1) = lf_data (th_output s) @ round_text (tnow, map fb_toString (th_buffersToWrite s))"
    by blast
  from al_loop_ok [OF s1(2,3)] obtain s2 where s2: "al_loop s1 = Some s2" "th_pc s2 = (if al_running s1 then AtWait else Done)"
      "al_unwritten s2 = al_unwritten s1" "lf_data (th_output s2) = lf_data (th_output s1)"
    by blast
  show ?thesis using s1 s2 assms(3) by auto
qed

end
