(* ===== verification/Workers.thy ===== *)
theory Workers
  imports Prelude
begin

text \<open>
  \<^verbatim>\<open>base/BlockingQueue.h\<close>, \<^verbatim>\<open>base/BoundedBlockingQueue.h\<close>, \<^verbatim>\<open>base/CountDownLatch.cc\<close> and \<^verbatim>\<open>base/ThreadPool.cc\<close>. A condition variable
  is the set of the threads that wait on it; \<open>notify who\<close> wakes the thread \<open>who\<close>, if it waits. An operation is one pass under
  the mutex: it either returns or puts its thread to sleep, and a thread that is woken, also spuriously, makes the pass again.
\<close>

section \<open>Queues\<close>

datatype 'r outcome = Wait | Return 'r

definition notify :: "nat \<Rightarrow> nat set \<Rightarrow> nat set" where
  "notify who waiting = waiting - {who}"

record 'a BlockingQueue =
  q_queue :: "'a list"
  q_notEmpty :: "nat set"

definition bq_put :: "nat \<Rightarrow> 'a \<Rightarrow> 'a BlockingQueue \<Rightarrow> 'a BlockingQueue" where
  "bq_put who x q = q\<lparr>q_queue := q_queue q @ [x], q_notEmpty := notify who (q_notEmpty q)\<rparr>"

definition bq_take :: "nat \<Rightarrow> 'a BlockingQueue \<Rightarrow> 'a outcome \<times> 'a BlockingQueue" where
  "bq_take tid q =
     (case q_queue q of
        [] \<Rightarrow> (Wait, q\<lparr>q_notEmpty := insert tid (q_notEmpty q)\<rparr>)
      | x # xs \<Rightarrow> (Return x, q\<lparr>q_queue := xs\<rparr>))"

record 'a BoundedBlockingQueue = "'a BlockingQueue" +
  q_notFull :: "nat set"
  q_capacity :: nat

definition bbq_full :: "('a, 'z) BoundedBlockingQueue_scheme \<Rightarrow> bool" where
  "bbq_full q \<longleftrightarrow> length (q_queue q) = q_capacity q"

definition bbq_put :: "nat \<Rightarrow> nat \<Rightarrow> 'a \<Rightarrow> 'a BoundedBlockingQueue \<Rightarrow> unit outcome \<times> 'a BoundedBlockingQueue" where
  "bbq_put tid who x q =
     (if bbq_full q then (Wait, q\<lparr>q_notFull := insert tid (q_notFull q)\<rparr>)
      else (Return (), q\<lparr>q_queue := q_queue q @ [x], q_notEmpty := notify who (q_notEmpty q)\<rparr>))"

definition bbq_take :: "nat \<Rightarrow> nat \<Rightarrow> 'a BoundedBlockingQueue \<Rightarrow> 'a outcome \<times> 'a BoundedBlockingQueue" where
  "bbq_take tid who q =
     (case q_queue q of
        [] \<Rightarrow> (Wait, q\<lparr>q_notEmpty := insert tid (q_notEmpty q)\<rparr>)
      | x # xs \<Rightarrow> (Return x, q\<lparr>q_queue := xs, q_notFull := notify who (q_notFull q)\<rparr>))"

section \<open>Latch\<close>

record CountDownLatch =
  l_count :: int
  l_condition :: "nat set"

definition latch_wait :: "nat \<Rightarrow> CountDownLatch \<Rightarrow> unit outcome \<times> CountDownLatch" where
  "latch_wait tid l = (if l_count l > 0 then (Wait, l\<lparr>l_condition := insert tid (l_condition l)\<rparr>) else (Return (), l))"

definition countDown :: "CountDownLatch \<Rightarrow> CountDownLatch" where
  "countDown l = (let l = l\<lparr>l_count := l_count l - 1\<rparr> in if l_count l = 0 then l\<lparr>l_condition := {}\<rparr> else l)"

text \<open>A thread sleeps on the latch only while the count is positive.\<close>

lemma latch_sleeps:
  assumes "l_condition l \<noteq> {} \<longrightarrow> 0 < l_count l"
  shows "l_condition (countDown l) \<noteq> {} \<longrightarrow> 0 < l_count (countDown l)"
    and "l_condition (snd (latch_wait tid l)) \<noteq> {} \<longrightarrow> 0 < l_count (snd (latch_wait tid l))"
  using assms by (auto simp: countDown_def latch_wait_def Let_def)

section \<open>The pool\<close>

text \<open>\<open>tp_threads\<close> is the number of threads; the queue and its conditions are those of the bounded queue.\<close>

record 'a ThreadPool = "'a BoundedBlockingQueue" +
  tp_threads :: nat
  tp_running :: bool

definition new_ThreadPool :: "'a ThreadPool" where
  "new_ThreadPool = \<lparr>q_queue = [], q_notEmpty = {}, q_notFull = {}, q_capacity = 0, tp_threads = 0, tp_running = False\<rparr>"

definition setMaxQueueSize :: "nat \<Rightarrow> ('a, 'z) ThreadPool_scheme \<Rightarrow> ('a, 'z) ThreadPool_scheme" where
  "setMaxQueueSize maxSize p = p\<lparr>q_capacity := maxSize\<rparr>"

definition tp_start :: "nat \<Rightarrow> ('a, 'z) ThreadPool_scheme \<Rightarrow> ('a, 'z) ThreadPool_scheme option" where
  "tp_start numThreads p = do { assert_that (tp_threads p = 0); Some (p\<lparr>tp_running := True, tp_threads := numThreads\<rparr>) }"

text \<open>The part of \<^verbatim>\<open>stop\<close> before the joins.\<close>

definition tp_stop :: "('a, 'z) ThreadPool_scheme \<Rightarrow> ('a, 'z) ThreadPool_scheme" where
  "tp_stop p = p\<lparr>tp_running := False, q_notEmpty := {}\<rparr>"

definition isFull :: "('a, 'z) ThreadPool_scheme \<Rightarrow> bool" where
  "isFull p \<longleftrightarrow> q_capacity p > 0 \<and> length (q_queue p) \<ge> q_capacity p"

datatype run_outcome = RunInline | Blocked | Queued

definition tp_run :: "nat \<Rightarrow> nat \<Rightarrow> 'a \<Rightarrow> ('a, 'z) ThreadPool_scheme \<Rightarrow> run_outcome \<times> ('a, 'z) ThreadPool_scheme" where
  "tp_run tid who task p =
     (if tp_threads p = 0 then (RunInline, p)
      else if isFull p then (Blocked, p\<lparr>q_notFull := insert tid (q_notFull p)\<rparr>)
      else (Queued, p\<lparr>q_queue := q_queue p @ [task], q_notEmpty := notify who (q_notEmpty p)\<rparr>))"

definition tp_take :: "nat \<Rightarrow> nat \<Rightarrow> ('a, 'z) ThreadPool_scheme \<Rightarrow> 'a option outcome \<times> ('a, 'z) ThreadPool_scheme" where
  "tp_take tid who p =
     (if q_queue p = [] \<and> tp_running p then (Wait, p\<lparr>q_notEmpty := insert tid (q_notEmpty p)\<rparr>)
      else case q_queue p of
             [] \<Rightarrow> (Return None, p)
           | task # rest \<Rightarrow>
               (Return (Some task),
                if q_capacity p > 0 then p\<lparr>q_queue := rest, q_notFull := notify who (q_notFull p)\<rparr> else p\<lparr>q_queue := rest\<rparr>))"

section \<open>The threads\<close>

text \<open>A worker is at the test of \<^verbatim>\<open>runInThread\<close>, about to make a pass of \<^verbatim>\<open>take\<close>, asleep in it, running a task, or gone. A producer is about to
  make a pass of \<^verbatim>\<open>run\<close> with its task (\<open>ps_putters\<close>) or asleep in it (\<open>ps_blocked\<close>). \<open>ps_put\<close> and \<open>ps_taken\<close> are the tasks queued and taken.\<close>

datatype 'a worker = WTest | WTake | WSleep | WRun 'a | WExit

record 'a Pool = "'a ThreadPool" +
  ps_worker :: "nat \<Rightarrow> 'a worker"
  ps_putters :: "nat \<rightharpoonup> 'a"
  ps_blocked :: "nat \<rightharpoonup> 'a"
  ps_put :: "'a list"
  ps_taken :: "'a list"

text \<open>The threads that are woken: a worker that slept, a producer that was blocked.\<close>

definition wake_workers :: "nat set \<Rightarrow> 'a Pool \<Rightarrow> 'a Pool" where
  "wake_workers S s = s\<lparr>ps_worker := (\<lambda>w. if w \<in> S then WTake else ps_worker s w)\<rparr>"

definition wake_producer :: "nat \<Rightarrow> 'a Pool \<Rightarrow> 'a Pool" where
  "wake_producer p s =
     (case ps_blocked s p of None \<Rightarrow> s
      | Some t \<Rightarrow> s\<lparr>ps_blocked := (ps_blocked s)(p := None), ps_putters := (ps_putters s)(p \<mapsto> t)\<rparr>)"

definition set_worker :: "nat \<Rightarrow> 'a worker \<Rightarrow> 'a Pool \<Rightarrow> 'a Pool" where
  "set_worker w pc s = s\<lparr>ps_worker := (ps_worker s)(w := pc)\<rparr>"

text \<open>One round of \<^verbatim>\<open>runInThread\<close> in parts.\<close>

definition worker_test :: "nat \<Rightarrow> 'a Pool \<Rightarrow> 'a Pool" where
  "worker_test w s = set_worker w (if tp_running s then WTake else WExit) s"

definition worker_take :: "nat \<Rightarrow> nat \<Rightarrow> 'a Pool \<Rightarrow> 'a Pool" where
  "worker_take w who s =
     (case tp_take w who s of
        (Wait, s) \<Rightarrow> set_worker w WSleep s
      | (Return None, s) \<Rightarrow> set_worker w WTest s
      | (Return (Some t), s) \<Rightarrow>
          let s = set_worker w (WRun t) (s\<lparr>ps_taken := ps_taken s @ [t]\<rparr>)
          in if q_capacity s > 0 then wake_producer who s else s)"

definition producer_run :: "nat \<Rightarrow> nat \<Rightarrow> 'a \<Rightarrow> 'a Pool \<Rightarrow> 'a Pool" where
  "producer_run p who t s =
     (let s = s\<lparr>ps_putters := (ps_putters s)(p := None)\<rparr> in
      case tp_run p who t s of
        (RunInline, s) \<Rightarrow> s
      | (Blocked, s) \<Rightarrow> s\<lparr>ps_blocked := (ps_blocked s)(p \<mapsto> t)\<rparr>
      | (Queued, s') \<Rightarrow> wake_workers (q_notEmpty s \<inter> {who}) (s'\<lparr>ps_put := ps_put s' @ [t]\<rparr>))"

inductive pool_step :: "'a Pool \<Rightarrow> 'a Pool \<Rightarrow> bool" where
  step_test: "w < tp_threads s \<Longrightarrow> ps_worker s w = WTest \<Longrightarrow> pool_step s (worker_test w s)"
| step_take: "w < tp_threads s \<Longrightarrow> ps_worker s w = WTake \<Longrightarrow> q_notFull s = {} \<or> who \<in> q_notFull s \<Longrightarrow> pool_step s (worker_take w who s)"
| step_done: "w < tp_threads s \<Longrightarrow> ps_worker s w = WRun t \<Longrightarrow> pool_step s (set_worker w WTest s)"
| step_spurious: "w \<in> q_notEmpty s \<Longrightarrow> pool_step s (wake_workers {w} (s\<lparr>q_notEmpty := q_notEmpty s - {w}\<rparr>))"
| step_submit: "ps_putters s p = None \<Longrightarrow> ps_blocked s p = None \<Longrightarrow> pool_step s (s\<lparr>ps_putters := (ps_putters s)(p \<mapsto> t)\<rparr>)"
| step_run: "ps_putters s p = Some t \<Longrightarrow> q_notEmpty s = {} \<or> who \<in> q_notEmpty s \<Longrightarrow> pool_step s (producer_run p who t s)"
| step_spurious_producer: "p \<in> q_notFull s \<Longrightarrow> pool_step s (wake_producer p (s\<lparr>q_notFull := q_notFull s - {p}\<rparr>))"
| step_stop: "pool_step s (wake_workers (q_notEmpty s) (tp_stop s))"

definition pool_init :: "'a ThreadPool \<Rightarrow> 'a Pool" where
  "pool_init p = ThreadPool.extend p \<lparr>ps_worker = (\<lambda>w. WTest), ps_putters = Map.empty, ps_blocked = Map.empty, ps_put = [], ps_taken = []\<rparr>"

inductive pool_reach :: "'a Pool \<Rightarrow> bool" where
  reach_start: "tp_start n (setMaxQueueSize maxSize new_ThreadPool) = Some p \<Longrightarrow> 0 < n \<Longrightarrow> pool_reach (pool_init p)"
| reach_step: "pool_reach s \<Longrightarrow> pool_step s s' \<Longrightarrow> pool_reach s'"

section \<open>Invariant\<close>

definition ready_workers :: "'a Pool \<Rightarrow> nat set" where
  "ready_workers s = {w. w < tp_threads s \<and> ps_worker s w = WTake}"

text \<open>No wake-up is lost: while a worker sleeps, enough workers are about to look at the queue to empty it; while a producer sleeps,
  enough producers are about to look at it to fill it.\<close>

definition pool_inv :: "'a Pool \<Rightarrow> bool" where
  "pool_inv s \<longleftrightarrow> 0 < tp_threads s
     \<and> q_notEmpty s = {w. w < tp_threads s \<and> ps_worker s w = WSleep}
     \<and> q_notFull s = dom (ps_blocked s) \<and> finite (dom (ps_putters s)) \<and> dom (ps_putters s) \<inter> dom (ps_blocked s) = {}
     \<and> ps_put s = ps_taken s @ q_queue s
     \<and> (0 < q_capacity s \<longrightarrow> length (q_queue s) \<le> q_capacity s)
     \<and> (q_notEmpty s \<noteq> {} \<longrightarrow> tp_running s \<and> length (q_queue s) \<le> card (ready_workers s))
     \<and> (q_notFull s \<noteq> {} \<longrightarrow> 0 < q_capacity s \<and> q_capacity s - length (q_queue s) \<le> card (dom (ps_putters s)))
     \<and> (tp_running s \<longrightarrow> (\<forall>w < tp_threads s. ps_worker s w \<noteq> WExit))"

lemma pool_invI:
  assumes "0 < tp_threads s" and "q_notEmpty s = {w. w < tp_threads s \<and> ps_worker s w = WSleep}"
    and "q_notFull s = dom (ps_blocked s)" and "finite (dom (ps_putters s))" and "dom (ps_putters s) \<inter> dom (ps_blocked s) = {}"
    and "ps_put s = ps_taken s @ q_queue s" and "0 < q_capacity s \<Longrightarrow> length (q_queue s) \<le> q_capacity s"
    and "q_notEmpty s \<noteq> {} \<Longrightarrow> tp_running s" and "q_notEmpty s \<noteq> {} \<Longrightarrow> length (q_queue s) \<le> card (ready_workers s)"
    and "q_notFull s \<noteq> {} \<Longrightarrow> 0 < q_capacity s" and "q_notFull s \<noteq> {} \<Longrightarrow> q_capacity s - length (q_queue s) \<le> card (dom (ps_putters s))"
    and "\<And>w. tp_running s \<Longrightarrow> w < tp_threads s \<Longrightarrow> ps_worker s w \<noteq> WExit"
  shows "pool_inv s"
  unfolding pool_inv_def by (intro conjI impI allI) (fact assms | rule assms; assumption)+

lemma pool_invD:
  assumes "pool_inv s"
  shows "0 < tp_threads s" and "q_notEmpty s = {w. w < tp_threads s \<and> ps_worker s w = WSleep}"
    and "q_notFull s = dom (ps_blocked s)" and "finite (dom (ps_putters s))" and "dom (ps_putters s) \<inter> dom (ps_blocked s) = {}"
    and "ps_put s = ps_taken s @ q_queue s" and "0 < q_capacity s \<Longrightarrow> length (q_queue s) \<le> q_capacity s"
    and "q_notEmpty s \<noteq> {} \<Longrightarrow> tp_running s" and "q_notEmpty s \<noteq> {} \<Longrightarrow> length (q_queue s) \<le> card (ready_workers s)"
    and "q_notFull s \<noteq> {} \<Longrightarrow> 0 < q_capacity s" and "q_notFull s \<noteq> {} \<Longrightarrow> q_capacity s - length (q_queue s) \<le> card (dom (ps_putters s))"
    and "\<And>w. tp_running s \<Longrightarrow> w < tp_threads s \<Longrightarrow> ps_worker s w \<noteq> WExit"
  using assms unfolding pool_inv_def by blast+

lemma finite_ready [simp]: "finite (ready_workers s)"
  by (rule finite_subset [of _ "{..< tp_threads s}"]) (auto simp: ready_workers_def)

lemma ready_insert: "w < tp_threads s \<Longrightarrow> ready_workers (s\<lparr>ps_worker := (ps_worker s)(w := WTake)\<rparr>) = insert w (ready_workers s)"
  by (auto simp: ready_workers_def)

lemma ready_remove: "x \<noteq> WTake \<Longrightarrow> ready_workers (s\<lparr>ps_worker := (ps_worker s)(w := x)\<rparr>) = ready_workers s - {w}"
  by (auto simp: ready_workers_def)

lemma pool_init_inv:
  assumes "tp_start n (setMaxQueueSize maxSize new_ThreadPool) = Some p" and "0 < n"
  shows "pool_inv (pool_init p)"
  using assms by (auto simp: pool_inv_def pool_init_def tp_start_def setMaxQueueSize_def new_ThreadPool_def ThreadPool.defs)

lemma worker_test_inv:
  assumes "pool_inv s" and "w < tp_threads s" and "ps_worker s w = WTest"
  shows "pool_inv (worker_test w s)"
proof (cases "tp_running s")
  case True
  then have "worker_test w s = s\<lparr>ps_worker := (ps_worker s)(w := WTake)\<rparr>" by (simp add: worker_test_def set_worker_def)
  moreover have "card (ready_workers s) \<le> card (insert w (ready_workers s))" by (intro card_mono) auto
  ultimately show ?thesis using assms True unfolding pool_inv_def by (auto simp: ready_insert)
next
  case False
  then have "worker_test w s = s\<lparr>ps_worker := (ps_worker s)(w := WExit)\<rparr>" by (simp add: worker_test_def set_worker_def)
  with assms False show ?thesis unfolding pool_inv_def by auto
qed

lemma worker_done_inv:
  assumes "pool_inv s" and "w < tp_threads s" and "ps_worker s w = WRun t"
  shows "pool_inv (set_worker w WTest s)"
proof -
  have "ready_workers (set_worker w WTest s) = ready_workers s" using assms(3) by (auto simp: set_worker_def ready_workers_def)
  with assms show ?thesis unfolding pool_inv_def by (auto simp: set_worker_def)
qed

lemma worker_pop_inv:
  assumes "pool_inv s" and "w < tp_threads s" and "ps_worker s w = WTake" and "q_queue s = t # rest"
  shows "pool_inv (s\<lparr>q_queue := rest, ps_taken := ps_taken s @ [t], ps_worker := (ps_worker s)(w := WRun t)\<rparr>) \<or> 0 < q_capacity s"
    and "q_notEmpty s \<noteq> {} \<longrightarrow> length rest \<le> card (ready_workers s - {w})"
proof -
  have "w \<in> ready_workers s" using assms(2,3) by (simp add: ready_workers_def)
  then have c: "card (ready_workers s - {w}) = card (ready_workers s) - 1" by simp
  then show r: "q_notEmpty s \<noteq> {} \<longrightarrow> length rest \<le> card (ready_workers s - {w})"
    using assms(1,4) by (auto simp: pool_inv_def)
  let ?s = "s\<lparr>q_queue := rest, ps_taken := ps_taken s @ [t], ps_worker := (ps_worker s)(w := WRun t)\<rparr>"
  have "ready_workers ?s = ready_workers s - {w}" by (auto simp: ready_workers_def)
  then show "pool_inv ?s \<or> 0 < q_capacity s" using assms r unfolding pool_inv_def by auto
qed

lemma worker_take_inv:
  assumes inv: "pool_inv s" and w: "w < tp_threads s" "ps_worker s w = WTake" and who: "q_notFull s = {} \<or> who \<in> q_notFull s"
  shows "pool_inv (worker_take w who s)"
proof (cases "q_queue s")
  case Nil
  show ?thesis
  proof (cases "tp_running s")
    case True
    with Nil have "worker_take w who s = s\<lparr>q_notEmpty := insert w (q_notEmpty s), ps_worker := (ps_worker s)(w := WSleep)\<rparr>"
      by (simp add: worker_take_def tp_take_def set_worker_def)
    with inv w True Nil show ?thesis unfolding pool_inv_def by auto
  next
    case False
    with Nil have "worker_take w who s = s\<lparr>ps_worker := (ps_worker s)(w := WTest)\<rparr>"
      by (simp add: worker_take_def tp_take_def set_worker_def)
    with inv w False show ?thesis unfolding pool_inv_def by auto
  qed
next
  case (Cons t rest)
  let ?s = "s\<lparr>q_queue := rest, ps_taken := ps_taken s @ [t], ps_worker := (ps_worker s)(w := WRun t)\<rparr>"
  note pop = worker_pop_inv [OF inv w Cons]
  have ready: "ready_workers ?s = ready_workers s - {w}" by (auto simp: ready_workers_def)
  show ?thesis
  proof (cases "0 < q_capacity s")
    case False
    with Cons have "worker_take w who s = ?s" by (simp add: worker_take_def tp_take_def set_worker_def Let_def)
    with pop(1) False show ?thesis by simp
  next
    case True
    show ?thesis
    proof (cases "ps_blocked s who")
      case None
      with inv who have nf: "q_notFull s = {}" by (auto simp: pool_inv_def)
      with None True Cons have "worker_take w who s = ?s\<lparr>q_notFull := {}\<rparr>"
        by (simp add: worker_take_def tp_take_def set_worker_def wake_producer_def notify_def Let_def)
      moreover have "ready_workers (?s\<lparr>q_notFull := {}\<rparr>) = ready_workers s - {w}" by (auto simp: ready_workers_def)
      ultimately show ?thesis using inv w Cons nf pop(2) unfolding pool_inv_def by auto
    next
      case (Some t')
      let ?t = "?s\<lparr>q_notFull := q_notFull s - {who}, ps_blocked := (ps_blocked s)(who := None), ps_putters := (ps_putters s)(who \<mapsto> t')\<rparr>"
      from Some True Cons have "worker_take w who s = ?t"
        by (simp add: worker_take_def tp_take_def set_worker_def wake_producer_def notify_def Let_def)
      moreover have "ready_workers ?t = ready_workers s - {w}" by (auto simp: ready_workers_def)
      moreover have "who \<notin> dom (ps_putters s)" "finite (dom (ps_putters s))" "q_notFull s \<noteq> {}" using inv Some by (auto simp: pool_inv_def)
      then have "q_capacity s - length rest \<le> card (dom (ps_putters ?t))" using inv Cons by (auto simp: pool_inv_def)
      moreover have "q_notEmpty ?t = {v. v < tp_threads ?t \<and> ps_worker ?t v = WSleep}" "q_notFull ?t = dom (ps_blocked ?t)"
        "dom (ps_putters ?t) \<inter> dom (ps_blocked ?t) = {}" "ps_put ?t = ps_taken ?t @ q_queue ?t" "length rest \<le> q_capacity s"
        "tp_running s \<longrightarrow> (\<forall>v < tp_threads ?t. ps_worker ?t v \<noteq> WExit)"
        using inv w Cons True by (auto simp: pool_inv_def)
      ultimately show ?thesis using inv pop(2) True unfolding pool_inv_def by simp
    qed
  qed
qed

lemma isFull_putters: "isFull (s\<lparr>ps_putters := x\<rparr>) = isFull s"
  by (simp add: isFull_def)

lemma producer_run_inv:
  assumes inv: "pool_inv s" and p: "ps_putters s p = Some t" and who: "q_notEmpty s = {} \<or> who \<in> q_notEmpty s"
  shows "pool_inv (producer_run p who t s)"
proof -
  have n: "0 < tp_threads s" and fin: "finite (dom (ps_putters s))" and pd: "p \<in> dom (ps_putters s)" and pb: "p \<notin> dom (ps_blocked s)"
    using inv p by (auto simp: pool_inv_def)
  have card: "card (dom (ps_putters s) - {p}) = card (dom (ps_putters s)) - 1" using pd by simp
  show ?thesis
  proof (cases "isFull s")
    case True
    with n have "producer_run p who t s = s\<lparr>ps_putters := (ps_putters s)(p := None), q_notFull := insert p (q_notFull s), ps_blocked := (ps_blocked s)(p \<mapsto> t)\<rparr>"
      by (simp add: producer_run_def tp_run_def isFull_def)
    with inv True show ?thesis unfolding pool_inv_def isFull_def by (auto simp: ready_workers_def)
  next
    case False
    let ?S = "q_notEmpty s \<inter> {who}"
    let ?s = "s\<lparr>ps_putters := (ps_putters s)(p := None), q_queue := q_queue s @ [t], q_notEmpty := q_notEmpty s - {who}, ps_put := ps_put s @ [t],
        ps_worker := (\<lambda>w. if w \<in> ?S then WTake else ps_worker s w)\<rparr>"
    have eq: "producer_run p who t s = ?s"
      using n False isFull_putters [where s = s]
      by (simp add: producer_run_def tp_run_def wake_workers_def notify_def Let_def cong: if_cong)
    have ne: "q_notEmpty ?s = {w. w < tp_threads ?s \<and> ps_worker ?s w = WSleep}" using inv by (auto simp: pool_inv_def)
    have ready: "ready_workers ?s = ready_workers s \<union> ?S" using inv by (auto simp: pool_inv_def ready_workers_def)
    have len: "length (q_queue ?s) \<le> card (ready_workers ?s)" if "q_notEmpty ?s \<noteq> {}"
    proof -
      have "who \<in> q_notEmpty s" using that who by auto
      then have "ready_workers s \<inter> ?S = {}" "card ?S = 1" using inv by (auto simp: pool_inv_def ready_workers_def)
      then have "card (ready_workers ?s) = Suc (card (ready_workers s))" unfolding ready by (subst card_Un_disjoint) auto
      with inv \<open>who \<in> q_notEmpty s\<close> show ?thesis by (auto simp: pool_inv_def)
    qed
    have cap: "q_capacity s - length (q_queue ?s) \<le> card (dom (ps_putters ?s))" if "q_notFull s \<noteq> {}"
      using inv that card by (auto simp: pool_inv_def)
    note d = pool_invD [OF inv]
    have run: "q_notEmpty ?s \<noteq> {} \<Longrightarrow> tp_running s" using d(8) by auto
    have q: "0 < q_capacity s \<Longrightarrow> length (q_queue ?s) \<le> q_capacity s" using False by (auto simp: isFull_def)
    have dj: "dom (ps_putters ?s) \<inter> dom (ps_blocked s) = {}" using d(5) by auto
    show ?thesis unfolding eq by (rule pool_invI) (use d len cap run q dj ne in simp_all)
  qed
qed

lemma spurious_inv:
  assumes inv: "pool_inv s" and w: "w \<in> q_notEmpty s"
  shows "pool_inv (wake_workers {w} (s\<lparr>q_notEmpty := q_notEmpty s - {w}\<rparr>))"
proof -
  let ?s = "s\<lparr>q_notEmpty := q_notEmpty s - {w}, ps_worker := (\<lambda>v. if v \<in> {w} then WTake else ps_worker s v)\<rparr>"
  have eq: "wake_workers {w} (s\<lparr>q_notEmpty := q_notEmpty s - {w}\<rparr>) = ?s" by (simp add: wake_workers_def cong: if_cong)
  have "ready_workers s \<subseteq> ready_workers ?s" by (auto simp: ready_workers_def)
  then have "card (ready_workers s) \<le> card (ready_workers ?s)" by (intro card_mono) auto
  moreover have "length (q_queue s) \<le> card (ready_workers s)" "tp_running s" using inv w by (auto simp: pool_inv_def)
  ultimately have "length (q_queue s) \<le> card (ready_workers ?s)" by simp
  then show ?thesis using inv w unfolding eq pool_inv_def by auto
qed

lemma spurious_producer_inv:
  assumes inv: "pool_inv s" and p: "p \<in> q_notFull s"
  shows "pool_inv (wake_producer p (s\<lparr>q_notFull := q_notFull s - {p}\<rparr>))"
proof -
  from inv p obtain t where t: "ps_blocked s p = Some t" by (auto simp: pool_inv_def)
  let ?s = "s\<lparr>q_notFull := q_notFull s - {p}, ps_blocked := (ps_blocked s)(p := None), ps_putters := (ps_putters s)(p \<mapsto> t)\<rparr>"
  have eq: "wake_producer p (s\<lparr>q_notFull := q_notFull s - {p}\<rparr>) = ?s" using t by (simp add: wake_producer_def)
  have "p \<notin> dom (ps_putters s)" "finite (dom (ps_putters s))" using inv t by (auto simp: pool_inv_def)
  then have "q_capacity s - length (q_queue s) \<le> card (dom (ps_putters ?s))" using inv p by (auto simp: pool_inv_def)
  moreover have "ready_workers ?s = ready_workers s" by (simp add: ready_workers_def)
  ultimately show ?thesis using inv p unfolding eq pool_inv_def by auto
qed

lemma stop_inv:
  assumes inv: "pool_inv s"
  shows "pool_inv (wake_workers (q_notEmpty s) (tp_stop s))"
  using inv unfolding pool_inv_def by (auto simp: wake_workers_def tp_stop_def)

lemma submit_inv:
  assumes inv: "pool_inv s" and p: "ps_putters s p = None" "ps_blocked s p = None"
  shows "pool_inv (s\<lparr>ps_putters := (ps_putters s)(p \<mapsto> t)\<rparr>)"
proof -
  let ?s = "s\<lparr>ps_putters := (ps_putters s)(p \<mapsto> t)\<rparr>"
  note d = pool_invD [OF inv]
  have "card (dom (ps_putters s)) \<le> card (dom (ps_putters ?s))" using d(4) by (intro card_mono) auto
  then have cap: "q_notFull s \<noteq> {} \<Longrightarrow> q_capacity s - length (q_queue s) \<le> card (dom (ps_putters ?s))" using d(11) by linarith
  have dj: "dom (ps_putters ?s) \<inter> dom (ps_blocked s) = {}" using d(5) p by auto
  have "ready_workers ?s = ready_workers s" by (simp add: ready_workers_def)
  then show ?thesis by (intro pool_invI) (use d cap dj in simp_all)
qed

lemma pool_step_inv: "pool_step s s' \<Longrightarrow> pool_inv s \<Longrightarrow> pool_inv s'"
  by (induction rule: pool_step.induct)
     (simp_all add: worker_test_inv worker_take_inv worker_done_inv spurious_inv submit_inv producer_run_inv spurious_producer_inv stop_inv)

lemma pool_reach_inv: "pool_reach s \<Longrightarrow> pool_inv s"
  by (induction rule: pool_reach.induct) (auto intro: pool_init_inv pool_step_inv)

text \<open>All workers are gone, the queue is full, and a producer is in \<^verbatim>\<open>run\<close>.\<close>

definition stranded :: "nat \<Rightarrow> 'a \<Rightarrow> 'a list \<Rightarrow> 'a Pool \<Rightarrow> bool" where
  "stranded p t tasks u \<longleftrightarrow> pool_inv u \<and> (\<forall>w < tp_threads u. ps_worker u w = WExit) \<and> isFull u \<and> q_queue u = tasks
     \<and> (ps_blocked u p = Some t \<or> ps_putters u p = Some t)"

lemma stranded_step:
  assumes u: "stranded p t tasks u" and st: "pool_step u u'"
  shows "stranded p t tasks u'"
proof -
  have i: "pool_inv u'" using pool_step_inv [OF st] u by (simp add: stranded_def)
  have sl: "q_notEmpty u = {}" using u by (auto simp: stranded_def pool_inv_def)
  from st u sl have "(\<forall>w < tp_threads u'. ps_worker u' w = WExit) \<and> isFull u' \<and> q_queue u' = tasks
      \<and> (ps_blocked u' p = Some t \<or> ps_putters u' p = Some t)"
  proof cases
    case (step_run q t' who)
    have full: "isFull (u\<lparr>ps_putters := (ps_putters u)(q := None)\<rparr>)" using u by (simp add: isFull_putters stranded_def)
    have "0 < tp_threads u" using u by (simp add: stranded_def pool_inv_def)
    with full have "u' = u\<lparr>ps_putters := (ps_putters u)(q := None), q_notFull := insert q (q_notFull u), ps_blocked := (ps_blocked u)(q \<mapsto> t')\<rparr>"
      using step_run(1) by (simp add: producer_run_def tp_run_def Let_def)
    then show ?thesis using u step_run(2) by (auto simp: stranded_def isFull_def pool_inv_def)
  next
    case (step_submit q t')
    then show ?thesis using u by (auto simp: stranded_def isFull_def)
  next
    case (step_spurious_producer q)
    moreover have "ps_blocked u p = None \<or> ps_putters u p = None" using u pool_invD(5) [of u] by (auto simp: stranded_def)
    ultimately show ?thesis using u by (auto simp: stranded_def isFull_def wake_producer_def split: option.splits)
  next
    case step_stop
    then show ?thesis using u sl by (auto simp: stranded_def isFull_def wake_workers_def tp_stop_def)
  qed (use u sl in \<open>auto simp: stranded_def\<close>)
  with i show ?thesis by (simp add: stranded_def)
qed

lemma stranded_steps: "pool_step\<^sup>*\<^sup>* u u' \<Longrightarrow> stranded p t tasks u \<Longrightarrow> stranded p t tasks u'"
  by (induction rule: rtranclp_induct) (auto intro: stranded_step)

section \<open>Properties\<close>

text \<open>C20: however producers, workers, spurious wake-ups and \<^verbatim>\<open>stop\<close> interleave: tasks are taken in the order they were queued, none twice
  and none lost; the queue keeps its bound; and no wake-up is lost: while the pool runs and a task waits some worker is awake, and
  while there is room and a producer sleeps some producer is about to use it.\<close>

theorem thread_pool_safe:
  assumes "pool_reach s"
  shows "ps_put s = ps_taken s @ q_queue s \<and> (0 < q_capacity s \<longrightarrow> length (q_queue s) \<le> q_capacity s)
    \<and> (tp_running s \<and> q_queue s \<noteq> [] \<longrightarrow> (\<exists>w < tp_threads s. ps_worker s w \<noteq> WSleep \<and> ps_worker s w \<noteq> WExit))
    \<and> (ps_blocked s \<noteq> Map.empty \<and> length (q_queue s) < q_capacity s \<longrightarrow> ps_putters s \<noteq> Map.empty)"
proof -
  have inv: "pool_inv s" by (rule pool_reach_inv [OF assms])
  have "\<exists>w < tp_threads s. ps_worker s w \<noteq> WSleep \<and> ps_worker s w \<noteq> WExit" if run: "tp_running s" "q_queue s \<noteq> []"
  proof (cases "q_notEmpty s = {}")
    case True
    then have "ps_worker s 0 \<noteq> WSleep" "ps_worker s 0 \<noteq> WExit" "0 < tp_threads s" using inv run(1) by (auto simp: pool_inv_def)
    then show ?thesis by blast
  next
    case False
    then have "length (q_queue s) \<le> card (ready_workers s)" using inv by (auto simp: pool_inv_def)
    then have "ready_workers s \<noteq> {}" using run(2) by auto
    then show ?thesis by (auto simp: ready_workers_def)
  qed
  moreover have "ps_putters s \<noteq> Map.empty" if b: "ps_blocked s \<noteq> Map.empty" "length (q_queue s) < q_capacity s"
  proof -
    have "q_notFull s \<noteq> {}" using inv b(1) by (auto simp: pool_inv_def)
    then have "q_capacity s - length (q_queue s) \<le> card (dom (ps_putters s))" using inv by (auto simp: pool_inv_def)
    then have "dom (ps_putters s) \<noteq> {}" using b(2) by auto
    then show ?thesis by auto
  qed
  ultimately show ?thesis using inv by (auto simp: pool_inv_def)
qed

definition ex_pool :: "nat Pool" where
  "ex_pool = \<lparr>q_queue = [], q_notEmpty = {}, q_notFull = {}, q_capacity = 1, tp_threads = 1, tp_running = True,
     ps_worker = (\<lambda>w. WTest), ps_putters = Map.empty, ps_blocked = Map.empty, ps_put = [], ps_taken = []\<rparr>"

lemma ex_pool_reach: "pool_reach ex_pool"
proof -
  let ?p = "\<lparr>q_queue = [], q_notEmpty = {}, q_notFull = {}, q_capacity = 1, tp_threads = 1, tp_running = True\<rparr> :: nat ThreadPool"
  have "pool_reach (pool_init ?p)"
    by (rule reach_start [of 1 1]) (simp_all add: tp_start_def setMaxQueueSize_def new_ThreadPool_def)
  moreover have "ex_pool = pool_init ?p" by (simp add: ex_pool_def pool_init_def ThreadPool.defs)
  ultimately show ?thesis by simp
qed

text \<open>A first task fills the queue, a second producer blocks, and \<^verbatim>\<open>stop\<close> ends the only worker.\<close>

definition ex_stranded :: "nat Pool" where
  "ex_stranded = ex_pool\<lparr>q_queue := [7], q_notFull := {2}, ps_put := [7], ps_blocked := [2 \<mapsto> 8], tp_running := False, ps_worker := (\<lambda>w. WTest)(0 := WExit)\<rparr>"

lemma ex_stranded_reach: "pool_reach ex_stranded"
proof -
  let ?a = "ex_pool\<lparr>ps_putters := [1 \<mapsto> 7]\<rparr>"
  let ?b = "ex_pool\<lparr>q_queue := [7], ps_put := [7]\<rparr>"
  let ?c = "?b\<lparr>ps_putters := [2 \<mapsto> 8]\<rparr>"
  let ?d = "?b\<lparr>q_notFull := {2}, ps_blocked := [2 \<mapsto> 8]\<rparr>"
  let ?e = "?d\<lparr>tp_running := False\<rparr>"
  have a: "pool_reach ?a" using reach_step [OF ex_pool_reach step_submit [of ex_pool 1 7]] by (simp add: ex_pool_def)
  have "producer_run 1 0 7 ?a = ?b"
    by (simp add: producer_run_def tp_run_def isFull_def ex_pool_def wake_workers_def notify_def Let_def cong: if_cong)
  with reach_step [OF a step_run [of ?a 1 7 0]] have b: "pool_reach ?b" by (simp add: ex_pool_def)
  have c: "pool_reach ?c" using reach_step [OF b step_submit [of ?b 2 8]] by (simp add: ex_pool_def)
  have "producer_run 2 0 8 ?c = ?d"
    by (simp add: producer_run_def tp_run_def isFull_def ex_pool_def Let_def)
  with reach_step [OF c step_run [of ?c 2 8 0]] have d: "pool_reach ?d" by (simp add: ex_pool_def)
  have e: "pool_reach ?e" using reach_step [OF d step_stop [of ?d]] by (simp add: ex_pool_def wake_workers_def tp_stop_def)
  have "worker_test 0 ?e = ex_stranded" by (simp add: worker_test_def set_worker_def ex_stranded_def ex_pool_def)
  with reach_step [OF e step_test [of 0 ?e]] show ?thesis by (simp add: ex_pool_def)
qed

theorem thread_pool_safe_witness: "ps_put ex_stranded = ps_taken ex_stranded @ q_queue ex_stranded \<and> length (q_queue ex_stranded) \<le> q_capacity ex_stranded"
  using thread_pool_safe [OF ex_stranded_reach] by (simp add: ex_stranded_def ex_pool_def)

text \<open>\<^verbatim>\<open>stop\<close> wakes the workers only. A producer that sleeps in \<^verbatim>\<open>run\<close> when the last worker has gone never returns: the queue stays full, and whatever
  wakes it finds it full again.\<close>

theorem stop_strands_producers:
  assumes "pool_reach s" and "\<forall>w < tp_threads s. ps_worker s w = WExit" and "isFull s" and "ps_blocked s p = Some t" and "pool_step\<^sup>*\<^sup>* s s'"
  shows "q_queue s' = q_queue s \<and> (ps_blocked s' p = Some t \<or> ps_putters s' p = Some t)"
proof -
  have "stranded p t (q_queue s) s" using assms pool_reach_inv by (simp add: stranded_def)
  from stranded_steps [OF assms(5) this] show ?thesis by (simp add: stranded_def)
qed

theorem stop_strands_producers_witness:
  "pool_step\<^sup>*\<^sup>* ex_stranded (ex_stranded\<lparr>q_notFull := {}, ps_blocked := Map.empty, ps_putters := [2 \<mapsto> 8]\<rparr>)
     \<and> q_queue (ex_stranded\<lparr>q_notFull := {}, ps_blocked := Map.empty, ps_putters := [2 \<mapsto> 8]\<rparr>) = [7]"
proof -
  let ?s = "ex_stranded\<lparr>q_notFull := {}, ps_blocked := Map.empty, ps_putters := [2 \<mapsto> 8]\<rparr>"
  have "wake_producer 2 (ex_stranded\<lparr>q_notFull := q_notFull ex_stranded - {2}\<rparr>) = ?s"
    by (simp add: wake_producer_def ex_stranded_def ex_pool_def)
  with step_spurious_producer [of 2 ex_stranded] have st: "pool_step\<^sup>*\<^sup>* ex_stranded ?s" by (auto simp: ex_stranded_def)
  have "\<forall>w < tp_threads ex_stranded. ps_worker ex_stranded w = WExit" "isFull ex_stranded" "ps_blocked ex_stranded 2 = Some 8"
    by (simp_all add: ex_stranded_def ex_pool_def isFull_def)
  from stop_strands_producers [OF ex_stranded_reach this st] st show ?thesis by (simp add: ex_stranded_def)
qed

section \<open>The bounded queue\<close>

text \<open>A bounded queue with room for something behaves as the queue of a running pool, an unbounded one as that of a pool without a maximum.\<close>

definition as_pool :: "nat \<Rightarrow> 'a BoundedBlockingQueue \<Rightarrow> 'a ThreadPool" where
  "as_pool n q = BoundedBlockingQueue.extend q \<lparr>tp_threads = n, tp_running = True\<rparr>"

lemma bounded_queue_as_pool:
  assumes "0 < q_capacity q" and "length (q_queue q) \<le> q_capacity q" and "0 < n"
  shows "tp_run tid who x (as_pool n q) = (case bbq_put tid who x q of (Wait, q') \<Rightarrow> (Blocked, as_pool n q') | (Return u, q') \<Rightarrow> (Queued, as_pool n q'))"
    and "tp_take tid who (as_pool n q) = (case bbq_take tid who q of (Wait, q') \<Rightarrow> (Wait, as_pool n q') | (Return x, q') \<Rightarrow> (Return (Some x), as_pool n q'))"
  using assms
  by (auto simp: tp_run_def tp_take_def bbq_put_def bbq_take_def as_pool_def BoundedBlockingQueue.defs isFull_def bbq_full_def split: list.split)

end
