(* ===== verification/PollPoller.thy ===== *)
theory PollPoller
  imports Channel
begin

text \<open>
  \<^verbatim>\<open>muduo/net/poller/PollPoller.h\<close> and \<^verbatim>\<open>muduo/net/poller/PollPoller.cc\<close>, the poller that \<^verbatim>\<open>MUDUO_USE_POLL\<close> selects. The state holds the array
  that is given to \<^verbatim>\<open>poll(2)\<close>, the poller's map from descriptors to channels and the channel objects; the index of a
  channel is its position in the array. A descriptor is ignored by \<^verbatim>\<open>poll(2)\<close> while its entry holds \<open>- fd - 1\<close>.
\<close>

section \<open>State\<close>

record pollfd =
  pf_fd :: int
  pf_events :: "16 word"
  pf_revents :: "16 word"

record PollPoller =
  pp_pollfds :: "pollfd list"
  pp_channels :: "int \<rightharpoonup> nat"
  pp_objs :: "nat \<rightharpoonup> Channel"

definition new_PollPoller :: PollPoller where
  "new_PollPoller = \<lparr>pp_pollfds = [], pp_channels = Map.empty, pp_objs = Map.empty\<rparr>"

definition pp_on_channel :: "nat \<Rightarrow> (Channel \<Rightarrow> Channel) \<Rightarrow> PollPoller \<Rightarrow> PollPoller option" where
  "pp_on_channel channel f p = do { c \<leftarrow> pp_objs p channel; Some (p\<lparr>pp_objs := (pp_objs p)(channel \<mapsto> f c)\<rparr>) }"

section \<open>Waiting for events\<close>

fun pp_fillActiveChannels :: "pollfd list \<Rightarrow> int \<Rightarrow> PollPoller \<times> nat list \<Rightarrow> (PollPoller \<times> nat list) option" where
  "pp_fillActiveChannels [] numEvents s = Some s"
| "pp_fillActiveChannels (pfd # pfds) numEvents (p, activeChannels) =
     (if numEvents > 0 then
        if sint (pf_revents pfd) > 0 then do {
          channel \<leftarrow> pp_channels p (pf_fd pfd);
          c \<leftarrow> pp_objs p channel;
          assert_that (ch_fd c = pf_fd pfd);
          p \<leftarrow> pp_on_channel channel (set_revents (signed (pf_revents pfd))) p;
          pp_fillActiveChannels pfds (numEvents - 1) (p, activeChannels @ [channel])
        }
        else pp_fillActiveChannels pfds numEvents (p, activeChannels)
      else Some (p, activeChannels))"

text \<open>\<open>numEvents\<close> is what \<^verbatim>\<open>poll(2)\<close> returned and \<open>revents\<close> what it stored in the array.\<close>

definition pp_poll :: "int \<Rightarrow> 16 word list \<Rightarrow> PollPoller \<times> nat list \<Rightarrow> (PollPoller \<times> nat list) option" where
  "pp_poll numEvents revents s =
     (let (p, activeChannels) = s;
          p = p\<lparr>pp_pollfds := map2 (\<lambda>e r. e\<lparr>pf_revents := r\<rparr>) (pp_pollfds p) revents\<rparr>
      in if numEvents > 0 then pp_fillActiveChannels (pp_pollfds p) numEvents (p, activeChannels) else Some (p, activeChannels))"

section \<open>Changing the array\<close>

definition pp_updateChannel :: "nat \<Rightarrow> PollPoller \<Rightarrow> PollPoller option" where
  "pp_updateChannel channel p = do {
     c \<leftarrow> pp_objs p channel;
     let fd = ch_fd c;
     if ch_index c < 0 then do {
       assert_that (pp_channels p fd = None);
       let pfd = \<lparr>pf_fd = fd, pf_events = ucast (ch_events c), pf_revents = 0\<rparr>;
       let p = p\<lparr>pp_pollfds := pp_pollfds p @ [pfd]\<rparr>;
       let idx = int (length (pp_pollfds p)) - 1;
       p \<leftarrow> pp_on_channel channel (set_index idx) p;
       Some (p\<lparr>pp_channels := (pp_channels p)(fd \<mapsto> channel)\<rparr>)
     } else do {
       assert_that (pp_channels p fd \<noteq> None);
       assert_that (pp_channels p fd = Some channel);
       let idx = ch_index c;
       assert_that (0 \<le> idx \<and> idx < int (length (pp_pollfds p)));
       let pfd = pp_pollfds p ! nat idx;
       assert_that (pf_fd pfd = fd \<or> pf_fd pfd = - fd - 1);
       let pfd = pfd\<lparr>pf_events := ucast (ch_events c), pf_revents := 0\<rparr>;
       let pfd = (if isNoneEvent c then pfd\<lparr>pf_fd := - fd - 1\<rparr> else pfd);
       Some (p\<lparr>pp_pollfds := (pp_pollfds p)[nat idx := pfd]\<rparr>)
     }
   }"

definition pp_removeChannel :: "nat \<Rightarrow> PollPoller \<Rightarrow> PollPoller option" where
  "pp_removeChannel channel p = do {
     c \<leftarrow> pp_objs p channel;
     let fd = ch_fd c;
     assert_that (pp_channels p fd \<noteq> None);
     assert_that (pp_channels p fd = Some channel);
     assert_that (isNoneEvent c);
     let idx = ch_index c;
     let pfds = pp_pollfds p;
     assert_that (0 \<le> idx \<and> idx < int (length pfds));
     let pfd = pfds ! nat idx;
     assert_that (pf_fd pfd = - fd - 1 \<and> signed (pf_events pfd) = ch_events c);
     let p = p\<lparr>pp_channels := (pp_channels p)(fd := None)\<rparr>;
     if nat idx = length pfds - 1 then Some (p\<lparr>pp_pollfds := butlast pfds\<rparr>)
     else do {
       let channelAtEnd = pf_fd (last pfds);
       let pfds = pfds[nat idx := last pfds, length pfds - 1 := pfds ! nat idx];
       let channelAtEnd = (if channelAtEnd < 0 then - channelAtEnd - 1 else channelAtEnd);
       other \<leftarrow> pp_channels p channelAtEnd;
       p \<leftarrow> pp_on_channel other (set_index idx) p;
       Some (p\<lparr>pp_pollfds := butlast pfds\<rparr>)
     }
   }"

text \<open>The interest operations of a channel, and its removal.\<close>

definition pp_set_interest :: "interest \<Rightarrow> nat \<Rightarrow> PollPoller \<Rightarrow> PollPoller option" where
  "pp_set_interest i channel p = do {
     p \<leftarrow> pp_on_channel channel (\<lambda>c. c\<lparr>ch_events := apply_interest i (ch_events c), ch_addedToLoop := True\<rparr>) p;
     pp_updateChannel channel p
   }"

definition pp_Channel_remove :: "nat \<Rightarrow> PollPoller \<Rightarrow> PollPoller option" where
  "pp_Channel_remove channel p = do {
     c \<leftarrow> pp_objs p channel;
     assert_that (isNoneEvent c);
     p \<leftarrow> pp_on_channel channel (\<lambda>c. c\<lparr>ch_addedToLoop := False\<rparr>) p;
     pp_removeChannel channel p
   }"

section \<open>The array, the map and the indices agree\<close>

text \<open>The descriptor an entry stands for.\<close>

definition decode :: "int \<Rightarrow> int" where
  "decode f = (if f < 0 then - f - 1 else f)"

lemma decode_simps [simp]: "0 \<le> f \<Longrightarrow> decode f = f" "0 \<le> f \<Longrightarrow> decode (- f - 1) = f"
  by (simp_all add: decode_def)

definition entry_ok :: "Channel \<Rightarrow> pollfd \<Rightarrow> bool" where
  "entry_ok c e \<longleftrightarrow> pf_events e = ucast (ch_events c) \<and> (pf_fd e = ch_fd c \<or> pf_fd e = - ch_fd c - 1)
     \<and> (isNoneEvent c \<longrightarrow> pf_fd e = - ch_fd c - 1)"

definition pp_inv :: "PollPoller \<Rightarrow> bool" where
  "pp_inv p \<longleftrightarrow>
     distinct (map (decode \<circ> pf_fd) (pp_pollfds p))
     \<and> (\<forall>fd ch. pp_channels p fd = Some ch \<longrightarrow> 0 \<le> fd \<and>
          (\<exists>c i. pp_objs p ch = Some c \<and> ch_fd c = fd \<and> ch_index c = int i \<and> i < length (pp_pollfds p)
             \<and> entry_ok c (pp_pollfds p ! i)))
     \<and> (\<forall>i < length (pp_pollfds p). pp_channels p (decode (pf_fd (pp_pollfds p ! i))) \<noteq> None)"

lemma pp_inv_new: "pp_inv new_PollPoller"
  by (simp add: pp_inv_def new_PollPoller_def)

lemma pp_invI:
  assumes "\<And>i j. i < length (pp_pollfds p) \<Longrightarrow> j < length (pp_pollfds p) \<Longrightarrow>
      decode (pf_fd (pp_pollfds p ! i)) = decode (pf_fd (pp_pollfds p ! j)) \<Longrightarrow> i = j"
    and "\<And>fd ch. pp_channels p fd = Some ch \<Longrightarrow> 0 \<le> fd"
    and "\<And>fd ch. pp_channels p fd = Some ch \<Longrightarrow> \<exists>c i. pp_objs p ch = Some c \<and> ch_fd c = fd \<and> ch_index c = int i
      \<and> i < length (pp_pollfds p) \<and> entry_ok c (pp_pollfds p ! i)"
    and "\<And>i. i < length (pp_pollfds p) \<Longrightarrow> pp_channels p (decode (pf_fd (pp_pollfds p ! i))) \<noteq> None"
  shows "pp_inv p"
  using assms unfolding pp_inv_def distinct_conv_nth by simp blast

lemma pp_inv_distinct:
  assumes "pp_inv p" and "i < length (pp_pollfds p)" and "j < length (pp_pollfds p)"
    and "decode (pf_fd (pp_pollfds p ! i)) = decode (pf_fd (pp_pollfds p ! j))"
  shows "i = j"
  using assms unfolding pp_inv_def distinct_conv_nth by auto

lemma pp_inv_map:
  assumes "pp_inv p" and "pp_channels p fd = Some ch"
  obtains c i where "pp_objs p ch = Some c" "ch_fd c = fd" "ch_index c = int i" "i < length (pp_pollfds p)"
    "entry_ok c (pp_pollfds p ! i)" "0 \<le> fd" "decode (pf_fd (pp_pollfds p ! i)) = fd"
proof -
  from assms obtain c i where c: "pp_objs p ch = Some c" "ch_fd c = fd" "ch_index c = int i" "i < length (pp_pollfds p)"
      "entry_ok c (pp_pollfds p ! i)" "0 \<le> fd"
    unfolding pp_inv_def by blast
  moreover from c have "decode (pf_fd (pp_pollfds p ! i)) = fd" by (auto simp: entry_ok_def)
  ultimately show ?thesis by (rule that)
qed

lemma pp_inv_obj:
  assumes "pp_inv p" and "pp_channels p fd = Some ch" and "pp_objs p ch = Some c" and "ch_index c = int i"
  shows "i < length (pp_pollfds p)" and "entry_ok c (pp_pollfds p ! i)" and "decode (pf_fd (pp_pollfds p ! i)) = fd"
    and "0 \<le> fd" and "ch_fd c = fd"
  using pp_inv_map [OF assms(1,2)] assms(3,4) by (metis option.inject of_nat_eq_iff)+

lemma pp_inv_entry:
  assumes "pp_inv p" and "i < length (pp_pollfds p)"
  obtains ch c where "pp_channels p (decode (pf_fd (pp_pollfds p ! i))) = Some ch" "pp_objs p ch = Some c" "ch_index c = int i"
    "ch_fd c = decode (pf_fd (pp_pollfds p ! i))" "entry_ok c (pp_pollfds p ! i)"
proof -
  from assms obtain ch where ch: "pp_channels p (decode (pf_fd (pp_pollfds p ! i))) = Some ch"
    unfolding pp_inv_def by blast
  from pp_inv_map [OF assms(1) ch] obtain c j where c: "pp_objs p ch = Some c" "ch_fd c = decode (pf_fd (pp_pollfds p ! i))"
      "ch_index c = int j" "j < length (pp_pollfds p)" "entry_ok c (pp_pollfds p ! j)"
      "decode (pf_fd (pp_pollfds p ! j)) = decode (pf_fd (pp_pollfds p ! i))"
    by blast
  with pp_inv_distinct [OF assms(1) c(4) assms(2) c(6)] ch show ?thesis using that by blast
qed

section \<open>Every operation keeps the invariant\<close>

text \<open>What \<^verbatim>\<open>updateChannel\<close> makes of the entry of a registered channel.\<close>

definition pp_entry :: "Channel \<Rightarrow> pollfd \<Rightarrow> pollfd" where
  "pp_entry c e = e\<lparr>pf_events := ucast (ch_events c), pf_revents := 0, pf_fd := (if isNoneEvent c then - ch_fd c - 1 else pf_fd e)\<rparr>"

lemma pp_entry_ok: "entry_ok c0 e \<Longrightarrow> ch_fd c = ch_fd c0 \<Longrightarrow> entry_ok c (pp_entry c e)"
  by (auto simp: entry_ok_def pp_entry_def)

lemma pp_entry_decode: "entry_ok c0 e \<Longrightarrow> ch_fd c = ch_fd c0 \<Longrightarrow> 0 \<le> ch_fd c0 \<Longrightarrow> decode (pf_fd (pp_entry c e)) = decode (pf_fd e)"
  by (auto simp: entry_ok_def pp_entry_def)

lemma update_registered:
  assumes inv: "pp_inv p" and obj: "pp_objs p ch = Some c" "pp_channels p (ch_fd c) = Some ch"
    and c': "ch_fd c' = ch_fd c" "ch_index c' = ch_index c"
  defines "p' \<equiv> p\<lparr>pp_objs := (pp_objs p)(ch \<mapsto> c'),
      pp_pollfds := (pp_pollfds p)[nat (ch_index c) := pp_entry c' (pp_pollfds p ! nat (ch_index c))]\<rparr>"
  shows "pp_updateChannel ch (p\<lparr>pp_objs := (pp_objs p)(ch \<mapsto> c')\<rparr>) = Some p'" and "pp_inv p'"
proof -
  from pp_inv_map [OF inv obj(2)] obj(1) obtain i where i: "ch_index c = int i" "i < length (pp_pollfds p)"
      "entry_ok c (pp_pollfds p ! i)" "0 \<le> ch_fd c" "decode (pf_fd (pp_pollfds p ! i)) = ch_fd c"
    by auto
  show "pp_updateChannel ch (p\<lparr>pp_objs := (pp_objs p)(ch \<mapsto> c')\<rparr>) = Some p'"
    using i obj c' by (auto simp: pp_updateChannel_def p'_def Let_def pp_entry_def entry_ok_def)
  have dec: "decode (pf_fd (pp_pollfds p' ! j)) = decode (pf_fd (pp_pollfds p ! j))" if "j < length (pp_pollfds p)" for j
    using that i pp_entry_decode [OF i(3) c'(1)] by (auto simp: p'_def nth_list_update)
  have len: "length (pp_pollfds p') = length (pp_pollfds p)" and chans: "pp_channels p' = pp_channels p" by (simp_all add: p'_def)
  show "pp_inv p'"
  proof (rule pp_invI)
    fix j k
    assume "j < length (pp_pollfds p')" "k < length (pp_pollfds p')"
      "decode (pf_fd (pp_pollfds p' ! j)) = decode (pf_fd (pp_pollfds p' ! k))"
    then show "j = k" using pp_inv_distinct [OF inv, of j k] by (simp add: dec len)
  next
    fix fd' ch'
    assume "pp_channels p' fd' = Some ch'"
    then have m: "pp_channels p fd' = Some ch'" by (simp add: chans)
    then show "0 \<le> fd'" by (rule pp_inv_map [OF inv])
    from pp_inv_map [OF inv m] obtain d j where d: "pp_objs p ch' = Some d" "ch_fd d = fd'" "ch_index d = int j" "j < length (pp_pollfds p)"
        "entry_ok d (pp_pollfds p ! j)" "decode (pf_fd (pp_pollfds p ! j)) = fd'"
      by metis
    show "\<exists>d i. pp_objs p' ch' = Some d \<and> ch_fd d = fd' \<and> ch_index d = int i \<and> i < length (pp_pollfds p') \<and> entry_ok d (pp_pollfds p' ! i)"
    proof (cases "ch' = ch")
      case True
      with d obj i c' pp_entry_ok [OF i(3) c'(1)] show ?thesis by (auto simp: p'_def)
    next
      case False
      then have "fd' \<noteq> ch_fd c" using m obj(2) by auto
      then have "j \<noteq> i" using d(6) i(5) by auto
      with False d i show ?thesis by (auto simp: p'_def)
    qed
  next
    fix j
    assume "j < length (pp_pollfds p')"
    then show "pp_channels p' (decode (pf_fd (pp_pollfds p' ! j))) \<noteq> None"
      using pp_inv_entry [OF inv, of j] by (auto simp: dec len chans)
  qed
qed

lemma update_new:
  assumes inv: "pp_inv p" and obj: "pp_objs p ch = Some c" "ch_index c < 0" "pp_channels p (ch_fd c) = None"
    and c': "ch_fd c' = ch_fd c" "ch_index c' = ch_index c" "\<not> isNoneEvent c'" and fd: "0 \<le> ch_fd c"
  defines "p' \<equiv> p\<lparr>pp_objs := (pp_objs p)(ch \<mapsto> set_index (int (length (pp_pollfds p))) c'), pp_channels := (pp_channels p)(ch_fd c \<mapsto> ch),
      pp_pollfds := pp_pollfds p @ [\<lparr>pf_fd = ch_fd c, pf_events = ucast (ch_events c'), pf_revents = 0\<rparr>]\<rparr>"
  shows "pp_updateChannel ch (p\<lparr>pp_objs := (pp_objs p)(ch \<mapsto> c')\<rparr>) = Some p'" and "pp_inv p'"
proof -
  show "pp_updateChannel ch (p\<lparr>pp_objs := (pp_objs p)(ch \<mapsto> c')\<rparr>) = Some p'"
    using obj c' by (simp add: pp_updateChannel_def p'_def Let_def pp_on_channel_def)
  have old: "fd' \<noteq> ch_fd c" "ch' \<noteq> ch" if "pp_channels p fd' = Some ch'" for fd' ch'
    using that obj pp_inv_map [OF inv that] by fastforce+
  have new: "decode (pf_fd (pp_pollfds p ! j)) \<noteq> ch_fd c" if "j < length (pp_pollfds p)" for j
    using pp_inv_entry [OF inv that] obj(3) by (metis option.distinct(1))
  show "pp_inv p'"
  proof (rule pp_invI)
    fix j k
    assume "j < length (pp_pollfds p')" "k < length (pp_pollfds p')"
      "decode (pf_fd (pp_pollfds p' ! j)) = decode (pf_fd (pp_pollfds p' ! k))"
    then show "j = k"
      using pp_inv_distinct [OF inv, of j k] new [of j] new [of k] fd by (auto simp: p'_def nth_append less_Suc_eq split: if_splits)
  next
    fix fd' ch'
    assume m: "pp_channels p' fd' = Some ch'"
    then show "0 \<le> fd'" using fd by (auto simp: p'_def elim: pp_inv_map [OF inv] split: if_splits)
    show "\<exists>d i. pp_objs p' ch' = Some d \<and> ch_fd d = fd' \<and> ch_index d = int i \<and> i < length (pp_pollfds p') \<and> entry_ok d (pp_pollfds p' ! i)"
    proof (cases "fd' = ch_fd c")
      case True
      with m c' show ?thesis by (auto simp: p'_def set_index_def entry_ok_def isNoneEvent_def)
    next
      case False
      then have m': "pp_channels p fd' = Some ch'" using m by (simp add: p'_def)
      from pp_inv_map [OF inv m'] obtain d i where "pp_objs p ch' = Some d" "ch_fd d = fd'" "ch_index d = int i" "i < length (pp_pollfds p)"
          "entry_ok d (pp_pollfds p ! i)"
        by blast
      then show ?thesis using old [OF m'] by (intro exI [of _ d] exI [of _ i]) (simp add: p'_def nth_append)
    qed
  next
    fix j
    assume "j < length (pp_pollfds p')"
    then show "pp_channels p' (decode (pf_fd (pp_pollfds p' ! j))) \<noteq> None"
      using pp_inv_entry [OF inv, of j] new [of j] fd by (auto simp: p'_def nth_append less_Suc_eq)
  qed
qed

text \<open>\<^verbatim>\<open>removeChannel\<close> moves the last entry to the free place.\<close>

lemma butlast_swap_nth:
  assumes "i < length xs" and "j < length xs - 1"
  shows "butlast (xs[i := last xs, length xs - 1 := y]) ! j = xs ! (if j = i then length xs - 1 else j)"
proof -
  have "xs \<noteq> []" using assms(1) by auto
  with assms show ?thesis by (simp add: nth_butlast nth_list_update last_conv_nth)
qed

lemma butlast_swap_same: "i = length xs - 1 \<Longrightarrow> butlast (xs[i := x, length xs - 1 := y]) = butlast xs"
  by (simp add: butlast_list_update)

definition removed :: "nat \<Rightarrow> nat \<Rightarrow> Channel \<Rightarrow> PollPoller \<Rightarrow> PollPoller" where
  "removed i moved c p = p\<lparr>pp_channels := (pp_channels p)(ch_fd c := None),
     pp_pollfds := butlast ((pp_pollfds p)[i := last (pp_pollfds p), length (pp_pollfds p) - 1 := pp_pollfds p ! i]),
     pp_objs := (if i = length (pp_pollfds p) - 1 then pp_objs p
                 else (pp_objs p)(moved := map_option (set_index (int i)) (pp_objs p moved)))\<rparr>"

lemma removed_simps:
  "length (pp_pollfds (removed i moved c p)) = length (pp_pollfds p) - 1"
  "pp_channels (removed i moved c p) = (pp_channels p)(ch_fd c := None)"
  "i < length (pp_pollfds p) \<Longrightarrow> j < length (pp_pollfds p) - 1 \<Longrightarrow>
     pp_pollfds (removed i moved c p) ! j = pp_pollfds p ! (if j = i then length (pp_pollfds p) - 1 else j)"
  by (simp_all add: removed_def butlast_swap_nth del: One_nat_def)

lemma remove_registered:
  assumes inv: "pp_inv p" and obj: "pp_objs p ch = Some c" "pp_channels p (ch_fd c) = Some ch" and none: "isNoneEvent c"
    and i: "ch_index c = int i" "i < length (pp_pollfds p)"
    and moved: "pp_channels p (decode (pf_fd (last (pp_pollfds p)))) = Some moved"
  shows "pp_removeChannel ch p = Some (removed i moved c p)"
proof -
  let ?n = "length (pp_pollfds p) - 1"
  have ne: "pp_pollfds p \<noteq> []" using i by auto
  note e = pp_inv_obj(2,3) [OF inv obj(2,1) i(1)]
  from pp_inv_map [OF inv moved] obtain d where d: "pp_objs p moved = Some d" by blast
  from e none have e': "pf_fd (pp_pollfds p ! i) = - ch_fd c - 1" "signed (pf_events (pp_pollfds p ! i)) = ch_events c"
    by (auto simp: entry_ok_def isNoneEvent_def kNoneEvent_def)
  show ?thesis
  proof (cases "i = ?n")
    case True
    then have "length (pp_pollfds p) - Suc 0 = i" by simp
    with obj none i e' show ?thesis
      by (simp add: pp_removeChannel_def removed_def Let_def butlast_list_update)
  next
    case False
    have "decode (pf_fd (last (pp_pollfds p))) \<noteq> ch_fd c"
      using pp_inv_distinct [OF inv i(2), of ?n] False e ne by (auto simp: last_conv_nth)
    moreover have "decode (pf_fd (last (pp_pollfds p))) = (if pf_fd (last (pp_pollfds p)) < 0 then - pf_fd (last (pp_pollfds p)) - 1 else pf_fd (last (pp_pollfds p)))"
      by (simp add: decode_def)
    ultimately show ?thesis using obj none i e' d moved False
      by (simp add: pp_removeChannel_def removed_def Let_def pp_on_channel_def)
  qed
qed

lemma removed_objs:
  assumes inv: "pp_inv p" and c: "pp_channels p (ch_fd c) = Some ch" "pp_objs p ch = Some c" "ch_index c = int i"
    and i: "i < length (pp_pollfds p)"
    and moved: "pp_channels p (decode (pf_fd (last (pp_pollfds p)))) = Some moved"
    and x: "pp_channels p fd = Some x" "fd \<noteq> ch_fd c" "pp_objs p x = Some d" "ch_index d = int j"
  shows "\<exists>d' k. pp_objs (removed i moved c p) x = Some d' \<and> ch_fd d' = ch_fd d \<and> ch_events d' = ch_events d \<and> ch_index d' = int k
    \<and> k < length (pp_pollfds p) - 1 \<and> pp_pollfds (removed i moved c p) ! k = pp_pollfds p ! j"
proof -
  let ?n = "length (pp_pollfds p) - 1"
  have ne: "pp_pollfds p \<noteq> []" using i by auto
  note j = pp_inv_obj(1,3) [OF inv x(1,3,4)]
  note ci = pp_inv_obj(3) [OF inv c]
  have "j \<noteq> i" using j ci x(2) by auto
  show ?thesis
  proof (cases "j = ?n")
    case True
    then have "moved = x" "i < ?n" using moved j x(1) ne \<open>j \<noteq> i\<close> i by (auto simp: last_conv_nth)
    with True x(3) show ?thesis
      using removed_simps(3) [OF i, of i moved c]
      by (intro exI [of _ "set_index (int i) d"] exI [of _ i]) (simp add: removed_def set_index_def)
  next
    case False
    have "i \<noteq> ?n \<Longrightarrow> moved \<noteq> x"
    proof
      assume "i \<noteq> ?n" "moved = x"
      have "decode (pf_fd (pp_pollfds p ! j)) = decode (pf_fd (last (pp_pollfds p)))"
        using pp_inv_obj(3) [OF inv moved _ x(4)] \<open>moved = x\<close> x(3) by simp
      with pp_inv_distinct [OF inv j(1), of ?n] ne False show False by (simp add: last_conv_nth)
    qed
    moreover have "j < ?n" using j False by simp
    ultimately show ?thesis
      using x removed_simps(3) [OF i, of j moved c] \<open>j \<noteq> i\<close> by (intro exI [of _ d] exI [of _ j]) (auto simp: removed_def)
  qed
qed

lemma removed_inv:
  assumes inv: "pp_inv p" and c: "pp_channels p (ch_fd c) = Some ch" "pp_objs p ch = Some c" "ch_index c = int i"
    and i: "i < length (pp_pollfds p)"
    and moved: "pp_channels p (decode (pf_fd (last (pp_pollfds p)))) = Some moved"
  shows "pp_inv (removed i moved c p)"
proof (rule pp_invI)
  let ?n = "length (pp_pollfds p) - 1"
  let ?p = "removed i moved c p"
  fix j k
  assume "j < length (pp_pollfds ?p)" "k < length (pp_pollfds ?p)"
    "decode (pf_fd (pp_pollfds ?p ! j)) = decode (pf_fd (pp_pollfds ?p ! k))"
  then show "j = k"
    using pp_inv_distinct [OF inv, of "if j = i then ?n else j" "if k = i then ?n else k"] i
    by (simp add: removed_simps split: if_splits) linarith+
next
  fix fd' ch'
  assume "pp_channels (removed i moved c p) fd' = Some ch'"
  then have m: "pp_channels p fd' = Some ch'" "fd' \<noteq> ch_fd c" by (auto simp: removed_simps split: if_splits)
  then show "0 \<le> fd'" by (auto elim: pp_inv_map [OF inv])
  from pp_inv_map [OF inv m(1)] obtain d j where d: "pp_objs p ch' = Some d" "ch_fd d = fd'" "ch_index d = int j" "entry_ok d (pp_pollfds p ! j)"
    by blast
  from removed_objs [OF inv c i moved m d(1,3)] d(2,4)
  show "\<exists>d k. pp_objs (removed i moved c p) ch' = Some d \<and> ch_fd d = fd' \<and> ch_index d = int k
      \<and> k < length (pp_pollfds (removed i moved c p)) \<and> entry_ok d (pp_pollfds (removed i moved c p) ! k)"
    by (auto simp: removed_simps entry_ok_def isNoneEvent_def)
next
  let ?n = "length (pp_pollfds p) - 1"
  fix j
  assume "j < length (pp_pollfds (removed i moved c p))"
  then have j: "j < ?n" by (simp add: removed_simps)
  let ?k = "if j = i then ?n else j"
  have k: "?k < length (pp_pollfds p)" "?k \<noteq> i" using j i by auto
  note ci = pp_inv_obj(3) [OF inv c]
  have "decode (pf_fd (pp_pollfds p ! ?k)) \<noteq> ch_fd c" using pp_inv_distinct [OF inv k(1) i] k(2) ci by auto
  moreover have "pp_channels p (decode (pf_fd (pp_pollfds p ! ?k))) \<noteq> None" using pp_inv_entry [OF inv k(1)] by (metis option.distinct(1))
  ultimately show "pp_channels (removed i moved c p) (decode (pf_fd (pp_pollfds (removed i moved c p) ! j))) \<noteq> None"
    using removed_simps(3) [OF i j, of moved c] by (simp add: removed_simps(2))
qed

section \<open>Waiting\<close>

text \<open>What \<^verbatim>\<open>poll(2)\<close> promises: nothing is stored for an entry with a negative descriptor, the events it stores have no sign
  bit, and it returns the number of entries with events. An error stores nothing.\<close>

definition poll_answer :: "PollPoller \<Rightarrow> int \<Rightarrow> 16 word list \<Rightarrow> bool" where
  "poll_answer p numEvents revents \<longleftrightarrow>
     length revents = length (pp_pollfds p)
     \<and> (if numEvents < 0 then revents = map pf_revents (pp_pollfds p)
        else numEvents = int (length (filter (\<lambda>r. r \<noteq> 0) revents))
          \<and> list_all (\<lambda>r. 0 \<le> sint r) revents \<and> list_all2 (\<lambda>e r. pf_fd e < 0 \<longrightarrow> r = 0) (pp_pollfds p) revents)"

text \<open>The channels of the entries with events.\<close>

definition reported :: "PollPoller \<Rightarrow> pollfd list \<Rightarrow> nat list" where
  "reported p pfds = map (\<lambda>e. the (pp_channels p (pf_fd e))) (filter (\<lambda>e. 0 < sint (pf_revents e)) pfds)"

lemma pp_inv_touch:
  assumes "pp_inv p" and "pp_objs p ch = Some c" and "ch_fd c' = ch_fd c" "ch_index c' = ch_index c" "ch_events c' = ch_events c"
  shows "pp_inv (p\<lparr>pp_objs := (pp_objs p)(ch \<mapsto> c')\<rparr>)"
  using assms unfolding pp_inv_def entry_ok_def isNoneEvent_def by fastforce

lemma pp_inv_revents:
  assumes "pp_inv p" and "map (\<lambda>e. (pf_fd e, pf_events e)) xs = map (\<lambda>e. (pf_fd e, pf_events e)) (pp_pollfds p)"
  shows "pp_inv (p\<lparr>pp_pollfds := xs\<rparr>)"
proof -
  have len: "length xs = length (pp_pollfds p)" using assms(2) by (rule map_eq_imp_length_eq)
  have eq: "pf_fd (xs ! i) = pf_fd (pp_pollfds p ! i)" "pf_events (xs ! i) = pf_events (pp_pollfds p ! i)" if "i < length xs" for i
    using arg_cong [OF assms(2), of "\<lambda>l. l ! i"] that len by simp_all
  show ?thesis
  proof (rule pp_invI)
    fix fd ch
    assume "pp_channels (p\<lparr>pp_pollfds := xs\<rparr>) fd = Some ch"
    then have m: "pp_channels p fd = Some ch" by simp
    then show "0 \<le> fd" by (auto elim: pp_inv_map [OF assms(1)])
    from pp_inv_map [OF assms(1) m] obtain c i where "pp_objs p ch = Some c" "ch_fd c = fd" "ch_index c = int i" "i < length (pp_pollfds p)"
        "entry_ok c (pp_pollfds p ! i)" by blast
    then show "\<exists>c i. pp_objs (p\<lparr>pp_pollfds := xs\<rparr>) ch = Some c \<and> ch_fd c = fd \<and> ch_index c = int i
        \<and> i < length (pp_pollfds (p\<lparr>pp_pollfds := xs\<rparr>)) \<and> entry_ok c (pp_pollfds (p\<lparr>pp_pollfds := xs\<rparr>) ! i)"
      using eq [of i] len by (intro exI [of _ c] exI [of _ i]) (simp add: entry_ok_def)
  next
    fix i
    assume "i < length (pp_pollfds (p\<lparr>pp_pollfds := xs\<rparr>))"
    then have i: "i < length (pp_pollfds p)" "pf_fd (xs ! i) = pf_fd (pp_pollfds p ! i)" using eq len by simp_all
    from pp_inv_entry [OF assms(1) i(1)] i(2)
    show "pp_channels (p\<lparr>pp_pollfds := xs\<rparr>) (decode (pf_fd (pp_pollfds (p\<lparr>pp_pollfds := xs\<rparr>) ! i))) \<noteq> None"
      by (metis PollPoller.select_convs(1,2) PollPoller.surjective PollPoller.update_convs(1) option.distinct(1))
  qed (use pp_inv_distinct [OF assms(1)] eq len in auto)
qed

lemma pp_fill_ok:
  assumes "pp_inv p" and "\<And>e. e \<in> set pfds \<Longrightarrow> 0 < sint (pf_revents e) \<Longrightarrow> 0 \<le> pf_fd e \<and> pp_channels p (pf_fd e) \<noteq> None"
    and "distinct (map pf_fd pfds)" and "int (length (filter (\<lambda>e. 0 < sint (pf_revents e)) pfds)) \<le> n"
  shows "\<exists>p'. pp_fillActiveChannels pfds n (p, act) = Some (p', act @ reported p pfds) \<and> pp_inv p'
    \<and> pp_channels p' = pp_channels p \<and> pp_pollfds p' = pp_pollfds p
    \<and> (\<forall>ch. map_option (\<lambda>c. c\<lparr>ch_revents := 0\<rparr>) (pp_objs p' ch) = map_option (\<lambda>c. c\<lparr>ch_revents := 0\<rparr>) (pp_objs p ch))
    \<and> (\<forall>ch. ch \<notin> set (reported p pfds) \<longrightarrow> pp_objs p' ch = pp_objs p ch)
    \<and> (\<forall>e \<in> set pfds. 0 < sint (pf_revents e) \<longrightarrow>
        (\<exists>ch c. pp_channels p (pf_fd e) = Some ch \<and> pp_objs p' ch = Some c \<and> ch_revents c = signed (pf_revents e)))"
  using assms
proof (induction pfds arbitrary: p n act)
  case Nil
  then show ?case by (simp add: reported_def)
next
  case (Cons e es)
  show ?case
  proof (cases "0 < sint (pf_revents e)")
    case False
    then have rep: "reported p (e # es) = reported p es" by (simp add: reported_def)
    show ?thesis
    proof (cases "0 < n")
      case True
      have "\<And>x. x \<in> set es \<Longrightarrow> 0 < sint (pf_revents x) \<Longrightarrow> 0 \<le> pf_fd x \<and> pp_channels p (pf_fd x) \<noteq> None"
        "distinct (map pf_fd es)" "int (length (filter (\<lambda>e. 0 < sint (pf_revents e)) es)) \<le> n"
        using Cons.prems(2-4) False by auto
      from Cons.IH [OF Cons.prems(1) this, of act] True False rep show ?thesis by simp
    next
      case False
      with Cons.prems(4) have "length (filter (\<lambda>e. 0 < sint (pf_revents e)) (e # es)) = 0" by linarith
      then have none: "filter (\<lambda>e. 0 < sint (pf_revents e)) (e # es) = []" unfolding length_0_conv .
      then have "\<forall>x \<in> set (e # es). \<not> 0 < sint (pf_revents x)" unfolding filter_empty_conv .
      moreover have "reported p (e # es) = []" unfolding reported_def none by simp
      ultimately show ?thesis using Cons.prems(1) False by simp
    qed
  next
    case True
    with Cons.prems(2) [of e] obtain ch where ch: "pp_channels p (pf_fd e) = Some ch" by auto
    from pp_inv_map [OF Cons.prems(1) ch] obtain c where c: "pp_objs p ch = Some c" "ch_fd c = pf_fd e" by blast
    let ?p = "p\<lparr>pp_objs := (pp_objs p)(ch \<mapsto> set_revents (signed (pf_revents e)) c)\<rparr>"
    have inv: "pp_inv ?p" using Cons.prems(1) c by (intro pp_inv_touch) (simp_all add: set_revents_def)
    have n: "0 < n" "int (length (filter (\<lambda>e. 0 < sint (pf_revents e)) es)) \<le> n - 1" using Cons.prems(4) True by simp_all
    have rep: "reported ?p es = reported p es" "reported p (e # es) = ch # reported p es" using ch True by (simp_all add: reported_def)
    have "ch \<notin> set (reported p es)"
    proof
      assume "ch \<in> set (reported p es)"
      then obtain x where x: "x \<in> set es" "0 < sint (pf_revents x)" "ch = the (pp_channels p (pf_fd x))" by (auto simp: reported_def)
      with Cons.prems(2) [of x] have "pp_channels p (pf_fd x) = Some ch" by auto
      then have "pf_fd x = pf_fd e" using c by (auto elim!: pp_inv_map [OF Cons.prems(1)])
      with x(1) Cons.prems(3) show False by (metis distinct.simps(2) image_eqI list.map(2) list.set_map)
    qed
    with Cons.IH [OF inv _ _ n(2), of "act @ [ch]"] Cons.prems(2,3) ch c True n rep show ?thesis
      by (auto simp: pp_on_channel_def set_revents_def)
  qed
qed

lemma answer_counts:
  assumes "length rs = length xs" and "list_all (\<lambda>r. 0 \<le> sint r) rs"
  shows "length (filter (\<lambda>e. 0 < sint (pf_revents e)) (map2 (\<lambda>e r. e\<lparr>pf_revents := r\<rparr>) xs rs)) = length (filter (\<lambda>r. r \<noteq> (0 :: 16 word)) rs)"
  using assms(1) [symmetric] assms(2)
proof (induction xs rs rule: list_induct2)
  case (Cons x xs r rs)
  have "0 < sint r \<longleftrightarrow> r \<noteq> 0" using Cons(3) using signed_eq_0_iff [of r] by (auto simp: order_less_le)
  with Cons show ?case by simp
qed simp

lemma pp_poll_ok:
  assumes inv: "pp_inv p" and ans: "poll_answer p n rs"
  defines "pfds \<equiv> map2 (\<lambda>e r. e\<lparr>pf_revents := r\<rparr>) (pp_pollfds p) rs"
  shows "\<exists>p'. pp_poll n rs (p, []) = Some (p', if 0 < n then reported p pfds else []) \<and> pp_inv p' \<and> pp_channels p' = pp_channels p
    \<and> pp_pollfds p' = pfds
    \<and> (\<forall>ch. map_option (\<lambda>c. c\<lparr>ch_revents := 0\<rparr>) (pp_objs p' ch) = map_option (\<lambda>c. c\<lparr>ch_revents := 0\<rparr>) (pp_objs p ch))
    \<and> (0 < n \<longrightarrow> (\<forall>e \<in> set pfds. 0 < sint (pf_revents e) \<longrightarrow>
        (\<exists>ch c. pp_channels p (pf_fd e) = Some ch \<and> pp_objs p' ch = Some c \<and> ch_revents c = signed (pf_revents e))))"
proof -
  have len: "length rs = length (pp_pollfds p)" using ans by (simp add: poll_answer_def)
  let ?p = "p\<lparr>pp_pollfds := pfds\<rparr>"
  have same: "map (\<lambda>e. (pf_fd e, pf_events e)) pfds = map (\<lambda>e. (pf_fd e, pf_events e)) (pp_pollfds p)"
    using len by (auto simp: pfds_def intro: nth_equalityI)
  have inv': "pp_inv ?p" by (rule pp_inv_revents [OF inv same])
  show ?thesis
  proof (cases "0 < n")
    case False
    then show ?thesis using inv' by (simp add: pp_poll_def pfds_def)
  next
    case True
    then have a: "n = int (length (filter (\<lambda>r. r \<noteq> 0) rs))" "list_all (\<lambda>r. 0 \<le> sint r) rs"
        "list_all2 (\<lambda>e r. pf_fd e < 0 \<longrightarrow> r = 0) (pp_pollfds p) rs"
      using ans by (auto simp: poll_answer_def)
    have ok: "0 \<le> pf_fd e \<and> pp_channels ?p (pf_fd e) \<noteq> None" if e: "e \<in> set pfds" "0 < sint (pf_revents e)" for e
    proof -
      from e(1) len obtain i where i: "i < length (pp_pollfds p)" "e = (pp_pollfds p ! i)\<lparr>pf_revents := rs ! i\<rparr>"
        by (auto simp: pfds_def in_set_conv_nth)
      with a(3) e(2) have "0 \<le> pf_fd (pp_pollfds p ! i)" by (auto simp: list_all2_conv_all_nth not_less [symmetric])
      moreover obtain ch where "pp_channels p (decode (pf_fd (pp_pollfds p ! i))) = Some ch" using pp_inv_entry [OF inv i(1)] by blast
      ultimately show ?thesis using i(2) by simp
    qed
    have "distinct (map pf_fd pfds)"
    proof (rule distinct_conv_nth [THEN iffD2], intro allI impI)
      fix i j
      assume "i < length (map pf_fd pfds)" "j < length (map pf_fd pfds)" "i \<noteq> j"
      then show "map pf_fd pfds ! i \<noteq> map pf_fd pfds ! j" using pp_inv_distinct [OF inv', of i j] by auto
    qed
    from pp_fill_ok [OF inv' ok this, of n "[]"] a(1) answer_counts [OF len a(2)] True
    show ?thesis by (auto simp: pp_poll_def pfds_def reported_def)
  qed
qed

section \<open>Runs\<close>

text \<open>What the channels of a loop do with the poller. \<open>PFree\<close> frees a channel object.\<close>

datatype poll_op = PNew nat nat int | PInterest interest nat | PRemove nat | PFree nat | PPoll int "16 word list"

fun pp_exec :: "poll_op \<Rightarrow> PollPoller \<Rightarrow> PollPoller option" where
  "pp_exec (PNew ch loop fd) p = Some (p\<lparr>pp_objs := (pp_objs p)(ch \<mapsto> new_Channel loop fd)\<rparr>)"
| "pp_exec (PInterest i ch) p = pp_set_interest i ch p"
| "pp_exec (PRemove ch) p = pp_Channel_remove ch p"
| "pp_exec (PFree ch) p = Some (p\<lparr>pp_objs := (pp_objs p)(ch := None)\<rparr>)"
| "pp_exec (PPoll n rs) p = map_option fst (pp_poll n rs (p, []))"

definition registered :: "nat \<Rightarrow> PollPoller \<Rightarrow> bool" where
  "registered ch p = (case pp_objs p ch of None \<Rightarrow> False | Some c \<Rightarrow> pp_channels p (ch_fd c) = Some ch)"

text \<open>The contract: a descriptor has one channel at a time, a channel is first registered with some interest, is
  removed without interest and is not used after it was removed.\<close>

fun pp_allowed :: "poll_op \<Rightarrow> PollPoller \<Rightarrow> bool" where
  "pp_allowed (PNew ch loop fd) p \<longleftrightarrow> pp_objs p ch = None \<and> 0 \<le> fd"
| "pp_allowed (PInterest i ch) p \<longleftrightarrow>
     (case pp_objs p ch of None \<Rightarrow> False
      | Some c \<Rightarrow> if ch_index c < 0 then 0 \<le> ch_fd c \<and> pp_channels p (ch_fd c) = None \<and> apply_interest i (ch_events c) \<noteq> kNoneEvent
                  else pp_channels p (ch_fd c) = Some ch)"
| "pp_allowed (PRemove ch) p \<longleftrightarrow> registered ch p \<and> (case pp_objs p ch of None \<Rightarrow> False | Some c \<Rightarrow> isNoneEvent c)"
| "pp_allowed (PFree ch) p \<longleftrightarrow> \<not> registered ch p"
| "pp_allowed (PPoll n rs) p \<longleftrightarrow> poll_answer p n rs"

inductive pp_reach :: "PollPoller \<Rightarrow> bool" where
  pp_start: "pp_reach new_PollPoller"
| pp_step: "pp_reach p \<Longrightarrow> pp_allowed op p \<Longrightarrow> pp_exec op p = Some p' \<Longrightarrow> pp_reach p'"

lemma exec_interest:
  assumes inv: "pp_inv p" and al: "pp_allowed (PInterest i ch) p"
  obtains c c' p' where "pp_objs p ch = Some c" "c' = c\<lparr>ch_events := apply_interest i (ch_events c), ch_addedToLoop := True\<rparr>"
    "pp_set_interest i ch p = pp_updateChannel ch (p\<lparr>pp_objs := (pp_objs p)(ch \<mapsto> c')\<rparr>)"
    "pp_updateChannel ch (p\<lparr>pp_objs := (pp_objs p)(ch \<mapsto> c')\<rparr>) = Some p'" "pp_inv p'"
proof -
  from al obtain c where c: "pp_objs p ch = Some c" by (auto split: option.splits)
  let ?c = "c\<lparr>ch_events := apply_interest i (ch_events c), ch_addedToLoop := True\<rparr>"
  have "\<exists>p'. pp_updateChannel ch (p\<lparr>pp_objs := (pp_objs p)(ch \<mapsto> ?c)\<rparr>) = Some p' \<and> pp_inv p'"
  proof (cases "ch_index c < 0")
    case True
    with al c have "0 \<le> ch_fd c" "pp_channels p (ch_fd c) = None" "\<not> isNoneEvent ?c" by (simp_all add: isNoneEvent_def)
    with update_new [OF inv c True, of ?c] show ?thesis by auto
  next
    case False
    with al c have "pp_channels p (ch_fd c) = Some ch" by simp
    from update_registered [OF inv c this, of ?c] show ?thesis by auto
  qed
  moreover have "pp_set_interest i ch p = pp_updateChannel ch (p\<lparr>pp_objs := (pp_objs p)(ch \<mapsto> ?c)\<rparr>)"
    using c by (simp add: pp_set_interest_def pp_on_channel_def)
  ultimately show ?thesis using that c by blast
qed

lemma exec_remove:
  assumes inv: "pp_inv p" and al: "pp_allowed (PRemove ch) p"
  obtains c i moved q where "pp_objs p ch = Some c" "pp_channels p (ch_fd c) = Some ch" "isNoneEvent c"
    "q = p\<lparr>pp_objs := (pp_objs p)(ch \<mapsto> c\<lparr>ch_addedToLoop := False\<rparr>)\<rparr>" "pp_inv q" "ch_index c = int i" "i < length (pp_pollfds q)"
    "pp_channels q (decode (pf_fd (last (pp_pollfds q)))) = Some moved"
    "pp_Channel_remove ch p = Some (removed i moved (c\<lparr>ch_addedToLoop := False\<rparr>) q)" "pp_inv (removed i moved (c\<lparr>ch_addedToLoop := False\<rparr>) q)"
proof -
  from al obtain c where c: "pp_objs p ch = Some c" "pp_channels p (ch_fd c) = Some ch" "isNoneEvent c"
    by (auto simp: registered_def split: option.splits)
  let ?c = "c\<lparr>ch_addedToLoop := False\<rparr>"
  let ?q = "p\<lparr>pp_objs := (pp_objs p)(ch \<mapsto> ?c)\<rparr>"
  have q: "pp_inv ?q" using inv c by (intro pp_inv_touch) auto
  from pp_inv_map [OF inv c(2)] c(1) obtain i where i: "ch_index c = int i" "i < length (pp_pollfds p)" by auto
  then have "length (pp_pollfds p) - 1 < length (pp_pollfds p)" "pp_pollfds p \<noteq> []" by auto
  with pp_inv_entry [OF inv, of "length (pp_pollfds p) - 1"] obtain moved where
    m: "pp_channels ?q (decode (pf_fd (last (pp_pollfds ?q)))) = Some moved" by (auto simp: last_conv_nth)
  have "pp_removeChannel ch ?q = Some (removed i moved ?c ?q)"
    using remove_registered [OF q _ _ _ _ _ m] c i by (simp add: isNoneEvent_def)
  moreover have "pp_inv (removed i moved ?c ?q)" using removed_inv [OF q _ _ _ _ m] c i by simp
  ultimately show ?thesis using that [OF c refl q i(1) _ m] c i by (simp add: pp_Channel_remove_def pp_on_channel_def)
qed

lemma exec_ok:
  assumes inv: "pp_inv p" and al: "pp_allowed op p"
  shows "\<exists>p'. pp_exec op p = Some p' \<and> pp_inv p'"
proof (cases op)
  case (PNew ch loop fd)
  with assms show ?thesis unfolding pp_inv_def by fastforce
next
  case (PInterest i ch)
  with exec_interest [OF inv] al show ?thesis by (metis pp_exec.simps(2))
next
  case (PRemove ch)
  with exec_remove [OF inv] al show ?thesis by (metis pp_exec.simps(3))
next
  case (PFree ch)
  have "pp_channels p fd \<noteq> Some ch" for fd
  proof
    assume m: "pp_channels p fd = Some ch"
    from pp_inv_map [OF inv m] obtain c where "pp_objs p ch = Some c" "ch_fd c = fd" by blast
    with m al PFree show False by (simp add: registered_def)
  qed
  with inv PFree show ?thesis unfolding pp_inv_def by fastforce
next
  case (PPoll n rs)
  with pp_poll_ok [OF inv, of n rs] al show ?thesis by auto
qed

lemma pp_reach_inv: "pp_reach p \<Longrightarrow> pp_inv p"
  by (induction rule: pp_reach.induct) (use exec_ok in \<open>force intro: pp_inv_new\<close>)+

section \<open>Muted channels\<close>

text \<open>A channel whose entry has a negative descriptor.\<close>

definition muted :: "nat \<Rightarrow> PollPoller \<Rightarrow> bool" where
  "muted ch p = (case pp_objs p ch of None \<Rightarrow> False
     | Some c \<Rightarrow> pp_channels p (ch_fd c) = Some ch \<and> pf_fd (pp_pollfds p ! nat (ch_index c)) < 0)"

lemma muted_interest:
  assumes inv: "pp_inv p" and al: "pp_allowed (PInterest i x) p" and ex: "pp_set_interest i x p = Some p'" and m: "muted ch p"
  shows "muted ch p'"
proof -
  from m obtain d where d: "pp_objs p ch = Some d" "pp_channels p (ch_fd d) = Some ch" "pf_fd (pp_pollfds p ! nat (ch_index d)) < 0"
    by (auto simp: muted_def split: option.splits)
  from pp_inv_map [OF inv d(2)] d(1) obtain j where j: "ch_index d = int j" "j < length (pp_pollfds p)" "0 \<le> ch_fd d"
      "decode (pf_fd (pp_pollfds p ! j)) = ch_fd d"
    by (metis option.inject)
  from exec_interest [OF inv al] obtain c c' where c: "pp_objs p x = Some c"
      "c' = c\<lparr>ch_events := apply_interest i (ch_events c), ch_addedToLoop := True\<rparr>"
      "pp_set_interest i x p = pp_updateChannel x (p\<lparr>pp_objs := (pp_objs p)(x \<mapsto> c')\<rparr>)"
    by metis
  show ?thesis
  proof (cases "ch_index c < 0")
    case True
    with al c have "0 \<le> ch_fd c" "pp_channels p (ch_fd c) = None" "\<not> isNoneEvent c'" by (simp_all add: isNoneEvent_def)
    with update_new [OF inv c(1) True, of c'] ex c have "p' = p\<lparr>pp_objs := (pp_objs p)(x \<mapsto> set_index (int (length (pp_pollfds p))) c'),
        pp_channels := (pp_channels p)(ch_fd c \<mapsto> x),
        pp_pollfds := pp_pollfds p @ [\<lparr>pf_fd = ch_fd c, pf_events = ucast (ch_events c'), pf_revents = 0\<rparr>]\<rparr>"
      by simp
    moreover have "x \<noteq> ch" "ch_fd d \<noteq> ch_fd c" using d c j True \<open>pp_channels p (ch_fd c) = None\<close> by auto
    ultimately show ?thesis using d j by (simp add: muted_def nth_append)
  next
    case False
    with al c have r: "pp_channels p (ch_fd c) = Some x" by simp
    from pp_inv_map [OF inv r] c(1) obtain k where k: "ch_index c = int k" "decode (pf_fd (pp_pollfds p ! k)) = ch_fd c" "0 \<le> ch_fd c"
      by (metis option.inject)
    from update_registered(1) [OF inv c(1) r, of c'] ex c have "p' = p\<lparr>pp_objs := (pp_objs p)(x \<mapsto> c'),
        pp_pollfds := (pp_pollfds p)[nat (ch_index c) := pp_entry c' (pp_pollfds p ! nat (ch_index c))]\<rparr>"
      by simp
    moreover have "x \<noteq> ch \<Longrightarrow> k \<noteq> j" using k j d r by auto
    ultimately show ?thesis using d j k c by (cases "x = ch") (auto simp: muted_def pp_entry_def)
  qed
qed

lemma muted_remove:
  assumes inv: "pp_inv p" and al: "pp_allowed (PRemove x) p" and ex: "pp_Channel_remove x p = Some p'" and m: "muted ch p" and x: "x \<noteq> ch"
  shows "muted ch p'"
proof -
  from m obtain d where d: "pp_objs p ch = Some d" "pp_channels p (ch_fd d) = Some ch" "pf_fd (pp_pollfds p ! nat (ch_index d)) < 0"
    by (auto simp: muted_def split: option.splits)
  from pp_inv_map [OF inv d(2)] d(1) obtain j where j: "ch_index d = int j" by (metis option.inject)
  obtain c i moved q where c: "pp_objs p x = Some c" "pp_channels p (ch_fd c) = Some x" "isNoneEvent c"
      "q = p\<lparr>pp_objs := (pp_objs p)(x \<mapsto> c\<lparr>ch_addedToLoop := False\<rparr>)\<rparr>" "pp_inv q" "ch_index c = int i" "i < length (pp_pollfds q)"
      "pp_channels q (decode (pf_fd (last (pp_pollfds q)))) = Some moved"
      "pp_Channel_remove x p = Some (removed i moved (c\<lparr>ch_addedToLoop := False\<rparr>) q)" "pp_inv (removed i moved (c\<lparr>ch_addedToLoop := False\<rparr>) q)"
    by (rule exec_remove [OF inv al])
  let ?c = "c\<lparr>ch_addedToLoop := False\<rparr>"
  have "ch_fd d \<noteq> ch_fd c" using d c x by auto
  then have "pp_channels q (ch_fd ?c) = Some x" "pp_objs q x = Some ?c" "ch_index ?c = int i"
      "pp_channels q (ch_fd d) = Some ch" "ch_fd d \<noteq> ch_fd ?c" "pp_objs q ch = Some d"
    using c d x by simp_all
  from removed_objs [OF c(5) this(1-3) c(7,8) this(4-6) j] obtain d' k where
    "pp_objs (removed i moved ?c q) ch = Some d'" "ch_fd d' = ch_fd d" "ch_index d' = int k" "pp_pollfds (removed i moved ?c q) ! k = pp_pollfds q ! j"
    by blast
  with d j c ex \<open>ch_fd d \<noteq> ch_fd c\<close> show ?thesis by (simp add: muted_def removed_simps(2))
qed

lemma muted_poll:
  assumes inv: "pp_inv p" and ans: "poll_answer p n rs" and ex: "pp_poll n rs (p, []) = Some (p', act)" and m: "muted ch p"
  shows "muted ch p'" and "ch \<notin> set act"
proof -
  from m obtain d where d: "pp_objs p ch = Some d" "pp_channels p (ch_fd d) = Some ch" "pf_fd (pp_pollfds p ! nat (ch_index d)) < 0"
    by (auto simp: muted_def split: option.splits)
  from pp_inv_map [OF inv d(2)] d(1) obtain j where j: "ch_index d = int j" "j < length (pp_pollfds p)"
      "decode (pf_fd (pp_pollfds p ! j)) = ch_fd d"
    by (metis option.inject)
  let ?pfds = "map2 (\<lambda>e r. e\<lparr>pf_revents := r\<rparr>) (pp_pollfds p) rs"
  have len: "length rs = length (pp_pollfds p)" using ans by (simp add: poll_answer_def)
  from pp_poll_ok [OF inv ans] ex have p': "act = (if 0 < n then reported p ?pfds else [])" "pp_channels p' = pp_channels p" "pp_pollfds p' = ?pfds"
      "map_option (\<lambda>c. c\<lparr>ch_revents := 0\<rparr>) (pp_objs p' ch) = map_option (\<lambda>c. c\<lparr>ch_revents := 0\<rparr>) (pp_objs p ch)"
    by auto
  from p'(4) d(1) obtain d' where d': "pp_objs p' ch = Some d'" "d'\<lparr>ch_revents := 0\<rparr> = d\<lparr>ch_revents := 0\<rparr>" by (auto simp: map_option_case split: option.splits)
  have "ch_fd (d'\<lparr>ch_revents := 0\<rparr>) = ch_fd (d\<lparr>ch_revents := 0\<rparr>)" "ch_index (d'\<lparr>ch_revents := 0\<rparr>) = ch_index (d\<lparr>ch_revents := 0\<rparr>)"
    by (simp_all only: d'(2))
  then have "ch_fd d' = ch_fd d" "ch_index d' = ch_index d" by simp_all
  with d d' j p' len show "muted ch p'" by (simp add: muted_def)
  have "the (pp_channels p (pf_fd e)) \<noteq> ch" if e: "e \<in> set ?pfds" "0 < sint (pf_revents e)" "0 < n" for e
  proof
    assume ch: "the (pp_channels p (pf_fd e)) = ch"
    from e(1) len obtain i where i: "i < length (pp_pollfds p)" "e = (pp_pollfds p ! i)\<lparr>pf_revents := rs ! i\<rparr>"
      by (auto simp: in_set_conv_nth)
    have ans': "list_all2 (\<lambda>e r. pf_fd e < 0 \<longrightarrow> r = 0) (pp_pollfds p) rs" using ans e(3) by (auto simp: poll_answer_def)
    with e(2) i have f: "0 \<le> pf_fd (pp_pollfds p ! i)" by (auto simp: list_all2_conv_all_nth not_less [symmetric])
    moreover obtain x where x: "pp_channels p (decode (pf_fd (pp_pollfds p ! i))) = Some x" using pp_inv_entry [OF inv i(1)] by blast
    ultimately have "pp_channels p (pf_fd (pp_pollfds p ! i)) = Some ch" using ch i(2) by simp
    then have "pf_fd (pp_pollfds p ! i) = ch_fd d" using pp_inv_obj(5) [OF inv _ d(1) j(1)] by simp
    then have "i = j" using pp_inv_distinct [OF inv i(1) j(2)] f j(3) by simp
    with f d(3) j(1) show False by simp
  qed
  then show "ch \<notin> set act" by (auto simp: p'(1) reported_def)
qed

lemma muted_exec:
  assumes "pp_inv p" and "pp_allowed op p" and "pp_exec op p = Some p'" and "muted ch p" and "op \<noteq> PRemove ch"
  shows "muted ch p'"
proof (cases op)
  case (PNew x loop fd)
  with assms show ?thesis by (auto simp: muted_def split: option.splits if_splits)
next
  case (PFree x)
  with assms have "x \<noteq> ch" by (auto simp: muted_def registered_def split: option.splits)
  with PFree assms show ?thesis by (auto simp: muted_def split: option.splits)
next
  case (PInterest i x)
  with assms show ?thesis by (metis muted_interest pp_exec.simps(2))
next
  case (PRemove x)
  with assms show ?thesis by (metis muted_remove pp_exec.simps(3))
next
  case (PPoll n rs)
  with assms obtain act where "pp_poll n rs (p, []) = Some (p', act)" "poll_answer p n rs" by auto
  with assms(1,4) show ?thesis by (metis muted_poll(1))
qed

text \<open>Several operations, each within the contract.\<close>

definition pp_checked :: "poll_op \<Rightarrow> PollPoller \<Rightarrow> PollPoller option" where
  "pp_checked op p = (if pp_allowed op p then pp_exec op p else None)"

lemma muted_run:
  assumes "pp_inv p" and "muted ch p" and "PRemove ch \<notin> set ops" and "put_all pp_checked ops p = Some p'"
  shows "pp_inv p' \<and> muted ch p'"
proof (rule put_all_invariant [where I = "\<lambda>p. pp_inv p \<and> muted ch p", OF _ _ assms(4)])
  fix op q q'
  assume "op \<in> set ops" "pp_inv q \<and> muted ch q" "pp_checked op q = Some q'"
  then have q: "pp_allowed op q" "pp_exec op q = Some q'" "pp_inv q" "muted ch q" "op \<noteq> PRemove ch"
    using assms(3) by (auto simp: pp_checked_def split: if_splits)
  with exec_ok [OF q(3,1)] muted_exec [OF q(3,1,2,4,5)] show "pp_inv q' \<and> muted ch q'" by simp
qed (use assms in simp)

section \<open>Properties\<close>

text \<open>C24: with the \<^verbatim>\<open>poll\<close> poller, however channels are created, change their interest, wait, are removed and freed within the contract: every registered
  channel has exactly one entry of the array, at its index and with its events, also after another entry was moved
  into a gap; every entry belongs to a registered channel; no assertion fails; and waiting reports exactly the
  channels for which \<^verbatim>\<open>poll(2)\<close> stored events.\<close>

theorem poll_array_agrees:
  assumes "pp_reach p"
  shows "(\<forall>fd ch. pp_channels p fd = Some ch \<longrightarrow>
        (\<exists>c i. pp_objs p ch = Some c \<and> ch_fd c = fd \<and> ch_index c = int i \<and> pf_events (pp_pollfds p ! i) = ucast (ch_events c)
          \<and> (\<forall>j. j < length (pp_pollfds p) \<and> decode (pf_fd (pp_pollfds p ! j)) = fd \<longleftrightarrow> j = i)))
    \<and> (\<forall>i < length (pp_pollfds p). pp_channels p (decode (pf_fd (pp_pollfds p ! i))) \<noteq> None)
    \<and> (pp_allowed op p \<longrightarrow> pp_exec op p \<noteq> None)
    \<and> (poll_answer p n rs \<and> 0 < n \<longrightarrow>
        (\<exists>p' act. pp_poll n rs (p, []) = Some (p', act)
           \<and> act = map (\<lambda>e. the (pp_channels p (pf_fd e))) (filter (\<lambda>e. 0 < sint (pf_revents e)) (map2 (\<lambda>e r. e\<lparr>pf_revents := r\<rparr>) (pp_pollfds p) rs))))"
proof -
  have inv: "pp_inv p" by (rule pp_reach_inv [OF assms])
  have "\<exists>c i. pp_objs p ch = Some c \<and> ch_fd c = fd \<and> ch_index c = int i \<and> pf_events (pp_pollfds p ! i) = ucast (ch_events c)
          \<and> (\<forall>j. j < length (pp_pollfds p) \<and> decode (pf_fd (pp_pollfds p ! j)) = fd \<longleftrightarrow> j = i)" if m: "pp_channels p fd = Some ch" for fd ch
  proof -
    from pp_inv_map [OF inv m] obtain c i where c: "pp_objs p ch = Some c" "ch_fd c = fd" "ch_index c = int i" "i < length (pp_pollfds p)"
        "entry_ok c (pp_pollfds p ! i)" "decode (pf_fd (pp_pollfds p ! i)) = fd"
      by blast
    have "j = i" if "j < length (pp_pollfds p)" "decode (pf_fd (pp_pollfds p ! j)) = fd" for j
      using pp_inv_distinct [OF inv that(1) c(4)] that(2) c(6) by simp
    then have "(j < length (pp_pollfds p) \<and> decode (pf_fd (pp_pollfds p ! j)) = fd) = (j = i)" for j using c(4,6) by blast
    moreover have "pf_events (pp_pollfds p ! i) = ucast (ch_events c)" using c(5) by (simp add: entry_ok_def)
    ultimately show ?thesis using c(1-3) by blast
  qed
  moreover have "pp_channels p (decode (pf_fd (pp_pollfds p ! i))) \<noteq> None" if "i < length (pp_pollfds p)" for i
    using pp_inv_entry [OF inv that] by (metis option.distinct(1))
  ultimately show ?thesis using exec_ok [OF inv, of op] pp_poll_ok [OF inv, of n rs] by (auto simp: reported_def)
qed

text \<open>Two channels; the first is removed, so that the entry of the second moves to its place.\<close>

definition ex_polled :: "PollPoller option" where
  "ex_polled = put_all pp_checked [PNew 1 0 5, PNew 2 0 6, PInterest EnableReading 1, PInterest EnableReading 2, PInterest DisableAll 1, PRemove 1] new_PollPoller"

lemma pp_checked_reach: "put_all pp_checked ops p = Some p' \<Longrightarrow> pp_reach p \<Longrightarrow> pp_reach p'"
  by (rule put_all_invariant [where I = pp_reach]) (auto simp: pp_checked_def intro: pp_step split: if_splits)

lemmas pp_eval = pp_checked_def new_PollPoller_def pp_set_interest_def pp_on_channel_def new_Channel_def pp_updateChannel_def
  pp_Channel_remove_def pp_removeChannel_def registered_def isNoneEvent_def set_index_def kNoneEvent_def kReadEvent_def poll_bits Let_def
  poll_answer_def pp_poll_def set_revents_def

definition ex_poller :: PollPoller where
  "ex_poller = \<lparr>pp_pollfds = [\<lparr>pf_fd = 6, pf_events = 3, pf_revents = 0\<rparr>], pp_channels = [6 \<mapsto> 2],
    pp_objs = [1 \<mapsto> (new_Channel 0 5)\<lparr>ch_index := 0\<rparr>, 2 \<mapsto> (new_Channel 0 6)\<lparr>ch_events := 3, ch_index := 0, ch_addedToLoop := True\<rparr>]\<rparr>"

lemma ex_polled_eval: "ex_polled = Some ex_poller"
  by (simp add: ex_polled_def ex_poller_def pp_eval fun_upd_twist)

lemma ex_poller_reach: "pp_reach ex_poller"
  using ex_polled_eval unfolding ex_polled_def by (rule pp_checked_reach) (rule pp_start)

theorem poll_array_agrees_witness:
  "ex_polled = Some ex_poller \<and> (\<exists>p'. pp_poll 1 [1] (ex_poller, []) = Some (p', [2]))"
proof -
  have "poll_answer ex_poller 1 [1]" by (simp add: poll_answer_def ex_poller_def)
  then obtain p' act where r: "pp_poll 1 [1] (ex_poller, []) = Some (p', act)"
      "act = map (\<lambda>e. the (pp_channels ex_poller (pf_fd e)))
        (filter (\<lambda>e. 0 < sint (pf_revents e)) (map2 (\<lambda>e r. e\<lparr>pf_revents := r\<rparr>) (pp_pollfds ex_poller) [1]))"
    using poll_array_agrees [OF ex_poller_reach, of undefined 1 "[1]"] by auto
  moreover from r(2) have "act = [2]" by (simp add: ex_poller_def)
  ultimately show ?thesis using ex_polled_eval by simp
qed

text \<open>C25: the \<^verbatim>\<open>poll\<close> poller does not restore the descriptor of an entry: after a channel has once dropped all its interest, it is never reported
  again as long as it is registered, whatever interest it declares later.\<close>

theorem reenabled_channel_is_deaf:
  assumes "pp_reach p" and "registered ch p" and "pp_exec (PInterest i ch) p = Some p1" and "map_option ch_events (pp_objs p1 ch) = Some kNoneEvent"
    and "PRemove ch \<notin> set ops" and "put_all pp_checked ops p1 = Some p2" and "poll_answer p2 n rs" and "pp_poll n rs (p2, []) = Some (p3, act)"
  shows "ch \<notin> set act \<and> registered ch p2"
proof -
  have inv: "pp_inv p" by (rule pp_reach_inv [OF assms(1)])
  from assms(2) obtain c where c: "pp_objs p ch = Some c" "pp_channels p (ch_fd c) = Some ch" by (auto simp: registered_def split: option.splits)
  from pp_inv_map [OF inv c(2)] c(1) obtain j where j: "ch_index c = int j" "j < length (pp_pollfds p)" "0 \<le> ch_fd c" by (metis option.inject)
  let ?c = "c\<lparr>ch_events := apply_interest i (ch_events c), ch_addedToLoop := True\<rparr>"
  note u = update_registered [OF inv c, of ?c, simplified]
  from assms(3) c(1) have "pp_updateChannel ch (p\<lparr>pp_objs := (pp_objs p)(ch \<mapsto> ?c)\<rparr>) = Some p1" by (simp add: pp_set_interest_def pp_on_channel_def)
  with u(1) have p1: "p1 = p\<lparr>pp_objs := (pp_objs p)(ch \<mapsto> ?c), pp_pollfds := (pp_pollfds p)[nat (ch_index c) := pp_entry ?c (pp_pollfds p ! nat (ch_index c))]\<rparr>"
    by simp
  with assms(4) have "isNoneEvent ?c" by (simp add: isNoneEvent_def)
  with p1 c j have "muted ch p1" by (simp add: muted_def pp_entry_def)
  moreover have "pp_inv p1" using u(2) p1 by simp
  ultimately have "pp_inv p2" "muted ch p2" using muted_run assms(5,6) by blast+
  then show ?thesis using muted_poll(2) [OF _ assms(7,8)] by (auto simp: muted_def registered_def split: option.splits)
qed

text \<open>Reading is disabled and enabled again, as \<^verbatim>\<open>stopRead\<close> and \<^verbatim>\<open>startRead\<close> of a connection do.\<close>

theorem reenabled_channel_is_deaf_witness:
  "\<exists>p1 p2 c. pp_exec (PInterest DisableReading 2) ex_poller = Some p1 \<and> put_all pp_checked [PInterest EnableReading 2] p1 = Some p2
     \<and> pp_objs p2 2 = Some c \<and> isReading c \<and> pp_poll 0 [0] (p2, []) = Some (p2, []) \<and> registered 2 p2"
proof -
  have reg: "registered 2 ex_poller" by (simp add: registered_def new_Channel_def ex_poller_def)
  let ?c = "(new_Channel 0 6)\<lparr>ch_events := 0, ch_index := 0, ch_addedToLoop := True\<rparr>"
  let ?p1 = "ex_poller\<lparr>pp_objs := (pp_objs ex_poller)(2 \<mapsto> ?c), pp_pollfds := [\<lparr>pf_fd = - 7, pf_events = 0, pf_revents = 0\<rparr>]\<rparr>"
  let ?p2 = "?p1\<lparr>pp_objs := (pp_objs ex_poller)(2 \<mapsto> ?c\<lparr>ch_events := 3\<rparr>), pp_pollfds := [\<lparr>pf_fd = - 7, pf_events = 3, pf_revents = 0\<rparr>]\<rparr>"
  have p1: "pp_exec (PInterest DisableReading 2) ex_poller = Some ?p1" by (simp add: pp_eval ex_poller_def)
  have p2: "put_all pp_checked [PInterest EnableReading 2] ?p1 = Some ?p2" by (simp add: pp_eval ex_poller_def)
  have a: "poll_answer ?p2 0 [0]" by (simp add: poll_answer_def)
  have po: "pp_poll 0 [0] (?p2, []) = Some (?p2, [])" by (simp add: pp_poll_def)
  have "map_option ch_events (pp_objs ?p1 2) = Some kNoneEvent" by (simp add: kNoneEvent_def)
  from reenabled_channel_is_deaf [OF ex_poller_reach reg p1 this _ p2 a po]
  have "registered 2 ?p2" by simp
  moreover have "isReading (?c\<lparr>ch_events := 3\<rparr>)" by (simp add: isReading_def has_def kReadEvent_def poll_bits)
  moreover have "pp_objs ?p2 2 = Some (?c\<lparr>ch_events := 3\<rparr>)" by simp
  ultimately show ?thesis using p1 p2 po by blast
qed

end
