(* ===== verification/MuduoLoop.thy ===== *)
theory MuduoLoop
  imports Prelude
begin

text \<open>
  \<^verbatim>\<open>muduo/net/EventLoop.cc\<close>: the loop and the way other threads hand functors to it and wake it through an \<^verbatim>\<open>eventfd\<close>. The steps of the threads
  interleave: a thread that calls \<^verbatim>\<open>queueInLoop\<close> or \<^verbatim>\<open>quit\<close> first changes the shared state and writes to the \<^verbatim>\<open>eventfd\<close> in a later
  step; the loop's thread tests \<^verbatim>\<open>quit_\<close>, waits in \<^verbatim>\<open>poll\<close>, handles events, swaps the queue and runs the functors one by one.
  What handlers and functors do is left open: they may queue functors and quit. \<open>ml_queued\<close> and \<open>ml_ran\<close> are the functors queued and run so far.
\<close>

section \<open>State\<close>

datatype 'f loop_pc = LTest | LPoll | LHandle bool | LSwap | LRun "'f list" | LDone

record 'f MuduoLoop =
  ml_looping :: bool
  ml_quitFlag :: bool
  ml_callingPendingFunctors :: bool
  ml_pendingFunctors :: "'f list"
  ml_wakeupFd :: nat
  ml_pc :: "'f loop_pc"
  ml_waking :: "nat set"
  ml_queued :: "'f list"
  ml_ran :: "'f list"

text \<open>The largest value an \<^verbatim>\<open>eventfd\<close> holds; a write that would exceed it fails, the loop logs it.\<close>

definition eventfd_max :: nat where
  "eventfd_max = 2 ^ 64 - 2"

definition ml_wakeup :: "'f MuduoLoop \<Rightarrow> 'f MuduoLoop" where
  "ml_wakeup s = (if ml_wakeupFd s + 1 \<le> eventfd_max then s\<lparr>ml_wakeupFd := ml_wakeupFd s + 1\<rparr> else s)"

definition ml_handleRead :: "'f MuduoLoop \<Rightarrow> 'f MuduoLoop" where
  "ml_handleRead s = s\<lparr>ml_wakeupFd := 0\<rparr>"

section \<open>Calls from the threads\<close>

text \<open>The part of \<^verbatim>\<open>queueInLoop\<close> under the mutex.\<close>

definition ml_push :: "'f \<Rightarrow> 'f MuduoLoop \<Rightarrow> 'f MuduoLoop" where
  "ml_push cb s = s\<lparr>ml_pendingFunctors := ml_pendingFunctors s @ [cb], ml_queued := ml_queued s @ [cb]\<rparr>"

text \<open>\<^verbatim>\<open>queueInLoop\<close> in the loop's own thread.\<close>

definition ml_queueInLoop :: "'f \<Rightarrow> 'f MuduoLoop \<Rightarrow> 'f MuduoLoop" where
  "ml_queueInLoop cb s = (let s = ml_push cb s in if ml_callingPendingFunctors s then ml_wakeup s else s)"

text \<open>\<^verbatim>\<open>queueInLoop\<close> and \<^verbatim>\<open>quit\<close> in the thread \<open>t\<close>, up to the call of \<^verbatim>\<open>wakeup\<close>.\<close>

definition ml_queue_begin :: "nat \<Rightarrow> 'f \<Rightarrow> 'f MuduoLoop \<Rightarrow> 'f MuduoLoop" where
  "ml_queue_begin t cb s = (let s = ml_push cb s in s\<lparr>ml_waking := insert t (ml_waking s)\<rparr>)"

definition ml_quit_begin :: "nat \<Rightarrow> 'f MuduoLoop \<Rightarrow> 'f MuduoLoop" where
  "ml_quit_begin t s = s\<lparr>ml_quitFlag := True, ml_waking := insert t (ml_waking s)\<rparr>"

definition ml_wake_end :: "nat \<Rightarrow> 'f MuduoLoop \<Rightarrow> 'f MuduoLoop" where
  "ml_wake_end t s = (let s = ml_wakeup s in s\<lparr>ml_waking := ml_waking s - {t}\<rparr>)"

text \<open>What a callback does to the loop: it may quit and queue functors.\<close>

definition ml_quit :: "'f MuduoLoop \<Rightarrow> 'f MuduoLoop" where
  "ml_quit s = s\<lparr>ml_quitFlag := True\<rparr>"

definition ml_callback :: "bool \<Rightarrow> 'f list \<Rightarrow> 'f MuduoLoop \<Rightarrow> 'f MuduoLoop" where
  "ml_callback q cbs s = (let s = fold ml_queueInLoop cbs s in if q then ml_quit s else s)"

section \<open>The loop\<close>

text \<open>A call of \<^verbatim>\<open>loop\<close>. It forgets an earlier \<^verbatim>\<open>quit\<close>.\<close>

definition ml_loop :: "'f MuduoLoop \<Rightarrow> 'f MuduoLoop option" where
  "ml_loop s = do { assert_that (\<not> ml_looping s); Some (s\<lparr>ml_looping := True, ml_quitFlag := False, ml_pc := LTest\<rparr>) }"

definition ml_test :: "'f MuduoLoop \<Rightarrow> 'f MuduoLoop" where
  "ml_test s = (if ml_quitFlag s then s\<lparr>ml_looping := False, ml_pc := LDone\<rparr> else s\<lparr>ml_pc := LPoll\<rparr>)"

text \<open>\<^verbatim>\<open>poll\<close> returns; \<open>woken\<close> tells whether the channel of the \<^verbatim>\<open>eventfd\<close> is among the active ones.\<close>

definition ml_poll :: "bool \<Rightarrow> 'f MuduoLoop \<Rightarrow> 'f MuduoLoop" where
  "ml_poll woken s = s\<lparr>ml_pc := LHandle woken\<rparr>"

text \<open>The events are handled, with the callbacks \<open>q\<close> and \<open>cbs\<close>; \<^verbatim>\<open>doPendingFunctors\<close> begins.\<close>

definition ml_handle :: "bool \<Rightarrow> bool \<Rightarrow> 'f list \<Rightarrow> 'f MuduoLoop \<Rightarrow> 'f MuduoLoop" where
  "ml_handle woken q cbs s =
     (let s = (if woken then ml_handleRead s else s);
          s = ml_callback q cbs s
      in s\<lparr>ml_callingPendingFunctors := True, ml_pc := LSwap\<rparr>)"

definition ml_swap :: "'f MuduoLoop \<Rightarrow> 'f MuduoLoop" where
  "ml_swap s = s\<lparr>ml_pc := LRun (ml_pendingFunctors s), ml_pendingFunctors := []\<rparr>"

text \<open>One functor runs, with the callbacks \<open>q\<close> and \<open>cbs\<close>; after the last one \<^verbatim>\<open>doPendingFunctors\<close> ends.\<close>

definition ml_run :: "'f \<Rightarrow> 'f list \<Rightarrow> bool \<Rightarrow> 'f list \<Rightarrow> 'f MuduoLoop \<Rightarrow> 'f MuduoLoop" where
  "ml_run f fs q cbs s = (let s = ml_callback q cbs (s\<lparr>ml_ran := ml_ran s @ [f]\<rparr>) in s\<lparr>ml_pc := LRun fs\<rparr>)"

definition ml_done :: "'f MuduoLoop \<Rightarrow> 'f MuduoLoop" where
  "ml_done s = s\<lparr>ml_callingPendingFunctors := False, ml_pc := LTest\<rparr>"

text \<open>The steps. \<^verbatim>\<open>poll\<close> can return with the \<^verbatim>\<open>eventfd\<close> only when it is readable; it can return for other events or after its timeout at any time.\<close>

inductive ml_step :: "'f MuduoLoop \<Rightarrow> 'f MuduoLoop \<Rightarrow> bool" where
  do_queue: "t \<notin> ml_waking s \<Longrightarrow> ml_step s (ml_queue_begin t cb s)"
| do_quit: "t \<notin> ml_waking s \<Longrightarrow> ml_step s (ml_quit_begin t s)"
| do_wake: "t \<in> ml_waking s \<Longrightarrow> ml_step s (ml_wake_end t s)"
| do_test: "ml_pc s = LTest \<Longrightarrow> ml_step s (ml_test s)"
| do_poll: "ml_pc s = LPoll \<Longrightarrow> woken \<longrightarrow> 0 < ml_wakeupFd s \<Longrightarrow> ml_step s (ml_poll woken s)"
| do_handle: "ml_pc s = LHandle woken \<Longrightarrow> ml_step s (ml_handle woken q cbs s)"
| do_swap: "ml_pc s = LSwap \<Longrightarrow> ml_step s (ml_swap s)"
| do_run: "ml_pc s = LRun (f # fs) \<Longrightarrow> ml_step s (ml_run f fs q cbs s)"
| do_done: "ml_pc s = LRun [] \<Longrightarrow> ml_step s (ml_done s)"

text \<open>A fresh loop, before \<^verbatim>\<open>loop\<close> is called.\<close>

definition new_MuduoLoop :: "'f MuduoLoop" where
  "new_MuduoLoop = \<lparr>ml_looping = False, ml_quitFlag = False, ml_callingPendingFunctors = False, ml_pendingFunctors = [], ml_wakeupFd = 0,
     ml_pc = LDone, ml_waking = {}, ml_queued = [], ml_ran = []\<rparr>"

section \<open>Invariant\<close>

definition ml_order :: "'f MuduoLoop \<Rightarrow> bool" where
  "ml_order s \<longleftrightarrow> ml_queued s = ml_ran s @ (case ml_pc s of LRun fs \<Rightarrow> fs | _ \<Rightarrow> []) @ ml_pendingFunctors s"

text \<open>The loop's thread will find the \<^verbatim>\<open>eventfd\<close> readable, or a thread is about to make it so.\<close>

definition ml_woken :: "'f MuduoLoop \<Rightarrow> bool" where
  "ml_woken s \<longleftrightarrow> 0 < ml_wakeupFd s \<or> ml_waking s \<noteq> {}"

definition ml_inv :: "'f MuduoLoop \<Rightarrow> bool" where
  "ml_inv s \<longleftrightarrow> ml_order s
     \<and> (ml_callingPendingFunctors s \<longleftrightarrow> (case ml_pc s of LSwap \<Rightarrow> True | LRun fs \<Rightarrow> True | _ \<Rightarrow> False))
     \<and> ((case ml_pc s of LHandle w \<Rightarrow> False | LSwap \<Rightarrow> False | _ \<Rightarrow> True) \<and> ml_pendingFunctors s \<noteq> [] \<longrightarrow> ml_woken s)
     \<and> (ml_pc s = LPoll \<and> ml_quitFlag s \<longrightarrow> ml_woken s)"

lemma ml_wakeup_simps [simp]:
  "ml_pendingFunctors (ml_wakeup s) = ml_pendingFunctors s" "ml_queued (ml_wakeup s) = ml_queued s" "ml_ran (ml_wakeup s) = ml_ran s"
  "ml_pc (ml_wakeup s) = ml_pc s" "ml_quitFlag (ml_wakeup s) = ml_quitFlag s" "ml_waking (ml_wakeup s) = ml_waking s"
  "ml_callingPendingFunctors (ml_wakeup s) = ml_callingPendingFunctors s" "ml_looping (ml_wakeup s) = ml_looping s"
  by (simp_all add: ml_wakeup_def)

lemma ml_wakeup_readable [simp]: "0 < ml_wakeupFd (ml_wakeup s)"
  by (auto simp: ml_wakeup_def eventfd_max_def)

lemma ml_queueInLoop_simps [simp]:
  "ml_pendingFunctors (ml_queueInLoop cb s) = ml_pendingFunctors s @ [cb]" "ml_queued (ml_queueInLoop cb s) = ml_queued s @ [cb]"
  "ml_ran (ml_queueInLoop cb s) = ml_ran s" "ml_pc (ml_queueInLoop cb s) = ml_pc s" "ml_quitFlag (ml_queueInLoop cb s) = ml_quitFlag s"
  "ml_waking (ml_queueInLoop cb s) = ml_waking s" "ml_callingPendingFunctors (ml_queueInLoop cb s) = ml_callingPendingFunctors s"
  "ml_looping (ml_queueInLoop cb s) = ml_looping s"
  by (simp_all add: ml_queueInLoop_def ml_push_def Let_def)

lemma ml_queueInLoop_readable:
  "ml_callingPendingFunctors s \<or> 0 < ml_wakeupFd s \<Longrightarrow> 0 < ml_wakeupFd (ml_queueInLoop cb s)"
  by (auto simp: ml_queueInLoop_def ml_push_def Let_def)

lemma ml_queue_all_simps [simp]:
  "ml_pendingFunctors (fold ml_queueInLoop cbs s) = ml_pendingFunctors s @ cbs" "ml_queued (fold ml_queueInLoop cbs s) = ml_queued s @ cbs"
  "ml_ran (fold ml_queueInLoop cbs s) = ml_ran s" "ml_pc (fold ml_queueInLoop cbs s) = ml_pc s"
  "ml_quitFlag (fold ml_queueInLoop cbs s) = ml_quitFlag s" "ml_waking (fold ml_queueInLoop cbs s) = ml_waking s"
  "ml_callingPendingFunctors (fold ml_queueInLoop cbs s) = ml_callingPendingFunctors s"
  "ml_looping (fold ml_queueInLoop cbs s) = ml_looping s"
  by (induction cbs arbitrary: s) simp_all

lemma ml_queue_all_readable:
  "0 < ml_wakeupFd s \<or> ml_callingPendingFunctors s \<and> cbs \<noteq> [] \<Longrightarrow> 0 < ml_wakeupFd (fold ml_queueInLoop cbs s)"
proof (induction cbs arbitrary: s)
  case (Cons cb cbs)
  then have "0 < ml_wakeupFd (ml_queueInLoop cb s)" by (intro ml_queueInLoop_readable) auto
  with Cons.IH [of "ml_queueInLoop cb s"] show ?case by simp
qed simp

lemma ml_callback_simps [simp]:
  "ml_pendingFunctors (ml_callback q cbs s) = ml_pendingFunctors s @ cbs" "ml_queued (ml_callback q cbs s) = ml_queued s @ cbs"
  "ml_ran (ml_callback q cbs s) = ml_ran s" "ml_pc (ml_callback q cbs s) = ml_pc s" "ml_waking (ml_callback q cbs s) = ml_waking s"
  "ml_callingPendingFunctors (ml_callback q cbs s) = ml_callingPendingFunctors s" "ml_looping (ml_callback q cbs s) = ml_looping s"
  "ml_quitFlag (ml_callback q cbs s) \<longleftrightarrow> q \<or> ml_quitFlag s" "ml_wakeupFd (ml_callback q cbs s) = ml_wakeupFd (fold ml_queueInLoop cbs s)"
  by (simp_all add: ml_callback_def ml_quit_def Let_def)

lemmas ml_defs = ml_inv_def ml_order_def ml_woken_def Let_def

lemma ml_step_inv: "ml_step s s' \<Longrightarrow> ml_inv s \<Longrightarrow> ml_inv s'"
proof (induction rule: ml_step.induct)
  case (do_run s f fs q cbs)
  have "0 < ml_wakeupFd (fold ml_queueInLoop cbs (s\<lparr>ml_ran := ml_ran s @ [f]\<rparr>))" if "0 < ml_wakeupFd s \<or> cbs \<noteq> []"
    using that do_run by (intro ml_queue_all_readable) (auto simp: ml_inv_def)
  with do_run show ?case by (auto simp: ml_defs ml_run_def)
qed (auto simp: ml_defs ml_queue_begin_def ml_quit_begin_def ml_wake_end_def ml_push_def ml_test_def ml_poll_def ml_handle_def ml_handleRead_def
    ml_swap_def ml_done_def split: loop_pc.splits)

text \<open>The states of a loop that its own thread only uses by calling \<^verbatim>\<open>loop\<close>; other threads may queue functors before.\<close>

inductive ml_reach :: "'f MuduoLoop \<Rightarrow> bool" where
  ml_start: "ml_reach new_MuduoLoop"
| ml_call: "ml_reach s \<Longrightarrow> ml_pc s = LDone \<Longrightarrow> ml_loop s = Some s' \<Longrightarrow> ml_reach s'"
| ml_go: "ml_reach s \<Longrightarrow> ml_step s s' \<Longrightarrow> ml_reach s'"

lemma ml_reach_inv: "ml_reach s \<Longrightarrow> ml_inv s"
proof (induction rule: ml_reach.induct)
  case ml_start
  show ?case by (simp add: new_MuduoLoop_def ml_defs)
next
  case (ml_call s s')
  then have "s' = s\<lparr>ml_looping := True, ml_quitFlag := False, ml_pc := LTest\<rparr>" by (simp add: ml_loop_def split: if_splits)
  with ml_call show ?case by (auto simp: ml_defs)
qed (rule ml_step_inv)

lemma ml_reach_steps: "ml_step\<^sup>*\<^sup>* s s' \<Longrightarrow> ml_reach s \<Longrightarrow> ml_reach s'"
  by (induction rule: rtranclp_induct) (auto intro: ml_go)

section \<open>One round of the loop\<close>

text \<open>\<open>handlers\<close> is what the handlers of the events do, \<open>beh\<close> what each functor does.\<close>

fun ml_run_all :: "('f \<Rightarrow> bool \<times> 'f list) \<Rightarrow> 'f list \<Rightarrow> 'f MuduoLoop \<Rightarrow> 'f MuduoLoop" where
  "ml_run_all beh [] s = s"
| "ml_run_all beh (f # fs) s = ml_run_all beh fs (ml_run f fs (fst (beh f)) (snd (beh f)) s)"

definition ml_doPendingFunctors :: "('f \<Rightarrow> bool \<times> 'f list) \<Rightarrow> 'f MuduoLoop \<Rightarrow> 'f MuduoLoop" where
  "ml_doPendingFunctors beh s = ml_done (ml_run_all beh (ml_pendingFunctors s) (ml_swap s))"

definition ml_iteration :: "bool \<times> 'f list \<Rightarrow> ('f \<Rightarrow> bool \<times> 'f list) \<Rightarrow> 'f MuduoLoop \<Rightarrow> 'f MuduoLoop" where
  "ml_iteration handlers beh s =
     ml_doPendingFunctors beh (ml_handle (0 < ml_wakeupFd s) (fst handlers) (snd handlers) (ml_poll (0 < ml_wakeupFd s) s))"

lemma ml_run_all_steps: "ml_pc s = LRun fs \<Longrightarrow> ml_step\<^sup>*\<^sup>* s (ml_run_all beh fs s) \<and> ml_pc (ml_run_all beh fs s) = LRun [] \<and> ml_ran (ml_run_all beh fs s) = ml_ran s @ fs"
proof (induction fs arbitrary: s)
  case (Cons f fs)
  let ?s = "ml_run f fs (fst (beh f)) (snd (beh f)) s"
  have "ml_pc ?s = LRun fs" "ml_ran ?s = ml_ran s @ [f]" by (simp_all add: ml_run_def Let_def)
  with Cons.IH [of ?s] do_run [OF Cons.prems, of "fst (beh f)" "snd (beh f)"] show ?case
    by (auto intro: converse_rtranclp_into_rtranclp)
qed simp

lemma ml_doPendingFunctors_steps:
  assumes "ml_pc s = LSwap"
  shows "ml_step\<^sup>*\<^sup>* s (ml_doPendingFunctors beh s)" and "ml_ran (ml_doPendingFunctors beh s) = ml_ran s @ ml_pendingFunctors s"
    and "ml_pc (ml_doPendingFunctors beh s) = LTest"
proof -
  let ?t = "ml_run_all beh (ml_pendingFunctors s) (ml_swap s)"
  have "ml_pc (ml_swap s) = LRun (ml_pendingFunctors s)" "ml_ran (ml_swap s) = ml_ran s" by (simp_all add: ml_swap_def)
  with ml_run_all_steps [OF this(1), of beh] have t: "ml_step\<^sup>*\<^sup>* (ml_swap s) ?t" "ml_pc ?t = LRun []" "ml_ran ?t = ml_ran s @ ml_pendingFunctors s"
    by simp_all
  from do_swap [OF assms] t(1) do_done [OF t(2)] show "ml_step\<^sup>*\<^sup>* s (ml_doPendingFunctors beh s)"
    unfolding ml_doPendingFunctors_def by (meson converse_rtranclp_into_rtranclp rtranclp.rtrancl_into_rtrancl)
  show "ml_ran (ml_doPendingFunctors beh s) = ml_ran s @ ml_pendingFunctors s" "ml_pc (ml_doPendingFunctors beh s) = LTest"
    using t(3) by (simp_all add: ml_doPendingFunctors_def ml_done_def)
qed

section \<open>Properties\<close>

text \<open>C22: however the threads interleave, the muduo loop runs the functors in the order they were queued, none twice and none
  dropped, and no wake-up is lost: when it waits in \<^verbatim>\<open>poll\<close> while a functor is queued or \<^verbatim>\<open>quit\<close> was called, the \<^verbatim>\<open>eventfd\<close> is readable or
  the thread that called is about to write to it.\<close>

theorem no_lost_wakeup:
  assumes "ml_reach s"
  shows "ml_queued s = ml_ran s @ (case ml_pc s of LRun fs \<Rightarrow> fs | _ \<Rightarrow> []) @ ml_pendingFunctors s
    \<and> (ml_pc s = LPoll \<and> (ml_pendingFunctors s \<noteq> [] \<or> ml_quitFlag s) \<longrightarrow> 0 < ml_wakeupFd s \<or> ml_waking s \<noteq> {})"
  using ml_reach_inv [OF assms] by (auto simp: ml_defs)

text \<open>C23: once the calling threads have returned, a waiting loop with queued functors is woken at once, and the round it makes, whatever its handlers
  and functors do, runs all of them before it looks at the flag \<^verbatim>\<open>quit_\<close> again; the next wait is not entered after \<^verbatim>\<open>quit\<close>.\<close>

theorem queued_functors_run:
  assumes "ml_reach s" and "ml_pc s = LPoll" and "ml_waking s = {}" and "ml_pendingFunctors s \<noteq> []"
  shows "0 < ml_wakeupFd s \<and> ml_step\<^sup>*\<^sup>* s (ml_iteration handlers beh s)
    \<and> ml_ran (ml_iteration handlers beh s) = ml_ran s @ ml_pendingFunctors s @ snd handlers
    \<and> ml_pc (ml_iteration handlers beh s) = LTest
    \<and> (ml_quitFlag (ml_iteration handlers beh s) \<longrightarrow> ml_pc (ml_test (ml_iteration handlers beh s)) = LDone)"
proof -
  have w: "0 < ml_wakeupFd s" using ml_reach_inv [OF assms(1)] assms(2-4) by (simp add: ml_defs)
  let ?p = "ml_poll True s"
  let ?h = "ml_handle True (fst handlers) (snd handlers) ?p"
  have "ml_step s ?p" using do_poll [OF assms(2), of True] w by simp
  moreover have "ml_step ?p ?h" by (rule do_handle) (simp add: ml_poll_def)
  moreover have pc: "ml_pc ?h = LSwap" by (simp add: ml_handle_def Let_def)
  moreover have "ml_pendingFunctors ?h = ml_pendingFunctors s @ snd handlers" "ml_ran ?h = ml_ran s"
    by (simp_all add: ml_handle_def ml_handleRead_def ml_poll_def Let_def)
  ultimately show ?thesis
    using w ml_doPendingFunctors_steps [OF pc, of beh] unfolding ml_iteration_def
    by (auto simp: ml_test_def intro: converse_rtranclp_into_rtranclp)
qed

text \<open>Another thread queues the functor 7 while the loop waits.\<close>

definition ex_waiting :: "nat MuduoLoop" where
  "ex_waiting = ml_wake_end 1 (ml_queue_begin 1 7 (ml_test (the (ml_loop new_MuduoLoop))))"

lemma ex_waiting_reach: "ml_reach ex_waiting"
proof -
  let ?l = "the (ml_loop new_MuduoLoop) :: nat MuduoLoop"
  have l: "ml_loop new_MuduoLoop = Some ?l" by (simp add: ml_loop_def new_MuduoLoop_def)
  have "ml_reach ?l" using ml_call [OF ml_start _ l] by (simp add: new_MuduoLoop_def)
  moreover have "ml_step ?l (ml_test ?l)" by (rule do_test) (simp add: ml_loop_def new_MuduoLoop_def)
  moreover have "ml_step (ml_test ?l) (ml_queue_begin 1 7 (ml_test ?l))"
    by (rule do_queue) (simp add: ml_test_def ml_loop_def new_MuduoLoop_def)
  moreover have "ml_step (ml_queue_begin 1 7 (ml_test ?l)) ex_waiting"
    unfolding ex_waiting_def by (rule do_wake) (simp add: ml_queue_begin_def Let_def)
  ultimately show ?thesis by (metis ml_go)
qed

lemmas ml_eval = ex_waiting_def ml_wake_end_def ml_queue_begin_def ml_test_def ml_loop_def new_MuduoLoop_def ml_push_def ml_wakeup_def eventfd_max_def Let_def

theorem no_lost_wakeup_witness: "ml_queued ex_waiting = [7] \<and> ml_pc ex_waiting = LPoll \<and> 0 < ml_wakeupFd ex_waiting \<and> ml_waking ex_waiting = {}"
  using no_lost_wakeup [OF ex_waiting_reach] by (simp add: ml_eval)

theorem queued_functors_run_witness: "ml_ran (ml_iteration (False, [8]) (\<lambda>f. (True, [9])) ex_waiting) = [7, 8]"
  using queued_functors_run [OF ex_waiting_reach, of "(False, [8])" "\<lambda>f. (True, [9])"] by (simp add: ml_eval)

text \<open>What the loop's own thread does before it calls \<^verbatim>\<open>loop\<close> is not protected: a \<^verbatim>\<open>quit\<close> is forgotten, and functors it queues do not wake the
  first \<^verbatim>\<open>poll\<close>, which waits for another event or its timeout.\<close>

theorem calls_before_loop:
  "\<exists>s. ml_loop (fold ml_queueInLoop cbs (ml_quit new_MuduoLoop)) = Some s
     \<and> ml_pc (ml_test s) = LPoll \<and> ml_pendingFunctors (ml_test s) = cbs \<and> ml_wakeupFd (ml_test s) = 0 \<and> ml_waking (ml_test s) = {}"
proof -
  let ?s = "fold ml_queueInLoop cbs (ml_quit new_MuduoLoop)"
  have "ml_wakeupFd (fold ml_queueInLoop cbs s) = ml_wakeupFd s" if "\<not> ml_callingPendingFunctors s" for s :: "'a MuduoLoop"
    using that by (induction cbs arbitrary: s) (simp_all add: ml_queueInLoop_def ml_push_def Let_def)
  from this [of "ml_quit new_MuduoLoop"] have "ml_wakeupFd ?s = 0" by (simp add: ml_quit_def new_MuduoLoop_def)
  then show ?thesis by (simp add: ml_loop_def ml_test_def) (simp add: ml_quit_def new_MuduoLoop_def)
qed

end
