(* ===== verification/Client.thy ===== *)
theory Client
  imports Prelude
begin

text \<open>
  \<^verbatim>\<open>muduo/net/Connector.h\<close>, \<^verbatim>\<open>muduo/net/Connector.cc\<close>, \<^verbatim>\<open>muduo/net/TcpClient.h\<close> and \<^verbatim>\<open>muduo/net/TcpClient.cc\<close>, in the rounds of the client's loop. A round first
  handles the events that \<^verbatim>\<open>poll\<close> reported (of the connector's channel, of the connection, of the retry timer), then runs the functors that
  were pending; functors queued meanwhile wait for the next round. The channel is its descriptor and whether it is registered for writing; of the connection only its
  descriptor and whether it is still open matter here. What the kernel answers is an argument: the descriptor
  and \<^verbatim>\<open>errno\<close> of a connection attempt, \<^verbatim>\<open>SO_ERROR\<close> and the test for a self-connection. \<^verbatim>\<open>stop\<close>, which another thread may call, comes between the callbacks of the loop; \<open>stop_race\<close> is about one that comes inside
  \<^verbatim>\<open>removeConnection\<close>.
\<close>

section \<open>State\<close>

datatype errno = NoError | EINPROGRESS | EINTR | EISCONN | EAGAIN | EADDRINUSE | EADDRNOTAVAIL | ECONNREFUSED | ENETUNREACH
  | EACCES | EPERM | EAFNOSUPPORT | EALREADY | EBADF | EFAULT | ENOTSOCK | EOther

datatype States = CDisconnected | CConnecting | CConnected

datatype client_functor = StartInLoop | StopInLoop | ResetChannel | ForceCloseInLoop nat | ConnectDestroyed nat

text \<open>The events that remain in the round, or the functors that do.\<close>

datatype client_phase = Events bool bool bool | Functors "client_functor list"

record Connector =
  co_connectFlag :: bool
  co_state :: States
  co_channel :: "(int \<times> bool) option"
  co_retryDelayMs :: int
  co_timers :: "int list"
  co_sockets :: "int set"
  co_pending :: "client_functor list"

record TcpClient = Connector +
  cl_retry :: bool
  cl_connectFlag :: bool
  cl_nextConnId :: nat
  cl_connection :: "nat option"
  cl_open :: "nat \<rightharpoonup> int"
  cl_shut :: "nat set"
  cl_phase :: client_phase

definition kMaxRetryDelayMs :: int where "kMaxRetryDelayMs = 30 * 1000"

definition kInitRetryDelayMs :: int where "kInitRetryDelayMs = 500"

definition new_TcpClient :: TcpClient where
  "new_TcpClient = \<lparr>co_connectFlag = False, co_state = CDisconnected, co_channel = None, co_retryDelayMs = kInitRetryDelayMs, co_timers = [],
     co_sockets = {}, co_pending = [], cl_retry = False, cl_connectFlag = True, cl_nextConnId = 1, cl_connection = None, cl_open = Map.empty, cl_shut = {},
     cl_phase = Functors []\<rparr>"

definition enableRetry :: "TcpClient \<Rightarrow> TcpClient" where
  "enableRetry s = s\<lparr>cl_retry := True\<rparr>"

section \<open>The connector\<close>

definition cl_queueInLoop :: "client_functor \<Rightarrow> TcpClient \<Rightarrow> TcpClient" where
  "cl_queueInLoop f s = s\<lparr>co_pending := co_pending s @ [f]\<rparr>"

text \<open>The socket is closed; a timer is armed with the present delay, in milliseconds.\<close>

definition co_retry :: "int \<Rightarrow> TcpClient \<Rightarrow> TcpClient" where
  "co_retry sockfd s =
     (let s = s\<lparr>co_sockets := co_sockets s - {sockfd}, co_state := CDisconnected\<rparr>
      in if co_connectFlag s
         then s\<lparr>co_timers := co_timers s @ [co_retryDelayMs s], co_retryDelayMs := min (co_retryDelayMs s * 2) kMaxRetryDelayMs\<rparr>
         else s)"

definition co_connecting :: "int \<Rightarrow> TcpClient \<Rightarrow> TcpClient option" where
  "co_connecting sockfd s = do {
     let s = s\<lparr>co_state := CConnecting\<rparr>;
     assert_that (co_channel s = None);
     Some (s\<lparr>co_channel := Some (sockfd, True)\<rparr>)
   }"

definition co_connect :: "int \<Rightarrow> errno \<Rightarrow> TcpClient \<Rightarrow> TcpClient option" where
  "co_connect sockfd savedErrno s =
     (let s = s\<lparr>co_sockets := insert sockfd (co_sockets s)\<rparr>
      in if savedErrno \<in> {NoError, EINPROGRESS, EINTR, EISCONN} then co_connecting sockfd s
         else if savedErrno \<in> {EAGAIN, EADDRINUSE, EADDRNOTAVAIL, ECONNREFUSED, ENETUNREACH} then Some (co_retry sockfd s)
         else Some (s\<lparr>co_sockets := co_sockets s - {sockfd}\<rparr>))"

definition co_startInLoop :: "int \<Rightarrow> errno \<Rightarrow> TcpClient \<Rightarrow> TcpClient option" where
  "co_startInLoop sockfd savedErrno s = do {
     assert_that (co_state s = CDisconnected);
     if co_connectFlag s then co_connect sockfd savedErrno s else Some s
   }"

definition co_start :: "bool \<Rightarrow> int \<Rightarrow> errno \<Rightarrow> TcpClient \<Rightarrow> TcpClient option" where
  "co_start inLoopThread sockfd savedErrno s =
     (let s = s\<lparr>co_connectFlag := True\<rparr>
      in if inLoopThread then co_startInLoop sockfd savedErrno s else Some (cl_queueInLoop StartInLoop s))"

definition co_stop :: "TcpClient \<Rightarrow> TcpClient" where
  "co_stop s = cl_queueInLoop StopInLoop (s\<lparr>co_connectFlag := False\<rparr>)"

text \<open>A missing channel is a null pointer; a channel that is not registered fails an assertion of \<^verbatim>\<open>Channel::remove\<close>.\<close>

definition co_removeAndResetChannel :: "TcpClient \<Rightarrow> (int \<times> TcpClient) option" where
  "co_removeAndResetChannel s = do {
     (sockfd, added) \<leftarrow> co_channel s;
     assert_that added;
     Some (sockfd, cl_queueInLoop ResetChannel (s\<lparr>co_channel := Some (sockfd, False)\<rparr>))
   }"

text \<open>The destructor of a channel that is registered fails an assertion.\<close>

definition co_resetChannel :: "TcpClient \<Rightarrow> TcpClient option" where
  "co_resetChannel s = (case co_channel s of
       None \<Rightarrow> Some s
     | Some (sockfd, added) \<Rightarrow> do { assert_that (\<not> added); Some (s\<lparr>co_channel := None\<rparr>) })"

definition co_stopInLoop :: "TcpClient \<Rightarrow> TcpClient option" where
  "co_stopInLoop s =
     (if co_state s = CConnecting
      then do {
        (sockfd, s) \<leftarrow> co_removeAndResetChannel (s\<lparr>co_state := CDisconnected\<rparr>);
        Some (co_retry sockfd s)
      }
      else Some s)"

definition co_restart :: "int \<Rightarrow> errno \<Rightarrow> TcpClient \<Rightarrow> TcpClient option" where
  "co_restart sockfd savedErrno s =
     co_startInLoop sockfd savedErrno (s\<lparr>co_state := CDisconnected, co_retryDelayMs := kInitRetryDelayMs, co_connectFlag := True\<rparr>)"

section \<open>The client\<close>

text \<open>The new connection takes the socket over. \<open>cl_open\<close> are the connections that have not been closed.\<close>

definition cl_newConnection :: "int \<Rightarrow> TcpClient \<Rightarrow> TcpClient" where
  "cl_newConnection sockfd s =
     s\<lparr>co_sockets := co_sockets s - {sockfd}, cl_nextConnId := cl_nextConnId s + 1, cl_connection := Some (cl_nextConnId s),
       cl_open := (cl_open s)(cl_nextConnId s \<mapsto> sockfd)\<rparr>"

definition cl_removeConnection :: "nat \<Rightarrow> int \<Rightarrow> errno \<Rightarrow> TcpClient \<Rightarrow> TcpClient option" where
  "cl_removeConnection conn sockfd savedErrno s = do {
     assert_that (cl_connection s = Some conn);
     let s = cl_queueInLoop (ConnectDestroyed conn) (s\<lparr>cl_connection := None\<rparr>);
     if cl_retry s \<and> cl_connectFlag s then co_restart sockfd savedErrno s else Some s
   }"

definition co_handleWrite :: "int \<Rightarrow> bool \<Rightarrow> TcpClient \<Rightarrow> TcpClient option" where
  "co_handleWrite err selfConnect s =
     (if co_state s = CConnecting
      then do {
        (sockfd, s) \<leftarrow> co_removeAndResetChannel s;
        if err \<noteq> 0 then Some (co_retry sockfd s)
        else if selfConnect then Some (co_retry sockfd s)
        else do {
          let s = s\<lparr>co_state := CConnected\<rparr>;
          if co_connectFlag s then Some (cl_newConnection sockfd s) else Some (s\<lparr>co_sockets := co_sockets s - {sockfd}\<rparr>)
        }
      }
      else do { assert_that (co_state s = CDisconnected); Some s })"

definition co_handleError :: "TcpClient \<Rightarrow> TcpClient option" where
  "co_handleError s =
     (if co_state s = CConnecting
      then do { (sockfd, s) \<leftarrow> co_removeAndResetChannel s; Some (co_retry sockfd s) }
      else Some s)"

definition cl_connect :: "bool \<Rightarrow> int \<Rightarrow> errno \<Rightarrow> TcpClient \<Rightarrow> TcpClient option" where
  "cl_connect inLoopThread sockfd savedErrno s = co_start inLoopThread sockfd savedErrno (s\<lparr>cl_connectFlag := True\<rparr>)"

text \<open>\<open>cl_shut\<close> are the connections asked to shut their writing side down; that such a connection closes is a later event.\<close>

definition cl_disconnect :: "TcpClient \<Rightarrow> TcpClient" where
  "cl_disconnect s =
     (let s = s\<lparr>cl_connectFlag := False\<rparr>
      in case cl_connection s of Some conn \<Rightarrow> s\<lparr>cl_shut := insert conn (cl_shut s)\<rparr> | None \<Rightarrow> s)"

definition cl_stop :: "TcpClient \<Rightarrow> TcpClient" where
  "cl_stop s = co_stop (s\<lparr>cl_connectFlag := False\<rparr>)"

text \<open>\<^verbatim>\<open>TcpConnection::handleClose\<close> of the connection, with the close callback \<^verbatim>\<open>removeConnection\<close>.\<close>

definition cl_handleClose :: "nat \<Rightarrow> int \<Rightarrow> errno \<Rightarrow> TcpClient \<Rightarrow> TcpClient option" where
  "cl_handleClose conn sockfd savedErrno s =
     (if cl_open s conn = None then Some s
      else cl_removeConnection conn sockfd savedErrno (s\<lparr>cl_open := (cl_open s)(conn := None)\<rparr>))"

section \<open>The rounds of the loop\<close>

text \<open>\<open>ClPoll\<close> tells which of the connector's channel, the connection and the retry timer are due; the flags of \<open>ClConnectorEvent\<close> are
  the error and the write event, in the order of \<^verbatim>\<open>Channel::handleEvent\<close>. \<open>ClForceClose\<close> is \<^verbatim>\<open>TcpConnection::forceClose\<close>.\<close>

datatype client_op = ClConnect bool int errno | ClStop | ClDisconnect | ClEnableRetry | ClForceClose nat
  | ClPoll bool bool bool | ClConnectorEvent bool bool int bool | ClTimer int errno | ClConnClose int errno
  | ClFunctors | ClRunFunctor int errno

fun cl_functor :: "client_functor \<Rightarrow> int \<Rightarrow> errno \<Rightarrow> TcpClient \<Rightarrow> TcpClient option" where
  "cl_functor StartInLoop sockfd e s = co_startInLoop sockfd e s"
| "cl_functor StopInLoop sockfd e s = co_stopInLoop s"
| "cl_functor ResetChannel sockfd e s = co_resetChannel s"
| "cl_functor (ForceCloseInLoop conn) sockfd e s = cl_handleClose conn sockfd e s"
| "cl_functor (ConnectDestroyed conn) sockfd e s = Some s"

fun cl_exec :: "client_op \<Rightarrow> TcpClient \<Rightarrow> TcpClient option" where
  "cl_exec (ClConnect inLoop sockfd e) s = cl_connect inLoop sockfd e s"
| "cl_exec ClStop s = Some (cl_stop s)"
| "cl_exec ClDisconnect s = Some (cl_disconnect s)"
| "cl_exec ClEnableRetry s = Some (enableRetry s)"
| "cl_exec (ClForceClose conn) s = Some (cl_queueInLoop (ForceCloseInLoop conn) s)"
| "cl_exec (ClPoll a b c) s = Some (s\<lparr>cl_phase := Events a b c\<rparr>)"
| "cl_exec (ClConnectorEvent error_event write_event err selfConnect) s =
     (case cl_phase s of
        Events a b c \<Rightarrow> do {
          let s = s\<lparr>cl_phase := Events False b c\<rparr>;
          s \<leftarrow> (if error_event then co_handleError s else Some s);
          (if write_event then co_handleWrite err selfConnect s else Some s)
        }
      | Functors fs \<Rightarrow> None)"
| "cl_exec (ClTimer sockfd e) s =
     (case (cl_phase s, co_timers s) of
        (Events a b c, t # ts) \<Rightarrow> co_startInLoop sockfd e (s\<lparr>cl_phase := Events a b False, co_timers := ts\<rparr>)
      | _ \<Rightarrow> None)"
| "cl_exec (ClConnClose sockfd e) s =
     (case (cl_phase s, cl_connection s) of
        (Events a b c, Some conn) \<Rightarrow> cl_handleClose conn sockfd e (s\<lparr>cl_phase := Events a False c\<rparr>)
      | _ \<Rightarrow> None)"
| "cl_exec ClFunctors s = Some (s\<lparr>cl_phase := Functors (co_pending s), co_pending := []\<rparr>)"
| "cl_exec (ClRunFunctor sockfd e) s =
     (case cl_phase s of Functors (f # fs) \<Rightarrow> cl_functor f sockfd e (s\<lparr>cl_phase := Functors fs\<rparr>) | _ \<Rightarrow> None)"

text \<open>The functors that are still to run.\<close>

definition work :: "TcpClient \<Rightarrow> client_functor list" where
  "work s = (case cl_phase s of Functors fs \<Rightarrow> fs | Events a b c \<Rightarrow> []) @ co_pending s"

text \<open>No attempt is under way or planned.\<close>

definition idle :: "TcpClient \<Rightarrow> bool" where
  "idle s \<longleftrightarrow> co_state s = CDisconnected \<and> co_channel s = None \<and> co_timers s = [] \<and> StartInLoop \<notin> set (work s) \<and> cl_connection s = None"

definition fresh_socket :: "int \<Rightarrow> TcpClient \<Rightarrow> bool" where
  "fresh_socket fd s \<longleftrightarrow> fd \<notin> co_sockets s \<and> (case cl_connection s of None \<Rightarrow> True | Some conn \<Rightarrow> cl_open s conn \<noteq> Some fd)"

text \<open>The contract: \<^verbatim>\<open>connect\<close> is called when the client is idle and no \<^verbatim>\<open>stop\<close> is pending; only a connection there was can be closed; the loop handles the events that were reported,
  then its functors; a new socket is one that is not in use.\<close>

fun cl_allowed :: "client_op \<Rightarrow> TcpClient \<Rightarrow> bool" where
  "cl_allowed (ClConnect inLoop sockfd e) s \<longleftrightarrow> idle s \<and> StopInLoop \<notin> set (work s) \<and> fresh_socket sockfd s"
| "cl_allowed (ClPoll a b c) s \<longleftrightarrow> cl_phase s = Functors [] \<and> (a \<longrightarrow> co_state s = CConnecting) \<and> (b \<longrightarrow> cl_connection s \<noteq> None) \<and> (c \<longrightarrow> co_timers s \<noteq> [])"
| "cl_allowed (ClConnectorEvent x y err selfConnect) s \<longleftrightarrow> (case cl_phase s of Events a b c \<Rightarrow> a | Functors fs \<Rightarrow> False)"
| "cl_allowed (ClTimer sockfd e) s \<longleftrightarrow> (case cl_phase s of Events a b c \<Rightarrow> c | Functors fs \<Rightarrow> False) \<and> fresh_socket sockfd s"
| "cl_allowed (ClConnClose sockfd e) s \<longleftrightarrow> (case cl_phase s of Events a b c \<Rightarrow> b | Functors fs \<Rightarrow> False) \<and> fresh_socket sockfd s"
| "cl_allowed (ClForceClose conn) s \<longleftrightarrow> conn < cl_nextConnId s"
| "cl_allowed ClFunctors s \<longleftrightarrow> cl_phase s = Events False False False"
| "cl_allowed (ClRunFunctor sockfd e) s \<longleftrightarrow> (case cl_phase s of Functors (f # fs) \<Rightarrow> True | _ \<Rightarrow> False) \<and> fresh_socket sockfd s"
| "cl_allowed op s \<longleftrightarrow> True"

inductive cl_reach :: "TcpClient \<Rightarrow> bool" where
  cl_start: "cl_reach new_TcpClient"
| cl_step: "cl_reach s \<Longrightarrow> cl_allowed op s \<Longrightarrow> cl_exec op s = Some s' \<Longrightarrow> cl_reach s'"

section \<open>Invariant\<close>

definition chan_ok :: "TcpClient \<Rightarrow> bool" where
  "chan_ok s = (case co_channel s of Some (fd, True) \<Rightarrow> co_state s = CConnecting \<and> co_sockets s = {fd} | _ \<Rightarrow> co_state s \<noteq> CConnecting \<and> co_sockets s = {})"

definition tokens :: "TcpClient \<Rightarrow> nat" where
  "tokens s = length (co_timers s) + count_list (work s) StartInLoop + (if co_state s = CConnecting then 1 else 0) + (if cl_connection s = None then 0 else 1)"

text \<open>While the channel of a finished attempt waits to be reset, neither the timer nor the connection has its event, and the reset runs in this round.\<close>

definition late_ok :: "TcpClient \<Rightarrow> bool" where
  "late_ok s \<longleftrightarrow> (co_channel s \<noteq> None \<and> (co_timers s \<noteq> [] \<or> cl_connection s \<noteq> None) \<longrightarrow>
     (case cl_phase s of Events a b c \<Rightarrow> \<not> b \<and> \<not> c | Functors fs \<Rightarrow> ResetChannel \<in> set fs))"

definition conn_ok :: "TcpClient \<Rightarrow> bool" where
  "conn_ok s = (case cl_connection s of None \<Rightarrow> cl_open s = Map.empty
     | Some conn \<Rightarrow> co_state s = CConnected \<and> dom (cl_open s) = {conn} \<and> conn < cl_nextConnId s
         \<and> ResetChannel \<notin> set (dropWhile ((\<noteq>) (ForceCloseInLoop conn)) (work s)))"

definition flags_ok :: "TcpClient \<Rightarrow> bool" where
  "flags_ok s = (case cl_phase s of Functors fs \<Rightarrow> True
     | Events a b c \<Rightarrow> (a \<longrightarrow> co_state s = CConnecting) \<and> (b \<longrightarrow> cl_connection s \<noteq> None) \<and> (c \<longrightarrow> co_timers s \<noteq> []))"

definition cl_inv :: "TcpClient \<Rightarrow> bool" where
  "cl_inv s \<longleftrightarrow> chan_ok s
     \<and> count_list (work s) ResetChannel = (case co_channel s of Some (fd, False) \<Rightarrow> 1 | _ \<Rightarrow> 0)
     \<and> tokens s \<le> 1
     \<and> (co_timers s \<noteq> [] \<longrightarrow> co_state s = CDisconnected)
     \<and> (StartInLoop \<in> set (work s) \<longrightarrow> co_channel s = None \<and> co_state s = CDisconnected)
     \<and> (StopInLoop \<in> set (work s) \<longrightarrow> \<not> co_connectFlag s \<and> \<not> cl_connectFlag s)
     \<and> late_ok s \<and> conn_ok s \<and> flags_ok s
     \<and> (\<forall>conn. ForceCloseInLoop conn \<in> set (work s) \<longrightarrow> conn < cl_nextConnId s)
     \<and> kInitRetryDelayMs \<le> co_retryDelayMs s \<and> co_retryDelayMs s \<le> kMaxRetryDelayMs"

lemma new_inv: "cl_inv new_TcpClient"
  by (simp add: cl_inv_def new_TcpClient_def chan_ok_def tokens_def work_def late_ok_def conn_ok_def flags_ok_def kMaxRetryDelayMs_def kInitRetryDelayMs_def)

text \<open>An attempt that starts from an idle client.\<close>

lemma start_ok:
  assumes inv: "cl_inv s" and idle: "idle s"
  shows "\<exists>s'. co_startInLoop fd e s = Some s' \<and> cl_inv s'"
proof -
  have socks: "co_sockets s = {}" using inv idle by (simp add: cl_inv_def chan_ok_def idle_def)
  have st: "co_state s = CDisconnected" "co_channel s = None" "co_timers s = []" "StartInLoop \<notin> set (work s)" "cl_connection s = None"
    using idle by (simp_all add: idle_def)
  let ?c = "s\<lparr>co_sockets := {fd}, co_state := CConnecting, co_channel := Some (fd, True)\<rparr>"
  let ?r = "s\<lparr>co_sockets := {}, co_state := CDisconnected, co_timers := [co_retryDelayMs s], co_retryDelayMs := min (co_retryDelayMs s * 2) kMaxRetryDelayMs\<rparr>"
  have w: "work ?c = work s" "work ?r = work s" by (simp_all add: work_def)
  have c: "cl_inv ?c" using inv st w unfolding cl_inv_def
    by (auto simp: chan_ok_def tokens_def late_ok_def conn_ok_def flags_ok_def count_list_0_iff split: client_phase.splits)
  have r: "cl_inv ?r" using inv st w unfolding cl_inv_def
    by (auto simp: chan_ok_def tokens_def late_ok_def conn_ok_def flags_ok_def count_list_0_iff kMaxRetryDelayMs_def kInitRetryDelayMs_def split: client_phase.splits)
  show ?thesis
  proof (cases "co_connectFlag s")
    case False
    with st inv show ?thesis by (simp add: co_startInLoop_def)
  next
    case True
    have "co_startInLoop fd e s \<in> {Some ?c, Some ?r, Some (s\<lparr>co_sockets := {}\<rparr>)}"
      using True st socks by (simp add: co_startInLoop_def co_connect_def co_connecting_def co_retry_def Let_def)
    moreover have "s\<lparr>co_sockets := {}\<rparr> = s" using socks by simp
    ultimately show ?thesis using c r inv by auto
  qed
qed

text \<open>An attempt that ends: its channel is to be reset.\<close>

lemma remove_eval:
  assumes "cl_inv s" and "co_state s = CConnecting"
  obtains fd where "co_channel s = Some (fd, True)" "co_sockets s = {fd}"
    "co_removeAndResetChannel s = Some (fd, s\<lparr>co_channel := Some (fd, False), co_pending := co_pending s @ [ResetChannel]\<rparr>)"
proof -
  from assms obtain fd where c: "co_channel s = Some (fd, True)" "co_sockets s = {fd}"
    by (auto simp: cl_inv_def chan_ok_def split: option.splits prod.splits bool.splits)
  then show ?thesis by (intro that) (simp_all add: co_removeAndResetChannel_def cl_queueInLoop_def)
qed

lemma connecting_facts:
  assumes "cl_inv s" and "co_state s = CConnecting"
  shows "co_timers s = []" and "StartInLoop \<notin> set (work s)" and "cl_connection s = None" and "ResetChannel \<notin> set (work s)" and "cl_open s = Map.empty"
proof -
  have t: "tokens s \<le> 1" using assms(1) by (simp add: cl_inv_def)
  then show "co_timers s = []" "cl_connection s = None" using assms(2) by (auto simp: tokens_def split: if_splits)
  show "StartInLoop \<notin> set (work s)" using t assms(2) by (auto simp: tokens_def count_list_0_iff [symmetric])
  obtain fd where "co_channel s = Some (fd, True)" using remove_eval [OF assms] by metis
  then have "count_list (work s) ResetChannel = 0" using assms(1) by (simp add: cl_inv_def)
  then show "ResetChannel \<notin> set (work s)" by (simp add: count_list_0_iff)
  show "cl_open s = Map.empty" using assms(1) \<open>cl_connection s = None\<close> by (simp add: cl_inv_def conn_ok_def)
qed

text \<open>The phase in which an attempt may end: its own event has been taken, or a functor stops it.\<close>

definition may_end :: "TcpClient \<Rightarrow> bool" where
  "may_end s \<longleftrightarrow> (case cl_phase s of Events a b c \<Rightarrow> \<not> a | Functors fs \<Rightarrow> \<not> co_connectFlag s)"

lemma end_attempt:
  assumes inv: "cl_inv s" and st: "co_state s = CConnecting" and m: "may_end s" and ch: "co_channel s = Some (fd, True)" "co_sockets s = {fd}"
  defines "t \<equiv> s\<lparr>co_channel := Some (fd, False), co_pending := co_pending s @ [ResetChannel]\<rparr>"
  shows "cl_inv (co_retry fd t)" and "cl_inv (t\<lparr>co_state := CConnected, co_sockets := {}\<rparr>)"
    and "co_connectFlag s \<Longrightarrow> cl_inv (cl_newConnection fd (t\<lparr>co_state := CConnected\<rparr>))"
proof -
  note f = connecting_facts [OF inv st]
  have w: "work (t\<lparr>co_state := x, co_sockets := y\<rparr>) = work s @ [ResetChannel]" "work (co_retry fd t) = work s @ [ResetChannel]"
    "work (cl_newConnection fd (t\<lparr>co_state := x\<rparr>)) = work s @ [ResetChannel]" for x y
    by (simp_all add: work_def t_def co_retry_def cl_newConnection_def Let_def split: client_phase.splits)
  have ev: "cl_phase s = Events False False False" if "co_connectFlag s"
    using m that inv f by (auto simp: may_end_def cl_inv_def flags_ok_def split: client_phase.splits)
  note defs = chan_ok_def tokens_def late_ok_def conn_ok_def flags_ok_def count_list_0_iff kMaxRetryDelayMs_def kInitRetryDelayMs_def
  show "cl_inv (co_retry fd t)"
  proof (cases "co_connectFlag s")
    case True
    with inv f ev w(2) ch show ?thesis unfolding cl_inv_def by (auto simp: t_def co_retry_def Let_def defs)
  next
    case False
    with inv f m w(2) ch show ?thesis unfolding cl_inv_def by (auto simp: t_def co_retry_def Let_def defs may_end_def split: client_phase.splits)
  qed
  show "cl_inv (t\<lparr>co_state := CConnected, co_sockets := {}\<rparr>)"
    using inv f m w(1) ch unfolding cl_inv_def by (auto simp: t_def defs may_end_def split: client_phase.splits)
  show "cl_inv (cl_newConnection fd (t\<lparr>co_state := CConnected\<rparr>))" if "co_connectFlag s"
  proof -
    have "ForceCloseInLoop (cl_nextConnId s) \<notin> set (work s)" using inv by (auto simp: cl_inv_def)
    then have "dropWhile ((\<noteq>) (ForceCloseInLoop (cl_nextConnId s))) (work s @ [ResetChannel]) = []" by (auto simp: dropWhile_eq_Nil_conv)
    with inv f ev [OF that] w(3) ch show ?thesis unfolding cl_inv_def by (auto simp: t_def cl_newConnection_def defs less_Suc_eq)
  qed
qed

lemma handleError_ok:
  assumes inv: "cl_inv s" and "may_end s"
  shows "\<exists>s'. co_handleError s = Some s' \<and> cl_inv s' \<and> may_end s' \<and> (co_state s = CConnecting \<longrightarrow> co_state s' = CDisconnected)"
proof (cases "co_state s = CConnecting")
  case True
  from remove_eval [OF inv True] obtain fd where c: "co_channel s = Some (fd, True)" "co_sockets s = {fd}"
      "co_removeAndResetChannel s = Some (fd, s\<lparr>co_channel := Some (fd, False), co_pending := co_pending s @ [ResetChannel]\<rparr>)"
    by metis
  with end_attempt(1) [OF inv True assms(2) c(1,2)] True assms(2) show ?thesis
    by (auto simp: co_handleError_def co_retry_def may_end_def Let_def split: client_phase.splits)
qed (use assms in \<open>simp add: co_handleError_def\<close>)

lemma co_handleWrite_ok:
  assumes inv: "cl_inv s" and "may_end s" and "co_state s \<noteq> CConnected"
  shows "\<exists>s'. co_handleWrite err selfConnect s = Some s' \<and> cl_inv s'"
proof (cases "co_state s = CConnecting")
  case True
  from remove_eval [OF inv True] obtain fd where c: "co_channel s = Some (fd, True)" "co_sockets s = {fd}"
      "co_removeAndResetChannel s = Some (fd, s\<lparr>co_channel := Some (fd, False), co_pending := co_pending s @ [ResetChannel]\<rparr>)"
    by metis
  with end_attempt [OF inv True assms(2) c(1,2)] True show ?thesis by (simp add: co_handleWrite_def Let_def)
next
  case False
  with assms(3) have "co_state s = CDisconnected" by (cases "co_state s") auto
  with inv show ?thesis by (simp add: co_handleWrite_def)
qed

lemma cl_handleClose_ok:
  assumes u: "cl_inv u" "cl_connection u = Some conn" "co_channel u = None"
    "case cl_phase u of Events a b c \<Rightarrow> \<not> b | Functors fs \<Rightarrow> True"
  shows "\<exists>s'. cl_handleClose conn fd e u = Some s' \<and> cl_inv s'"
proof -
  let ?t = "u\<lparr>cl_open := Map.empty, cl_connection := None, co_pending := co_pending u @ [ConnectDestroyed conn]\<rparr>"
  let ?r = "?t\<lparr>co_state := CDisconnected, co_retryDelayMs := kInitRetryDelayMs, co_connectFlag := True\<rparr>"
  have d: "dom (cl_open u) = {conn}" using u by (simp add: cl_inv_def conn_ok_def)
  then have "dom ((cl_open u)(conn := None)) = {}" by simp
  then have o: "(cl_open u)(conn := None) = Map.empty" "cl_open u conn \<noteq> None" using d by (simp_all only: dom_eq_empty_conv) auto
  have tk: "co_timers u = []" "StartInLoop \<notin> set (work u)" "co_state u = CConnected"
    using u by (auto simp: cl_inv_def tokens_def conn_ok_def count_list_0_iff [symmetric])
  have w: "work ?t = work u @ [ConnectDestroyed conn]" "work ?r = work u @ [ConnectDestroyed conn]"
    by (simp_all add: work_def split: client_phase.splits)
  note defs = chan_ok_def tokens_def late_ok_def conn_ok_def flags_ok_def kMaxRetryDelayMs_def kInitRetryDelayMs_def
  have t: "cl_inv ?t" using u tk w unfolding cl_inv_def by (auto simp: defs split: client_phase.splits)
  show ?thesis
  proof (cases "cl_retry u \<and> cl_connectFlag u")
    case False
    with t o u(2) show ?thesis by (auto simp: cl_handleClose_def cl_removeConnection_def cl_queueInLoop_def Let_def)
  next
    case True
    then have "StopInLoop \<notin> set (work u)" using u(1) by (auto simp: cl_inv_def)
    then have r: "cl_inv ?r" using t tk u(3) w unfolding cl_inv_def by (auto simp: defs split: client_phase.splits)
    moreover have "idle ?r" using tk u(3) w by (simp add: idle_def)
    ultimately show ?thesis using start_ok [of ?r fd e] True o u(2)
      by (auto simp: cl_handleClose_def cl_removeConnection_def cl_queueInLoop_def co_restart_def Let_def)
  qed
qed

text \<open>Taking a functor that is not \<open>ResetChannel\<close> out of the round.\<close>

lemma take_functor:
  assumes inv: "cl_inv s" and ph: "cl_phase s = Functors (f # fs)" and f: "f \<noteq> ResetChannel"
  shows "cl_inv (s\<lparr>cl_phase := Functors fs\<rparr>)"
proof -
  let ?s = "s\<lparr>cl_phase := Functors fs\<rparr>"
  have w: "work s = f # work ?s" by (simp add: work_def ph)
  have c: "conn_ok ?s"
    using inv unfolding cl_inv_def conn_ok_def w
    by (auto split: option.splits if_splits dest: set_dropWhileD)
  have "tokens ?s \<le> tokens s" unfolding tokens_def w by simp
  then show ?thesis using inv f c ph unfolding cl_inv_def w
    by (auto simp: chan_ok_def late_ok_def flags_ok_def split: option.splits prod.splits bool.splits)
qed

lemma reset_ok:
  assumes inv: "cl_inv s" and ph: "cl_phase s = Functors (ResetChannel # fs)"
  shows "\<exists>s'. co_resetChannel (s\<lparr>cl_phase := Functors fs\<rparr>) = Some s' \<and> cl_inv s'"
proof -
  let ?s = "s\<lparr>cl_phase := Functors fs, co_channel := None\<rparr>"
  have w: "work s = ResetChannel # work ?s" by (simp add: work_def ph)
  then have n: "count_list (work s) ResetChannel = Suc (count_list (work ?s) ResetChannel)" by simp
  with inv obtain fd where ch: "co_channel s = Some (fd, False)" "count_list (work ?s) ResetChannel = 0"
    by (auto simp: cl_inv_def split: option.splits prod.splits bool.splits)
  have "ResetChannel \<notin> set (work ?s)" using ch(2) by (simp add: count_list_0_iff)
  then have "conn_ok ?s" using inv unfolding cl_inv_def conn_ok_def w by (auto split: option.splits if_splits dest: set_dropWhileD)
  moreover have "tokens ?s = tokens s" unfolding tokens_def w by simp
  ultimately have "cl_inv ?s" using inv ch unfolding cl_inv_def w by (auto simp: chan_ok_def late_ok_def flags_ok_def)
  with ch show ?thesis by (simp add: co_resetChannel_def)
qed

lemma stopInLoop_ok:
  assumes inv: "cl_inv s" and ph: "cl_phase s = Functors (StopInLoop # fs)"
  shows "\<exists>s'. co_stopInLoop (s\<lparr>cl_phase := Functors fs\<rparr>) = Some s' \<and> cl_inv s'"
proof -
  let ?s = "s\<lparr>cl_phase := Functors fs\<rparr>"
  have i: "cl_inv ?s" by (rule take_functor [OF inv ph]) simp
  have "StopInLoop \<in> set (work s)" by (simp add: work_def ph)
  then have nc: "\<not> co_connectFlag s" using inv by (simp add: cl_inv_def)
  show ?thesis
  proof (cases "co_state s = CConnecting")
    case True
    then have st: "co_state ?s = CConnecting" by simp
    have m: "may_end ?s" using nc by (simp add: may_end_def)
    from remove_eval [OF i st] obtain fd where c: "co_channel ?s = Some (fd, True)" "co_sockets ?s = {fd}" by metis
    have "co_stopInLoop ?s = Some (co_retry fd (?s\<lparr>co_channel := Some (fd, False), co_pending := co_pending ?s @ [ResetChannel]\<rparr>))"
      using c True nc by (simp add: co_stopInLoop_def co_removeAndResetChannel_def cl_queueInLoop_def co_retry_def Let_def)
    with end_attempt(1) [OF i st m c] show ?thesis by simp
  qed (use i in \<open>simp add: co_stopInLoop_def\<close>)
qed

lemma functor_ok:
  assumes inv: "cl_inv s" and ph: "cl_phase s = Functors (f # fs)"
  shows "\<exists>s'. cl_functor f fd e (s\<lparr>cl_phase := Functors fs\<rparr>) = Some s' \<and> cl_inv s'"
proof (cases f)
  case StartInLoop
  have i: "cl_inv (s\<lparr>cl_phase := Functors fs\<rparr>)" using take_functor [OF inv ph] StartInLoop by simp
  have w: "work s = StartInLoop # work (s\<lparr>cl_phase := Functors fs\<rparr>)" by (simp add: work_def ph StartInLoop)
  have t: "length (co_timers s) + Suc (count_list (work (s\<lparr>cl_phase := Functors fs\<rparr>)) StartInLoop) + (if co_state s = CConnecting then 1 else 0)
      + (if cl_connection s = None then 0 else 1) \<le> 1"
    using inv unfolding cl_inv_def tokens_def w by simp
  have "StartInLoop \<notin> set (work (s\<lparr>cl_phase := Functors fs\<rparr>))"
    using t unfolding count_list_0_iff [symmetric] by simp
  moreover have "co_timers s = []" "cl_connection s = None" using t by (auto split: if_splits)
  moreover have "StartInLoop \<in> set (work s)" unfolding w by simp
  then have "co_channel s = None" "co_state s = CDisconnected" using inv by (simp_all add: cl_inv_def)
  ultimately have "idle (s\<lparr>cl_phase := Functors fs\<rparr>)" by (simp add: idle_def)
  with start_ok [OF i] StartInLoop show ?thesis by simp
next
  case (ForceCloseInLoop conn)
  let ?s = "s\<lparr>cl_phase := Functors fs\<rparr>"
  have i: "cl_inv ?s" using take_functor [OF inv ph] ForceCloseInLoop by simp
  show ?thesis
  proof (cases "cl_open s conn")
    case None
    with i ForceCloseInLoop show ?thesis by (simp add: cl_handleClose_def)
  next
    case (Some x)
    then have "conn \<in> dom (cl_open s)" by auto
    moreover have "conn_ok s" using inv by (simp add: cl_inv_def)
    ultimately have cn: "cl_connection s = Some conn" "co_state s = CConnected" by (auto simp: conn_ok_def split: option.splits)
    have w: "work s = ForceCloseInLoop conn # work ?s" by (simp add: work_def ph ForceCloseInLoop)
    have "ResetChannel \<notin> set (work s)" using inv cn unfolding cl_inv_def conn_ok_def w by simp
    then have "count_list (work s) ResetChannel = 0" by (simp add: count_list_0_iff)
    with inv cn have "co_channel s = None" by (auto simp: cl_inv_def chan_ok_def split: option.splits prod.splits bool.splits)
    with cl_handleClose_ok [OF i, of conn fd e] cn ForceCloseInLoop show ?thesis by simp
  qed
qed (use take_functor [OF inv ph] reset_ok [OF inv] stopInLoop_ok [OF inv] ph in auto)

text \<open>The flags that the user sets play no part in most of the invariant.\<close>

lemma user_flags [simp]:
  "work (s\<lparr>co_connectFlag := x\<rparr>) = work s" "chan_ok (s\<lparr>co_connectFlag := x\<rparr>) = chan_ok s" "tokens (s\<lparr>co_connectFlag := x\<rparr>) = tokens s" "late_ok (s\<lparr>co_connectFlag := x\<rparr>) = late_ok s" "conn_ok (s\<lparr>co_connectFlag := x\<rparr>) = conn_ok s" "flags_ok (s\<lparr>co_connectFlag := x\<rparr>) = flags_ok s"
  "work (s\<lparr>cl_connectFlag := x\<rparr>) = work s" "chan_ok (s\<lparr>cl_connectFlag := x\<rparr>) = chan_ok s" "tokens (s\<lparr>cl_connectFlag := x\<rparr>) = tokens s" "late_ok (s\<lparr>cl_connectFlag := x\<rparr>) = late_ok s" "conn_ok (s\<lparr>cl_connectFlag := x\<rparr>) = conn_ok s" "flags_ok (s\<lparr>cl_connectFlag := x\<rparr>) = flags_ok s"
  "work (s\<lparr>cl_retry := x\<rparr>) = work s" "chan_ok (s\<lparr>cl_retry := x\<rparr>) = chan_ok s" "tokens (s\<lparr>cl_retry := x\<rparr>) = tokens s" "late_ok (s\<lparr>cl_retry := x\<rparr>) = late_ok s" "conn_ok (s\<lparr>cl_retry := x\<rparr>) = conn_ok s" "flags_ok (s\<lparr>cl_retry := x\<rparr>) = flags_ok s"
  "work (s\<lparr>cl_shut := sh\<rparr>) = work s" "chan_ok (s\<lparr>cl_shut := sh\<rparr>) = chan_ok s" "tokens (s\<lparr>cl_shut := sh\<rparr>) = tokens s" "late_ok (s\<lparr>cl_shut := sh\<rparr>) = late_ok s" "conn_ok (s\<lparr>cl_shut := sh\<rparr>) = conn_ok s" "flags_ok (s\<lparr>cl_shut := sh\<rparr>) = flags_ok s"
  "chan_ok (s\<lparr>co_pending := q\<rparr>) = chan_ok s" "late_ok (s\<lparr>co_pending := q\<rparr>) = late_ok s" "flags_ok (s\<lparr>co_pending := q\<rparr>) = flags_ok s"
  "chan_ok (s\<lparr>cl_phase := ph\<rparr>) = chan_ok s"
  by (simp_all add: work_def chan_ok_def tokens_def late_ok_def conn_ok_def flags_ok_def
      cong: option.case_cong prod.case_cong bool.case_cong client_phase.case_cong)

lemma late_channel:
  assumes "cl_inv s" and "co_timers s \<noteq> [] \<or> cl_connection s \<noteq> None" and "cl_phase s = Events a b c" and "b \<or> c"
  shows "co_channel s = None"
proof -
  have "late_ok s" using assms(1) by (simp add: cl_inv_def)
  with assms(2-4) show ?thesis by (cases "co_channel s") (auto simp: late_ok_def)
qed

lemma phase_inv:
  assumes inv: "cl_inv s" and w: "work (s\<lparr>cl_phase := ph\<rparr>) = work s" and "late_ok (s\<lparr>cl_phase := ph\<rparr>)" "flags_ok (s\<lparr>cl_phase := ph\<rparr>)"
  shows "cl_inv (s\<lparr>cl_phase := ph\<rparr>)"
proof -
  let ?s = "s\<lparr>cl_phase := ph\<rparr>"
  have "chan_ok ?s = chan_ok s" "tokens ?s = tokens s" "conn_ok ?s = conn_ok s"
    unfolding chan_ok_def tokens_def conn_ok_def w by (simp_all cong: option.case_cong prod.case_cong bool.case_cong)
  then show ?thesis using inv w assms(3,4) unfolding cl_inv_def by simp
qed

lemmas inv_defs = chan_ok_def tokens_def late_ok_def conn_ok_def flags_ok_def

lemma queue_inv:
  assumes inv: "cl_inv s" and f: "f \<noteq> ResetChannel" "f \<noteq> StartInLoop" "f = StopInLoop \<Longrightarrow> \<not> co_connectFlag s \<and> \<not> cl_connectFlag s"
    "\<And>conn. f = ForceCloseInLoop conn \<Longrightarrow> conn < cl_nextConnId s"
  shows "cl_inv (cl_queueInLoop f s)"
proof -
  have w: "work (cl_queueInLoop f s) = work s @ [f]" by (simp add: work_def cl_queueInLoop_def split: client_phase.splits)
  have d: "ResetChannel \<notin> set (dropWhile P (work s @ [f]))" if "ResetChannel \<notin> set (dropWhile P (work s))" for P
    using that f(1) by (simp add: dropWhile_append)
  have fl: "co_timers (cl_queueInLoop f s) = co_timers s" "co_state (cl_queueInLoop f s) = co_state s" "co_channel (cl_queueInLoop f s) = co_channel s"
    "cl_connection (cl_queueInLoop f s) = cl_connection s" "cl_phase (cl_queueInLoop f s) = cl_phase s" "co_sockets (cl_queueInLoop f s) = co_sockets s"
    "cl_open (cl_queueInLoop f s) = cl_open s" "cl_nextConnId (cl_queueInLoop f s) = cl_nextConnId s" "co_connectFlag (cl_queueInLoop f s) = co_connectFlag s"
    "cl_connectFlag (cl_queueInLoop f s) = cl_connectFlag s" "co_retryDelayMs (cl_queueInLoop f s) = co_retryDelayMs s"
    by (simp_all add: cl_queueInLoop_def)
  have "conn_ok (cl_queueInLoop f s)" using inv d by (auto simp: cl_inv_def conn_ok_def w fl split: option.splits)
  moreover have "tokens (cl_queueInLoop f s) = tokens s" using f by (simp add: tokens_def w fl)
  moreover have "chan_ok (cl_queueInLoop f s) = chan_ok s" "late_ok (cl_queueInLoop f s) = late_ok s" "flags_ok (cl_queueInLoop f s) = flags_ok s"
    unfolding chan_ok_def late_ok_def flags_ok_def fl by (rule refl)+
  ultimately show ?thesis using inv f unfolding cl_inv_def w fl by auto
qed

lemma connect_ok:
  assumes inv: "cl_inv s" and al: "cl_allowed (ClConnect inLoop fd e) s"
  shows "\<exists>s'. cl_connect inLoop fd e s = Some s' \<and> cl_inv s'"
proof -
  let ?s = "s\<lparr>cl_connectFlag := True, co_connectFlag := True\<rparr>"
  let ?q = "?s\<lparr>co_pending := co_pending s @ [StartInLoop]\<rparr>"
  have w: "work ?s = work s" "work ?q = work s @ [StartInLoop]" by (simp_all add: work_def split: client_phase.splits)
  have i: "cl_inv ?s" using inv al unfolding cl_inv_def by simp
  have idle: "idle ?s" using al w by (simp add: idle_def)
  have "tokens ?q = 1" "conn_ok ?q" using inv al by (simp_all add: tokens_def w cl_inv_def conn_ok_def idle_def count_list_0_iff)
  then have "cl_inv ?q" using inv al unfolding cl_inv_def w by (auto simp: idle_def)
  with start_ok [OF i idle, of fd e] show ?thesis by (auto simp: cl_connect_def co_start_def cl_queueInLoop_def Let_def)
qed

lemma timer_ok:
  assumes inv: "cl_inv s" and ph: "cl_phase s = Events a b True"
  shows "\<exists>t ts s'. co_timers s = t # ts \<and> co_startInLoop fd e (s\<lparr>cl_phase := Events a b False, co_timers := ts\<rparr>) = Some s' \<and> cl_inv s'"
proof -
  have ne: "co_timers s \<noteq> []" using inv ph by (auto simp: cl_inv_def flags_ok_def)
  then obtain t ts where t: "co_timers s = t # ts" by (cases "co_timers s") auto
  let ?s = "s\<lparr>cl_phase := Events a b False, co_timers := ts\<rparr>"
  have w: "work ?s = work s" by (simp add: work_def ph)
  have tk: "ts = []" "StartInLoop \<notin> set (work s)" "cl_connection s = None" "co_state s = CDisconnected"
    using inv t by (auto simp: cl_inv_def tokens_def count_list_0_iff [symmetric] split: if_splits)
  have ch: "co_channel s = None" using late_channel [OF inv _ ph] ne by simp
  have "cl_inv ?s" using inv tk ch w ph unfolding cl_inv_def by (simp add: inv_defs)
  moreover have "idle ?s" using tk ch w by (simp add: idle_def)
  ultimately show ?thesis using start_ok t by blast
qed

lemma close_event_ok:
  assumes inv: "cl_inv s" and ph: "cl_phase s = Events a True c"
  shows "\<exists>conn s'. cl_connection s = Some conn \<and> cl_handleClose conn fd e (s\<lparr>cl_phase := Events a False c\<rparr>) = Some s' \<and> cl_inv s'"
proof -
  from inv ph obtain conn where conn: "cl_connection s = Some conn" by (auto simp: cl_inv_def flags_ok_def)
  let ?s = "s\<lparr>cl_phase := Events a False c\<rparr>"
  have w: "work ?s = work s" by (simp add: work_def ph)
  have ch: "co_channel s = None" using late_channel [OF inv _ ph] conn by simp
  have "flags_ok s" using inv by (simp add: cl_inv_def)
  then have "cl_inv ?s" using ph ch w by (intro phase_inv [OF inv]) (simp_all add: late_ok_def flags_ok_def)
  with cl_handleClose_ok [of ?s conn fd e] conn ch show ?thesis by simp
qed

lemma connector_event_ok:
  assumes inv: "cl_inv s" and ph: "cl_phase s = Events True b c"
  shows "\<exists>s'. cl_exec (ClConnectorEvent x y err selfConnect) s = Some s' \<and> cl_inv s'"
proof -
  let ?s = "s\<lparr>cl_phase := Events False b c\<rparr>"
  have st: "co_state s = CConnecting" using inv ph by (auto simp: cl_inv_def flags_ok_def)
  have w: "work ?s = work s" by (simp add: work_def ph)
  have "flags_ok s" "late_ok s" using inv by (simp_all add: cl_inv_def)
  then have i: "cl_inv ?s" using ph w by (intro phase_inv [OF inv]) (simp_all add: late_ok_def flags_ok_def)
  have m: "may_end ?s" by (simp add: may_end_def)
  from handleError_ok [OF i m] st obtain t where t: "co_handleError ?s = Some t" "cl_inv t" "may_end t" "co_state t = CDisconnected" by auto
  have "\<exists>s'. co_handleWrite err selfConnect ?s = Some s' \<and> cl_inv s'" using co_handleWrite_ok [OF i m] st by simp
  moreover have "\<exists>s'. co_handleWrite err selfConnect t = Some s' \<and> cl_inv s'" using co_handleWrite_ok [OF t(2,3)] t(4) by simp
  ultimately show ?thesis using ph t i by (cases x; cases y) auto
qed

lemma round_ok:
  assumes inv: "cl_inv s"
  shows "cl_allowed (ClPoll a b c) s \<Longrightarrow> cl_inv (s\<lparr>cl_phase := Events a b c\<rparr>)"
    and "cl_phase s = Events False False False \<Longrightarrow> cl_inv (s\<lparr>cl_phase := Functors (co_pending s), co_pending := []\<rparr>)"
proof -
  assume al: "cl_allowed (ClPoll a b c) s"
  let ?s = "s\<lparr>cl_phase := Events a b c\<rparr>"
  have w: "work ?s = work s" using al by (simp add: work_def)
  have "late_ok s" using inv by (simp add: cl_inv_def)
  then have "late_ok ?s" using al by (auto simp: late_ok_def)
  then show "cl_inv ?s" using al w by (intro phase_inv [OF inv]) (simp_all add: flags_ok_def)
next
  assume ph: "cl_phase s = Events False False False"
  let ?s = "s\<lparr>cl_phase := Functors (co_pending s), co_pending := []\<rparr>"
  have w: "work ?s = work s" "work s = co_pending s" using ph by (simp_all add: work_def)
  have "ResetChannel \<in> set (co_pending s)" if "co_channel s = Some (fd, False)" for fd
  proof (rule ccontr)
    assume "ResetChannel \<notin> set (co_pending s)"
    then have "count_list (work s) ResetChannel = 0" by (simp add: w count_list_0_iff)
    with inv that show False by (simp add: cl_inv_def)
  qed
  moreover have "co_channel s \<noteq> Some (fd, True)" if "co_timers s \<noteq> [] \<or> cl_connection s \<noteq> None" for fd
    using inv that by (auto simp: cl_inv_def chan_ok_def conn_ok_def)
  ultimately have "late_ok ?s" by (auto simp: late_ok_def)
  moreover have "chan_ok ?s = chan_ok s" "tokens ?s = tokens s" "conn_ok ?s = conn_ok s" "flags_ok ?s"
    using w by (simp_all add: tokens_def conn_ok_def flags_ok_def cong: option.case_cong)
  ultimately show "cl_inv ?s" using inv w unfolding cl_inv_def by simp
qed

lemma cl_exec_ok:
  assumes inv: "cl_inv s" and al: "cl_allowed op s"
  shows "\<exists>s'. cl_exec op s = Some s' \<and> cl_inv s'"
proof (cases op)
  case ClStop
  have "cl_inv (s\<lparr>cl_connectFlag := False, co_connectFlag := False\<rparr>)"
    using inv unfolding cl_inv_def by simp
  from queue_inv [OF this, of StopInLoop] ClStop show ?thesis by (simp add: cl_stop_def co_stop_def)
next
  case ClDisconnect
  with inv show ?thesis unfolding cl_inv_def by (simp add: cl_disconnect_def Let_def split: option.split)
next
  case ClEnableRetry
  with inv show ?thesis unfolding cl_inv_def by (simp add: enableRetry_def)
next
  case (ClTimer fd e)
  with timer_ok [OF inv] al show ?thesis by (fastforce split: client_phase.splits)
next
  case (ClConnClose fd e)
  with close_event_ok [OF inv] al show ?thesis by (fastforce split: client_phase.splits)
next
  case (ClRunFunctor fd e)
  with functor_ok [OF inv] al show ?thesis by (auto split: client_phase.splits list.splits)
qed (use assms connect_ok [OF inv] queue_inv [OF inv] connector_event_ok [OF inv] round_ok [OF inv] in \<open>auto split: client_phase.splits\<close>)

lemma cl_reach_inv: "cl_reach s \<Longrightarrow> cl_inv s"
  by (induction rule: cl_reach.induct) (use cl_exec_ok in \<open>force intro: new_inv\<close>)+

section \<open>After \<^verbatim>\<open>stop\<close>\<close>

definition stopped :: "nat \<Rightarrow> nat option \<Rightarrow> TcpClient \<Rightarrow> bool" where
  "stopped n conn s \<longleftrightarrow> \<not> co_connectFlag s \<and> \<not> cl_connectFlag s \<and> cl_nextConnId s = n \<and> (cl_connection s = None \<or> cl_connection s = conn)"

lemma stopped_retry: "stopped n conn s \<Longrightarrow> stopped n conn (co_retry fd s)"
  by (simp add: stopped_def co_retry_def Let_def)

lemma stopped_start: "stopped n conn s \<Longrightarrow> co_startInLoop fd e s = Some s' \<Longrightarrow> stopped n conn s'"
  by (auto simp: co_startInLoop_def stopped_def split: if_splits)

lemma stopped_remove: "stopped n conn s \<Longrightarrow> co_removeAndResetChannel s = Some (fd, s') \<Longrightarrow> stopped n conn s'"
  by (auto simp: co_removeAndResetChannel_def cl_queueInLoop_def stopped_def abort_elims split: if_splits)

lemma stopped_error: "stopped n conn s \<Longrightarrow> co_handleError s = Some s' \<Longrightarrow> stopped n conn s'"
  by (auto simp: co_handleError_def abort_elims dest: stopped_remove stopped_retry split: if_splits)

lemma stopped_write:
  assumes st: "stopped n conn s" and w: "co_handleWrite err sc s = Some s'"
  shows "stopped n conn s'"
proof (cases "co_state s = CConnecting")
  case True
  with w obtain fd t where r: "co_removeAndResetChannel s = Some (fd, t)"
      "(if err \<noteq> 0 \<or> sc then Some (co_retry fd t) else if co_connectFlag t then Some (cl_newConnection fd (t\<lparr>co_state := CConnected\<rparr>))
        else Some (t\<lparr>co_state := CConnected, co_sockets := co_sockets t - {fd}\<rparr>)) = Some s'"
    by (auto simp: co_handleWrite_def abort_elims Let_def split: if_splits)
  have t: "stopped n conn t" by (rule stopped_remove [OF st r(1)])
  then have "\<not> co_connectFlag t" by (simp add: stopped_def)
  with r(2) t stopped_retry [OF t, of fd] show ?thesis by (auto simp: stopped_def split: if_splits)
next
  case False
  with w st show ?thesis by (simp add: co_handleWrite_def split: if_splits)
qed

lemma stopped_close: "stopped n conn s \<Longrightarrow> cl_handleClose c fd e s = Some s' \<Longrightarrow> stopped n conn s'"
  by (auto simp: cl_handleClose_def cl_removeConnection_def cl_queueInLoop_def stopped_def Let_def split: if_splits)

lemma stopped_stopInLoop: "stopped n conn s \<Longrightarrow> co_stopInLoop s = Some s' \<Longrightarrow> stopped n conn s'"
proof -
  assume s: "stopped n conn s" "co_stopInLoop s = Some s'"
  have "stopped n conn (s\<lparr>co_state := CDisconnected\<rparr>)" using s(1) by (simp add: stopped_def)
  with s show ?thesis by (auto simp: co_stopInLoop_def abort_elims dest: stopped_remove stopped_retry split: if_splits)
qed

lemma stopped_functor: "stopped n conn s \<Longrightarrow> cl_functor f fd e s = Some s' \<Longrightarrow> stopped n conn s'"
proof (cases f)
  case ResetChannel
  then show "stopped n conn s \<Longrightarrow> cl_functor f fd e s = Some s' \<Longrightarrow> stopped n conn s'"
    by (auto simp: co_resetChannel_def stopped_def split: option.splits prod.splits if_splits)
qed (auto intro: stopped_start stopped_close stopped_stopInLoop)

lemma stopped_exec:
  assumes "stopped n conn s" and "cl_exec op s = Some s'" and "\<forall>l fd e. op \<noteq> ClConnect l fd e"
  shows "stopped n conn s'"
proof -
  have ph: "stopped n conn (s\<lparr>cl_phase := ph\<rparr>)" "stopped n conn (s\<lparr>cl_phase := ph, co_timers := ts\<rparr>)" for ph ts using assms(1) by (simp_all add: stopped_def)
  show ?thesis
  proof (cases op)
    case (ClConnectorEvent x y err sc)
    with assms(2) ph show ?thesis by (auto simp: abort_elims Let_def split: client_phase.splits if_splits) (blast intro: stopped_error stopped_write)+
  next
    case (ClTimer fd e)
    with assms(2) show ?thesis by (auto split: client_phase.splits list.splits) (blast intro: stopped_start ph)
  next
    case (ClConnClose fd e)
    with assms(2) show ?thesis by (auto split: client_phase.splits option.splits) (blast intro: stopped_close ph)
  next
    case (ClRunFunctor fd e)
    with assms(2) show ?thesis by (auto split: client_phase.splits list.splits) (blast intro: stopped_functor ph)
  qed (use assms in \<open>auto simp: stopped_def cl_stop_def co_stop_def cl_queueInLoop_def cl_disconnect_def Let_def enableRetry_def split: option.splits\<close>)
qed

text \<open>Several operations, each within the contract.\<close>

definition cl_checked :: "client_op \<Rightarrow> TcpClient \<Rightarrow> TcpClient option" where
  "cl_checked op s = (if cl_allowed op s then cl_exec op s else None)"

lemma cl_checked_reach: "put_all cl_checked ops s = Some s' \<Longrightarrow> cl_reach s \<Longrightarrow> cl_reach s'"
  by (rule put_all_invariant [where I = cl_reach]) (auto simp: cl_checked_def intro: cl_step split: if_splits)

lemma stopped_run:
  assumes "stopped n conn s" and "\<forall>l fd e. ClConnect l fd e \<notin> set ops" and "put_all cl_checked ops s = Some s'"
  shows "stopped n conn s'"
proof (rule put_all_invariant [where I = "stopped n conn", OF _ assms(1,3)])
  fix op t t'
  assume op: "op \<in> set ops" "stopped n conn t" "cl_checked op t = Some t'"
  have "\<forall>l fd e. op \<noteq> ClConnect l fd e" using assms(2) op(1) by blast
  moreover have "cl_exec op t = Some t'" using op(3) by (simp add: cl_checked_def split: if_splits)
  ultimately show "stopped n conn t'" by (intro stopped_exec [OF op(2)])
qed

section \<open>Properties\<close>

text \<open>C26: however connection attempts, their failures, retries, the closing of connections, \<^verbatim>\<open>stop\<close>, \<^verbatim>\<open>disconnect\<close> and \<^verbatim>\<open>forceClose\<close> follow each other within the contract, no
  assertion of the connector, its channel or the client fails; the only socket the connector holds is that of the attempt under way,
  so none leaks; there is at most one connection and no attempt or timer beside it.\<close>

theorem client_safe:
  assumes "cl_reach s"
  shows "(cl_allowed op s \<longrightarrow> cl_exec op s \<noteq> None)
    \<and> (\<forall>fd. fd \<in> co_sockets s \<longleftrightarrow> co_state s = CConnecting \<and> co_channel s = Some (fd, True))
    \<and> dom (cl_open s) = set_option (cl_connection s)
    \<and> (cl_connection s \<noteq> None \<longrightarrow> co_state s = CConnected \<and> co_timers s = []) \<and> length (co_timers s) \<le> 1
    \<and> kInitRetryDelayMs \<le> co_retryDelayMs s \<and> co_retryDelayMs s \<le> kMaxRetryDelayMs"
proof -
  have inv: "cl_inv s" by (rule cl_reach_inv [OF assms])
  then have p: "chan_ok s" "tokens s \<le> 1" "conn_ok s" "kInitRetryDelayMs \<le> co_retryDelayMs s" "co_retryDelayMs s \<le> kMaxRetryDelayMs"
    by (simp_all add: cl_inv_def)
  have "\<forall>fd. fd \<in> co_sockets s \<longleftrightarrow> co_state s = CConnecting \<and> co_channel s = Some (fd, True)"
    using p(1) by (auto simp: chan_ok_def split: option.splits prod.splits bool.splits)
  moreover have "dom (cl_open s) = set_option (cl_connection s)" "cl_connection s \<noteq> None \<longrightarrow> co_state s = CConnected"
    using p(3) by (auto simp: conn_ok_def split: option.splits)
  moreover have "cl_connection s \<noteq> None \<longrightarrow> co_timers s = []" "length (co_timers s) \<le> 1"
    using p(2) by (auto simp: tokens_def split: if_splits)
  ultimately show ?thesis using cl_exec_ok [OF inv, of op] p(4,5) by auto
qed

text \<open>A refused attempt, the retry that succeeds, and the connection closing with retry enabled.\<close>

definition ex_run :: "client_op list" where
  "ex_run = [ClEnableRetry, ClConnect True 5 ECONNREFUSED, ClPoll False False True, ClTimer 6 EINPROGRESS, ClFunctors, ClPoll True False False,
     ClConnectorEvent False True 0 False, ClFunctors, ClRunFunctor 7 NoError, ClPoll False True False, ClConnClose 8 EINPROGRESS]"

lemmas cl_eval = cl_checked_def new_TcpClient_def enableRetry_def cl_connect_def co_start_def co_startInLoop_def co_connect_def co_connecting_def co_retry_def
  co_removeAndResetChannel_def cl_queueInLoop_def co_resetChannel_def co_handleWrite_def co_handleError_def cl_newConnection_def cl_handleClose_def
  cl_removeConnection_def co_restart_def co_stop_def cl_stop_def co_stopInLoop_def cl_disconnect_def idle_def work_def fresh_socket_def
  kMaxRetryDelayMs_def kInitRetryDelayMs_def Let_def

lemma ex_run_eval: "put_all cl_checked ex_run new_TcpClient = Some \<lparr>co_connectFlag = True, co_state = CConnecting, co_channel = Some (8, True),
    co_retryDelayMs = 500, co_timers = [], co_sockets = {8}, co_pending = [ConnectDestroyed 1], cl_retry = True, cl_connectFlag = True, cl_nextConnId = 2,
    cl_connection = None, cl_open = Map.empty, cl_shut = {}, cl_phase = Events False False False\<rparr>"
  by (simp add: ex_run_def cl_eval)

theorem client_safe_witness: "\<exists>s. put_all cl_checked ex_run new_TcpClient = Some s \<and> 8 \<in> co_sockets s \<and> 5 \<notin> co_sockets s \<and> 6 \<notin> co_sockets s"
proof -
  obtain s where s: "put_all cl_checked ex_run new_TcpClient = Some s" using ex_run_eval by blast
  have "co_state s = CConnecting" "co_channel s = Some (8, True)" using s ex_run_eval by auto
  moreover have "fd \<in> co_sockets s \<longleftrightarrow> co_state s = CConnecting \<and> co_channel s = Some (fd, True)" for fd
    using client_safe [OF cl_checked_reach [OF s cl_start]] by blast
  ultimately show ?thesis using s by simp
qed

text \<open>Consecutive failures back off: the \<open>k\<close>-th retry waits 500 milliseconds times \<open>2^k\<close>, and never more than 30 seconds.\<close>

theorem retry_backoff:
  assumes "co_state s = CDisconnected" and "co_connectFlag s" and "co_retryDelayMs s = kInitRetryDelayMs" and "co_timers s = []"
    and "e \<in> {EAGAIN, EADDRINUSE, EADDRNOTAVAIL, ECONNREFUSED, ENETUNREACH}"
  shows "\<exists>s'. put_all (\<lambda>fd. co_startInLoop fd e) fds s = Some s' \<and> co_timers s' = map (\<lambda>k. min (500 * 2 ^ k) 30000) [0..<length fds]
    \<and> co_retryDelayMs s' = min (500 * 2 ^ length fds) 30000 \<and> co_sockets s' = co_sockets s - set fds"
proof (induction fds rule: rev_induct)
  case Nil
  then show ?case using assms by (simp add: kInitRetryDelayMs_def)
next
  case (snoc fd fds)
  then obtain s' where s': "put_all (\<lambda>fd. co_startInLoop fd e) fds s = Some s'" "co_timers s' = map (\<lambda>k. min (500 * 2 ^ k) 30000) [0..<length fds]"
      "co_retryDelayMs s' = min (500 * 2 ^ length fds) 30000" "co_sockets s' = co_sockets s - set fds"
    by blast
  have "co_state s' = CDisconnected \<and> co_connectFlag s'"
    by (rule put_all_invariant [where I = "\<lambda>s. co_state s = CDisconnected \<and> co_connectFlag s", OF _ _ s'(1)])
       (use assms in \<open>auto simp: co_startInLoop_def co_connect_def co_retry_def Let_def\<close>)
  then have "co_startInLoop fd e s' = Some (s'\<lparr>co_sockets := co_sockets s' - {fd}, co_state := CDisconnected,
      co_timers := co_timers s' @ [co_retryDelayMs s'], co_retryDelayMs := min (co_retryDelayMs s' * 2) kMaxRetryDelayMs\<rparr>)"
    using assms(5) by (auto simp: co_startInLoop_def co_connect_def co_retry_def Let_def)
  moreover have "min (min (500 * 2 ^ n) 30000 * 2) kMaxRetryDelayMs = min (500 * 2 ^ Suc n) 30000" for n
    by (simp add: kMaxRetryDelayMs_def min_def)
  moreover have "co_sockets s - set fds - {fd} = co_sockets s - set (fds @ [fd])" by auto
  ultimately show ?case using s' unfolding put_all_append by simp
qed

theorem retry_backoff_witness:
  "\<exists>s'. put_all (\<lambda>fd. co_startInLoop fd ECONNREFUSED) [5, 6, 7, 5, 6, 7, 5] (new_TcpClient\<lparr>co_connectFlag := True\<rparr>) = Some s'
     \<and> co_timers s' = [500, 1000, 2000, 4000, 8000, 16000, 30000]"
  using retry_backoff [of "new_TcpClient\<lparr>co_connectFlag := True\<rparr>" ECONNREFUSED "[5, 6, 7, 5, 6, 7, 5]"]
  by (auto simp: new_TcpClient_def kInitRetryDelayMs_def upt_rec)

text \<open>C27: after \<^verbatim>\<open>stop\<close>, unless \<^verbatim>\<open>connect\<close> is called again, no new connection is ever made, whatever is under way. The call
  comes between two callbacks of the loop.\<close>

theorem stop_is_final:
  assumes "cl_reach s" and "\<forall>l fd e. ClConnect l fd e \<notin> set ops" and "put_all cl_checked ops (cl_stop s) = Some s'"
  shows "cl_nextConnId s' = cl_nextConnId s \<and> (cl_connection s' = None \<or> cl_connection s' = cl_connection s)"
proof -
  have "stopped (cl_nextConnId s) (cl_connection s) (cl_stop s)" by (simp add: stopped_def cl_stop_def co_stop_def cl_queueInLoop_def)
  from stopped_run [OF this assms(2,3)] show ?thesis by (simp add: stopped_def)
qed

theorem stop_is_final_witness:
  "\<exists>s s'. put_all cl_checked ex_run new_TcpClient = Some s
     \<and> put_all cl_checked [ClFunctors, ClRunFunctor 9 NoError, ClRunFunctor 9 NoError] (cl_stop s) = Some s' \<and> cl_nextConnId s' = 2 \<and> co_sockets s' = {}"
proof -
  obtain s where s: "put_all cl_checked ex_run new_TcpClient = Some s" using ex_run_eval by blast
  then have se: "s = \<lparr>co_connectFlag = True, co_state = CConnecting, co_channel = Some (8, True),
    co_retryDelayMs = 500, co_timers = [], co_sockets = {8}, co_pending = [ConnectDestroyed 1], cl_retry = True, cl_connectFlag = True, cl_nextConnId = 2,
    cl_connection = None, cl_open = Map.empty, cl_shut = {}, cl_phase = Events False False False\<rparr>" using ex_run_eval by simp
  let ?ops = "[ClFunctors, ClRunFunctor 9 NoError, ClRunFunctor 9 NoError]"
  obtain s' where s': "put_all cl_checked ?ops (cl_stop s) = Some s'" "co_sockets s' = {}" by (simp add: se cl_eval)
  from stop_is_final [OF cl_checked_reach [OF s cl_start] _ s'(1)] have "cl_nextConnId s' = cl_nextConnId s" by simp
  then have "cl_nextConnId s' = 2" by (simp add: se)
  with s s' show ?thesis by blast
qed

text \<open>A \<^verbatim>\<open>stop\<close> of another thread that comes after \<^verbatim>\<open>removeConnection\<close> has read \<^verbatim>\<open>connect_\<close> and before it calls \<^verbatim>\<open>restart\<close> is undone: \<^verbatim>\<open>restart\<close> sets the flag of the connector again, and \<^verbatim>\<open>stopInLoop\<close>, which
  ends the attempt, arms the timer of the next one.\<close>

lemma stop_race:
  assumes "co_channel s = None"
  shows "\<exists>s' s''. co_restart sockfd EINPROGRESS (cl_stop s) = Some s' \<and> StopInLoop \<in> set (co_pending s') \<and> co_stopInLoop s' = Some s''
    \<and> co_state s'' = CDisconnected \<and> co_connectFlag s'' \<and> co_timers s'' = co_timers s @ [kInitRetryDelayMs]"
  using assms by (simp add: cl_stop_def co_stop_def co_restart_def co_startInLoop_def co_connect_def co_connecting_def co_stopInLoop_def co_removeAndResetChannel_def co_retry_def cl_queueInLoop_def Let_def)

text \<open>\<^verbatim>\<open>connect\<close> cannot be used again: after the connection was closed without a retry the connector still believes to be connected and its assertion
  fails; and if \<^verbatim>\<open>stop\<close> and \<^verbatim>\<open>connect\<close> are called while a retry is waiting, the old timer, which is not cancelled, fires into the new attempt
  and fails the same assertion.\<close>

theorem connect_again_aborts:
  assumes "cl_reach s"
  shows "(cl_exec (ClConnClose fd e) s = Some s' \<and> \<not> (cl_retry s \<and> cl_connectFlag s) \<longrightarrow> cl_connect True fd' e' s' = None)
    \<and> (co_timers s \<noteq> [] \<and> cl_connect True fd EINPROGRESS (cl_stop s) = Some s'' \<longrightarrow> co_timers s'' \<noteq> [] \<and> co_startInLoop fd' e' s'' = None)"
proof -
  have inv: "cl_inv s" by (rule cl_reach_inv [OF assms])
  have "cl_connect True fd' e' s' = None" if c: "cl_exec (ClConnClose fd e) s = Some s'" "\<not> (cl_retry s \<and> cl_connectFlag s)"
  proof -
    from c(1) obtain a b d conn where ph: "cl_phase s = Events a b d" "cl_connection s = Some conn"
        "cl_handleClose conn fd e (s\<lparr>cl_phase := Events a False d\<rparr>) = Some s'"
      by (auto split: client_phase.splits option.splits)
    have "conn_ok s" using inv by (simp add: cl_inv_def)
    with ph(2) have o: "co_state s = CConnected" "conn \<in> dom (cl_open s)" by (simp_all add: conn_ok_def)
    with ph c(2) have "co_state s' = CConnected"
      by (auto simp: cl_handleClose_def cl_removeConnection_def cl_queueInLoop_def Let_def split: if_splits)
    then show ?thesis by (simp add: cl_connect_def co_start_def co_startInLoop_def Let_def)
  qed
  moreover have "co_timers s'' \<noteq> [] \<and> co_startInLoop fd' e' s'' = None" if "co_timers s \<noteq> []" "cl_connect True fd EINPROGRESS (cl_stop s) = Some s''"
    using that by (auto simp: cl_connect_def co_start_def co_startInLoop_def co_connect_def co_connecting_def cl_stop_def co_stop_def cl_queueInLoop_def Let_def
        split: if_splits)
  ultimately show ?thesis by blast
qed

theorem connect_again_aborts_witness:
  "\<exists>s s''. put_all cl_checked [ClConnect True 5 ECONNREFUSED] new_TcpClient = Some s \<and> cl_connect True 6 EINPROGRESS (cl_stop s) = Some s''
     \<and> co_timers s'' \<noteq> [] \<and> co_startInLoop 7 EINPROGRESS s'' = None"
proof -
  obtain s where s: "put_all cl_checked [ClConnect True 5 ECONNREFUSED] new_TcpClient = Some s" by (simp add: cl_eval)
  then obtain s'' where s'': "co_timers s \<noteq> []" "cl_connect True 6 EINPROGRESS (cl_stop s) = Some s''" by (auto simp: cl_eval)
  from connect_again_aborts [OF cl_checked_reach [OF s cl_start]] s s'' show ?thesis by blast
qed

end
