(* ===== verification/Codec.thy ===== *)
theory Codec
  imports Buffer
begin

text \<open>
  \<^verbatim>\<open>muduo/net/protobuf/ProtobufCodecLite.h\<close> and \<^verbatim>\<open>muduo/net/protobuf/ProtobufCodecLite.cc\<close>: messages framed by their length, a tag and a checksum. What the
  protocol buffer library does (\<open>cd_serialize\<close>, \<open>cd_parseFrom\<close>) and \<^verbatim>\<open>adler32\<close> of zlib are fields of the codec, as are the user's callbacks,
  which act on a state of any type; the error callback is given the buffer and may change it. \<open>le\<close> tells the byte order of the host.
\<close>

section \<open>Codec\<close>

datatype ErrorCode = kNoError | kInvalidLength | kCheckSumError | kInvalidNameLen | kUnknownMessageType | kParseError

record ('m, 's) codec =
  cd_tag :: string
  cd_serialize :: "'m \<Rightarrow> string"
  cd_parseFrom :: "string \<Rightarrow> 'm option"
  cd_adler32 :: "string \<Rightarrow> 32 word"
  cd_messageCallback :: "'m \<Rightarrow> 's \<Rightarrow> 's option"
  cd_rawCb :: "(string \<Rightarrow> 's \<Rightarrow> (bool \<times> 's) option) option"
  cd_errorCallback :: "ErrorCode \<Rightarrow> Buffer \<Rightarrow> 's \<Rightarrow> (Buffer \<times> 's) option"

definition kHeaderLen :: nat where "kHeaderLen = 4"

definition kChecksumLen :: nat where "kChecksumLen = 4"

definition kMaxMessageLen :: nat where "kMaxMessageLen = 64 * 1024 * 1024"

definition kMinMessageLen :: "('m, 's) codec \<Rightarrow> nat" where
  "kMinMessageLen c = length (cd_tag c) + kChecksumLen"

fun errorCodeToString :: "ErrorCode \<Rightarrow> string" where
  "errorCodeToString kNoError = ''NoError''"
| "errorCodeToString kInvalidLength = ''InvalidLength''"
| "errorCodeToString kCheckSumError = ''CheckSumError''"
| "errorCodeToString kInvalidNameLen = ''InvalidNameLen''"
| "errorCodeToString kUnknownMessageType = ''UnknownMessageType''"
| "errorCodeToString kParseError = ''ParseError''"

section \<open>Sending\<close>

definition serializeToBuffer :: "('m, 's) codec \<Rightarrow> 'm \<Rightarrow> Buffer \<Rightarrow> (nat \<times> Buffer) option" where
  "serializeToBuffer c message buf = do {
     let bytes = cd_serialize c message;
     let byte_size = length bytes;
     buf \<leftarrow> ensureWritableBytes (byte_size + kChecksumLen) buf;
     let buf = buf\<lparr>buffer := blit (beginWrite buf) bytes (buffer buf)\<rparr>;
     buf \<leftarrow> hasWritten byte_size buf;
     Some (byte_size, buf)
   }"

definition checksum :: "('m, 's) codec \<Rightarrow> string \<Rightarrow> 32 word" where
  "checksum c s = cd_adler32 c s"

definition fillEmptyBuffer :: "bool \<Rightarrow> ('m, 's) codec \<Rightarrow> 'm \<Rightarrow> Buffer \<Rightarrow> Buffer option" where
  "fillEmptyBuffer le c message buf = do {
     assert_that (readableBytes buf = 0);
     buf \<leftarrow> Buffer_append (cd_tag c) buf;
     (byte_size, buf) \<leftarrow> serializeToBuffer c message buf;
     let checkSum = checksum c (subrange (peek buf) (readableBytes buf) (buffer buf));
     buf \<leftarrow> appendInt32 le checkSum buf;
     assert_that (readableBytes buf = length (cd_tag c) + byte_size + kChecksumLen);
     prepend (host_bytes le (hostToNetwork32 le (of_nat (readableBytes buf)))) buf
   }"

section \<open>Receiving\<close>

definition asInt32 :: "bool \<Rightarrow> string \<Rightarrow> 32 word" where
  "asInt32 le s = networkToHost32 le (host_val le (take 4 s))"

definition validateChecksum :: "bool \<Rightarrow> ('m, 's) codec \<Rightarrow> string \<Rightarrow> bool" where
  "validateChecksum le c buf =
     (let len = length buf;
          expectedCheckSum = asInt32 le (drop (len - kChecksumLen) buf);
          checkSum = checksum c (take (len - kChecksumLen) buf)
      in checkSum = expectedCheckSum)"

text \<open>The message or the error.\<close>

definition codec_parse :: "bool \<Rightarrow> ('m, 's) codec \<Rightarrow> string \<Rightarrow> ErrorCode + 'm" where
  "codec_parse le c buf =
     (if validateChecksum le c buf
      then if take (length (cd_tag c)) buf = cd_tag c
           then case cd_parseFrom c (subrange (length (cd_tag c)) (length buf - kChecksumLen - length (cd_tag c)) buf) of
                  Some message \<Rightarrow> Inr message
                | None \<Rightarrow> Inl kParseError
           else Inl kUnknownMessageType
      else Inl kCheckSumError)"

function codec_onMessage :: "bool \<Rightarrow> ('m, 's) codec \<Rightarrow> Buffer \<Rightarrow> 's \<Rightarrow> (Buffer \<times> 's) option" where
  "codec_onMessage le c buf s =
     (if readableBytes buf \<ge> kMinMessageLen c + kHeaderLen then do {
        w \<leftarrow> peekInt32 le buf;
        let len = sint w;
        if len > int kMaxMessageLen \<or> len < int (kMinMessageLen c)
        then cd_errorCallback c kInvalidLength buf s
        else if readableBytes buf \<ge> kHeaderLen + nat len then do {
          (go, s) \<leftarrow> (case cd_rawCb c of None \<Rightarrow> Some (True, s) | Some cb \<Rightarrow> cb (subrange (peek buf) (kHeaderLen + nat len) (buffer buf)) s);
          if \<not> go then Option.bind (retrieve (kHeaderLen + nat len) buf) (\<lambda>buf. codec_onMessage le c buf s)
          else case codec_parse le c (subrange (peek buf + kHeaderLen) (nat len) (buffer buf)) of
                 Inr message \<Rightarrow> do { s \<leftarrow> cd_messageCallback c message s; buf \<leftarrow> retrieve (kHeaderLen + nat len) buf; codec_onMessage le c buf s }
               | Inl errorCode \<Rightarrow> cd_errorCallback c errorCode buf s
        }
        else Some (buf, s)
      }
      else Some (buf, s))"
  by pat_completeness auto
termination
  by (relation "measure (\<lambda>(le, c, buf, s). readableBytes buf)") (auto simp: kHeaderLen_def dest!: retrieve_less)

declare codec_onMessage.simps [simp del]

section \<open>Frames\<close>

definition codec_body :: "('m, 's) codec \<Rightarrow> 'm \<Rightarrow> string" where
  "codec_body c m = cd_tag c @ cd_serialize c m @ be_bytes (cd_adler32 c (cd_tag c @ cd_serialize c m))"

definition codec_frame :: "('m, 's) codec \<Rightarrow> 'm \<Rightarrow> string" where
  "codec_frame c m = be_bytes (of_nat (length (codec_body c m)) :: 32 word) @ codec_body c m"

lemma serializeToBuffer_ok:
  assumes "buf_ok b" and "room b (length (cd_serialize c m) + 4)" and "kCheapPrepend \<le> readerIndex b"
  shows "\<exists>b'. serializeToBuffer c m b = Some (length (cd_serialize c m), b') \<and> buf_ok b' \<and> content b' = content b @ cd_serialize c m \<and> room b' 4
    \<and> kCheapPrepend \<le> readerIndex b'"
proof -
  let ?n = "length (cd_serialize c m)"
  from ensureWritableBytes_ok [OF assms(1,2)] obtain d where d: "ensureWritableBytes (?n + 4) b = Some d" "buf_ok d" "content d = content b"
      "?n + 4 \<le> writableBytes d" "writerIndex d \<le> writerIndex b"
    by blast
  let ?b = "d\<lparr>buffer := blit (writerIndex d) (cd_serialize c m) (buffer d), writerIndex := writerIndex d + ?n\<rparr>"
  have "writerIndex d + ?n \<le> length (buffer d)" using d(2,4) by (auto simp: buf_ok_def writableBytes_def)
  then have "serializeToBuffer c m b = Some (?n, ?b)"
    using d(1) by (simp add: serializeToBuffer_def kChecksumLen_def hasWritten_def beginWrite_def writableBytes_def Let_def)
  moreover have "buf_ok ?b \<and> content ?b = content b @ cd_serialize c m" using append_in_place [OF d(2), of "cd_serialize c m"] d(3,4) by simp
  moreover have "room ?b 4" using assms(2) d(5) by (auto simp: room_def)
  moreover have "kCheapPrepend \<le> readerIndex ?b" using ensureWritableBytes_reader [OF d(1) assms(3)] by simp
  ultimately show ?thesis by blast
qed

lemma fillEmptyBuffer_ok:
  assumes b: "buf_ok b" "content b = []" "kCheapPrepend \<le> readerIndex b" and room: "room b (length (codec_body c m))"
  shows "\<exists>b'. fillEmptyBuffer le c m b = Some b' \<and> buf_ok b' \<and> content b' = codec_frame c m"
proof -
  let ?t = "cd_tag c" and ?s = "cd_serialize c m"
  have e: "readableBytes b = 0" using b by (metis length_content list.size(3))
  have len: "length (codec_body c m) = length ?t + (length ?s + 4)" by (simp add: codec_body_def)
  have "room b (length ?t)" using room by (rule room_mono_buf) (simp add: len)
  from Buffer_append_ok [OF b(1) this] obtain b1 where b1: "Buffer_append ?t b = Some b1" "buf_ok b1" "content b1 = ?t" "room b1 (length ?s + 4)"
    using room b(2) len by auto
  have r1: "kCheapPrepend \<le> readerIndex b1" by (rule Buffer_append_reader [OF b1(1) b(3)])
  from serializeToBuffer_ok [OF b1(2,4) r1] obtain b2 where b2: "serializeToBuffer c m b1 = Some (length ?s, b2)" "buf_ok b2"
      "content b2 = ?t @ ?s" "room b2 4" "kCheapPrepend \<le> readerIndex b2"
    using b1(3) by auto
  let ?sum = "be_bytes (cd_adler32 c (?t @ ?s))"
  have "room b2 (length ?sum)" using b2(4) by simp
  from Buffer_append_ok [OF b2(2) this] obtain b3 where b3: "Buffer_append ?sum b2 = Some b3" "buf_ok b3" "content b3 = codec_body c m"
    using b2(3) by (auto simp: codec_body_def)
  have r3: "kCheapPrepend \<le> readerIndex b3" by (rule Buffer_append_reader [OF b3(1) b2(5)])
  have n: "readableBytes b3 = length (codec_body c m)" using b3(2,3) by (metis length_content)
  have "length (be_bytes (of_nat (length (codec_body c m)) :: 32 word)) \<le> prependableBytes b3" using r3 by (simp add: buf_defs)
  from prepend_ok [OF b3(2) this] obtain b4 where b4: "prepend (be_bytes (of_nat (length (codec_body c m)) :: 32 word)) b3 = Some b4" "buf_ok b4"
      "content b4 = codec_frame c m"
    by (auto simp: codec_frame_def b3(3))
  have sub: "subrange (peek b2) (readableBytes b2) (buffer b2) = ?t @ ?s"
    using b2(3) by (simp add: content_def peek_def readableBytes_def)
  have "fillEmptyBuffer le c m b = Some b4"
    unfolding fillEmptyBuffer_def
    using e b1(1) b2(1) b3(1) b4(1) n len sub by (simp add: append_int_wire checksum_def kChecksumLen_def Let_def endian_defs del: if_split)
  with b4 show ?thesis by blast
qed

section \<open>Reading frames\<close>

definition sendable :: "('m, 's) codec \<Rightarrow> 'm \<Rightarrow> bool" where
  "sendable c m \<longleftrightarrow> length (codec_body c m) \<le> kMaxMessageLen"

lemma sint_small: "n \<le> kMaxMessageLen \<Longrightarrow> sint (of_nat n :: 32 word) = int n"
  by (simp add: kMaxMessageLen_def signed_of_nat signed_take_bit_int_eq_self)

lemma asInt32_wire [simp]: "asInt32 le (be_bytes x) = x"
  by (simp add: asInt32_def endian_defs del: if_split)

lemma header_inj:
  assumes "be_bytes (of_nat n :: 32 word) = be_bytes (of_nat k :: 32 word)" and "n \<le> kMaxMessageLen" and "k \<le> kMaxMessageLen"
  shows "n = k"
proof -
  have "asInt32 True (be_bytes (of_nat n :: 32 word)) = asInt32 True (be_bytes (of_nat k :: 32 word))" by (simp only: assms(1))
  then have "(of_nat n :: 32 word) = of_nat k" by (simp only: asInt32_wire)
  then have "sint (of_nat n :: 32 word) = sint (of_nat k :: 32 word)" by (rule arg_cong)
  then show ?thesis unfolding sint_small [OF assms(2)] sint_small [OF assms(3)] by (simp only: of_nat_eq_iff)
qed

lemma parse_body:
  assumes "cd_parseFrom c (cd_serialize c m) = Some m"
  shows "codec_parse le c (codec_body c m) = Inr m"
proof -
  let ?t = "cd_tag c" and ?s = "cd_serialize c m"
  have "validateChecksum le c (codec_body c m)"
    by (simp add: validateChecksum_def codec_body_def checksum_def kChecksumLen_def Let_def)
  moreover have "subrange (length ?t) (length (codec_body c m) - kChecksumLen - length ?t) (codec_body c m) = ?s"
    by (simp add: subrange_def codec_body_def kChecksumLen_def)
  ultimately show ?thesis using assms by (simp add: codec_parse_def) (simp add: codec_body_def)
qed

lemma peek_word:
  assumes "buf_ok b" and "content b = be_bytes (w :: 32 word) @ rest"
  shows "peekInt32 le b = Some w"
proof -
  from content_prefix [OF assms, of 4] have "4 \<le> readableBytes b" "subrange (peek b) 4 (buffer b) = be_bytes w" by simp_all
  then show ?thesis by (simp add: peekInt32_def endian_defs del: if_split)
qed

lemmas peek_header = peek_word [where w = "of_nat n" for n]

lemma peek_body:
  assumes "buf_ok b" and "content b = be_bytes (w :: 32 word) @ data @ rest"
  shows "subrange (peek b + kHeaderLen) (length data) (buffer b) = data" and "kHeaderLen + length data \<le> readableBytes b"
proof -
  from content_prefix [OF assms(1), of "be_bytes w @ data" rest "4 + length data"] assms(2)
  have p: "4 + length data \<le> readableBytes b" "subrange (peek b) (4 + length data) (buffer b) = be_bytes w @ data" by simp_all
  show "kHeaderLen + length data \<le> readableBytes b" using p(1) by (simp add: kHeaderLen_def)
  have "drop 4 (subrange (peek b) (4 + length data) (buffer b)) = data" unfolding p(2) by simp
  then show "subrange (peek b + kHeaderLen) (length data) (buffer b) = data" by (simp add: drop_subrange kHeaderLen_def)
qed

lemma onMessage_frame:
  assumes b: "buf_ok b" "content b = codec_frame c m @ rest" and c: "cd_rawCb c = None" "cd_parseFrom c (cd_serialize c m) = Some m" "sendable c m"
  shows "\<exists>b'. buf_ok b' \<and> content b' = rest \<and> (\<forall>k. room b k \<longrightarrow> room b' k)
    \<and> codec_onMessage le c b s = Option.bind (cd_messageCallback c m s) (codec_onMessage le c b')"
proof -
  let ?body = "codec_body c m"
  let ?n = "length ?body"
  have f: "content b = be_bytes (of_nat ?n :: 32 word) @ ?body @ rest" using b(2) by (simp add: codec_frame_def)
  have n: "sint (of_nat ?n :: 32 word) = int ?n" "?n \<le> kMaxMessageLen" "kMinMessageLen c \<le> ?n"
    using c(3) sint_small by (simp_all add: sendable_def) (simp add: codec_body_def kMinMessageLen_def kChecksumLen_def)
  note pb = peek_body [OF b(1) f]
  have min: "kMinMessageLen c + kHeaderLen \<le> readableBytes b" using pb(2) n(3) by simp
  from retrieve_ok [OF b(1) pb(2)] obtain b' where b': "retrieve (kHeaderLen + ?n) b = Some b'" "buf_ok b'"
      "content b' = drop (kHeaderLen + ?n) (content b)" "\<forall>k. room b k \<longrightarrow> room b' k"
    by blast
  have "content b' = rest" unfolding b'(3) f by (simp add: kHeaderLen_def)
  moreover have "codec_onMessage le c b s = Option.bind (cd_messageCallback c m s) (codec_onMessage le c b')"
    using min n pb c(1) b'(1) parse_body [OF c(2), of le] by (subst codec_onMessage.simps) (simp add: peek_header [OF b(1) f])
  ultimately show ?thesis using b' by blast
qed

text \<open>The bytes that do not make a whole frame.\<close>

definition codec_waits :: "('m, 's) codec \<Rightarrow> string \<Rightarrow> bool" where
  "codec_waits c r \<longleftrightarrow> length r < kMinMessageLen c + kHeaderLen
     \<or> (\<exists>n rest. r = be_bytes (of_nat n :: 32 word) @ rest \<and> kMinMessageLen c \<le> n \<and> n \<le> kMaxMessageLen \<and> length rest < n)"

lemma onMessage_waits:
  assumes b: "buf_ok b" and w: "codec_waits c (content b)"
  shows "codec_onMessage le c b s = Some (b, s)"
proof (cases "readableBytes b < kMinMessageLen c + kHeaderLen")
  case True
  then show ?thesis by (subst codec_onMessage.simps) simp
next
  case False
  then have "\<not> length (content b) < kMinMessageLen c + kHeaderLen" using b by simp
  with w obtain n rest where n: "content b = be_bytes (of_nat n :: 32 word) @ rest" "kMinMessageLen c \<le> n" "n \<le> kMaxMessageLen" "length rest < n"
    by (auto simp: codec_waits_def)
  have "readableBytes b = 4 + length rest" using length_content [OF b] n(1) by simp
  with n False show ?thesis
    by (subst codec_onMessage.simps) (simp add: peek_header [OF b n(1)] sint_small [OF n(3)] kHeaderLen_def)
qed

lemma prefix_waits:
  assumes "codec_frame c m = r @ z" and "z \<noteq> []" and "sendable c m"
  shows "codec_waits c r"
proof (cases "length r < kMinMessageLen c + kHeaderLen")
  case True
  then show ?thesis by (simp add: codec_waits_def)
next
  case False
  let ?n = "length (codec_body c m)"
  have len: "length (codec_frame c m) = 4 + ?n" by (simp add: codec_frame_def)
  have "take 4 r = take 4 (codec_frame c m)" unfolding assms(1) using False by (simp add: kHeaderLen_def)
  also have "\<dots> = be_bytes (of_nat ?n :: 32 word)" by (simp add: codec_frame_def)
  finally have "r = be_bytes (of_nat ?n :: 32 word) @ drop 4 r" by (metis append_take_drop_id)
  moreover have "length r + length z = 4 + ?n" "4 \<le> length r" using arg_cong [OF assms(1), of length] False len by (simp_all add: kHeaderLen_def)
  then have "length (drop 4 r) < ?n" using assms(2) by (cases z) auto
  moreover have "kMinMessageLen c \<le> ?n" by (simp add: codec_body_def kMinMessageLen_def kChecksumLen_def)
  ultimately show ?thesis using assms(3) unfolding codec_waits_def sendable_def by blast
qed

lemma frame_complete: "sendable c m \<Longrightarrow> \<not> codec_waits c (codec_frame c m @ rest)"
proof
  assume m: "sendable c m" and w: "codec_waits c (codec_frame c m @ rest)"
  let ?n = "length (codec_body c m)"
  have "kMinMessageLen c \<le> ?n" by (simp add: codec_body_def kMinMessageLen_def kChecksumLen_def)
  then have "\<not> length (codec_frame c m @ rest) < kMinMessageLen c + kHeaderLen" by (simp add: codec_frame_def kHeaderLen_def)
  with w obtain n rest' where n: "codec_frame c m @ rest = be_bytes (of_nat n :: 32 word) @ rest'" "n \<le> kMaxMessageLen" "length rest' < n"
    unfolding codec_waits_def by blast
  from n(1) have "be_bytes (of_nat ?n :: 32 word) @ codec_body c m @ rest = be_bytes (of_nat n :: 32 word) @ rest'"
    unfolding codec_frame_def append_assoc .
  moreover have "length (be_bytes (of_nat ?n :: 32 word)) = length (be_bytes (of_nat n :: 32 word))" unfolding length_be_bytes by (rule refl)
  ultimately have h: "be_bytes (of_nat ?n :: 32 word) = be_bytes (of_nat n :: 32 word)" and r: "codec_body c m @ rest = rest'"
    using append_eq_append_conv by blast+
  have "?n = n" using header_inj [OF h _ n(2)] m unfolding sendable_def by blast
  then show False using n(3) r by auto
qed

lemma waits_Nil [simp]: "codec_waits c []"
  by (simp add: codec_waits_def kHeaderLen_def)

lemma onMessage_frames:
  assumes "buf_ok b" and "content b = concat (map (codec_frame c) msgs) @ r" and "codec_waits c r" and "cd_rawCb c = None"
    and "\<And>m. m \<in> set msgs \<Longrightarrow> cd_parseFrom c (cd_serialize c m) = Some m \<and> sendable c m"
  shows "\<exists>b'. buf_ok b' \<and> content b' = r \<and> (\<forall>k. room b k \<longrightarrow> room b' k)
    \<and> codec_onMessage le c b s = map_option (Pair b') (put_all (cd_messageCallback c) msgs s)"
  using assms
proof (induction msgs arbitrary: b s)
  case Nil
  with onMessage_waits [of b c le s] show ?case by auto
next
  case (Cons m msgs)
  from Cons.prems(2) have f: "content b = codec_frame c m @ concat (map (codec_frame c) msgs) @ r" by simp
  have m: "cd_parseFrom c (cd_serialize c m) = Some m" "sendable c m" using Cons.prems(5) [of m] by simp_all
  from onMessage_frame [OF Cons.prems(1) f Cons.prems(4) m] obtain b1 where b1: "buf_ok b1" "content b1 = concat (map (codec_frame c) msgs) @ r"
      "\<forall>k. room b k \<longrightarrow> room b1 k" "codec_onMessage le c b s = Option.bind (cd_messageCallback c m s) (codec_onMessage le c b1)"
    by blast
  show ?case
  proof (cases "cd_messageCallback c m s")
    case None
    from Cons.IH [OF b1(1,2) Cons.prems(3,4), of s] Cons.prems(5) obtain b' where "buf_ok b'" "content b' = r" "\<forall>k. room b1 k \<longrightarrow> room b' k"
      by (meson list.set_intros(2))
    with None b1 show ?thesis by auto
  next
    case (Some s1)
    from Cons.IH [OF b1(1,2) Cons.prems(3,4), of s1] Cons.prems(5) obtain b' where "buf_ok b'" "content b' = r" "\<forall>k. room b1 k \<longrightarrow> room b' k"
        "codec_onMessage le c b1 s1 = map_option (Pair b') (put_all (cd_messageCallback c) msgs s1)"
      by (meson list.set_intros(2))
    with Some b1 show ?thesis by (intro exI [of _ b']) simp
  qed
qed

text \<open>The whole frames at the front of the stream.\<close>

lemma split_frames:
  assumes "t @ u = concat (map f msgs)"
  shows "\<exists>whole others r. msgs = whole @ others \<and> t = concat (map f whole) @ r \<and> r @ u = concat (map f others)
    \<and> (r = [] \<or> (\<exists>m ms z. others = m # ms \<and> f m = r @ z \<and> z \<noteq> []))"
  using assms
proof (induction msgs arbitrary: t)
  case Nil
  then show ?case by simp
next
  case (Cons m msgs)
  let ?X = "concat (map f msgs)"
  have e: "t @ u = f m @ ?X" using Cons.prems by simp
  then obtain us where us: "t = f m @ us \<and> us @ u = ?X \<or> t @ us = f m \<and> u = us @ ?X" unfolding append_eq_append_conv2 by blast
  show ?case
  proof (cases "\<exists>us. t = f m @ us \<and> us @ u = ?X")
    case True
    then obtain us where t: "t = f m @ us" "us @ u = ?X" by blast
    from Cons.IH [OF t(2)] obtain whole others r where "msgs = whole @ others" "us = concat (map f whole) @ r"
        "r @ u = concat (map f others)" "r = [] \<or> (\<exists>m ms z. others = m # ms \<and> f m = r @ z \<and> z \<noteq> [])"
      by blast
    then show ?thesis using t(1) by (intro exI [of _ "m # whole"] exI [of _ others] exI [of _ r]) auto
  next
    case False
    with us have "t @ us = f m" "u = us @ ?X" by blast+
    moreover have "us \<noteq> []" using False calculation by auto
    ultimately show ?thesis by (intro exI [of _ "[]"] exI [of _ "m # msgs"] exI [of _ t]) auto
  qed
qed

text \<open>What a connection does with the bytes that arrive: they are appended to its input buffer and the codec is called.\<close>

definition codec_receive :: "bool \<Rightarrow> ('m, 's) codec \<Rightarrow> string \<Rightarrow> Buffer \<times> 's \<Rightarrow> (Buffer \<times> 's) option" where
  "codec_receive le c bytes bs = do { b \<leftarrow> Buffer_append bytes (fst bs); codec_onMessage le c b (snd bs) }"

lemma receive_frames:
  assumes "cd_rawCb c = None" and "\<And>m. m \<in> set msgs \<Longrightarrow> cd_parseFrom c (cd_serialize c m) = Some m \<and> sendable c m"
    and "buf_ok b" and "room b (length (concat chunks))" and "content b @ concat chunks = concat (map (codec_frame c) msgs)" and "codec_waits c (content b)"
  shows "\<exists>b'. buf_ok b' \<and> content b' = []
    \<and> put_all (codec_receive le c) chunks (b, s) = map_option (Pair b') (put_all (cd_messageCallback c) msgs s)"
  using assms(2-)
proof (induction chunks arbitrary: b msgs s)
  case Nil
  have "msgs = []"
  proof (rule ccontr)
    assume "msgs \<noteq> []"
    then obtain m ms where m: "msgs = m # ms" by (cases msgs) auto
    with Nil.prems(4) have "content b = codec_frame c m @ concat (map (codec_frame c) ms)" by simp
    with frame_complete [of c m "concat (map (codec_frame c) ms)"] Nil.prems(5) Nil.prems(1) [of m] m show False by simp
  qed
  with Nil show ?case by auto
next
  case (Cons x chunks)
  have "room b (length x)" using Cons.prems(3) by (rule room_mono_buf) simp
  from Buffer_append_ok [OF Cons.prems(2) this] obtain b1 where b1: "Buffer_append x b = Some b1" "buf_ok b1" "content b1 = content b @ x"
      "room b1 (length (concat chunks))"
    using Cons.prems(3) by auto
  have "content b1 @ concat chunks = concat (map (codec_frame c) msgs)" using Cons.prems(4) b1(3) by simp
  from split_frames [OF this] obtain whole others r where w: "msgs = whole @ others" "content b1 = concat (map (codec_frame c) whole) @ r"
      "r @ concat chunks = concat (map (codec_frame c) others)" "r = [] \<or> (\<exists>m ms z. others = m # ms \<and> codec_frame c m = r @ z \<and> z \<noteq> [])"
    by blast
  have r: "codec_waits c r" using w(4) Cons.prems(1) w(1) by (auto intro: prefix_waits)
  from onMessage_frames [OF b1(2) w(2) r assms(1), of le s] Cons.prems(1) w(1) obtain b2 where b2: "buf_ok b2" "content b2 = r" "\<forall>k. room b1 k \<longrightarrow> room b2 k"
      "codec_onMessage le c b1 s = map_option (Pair b2) (put_all (cd_messageCallback c) whole s)"
    by auto
  have others: "\<And>m. m \<in> set others \<Longrightarrow> cd_parseFrom c (cd_serialize c m) = Some m \<and> sendable c m" using Cons.prems(1) w(1) by simp
  have ih: "\<exists>b'. buf_ok b' \<and> content b' = [] \<and> put_all (codec_receive le c) chunks (b2, s1) = map_option (Pair b') (put_all (cd_messageCallback c) others s1)" for s1
    using Cons.IH [OF others b2(1), where s = s1] b1(4) b2(2,3) w(3) r by simp
  have rc: "codec_receive le c x (b, s) = map_option (Pair b2) (put_all (cd_messageCallback c) whole s)"
    using b1(1) b2(4) by (simp add: codec_receive_def)
  show ?case
  proof (cases "put_all (cd_messageCallback c) whole s")
    case None
    with rc w(1) ih [of s] show ?thesis by (auto simp: put_all_append)
  next
    case (Some s1)
    with rc w(1) ih [of s1] show ?thesis by (auto simp: put_all_append)
  qed
qed

section \<open>Properties\<close>

text \<open>The bytes that \<^verbatim>\<open>send\<close> hands to the connection.\<close>

definition codec_send :: "bool \<Rightarrow> ('m, 's) codec \<Rightarrow> 'm \<Rightarrow> string option" where
  "codec_send le c message = do { buf \<leftarrow> new_Buffer kInitialSize; buf \<leftarrow> fillEmptyBuffer le c message buf; Some (content buf) }"

lemma codec_send_ok:
  assumes "sendable c m"
  shows "codec_send le c m = Some (codec_frame c m)"
proof -
  from new_Buffer_ok [of kInitialSize] obtain b where b: "new_Buffer kInitialSize = Some b" "buf_ok b" "content b = []" "writerIndex b = kCheapPrepend"
    by (auto simp: kCheapPrepend_def kInitialSize_def vec_max_def)
  have r: "kCheapPrepend \<le> readerIndex b" using b(1) by (auto simp: new_Buffer_def Let_def split: if_splits)
  have "room b (length (codec_body c m))" using assms b(4) by (simp add: room_def sendable_def kCheapPrepend_def kMaxMessageLen_def vec_max_def)
  from fillEmptyBuffer_ok [OF b(2,3) r this, of le] b(1) show ?thesis by (auto simp: codec_send_def)
qed

text \<open>C28: messages survive the wire: whatever the byte orders of the two hosts and however the kernel cuts the stream into pieces, the receiving codec calls
  the message callback exactly with the messages sent, in order, each as soon as it is complete, and consumes every byte. The library must parse back what it
  serializes, and no message may exceed the limit of 64 megabytes.\<close>

theorem codec_roundtrip:
  assumes "cd_rawCb c = None" and "\<forall>m \<in> set msgs. cd_parseFrom c (cd_serialize c m) = Some m"
    and "\<forall>m \<in> set msgs. length (cd_tag c) + length (cd_serialize c m) + 4 \<le> kMaxMessageLen"
    and "those (map (codec_send le c) msgs) = Some frames" and "concat chunks = concat frames"
    and "buf_ok b" and "content b = []" and "room b (length (concat chunks))"
  shows "\<exists>b'. put_all (codec_receive le' c) chunks (b, s) = map_option (Pair b') (put_all (cd_messageCallback c) msgs s) \<and> buf_ok b' \<and> content b' = []"
proof -
  have ok: "\<And>m. m \<in> set msgs \<Longrightarrow> cd_parseFrom c (cd_serialize c m) = Some m \<and> sendable c m"
    using assms(2,3) by (auto simp: sendable_def codec_body_def)
  have "those (map (codec_send le c) ms) = Some (map (codec_frame c) ms)" if "set ms \<subseteq> set msgs" for ms
    using that ok codec_send_ok [of c _ le] by (induction ms) auto
  with assms(4) have "frames = map (codec_frame c) msgs" by simp
  with receive_frames [OF assms(1) ok assms(6,8), where le = le' and s = s] assms(5,7) show ?thesis by auto
qed

text \<open>Four bytes are a number in network byte order.\<close>

lemma four_bytes: "length xs = 4 \<Longrightarrow> xs = be_bytes (of_nat (le_val (rev xs)) :: 32 word)"
  using unat_of_le_val [where 'a = 32 and n = 4, of "rev xs"] by (simp add: be_bytes_def del: le_bytes_numeral)

lemma checksum_iff:
  assumes "4 \<le> length data"
  shows "validateChecksum le c data \<longleftrightarrow> drop (length data - 4) data = be_bytes (cd_adler32 c (take (length data - 4) data))"
proof -
  obtain x :: "32 word" where x: "drop (length data - 4) data = be_bytes x" using four_bytes [of "drop (length data - 4) data"] assms by auto
  have "validateChecksum le c data \<longleftrightarrow> cd_adler32 c (take (length data - 4) data) = x"
    unfolding validateChecksum_def Let_def checksum_def kChecksumLen_def x by (simp only: asInt32_wire)
  also have "\<dots> \<longleftrightarrow> be_bytes x = be_bytes (cd_adler32 c (take (length data - 4) data))"
    by (metis asInt32_wire)
  finally show ?thesis unfolding x .
qed

lemma onMessage_error:
  assumes b: "buf_ok b" "content b = be_bytes (w :: 32 word) @ data @ rest" and n: "sint w = int (length data)" "kMinMessageLen c \<le> length data" "length data \<le> kMaxMessageLen"
    and c: "cd_rawCb c = None" and e: "codec_parse le c data = Inl e"
  shows "codec_onMessage le c b s = cd_errorCallback c e b s"
proof -
  note pb = peek_body [OF b]
  have "kMinMessageLen c + kHeaderLen \<le> readableBytes b" using pb(2) n(2) by simp
  then show ?thesis using n pb c e
    by (subst codec_onMessage.simps) (simp add: peek_word [OF b])
qed

text \<open>C29: a frame that is not in order is reported and nothing else happens: a length outside the limits, a wrong checksum, a wrong tag and a payload the library
  cannot parse each give their own error; no message is delivered, and the codec takes nothing from the buffer: the error callback is given it as it is, and ends the call.\<close>

theorem codec_rejects:
  assumes "buf_ok b" and "content b = be_bytes (w :: 32 word) @ data @ rest" and "kMinMessageLen c + kHeaderLen \<le> readableBytes b" and "cd_rawCb c = None"
  shows "(int kMaxMessageLen < sint w \<or> sint w < int (kMinMessageLen c) \<longrightarrow>
        codec_onMessage le c b s = cd_errorCallback c kInvalidLength b s)
    \<and> (sint w = int (length data) \<and> kMinMessageLen c \<le> length data \<and> length data \<le> kMaxMessageLen \<longrightarrow>
        (let payload = take (length data - 4) data in
         (drop (length data - 4) data \<noteq> be_bytes (cd_adler32 c payload) \<longrightarrow>
            codec_onMessage le c b s = cd_errorCallback c kCheckSumError b s)
         \<and> (drop (length data - 4) data = be_bytes (cd_adler32 c payload) \<and> take (length (cd_tag c)) payload \<noteq> cd_tag c \<longrightarrow>
            codec_onMessage le c b s = cd_errorCallback c kUnknownMessageType b s)
         \<and> (drop (length data - 4) data = be_bytes (cd_adler32 c payload) \<and> take (length (cd_tag c)) payload = cd_tag c
              \<and> cd_parseFrom c (drop (length (cd_tag c)) payload) = None \<longrightarrow>
            codec_onMessage le c b s = cd_errorCallback c kParseError b s)))"
proof -
  note b = assms(1,2)
  have "codec_onMessage le c b s = cd_errorCallback c kInvalidLength b s" if "int kMaxMessageLen < sint w \<or> sint w < int (kMinMessageLen c)"
    using that assms(3) by (subst codec_onMessage.simps) (simp add: peek_word [OF b])
  moreover have "codec_onMessage le c b s = cd_errorCallback c e b s"
    if n: "sint w = int (length data)" "kMinMessageLen c \<le> length data" "length data \<le> kMaxMessageLen" and e: "codec_parse le c data = Inl e" for e
    by (rule onMessage_error [OF b n assms(4) e])
  moreover have "codec_parse le c data =
      (if drop (length data - 4) data = be_bytes (cd_adler32 c (take (length data - 4) data))
       then if take (length (cd_tag c)) (take (length data - 4) data) = cd_tag c
            then case cd_parseFrom c (drop (length (cd_tag c)) (take (length data - 4) data)) of Some m \<Rightarrow> Inr m | None \<Rightarrow> Inl kParseError
            else Inl kUnknownMessageType
       else Inl kCheckSumError)" if n: "kMinMessageLen c \<le> length data"
  proof -
    have "4 \<le> length data" "length (cd_tag c) \<le> length data - 4" using n by (auto simp: kMinMessageLen_def kChecksumLen_def)
    then have t: "4 \<le> length data" "take (length (cd_tag c)) (take (length data - 4) data) = take (length (cd_tag c)) data"
        "drop (length (cd_tag c)) (take (length data - 4) data) = subrange (length (cd_tag c)) (length data - kChecksumLen - length (cd_tag c)) data"
      by (simp_all add: min_def subrange_def drop_take kChecksumLen_def)
    show ?thesis unfolding codec_parse_def checksum_iff [OF t(1)] t(2,3) ..
  qed
  ultimately show ?thesis unfolding Let_def by simp
qed

text \<open>A codec whose messages are strings, with a checksum that adds the bytes up; the callbacks record what happens.\<close>

definition ex_codec :: "(string, string list) codec" where
  "ex_codec = \<lparr>cd_tag = ''RPC0'', cd_serialize = id, cd_parseFrom = Some, cd_adler32 = (\<lambda>s. of_nat (sum_list (map of_char s))),
     cd_messageCallback = (\<lambda>m s. Some (s @ [m])), cd_rawCb = None, cd_errorCallback = (\<lambda>e b s. Some (b, s @ [errorCodeToString e]))\<rparr>"

lemma ex_send: "codec_send True ex_codec ''hi'' = Some (codec_frame ex_codec ''hi'')"
  by (rule codec_send_ok) (simp add: sendable_def codec_body_def ex_codec_def kMaxMessageLen_def)

theorem codec_roundtrip_witness:
  "\<exists>b. put_all (codec_receive False ex_codec) (map (\<lambda>x. [x]) (codec_frame ex_codec ''hi'' @ codec_frame ex_codec ''hi'')) (ex_buf, []) = Some (b, [''hi'', ''hi'']) \<and> content b = []"
proof -
  let ?f = "codec_frame ex_codec ''hi''"
  have b: "buf_ok ex_buf" "content ex_buf = []" by (simp_all add: ex_buf_def buf_ok_def buf_defs vec_max_def content_def)
  have l: "length ?f = 14" by (simp add: codec_frame_def codec_body_def ex_codec_def)
  have cc: "concat (map (\<lambda>x. [x]) xs) = xs" for xs :: string by (induction xs) auto
  have "room ex_buf (length (concat (map (\<lambda>x. [x]) (?f @ ?f))))" unfolding cc by (simp add: l room_def ex_buf_def buf_defs vec_max_def)
  from codec_roundtrip [of ex_codec "[''hi'', ''hi'']" True "[?f, ?f]" "map (\<lambda>x. [x]) (?f @ ?f)" ex_buf False "[]", OF _ _ _ _ _ b this]
  show ?thesis using ex_send cc by (auto simp: ex_codec_def kMaxMessageLen_def)
qed

theorem codec_rejects_witness:
  "\<exists>b. Buffer_append (be_bytes (8 :: 32 word) @ ''RPC0'' @ [CHR 0x00, CHR 0x00, CHR 0x00, CHR 0x00]) ex_buf = Some b
     \<and> codec_onMessage True ex_codec b [] = Some (b, [''CheckSumError''])"
proof -
  have b0: "buf_ok ex_buf" "content ex_buf = []" by (simp_all add: ex_buf_def buf_ok_def buf_defs vec_max_def content_def)
  let ?data = "''RPC0'' @ [CHR 0x00, CHR 0x00, CHR 0x00, CHR 0x00]"
  have "room ex_buf (length (be_bytes (8 :: 32 word) @ ?data))" by (simp add: room_def ex_buf_def buf_defs vec_max_def)
  from Buffer_append_ok [OF b0(1) this] obtain b where b: "Buffer_append (be_bytes (8 :: 32 word) @ ?data) ex_buf = Some b" "buf_ok b"
      "content b = be_bytes (8 :: 32 word) @ ?data @ []"
    using b0(2) by auto
  have "kMinMessageLen ex_codec + kHeaderLen \<le> readableBytes b"
    using length_content [OF b(2)] b(3) by (simp add: kMinMessageLen_def ex_codec_def kHeaderLen_def kChecksumLen_def)
  from codec_rejects [OF b(2,3) this, of True "[]"] have "codec_onMessage True ex_codec b [] = cd_errorCallback ex_codec kCheckSumError b []"
    by (simp add: ex_codec_def Let_def kMinMessageLen_def kChecksumLen_def kMaxMessageLen_def be_bytes_def char_of_def)
  with b(1) show ?thesis by (simp add: ex_codec_def)
qed

end
