(* ===== verification/Rpc.thy ===== *)
theory Rpc
  imports Codec "HOL-Library.Multiset"
begin

text \<open>
  \<^verbatim>\<open>muduo/net/protorpc/RpcChannel.h\<close>, \<^verbatim>\<open>muduo/net/protorpc/RpcChannel.cc\<close> and \<^verbatim>\<open>muduo/net/protorpc/RpcCodec.cc\<close> on the codec of the theory \<open>Codec\<close>; the messages are those of
  \<^verbatim>\<open>rpc.proto\<close>. A service is known by its methods: a method parses its request or not. What the method then does is asynchronous: the
  channel keeps the call (\<open>rc_serving\<close>) until the service runs the closure with a response. \<open>rc_sent\<close> are the messages given to the codec, \<open>rc_done\<close> the closures of
  finished calls with the bytes of the response, \<open>None\<close> if the message had none: the closure is run whatever \<^verbatim>\<open>ParseFromString\<close> of them returns, as the source does not look at it. A channel has the number of its
  connection.
\<close>

section \<open>Messages\<close>

datatype MessageType = REQUEST | RESPONSE | ERROR

datatype RpcErrorCode = NO_ERROR | WRONG_PROTO | NO_SERVICE | NO_METHOD | INVALID_REQUEST | INVALID_RESPONSE | TIMEOUT

record RpcMessage =
  rm_type :: MessageType
  rm_id :: "64 word"
  rm_service :: "string option"
  rm_method :: "string option"
  rm_request :: "string option"
  rm_response :: "string option"
  rm_error :: "RpcErrorCode option"

definition new_RpcMessage :: "MessageType \<Rightarrow> 64 word \<Rightarrow> RpcMessage" where
  "new_RpcMessage t i = \<lparr>rm_type = t, rm_id = i, rm_service = None, rm_method = None, rm_request = None, rm_response = None, rm_error = None\<rparr>"

text \<open>An unset string field reads as empty.\<close>

definition str :: "string option \<Rightarrow> string" where
  "str s = (case s of Some x \<Rightarrow> x | None \<Rightarrow> [])"

definition rpctag :: string where
  "rpctag = ''RPC0''"

section \<open>Channel\<close>

type_synonym 'j services = "(string \<rightharpoonup> (string \<rightharpoonup> (string \<rightharpoonup> 'j))) option"

text \<open>The response object is there or \<^verbatim>\<open>NULL\<close>, and so is the closure.\<close>

record 'k OutstandingCall =
  out_response :: bool
  out_done :: "'k option"

record ('k, 'j) RpcChannel =
  rc_conn :: nat
  rc_id :: "64 word"
  rc_outstandings :: "64 word \<rightharpoonup> 'k OutstandingCall"
  rc_serving :: "(64 word \<times> 'j) list"
  rc_sent :: "RpcMessage list"
  rc_done :: "('k \<times> string option) list"

definition new_RpcChannel :: "nat \<Rightarrow> ('k, 'j) RpcChannel" where
  "new_RpcChannel conn = \<lparr>rc_conn = conn, rc_id = 0, rc_outstandings = Map.empty, rc_serving = [], rc_sent = [], rc_done = []\<rparr>"

definition CallMethod :: "string \<Rightarrow> string \<Rightarrow> string \<Rightarrow> bool \<Rightarrow> 'k option \<Rightarrow> ('k, 'j) RpcChannel \<Rightarrow> ('k, 'j) RpcChannel" where
  "CallMethod service_name method_name request response done_closure ch =
     (let i = rc_id ch + 1;
          ch = ch\<lparr>rc_id := i\<rparr>;
          message = (new_RpcMessage REQUEST i)\<lparr>rm_service := Some service_name, rm_method := Some method_name, rm_request := Some request\<rparr>;
          ch = ch\<lparr>rc_outstandings := (rc_outstandings ch)(i \<mapsto> \<lparr>out_response = response, out_done = done_closure\<rparr>)\<rparr>
      in ch\<lparr>rc_sent := rc_sent ch @ [message]\<rparr>)"

text \<open>The lookup of a request: the error, or what the service has to do.\<close>

definition find_method :: "'j services \<Rightarrow> RpcMessage \<Rightarrow> RpcErrorCode + 'j" where
  "find_method services message =
     (case services of
        None \<Rightarrow> Inl NO_SERVICE
      | Some m \<Rightarrow> (case m (str (rm_service message)) of
          None \<Rightarrow> Inl NO_SERVICE
        | Some service \<Rightarrow> (case service (str (rm_method message)) of
            None \<Rightarrow> Inl NO_METHOD
          | Some parse_request \<Rightarrow> (case parse_request (str (rm_request message)) of
              None \<Rightarrow> Inl INVALID_REQUEST
            | Some job \<Rightarrow> Inr job))))"

definition onRpcMessage :: "nat \<Rightarrow> 'j services \<Rightarrow> RpcMessage \<Rightarrow> ('k, 'j) RpcChannel \<Rightarrow> ('k, 'j) RpcChannel option" where
  "onRpcMessage conn services message ch =
     Option.bind (assert_that (conn = rc_conn ch)) (\<lambda>_. case rm_type message of
        RESPONSE \<Rightarrow> do {
          assert_that (rm_response message \<noteq> None \<or> rm_error message \<noteq> None);
          (case rc_outstandings ch (rm_id message) of
             None \<Rightarrow> Some ch
           | Some out \<Rightarrow>
               let ch = ch\<lparr>rc_outstandings := (rc_outstandings ch)(rm_id message := None)\<rparr> in
               if out_response out
               then (case out_done out of
                       Some closure \<Rightarrow> Some (ch\<lparr>rc_done := rc_done ch @ [(closure, rm_response message)]\<rparr>)
                     | None \<Rightarrow> Some ch)
               else Some ch)
        }
      | REQUEST \<Rightarrow>
          (case find_method services message of
             Inr job \<Rightarrow> Some (ch\<lparr>rc_serving := rc_serving ch @ [(rm_id message, job)]\<rparr>)
           | Inl err \<Rightarrow> Some (ch\<lparr>rc_sent := rc_sent ch @ [(new_RpcMessage RESPONSE (rm_id message))\<lparr>rm_error := Some err\<rparr>]\<rparr>))
      | ERROR \<Rightarrow> Some ch)"

text \<open>The service runs the closure of the call number \<open>n\<close> it serves.\<close>

definition doneCallback :: "nat \<Rightarrow> string \<Rightarrow> ('k, 'j) RpcChannel \<Rightarrow> ('k, 'j) RpcChannel" where
  "doneCallback n response ch =
     ch\<lparr>rc_serving := take n (rc_serving ch) @ drop (Suc n) (rc_serving ch),
        rc_sent := rc_sent ch @ [(new_RpcMessage RESPONSE (fst (rc_serving ch ! n)))\<lparr>rm_response := Some response\<rparr>]\<rparr>"

section \<open>On the wire\<close>

text \<open>The codec of a channel, and the message callback of its connection \<open>conn\<close>.\<close>

definition rpc_codec :: "(RpcMessage \<Rightarrow> string) \<Rightarrow> (string \<Rightarrow> RpcMessage option) \<Rightarrow> (string \<Rightarrow> 32 word)
    \<Rightarrow> (ErrorCode \<Rightarrow> Buffer \<Rightarrow> ('k, 'j) RpcChannel \<Rightarrow> (Buffer \<times> ('k, 'j) RpcChannel) option) \<Rightarrow> nat \<Rightarrow> 'j services \<Rightarrow> (RpcMessage, ('k, 'j) RpcChannel) codec" where
  "rpc_codec serialize parseFrom adler32 err conn services =
     \<lparr>cd_tag = rpctag, cd_serialize = serialize, cd_parseFrom = parseFrom, cd_adler32 = adler32,
      cd_messageCallback = onRpcMessage conn services, cd_rawCb = None, cd_errorCallback = err\<rparr>"

definition RpcChannel_onMessage :: "bool \<Rightarrow> (RpcMessage, ('k, 'j) RpcChannel) codec \<Rightarrow> Buffer \<Rightarrow> ('k, 'j) RpcChannel \<Rightarrow> (Buffer \<times> ('k, 'j) RpcChannel) option" where
  "RpcChannel_onMessage le codec buf ch = codec_onMessage le codec buf ch"

text \<open>Messages that a channel has sent reach \<open>onRpcMessage\<close> of the other side one by one, however the stream is cut.\<close>

lemma rpc_over_wire:
  assumes "\<And>m. m \<in> set msgs \<Longrightarrow> parseFrom (serialize m) = Some m \<and> sendable (rpc_codec serialize parseFrom adler32 err conn services) m"
    and "concat chunks = concat (map (codec_frame (rpc_codec serialize parseFrom adler32 err conn services)) msgs)"
    and "buf_ok b" and "content b = []" and "room b (length (concat chunks))"
  shows "\<exists>b'. content b' = [] \<and>
    put_all (\<lambda>bytes (buf, ch). Option.bind (Buffer_append bytes buf) (\<lambda>buf. RpcChannel_onMessage le (rpc_codec serialize parseFrom adler32 err conn services) buf ch)) chunks (b, ch)
      = map_option (Pair b') (put_all (onRpcMessage conn services) msgs ch)"
proof -
  let ?c = "rpc_codec serialize parseFrom adler32 err conn services"
  have recv: "(\<lambda>bytes (buf, ch). Option.bind (Buffer_append bytes buf) (\<lambda>buf. RpcChannel_onMessage le ?c buf ch)) = codec_receive le ?c"
    by (simp add: fun_eq_iff codec_receive_def RpcChannel_onMessage_def)
  have cb: "cd_rawCb ?c = None" "cd_messageCallback ?c = onRpcMessage conn services" by (simp_all add: rpc_codec_def)
  have "codec_waits ?c (content b)" using assms(4) by (simp add: codec_waits_def kHeaderLen_def)
  moreover have "content b @ concat chunks = concat (map (codec_frame ?c) msgs)" using assms(2,4) by simp
  moreover have "\<And>m. m \<in> set msgs \<Longrightarrow> cd_parseFrom ?c (cd_serialize ?c m) = Some m \<and> sendable ?c m" using assms(1) by (simp add: rpc_codec_def)
  ultimately show ?thesis unfolding recv using receive_frames [OF cb(1), of msgs b chunks le ch] assms(3,5) unfolding cb(2) by blast
qed

section \<open>Two channels\<close>

text \<open>A caller and a server, each with the connection number 0, and the messages under way in both directions. A call carries a number and what was asked for. \<open>run\<close> is what the methods of the services compute.\<close>

type_synonym call = "nat \<times> string \<times> string \<times> string"

record 'j Rpc =
  r_client :: "(call, 'j) RpcChannel"
  r_server :: "(call, 'j) RpcChannel"
  r_requests :: "RpcMessage list"
  r_responses :: "RpcMessage list"
  r_calls :: nat

text \<open>The codec takes the messages of a channel.\<close>

definition flush :: "('k, 'j) RpcChannel \<Rightarrow> ('k, 'j) RpcChannel" where
  "flush ch = ch\<lparr>rc_sent := []\<rparr>"

inductive rpc_reach :: "'j services \<Rightarrow> ('j \<Rightarrow> string) \<Rightarrow> 'j Rpc \<Rightarrow> bool" for services run where
  rpc_start: "rpc_reach services run \<lparr>r_client = new_RpcChannel 0, r_server = new_RpcChannel 0, r_requests = [], r_responses = [], r_calls = 0\<rparr>"
| rpc_call: "rpc_reach services run s \<Longrightarrow> r_calls s < 2 ^ 64 - 1 \<Longrightarrow> ch = CallMethod sv mt rq True (Some (r_calls s, sv, mt, rq)) (r_client s)
    \<Longrightarrow> rpc_reach services run (s\<lparr>r_client := flush ch, r_requests := r_requests s @ rc_sent ch, r_calls := r_calls s + 1\<rparr>)"
| rpc_request: "rpc_reach services run s \<Longrightarrow> r_requests s = m # ms \<Longrightarrow> onRpcMessage 0 services m (r_server s) = Some ch
    \<Longrightarrow> rpc_reach services run (s\<lparr>r_server := flush ch, r_requests := ms, r_responses := r_responses s @ rc_sent ch\<rparr>)"
| rpc_done: "rpc_reach services run s \<Longrightarrow> n < length (rc_serving (r_server s)) \<Longrightarrow> ch = doneCallback n (run (snd (rc_serving (r_server s) ! n))) (r_server s)
    \<Longrightarrow> rpc_reach services run (s\<lparr>r_server := flush ch, r_responses := r_responses s @ rc_sent ch\<rparr>)"
| rpc_response: "rpc_reach services run s \<Longrightarrow> r_responses s = m # ms \<Longrightarrow> onRpcMessage 0 None m (r_client s) = Some ch
    \<Longrightarrow> rpc_reach services run (s\<lparr>r_client := flush ch, r_responses := ms\<rparr>)"

section \<open>Invariant\<close>

text \<open>What a call must be answered with.\<close>

definition answer :: "'j services \<Rightarrow> ('j \<Rightarrow> string) \<Rightarrow> call \<Rightarrow> string option" where
  "answer services run call = (case call of (n, sv, mt, rq) \<Rightarrow>
     (case find_method services ((new_RpcMessage REQUEST 0)\<lparr>rm_service := Some sv, rm_method := Some mt, rm_request := Some rq\<rparr>) of
        Inr job \<Rightarrow> Some (run job) | Inl err \<Rightarrow> None))"

text \<open>The calls that wait for an answer.\<close>

definition open_calls :: "('k, 'j) RpcChannel \<Rightarrow> 64 word \<rightharpoonup> 'k" where
  "open_calls ch i = (case rc_outstandings ch i of Some out \<Rightarrow> if out_response out then out_done out else None | None \<Rightarrow> None)"

text \<open>The identifiers of the calls under way, wherever they are.\<close>

definition under_way :: "'j Rpc \<Rightarrow> 64 word list" where
  "under_way s = map rm_id (r_requests s) @ map fst (rc_serving (r_server s)) @ map rm_id (r_responses s)"

definition ids_ok :: "'j Rpc \<Rightarrow> bool" where
  "ids_ok s \<longleftrightarrow>
     rc_conn (r_client s) = 0 \<and> rc_conn (r_server s) = 0 \<and> rc_id (r_client s) = of_nat (r_calls s) \<and> r_calls s < 2 ^ 64 \<and> rc_sent (r_client s) = [] \<and> rc_sent (r_server s) = []
     \<and> distinct (under_way s) \<and> set (under_way s) = dom (open_calls (r_client s)) \<and> dom (rc_outstandings (r_client s)) = dom (open_calls (r_client s))
     \<and> (\<forall>i call. open_calls (r_client s) i = Some call \<longrightarrow> i = of_nat (Suc (fst call)) \<and> fst call < r_calls s)"

definition messages_ok :: "'j services \<Rightarrow> ('j \<Rightarrow> string) \<Rightarrow> 'j Rpc \<Rightarrow> bool" where
  "messages_ok services run s \<longleftrightarrow>
     (\<forall>m \<in> set (r_requests s). rm_type m = REQUEST
        \<and> (\<exists>n. open_calls (r_client s) (rm_id m) = Some (n, str (rm_service m), str (rm_method m), str (rm_request m))))
     \<and> (\<forall>(i, job) \<in> set (rc_serving (r_server s)). \<exists>call. open_calls (r_client s) i = Some call \<and> answer services run call = Some (run job))
     \<and> (\<forall>m \<in> set (r_responses s). rm_type m = RESPONSE \<and> (rm_response m \<noteq> None \<or> rm_error m \<noteq> None)
          \<and> (\<exists>call. open_calls (r_client s) (rm_id m) = Some call \<and> answer services run call = rm_response m))"

definition done_ok :: "'j services \<Rightarrow> ('j \<Rightarrow> string) \<Rightarrow> 'j Rpc \<Rightarrow> bool" where
  "done_ok services run s \<longleftrightarrow>
     (\<forall>(call, r) \<in> set (rc_done (r_client s)). r = answer services run call \<and> fst call < r_calls s)
     \<and> distinct (map (fst \<circ> fst) (rc_done (r_client s)))
     \<and> (\<forall>i call. open_calls (r_client s) i = Some call \<longrightarrow> fst call \<notin> (fst \<circ> fst) ` set (rc_done (r_client s)))
     \<and> length (rc_done (r_client s)) + length (under_way s) = r_calls s"

definition rpc_inv :: "'j services \<Rightarrow> ('j \<Rightarrow> string) \<Rightarrow> 'j Rpc \<Rightarrow> bool" where
  "rpc_inv services run s \<longleftrightarrow> ids_ok s \<and> messages_ok services run s \<and> done_ok services run s"

lemma flush_simps [simp]:
  "open_calls (flush ch) = open_calls ch" "rc_outstandings (flush ch) = rc_outstandings ch" "rc_id (flush ch) = rc_id ch" "rc_sent (flush ch) = []"
  "rc_done (flush ch) = rc_done ch" "rc_serving (flush ch) = rc_serving ch" "rc_conn (flush ch) = rc_conn ch"
  by (auto simp: flush_def open_calls_def)

lemma CallMethod_effect:
  assumes "ch' = CallMethod sv mt rq True (Some call) ch" and "i = rc_id ch + 1"
  shows "rc_sent ch' = rc_sent ch @ [(new_RpcMessage REQUEST i)\<lparr>rm_service := Some sv, rm_method := Some mt, rm_request := Some rq\<rparr>]"
    and "open_calls ch' = (open_calls ch)(i \<mapsto> call)" and "dom (rc_outstandings ch') = insert i (dom (rc_outstandings ch))"
    and "rc_id ch' = i" and "rc_done ch' = rc_done ch" and "rc_conn ch' = rc_conn ch"
  using assms by (auto simp: CallMethod_def Let_def open_calls_def)

lemma onRpcMessage_conn: "onRpcMessage conn services m ch = Some ch' \<Longrightarrow> rc_conn ch' = rc_conn ch"
  by (auto simp: onRpcMessage_def Let_def split: MessageType.splits option.splits if_splits sum.splits)

lemma response_effect:
  assumes "onRpcMessage conn services m ch = Some ch'" and "rm_type m = RESPONSE" and "open_calls ch (rm_id m) = Some call"
  shows "open_calls ch' = (open_calls ch)(rm_id m := None)" and "dom (rc_outstandings ch') = dom (rc_outstandings ch) - {rm_id m}"
    and "rc_id ch' = rc_id ch" and "rc_done ch' = rc_done ch @ [(call, rm_response m)]"
proof -
  from assms(3) obtain out where "rc_outstandings ch (rm_id m) = Some out" "out_response out" "out_done out = Some call"
    by (auto simp: open_calls_def split: option.splits if_splits)
  with assms(1,2) have "ch' = ch\<lparr>rc_outstandings := (rc_outstandings ch)(rm_id m := None), rc_done := rc_done ch @ [(call, rm_response m)]\<rparr>"
    by (auto simp: onRpcMessage_def Let_def split: if_splits)
  then show "open_calls ch' = (open_calls ch)(rm_id m := None)" "dom (rc_outstandings ch') = dom (rc_outstandings ch) - {rm_id m}"
      "rc_id ch' = rc_id ch" "rc_done ch' = rc_done ch @ [(call, rm_response m)]"
    by (auto simp: open_calls_def)
qed

lemma call_inv:
  assumes inv: "rpc_inv services run s" and n: "r_calls s < 2 ^ 64 - 1" and ch_def: "ch = CallMethod sv mt rq True (Some (r_calls s, sv, mt, rq)) (r_client s)"
  shows "rpc_inv services run (s\<lparr>r_client := flush ch, r_requests := r_requests s @ rc_sent ch, r_calls := r_calls s + 1\<rparr>)"
proof -
  let ?i = "of_nat (Suc (r_calls s)) :: 64 word"
  let ?o = "open_calls (r_client s)"
  let ?t = "s\<lparr>r_client := flush ch, r_requests := r_requests s @ rc_sent ch, r_calls := r_calls s + 1\<rparr>"
  have ids: "ids_ok s" and msg: "messages_ok services run s" and dn: "done_ok services run s" using inv by (simp_all add: rpc_inv_def)
  have fresh: "?o ?i = None"
  proof (rule ccontr)
    assume "?o ?i \<noteq> None"
    then obtain call where "?o ?i = Some call" by blast
    then have "?i = of_nat (Suc (fst call))" "fst call < r_calls s" using ids unfolding ids_ok_def by blast+
    moreover have "Suc (r_calls s) < 2 ^ LENGTH(64)" "Suc (fst call) < 2 ^ LENGTH(64)" using n calculation(2) by simp_all
    ultimately have "Suc (r_calls s) = Suc (fst call)" using of_nat_inverse [where 'a = 64] by metis
    then show False using \<open>fst call < r_calls s\<close> by simp
  qed
  have i: "rc_id (r_client s) + 1 = ?i" using ids by (simp add: ids_ok_def)
  let ?m = "(new_RpcMessage REQUEST ?i)\<lparr>rm_service := Some sv, rm_method := Some mt, rm_request := Some rq\<rparr>"
  have ch: "rc_sent ch = [?m]" "open_calls ch = ?o(?i \<mapsto> (r_calls s, sv, mt, rq))" "rc_id ch = ?i" "rc_done ch = rc_done (r_client s)" "rc_conn ch = rc_conn (r_client s)"
      "dom (rc_outstandings ch) = insert ?i (dom (rc_outstandings (r_client s)))"
    using CallMethod_effect [OF ch_def i [symmetric]] ids by (simp_all add: ids_ok_def)
  have notin: "?i \<notin> set (under_way s)" using ids fresh by (auto simp: ids_ok_def)
  have uw: "under_way ?t = map rm_id (r_requests s) @ ?i # map fst (rc_serving (r_server s)) @ map rm_id (r_responses s)"
    by (simp add: under_way_def ch new_RpcMessage_def)
  have "distinct (under_way ?t)" "set (under_way ?t) = insert ?i (set (under_way s))" "length (under_way ?t) = Suc (length (under_way s))"
    using ids notin unfolding uw by (auto simp: under_way_def ids_ok_def)
  moreover have "i = of_nat (Suc (fst call)) \<and> fst call < Suc (r_calls s)" if "(?o(?i \<mapsto> (r_calls s, sv, mt, rq))) i = Some call" for i call
  proof (cases "i = ?i")
    case False
    with that have "?o i = Some call" by simp
    then have "i = of_nat (Suc (fst call))" "fst call < r_calls s" using ids unfolding ids_ok_def by blast+
    then show ?thesis by (auto intro: less_SucI)
  qed (use that in \<open>auto dest: sym\<close>)
  ultimately have "ids_ok ?t" using ids n unfolding ids_ok_def by (simp add: ch)
  moreover have "messages_ok services run ?t"
  proof -
    have old: "?o i = Some x \<Longrightarrow> (?o(?i \<mapsto> (r_calls s, sv, mt, rq))) i = Some x" for i x using fresh by auto
    show ?thesis using msg old by (auto simp: messages_ok_def ch new_RpcMessage_def str_def) (blast | fastforce)+
  qed
  moreover have "done_ok services run ?t"
    using dn \<open>length (under_way ?t) = Suc (length (under_way s))\<close> by (auto simp: done_ok_def ch)
  ultimately show ?thesis by (simp add: rpc_inv_def)
qed

lemma answer_find:
  assumes "find_method services m = x"
  shows "answer services run (n, str (rm_service m), str (rm_method m), str (rm_request m)) = (case x of Inr job \<Rightarrow> Some (run job) | Inl err \<Rightarrow> None)"
proof -
  let ?m = "(new_RpcMessage REQUEST 0)\<lparr>rm_service := Some (str (rm_service m)), rm_method := Some (str (rm_method m)), rm_request := Some (str (rm_request m))\<rparr>"
  have "str (rm_service ?m) = str (rm_service m)" "str (rm_method ?m) = str (rm_method m)" "str (rm_request ?m) = str (rm_request m)" by (simp_all add: str_def)
  then have "find_method services ?m = find_method services m" unfolding find_method_def by (simp only:)
  then show ?thesis unfolding assms [symmetric] answer_def by (simp only: case_prod_conv)
qed

lemma request_inv:
  assumes inv: "rpc_inv services run s" and m: "r_requests s = m # ms" and r: "onRpcMessage 0 services m (r_server s) = Some ch"
  shows "rpc_inv services run (s\<lparr>r_server := flush ch, r_requests := ms, r_responses := r_responses s @ rc_sent ch\<rparr>)"
proof -
  let ?o = "open_calls (r_client s)"
  let ?t = "s\<lparr>r_server := flush ch, r_requests := ms, r_responses := r_responses s @ rc_sent ch\<rparr>"
  have ids: "ids_ok s" and msg: "messages_ok services run s" and dn: "done_ok services run s" using inv by (simp_all add: rpc_inv_def)
  from msg m obtain n where t: "rm_type m = REQUEST" "?o (rm_id m) = Some (n, str (rm_service m), str (rm_method m), str (rm_request m))"
    by (auto simp: messages_ok_def)
  have sent: "rc_sent (r_server s) = []" "rc_conn (r_server s) = 0" using ids by (simp_all add: ids_ok_def)
  have "\<exists>sv rs. rc_serving ch = rc_serving (r_server s) @ sv \<and> rc_sent ch = rs \<and> mset (map fst sv @ map rm_id rs) = {#rm_id m#}
      \<and> (\<forall>(i, job) \<in> set sv. \<exists>call. ?o i = Some call \<and> answer services run call = Some (run job))
      \<and> (\<forall>x \<in> set rs. rm_type x = RESPONSE \<and> (rm_response x \<noteq> None \<or> rm_error x \<noteq> None) \<and> (\<exists>call. ?o (rm_id x) = Some call \<and> answer services run call = rm_response x))"
  proof (cases "find_method services m")
    case (Inl err)
    with r t sent answer_find [OF Inl, of run n] show ?thesis by (auto simp: onRpcMessage_def new_RpcMessage_def)
  next
    case (Inr job)
    with r t sent answer_find [OF Inr, of run n] show ?thesis by (auto simp: onRpcMessage_def)
  qed
  then obtain sv rs where new: "rc_serving ch = rc_serving (r_server s) @ sv" "rc_sent ch = rs" "mset (map fst sv @ map rm_id rs) = {#rm_id m#}"
      "\<forall>(i, job) \<in> set sv. \<exists>call. ?o i = Some call \<and> answer services run call = Some (run job)"
      "\<forall>x \<in> set rs. rm_type x = RESPONSE \<and> (rm_response x \<noteq> None \<or> rm_error x \<noteq> None) \<and> (\<exists>call. ?o (rm_id x) = Some call \<and> answer services run call = rm_response x)"
    by blast
  have "mset (under_way ?t) = mset (under_way s)" using new(1-3) m by (simp add: under_way_def)
  then have uw: "distinct (under_way ?t) = distinct (under_way s)" "set (under_way ?t) = set (under_way s)" "length (under_way ?t) = length (under_way s)"
    by (auto dest: mset_eq_imp_distinct_iff mset_eq_setD mset_eq_length)
  have "ids_ok ?t" using ids onRpcMessage_conn [OF r] unfolding ids_ok_def uw by simp
  moreover have "messages_ok services run ?t" using msg new m unfolding messages_ok_def by (simp add: ball_Un)
  moreover have "done_ok services run ?t" using dn by (simp add: done_ok_def uw)
  ultimately show ?thesis by (simp add: rpc_inv_def)
qed

lemma done_inv:
  assumes inv: "rpc_inv services run s" and n: "n < length (rc_serving (r_server s))" and ch_def: "ch = doneCallback n (run (snd (rc_serving (r_server s) ! n))) (r_server s)"
  shows "rpc_inv services run (s\<lparr>r_server := flush ch, r_responses := r_responses s @ rc_sent ch\<rparr>)"
proof -
  let ?o = "open_calls (r_client s)"
  let ?sv = "rc_serving (r_server s)"
  let ?t = "s\<lparr>r_server := flush ch, r_responses := r_responses s @ rc_sent ch\<rparr>"
  have ids: "ids_ok s" and msg: "messages_ok services run s" and dn: "done_ok services run s" using inv by (simp_all add: rpc_inv_def)
  obtain i job where ij: "?sv ! n = (i, job)" by (cases "?sv ! n")
  then have split: "?sv = take n ?sv @ (i, job) # drop (Suc n) ?sv" using n by (metis id_take_nth_drop)
  have ch: "rc_serving ch = take n ?sv @ drop (Suc n) ?sv" "rc_sent ch = [(new_RpcMessage RESPONSE i)\<lparr>rm_response := Some (run job)\<rparr>]"
    using ids by (simp_all add: ch_def doneCallback_def ij ids_ok_def)
  have "(i, job) \<in> set ?sv" using n ij by (metis nth_mem)
  then obtain call where call: "?o i = Some call" "answer services run call = Some (run job)" using msg by (fastforce simp: messages_ok_def)
  have "map fst ?sv = map fst (take n ?sv) @ i # map fst (drop (Suc n) ?sv)" using arg_cong [OF split, of "map fst"] by (simp only: map_append list.map fst_conv)
  then have "mset (map fst ?sv) = mset (map fst (take n ?sv @ drop (Suc n) ?sv)) + {#i#}" by (simp only: map_append mset_append mset.simps) simp
  then have "mset (under_way ?t) = mset (under_way s)" by (simp add: under_way_def ch new_RpcMessage_def)
  then have uw: "distinct (under_way ?t) = distinct (under_way s)" "set (under_way ?t) = set (under_way s)" "length (under_way ?t) = length (under_way s)"
    by (auto dest: mset_eq_imp_distinct_iff mset_eq_setD mset_eq_length)
  have "rc_conn ch = rc_conn (r_server s)" by (simp add: ch_def doneCallback_def)
  then have "ids_ok ?t" using ids unfolding ids_ok_def uw by simp
  moreover have "set (take n ?sv @ drop (Suc n) ?sv) \<subseteq> set ?sv" by (auto dest: in_set_takeD in_set_dropD)
  then have "messages_ok services run ?t" using msg call unfolding messages_ok_def by (cases call) (auto simp: ch new_RpcMessage_def)
  moreover have "done_ok services run ?t" using dn by (simp add: done_ok_def uw)
  ultimately show ?thesis by (simp add: rpc_inv_def)
qed

lemma response_inv:
  assumes inv: "rpc_inv services run s" and m: "r_responses s = m # ms" and r: "onRpcMessage 0 None m (r_client s) = Some ch"
  shows "rpc_inv services run (s\<lparr>r_client := flush ch, r_responses := ms\<rparr>)"
proof -
  let ?o = "open_calls (r_client s)"
  let ?i = "rm_id m"
  let ?t = "s\<lparr>r_client := flush ch, r_responses := ms\<rparr>"
  have ids: "ids_ok s" and msg: "messages_ok services run s" and dn: "done_ok services run s" using inv by (simp_all add: rpc_inv_def)
  from msg m obtain call where t: "rm_type m = RESPONSE" "?o ?i = Some call" "answer services run call = rm_response m"
    by (auto simp: messages_ok_def)
  note fl = response_effect [OF r t(1,2), folded t(3)]
  have e: "mset (under_way s) = mset (?i # under_way ?t)" using m by (simp add: under_way_def)
  have uw: "distinct (under_way s) \<longleftrightarrow> ?i \<notin> set (under_way ?t) \<and> distinct (under_way ?t)" "set (under_way s) = insert ?i (set (under_way ?t))"
      "length (under_way s) = Suc (length (under_way ?t))"
    using mset_eq_imp_distinct_iff [OF e] mset_eq_setD [OF e] mset_eq_length [OF e] by simp_all
  have d: "distinct (under_way s)" "set (under_way s) = dom ?o" using ids by (simp_all add: ids_ok_def)
  have notin: "?i \<notin> set (under_way ?t)" using uw(1) d(1) by blast
  have st: "set (under_way ?t) = dom ?o - {?i}" using uw(2) d(2) notin by auto
  have "ids_ok ?t" using ids onRpcMessage_conn [OF r] uw(1) d(1) st by (auto simp: ids_ok_def fl)
  moreover have "messages_ok services run ?t"
  proof -
    have ne: "\<And>x. x \<in> set (r_requests s) \<Longrightarrow> rm_id x \<noteq> ?i" "\<And>j job. (j, job) \<in> set (rc_serving (r_server s)) \<Longrightarrow> j \<noteq> ?i"
        "\<And>x. x \<in> set ms \<Longrightarrow> rm_id x \<noteq> ?i"
      using notin unfolding under_way_def by (simp add: image_iff, metis, simp add: image_iff, metis fst_conv, simp add: image_iff, metis)
    have ms: "set ms \<subseteq> set (r_responses s)" using m by auto
    show ?thesis unfolding messages_ok_def
    proof (intro conjI ballI)
      fix x assume x: "x \<in> set (r_requests ?t)"
      then show "rm_type x = REQUEST" "\<exists>n. open_calls (r_client ?t) (rm_id x) = Some (n, str (rm_service x), str (rm_method x), str (rm_request x))"
        using msg ne(1) [of x] by (simp_all add: messages_ok_def fl)
    next
      fix p assume "p \<in> set (rc_serving (r_server ?t))"
      moreover obtain j job where p: "p = (j, job)" by (cases p)
      ultimately have "j \<noteq> ?i" "\<exists>call. ?o j = Some call \<and> answer services run call = Some (run job)" using ne(2) msg by (auto simp: messages_ok_def)
      then show "case p of (i, job) \<Rightarrow> \<exists>call. open_calls (r_client ?t) i = Some call \<and> answer services run call = Some (run job)"
        by (simp add: p fl)
    next
      fix x assume "x \<in> set (r_responses ?t)"
      then have "x \<in> set (r_responses s)" "rm_id x \<noteq> ?i" using ms ne(3) by auto
      then show "rm_type x = RESPONSE" "rm_response x \<noteq> None \<or> rm_error x \<noteq> None"
          "\<exists>call. open_calls (r_client ?t) (rm_id x) = Some call \<and> answer services run call = rm_response x"
        using msg by (simp_all add: messages_ok_def fl)
    qed
  qed
  moreover have "done_ok services run ?t"
  proof -
    have old: "fst call \<notin> (fst \<circ> fst) ` set (rc_done (r_client s))" "fst call < r_calls s" using dn ids t(2) unfolding done_ok_def ids_ok_def by blast+
    have other: "fst c \<noteq> fst call" if "?o j = Some c" "j \<noteq> ?i" for j c
      using ids t(2) that unfolding ids_ok_def by metis
    show ?thesis using dn old other uw(3) unfolding done_ok_def by (auto simp: fl) blast
  qed
  ultimately show ?thesis by (simp add: rpc_inv_def)
qed

lemma rpc_reach_inv: "rpc_reach services run s \<Longrightarrow> rpc_inv services run s"
proof (induction rule: rpc_reach.induct)
  case rpc_start
  show ?case by (simp add: rpc_inv_def ids_ok_def messages_ok_def done_ok_def under_way_def new_RpcChannel_def open_calls_def dom_def)
qed (blast intro: call_inv request_inv done_inv response_inv)+

section \<open>Properties\<close>

text \<open>C30: remote calls are answered exactly once and by the right response: however calls, their execution in any order and the messages in both directions
  interleave, every finished call found the response that its method computes for its own request (none if the lookup or the parsing failed), no
  call finishes twice, and every call made is either finished or under way; no assertion of the channels fails.\<close>

theorem rpc_exactly_once:
  assumes "rpc_reach services run s"
  shows "(\<forall>(call, result) \<in> set (rc_done (r_client s)). result = answer services run call)
    \<and> distinct (map (fst \<circ> fst) (rc_done (r_client s)))
    \<and> length (rc_done (r_client s)) + card (dom (rc_outstandings (r_client s))) = r_calls s
    \<and> set (under_way s) = dom (rc_outstandings (r_client s))
    \<and> (r_requests s = m # ms \<longrightarrow> onRpcMessage 0 services m (r_server s) \<noteq> None)
    \<and> (r_responses s = m' # ms' \<longrightarrow> onRpcMessage 0 None m' (r_client s) \<noteq> None)"
proof -
  have inv: "ids_ok s" "messages_ok services run s" "done_ok services run s" using rpc_reach_inv [OF assms] by (simp_all add: rpc_inv_def)
  have "card (dom (rc_outstandings (r_client s))) = length (under_way s)"
    using inv(1) distinct_card [of "under_way s"] by (simp add: ids_ok_def)
  moreover have "onRpcMessage 0 services m (r_server s) \<noteq> None" if "r_requests s = m # ms"
    using inv(1,2) that by (auto simp: ids_ok_def messages_ok_def onRpcMessage_def split: sum.split)
  moreover have "onRpcMessage 0 None m' (r_client s) \<noteq> None" if "r_responses s = m' # ms'"
    using inv(1,2) that by (auto simp: ids_ok_def messages_ok_def onRpcMessage_def Let_def split: option.split)
  ultimately show ?thesis using inv(1,3) by (auto simp: ids_ok_def done_ok_def)
qed

text \<open>A service \<open>Echo\<close> with a method \<open>echo\<close> that returns its request; a call to it goes out, is served and answered, next to a call of an unknown method.\<close>

definition ex_services :: "string services" where
  "ex_services = Some [''Echo'' \<mapsto> [''echo'' \<mapsto> Some]]"

definition ex_rpc :: "string Rpc" where
  "ex_rpc = \<lparr>r_client = \<lparr>rc_conn = 0, rc_id = 2, rc_outstandings = Map.empty, rc_serving = [], rc_sent = [],
       rc_done = [((1, ''Echo'', ''none'', ''x''), None), ((0, ''Echo'', ''echo'', ''hi''), Some ''hi'')]\<rparr>,
     r_server = new_RpcChannel 0, r_requests = [], r_responses = [], r_calls = 2\<rparr>"

text \<open>The two deliveries as functions.\<close>

definition serve :: "'j services \<Rightarrow> 'j Rpc \<Rightarrow> 'j Rpc" where
  "serve services s = (case r_requests s of [] \<Rightarrow> s
     | m # ms \<Rightarrow> (case onRpcMessage 0 services m (r_server s) of None \<Rightarrow> s
        | Some ch \<Rightarrow> s\<lparr>r_server := flush ch, r_requests := ms, r_responses := r_responses s @ rc_sent ch\<rparr>))"

definition reply :: "'j Rpc \<Rightarrow> 'j Rpc" where
  "reply s = (case r_responses s of [] \<Rightarrow> s
     | m # ms \<Rightarrow> (case onRpcMessage 0 None m (r_client s) of None \<Rightarrow> s
        | Some ch \<Rightarrow> s\<lparr>r_client := flush ch, r_responses := ms\<rparr>))"

lemma reach_deliver:
  assumes "rpc_reach services run s"
  shows "rpc_reach services run (serve services s)" and "rpc_reach services run (reply s)"
  using assms by (auto simp: serve_def reply_def split: list.split option.split intro: rpc_request rpc_response)

lemma ex_rpc_reach: "rpc_reach ex_services id ex_rpc"
proof -
  note defs = CallMethod_def onRpcMessage_def find_method_def doneCallback_def flush_def new_RpcChannel_def new_RpcMessage_def str_def ex_services_def serve_def reply_def Let_def
  note s0 = rpc_start [of ex_services id]
  note s1 = rpc_call [OF s0 _ refl, of "''Echo''" "''echo''" "''hi''", simplified defs, simplified]
  note s2 = rpc_call [OF s1 _ refl, of "''Echo''" "''none''" "''x''", simplified defs, simplified]
  note s3 = reach_deliver(1) [OF s2, simplified defs, simplified]
  note s4 = reach_deliver(1) [OF s3, simplified defs, simplified]
  note s5 = reach_deliver(2) [OF s4, simplified defs, simplified]
  note s6 = rpc_done [OF s5 _ refl, where n = 0, simplified defs, simplified]
  note s7 = reach_deliver(2) [OF s6, simplified defs, simplified]
  show ?thesis using s7 by (simp add: ex_rpc_def new_RpcChannel_def ex_services_def numeral_2_eq_2)
qed

theorem rpc_exactly_once_witness:
  "rpc_reach ex_services id ex_rpc \<and> length (rc_done (r_client ex_rpc)) = 2 \<and> answer ex_services id (0, ''Echo'', ''echo'', ''hi'') = Some ''hi''"
  using rpc_exactly_once [OF ex_rpc_reach, of "new_RpcMessage REQUEST 0" "[]" "new_RpcMessage REQUEST 0" "[]"] ex_rpc_reach
  by (simp add: ex_rpc_def)

end
