(* ===== verification/Hub.thy ===== *)
theory Hub
  imports Buffer Timestamp
begin

text \<open>
  \<^verbatim>\<open>examples/hub\<close>: the publish/subscribe protocol of \<^verbatim>\<open>codec.cc\<close>, the server of \<^verbatim>\<open>hub.cc\<close> and the client of \<^verbatim>\<open>pubsub.cc\<close>, on the buffers of the theory \<open>Buffer\<close>. A connection is a
  number. Of a connection the server uses its context, its state (\<open>h_connected\<close> are the connections in the state \<^verbatim>\<open>kConnected\<close>), \<^verbatim>\<open>send\<close> and \<^verbatim>\<open>shutdown\<close>; \<open>h_sent c\<close> are the messages
  the connection \<open>c\<close> accepted for sending. \<open>h_connections\<close> are the connections that the TCP server has and has not yet reported as closed. A \<^verbatim>\<open>std::set\<close> is a set, or a list without repetitions where it is iterated.
\<close>

section \<open>Protocol\<close>

datatype ParseResult = kError | kSuccess | kContinue

definition parseMessage :: "Buffer \<Rightarrow> (ParseResult \<times> string \<times> string \<times> string \<times> Buffer) option" where
  "parseMessage buf =
     (case findCRLF buf of
        None \<Rightarrow> Some (kContinue, [], [], [], buf)
      | Some crlf \<Rightarrow>
          let line = subrange (peek buf) (crlf - peek buf) (buffer buf);
              space = find_char CHR '' '' line
          in if space \<noteq> length line
             then let cmd = take space line;
                      topic = drop (space + 1) line
                  in if cmd = ''pub''
                     then let start = crlf + 2 in
                          Option.bind (findCRLF_from buf start) (\<lambda>found.
                            case found of
                              Some crlf \<Rightarrow>
                                Option.bind (retrieveUntil (crlf + 2) buf)
                                  (\<lambda>buf'. Some (kSuccess, cmd, topic, subrange start (crlf - start) (buffer buf), buf'))
                            | None \<Rightarrow> Some (kContinue, cmd, topic, [], buf))
                     else Option.bind (retrieveUntil (crlf + 2) buf) (\<lambda>buf'. Some (kSuccess, cmd, topic, [], buf'))
             else Some (kError, [], [], [], buf))"

lemma retrieveUntil_less:
  assumes "retrieveUntil e b = Some b'" and "peek b < e"
  shows "readableBytes b' < readableBytes b"
  using assms by (auto simp: retrieveUntil_def abort_elims buf_defs intro!: retrieve_less [unfolded buf_defs] split: if_splits)

lemma parseMessage_less:
  assumes "parseMessage b = Some (kSuccess, cmd, topic, cont, b')"
  shows "readableBytes b' < readableBytes b"
proof -
  have "peek b \<le> i" if "findCRLF b = Some i" for i using that by (auto simp: findCRLF_def)
  moreover have "start \<le> i" if "findCRLF_from b start = Some (Some i)" for i start using that by (auto simp: findCRLF_from_def abort_elims split: if_splits)
  ultimately show ?thesis using assms
    by (fastforce simp: parseMessage_def Let_def abort_elims split: option.splits if_splits intro: retrieveUntil_less)
qed

section \<open>Server\<close>

record Topic =
  t_topic :: string
  t_content :: string
  t_lastPubTime :: Timestamp
  t_audiences :: "nat set"

record PubSubServer =
  h_topics :: "string \<rightharpoonup> Topic"
  h_context :: "nat \<rightharpoonup> string list"
  h_connections :: "nat set"
  h_connected :: "nat set"
  h_sent :: "nat \<Rightarrow> string list"

definition new_PubSubServer :: PubSubServer where
  "new_PubSubServer = \<lparr>h_topics = Map.empty, h_context = Map.empty, h_connections = {}, h_connected = {}, h_sent = (\<lambda>c. [])\<rparr>"

text \<open>\<^verbatim>\<open>TcpConnection::send\<close> does nothing unless the connection is in the state \<^verbatim>\<open>kConnected\<close>, which \<^verbatim>\<open>shutdown\<close> ends.\<close>

definition conn_send :: "nat \<Rightarrow> string \<Rightarrow> PubSubServer \<Rightarrow> PubSubServer" where
  "conn_send conn message h = (if conn \<in> h_connected h then h\<lparr>h_sent := (h_sent h)(conn := h_sent h conn @ [message])\<rparr> else h)"

definition conn_shutdown :: "nat \<Rightarrow> PubSubServer \<Rightarrow> PubSubServer" where
  "conn_shutdown conn h = h\<lparr>h_connected := h_connected h - {conn}\<rparr>"

definition new_Topic :: "string \<Rightarrow> Topic" where
  "new_Topic topic = \<lparr>t_topic = topic, t_content = [], t_lastPubTime = Timestamp_invalid, t_audiences = {}\<rparr>"

definition makeMessage :: "Topic \<Rightarrow> string" where
  "makeMessage t = ''pub '' @ t_topic t @ kCRLF @ t_content t @ kCRLF"

text \<open>The topic; a new one is put into the map.\<close>

definition getTopic :: "string \<Rightarrow> PubSubServer \<Rightarrow> Topic \<times> PubSubServer" where
  "getTopic topic h =
     (case h_topics h topic of
        Some t \<Rightarrow> (t, h)
      | None \<Rightarrow> (new_Topic topic, h\<lparr>h_topics := (h_topics h)(topic \<mapsto> new_Topic topic)\<rparr>))"

definition Topic_add :: "nat \<Rightarrow> string \<Rightarrow> Topic \<times> PubSubServer \<Rightarrow> PubSubServer" where
  "Topic_add conn topic th =
     (let (t, h) = th;
          t = t\<lparr>t_audiences := insert conn (t_audiences t)\<rparr>;
          h = h\<lparr>h_topics := (h_topics h)(topic \<mapsto> t)\<rparr>
      in if Timestamp_valid (t_lastPubTime t) then conn_send conn (makeMessage t) h else h)"

definition Topic_remove :: "nat \<Rightarrow> string \<Rightarrow> Topic \<times> PubSubServer \<Rightarrow> PubSubServer" where
  "Topic_remove conn topic th =
     (let (t, h) = th
      in h\<lparr>h_topics := (h_topics h)(topic \<mapsto> t\<lparr>t_audiences := t_audiences t - {conn}\<rparr>)\<rparr>)"

text \<open>Every connection of the audience gets one \<^verbatim>\<open>send\<close>.\<close>

definition Topic_publish :: "string \<Rightarrow> Timestamp \<Rightarrow> string \<Rightarrow> Topic \<times> PubSubServer \<Rightarrow> PubSubServer" where
  "Topic_publish cont time topic th =
     (let (t, h) = th;
          t = t\<lparr>t_content := cont, t_lastPubTime := time\<rparr>;
          message = makeMessage t
      in h\<lparr>h_topics := (h_topics h)(topic \<mapsto> t),
           h_sent := (\<lambda>c. if c \<in> t_audiences t then h_sent (conn_send c message h) c else h_sent h c)\<rparr>)"

text \<open>A connection without a context is a null pointer.\<close>

definition doSubscribe :: "nat \<Rightarrow> string \<Rightarrow> PubSubServer \<Rightarrow> PubSubServer option" where
  "doSubscribe conn topic h = do {
     connSub \<leftarrow> h_context h conn;
     let h = h\<lparr>h_context := (h_context h)(conn \<mapsto> List.insert topic connSub)\<rparr>;
     Some (Topic_add conn topic (getTopic topic h))
   }"

definition doUnsubscribe :: "nat \<Rightarrow> string \<Rightarrow> PubSubServer \<Rightarrow> PubSubServer option" where
  "doUnsubscribe conn topic h = do {
     let h = Topic_remove conn topic (getTopic topic h);
     connSub \<leftarrow> h_context h conn;
     Some (h\<lparr>h_context := (h_context h)(conn \<mapsto> remove1 topic connSub)\<rparr>)
   }"

definition doPublish :: "string \<Rightarrow> string \<Rightarrow> Timestamp \<Rightarrow> PubSubServer \<Rightarrow> PubSubServer" where
  "doPublish topic cont time h = Topic_publish cont time topic (getTopic topic h)"

definition timePublish :: "Timestamp \<Rightarrow> PubSubServer \<Rightarrow> PubSubServer" where
  "timePublish time h = doPublish ''utc_time'' (toFormattedString time True) time h"

definition hub_onConnection :: "nat \<Rightarrow> PubSubServer \<Rightarrow> PubSubServer option" where
  "hub_onConnection conn h =
     (if conn \<in> h_connected h then Some (h\<lparr>h_context := (h_context h)(conn \<mapsto> [])\<rparr>)
      else Option.bind (h_context h conn) (\<lambda>connSub. put_all (doUnsubscribe conn) connSub h))"

function hub_onMessage :: "nat \<Rightarrow> Timestamp \<Rightarrow> Buffer \<Rightarrow> PubSubServer \<Rightarrow> (Buffer \<times> PubSubServer) option" where
  "hub_onMessage conn receiveTime buf h =
     (case parseMessage buf of
        None \<Rightarrow> None
      | Some (result, cmd, topic, cont, buf') \<Rightarrow>
          if result = kSuccess then
            if cmd = ''pub'' then hub_onMessage conn receiveTime buf' (doPublish topic cont receiveTime h)
            else if cmd = ''sub'' then Option.bind (doSubscribe conn topic h) (\<lambda>h. hub_onMessage conn receiveTime buf' h)
            else if cmd = ''unsub'' then Option.bind (doUnsubscribe conn topic h) (\<lambda>h. hub_onMessage conn receiveTime buf' h)
            else Some (buf', conn_shutdown conn h)
          else if result = kError then Some (buf', conn_shutdown conn h)
          else Some (buf', h))"
  by pat_completeness auto
termination
  by (relation "measure (\<lambda>(conn, t, buf, h). readableBytes buf)") (auto dest: parseMessage_less)

declare hub_onMessage.simps [simp del]

section \<open>Client\<close>

text \<open>\<open>pc_connected\<close> tells whether \<^verbatim>\<open>conn_\<close> is set and connected, \<open>pc_callback\<close> whether \<^verbatim>\<open>subscribeCallback_\<close> is; \<open>pc_got\<close> records its calls.\<close>

record PubSubClient =
  pc_connected :: bool
  pc_callback :: bool
  pc_sent :: "string list"
  pc_got :: "(string \<times> string) list"

definition pc_send :: "string \<Rightarrow> PubSubClient \<Rightarrow> bool \<times> PubSubClient" where
  "pc_send message p = (if pc_connected p then (True, p\<lparr>pc_sent := pc_sent p @ [message]\<rparr>) else (False, p))"

definition pc_subscribe :: "string \<Rightarrow> PubSubClient \<Rightarrow> bool \<times> PubSubClient" where
  "pc_subscribe topic p = (let message = ''sub '' @ topic @ kCRLF in pc_send message (p\<lparr>pc_callback := True\<rparr>))"

definition pc_unsubscribe :: "string \<Rightarrow> PubSubClient \<Rightarrow> PubSubClient" where
  "pc_unsubscribe topic p = (let message = ''unsub '' @ topic @ kCRLF in snd (pc_send message p))"

definition pc_publish :: "string \<Rightarrow> string \<Rightarrow> PubSubClient \<Rightarrow> bool \<times> PubSubClient" where
  "pc_publish topic cont p = (let message = ''pub '' @ topic @ kCRLF @ cont @ kCRLF in pc_send message p)"

definition pc_onConnection :: "bool \<Rightarrow> PubSubClient \<Rightarrow> PubSubClient" where
  "pc_onConnection connected p = p\<lparr>pc_connected := connected\<rparr>"

function pc_onMessage :: "Buffer \<Rightarrow> PubSubClient \<Rightarrow> (Buffer \<times> PubSubClient) option" where
  "pc_onMessage buf p =
     (case parseMessage buf of
        None \<Rightarrow> None
      | Some (result, cmd, topic, cont, buf') \<Rightarrow>
          if result = kSuccess
          then pc_onMessage buf' (if cmd = ''pub'' \<and> pc_callback p then p\<lparr>pc_got := pc_got p @ [(topic, cont)]\<rparr> else p)
          else if result = kError then Some (buf', p\<lparr>pc_connected := False\<rparr>)
          else Some (buf', p))"
  by pat_completeness auto
termination
  by (relation "measure (\<lambda>(buf, p). readableBytes buf)") (auto dest: parseMessage_less)

declare pc_onMessage.simps [simp del]

section \<open>Commands on the wire\<close>

datatype command = Sub string | Unsub string | Pub string string

text \<open>The text that the client sends for a command.\<close>

fun command_text :: "command \<Rightarrow> string" where
  "command_text (Sub topic) = ''sub '' @ topic @ kCRLF"
| "command_text (Unsub topic) = ''unsub '' @ topic @ kCRLF"
| "command_text (Pub topic cont) = ''pub '' @ topic @ kCRLF @ cont @ kCRLF"

text \<open>A topic and a text must not contain a carriage return.\<close>

fun command_ok :: "command \<Rightarrow> bool" where
  "command_ok (Sub topic) \<longleftrightarrow> CHR 0x0D \<notin> set topic"
| "command_ok (Unsub topic) \<longleftrightarrow> CHR 0x0D \<notin> set topic"
| "command_ok (Pub topic cont) \<longleftrightarrow> CHR 0x0D \<notin> set topic \<and> CHR 0x0D \<notin> set cont"

fun command_fields :: "command \<Rightarrow> string \<times> string \<times> string" where
  "command_fields (Sub topic) = (''sub'', topic, [])"
| "command_fields (Unsub topic) = (''unsub'', topic, [])"
| "command_fields (Pub topic cont) = (''pub'', topic, cont)"

lemma findCRLF_from_content:
  assumes "buf_ok b" and "k \<le> readableBytes b"
  shows "findCRLF_from b (peek b + k) = Some (map_option ((+) (peek b + k)) (search_at kCRLF (drop k (content b))))"
proof -
  have "subrange (peek b + k) (beginWrite b - (peek b + k)) (buffer b) = drop k (content b)"
    using assms by (simp add: content_def drop_subrange buf_defs)
  moreover have "peek b + k \<le> beginWrite b" using assms by (simp add: buf_defs buf_ok_def) linarith
  ultimately show ?thesis by (simp add: findCRLF_from_def)
qed

lemma parse_split:
  assumes "findCRLF b = Some (peek b + n)" and "subrange (peek b) n (buffer b) = name @ CHR '' '' # topic" and "CHR '' '' \<notin> set name"
  shows "parseMessage b =
     (if name = ''pub''
      then Option.bind (findCRLF_from b (peek b + n + 2)) (\<lambda>found.
             case found of
               Some crlf \<Rightarrow> Option.bind (retrieveUntil (crlf + 2) b) (\<lambda>b'. Some (kSuccess, name, topic, subrange (peek b + n + 2) (crlf - (peek b + n + 2)) (buffer b), b'))
             | None \<Rightarrow> Some (kContinue, name, topic, [], b))
      else Option.bind (retrieveUntil (peek b + n + 2) b) (\<lambda>b'. Some (kSuccess, name, topic, [], b')))"
  unfolding parseMessage_def assms(1) option.case Let_def add_diff_cancel_left' assms(2) find_char_here [OF assms(3)] by (cases "name = ''pub''") simp_all

lemma parse_line:
  assumes "buf_ok b" and "content b = (name @ CHR '' '' # topic) @ kCRLF @ rest" and "CHR '' '' \<notin> set name" and "CHR 0x0D \<notin> set (name @ topic)" and "name \<noteq> ''pub''"
  shows "\<exists>b'. parseMessage b = Some (kSuccess, name, topic, [], b') \<and> buf_ok b' \<and> content b' = rest"
proof -
  let ?line = "name @ CHR '' '' # topic"
  have s: "search_at kCRLF (content b) = Some (length ?line)" unfolding assms(2) by (rule search_line) (use assms(4) in auto)
  note r = retrieveUntil_ok [OF assms(1) s]
  from r(3) obtain b' where b': "retrieveUntil (peek b + length ?line + 2) b = Some b'" "buf_ok b'" "content b' = drop (length ?line + 2) (content b)" by blast
  have l: "subrange (peek b) (length ?line) (buffer b) = ?line" using r(2) unfolding assms(2) line_parts .
  have "content b' = rest" unfolding b'(3) assms(2) line_parts ..
  moreover have "parseMessage b = Some (kSuccess, name, topic, [], b')"
    unfolding parse_split [OF r(1) l assms(3)] using b'(1) assms(5) by simp
  ultimately show ?thesis using b'(2) by blast
qed

lemma pub_line:
  assumes "buf_ok b" and "content b = (''pub '' @ topic) @ kCRLF @ rest" and "CHR 0x0D \<notin> set topic"
  defines "k \<equiv> length (''pub '' @ topic) + 2"
  shows "parseMessage b = (case search_at kCRLF rest of
      None \<Rightarrow> Some (kContinue, ''pub'', topic, [], b)
    | Some i \<Rightarrow> Option.bind (retrieveUntil (peek b + k + i + 2) b) (\<lambda>b'. Some (kSuccess, ''pub'', topic, take i rest, b')))"
    and "drop k (content b) = rest"
proof -
  let ?line = "''pub '' @ topic"
  have s: "search_at kCRLF (content b) = Some (length ?line)" unfolding assms(2) by (rule search_line) (use assms(3) in auto)
  note r = retrieveUntil_ok [OF assms(1) s]
  have l: "subrange (peek b) (length ?line) (buffer b) = ?line" using r(2) unfolding assms(2) line_parts .
  show d: "drop k (content b) = rest" unfolding assms(2) k_def line_parts ..
  have k: "k \<le> readableBytes b" using crlf_inside(1) [OF s] assms(1) by (simp add: k_def)
  have "subrange (peek b + k) i (buffer b) = take i rest" if "i + 2 \<le> length rest" for i
  proof -
    have "k + i \<le> readableBytes b" using that d k length_content [OF assms(1)] by (metis Nat.le_diff_conv2 add.commute add_leD1 length_drop)
    then show ?thesis using content_window [OF assms(1), of k i] d by (simp add: peek_def)
  qed
  then have sub: "subrange (peek b + k) i (buffer b) = take i rest" if "search_at kCRLF rest = Some i" for i
    using crlf_inside(1) [OF that] by blast
  have l': "subrange (peek b) (length ?line) (buffer b) = ''pub'' @ CHR '' '' # topic" unfolding l by simp
  have "findCRLF_from b (peek b + length ?line + 2) = Some (map_option ((+) (peek b + k)) (search_at kCRLF rest))"
    using findCRLF_from_content [OF assms(1) k] unfolding d by (simp add: k_def add.assoc)
  moreover have e: "peek b + length ?line + 2 = peek b + k" by (simp add: k_def)
  moreover have "CHR '' '' \<notin> set ''pub''" by simp
  ultimately show "parseMessage b = (case search_at kCRLF rest of
      None \<Rightarrow> Some (kContinue, ''pub'', topic, [], b)
    | Some i \<Rightarrow> Option.bind (retrieveUntil (peek b + k + i + 2) b) (\<lambda>b'. Some (kSuccess, ''pub'', topic, take i rest, b')))"
    unfolding parse_split [OF r(1) l' \<open>CHR '' '' \<notin> set ''pub''\<close>] e using sub by (simp split: option.split)
qed

lemma parse_command:
  assumes "buf_ok b" and "content b = command_text c @ rest" and "command_ok c"
  shows "\<exists>b'. parseMessage b = Some (kSuccess, fst (command_fields c), fst (snd (command_fields c)), snd (snd (command_fields c)), b') \<and> buf_ok b' \<and> content b' = rest"
proof (cases c)
  case (Sub topic)
  with parse_line [OF assms(1), of "''sub''" topic rest] assms show ?thesis by simp
next
  case (Unsub topic)
  with parse_line [OF assms(1), of "''unsub''" topic rest] assms show ?thesis by simp
next
  case (Pub topic cont)
  then have ok: "CHR 0x0D \<notin> set topic" "CHR 0x0D \<notin> set cont" using assms(3) by simp_all
  have e: "content b = (''pub '' @ topic) @ kCRLF @ cont @ kCRLF @ rest" using assms(2) Pub by simp
  note pl = pub_line [OF assms(1) e ok(1)]
  let ?k = "length (''pub '' @ topic) + 2"
  have s: "search_at kCRLF (cont @ kCRLF @ rest) = Some (length cont)" by (rule search_line) (rule ok(2))
  have l: "?k + length cont + 2 \<le> readableBytes b" using length_content [OF assms(1)] unfolding e by (simp add: kCRLF_def)
  from retrieve_ok [OF assms(1) l] obtain b' where b': "retrieve (?k + length cont + 2) b = Some b'" "buf_ok b'" "content b' = drop (?k + length cont + 2) (content b)"
    by blast
  have "peek b + (?k + length cont + 2) \<le> beginWrite b" using l assms(1) by (simp add: buf_defs buf_ok_def)
  then have "retrieveUntil (peek b + (?k + length cont + 2)) b = Some b'" unfolding retrieveUntil_def add_diff_cancel_left' b'(1) by simp
  then have "retrieveUntil (peek b + ?k + length cont + 2) b = Some b'" by (simp only: add.assoc)
  moreover have "content b' = rest"
  proof -
    have n: "?k + length cont + 2 = length ((''pub '' @ topic) @ kCRLF @ cont @ kCRLF)" by (simp add: kCRLF_def)
    have "content b = ((''pub '' @ topic) @ kCRLF @ cont @ kCRLF) @ rest" unfolding e by (simp only: append_assoc)
    then show ?thesis unfolding b'(3) n by (metis append_eq_conv_conj)
  qed
  ultimately show ?thesis using pl(1) s b'(2) Pub by simp
qed

lemma no_line: "CHR 0x0D \<notin> set line \<Longrightarrow> r @ z = line @ kCRLF \<Longrightarrow> z \<noteq> [] \<Longrightarrow> search_at kCRLF r = None"
proof (induction line arbitrary: r)
  case Nil
  then show ?case by (cases r) (auto simp: kCRLF_def append_eq_Cons_conv)
next
  case (Cons x line)
  show ?case
  proof (cases r)
    case (Cons y r')
    with Cons.prems have "y = x" "r' @ z = line @ kCRLF" by simp_all
    with Cons.IH [of r'] Cons.prems Cons show ?thesis by (auto simp: kCRLF_def)
  qed (simp add: kCRLF_def)
qed

text \<open>The bytes of a command that has not arrived completely.\<close>

definition hub_waits :: "string \<Rightarrow> bool" where
  "hub_waits r \<longleftrightarrow> (\<exists>c z. command_ok c \<and> r @ z = command_text c \<and> z \<noteq> [])"

lemma parse_waits:
  assumes "buf_ok b" and "hub_waits (content b)"
  shows "\<exists>cmd topic. parseMessage b = Some (kContinue, cmd, topic, [], b)"
proof -
  from assms(2) obtain c z where c: "command_ok c" "content b @ z = command_text c" "z \<noteq> []" unfolding hub_waits_def by blast
  have none: "\<exists>cmd topic. parseMessage b = Some (kContinue, cmd, topic, [], b)" if "search_at kCRLF (content b) = None"
    using that by (simp add: parseMessage_def findCRLF_content)
  show ?thesis
  proof (cases c)
    case (Sub topic)
    with no_line [of "''sub '' @ topic" "content b" z] c none show ?thesis by simp
  next
    case (Unsub topic)
    with no_line [of "''unsub '' @ topic" "content b" z] c none show ?thesis by simp
  next
    case (Pub topic cont)
    then have ok: "CHR 0x0D \<notin> set topic" "CHR 0x0D \<notin> set cont" using c(1) by simp_all
    have "content b @ z = ((''pub '' @ topic) @ kCRLF) @ cont @ kCRLF" using c(2) Pub by simp
    then obtain us where us: "content b = ((''pub '' @ topic) @ kCRLF) @ us \<and> us @ z = cont @ kCRLF \<or> content b @ us = (''pub '' @ topic) @ kCRLF \<and> z = us @ cont @ kCRLF"
      unfolding append_eq_append_conv2 by blast
    show ?thesis
    proof (cases "us = [] \<or> content b = ((''pub '' @ topic) @ kCRLF) @ us \<and> us @ z = cont @ kCRLF")
      case True
      then obtain us where u: "content b = (''pub '' @ topic) @ kCRLF @ us" "us @ z = cont @ kCRLF" using us by auto
      have "search_at kCRLF us = None" by (rule no_line [OF ok(2) u(2) c(3)])
      with pub_line(1) [OF assms(1) u(1) ok(1)] show ?thesis by simp
    next
      case False
      with us have "content b @ us = (''pub '' @ topic) @ kCRLF" "us \<noteq> []" by blast+
      with no_line [of "''pub '' @ topic" "content b" us] ok none show ?thesis by simp
    qed
  qed
qed

text \<open>What a command does.\<close>

fun hub_command :: "nat \<Rightarrow> Timestamp \<Rightarrow> command \<Rightarrow> PubSubServer \<Rightarrow> PubSubServer option" where
  "hub_command conn time (Sub topic) h = doSubscribe conn topic h"
| "hub_command conn time (Unsub topic) h = doUnsubscribe conn topic h"
| "hub_command conn time (Pub topic cont) h = Some (doPublish topic cont time h)"

lemma hub_onMessage_command:
  assumes "parseMessage b = Some (kSuccess, fst (command_fields c), fst (snd (command_fields c)), snd (snd (command_fields c)), b')"
  shows "hub_onMessage conn time b h = Option.bind (hub_command conn time c h) (hub_onMessage conn time b')"
  using assms by (subst hub_onMessage.simps) (cases c; simp)

lemma hub_onMessage_commands:
  assumes "buf_ok b" and "content b = concat (map command_text cmds) @ r" and "\<And>c. c \<in> set cmds \<Longrightarrow> command_ok c" and "hub_waits r"
  shows "\<exists>b'. hub_onMessage conn time b h = map_option (Pair b') (put_all (hub_command conn time) cmds h) \<and> buf_ok b' \<and> content b' = r"
  using assms
proof (induction cmds arbitrary: b h)
  case Nil
  then obtain cmd topic where "parseMessage b = Some (kContinue, cmd, topic, [], b)" using parse_waits [of b] by auto
  then have "hub_onMessage conn time b h = Some (b, h)" by (subst hub_onMessage.simps) simp
  with Nil show ?case by auto
next
  case (Cons c cmds)
  then have "content b = command_text c @ concat (map command_text cmds) @ r" "command_ok c" by simp_all
  from parse_command [OF Cons.prems(1) this] obtain b1 where
    b1: "parseMessage b = Some (kSuccess, fst (command_fields c), fst (snd (command_fields c)), snd (snd (command_fields c)), b1)" "buf_ok b1"
      "content b1 = concat (map command_text cmds) @ r"
    by blast
  note step = hub_onMessage_command [OF b1(1), of conn time h]
  show ?case
  proof (cases "hub_command conn time c h")
    case None
    with step Cons.IH [OF b1(2,3), of h] Cons.prems show ?thesis by auto
  next
    case (Some h1)
    with step Cons.IH [OF b1(2,3), of h1] Cons.prems show ?thesis by auto
  qed
qed

text \<open>The client takes the publications.\<close>

lemma pc_onMessage_pubs:
  assumes "buf_ok b" and "content b = concat (map (\<lambda>(topic, cont). command_text (Pub topic cont)) pubs) @ r"
    and "\<And>topic cont. (topic, cont) \<in> set pubs \<Longrightarrow> command_ok (Pub topic cont)" and "hub_waits r" and "pc_callback p"
  shows "\<exists>b'. pc_onMessage b p = Some (b', p\<lparr>pc_got := pc_got p @ pubs\<rparr>) \<and> buf_ok b' \<and> content b' = r"
  using assms
proof (induction pubs arbitrary: b p)
  case Nil
  then obtain cmd topic where "parseMessage b = Some (kContinue, cmd, topic, [], b)" using parse_waits [of b] by auto
  then have "pc_onMessage b p = Some (b, p)" by (subst pc_onMessage.simps) simp
  with Nil show ?case by auto
next
  case (Cons pub pubs)
  obtain topic cont where tc: "pub = (topic, cont)" by (cases pub)
  with Cons.prems have "content b = command_text (Pub topic cont) @ concat (map (\<lambda>(topic, cont). command_text (Pub topic cont)) pubs) @ r" "command_ok (Pub topic cont)"
    by auto
  from parse_command [OF Cons.prems(1) this] obtain b1 where
    b1: "parseMessage b = Some (kSuccess, ''pub'', topic, cont, b1)" "buf_ok b1" "content b1 = concat (map (\<lambda>(topic, cont). command_text (Pub topic cont)) pubs) @ r"
    by auto
  have "pc_onMessage b p = pc_onMessage b1 (p\<lparr>pc_got := pc_got p @ [pub]\<rparr>)" using b1(1) Cons.prems(5) tc by (subst pc_onMessage.simps) simp
  with Cons.IH [OF b1(2,3) _ Cons.prems(4), of "p\<lparr>pc_got := pc_got p @ [pub]\<rparr>"] Cons.prems(3,5) show ?case by auto
qed

section \<open>The hub as a relation\<close>

text \<open>The contract of a hub: who subscribes to what, the last publication of every topic, who can be sent to, and what was sent.\<close>

record PubSub =
  ps_subs :: "(nat \<times> string) set"
  ps_last :: "string \<rightharpoonup> string"
  ps_up :: "nat set"
  ps_out :: "nat \<Rightarrow> string list"

definition ps_send :: "(nat \<Rightarrow> bool) \<Rightarrow> string \<Rightarrow> PubSub \<Rightarrow> PubSub" where
  "ps_send to message s = s\<lparr>ps_out := (\<lambda>c. if to c \<and> c \<in> ps_up s then ps_out s c @ [message] else ps_out s c)\<rparr>"

definition ps_publish :: "string \<Rightarrow> string \<Rightarrow> PubSub \<Rightarrow> PubSub" where
  "ps_publish topic m s = ps_send (\<lambda>d. (d, topic) \<in> ps_subs s) (command_text (Pub topic m)) (s\<lparr>ps_last := (ps_last s)(topic \<mapsto> m)\<rparr>)"

definition ps_subscribe :: "nat \<Rightarrow> string \<Rightarrow> PubSub \<Rightarrow> PubSub" where
  "ps_subscribe c topic s =
     (let s = s\<lparr>ps_subs := insert (c, topic) (ps_subs s)\<rparr>
      in case ps_last s topic of Some m \<Rightarrow> ps_send (\<lambda>d. d = c) (command_text (Pub topic m)) s | None \<Rightarrow> s)"

datatype hub_op = HubUp nat | HubDown nat | HubCommand nat Timestamp command | HubReject nat | HubTime Timestamp

fun ps_exec :: "hub_op \<Rightarrow> PubSub \<Rightarrow> PubSub" where
  "ps_exec (HubUp c) s = s\<lparr>ps_up := insert c (ps_up s)\<rparr>"
| "ps_exec (HubDown c) s = s\<lparr>ps_up := ps_up s - {c}, ps_subs := {(d, t) \<in> ps_subs s. d \<noteq> c}\<rparr>"
| "ps_exec (HubCommand c time (Sub topic)) s = ps_subscribe c topic s"
| "ps_exec (HubCommand c time (Unsub topic)) s = s\<lparr>ps_subs := ps_subs s - {(c, topic)}\<rparr>"
| "ps_exec (HubCommand c time (Pub topic m)) s = ps_publish topic m s"
| "ps_exec (HubReject c) s = s\<lparr>ps_up := ps_up s - {c}\<rparr>"
| "ps_exec (HubTime time) s = ps_publish ''utc_time'' (toFormattedString time True) s"

text \<open>The operations of the server. The TCP server reports a connection, hands over what it receives, and reports once that it is closed.\<close>

fun hub_exec :: "hub_op \<Rightarrow> PubSubServer \<Rightarrow> PubSubServer option" where
  "hub_exec (HubUp c) h = hub_onConnection c (h\<lparr>h_connections := insert c (h_connections h), h_connected := insert c (h_connected h)\<rparr>)"
| "hub_exec (HubDown c) h = hub_onConnection c (h\<lparr>h_connections := h_connections h - {c}, h_connected := h_connected h - {c}\<rparr>)"
| "hub_exec (HubCommand c time cmd) h = hub_command c time cmd h"
| "hub_exec (HubReject c) h = Some (conn_shutdown c h)"
| "hub_exec (HubTime time) h = Some (timePublish time h)"

fun hub_allowed :: "hub_op \<Rightarrow> PubSubServer \<Rightarrow> bool" where
  "hub_allowed (HubUp c) h \<longleftrightarrow> c \<notin> h_connections h"
| "hub_allowed (HubDown c) h \<longleftrightarrow> c \<in> h_connections h"
| "hub_allowed (HubCommand c time cmd) h \<longleftrightarrow> c \<in> h_connections h \<and> Timestamp_valid time"
| "hub_allowed (HubReject c) h \<longleftrightarrow> c \<in> h_connections h"
| "hub_allowed (HubTime time) h \<longleftrightarrow> Timestamp_valid time"

inductive hub_reach :: "PubSubServer \<Rightarrow> bool" where
  hub_start: "hub_reach new_PubSubServer"
| hub_step: "hub_reach h \<Longrightarrow> hub_allowed op h \<Longrightarrow> hub_exec op h = Some h' \<Longrightarrow> hub_reach h'"

definition audience :: "string \<Rightarrow> PubSubServer \<Rightarrow> nat set" where
  "audience topic h = (case h_topics h topic of Some t \<Rightarrow> t_audiences t | None \<Rightarrow> {})"

definition subscriptions :: "nat \<Rightarrow> PubSubServer \<Rightarrow> string set" where
  "subscriptions c h = (case h_context h c of Some ts \<Rightarrow> set ts | None \<Rightarrow> {})"

definition hub_abs :: "PubSubServer \<Rightarrow> PubSub" where
  "hub_abs h = \<lparr>ps_subs = {(c, topic). c \<in> audience topic h},
     ps_last = (\<lambda>topic. case h_topics h topic of Some t \<Rightarrow> if Timestamp_valid (t_lastPubTime t) then Some (t_content t) else None | None \<Rightarrow> None),
     ps_up = h_connected h, ps_out = h_sent h\<rparr>"

text \<open>Topics have their names, and the audiences and the contexts of the connections say the same.\<close>

definition hub_agree :: "PubSubServer \<Rightarrow> bool" where
  "hub_agree h \<longleftrightarrow>
     (\<forall>topic t. h_topics h topic = Some t \<longrightarrow> t_topic t = topic)
     \<and> (\<forall>c topic. c \<in> audience topic h \<longleftrightarrow> topic \<in> subscriptions c h)
     \<and> (\<forall>c ts. h_context h c = Some ts \<longrightarrow> distinct ts)"

definition hub_ok :: "PubSubServer \<Rightarrow> bool" where
  "hub_ok h \<longleftrightarrow> hub_agree h
     \<and> (\<forall>c. c \<in> h_connections h \<longrightarrow> h_context h c \<noteq> None) \<and> (\<forall>c. c \<notin> h_connections h \<longrightarrow> subscriptions c h = {})
     \<and> h_connected h \<subseteq> h_connections h"

lemma new_invalid [simp]: "\<not> Timestamp_valid Timestamp_invalid"
  by (simp add: Timestamp_valid_def Timestamp_invalid_def)

text \<open>A new topic changes nothing that can be observed.\<close>

lemma getTopic_eq:
  assumes "getTopic topic h = (t, h')" and "\<forall>topic t. h_topics h topic = Some t \<longrightarrow> t_topic t = topic"
  shows "h' = h\<lparr>h_topics := (h_topics h)(topic \<mapsto> t)\<rparr>" and "t_topic t = topic" and "t_audiences t = audience topic h"
    and "ps_last (hub_abs h) topic = (if Timestamp_valid (t_lastPubTime t) then Some (t_content t) else None)"
  using assms by (auto simp: getTopic_def audience_def hub_abs_def new_Topic_def fun_upd_idem split: option.splits)

lemma subscribe_effect:
  assumes ag: "hub_agree h" and c: "h_context h c = Some ts"
  shows "\<exists>h'. doSubscribe c topic h = Some h' \<and> hub_agree h' \<and> hub_abs h' = ps_subscribe c topic (hub_abs h)
    \<and> h_context h' = (h_context h)(c \<mapsto> List.insert topic ts) \<and> h_connections h' = h_connections h"
proof -
  let ?h = "h\<lparr>h_context := (h_context h)(c \<mapsto> List.insert topic ts)\<rparr>"
  obtain t h1 where g: "getTopic topic ?h = (t, h1)" by (cases "getTopic topic ?h")
  have "\<forall>topic t. h_topics ?h topic = Some t \<longrightarrow> t_topic t = topic" using ag by (simp add: hub_agree_def)
  note t = getTopic_eq [OF g this]
  let ?t = "t\<lparr>t_audiences := insert c (t_audiences t)\<rparr>"
  let ?h2 = "h1\<lparr>h_topics := (h_topics h1)(topic \<mapsto> ?t)\<rparr>"
  let ?h' = "if Timestamp_valid (t_lastPubTime t) then conn_send c (makeMessage ?t) ?h2 else ?h2"
  have a: "audience x ?h' = (if x = topic then insert c (audience x h) else audience x h)" for x
    using t by (auto simp: audience_def conn_send_def)
  have ctx: "h_context ?h' = (h_context h)(c \<mapsto> List.insert topic ts)" "h_connections ?h' = h_connections h" "h_connected ?h' = h_connected h"
    using t(1) by (auto simp: conn_send_def)
  have sub: "subscriptions d ?h' = (if d = c then insert topic (subscriptions d h) else subscriptions d h)" for d
    using c by (simp add: subscriptions_def ctx)
  have names: "h_topics ?h' = (h_topics h)(topic \<mapsto> ?t)" using t(1) by (auto simp: conn_send_def)
  have "hub_agree ?h'" using ag t(2) c unfolding hub_agree_def a sub ctx names by (auto simp: distinct_insert split: if_splits)
  moreover have "hub_abs ?h' = ps_subscribe c topic (hub_abs h)"
  proof -
    have last: "ps_last (hub_abs h) topic = (if Timestamp_valid (t_lastPubTime t) then Some (t_content t) else None)" using t(4) by (simp add: hub_abs_def)
    have out: "h_sent ?h' = (\<lambda>d. if d = c \<and> d \<in> h_connected h \<and> Timestamp_valid (t_lastPubTime t) then h_sent h d @ [command_text (Pub topic (t_content t))] else h_sent h d)"
      using t(1,2) by (auto simp: conn_send_def makeMessage_def)
    have "ps_last (hub_abs ?h') = ps_last (hub_abs h)" using last by (auto simp: hub_abs_def names)
    moreover have "ps_subs (hub_abs ?h') = insert (c, topic) (ps_subs (hub_abs h))" by (auto simp: hub_abs_def a)
    moreover have "ps_up (hub_abs ?h') = ps_up (hub_abs h)" "ps_out (hub_abs ?h') = h_sent ?h'" by (simp_all add: hub_abs_def ctx)
    ultimately show ?thesis using last unfolding out
      by (intro PubSub.equality) (auto simp: ps_subscribe_def ps_send_def hub_abs_def [of h] Let_def simp del: command_text.simps split: if_splits)
  qed
  moreover have "doSubscribe c topic h = Some ?h'" using c g by (simp add: doSubscribe_def Topic_add_def Let_def)
  ultimately show ?thesis using ctx by blast
qed

lemma unsubscribe_effect:
  assumes ag: "hub_agree h" and c: "h_context h c = Some ts"
  shows "\<exists>h'. doUnsubscribe c topic h = Some h' \<and> hub_agree h' \<and> hub_abs h' = (hub_abs h)\<lparr>ps_subs := ps_subs (hub_abs h) - {(c, topic)}\<rparr>
    \<and> h_context h' = (h_context h)(c \<mapsto> remove1 topic ts) \<and> h_connections h' = h_connections h"
proof -
  obtain t h1 where g: "getTopic topic h = (t, h1)" by (cases "getTopic topic h")
  have "\<forall>topic t. h_topics h topic = Some t \<longrightarrow> t_topic t = topic" using ag by (simp add: hub_agree_def)
  note t = getTopic_eq [OF g this]
  let ?t = "t\<lparr>t_audiences := t_audiences t - {c}\<rparr>"
  let ?h' = "h\<lparr>h_topics := (h_topics h)(topic \<mapsto> ?t), h_context := (h_context h)(c \<mapsto> remove1 topic ts)\<rparr>"
  have a: "audience x ?h' = (if x = topic then audience x h - {c} else audience x h)" for x
    using t by (auto simp: audience_def)
  have d: "distinct ts" using ag c by (auto simp: hub_agree_def)
  have sub: "subscriptions d ?h' = (if d = c then subscriptions d h - {topic} else subscriptions d h)" for d
    using c d by (simp add: subscriptions_def)
  have "hub_agree ?h'" using ag t(2) d unfolding hub_agree_def a sub by (auto split: if_splits)
  moreover have "ps_last (hub_abs ?h') = ps_last (hub_abs h)" using t(4) by (auto simp: hub_abs_def)
  then have "hub_abs ?h' = (hub_abs h)\<lparr>ps_subs := ps_subs (hub_abs h) - {(c, topic)}\<rparr>"
    by (intro PubSub.equality) (auto simp: hub_abs_def a split: if_splits)
  moreover have "doUnsubscribe c topic h = Some ?h'" using c g t(1) by (simp add: doUnsubscribe_def Topic_remove_def Let_def)
  ultimately show ?thesis by auto
qed

lemma unsubscribe_all:
  assumes "hub_agree h" and "h_context h c = Some ts"
  shows "\<exists>h'. put_all (doUnsubscribe c) ts h = Some h' \<and> hub_agree h' \<and> hub_abs h' = (hub_abs h)\<lparr>ps_subs := {(d, t) \<in> ps_subs (hub_abs h). d \<noteq> c}\<rparr>
    \<and> h_context h' = (h_context h)(c \<mapsto> []) \<and> h_connections h' = h_connections h"
  using assms
proof (induction ts arbitrary: h)
  case Nil
  have "d \<noteq> c" if "(d, t) \<in> ps_subs (hub_abs h)" for d t
    using Nil that by (auto simp: hub_agree_def hub_abs_def subscriptions_def)
  then have "{(d, t) \<in> ps_subs (hub_abs h). d \<noteq> c} = ps_subs (hub_abs h)" by auto
  with Nil show ?case by (auto simp: fun_upd_idem)
next
  case (Cons topic ts)
  from unsubscribe_effect [OF Cons.prems, of topic] obtain h1 where h1: "doUnsubscribe c topic h = Some h1" "hub_agree h1"
      "hub_abs h1 = (hub_abs h)\<lparr>ps_subs := ps_subs (hub_abs h) - {(c, topic)}\<rparr>" "h_context h1 = (h_context h)(c \<mapsto> ts)" "h_connections h1 = h_connections h"
    by auto
  have "{(d, t). (d, t) \<in> ps_subs (hub_abs h) - {(c, topic)} \<and> d \<noteq> c} = {(d, t). (d, t) \<in> ps_subs (hub_abs h) \<and> d \<noteq> c}" by auto
  moreover have "(h_context h)(c \<mapsto> ts, c \<mapsto> []) = (h_context h)(c \<mapsto> [])" by simp
  moreover have "h_context h1 c = Some ts" by (simp add: h1(4))
  ultimately show ?case using Cons.IH [OF h1(2)] h1 by (simp del: fun_upd_apply)
qed

lemma publish_effect:
  assumes ag: "hub_agree h" and "Timestamp_valid time"
  shows "hub_agree (doPublish topic m time h)" and "hub_abs (doPublish topic m time h) = ps_publish topic m (hub_abs h)"
    and "h_context (doPublish topic m time h) = h_context h" and "h_connections (doPublish topic m time h) = h_connections h"
proof -
  obtain t h1 where g: "getTopic topic h = (t, h1)" by (cases "getTopic topic h")
  have "\<forall>topic t. h_topics h topic = Some t \<longrightarrow> t_topic t = topic" using ag by (simp add: hub_agree_def)
  note t = getTopic_eq [OF g this]
  let ?t = "t\<lparr>t_content := m, t_lastPubTime := time\<rparr>"
  let ?h' = "h\<lparr>h_topics := (h_topics h)(topic \<mapsto> ?t),
      h_sent := (\<lambda>c. if c \<in> audience topic h \<and> c \<in> h_connected h then h_sent h c @ [command_text (Pub topic m)] else h_sent h c)\<rparr>"
  have e: "doPublish topic m time h = ?h'"
    using t(1-3) by (auto simp: doPublish_def g Topic_publish_def Let_def conn_send_def makeMessage_def fun_eq_iff)
  have a: "audience x ?h' = audience x h" for x using t(3) by (auto simp: audience_def)
  have sub: "subscriptions d ?h' = subscriptions d h" for d by (simp add: subscriptions_def)
  show "hub_agree (doPublish topic m time h)" using ag t(2) unfolding e hub_agree_def a sub by (auto split: if_splits)
  show "hub_abs (doPublish topic m time h) = ps_publish topic m (hub_abs h)"
    unfolding e ps_publish_def ps_send_def by (intro PubSub.equality) (use assms(2) in \<open>auto simp: hub_abs_def a simp del: command_text.simps\<close>)
  show "h_context (doPublish topic m time h) = h_context h" "h_connections (doPublish topic m time h) = h_connections h" unfolding e by simp_all
qed

lemma hub_ok_keep:
  assumes "hub_ok h" and "hub_agree h'" and "h_connections h' = h_connections h" and "h_connected h' = h_connected h"
    and "h_context h' = h_context h \<or> c \<in> h_connections h \<and> h_context h' = (h_context h)(c \<mapsto> ts)"
  shows "hub_ok h'"
proof -
  have "subscriptions d h' = subscriptions d h" if "d \<notin> h_connections h" for d using assms(5) that by (auto simp: subscriptions_def split: if_splits)
  with assms show ?thesis unfolding hub_ok_def by auto
qed

lemma hub_exec_ok:
  assumes ok: "hub_ok h" and al: "hub_allowed op h"
  shows "\<exists>h'. hub_exec op h = Some h' \<and> hub_ok h' \<and> hub_abs h' = ps_exec op (hub_abs h)"
proof -
  have ag: "hub_agree h" and ctx: "\<And>c. c \<in> h_connections h \<Longrightarrow> \<exists>ts. h_context h c = Some ts" using ok by (auto simp: hub_ok_def)
  show ?thesis
  proof (cases op)
    case (HubUp c)
    let ?h = "h\<lparr>h_connections := insert c (h_connections h), h_connected := insert c (h_connected h), h_context := (h_context h)(c \<mapsto> [])\<rparr>"
    have none: "subscriptions c h = {}" using ok al HubUp by (simp add: hub_ok_def)
    have s: "subscriptions d ?h = subscriptions d h" for d using none by (simp add: subscriptions_def)
    have a: "audience t ?h = audience t h" for t by (simp add: audience_def)
    have "hub_ok ?h" using ok unfolding hub_ok_def hub_agree_def s a by auto
    moreover have "hub_abs ?h = ps_exec op (hub_abs h)" by (simp add: HubUp hub_abs_def a)
    ultimately show ?thesis using HubUp by (simp add: hub_onConnection_def)
  next
    case (HubDown c)
    let ?h = "h\<lparr>h_connections := h_connections h - {c}, h_connected := h_connected h - {c}\<rparr>"
    from ctx al HubDown obtain ts where ts: "h_context h c = Some ts" by auto
    have "audience t ?h = audience t h" "subscriptions d ?h = subscriptions d h" for t d by (simp_all add: audience_def subscriptions_def)
    then have "hub_agree ?h" using ag by (simp add: hub_agree_def)
    from unsubscribe_all [OF this, of c ts] ts obtain h' where h': "put_all (doUnsubscribe c) ts ?h = Some h'" "hub_agree h'"
        "hub_abs h' = (hub_abs ?h)\<lparr>ps_subs := {(d, t) \<in> ps_subs (hub_abs ?h). d \<noteq> c}\<rparr>" "h_context h' = (h_context h)(c \<mapsto> [])" "h_connections h' = h_connections h - {c}"
      by auto
    have "h_connected h' = h_connected h - {c}" using arg_cong [OF h'(3), of ps_up] by (simp add: hub_abs_def)
    moreover have "subscriptions d h' = (if d = c then {} else subscriptions d h)" for d by (simp add: subscriptions_def h'(4))
    ultimately have "hub_ok h'" using ok h'(2) unfolding hub_ok_def h'(4,5) by auto
    moreover have "hub_abs h' = ps_exec op (hub_abs h)" unfolding h'(3) HubDown by (simp add: hub_abs_def audience_def)
    ultimately show ?thesis using HubDown ts h'(1) by (simp add: hub_onConnection_def)
  next
    case (HubCommand c time cmd)
    from ctx al HubCommand obtain ts where ts: "h_context h c = Some ts" and v: "Timestamp_valid time" and cc: "c \<in> h_connections h" by auto
    show ?thesis
    proof (cases cmd)
      case (Sub topic)
      from subscribe_effect [OF ag ts, of topic] obtain h' where h': "doSubscribe c topic h = Some h'" "hub_agree h'" "hub_abs h' = ps_subscribe c topic (hub_abs h)"
          "h_context h' = (h_context h)(c \<mapsto> List.insert topic ts)" "h_connections h' = h_connections h"
        by blast
      have "h_connected h' = h_connected h" using arg_cong [OF h'(3), of ps_up] by (simp add: hub_abs_def ps_subscribe_def ps_send_def Let_def split: option.splits)
      then have "hub_ok h'" using hub_ok_keep [OF ok h'(2,5)] cc h'(4) by blast
      then show ?thesis using h' HubCommand Sub by simp
    next
      case (Unsub topic)
      from unsubscribe_effect [OF ag ts, of topic] obtain h' where h': "doUnsubscribe c topic h = Some h'" "hub_agree h'"
          "hub_abs h' = (hub_abs h)\<lparr>ps_subs := ps_subs (hub_abs h) - {(c, topic)}\<rparr>"
          "h_context h' = (h_context h)(c \<mapsto> remove1 topic ts)" "h_connections h' = h_connections h"
        by blast
      have "h_connected h' = h_connected h" using arg_cong [OF h'(3), of ps_up] by (simp add: hub_abs_def)
      then have "hub_ok h'" using hub_ok_keep [OF ok h'(2,5)] cc h'(4) by blast
      then show ?thesis using h' HubCommand Unsub by simp
    next
      case (Pub topic m)
      note p = publish_effect [OF ag v, of topic m]
      have "h_connected (doPublish topic m time h) = h_connected h" using arg_cong [OF p(2), of ps_up] by (simp add: hub_abs_def ps_publish_def ps_send_def)
      then have "hub_ok (doPublish topic m time h)" using hub_ok_keep [OF ok p(1,4)] p(3) by blast
      then show ?thesis using p HubCommand Pub by simp
    qed
  next
    case (HubReject c)
    have "audience t (conn_shutdown c h) = audience t h" "subscriptions d (conn_shutdown c h) = subscriptions d h" for t d by (simp_all add: audience_def subscriptions_def conn_shutdown_def)
    then show ?thesis using ok HubReject by (auto simp: hub_ok_def hub_agree_def hub_abs_def conn_shutdown_def)
  next
    case (HubTime time)
    then have v: "Timestamp_valid time" using al by simp
    note p = publish_effect [OF ag v, of "''utc_time''" "toFormattedString time True"]
    have "h_connected (timePublish time h) = h_connected h" using arg_cong [OF p(2), of ps_up] by (simp add: hub_abs_def ps_publish_def ps_send_def timePublish_def)
    then have "hub_ok (timePublish time h)" unfolding timePublish_def using hub_ok_keep [OF ok p(1,4)] p(3) by blast
    then show ?thesis using p HubTime by (simp add: timePublish_def)
  qed
qed

lemma hub_reach_ok: "hub_reach h \<Longrightarrow> hub_ok h"
proof (induction rule: hub_reach.induct)
  case hub_start
  show ?case by (simp add: hub_ok_def hub_agree_def audience_def subscriptions_def new_PubSubServer_def)
next
  case (hub_step h op h')
  with hub_exec_ok [of h op] show ?case by auto
qed

section \<open>Properties\<close>

text \<open>C31: the hub implements publish/subscribe: in every reachable state every operation of the protocol succeeds and does what the contract says; in particular a publication
  reaches exactly the subscribers that can be sent to, a new subscriber gets the last publication of its topic, and a connection that went away is in no audience.\<close>

theorem hub_refines:
  assumes "hub_reach h" and "hub_allowed op h"
  shows "\<exists>h'. hub_exec op h = Some h' \<and> hub_abs h' = ps_exec op (hub_abs h) \<and> (c \<in> audience topic h' \<longleftrightarrow> topic \<in> subscriptions c h')
    \<and> (c \<notin> h_connections h' \<longrightarrow> c \<notin> audience topic h')"
  using hub_exec_ok [OF hub_reach_ok [OF assms(1)] assms(2)] unfolding hub_ok_def hub_agree_def by blast

definition hub_checked :: "hub_op \<Rightarrow> PubSubServer \<Rightarrow> PubSubServer option" where
  "hub_checked op h = (if hub_allowed op h then hub_exec op h else None)"

lemma hub_checked_reach: "put_all hub_checked ops h = Some h' \<Longrightarrow> hub_reach h \<Longrightarrow> hub_reach h'"
  by (induction ops arbitrary: h) (auto simp: hub_checked_def abort_elims intro: hub_step split: if_splits)

definition ex_hub_ops :: "hub_op list" where
  "ex_hub_ops = [HubUp 1, HubUp 2, HubCommand 1 (Timestamp 5) (Sub ''a'')]"

definition ex_hub :: PubSubServer where
  "ex_hub = the (put_all hub_checked ex_hub_ops new_PubSubServer)"

lemmas hub_eval = ex_hub_ops_def hub_checked_def new_PubSubServer_def hub_onConnection_def doSubscribe_def getTopic_def Topic_add_def new_Topic_def Timestamp_valid_def
  Timestamp_invalid_def Let_def

lemma ex_hub_run: "put_all hub_checked ex_hub_ops new_PubSubServer = Some ex_hub"
  unfolding ex_hub_def by (simp add: hub_eval)

lemma ex_hub_reach: "hub_reach ex_hub"
  by (rule hub_checked_reach [OF ex_hub_run hub_start])

lemma ex_hub_allowed: "hub_allowed (HubCommand 2 (Timestamp 6) (Pub ''a'' ''x'')) ex_hub"
  by (simp add: ex_hub_def hub_eval)

theorem hub_refines_witness:
  "\<exists>h'. hub_exec (HubCommand 2 (Timestamp 6) (Pub ''a'' ''x'')) ex_hub = Some h' \<and> h_sent h' 1 = [''pub a'' @ kCRLF @ ''x'' @ kCRLF] \<and> h_sent h' 2 = []"
proof -
  from hub_refines [OF ex_hub_reach ex_hub_allowed, of 1 "''a''"] obtain h' where h': "hub_exec (HubCommand 2 (Timestamp 6) (Pub ''a'' ''x'')) ex_hub = Some h'"
      "hub_abs h' = ps_publish ''a'' ''x'' (hub_abs ex_hub)"
    by auto
  have "h_sent h' = ps_out (ps_publish ''a'' ''x'' (hub_abs ex_hub))" using arg_cong [OF h'(2), of ps_out] by (simp add: hub_abs_def)
  then show ?thesis using h'(1) by (simp add: ps_publish_def ps_send_def hub_abs_def audience_def ex_hub_def hub_eval)
qed

text \<open>C32: the protocol of the hub survives the wire: however the stream is cut, the server executes the commands that have arrived completely, in order and exactly once, and
  keeps the bytes of an incomplete one (topics and texts hold no carriage return); the client in turn hands every publication that has arrived to its callback, with the topic and the text that were published.\<close>

theorem hub_wire:
  assumes "buf_ok b" and "hub_waits r" and "\<forall>c \<in> set cmds. command_ok c" and "\<forall>(topic, m) \<in> set pubs. command_ok (Pub topic m)"
  shows "(content b = concat (map command_text cmds) @ r \<longrightarrow>
      (\<exists>b'. hub_onMessage conn time b h = map_option (Pair b') (put_all (hub_command conn time) cmds h) \<and> buf_ok b' \<and> content b' = r))
    \<and> (content b = concat (map (\<lambda>(topic, m). command_text (Pub topic m)) pubs) @ r \<and> pc_callback p \<longrightarrow>
      (\<exists>b'. pc_onMessage b p = Some (b', p\<lparr>pc_got := pc_got p @ pubs\<rparr>) \<and> buf_ok b' \<and> content b' = r))"
proof -
  have "\<And>topic m. (topic, m) \<in> set pubs \<Longrightarrow> command_ok (Pub topic m)" using assms(4) by blast
  with hub_onMessage_commands [OF assms(1) _ _ assms(2), of cmds conn time h] pc_onMessage_pubs [OF assms(1) _ _ assms(2), of pubs p] assms(3)
  show ?thesis by blast
qed

definition ex_hub_bytes :: string where
  "ex_hub_bytes = ''pub a'' @ kCRLF @ ''x'' @ kCRLF @ ''pub a'' @ kCRLF @ ''y''"

theorem hub_wire_witness:
  "\<exists>b b'. Buffer_append ex_hub_bytes ex_buf = Some b
     \<and> pc_onMessage b \<lparr>pc_connected = True, pc_callback = True, pc_sent = [], pc_got = []\<rparr> = Some (b', \<lparr>pc_connected = True, pc_callback = True, pc_sent = [], pc_got = [(''a'', ''x'')]\<rparr>)
     \<and> content b' = ''pub a'' @ kCRLF @ ''y''"
proof -
  let ?r = "''pub a'' @ kCRLF @ ''y''"
  have b0: "buf_ok ex_buf" "content ex_buf = []" by (simp_all add: ex_buf_def buf_ok_def buf_defs vec_max_def content_def)
  have "room ex_buf (length ex_hub_bytes)" by (simp add: ex_hub_bytes_def room_def ex_buf_def buf_defs vec_max_def kCRLF_def)
  from Buffer_append_ok [OF b0(1) this] obtain b where b: "Buffer_append ex_hub_bytes ex_buf = Some b" "buf_ok b" "content b = ex_hub_bytes" using b0(2) by auto
  have w: "hub_waits ?r" unfolding hub_waits_def by (intro exI [of _ "Pub ''a'' ''y''"] exI [of _ kCRLF]) (simp add: kCRLF_def)
  from hub_wire [OF b(2) w, of "[]" "[(''a'', ''x'')]" 1 "Timestamp 5" new_PubSubServer "\<lparr>pc_connected = True, pc_callback = True, pc_sent = [], pc_got = []\<rparr>"]
  show ?thesis using b(1,3) by (auto simp: ex_hub_bytes_def)
qed

end
