(* ===== verification/Memcache.thy ===== *)
theory Memcache
  imports Buffer
begin

text \<open>
  The storage of \<^verbatim>\<open>examples/memcached/server\<close>: \<^verbatim>\<open>Item.h\<close>, \<^verbatim>\<open>Item.cc\<close>, \<^verbatim>\<open>MemcacheServer.h\<close> and \<^verbatim>\<open>MemcacheServer.cc\<close>. The hash function of boost is an argument. An item holds the bytes it has
  received, its key first; \<^verbatim>\<open>receivedBytes_\<close> is their number. A shard is the map from the keys of its items to the items: the table of boost compares keys. Every operation runs under the mutex of one shard and is one step.
\<close>

section \<open>Items\<close>

datatype UpdatePolicy = kInvalidPolicy | kSet | kAdd | kReplace | kAppend | kPrepend | kCas

record Item =
  it_keylen :: nat
  it_flags :: "32 word"
  it_rel_exptime :: int
  it_valuelen :: nat
  it_data :: string
  it_cas :: "64 word"
  it_hash :: nat

definition it_key :: "Item \<Rightarrow> string" where
  "it_key i = take (it_keylen i) (it_data i)"

definition it_value :: "Item \<Rightarrow> string" where
  "it_value i = take (it_valuelen i) (drop (it_keylen i) (it_data i))"

definition totalLen :: "Item \<Rightarrow> nat" where
  "totalLen i = it_keylen i + it_valuelen i"

definition neededBytes :: "Item \<Rightarrow> nat" where
  "neededBytes i = totalLen i - length (it_data i)"

definition Item_append :: "string \<Rightarrow> Item \<Rightarrow> Item option" where
  "Item_append bytes i = do {
     assert_that (length bytes \<le> neededBytes i);
     let i = i\<lparr>it_data := it_data i @ bytes\<rparr>;
     assert_that (length (it_data i) \<le> totalLen i);
     Some i
   }"

definition setCas :: "64 word \<Rightarrow> Item \<Rightarrow> Item" where
  "setCas cas i = i\<lparr>it_cas := cas\<rparr>"

text \<open>\<open>valuelen\<close> is an \<^verbatim>\<open>int\<close> of the caller, and so is the sum of the lengths, which wraps around.\<close>

definition makeItem :: "(string \<Rightarrow> nat) \<Rightarrow> string \<Rightarrow> 32 word \<Rightarrow> int \<Rightarrow> int \<Rightarrow> 64 word \<Rightarrow> Item option" where
  "makeItem hash key flags exptime valuelen cas = do {
     assert_that (valuelen \<ge> 2);
     let i = \<lparr>it_keylen = length key, it_flags = flags, it_rel_exptime = exptime, it_valuelen = nat valuelen, it_data = [], it_cas = cas, it_hash = hash key\<rparr>;
     assert_that (0 < sint (of_int (int (totalLen i)) :: 32 word));
     Item_append key i
   }"

definition endsWithCRLF :: "Item \<Rightarrow> bool" where
  "endsWithCRLF i \<longleftrightarrow> length (it_data i) = totalLen i \<and> it_data i ! (totalLen i - 2) = CHR 0x0D \<and> it_data i ! (totalLen i - 1) = CHR 0x0A"

text \<open>The text that \<^verbatim>\<open>output\<close> appends to the buffer; numbers are printed by \<^verbatim>\<open>LogStream\<close>.\<close>

definition Item_output :: "bool \<Rightarrow> Item \<Rightarrow> string" where
  "Item_output needCas i =
     ''VALUE '' @ it_key i @ '' '' @ dec_int (uint (it_flags i)) @ '' '' @ dec_int (int (it_valuelen i) - 2)
       @ (if needCas then '' '' @ dec_int (uint (it_cas i)) else []) @ kCRLF @ it_value i"

definition resetKey :: "(string \<Rightarrow> nat) \<Rightarrow> string \<Rightarrow> Item \<Rightarrow> Item option" where
  "resetKey hash k i = do {
     assert_that (length k \<le> 250);
     let i = i\<lparr>it_keylen := length k, it_data := []\<rparr>;
     i \<leftarrow> Item_append k i;
     Some (i\<lparr>it_hash := hash k\<rparr>)
   }"

section \<open>The server\<close>

definition kShards :: nat where
  "kShards = 4096"

record MemcacheServer =
  mc_startTime :: int
  mc_shards :: "nat \<Rightarrow> string \<rightharpoonup> Item"
  mc_g_cas :: "64 word"
  mc_stopped :: bool

text \<open>\<open>now\<close> is \<^verbatim>\<open>time(NULL)\<close>.\<close>

definition new_MemcacheServer :: "int \<Rightarrow> MemcacheServer" where
  "new_MemcacheServer now = \<lparr>mc_startTime = now - 1, mc_shards = (\<lambda>s. Map.empty), mc_g_cas = 0, mc_stopped = False\<rparr>"

definition mc_stop :: "MemcacheServer \<Rightarrow> MemcacheServer" where
  "mc_stop s = s\<lparr>mc_stopped := True\<rparr>"

definition incrementAndGet_cas :: "MemcacheServer \<Rightarrow> 64 word \<times> MemcacheServer" where
  "incrementAndGet_cas s = (mc_g_cas s + 1, s\<lparr>mc_g_cas := mc_g_cas s + 1\<rparr>)"

definition set_shard :: "nat \<Rightarrow> (string \<rightharpoonup> Item) \<Rightarrow> MemcacheServer \<Rightarrow> MemcacheServer" where
  "set_shard n items s = s\<lparr>mc_shards := (mc_shards s)(n := items)\<rparr>"

text \<open>\<^verbatim>\<open>erase\<close>, then \<^verbatim>\<open>insert\<close> of an item with the same key.\<close>

definition put_item_in :: "nat \<Rightarrow> Item \<Rightarrow> MemcacheServer \<Rightarrow> MemcacheServer" where
  "put_item_in n i s = set_shard n ((mc_shards s n)(it_key i \<mapsto> i)) s"

text \<open>The result: stored or not, and whether there was an item. The new length of an appended value is cast to \<^verbatim>\<open>int\<close>.\<close>

definition storeItem :: "Item \<Rightarrow> UpdatePolicy \<Rightarrow> (string \<Rightarrow> nat) \<Rightarrow> MemcacheServer \<Rightarrow> (bool \<times> bool \<times> MemcacheServer) option" where
  "storeItem item policy hash s = do {
     assert_that (neededBytes item = 0);
     let n = it_hash item mod kShards;
     let it = mc_shards s n (it_key item);
     let exists = (it \<noteq> None);
     let fresh = (let (c, s) = incrementAndGet_cas s in put_item_in n (setCas c item) s);
     (case policy of
        kSet \<Rightarrow> Some (True, exists, fresh)
      | kAdd \<Rightarrow> Some (if exists then (False, exists, s) else (True, exists, fresh))
      | kReplace \<Rightarrow> Some (if exists then (True, exists, fresh) else (False, exists, s))
      | kCas \<Rightarrow> Some (if exists \<and> it_cas (the it) = it_cas item then (True, exists, fresh) else (False, exists, s))
      | kInvalidPolicy \<Rightarrow> None
      | _ \<Rightarrow>
          (case it of
             None \<Rightarrow> Some (False, exists, s)
           | Some oldItem \<Rightarrow> do {
               let newLen = sint (of_nat (it_valuelen item + it_valuelen oldItem - 2) :: 32 word);
               let (c, s) = incrementAndGet_cas s;
               newItem \<leftarrow> makeItem hash (it_key item) (it_flags oldItem) (it_rel_exptime oldItem) newLen c;
               newItem \<leftarrow>
                 (if policy = kAppend
                  then Option.bind (Item_append (take (it_valuelen oldItem - 2) (it_value oldItem)) newItem) (Item_append (it_value item))
                  else Option.bind (Item_append (take (it_valuelen item - 2) (it_value item)) newItem) (Item_append (it_value oldItem)));
               assert_that (neededBytes newItem = 0);
               assert_that (endsWithCRLF newItem);
               Some (True, exists, put_item_in n newItem s)
             }))
   }"

definition getItem :: "Item \<Rightarrow> MemcacheServer \<Rightarrow> Item option" where
  "getItem key s = mc_shards s (it_hash key mod kShards) (it_key key)"

definition deleteItem :: "Item \<Rightarrow> MemcacheServer \<Rightarrow> bool \<times> MemcacheServer" where
  "deleteItem key s =
     (let n = it_hash key mod kShards
      in (mc_shards s n (it_key key) \<noteq> None, set_shard n ((mc_shards s n)(it_key key := None)) s))"

section \<open>Well-formed items\<close>

definition item_ok :: "(string \<Rightarrow> nat) \<Rightarrow> Item \<Rightarrow> bool" where
  "item_ok hash i \<longleftrightarrow> length (it_data i) = totalLen i \<and> 2 \<le> it_valuelen i \<and> endsWithCRLF i \<and> it_hash i = hash (it_key i)"

text \<open>The text of an item is its value without the line end.\<close>

definition it_text :: "Item \<Rightarrow> string" where
  "it_text i = take (it_valuelen i - 2) (it_value i)"

lemma length_key: "item_ok hash i \<Longrightarrow> length (it_key i) = it_keylen i"
  by (simp add: item_ok_def it_key_def totalLen_def)

lemma item_value:
  assumes "item_ok hash i"
  shows "it_data i = it_key i @ it_text i @ kCRLF" and "it_value i = it_text i @ kCRLF" and "length (it_text i) + 2 = it_valuelen i"
proof -
  let ?v = "drop (it_keylen i) (it_data i)"
  have l: "length ?v = it_valuelen i" "2 \<le> it_valuelen i" using assms by (simp_all add: item_ok_def totalLen_def)
  have v: "it_value i = ?v" using l(1) by (simp add: it_value_def)
  have n: "?v ! (it_valuelen i - 2) = CHR 0x0D" "?v ! (it_valuelen i - 1) = CHR 0x0A"
    using assms l by (simp_all add: item_ok_def endsWithCRLF_def totalLen_def)
  have "drop (it_valuelen i - 2) ?v = kCRLF"
  proof (rule nth_equalityI)
    show "length (drop (it_valuelen i - 2) ?v) = length kCRLF" using l by (simp add: kCRLF_def)
    fix j assume "j < length (drop (it_valuelen i - 2) ?v)"
    then have "j = 0 \<or> j = 1" using l by auto
    moreover have "drop (it_valuelen i - 2) ?v ! j = ?v ! (it_valuelen i - 2 + j)" by (rule nth_drop) (use l in auto)
    moreover have "it_valuelen i - 2 + 1 = it_valuelen i - 1" using l by simp
    ultimately show "drop (it_valuelen i - 2) ?v ! j = kCRLF ! j" using n by (auto simp: kCRLF_def)
  qed
  then show val: "it_value i = it_text i @ kCRLF" unfolding it_text_def v by (metis append_take_drop_id)
  show "it_data i = it_key i @ it_text i @ kCRLF" using val unfolding v it_key_def by (metis append_take_drop_id)
  show "length (it_text i) + 2 = it_valuelen i" using l by (simp add: it_text_def v)
qed

lemma item_okI:
  assumes "it_data i = key @ body @ kCRLF" and "it_keylen i = length key" and "it_valuelen i = length body + 2" and "it_hash i = hash key"
  shows "item_ok hash i" and "it_key i = key" and "it_text i = body"
proof -
  have d: "it_data i ! (length key + length body) = CHR 0x0D" "it_data i ! Suc (length key + length body) = CHR 0x0A"
    unfolding assms(1) by (simp_all add: nth_append kCRLF_def)
  show k: "it_key i = key" by (simp add: it_key_def assms)
  show "item_ok hash i" using d by (simp add: item_ok_def endsWithCRLF_def totalLen_def assms k kCRLF_def)
  show "it_text i = body" by (simp add: it_text_def it_value_def assms)
qed

lemma makeItem_ok:
  assumes "2 \<le> n" and "int (length key) + n < 2 ^ 31"
  shows "makeItem hash key flags exptime n cas =
    Some \<lparr>it_keylen = length key, it_flags = flags, it_rel_exptime = exptime, it_valuelen = nat n, it_data = key, it_cas = cas, it_hash = hash key\<rparr>"
proof -
  have "sint (of_int (int (length key + nat n)) :: 32 word) = int (length key) + n" using assms by (simp del: of_int_of_nat_eq of_int_add of_nat_add add: signed_of_int signed_take_bit_int_eq_self)
  then show ?thesis using assms by (simp del: of_int_of_nat_eq of_int_add of_nat_add add: makeItem_def Item_append_def neededBytes_def totalLen_def Let_def)
qed

lemma makeItem_short: "n < 2 \<Longrightarrow> makeItem hash key flags exptime n cas = None"
  by (simp add: makeItem_def)

lemma append_two:
  assumes "length (it_data i) = it_keylen i" and "length x + length y = it_valuelen i"
  shows "Item_append x i = Some (i\<lparr>it_data := it_data i @ x\<rparr>)" and "Item_append y (i\<lparr>it_data := it_data i @ x\<rparr>) = Some (i\<lparr>it_data := it_data i @ x @ y\<rparr>)"
  using assms by (simp_all add: Item_append_def neededBytes_def totalLen_def Let_def)

section \<open>The table as a map\<close>

record Entry =
  e_flags :: "32 word"
  e_exptime :: int
  e_text :: string
  e_cas :: "64 word"

definition entry :: "Item \<Rightarrow> Entry" where
  "entry i = \<lparr>e_flags = it_flags i, e_exptime = it_rel_exptime i, e_text = it_text i, e_cas = it_cas i\<rparr>"

type_synonym cache = "string \<rightharpoonup> Entry"

text \<open>What an update has to do: the answer, and the new map. \<open>c\<close> is the next version number.\<close>

fun cache_store :: "UpdatePolicy \<Rightarrow> string \<Rightarrow> Entry \<Rightarrow> 64 word \<Rightarrow> cache \<Rightarrow> bool \<times> cache" where
  "cache_store kSet key e c m = (True, m(key \<mapsto> e\<lparr>e_cas := c\<rparr>))"
| "cache_store kAdd key e c m = (if m key = None then (True, m(key \<mapsto> e\<lparr>e_cas := c\<rparr>)) else (False, m))"
| "cache_store kReplace key e c m = (if m key = None then (False, m) else (True, m(key \<mapsto> e\<lparr>e_cas := c\<rparr>)))"
| "cache_store kAppend key e c m = (case m key of None \<Rightarrow> (False, m) | Some old \<Rightarrow> (True, m(key \<mapsto> old\<lparr>e_text := e_text old @ e_text e, e_cas := c\<rparr>)))"
| "cache_store kPrepend key e c m = (case m key of None \<Rightarrow> (False, m) | Some old \<Rightarrow> (True, m(key \<mapsto> old\<lparr>e_text := e_text e @ e_text old, e_cas := c\<rparr>)))"
| "cache_store kCas key e c m = (case m key of None \<Rightarrow> (False, m) | Some old \<Rightarrow> if e_cas old = e_cas e then (True, m(key \<mapsto> e\<lparr>e_cas := c\<rparr>)) else (False, m))"
| "cache_store kInvalidPolicy key e c m = (False, m)"

definition mc_abs :: "(string \<Rightarrow> nat) \<Rightarrow> MemcacheServer \<Rightarrow> cache" where
  "mc_abs hash s key = map_option entry (mc_shards s (hash key mod kShards) key)"

text \<open>Every item is in the shard of its key, and has a version number that was given out.\<close>

definition mc_ok :: "(string \<Rightarrow> nat) \<Rightarrow> MemcacheServer \<Rightarrow> bool" where
  "mc_ok hash s \<longleftrightarrow> (\<forall>n key i. mc_shards s n key = Some i \<longrightarrow> n = hash key mod kShards \<and> it_key i = key \<and> item_ok hash i \<and> unat (it_cas i) \<le> unat (mc_g_cas s))"

lemma mc_ok_put:
  assumes "mc_ok hash s" and "item_ok hash i" and "it_cas i = mc_g_cas s + 1" and "unat (mc_g_cas s) < 2 ^ 64 - 1"
  defines "s' \<equiv> put_item_in (it_hash i mod kShards) i (s\<lparr>mc_g_cas := mc_g_cas s + 1\<rparr>)"
  shows "mc_ok hash s'" and "mc_abs hash s' = (mc_abs hash s)(it_key i \<mapsto> entry i)" and "unat (mc_g_cas s') = unat (mc_g_cas s) + 1"
proof -
  have u: "unat (mc_g_cas s + 1) = unat (mc_g_cas s) + 1" using of_nat_inverse [of "unat (mc_g_cas s) + 1" "mc_g_cas s + 1"] assms(4) by simp
  then show "unat (mc_g_cas s') = unat (mc_g_cas s) + 1" by (simp add: s'_def put_item_in_def set_shard_def)
  have h: "it_hash i = hash (it_key i)" using assms(2) by (simp add: item_ok_def)
  show "mc_ok hash s'" unfolding mc_ok_def
  proof (intro allI impI)
    fix n key j assume j: "mc_shards s' n key = Some j"
    show "n = hash key mod kShards \<and> it_key j = key \<and> item_ok hash j \<and> unat (it_cas j) \<le> unat (mc_g_cas s')"
    proof (cases "n = it_hash i mod kShards \<and> key = it_key i")
      case True
      with j have "j = i" by (auto simp: s'_def put_item_in_def set_shard_def)
      then show ?thesis using True assms(2,3) h by (simp add: s'_def put_item_in_def set_shard_def)
    next
      case False
      with j have "mc_shards s n key = Some j" by (auto simp: s'_def put_item_in_def set_shard_def split: if_splits)
      then have "n = hash key mod kShards \<and> it_key j = key \<and> item_ok hash j \<and> unat (it_cas j) \<le> unat (mc_g_cas s)" using assms(1) unfolding mc_ok_def by blast
      then show ?thesis using u by (auto simp: s'_def put_item_in_def set_shard_def)
    qed
  qed
  show "mc_abs hash s' = (mc_abs hash s)(it_key i \<mapsto> entry i)"
    by (rule ext) (auto simp: mc_abs_def s'_def put_item_in_def set_shard_def h)
qed

lemma setCas_ok:
  assumes "item_ok hash i"
  shows "item_ok hash (setCas c i)" "it_key (setCas c i) = it_key i" "it_hash (setCas c i) = it_hash i" "entry (setCas c i) = (entry i)\<lparr>e_cas := c\<rparr>" "it_cas (setCas c i) = c"
  using assms by (simp_all add: setCas_def item_ok_def totalLen_def endsWithCRLF_def it_key_def entry_def it_text_def it_value_def)

text \<open>The item that \<^verbatim>\<open>append\<close> and \<^verbatim>\<open>prepend\<close> make.\<close>

definition joined :: "string \<Rightarrow> Item \<Rightarrow> string \<Rightarrow> 64 word \<Rightarrow> (string \<Rightarrow> nat) \<Rightarrow> Item" where
  "joined key old body c hash = \<lparr>it_keylen = length key, it_flags = it_flags old, it_rel_exptime = it_rel_exptime old, it_valuelen = length body + 2,
     it_data = key @ body @ kCRLF, it_cas = c, it_hash = hash key\<rparr>"

lemma joined_ok:
  "item_ok hash (joined key old body c hash)" "it_key (joined key old body c hash) = key" "it_hash (joined key old body c hash) = hash key" "it_cas (joined key old body c hash) = c"
  "entry (joined key old body c hash) = (entry old)\<lparr>e_text := body, e_cas := c\<rparr>"
  using item_okI [of "joined key old body c hash" key body hash] by (simp_all add: joined_def entry_def)

lemma store_join:
  assumes item: "item_ok hash item" and old: "mc_shards s (it_hash item mod kShards) (it_key item) = Some old" "item_ok hash old"
    and size: "totalLen item + it_valuelen old < 2 ^ 31" and p: "policy = kAppend \<or> policy = kPrepend"
  defines "body \<equiv> (if policy = kAppend then it_text old @ it_text item else it_text item @ it_text old)"
  shows "storeItem item policy hash s =
    Some (True, True, put_item_in (it_hash item mod kShards) (joined (it_key item) old body (mc_g_cas s + 1) hash) (s\<lparr>mc_g_cas := mc_g_cas s + 1\<rparr>))"
proof -
  note iv = item_value [OF item] and ov = item_value [OF old(2)]
  let ?n = "it_valuelen item + it_valuelen old - 2"
  have n: "sint (of_nat ?n :: 32 word) = int ?n" using size by (simp add: totalLen_def signed_of_nat signed_take_bit_int_eq_self)
  have len: "?n = length body + 2" "2 \<le> int ?n" using iv(3) ov(3) by (auto simp: body_def)
  let ?new = "\<lparr>it_keylen = length (it_key item), it_flags = it_flags old, it_rel_exptime = it_rel_exptime old, it_valuelen = ?n, it_data = it_key item, it_cas = mc_g_cas s + 1, it_hash = hash (it_key item)\<rparr>"
  have mk: "makeItem hash (it_key item) (it_flags old) (it_rel_exptime old) (int ?n) (mc_g_cas s + 1) = Some ?new"
    using makeItem_ok [OF len(2), of "it_key item"] size length_key [OF item] iv(3) by (simp add: totalLen_def)
  let ?x = "if policy = kAppend then it_text old else it_text item" and ?y = "if policy = kAppend then it_value item else it_value old"
  have "length (it_data ?new) = it_keylen ?new" "length ?x + length ?y = it_valuelen ?new" using iv(2,3) ov(2,3) by (auto simp: kCRLF_def)
  note two = append_two [OF this]
  have j: "?new\<lparr>it_data := it_data ?new @ ?x @ ?y\<rparr> = joined (it_key item) old body (mc_g_cas s + 1) hash"
    using iv(2) ov(2) len(1) by (simp add: joined_def body_def)
  have "neededBytes item = 0" using item by (simp add: item_ok_def neededBytes_def)
  moreover have "neededBytes (joined (it_key item) old body (mc_g_cas s + 1) hash) = 0" "endsWithCRLF (joined (it_key item) old body (mc_g_cas s + 1) hash)"
    using joined_ok(1) [of hash "it_key item" old body "mc_g_cas s + 1"] by (simp_all add: item_ok_def neededBytes_def)
  ultimately show ?thesis using p old(1) mk two [unfolded j] n
    by (auto simp: storeItem_def incrementAndGet_cas_def it_text_def Let_def)
qed

lemma storeItem_refines:
  assumes ok: "mc_ok hash s" "item_ok hash item" and c: "unat (mc_g_cas s) < 2 ^ 64 - 1" and p: "policy \<noteq> kInvalidPolicy"
    and size: "\<And>e. mc_abs hash s (it_key item) = Some e \<Longrightarrow> totalLen item + length (e_text e) + 2 < 2 ^ 31"
  shows "\<exists>stored s'. storeItem item policy hash s = Some (stored, mc_abs hash s (it_key item) \<noteq> None, s') \<and> mc_ok hash s'
    \<and> cache_store policy (it_key item) (entry item) (mc_g_cas s + 1) (mc_abs hash s) = (stored, mc_abs hash s') \<and> (mc_g_cas s' = mc_g_cas s + 1 \<or> s' = s)
    \<and> mc_stopped s' = mc_stopped s \<and> mc_startTime s' = mc_startTime s"
proof -
  let ?n = "it_hash item mod kShards"
  let ?fresh = "put_item_in ?n (setCas (mc_g_cas s + 1) item) (s\<lparr>mc_g_cas := mc_g_cas s + 1\<rparr>)"
  note sc = setCas_ok [OF ok(2), of "mc_g_cas s + 1"]
  have h: "it_hash item = hash (it_key item)" using ok(2) by (simp add: item_ok_def)
  have need: "neededBytes item = 0" using ok(2) by (simp add: item_ok_def neededBytes_def)
  have abs: "mc_abs hash s (it_key item) = map_option entry (mc_shards s ?n (it_key item))" by (simp add: mc_abs_def h)
  have fresh: "mc_ok hash ?fresh" "mc_abs hash ?fresh = (mc_abs hash s)(it_key item \<mapsto> (entry item)\<lparr>e_cas := mc_g_cas s + 1\<rparr>)"
    using mc_ok_put [OF ok(1) sc(1) sc(5) c] sc(2-4) by simp_all
  have fields: "mc_g_cas (put_item_in n i (s\<lparr>mc_g_cas := x\<rparr>)) = x" "mc_stopped (put_item_in n i (s\<lparr>mc_g_cas := x\<rparr>)) = mc_stopped s"
      "mc_startTime (put_item_in n i (s\<lparr>mc_g_cas := x\<rparr>)) = mc_startTime s" for n i x
    by (simp_all add: put_item_in_def set_shard_def)
  show ?thesis
  proof (cases "(policy = kAppend \<or> policy = kPrepend) \<and> mc_shards s ?n (it_key item) \<noteq> None")
    case True
    then obtain old where old: "mc_shards s ?n (it_key item) = Some old" by blast
    then have o: "item_ok hash old" using ok(1) unfolding mc_ok_def by blast
    have "totalLen item + it_valuelen old < 2 ^ 31" using size [of "entry old"] abs old item_value(3) [OF o] by (simp add: entry_def)
    note j = store_join [OF ok(2) old o this, of policy]
    let ?body = "if policy = kAppend then it_text old @ it_text item else it_text item @ it_text old"
    note jo = joined_ok [where hash = hash and key = "it_key item" and old = old and body = "?body" and c = "mc_g_cas s + 1"]
    note put = mc_ok_put [OF ok(1) jo(1) jo(4) c]
    show ?thesis using True j put abs old h fields jo by (auto simp: entry_def)
  next
    case False
    then show ?thesis using p need abs fresh fields ok(1)
      by (cases policy; cases "mc_shards s ?n (it_key item)") (auto simp: storeItem_def incrementAndGet_cas_def Let_def entry_def)
  qed
qed

definition is_needle :: "(string \<Rightarrow> nat) \<Rightarrow> string \<Rightarrow> Item \<Rightarrow> bool" where
  "is_needle hash key i \<longleftrightarrow> it_key i = key \<and> it_hash i = hash key"

lemma resetKey_needle:
  assumes "length k \<le> 250"
  shows "\<exists>i'. resetKey hash k i = Some i' \<and> is_needle hash k i' \<and> it_valuelen i' = it_valuelen i"
  using assms by (simp add: resetKey_def Item_append_def neededBytes_def totalLen_def is_needle_def it_key_def Let_def)

lemma getItem_abs: "is_needle hash key i \<Longrightarrow> map_option entry (getItem i s) = mc_abs hash s key"
  by (simp add: is_needle_def getItem_def mc_abs_def)

lemma deleteItem_abs:
  assumes "is_needle hash key i" and "mc_ok hash s"
  shows "fst (deleteItem i s) \<longleftrightarrow> mc_abs hash s key \<noteq> None" and "mc_abs hash (snd (deleteItem i s)) = (mc_abs hash s)(key := None)"
    and "mc_ok hash (snd (deleteItem i s))" and "mc_g_cas (snd (deleteItem i s)) = mc_g_cas s" and "mc_stopped (snd (deleteItem i s)) = mc_stopped s"
  using assms by (auto simp: deleteItem_def is_needle_def mc_abs_def mc_ok_def set_shard_def Let_def fun_eq_iff split: if_splits)

section \<open>Versions\<close>

text \<open>A map whose entries carry version numbers, every change a new one: an entry is known by its key and its version.\<close>

locale versioned =
  fixes ok :: "'s \<Rightarrow> bool" and alpha :: "'s \<Rightarrow> cache" and ver :: "'s \<Rightarrow> nat" and step :: "'s \<Rightarrow> 's \<Rightarrow> bool"
  assumes step_ok: "ok s \<Longrightarrow> step s s' \<Longrightarrow> ok s'"
    and known: "ok s \<Longrightarrow> alpha s k = Some e \<Longrightarrow> unat (e_cas e) \<le> ver s"
    and grows: "ok s \<Longrightarrow> step s s' \<Longrightarrow> ver s \<le> ver s'"
    and fresh: "ok s \<Longrightarrow> step s s' \<Longrightarrow> alpha s' k = Some e \<Longrightarrow> alpha s k = Some e \<or> ver s < unat (e_cas e)"
begin

lemma steps_keep:
  assumes "step\<^sup>*\<^sup>* s t" and "ok s"
  shows "ok t \<and> ver s \<le> ver t \<and> (\<forall>k e. alpha t k = Some e \<longrightarrow> alpha s k = Some e \<or> ver s < unat (e_cas e))"
  using assms
proof (induction rule: rtranclp_induct)
  case base
  then show ?case by simp
next
  case (step t u)
  then have t: "ok t" "ver s \<le> ver t" by blast+
  have "alpha s k = Some e \<or> ver s < unat (e_cas e)" if "alpha u k = Some e" for k e
    using fresh [OF t(1) step.hyps(2) that] step.IH [OF step.prems] t(2) by (auto dest: le_less_trans)
  then show ?case using step_ok [OF t(1) step.hyps(2)] grows [OF t(1) step.hyps(2)] t(2) by (auto intro: order_trans)
qed

lemma version_identifies:
  assumes "step\<^sup>*\<^sup>* s t" and "ok s" and "alpha s k = Some e" and "alpha t k = Some e'" and "e_cas e' = e_cas e"
  shows "e' = e"
  using steps_keep [OF assms(1,2)] known [OF assms(2,3)] assms(3-5) by fastforce

end

text \<open>The operations of the sessions on the table, in any order.\<close>

inductive mc_step :: "(string \<Rightarrow> nat) \<Rightarrow> MemcacheServer \<Rightarrow> MemcacheServer \<Rightarrow> bool" for hash where
  step_store: "item_ok hash item \<Longrightarrow> policy \<noteq> kInvalidPolicy \<Longrightarrow> unat (mc_g_cas s) < 2 ^ 64 - 1
    \<Longrightarrow> (\<And>e. mc_abs hash s (it_key item) = Some e \<Longrightarrow> totalLen item + length (e_text e) + 2 < 2 ^ 31)
    \<Longrightarrow> storeItem item policy hash s = Some (stored, existed, s') \<Longrightarrow> mc_step hash s s'"
| step_delete: "is_needle hash key i \<Longrightarrow> mc_step hash s (snd (deleteItem i s))"

lemma cache_store_fresh:
  "snd (cache_store policy key e c m) k = Some e' \<Longrightarrow> m k = Some e' \<or> k = key \<and> e_cas e' = c"
  by (cases policy) (auto split: option.splits if_splits)

lemma mc_step_laws:
  assumes "mc_step hash s s'" and "mc_ok hash s"
  shows "mc_ok hash s' \<and> unat (mc_g_cas s) \<le> unat (mc_g_cas s') \<and> (\<forall>k e. mc_abs hash s' k = Some e \<longrightarrow> mc_abs hash s k = Some e \<or> unat (mc_g_cas s) < unat (e_cas e))"
  using assms(1)
proof cases
  case (step_store item policy stored existed)
  have u: "unat (mc_g_cas s + 1) = unat (mc_g_cas s) + 1" using of_nat_inverse [of "unat (mc_g_cas s) + 1" "mc_g_cas s + 1"] step_store(3) by simp
  from storeItem_refines [OF assms(2) step_store(1,3,2,4)] step_store(5)
  have r: "mc_ok hash s'" "cache_store policy (it_key item) (entry item) (mc_g_cas s + 1) (mc_abs hash s) = (stored, mc_abs hash s')" "mc_g_cas s' = mc_g_cas s + 1 \<or> s' = s"
    by auto
  have "mc_abs hash s k = Some e \<or> unat (mc_g_cas s) < unat (e_cas e)" if "mc_abs hash s' k = Some e" for k e
    using cache_store_fresh [of policy "it_key item" "entry item" "mc_g_cas s + 1" "mc_abs hash s" k e] r(2) that u by auto
  then show ?thesis using r(1,3) u by auto
next
  case (step_delete key i)
  then show ?thesis using deleteItem_abs [OF step_delete(2) assms(2)] by auto
qed

interpretation mc: versioned "mc_ok hash" "mc_abs hash" "\<lambda>s. unat (mc_g_cas s)" "mc_step hash" for hash
proof unfold_locales
  fix s k e assume "mc_ok hash s" "mc_abs hash s k = Some e"
  then show "unat (e_cas e) \<le> unat (mc_g_cas s)" by (auto simp: mc_ok_def mc_abs_def entry_def)
qed (use mc_step_laws in blast)+

section \<open>Properties\<close>

text \<open>C33: the sharded table of the memcached server is one map from keys to entries: every update, lookup and deletion answers and changes it as the policy says, whatever the hash
  function, and keeps the table in order. (The version counter must not wrap around, and no joined value may reach two gigabytes.)\<close>

theorem table_refines:
  assumes "mc_ok hash s" and "item_ok hash item" and "unat (mc_g_cas s) < 2 ^ 64 - 1" and "policy \<noteq> kInvalidPolicy"
    and "case mc_abs hash s (it_key item) of None \<Rightarrow> True | Some e \<Rightarrow> totalLen item + length (e_text e) + 2 < 2 ^ 31" and "is_needle hash key needle"
  shows "(\<exists>stored s'. storeItem item policy hash s = Some (stored, mc_abs hash s (it_key item) \<noteq> None, s') \<and> mc_ok hash s'
      \<and> cache_store policy (it_key item) (entry item) (mc_g_cas s + 1) (mc_abs hash s) = (stored, mc_abs hash s'))
    \<and> map_option entry (getItem needle s) = mc_abs hash s key
    \<and> (fst (deleteItem needle s) \<longleftrightarrow> mc_abs hash s key \<noteq> None) \<and> mc_abs hash (snd (deleteItem needle s)) = (mc_abs hash s)(key := None) \<and> mc_ok hash (snd (deleteItem needle s))"
proof -
  have "\<And>e. mc_abs hash s (it_key item) = Some e \<Longrightarrow> totalLen item + length (e_text e) + 2 < 2 ^ 31" using assms(5) by simp
  with storeItem_refines [OF assms(1-4)] getItem_abs [OF assms(6)] deleteItem_abs(1-3) [OF assms(6,1)] show ?thesis by blast
qed

text \<open>C34: a version number detects changes: after a client has read an entry with its version, an update with that version succeeds if and only if the entry is still
  there and unchanged, whatever other clients did meanwhile, even if they deleted the key and stored it again.\<close>

theorem cas_detects_changes:
  assumes "mc_ok hash s" and "mc_abs hash s (it_key item) = Some e" and "(mc_step hash)\<^sup>*\<^sup>* s t" and "item_ok hash item" and "it_cas item = e_cas e"
  shows "\<exists>t'. storeItem item kCas hash t = Some (mc_abs hash t (it_key item) = Some e, mc_abs hash t (it_key item) \<noteq> None, t')"
proof -
  have ok: "mc_ok hash t" using mc.steps_keep [OF assms(3,1)] by blast
  have h: "it_hash item = hash (it_key item)" "neededBytes item = 0" using assms(4) by (simp_all add: item_ok_def neededBytes_def)
  have "mc_abs hash t (it_key item) = Some e" if "mc_abs hash t (it_key item) = Some e'" "e_cas e' = e_cas e" for e'
    using mc.version_identifies [OF assms(3,1,2) that] that by simp
  then show ?thesis using h assms(5)
    by (cases "mc_shards t (hash (it_key item) mod kShards) (it_key item)") (auto simp: storeItem_def mc_abs_def Let_def entry_def)
qed

definition ex_item :: Item where
  "ex_item = \<lparr>it_keylen = 1, it_flags = 7, it_rel_exptime = 0, it_valuelen = 4, it_data = ''khi'' @ kCRLF, it_cas = 1, it_hash = 1\<rparr>"

definition ex_table :: MemcacheServer where
  "ex_table = new_MemcacheServer 100"

definition ex_table_set :: MemcacheServer where
  "ex_table_set = put_item_in 1 ex_item (ex_table\<lparr>mc_g_cas := 1\<rparr>)"

definition ex_table_again :: MemcacheServer where
  "ex_table_again = put_item_in 1 (setCas 2 ex_item) (ex_table_set\<lparr>mc_g_cas := 2\<rparr>)"

lemma ex_item_ok: "item_ok length ex_item" "it_key ex_item = ''k''" "it_text ex_item = ''hi''"
  using item_okI [of ex_item "''k''" "''hi''" length] by (simp_all add: ex_item_def)

lemma ex_store:
  "storeItem ex_item kSet length ex_table = Some (True, False, ex_table_set)"
  "storeItem ex_item kSet length ex_table_set = Some (True, True, ex_table_again)"
  by (simp_all add: storeItem_def neededBytes_def totalLen_def ex_item_def ex_table_def ex_table_set_def ex_table_again_def new_MemcacheServer_def incrementAndGet_cas_def setCas_def
      put_item_in_def set_shard_def it_key_def kShards_def kCRLF_def Let_def)

lemma ex_table_ok: "mc_ok hash ex_table" "mc_abs hash ex_table k = None"
  by (simp_all add: mc_ok_def mc_abs_def ex_table_def new_MemcacheServer_def)

lemma ex_set_abs: "mc_ok length ex_table_set" "mc_abs length ex_table_set ''k'' = Some (entry ex_item)"
proof -
  have "unat (mc_g_cas ex_table) < 2 ^ 64 - 1" by (simp add: ex_table_def new_MemcacheServer_def)
  from storeItem_refines [OF ex_table_ok(1) ex_item_ok(1) this, of kSet] ex_store(1) ex_table_ok(2)
  have "mc_ok length ex_table_set \<and> mc_abs length ex_table_set = (mc_abs length ex_table)(it_key ex_item \<mapsto> (entry ex_item)\<lparr>e_cas := mc_g_cas ex_table + 1\<rparr>)"
    by (auto simp del: fun_upd_apply)
  then show "mc_ok length ex_table_set" "mc_abs length ex_table_set ''k'' = Some (entry ex_item)"
    using ex_item_ok(2) by (simp_all add: entry_def ex_table_def new_MemcacheServer_def ex_item_def)
qed

lemma ex_sizes: "it_valuelen ex_item = 4" "it_cas ex_item = 1" "unat (mc_g_cas ex_table_set) < 2 ^ 64 - 1" "mc_g_cas ex_table_set = 1"
  by (simp_all add: ex_item_def ex_table_set_def put_item_in_def set_shard_def)

lemma ex_total: "totalLen ex_item = 5"
  by (simp add: totalLen_def ex_item_def)

lemma ex_set_small: "mc_abs length ex_table_set (it_key ex_item) = Some e \<Longrightarrow> totalLen ex_item + length (e_text e) + 2 < 2 ^ 31"
  using ex_set_abs(2) by (auto simp: ex_item_ok entry_def ex_total)

lemma ex_again_abs: "mc_abs length ex_table_again ''k'' = Some ((entry ex_item)\<lparr>e_cas := 2\<rparr>)"
proof -
  from storeItem_refines [OF ex_set_abs(1) ex_item_ok(1) ex_sizes(3) _ ex_set_small, of kSet] ex_store(2)
  have "mc_abs length ex_table_again = (mc_abs length ex_table_set)(it_key ex_item \<mapsto> (entry ex_item)\<lparr>e_cas := mc_g_cas ex_table_set + 1\<rparr>)"
    by (auto simp del: fun_upd_apply)
  then show ?thesis by (simp add: ex_item_ok ex_sizes)
qed

theorem table_refines_witness:
  "\<exists>s'. storeItem ex_item kAppend length ex_table_set = Some (True, True, s') \<and> map_option e_text (mc_abs length s' ''k'') = Some ''hihi''"
proof -
  have n: "is_needle length ''k'' ex_item" by (simp add: is_needle_def ex_item_ok) (simp add: ex_item_def)
  have "case mc_abs length ex_table_set (it_key ex_item) of None \<Rightarrow> True | Some e \<Rightarrow> totalLen ex_item + length (e_text e) + 2 < 2 ^ 31"
    using ex_set_small by (simp split: option.split)
  from table_refines [OF ex_set_abs(1) ex_item_ok(1) ex_sizes(3) _ this n, of kAppend] obtain stored s' where
    r: "storeItem ex_item kAppend length ex_table_set = Some (stored, mc_abs length ex_table_set (it_key ex_item) \<noteq> None, s')"
      "cache_store kAppend (it_key ex_item) (entry ex_item) (mc_g_cas ex_table_set + 1) (mc_abs length ex_table_set) = (stored, mc_abs length s')"
    by auto
  have "stored" "mc_abs length s' = (mc_abs length ex_table_set)(''k'' \<mapsto> (entry ex_item)\<lparr>e_text := ''hihi'', e_cas := mc_g_cas ex_table_set + 1\<rparr>)"
    using r(2) ex_set_abs(2) by (simp_all add: ex_item_ok) (simp add: entry_def ex_item_ok)
  with r(1) ex_set_abs(2) show ?thesis by (simp add: ex_item_ok)
qed

theorem cas_detects_changes_witness: "\<exists>t'. storeItem ex_item kCas length ex_table_again = Some (False, True, t')"
proof -
  have "mc_step length ex_table_set ex_table_again"
    by (rule step_store [OF ex_item_ok(1) _ ex_sizes(3) ex_set_small ex_store(2)]) simp_all
  then have steps: "(mc_step length)\<^sup>*\<^sup>* ex_table_set ex_table_again" by blast
  have e: "mc_abs length ex_table_set (it_key ex_item) = Some (entry ex_item)" "it_cas ex_item = e_cas (entry ex_item)" using ex_set_abs(2) by (simp_all add: ex_item_ok entry_def)
  have "(entry ex_item)\<lparr>e_cas := 2\<rparr> \<noteq> entry ex_item" by (simp add: entry_def ex_sizes)
  with cas_detects_changes [OF ex_set_abs(1) e(1) steps ex_item_ok(1) e(2)] ex_again_abs show ?thesis by (simp add: ex_item_ok)
qed

end
