(* ===== verification/MemcacheSession.thy ===== *)
theory MemcacheSession
  imports Memcache
begin

text \<open>
  \<^verbatim>\<open>examples/memcached/server/Session.h\<close> and \<^verbatim>\<open>Session.cc\<close>: one connection of the memcached server. \<open>ss_connected\<close> tells whether the connection still sends (\<^verbatim>\<open>shutdown\<close> ends that), \<open>ss_sent\<close> are the bytes it
  was given, \<open>ss_outputBuf\<close> the content of \<^verbatim>\<open>outputBuf_\<close>. Reading a token past the last one fails the assertion of \<^verbatim>\<open>boost::tokenizer\<close>. The item under construction has no second owner. The
  build without \<^verbatim>\<open>HAVE_TCMALLOC\<close> is modelled.
\<close>

section \<open>Tokens and numbers\<close>

text \<open>The tokens that \<^verbatim>\<open>SpaceSeparator\<close> finds.\<close>

function tokens :: "string \<Rightarrow> string list" where
  "tokens s =
     (let next = dropWhile (\<lambda>c. c = CHR '' '') s
      in if next = [] then []
         else takeWhile (\<lambda>c. c \<noteq> CHR '' '') next # tokens (dropWhile (\<lambda>c. c \<noteq> CHR '' '') next))"
  by pat_completeness auto
termination
proof (relation "measure length")
  fix s :: string and "next" :: string
  assume n: "next = dropWhile (\<lambda>c. c = CHR '' '') s" "next \<noteq> []"
  have "hd next \<noteq> CHR '' ''" using hd_dropWhile [of "\<lambda>c. c = CHR '' ''" s] n by simp
  then obtain c cs where "next = c # cs" "c \<noteq> CHR '' ''" using n(2) by (cases "next") auto
  moreover have "length (dropWhile (\<lambda>c. c \<noteq> CHR '' '') cs) \<le> length cs" by (rule length_dropWhile_le)
  moreover have "length next \<le> length s" unfolding n(1) by (rule length_dropWhile_le)
  ultimately show "(dropWhile (\<lambda>c. c \<noteq> CHR '' '') next, s) \<in> measure length" by simp
qed simp

declare tokens.simps [simp del]

text \<open>\<^verbatim>\<open>strtoull\<close> in base 10, if it reads the whole token. A number that is too large gives the largest one, a minus sign negates modulo \<open>2^64\<close>.\<close>

definition strtoull :: "string \<Rightarrow> 64 word option" where
  "strtoull tok =
     (let s = dropWhile isspace tok;
          neg = (s \<noteq> [] \<and> hd s = CHR ''-'');
          ds = (if s \<noteq> [] \<and> (hd s = CHR ''-'' \<or> hd s = CHR ''+'') then tl s else s);
          n = undec ds
      in if ds \<noteq> [] \<and> list_all isdigit ds
         then Some (if n > 2 ^ 64 - 1 then - 1 else if neg then - of_nat n else of_nat n)
         else None)"

text \<open>\<^verbatim>\<open>Reader::read\<close>: the number and the tokens that remain.\<close>

fun Reader_read :: "string list \<Rightarrow> (64 word \<times> string list) option" where
  "Reader_read [] = None"
| "Reader_read (t # ts) = map_option (\<lambda>x. (x, ts)) (strtoull t)"

section \<open>Sessions\<close>

datatype SessionState = kNewCommand | kReceiveValue | kDiscardValue

datatype Protocol = kAscii | kBinary | kAuto

definition kLongestKeySize :: nat where
  "kLongestKeySize = 250"

record Session =
  ss_state :: SessionState
  ss_protocol :: Protocol
  ss_command :: string
  ss_noreply :: bool
  ss_policy :: UpdatePolicy
  ss_currItem :: "Item option"
  ss_bytesToDiscard :: nat
  ss_needle :: Item
  ss_outputBuf :: string
  ss_bytesRead :: nat
  ss_requestsProcessed :: nat
  ss_connected :: bool
  ss_sent :: string

definition new_Session :: "(string \<Rightarrow> nat) \<Rightarrow> Session option" where
  "new_Session hash = do {
     needle \<leftarrow> makeItem hash (replicate kLongestKeySize (CHR ''x'')) 0 0 2 0;
     Some \<lparr>ss_state = kNewCommand, ss_protocol = kAscii, ss_command = [], ss_noreply = False, ss_policy = kInvalidPolicy, ss_currItem = None, ss_bytesToDiscard = 0,
       ss_needle = needle, ss_outputBuf = [], ss_bytesRead = 0, ss_requestsProcessed = 0, ss_connected = True, ss_sent = []\<rparr>
   }"

definition ss_send :: "string \<Rightarrow> Session \<Rightarrow> Session" where
  "ss_send msg ss = (if ss_connected ss then ss\<lparr>ss_sent := ss_sent ss @ msg\<rparr> else ss)"

definition ss_shutdown :: "Session \<Rightarrow> Session" where
  "ss_shutdown ss = ss\<lparr>ss_connected := False\<rparr>"

definition reply :: "string \<Rightarrow> Session \<Rightarrow> Session" where
  "reply msg ss = (if \<not> ss_noreply ss then ss_send msg ss else ss)"

definition resetRequest :: "Session \<Rightarrow> Session" where
  "resetRequest ss = ss\<lparr>ss_command := [], ss_noreply := False, ss_policy := kInvalidPolicy, ss_currItem := None, ss_bytesToDiscard := 0\<rparr>"

text \<open>The answers end with a line end.\<close>

definition line :: "string \<Rightarrow> string" where
  "line s = s @ kCRLF"

section \<open>Requests\<close>

definition policy_of :: "string \<Rightarrow> UpdatePolicy option" where
  "policy_of command =
     (if command = ''set'' then Some kSet else if command = ''add'' then Some kAdd else if command = ''replace'' then Some kReplace
      else if command = ''append'' then Some kAppend else if command = ''prepend'' then Some kPrepend else if command = ''cas'' then Some kCas else None)"

definition rel_exptime_of :: "int \<Rightarrow> int \<Rightarrow> int" where
  "rel_exptime_of exptime startTime =
     (if exptime > 60 * 60 * 24 * 30
      then (let rel = sint (of_int (exptime - startTime) :: 32 word) in if rel < 1 then 1 else rel)
      else sint (of_int exptime :: 32 word))"

text \<open>The numbers of an update line: flags, expiration time, number of bytes and, for \<open>cas\<close>, the version.\<close>

definition read_numbers :: "bool \<Rightarrow> string list \<Rightarrow> (32 word \<times> int \<times> int \<times> 64 word) option" where
  "read_numbers with_cas ts = do {
     (flags, ts) \<leftarrow> Reader_read ts;
     (exptime, ts) \<leftarrow> Reader_read ts;
     (bytes, ts) \<leftarrow> Reader_read ts;
     (cas, ts) \<leftarrow> (if with_cas then Reader_read ts else Some (0, ts));
     Some (ucast flags, sint exptime, sint (ucast bytes :: 32 word), cas)
   }"

text \<open>The flag is true when the request is finished. The sum \<open>bytes + 2\<close> is an \<^verbatim>\<open>int\<close>; its overflow, which the language leaves undefined, wraps around.\<close>

definition doUpdate :: "(string \<Rightarrow> nat) \<Rightarrow> string list \<Rightarrow> Session \<Rightarrow> MemcacheServer \<Rightarrow> (bool \<times> Session \<times> MemcacheServer) option" where
  "doUpdate hash beg ss srv = do {
     policy \<leftarrow> policy_of (ss_command ss);
     let ss = ss\<lparr>ss_policy := policy\<rparr>;
     assert_that (beg \<noteq> []);
     let key = hd beg;
     (case (if length key \<le> kLongestKeySize then read_numbers (policy = kCas) (tl beg) else None) of
        None \<Rightarrow> Some (True, reply (line ''CLIENT_ERROR bad command line format'') ss, srv)
      | Some (flags, exptime, bytes, cas) \<Rightarrow>
          let rel_exptime = rel_exptime_of exptime (mc_startTime srv);
              valuelen = sint (of_int (bytes + 2) :: 32 word)
          in if bytes > 1024 * 1024
             then do {
               let ss = reply (line ''SERVER_ERROR object too large for cache'') ss;
               needle \<leftarrow> resetKey hash key (ss_needle ss);
               Some (False, ss\<lparr>ss_needle := needle, ss_bytesToDiscard := nat (valuelen mod 2 ^ 64), ss_state := kDiscardValue\<rparr>, snd (deleteItem needle srv))
             }
             else do {
               item \<leftarrow> makeItem hash key flags rel_exptime valuelen cas;
               Some (False, ss\<lparr>ss_currItem := Some item, ss_state := kReceiveValue\<rparr>, srv)
             })
   }"

definition doDelete :: "(string \<Rightarrow> nat) \<Rightarrow> string list \<Rightarrow> Session \<Rightarrow> MemcacheServer \<Rightarrow> (Session \<times> MemcacheServer) option" where
  "doDelete hash beg ss srv = do {
     assert_that (ss_command ss = ''delete'');
     assert_that (beg \<noteq> []);
     let key = hd beg;
     let rest = tl beg;
     if \<not> length key \<le> kLongestKeySize then Some (reply (line ''CLIENT_ERROR bad command line format'') ss, srv)
     else if rest \<noteq> [] \<and> hd rest \<noteq> ''0''
     then Some (reply (line ''CLIENT_ERROR bad command line format.  Usage: delete <key> [noreply]'') ss, srv)
     else do {
       needle \<leftarrow> resetKey hash key (ss_needle ss);
       let ss = ss\<lparr>ss_needle := needle\<rparr>;
       let (deleted, srv) = deleteItem needle srv;
       Some (reply (if deleted then line ''DELETED'' else line ''NOT_FOUND'') ss, srv)
     }
   }"

text \<open>The loop of \<open>get\<close> over its keys; it stops at a key that is too long.\<close>

fun get_keys :: "(string \<Rightarrow> nat) \<Rightarrow> bool \<Rightarrow> string list \<Rightarrow> Session \<Rightarrow> MemcacheServer \<Rightarrow> (bool \<times> Session) option" where
  "get_keys hash cas [] ss srv = Some (True, ss)"
| "get_keys hash cas (key # keys) ss srv =
     (if \<not> length key \<le> kLongestKeySize then Some (False, ss)
      else do {
        needle \<leftarrow> resetKey hash key (ss_needle ss);
        let ss = ss\<lparr>ss_needle := needle\<rparr>;
        get_keys hash cas keys
          (case getItem needle srv of Some item \<Rightarrow> ss\<lparr>ss_outputBuf := ss_outputBuf ss @ Item_output cas item\<rparr> | None \<Rightarrow> ss) srv
      })"

definition doGet :: "(string \<Rightarrow> nat) \<Rightarrow> bool \<Rightarrow> string list \<Rightarrow> Session \<Rightarrow> MemcacheServer \<Rightarrow> Session option" where
  "doGet hash cas keys ss srv = do {
     (good, ss) \<leftarrow> get_keys hash cas keys ss srv;
     if good
     then let ss = ss\<lparr>ss_outputBuf := ss_outputBuf ss @ line ''END''\<rparr>
          in Some ((ss_send (ss_outputBuf ss) ss)\<lparr>ss_outputBuf := (if ss_connected ss then [] else ss_outputBuf ss)\<rparr>)
     else Some (reply (line ''CLIENT_ERROR bad command line format'') ss)
   }"

text \<open>The dispatch on the command, and the suffix of a request that asks for no answer.\<close>

definition dispatch :: "(string \<Rightarrow> nat) \<Rightarrow> string \<Rightarrow> string list \<Rightarrow> Session \<Rightarrow> MemcacheServer \<Rightarrow> (bool \<times> Session \<times> MemcacheServer) option" where
  "dispatch hash command beg ss srv =
     (if policy_of command \<noteq> None then doUpdate hash beg ss srv
      else if command = ''get'' \<or> command = ''gets'' then map_option (\<lambda>ss. (True, ss, srv)) (doGet hash (command = ''gets'') beg ss srv)
      else if command = ''delete'' then map_option (Pair True) (doDelete hash beg ss srv)
      else if command = ''version'' then Some (True, reply (line ''VERSION 0.01 muduo'') ss, srv)
      else if command = ''quit'' then Some (True, ss_shutdown ss, srv)
      else if command = ''shutdown'' then Some (True, ss_shutdown ss, mc_stop srv)
      else Some (True, reply (line ''ERROR'') ss, srv))"

definition strip_noreply :: "string \<Rightarrow> bool \<times> string" where
  "strip_noreply request =
     (if length request \<ge> 8 \<and> drop (length request - 8) request = '' noreply'' then (True, take (length request - 8) request) else (False, request))"

definition processRequest :: "(string \<Rightarrow> nat) \<Rightarrow> string \<Rightarrow> Session \<Rightarrow> MemcacheServer \<Rightarrow> (bool \<times> Session \<times> MemcacheServer) option" where
  "processRequest hash request ss srv = do {
     assert_that (ss_command ss = [] \<and> \<not> ss_noreply ss \<and> ss_policy ss = kInvalidPolicy \<and> ss_currItem ss = None \<and> ss_bytesToDiscard ss = 0);
     let ss = ss\<lparr>ss_requestsProcessed := ss_requestsProcessed ss + 1, ss_noreply := fst (strip_noreply request)\<rparr>;
     (case tokens (snd (strip_noreply request)) of
        [] \<Rightarrow> Some (True, reply (line ''ERROR'') ss, srv)
      | command # beg \<Rightarrow> dispatch hash command beg (ss\<lparr>ss_command := command\<rparr>) srv)
   }"

section \<open>Input\<close>

text \<open>The value is complete.\<close>

definition finishValue :: "(string \<Rightarrow> nat) \<Rightarrow> Item \<Rightarrow> Session \<Rightarrow> MemcacheServer \<Rightarrow> (Session \<times> MemcacheServer) option" where
  "finishValue hash item ss srv =
     (if endsWithCRLF item then do {
        (stored, exists, srv) \<leftarrow> storeItem item (ss_policy ss) hash srv;
        Some (reply (if stored then line ''STORED''
                     else if ss_policy ss = kCas then (if exists then line ''EXISTS'' else line ''NOT_FOUND'')
                     else line ''NOT_STORED'') ss, srv)
      }
      else Some (reply (line ''CLIENT_ERROR bad data chunk'') ss, srv))"

definition receiveValue :: "(string \<Rightarrow> nat) \<Rightarrow> Buffer \<Rightarrow> Session \<Rightarrow> MemcacheServer \<Rightarrow> (Buffer \<times> Session \<times> MemcacheServer) option" where
  "receiveValue hash buf ss srv = do {
     item \<leftarrow> ss_currItem ss;
     assert_that (ss_state ss = kReceiveValue);
     let avail = min (readableBytes buf) (neededBytes item);
     item \<leftarrow> Item_append (subrange (peek buf) avail (buffer buf)) item;
     let ss = ss\<lparr>ss_currItem := Some item\<rparr>;
     buf \<leftarrow> retrieve avail buf;
     if neededBytes item = 0 then do {
       (ss, srv) \<leftarrow> finishValue hash item ss srv;
       Some (buf, (resetRequest ss)\<lparr>ss_state := kNewCommand\<rparr>, srv)
     }
     else Some (buf, ss, srv)
   }"

definition discardValue :: "Buffer \<Rightarrow> Session \<Rightarrow> (Buffer \<times> Session) option" where
  "discardValue buf ss = do {
     assert_that (ss_currItem ss = None);
     assert_that (ss_state ss = kDiscardValue);
     if readableBytes buf < ss_bytesToDiscard ss
     then Some (retrieveAll buf, ss\<lparr>ss_bytesToDiscard := ss_bytesToDiscard ss - readableBytes buf\<rparr>)
     else do {
       buf \<leftarrow> retrieve (ss_bytesToDiscard ss) buf;
       Some (buf, (resetRequest (ss\<lparr>ss_bytesToDiscard := 0\<rparr>))\<lparr>ss_state := kNewCommand\<rparr>)
     }
   }"

lemma receiveValue_progress:
  assumes "receiveValue hash buf ss srv = Some (buf', ss', srv')" and "0 < readableBytes buf"
  shows "readableBytes buf' < readableBytes buf \<or> readableBytes buf' = readableBytes buf \<and> ss_state ss \<noteq> kNewCommand \<and> ss_state ss' = kNewCommand"
proof -
  from assms(1) obtain item item' where i: "Item_append (subrange (peek buf) (min (readableBytes buf) (neededBytes item)) (buffer buf)) item = Some item'" "ss_state ss = kReceiveValue"
      "retrieve (min (readableBytes buf) (neededBytes item)) buf = Some buf'" "neededBytes item' \<noteq> 0 \<or> ss_state ss' = kNewCommand"
    by (auto simp: receiveValue_def abort_elims Let_def split: if_splits)
  show ?thesis
  proof (cases "neededBytes item = 0")
    case True
    with i(1) have "neededBytes item' = 0" by (auto simp: Item_append_def Let_def neededBytes_def totalLen_def split: if_splits)
    moreover from i(3) True have "buf' = buf" using assms(2) by (auto simp: retrieve_def)
    ultimately show ?thesis using i(2,4) by simp
  next
    case False
    then show ?thesis using retrieve_less [OF i(3)] assms(2) by simp
  qed
qed

lemma discardValue_progress:
  assumes "discardValue buf ss = Some (buf', ss')" and "0 < readableBytes buf"
  shows "readableBytes buf' < readableBytes buf \<or> readableBytes buf' = readableBytes buf \<and> ss_state ss \<noteq> kNewCommand \<and> ss_state ss' = kNewCommand"
proof (cases "readableBytes buf < ss_bytesToDiscard ss")
  case True
  with assms have "buf' = retrieveAll buf" by (auto simp: discardValue_def split: if_splits)
  then show ?thesis using assms(2) by (simp add: retrieveAll_def buf_defs)
next
  case False
  with assms(1) have r: "retrieve (ss_bytesToDiscard ss) buf = Some buf'" "ss_state ss = kDiscardValue" "ss_state ss' = kNewCommand"
    by (auto simp: discardValue_def abort_elims split: if_splits)
  show ?thesis
  proof (cases "ss_bytesToDiscard ss = 0")
    case True
    then show ?thesis using r assms(2) by (auto simp: retrieve_def)
  next
    case F: False
    then show ?thesis using retrieve_less [OF r(1)] False by simp
  qed
qed

text \<open>One round of the loop of \<^verbatim>\<open>onMessage\<close>, and whether the loop goes on. The branch of the binary protocol is empty: the loop would not end there.\<close>

definition ss_round :: "(string \<Rightarrow> nat) \<Rightarrow> Buffer \<Rightarrow> Session \<Rightarrow> MemcacheServer \<Rightarrow> (bool \<times> Buffer \<times> Session \<times> MemcacheServer) option" where
  "ss_round hash buf ss srv =
     (case ss_state ss of
        kNewCommand \<Rightarrow> do {
          assert_that (ss_protocol ss = kAuto \<longrightarrow> ss_bytesRead ss = 0);
          let ss = (if ss_protocol ss = kAuto then ss\<lparr>ss_protocol := (if buffer buf ! peek buf = CHR 0x80 then kBinary else kAscii)\<rparr> else ss);
          assert_that (ss_protocol ss = kAscii);
          (case findCRLF buf of
             Some crlf \<Rightarrow> do {
               (finished, ss, srv) \<leftarrow> processRequest hash (subrange (peek buf) (crlf - peek buf) (buffer buf)) ss srv;
               let ss = (if finished then resetRequest ss else ss);
               buf \<leftarrow> retrieveUntil (crlf + 2) buf;
               Some (True, buf, ss, srv)
             }
           | None \<Rightarrow> Some (False, buf, if readableBytes buf > 1024 then ss_shutdown ss else ss, srv))
        }
      | kReceiveValue \<Rightarrow> map_option (Pair True) (receiveValue hash buf ss srv)
      | kDiscardValue \<Rightarrow> map_option (\<lambda>(buf, ss). (True, buf, ss, srv)) (discardValue buf ss))"

lemma retrieveUntil_progress: "retrieveUntil e b = Some b' \<Longrightarrow> peek b < e \<Longrightarrow> readableBytes b' < readableBytes b"
  by (auto simp: retrieveUntil_def abort_elims buf_defs intro!: retrieve_less [unfolded buf_defs] split: if_splits)

lemma ss_round_progress:
  assumes "ss_round hash buf ss srv = Some (True, buf', ss', srv')" and "0 < readableBytes buf"
  shows "readableBytes buf' < readableBytes buf \<or> readableBytes buf' = readableBytes buf \<and> ss_state ss \<noteq> kNewCommand \<and> ss_state ss' = kNewCommand"
proof (cases "ss_state ss")
  case kNewCommand
  then obtain crlf where "findCRLF buf = Some crlf" "retrieveUntil (crlf + 2) buf = Some buf'"
    using assms(1) by (auto simp: ss_round_def abort_elims Let_def split: option.splits if_splits)
  then show ?thesis using retrieveUntil_progress [of "crlf + 2" buf buf'] by (auto simp: findCRLF_def)
next
  case kReceiveValue
  then show ?thesis using assms receiveValue_progress [of hash buf ss srv] by (auto simp: ss_round_def)
next
  case kDiscardValue
  then show ?thesis using assms discardValue_progress [of buf ss] by (auto simp: ss_round_def)
qed

function ss_loop :: "(string \<Rightarrow> nat) \<Rightarrow> Buffer \<Rightarrow> Session \<Rightarrow> MemcacheServer \<Rightarrow> (Buffer \<times> Session \<times> MemcacheServer) option" where
  "ss_loop hash buf ss srv =
     (if readableBytes buf > 0
      then (case ss_round hash buf ss srv of
              None \<Rightarrow> None
            | Some (go, buf', ss', srv') \<Rightarrow> if go then ss_loop hash buf' ss' srv' else Some (buf', ss', srv'))
      else Some (buf, ss, srv))"
  by pat_completeness auto
termination
  by (relation "measure (\<lambda>(hash, buf, ss, srv). 2 * readableBytes buf + (if ss_state ss = kNewCommand then 0 else 1))") (auto dest!: ss_round_progress split: if_splits)

declare ss_loop.simps [simp del]

definition ss_onMessage :: "(string \<Rightarrow> nat) \<Rightarrow> Buffer \<Rightarrow> Session \<Rightarrow> MemcacheServer \<Rightarrow> (Buffer \<times> Session \<times> MemcacheServer) option" where
  "ss_onMessage hash buf ss srv = do {
     let initialReadable = readableBytes buf;
     (buf, ss, srv) \<leftarrow> ss_loop hash buf ss srv;
     Some (buf, ss\<lparr>ss_bytesRead := ss_bytesRead ss + (initialReadable - readableBytes buf)\<rparr>, srv)
   }"

section \<open>Connections\<close>

text \<open>The server with the session of every connection, by its name; \<^verbatim>\<open>onConnection\<close> of the server is called when a connection is made and when it is closed.\<close>

record McHost =
  mh_server :: MemcacheServer
  mh_sessions :: "string \<rightharpoonup> Session"

definition mc_onConnection :: "(string \<Rightarrow> nat) \<Rightarrow> bool \<Rightarrow> string \<Rightarrow> McHost \<Rightarrow> McHost option" where
  "mc_onConnection hash connected name h =
     (if connected
      then do {
        session \<leftarrow> new_Session hash;
        assert_that (mh_sessions h name = None);
        Some (h\<lparr>mh_sessions := (mh_sessions h)(name \<mapsto> session)\<rparr>)
      }
      else do {
        assert_that (mh_sessions h name \<noteq> None);
        Some (h\<lparr>mh_sessions := (mh_sessions h)(name := None)\<rparr>)
      })"

definition mc_onMessage :: "(string \<Rightarrow> nat) \<Rightarrow> string \<Rightarrow> Buffer \<Rightarrow> McHost \<Rightarrow> (Buffer \<times> McHost) option" where
  "mc_onMessage hash name buf h = do {
     session \<leftarrow> mh_sessions h name;
     (buf, session, srv) \<leftarrow> ss_onMessage hash buf session (mh_server h);
     Some (buf, h\<lparr>mh_server := srv, mh_sessions := (mh_sessions h)(name \<mapsto> session)\<rparr>)
   }"

section \<open>Invariant\<close>

text \<open>An item whose value is arriving.\<close>

definition receiving :: "(string \<Rightarrow> nat) \<Rightarrow> Item \<Rightarrow> bool" where
  "receiving hash i \<longleftrightarrow> it_keylen i \<le> kLongestKeySize \<and> 2 \<le> it_valuelen i \<and> it_keylen i \<le> length (it_data i) \<and> length (it_data i) < totalLen i \<and> it_hash i = hash (it_key i)"

definition session_ok :: "(string \<Rightarrow> nat) \<Rightarrow> Session \<Rightarrow> bool" where
  "session_ok hash ss \<longleftrightarrow> ss_protocol ss = kAscii \<and>
     (case ss_state ss of
        kNewCommand \<Rightarrow> ss_command ss = [] \<and> \<not> ss_noreply ss \<and> ss_policy ss = kInvalidPolicy \<and> ss_currItem ss = None \<and> ss_bytesToDiscard ss = 0
      | kReceiveValue \<Rightarrow> ss_policy ss \<noteq> kInvalidPolicy \<and> (\<exists>i. ss_currItem ss = Some i \<and> receiving hash i)
      | kDiscardValue \<Rightarrow> ss_currItem ss = None)"

text \<open>The bytes of a value that have arrived, and what the table must be able to take: the bytes that are still to be worked off.\<close>

definition pending :: "Session \<Rightarrow> nat" where
  "pending ss = (case ss_currItem ss of Some i \<Rightarrow> length (it_data i) - it_keylen i | None \<Rightarrow> 0)"

definition srv_room :: "(string \<Rightarrow> nat) \<Rightarrow> MemcacheServer \<Rightarrow> nat \<Rightarrow> bool" where
  "srv_room hash srv n \<longleftrightarrow> mc_ok hash srv \<and> unat (mc_g_cas srv) + n < 2 ^ 64 \<and> n + 254 < 2 ^ 31
     \<and> (\<forall>k e. mc_abs hash srv k = Some e \<longrightarrow> length (e_text e) + n + 254 < 2 ^ 31)"

text \<open>The lines that abort the server: an update or a deletion without a key, and an update with a negative number of bytes.\<close>

definition request_tokens :: "string \<Rightarrow> string list" where
  "request_tokens request = tokens (snd (strip_noreply request))"

definition fatal_request :: "string \<Rightarrow> bool" where
  "fatal_request request = (case request_tokens request of
       [] \<Rightarrow> False
     | command # beg \<Rightarrow>
         policy_of command \<noteq> None \<and>
           (beg = [] \<or> length (hd beg) \<le> kLongestKeySize \<and>
             (case read_numbers (policy_of command = Some kCas) (tl beg) of Some (flags, exptime, bytes, cas) \<Rightarrow> bytes < 0 | None \<Rightarrow> False))
         \<or> command = ''delete'' \<and> beg = [])"

lemma reply_simps [simp]:
  "ss_state (reply m ss) = ss_state ss" "ss_protocol (reply m ss) = ss_protocol ss" "ss_command (reply m ss) = ss_command ss" "ss_noreply (reply m ss) = ss_noreply ss"
  "ss_policy (reply m ss) = ss_policy ss" "ss_currItem (reply m ss) = ss_currItem ss" "ss_bytesToDiscard (reply m ss) = ss_bytesToDiscard ss"
  "ss_needle (reply m ss) = ss_needle ss" "ss_outputBuf (reply m ss) = ss_outputBuf ss" "ss_connected (reply m ss) = ss_connected ss"
  by (simp_all add: reply_def ss_send_def)

lemma resetRequest_ok: "ss_protocol ss = kAscii \<Longrightarrow> ss_state ss = kNewCommand \<Longrightarrow> session_ok hash (resetRequest ss)" "pending (resetRequest ss) = 0"
  by (simp_all add: session_ok_def resetRequest_def pending_def)

lemma srv_room_delete: "is_needle hash key i \<Longrightarrow> srv_room hash srv n \<Longrightarrow> srv_room hash (snd (deleteItem i srv)) n"
  using deleteItem_abs [of hash key i srv] by (auto simp: srv_room_def)

lemma srv_room_stop: "srv_room hash srv n \<Longrightarrow> srv_room hash (mc_stop srv) n"
  by (simp add: srv_room_def mc_ok_def mc_abs_def mc_stop_def)

lemma srv_room_mono: "srv_room hash srv n \<Longrightarrow> k \<le> n \<Longrightarrow> srv_room hash srv k"
  by (fastforce simp: srv_room_def)

lemma get_keys_ok: "\<exists>good needle out. get_keys hash cas keys ss srv = Some (good, ss\<lparr>ss_needle := needle, ss_outputBuf := out\<rparr>)"
proof (induction keys arbitrary: ss)
  case Nil
  show ?case by (intro exI [of _ True] exI [of _ "ss_needle ss"] exI [of _ "ss_outputBuf ss"]) simp
next
  case (Cons key keys)
  show ?case
  proof (cases "length key \<le> kLongestKeySize")
    case False
    then show ?thesis by (intro exI [of _ False] exI [of _ "ss_needle ss"] exI [of _ "ss_outputBuf ss"]) simp
  next
    case True
    then obtain needle where "resetKey hash key (ss_needle ss) = Some needle" using resetKey_needle [of key hash "ss_needle ss"] by (auto simp: kLongestKeySize_def)
    with True Cons.IH [of "case getItem needle srv of Some item \<Rightarrow> ss\<lparr>ss_needle := needle, ss_outputBuf := ss_outputBuf ss @ Item_output cas item\<rparr> | None \<Rightarrow> ss\<lparr>ss_needle := needle\<rparr>"]
    show ?thesis by (cases "getItem needle srv") (simp_all add: Let_def)
  qed
qed

lemma doGet_ok: "\<exists>ss'. doGet hash cas keys ss srv = Some ss' \<and> ss_state ss' = ss_state ss \<and> ss_protocol ss' = ss_protocol ss"
proof -
  obtain good needle out where "get_keys hash cas keys ss srv = Some (good, ss\<lparr>ss_needle := needle, ss_outputBuf := out\<rparr>)" using get_keys_ok by blast
  then show ?thesis by (simp add: doGet_def ss_send_def Let_def)
qed

lemma doDelete_ok:
  assumes "ss_command ss = ''delete''" and "beg \<noteq> []" and "srv_room hash srv n"
  shows "\<exists>ss' srv'. doDelete hash beg ss srv = Some (ss', srv') \<and> ss_state ss' = ss_state ss \<and> ss_protocol ss' = ss_protocol ss \<and> srv_room hash srv' n"
proof (cases "length (hd beg) \<le> kLongestKeySize \<and> (tl beg = [] \<or> hd (tl beg) = ''0'')")
  case True
  then obtain needle where n: "resetKey hash (hd beg) (ss_needle ss) = Some needle" "is_needle hash (hd beg) needle"
    using resetKey_needle [of "hd beg" hash "ss_needle ss"] by (auto simp: kLongestKeySize_def)
  with True assms srv_room_delete [OF n(2) assms(3)] show ?thesis by (auto simp: doDelete_def Let_def split: prod.split)
next
  case False
  with assms show ?thesis by (auto simp: doDelete_def Let_def)
qed

lemma bytes_two: "- (2 ^ 31) \<le> bytes \<Longrightarrow> bytes \<le> 1024 * 1024 \<Longrightarrow> sint (of_int (bytes + 2) :: 32 word) = bytes + 2"
  by (simp del: of_int_add add: signed_of_int signed_take_bit_int_eq_self)

lemma doUpdate_ok:
  assumes pol: "policy_of (ss_command ss) = Some policy" and key: "beg \<noteq> []" and room: "srv_room hash srv n" and ss: "ss_state ss = kNewCommand" "ss_protocol ss = kAscii" "ss_currItem ss = None"
    and pos: "length (hd beg) \<le> kLongestKeySize \<Longrightarrow> (case read_numbers (policy = kCas) (tl beg) of Some (flags, exptime, bytes, cas) \<Rightarrow> 0 \<le> bytes | None \<Rightarrow> True)"
  shows "\<exists>fin ss' srv'. doUpdate hash beg ss srv = Some (fin, ss', srv') \<and> srv_room hash srv' n \<and> session_ok hash (if fin then resetRequest ss' else ss') \<and> pending (if fin then resetRequest ss' else ss') = 0"
proof (cases "if length (hd beg) \<le> kLongestKeySize then read_numbers (policy = kCas) (tl beg) else None")
  case None
  then show ?thesis using pol key room ss resetRequest_ok by (auto simp: doUpdate_def Let_def)
next
  case (Some x)
  obtain flags exptime bytes cas where x: "x = (flags, exptime, bytes, cas)" by (cases x)
  have len: "length (hd beg) \<le> kLongestKeySize" and rn: "read_numbers (policy = kCas) (tl beg) = Some (flags, exptime, bytes, cas)" using Some x by (auto split: if_splits)
  have b: "0 \<le> bytes" using pos [OF len] rn by simp
  have p: "policy \<noteq> kInvalidPolicy" using pol by (auto simp: policy_of_def split: if_splits)
  show ?thesis
  proof (cases "bytes > 1024 * 1024")
    case True
    obtain needle where nd: "resetKey hash (hd beg) (ss_needle ss) = Some needle" "is_needle hash (hd beg) needle"
      using resetKey_needle [of "hd beg" hash "ss_needle ss"] len by (auto simp: kLongestKeySize_def)
    then show ?thesis using True pol key len rn ss srv_room_delete [OF nd(2) room] by (auto simp: doUpdate_def Let_def session_ok_def pending_def)
  next
    case False
    have v: "sint (of_int (bytes + 2) :: 32 word) = bytes + 2" using b False by (intro bytes_two) simp_all
    have m: "makeItem hash (hd beg) flags (rel_exptime_of exptime (mc_startTime srv)) (bytes + 2) cas =
        Some \<lparr>it_keylen = length (hd beg), it_flags = flags, it_rel_exptime = rel_exptime_of exptime (mc_startTime srv), it_valuelen = nat (bytes + 2), it_data = hd beg, it_cas = cas, it_hash = hash (hd beg)\<rparr>"
      by (rule makeItem_ok) (use b False len in \<open>simp_all add: kLongestKeySize_def\<close>)
    let ?i = "\<lparr>it_keylen = length (hd beg), it_flags = flags, it_rel_exptime = rel_exptime_of exptime (mc_startTime srv), it_valuelen = nat (bytes + 2), it_data = hd beg, it_cas = cas, it_hash = hash (hd beg)\<rparr>"
    let ?ss = "ss\<lparr>ss_policy := policy, ss_currItem := Some ?i, ss_state := kReceiveValue\<rparr>"
    have "doUpdate hash beg ss srv = Some (False, ?ss, srv)" using False v m pol key len rn by (simp del: of_int_add add: doUpdate_def Let_def)
    moreover have "receiving hash ?i" using b len by (simp add: receiving_def totalLen_def it_key_def)
    then have "session_ok hash ?ss" "pending ?ss = 0" using ss p by (simp_all add: session_ok_def pending_def)
    ultimately show ?thesis using room by auto
  qed
qed

lemma processRequest_fatal: "fatal_request request \<Longrightarrow> processRequest hash request ss srv = None"
proof -
  assume f: "fatal_request request"
  then obtain command beg where t: "request_tokens request = command # beg" by (auto simp: fatal_request_def split: list.splits)
  have mk: "makeItem hash key flags e (sint (of_int (bytes + 2) :: 32 word)) cas = None" if "bytes < 0" "- (2 ^ 31) \<le> bytes" for key flags e bytes cas
  proof (rule makeItem_short)
    have "sint (of_int (bytes + 2) :: 32 word) = bytes + 2" using that by (intro bytes_two) simp_all
    then show "sint (of_int (bytes + 2) :: 32 word) < 2" using that by simp
  qed
  have range: "- (2 ^ 31) \<le> bytes" if "read_numbers b ts = Some (flags, e, bytes, cas)" for b ts flags e bytes cas
    using that sint_ge [where 'a = 32] by (auto simp: read_numbers_def abort_elims)
  show ?thesis
  proof (cases "command = ''delete''")
    case True
    with f t show ?thesis by (auto simp: fatal_request_def processRequest_def dispatch_def request_tokens_def policy_of_def doDelete_def Let_def split: if_splits)
  next
    case False
    with f t obtain policy where p: "policy_of command = Some policy" by (auto simp: fatal_request_def)
    have "doUpdate hash beg (ss\<lparr>ss_requestsProcessed := r, ss_noreply := nr, ss_command := command\<rparr>) srv = None" for r nr
    proof (cases "beg = []")
      case True
      then show ?thesis using p by (simp add: doUpdate_def Let_def)
    next
      case beg: False
      with f t p False obtain flags e bytes cas where n: "length (hd beg) \<le> kLongestKeySize" "read_numbers (policy = kCas) (tl beg) = Some (flags, e, bytes, cas)" "bytes < 0"
        by (auto simp: fatal_request_def split: option.splits)
      then show ?thesis using p beg mk [OF n(3) range [OF n(2)]] by (simp add: doUpdate_def Let_def)
    qed
    then show ?thesis using t p by (simp add: processRequest_def dispatch_def request_tokens_def Let_def)
  qed
qed

lemma processRequest_ok:
  assumes ok: "session_ok hash ss" "ss_state ss = kNewCommand" and room: "srv_room hash srv n" and f: "\<not> fatal_request request"
  shows "\<exists>fin ss' srv'. processRequest hash request ss srv = Some (fin, ss', srv') \<and> srv_room hash srv' n \<and> session_ok hash (if fin then resetRequest ss' else ss')
    \<and> pending (if fin then resetRequest ss' else ss') = 0"
proof -
  let ?ss = "ss\<lparr>ss_requestsProcessed := ss_requestsProcessed ss + 1, ss_noreply := fst (strip_noreply request)\<rparr>"
  have st: "ss_command ss = []" "\<not> ss_noreply ss" "ss_policy ss = kInvalidPolicy" "ss_currItem ss = None" "ss_bytesToDiscard ss = 0" "ss_protocol ss = kAscii"
    using ok by (simp_all add: session_ok_def)
  have pr: "processRequest hash request ss srv =
     (case request_tokens request of [] \<Rightarrow> Some (True, reply (line ''ERROR'') ?ss, srv) | command # beg \<Rightarrow> dispatch hash command beg (?ss\<lparr>ss_command := command\<rparr>) srv)"
    using st(1-5) by (simp add: processRequest_def request_tokens_def Let_def split: list.split)
  show ?thesis
  proof (cases "request_tokens request")
    case Nil
    then show ?thesis using pr room ok(2) st(6) resetRequest_ok by auto
  next
    case (Cons command beg)
    let ?s = "?ss\<lparr>ss_command := command\<rparr>"
    note t = resetRequest_ok
    consider (upd) policy where "policy_of command = Some policy" | (get) "policy_of command = None" "command = ''get'' \<or> command = ''gets''"
      | (del) "command = ''delete''" | (other) "policy_of command = None" "command \<noteq> ''get''" "command \<noteq> ''gets''" "command \<noteq> ''delete''" by blast
    then show ?thesis
    proof cases
      case upd
      have "beg \<noteq> []" using f Cons upd by (auto simp: fatal_request_def)
      moreover have "case read_numbers (policy = kCas) (tl beg) of Some (flags, exptime, bytes, cas) \<Rightarrow> 0 \<le> bytes | None \<Rightarrow> True" if "length (hd beg) \<le> kLongestKeySize"
        using f Cons upd that by (auto simp: fatal_request_def split: option.splits)
      ultimately show ?thesis using doUpdate_ok [of ?s policy beg hash srv n] upd room ok(2) st Cons pr by (simp add: dispatch_def)
    next
      case get
      then show ?thesis using doGet_ok [of hash "command = ''gets''" beg ?s srv] pr Cons room ok(2) st(6) t by (auto simp: dispatch_def)
    next
      case del
      then have "beg \<noteq> []" using f Cons by (auto simp: fatal_request_def)
      then show ?thesis using doDelete_ok [of ?s beg hash srv n] del pr Cons room ok(2) st(6) t by (auto simp: dispatch_def policy_of_def)
    next
      case other
      then show ?thesis using pr Cons room srv_room_stop [OF room] ok(2) st(6) t by (auto simp: dispatch_def ss_shutdown_def)
    qed
  qed
qed

text \<open>The value of an item that is complete.\<close>

lemma cache_store_size:
  assumes "snd (cache_store policy key e c m) k = Some e'" and "\<And>k e. m k = Some e \<Longrightarrow> length (e_text e) + n + 254 < b" and "length (e_text e) + 2 \<le> n" and "n + 254 < b"
  shows "length (e_text e') + (n - (length (e_text e) + 2)) + 254 < b"
proof -
  have "length (e_text e') \<le> length (e_text e) \<or> (\<exists>old. (m k = Some old \<or> m key = Some old) \<and> length (e_text e') \<le> length (e_text old) + length (e_text e))"
    using assms(1) by (cases policy) (auto split: option.splits if_splits)
  then show ?thesis using assms(2-4) by fastforce
qed

lemma srv_room_store:
  assumes room: "srv_room hash srv n" and ok: "item_ok hash item" "policy \<noteq> kInvalidPolicy" and n: "it_valuelen item \<le> n" and key: "it_keylen item \<le> kLongestKeySize"
  shows "\<exists>stored existed srv'. storeItem item policy hash srv = Some (stored, existed, srv') \<and> srv_room hash srv' (n - it_valuelen item)"
proof -
  have len: "length (it_text item) + 2 = it_valuelen item" by (rule item_value(3) [OF ok(1)])
  have c: "unat (mc_g_cas srv) < 2 ^ 64 - 1" using room n len by (simp add: srv_room_def)
  have sz: "totalLen item + length (e_text e) + 2 < 2 ^ 31" if "mc_abs hash srv (it_key item) = Some e" for e
  proof -
    have "length (e_text e) + n + 254 < 2 ^ 31" using room that unfolding srv_room_def by blast
    then show ?thesis using n key by (simp add: totalLen_def kLongestKeySize_def)
  qed
  obtain stored srv' where st: "storeItem item policy hash srv = Some (stored, mc_abs hash srv (it_key item) \<noteq> None, srv')" "mc_ok hash srv'"
      "cache_store policy (it_key item) (entry item) (mc_g_cas srv + 1) (mc_abs hash srv) = (stored, mc_abs hash srv')" "mc_g_cas srv' = mc_g_cas srv + 1 \<or> srv' = srv"
    using storeItem_refines [OF _ ok(1) c ok(2) sz] room unfolding srv_room_def by blast
  have u: "unat (mc_g_cas srv + 1) = unat (mc_g_cas srv) + 1" using of_nat_inverse [of "unat (mc_g_cas srv) + 1" "mc_g_cas srv + 1"] c by simp
  have "length (e_text e) + (n - it_valuelen item) + 254 < 2 ^ 31" if "mc_abs hash srv' k = Some e" for k e
    using cache_store_size [of policy "it_key item" "entry item" "mc_g_cas srv + 1" "mc_abs hash srv" k e n "2 ^ 31"] st(3) that room n len
    by (simp add: srv_room_def entry_def)
  moreover have "unat (mc_g_cas srv') + (n - it_valuelen item) < 2 ^ 64" using st(4) u room n len by (auto simp: srv_room_def)
  moreover have "n - it_valuelen item + 254 < 2 ^ 31" using room unfolding srv_room_def by linarith
  ultimately have "srv_room hash srv' (n - it_valuelen item)" using st(2) unfolding srv_room_def by blast
  with st(1) show ?thesis by blast
qed

lemma finishValue_ok:
  assumes "srv_room hash srv n" and "ss_policy ss \<noteq> kInvalidPolicy" and "length (it_data i) = totalLen i" "2 \<le> it_valuelen i" "it_hash i = hash (it_key i)" and "it_valuelen i \<le> n" and "it_keylen i \<le> kLongestKeySize"
  shows "\<exists>ss' srv'. finishValue hash i ss srv = Some (ss', srv') \<and> ss_protocol ss' = ss_protocol ss \<and> srv_room hash srv' (n - it_valuelen i)"
proof (cases "endsWithCRLF i")
  case True
  then have "item_ok hash i" using assms(3-5) by (simp add: item_ok_def)
  from srv_room_store [OF assms(1) this assms(2,6,7)] True show ?thesis by (auto simp: finishValue_def)
next
  case False
  then show ?thesis using srv_room_mono [OF assms(1)] by (simp add: finishValue_def)
qed

lemma receiveValue_ok:
  assumes ok: "session_ok hash ss" "ss_state ss = kReceiveValue" "buf_ok buf" and room: "srv_room hash srv (readableBytes buf + pending ss)"
  shows "\<exists>buf' ss' srv'. receiveValue hash buf ss srv = Some (buf', ss', srv') \<and> session_ok hash ss' \<and> buf_ok buf' \<and> srv_room hash srv' (readableBytes buf' + pending ss')
    \<and> (\<exists>pre. content buf = pre @ content buf')"
proof -
  obtain i where i: "ss_currItem ss = Some i" "receiving hash i" and p: "ss_policy ss \<noteq> kInvalidPolicy" "ss_protocol ss = kAscii" using ok(1,2) by (auto simp: session_ok_def)
  let ?a = "min (readableBytes buf) (neededBytes i)"
  let ?bytes = "subrange (peek buf) ?a (buffer buf)"
  let ?i = "i\<lparr>it_data := it_data i @ ?bytes\<rparr>"
  have lb: "length ?bytes = ?a" using arg_cong [OF content_window [OF ok(3), of 0 ?a], of length] ok(3) by (simp add: peek_def)
  have r: "it_keylen i \<le> length (it_data i)" "length (it_data i) < totalLen i" "2 \<le> it_valuelen i" "it_hash i = hash (it_key i)" "it_keylen i \<le> kLongestKeySize" using i(2) by (simp_all add: receiving_def)
  have ap: "Item_append ?bytes i = Some ?i" using lb r(2) by (simp add: Item_append_def neededBytes_def totalLen_def Let_def)
  obtain buf' where b: "retrieve ?a buf = Some buf'" "buf_ok buf'" "content buf' = drop ?a (content buf)" using retrieve_ok [OF ok(3), of ?a] by auto
  have pre: "\<exists>pre. content buf = pre @ content buf'" using b(3) by (metis append_take_drop_id)
  have rb: "readableBytes buf' = readableBytes buf - ?a" using arg_cong [OF b(3), of length] b(2) ok(3) by simp
  have pend: "pending ss = length (it_data i) - it_keylen i" by (simp add: pending_def i)
  have key: "it_key ?i = it_key i" using r(1) by (simp add: it_key_def)
  have total: "totalLen ?i = totalLen i" by (simp add: totalLen_def)
  have ld: "length (it_data ?i) = length (it_data i) + ?a" using lb by simp
  show ?thesis
  proof (cases "neededBytes ?i = 0")
    case True
    then have need: "length (it_data i) + ?a = totalLen i" using ld total r(2) by (simp add: neededBytes_def)
    have v: "it_valuelen i + (readableBytes buf' + 0) = readableBytes buf + pending ss" using need r(1) rb pend by (simp add: totalLen_def)
    then have "readableBytes buf + pending ss - it_valuelen i = readableBytes buf'" by simp
    then obtain ss' srv' where f: "finishValue hash ?i (ss\<lparr>ss_currItem := Some ?i\<rparr>) srv = Some (ss', srv')" "ss_protocol ss' = kAscii" "srv_room hash srv' (readableBytes buf')"
      using finishValue_ok [OF room, of "ss\<lparr>ss_currItem := Some ?i\<rparr>" ?i] p r(3-5) key ld need total v by auto
    then have "receiveValue hash buf ss srv = Some (buf', (resetRequest ss')\<lparr>ss_state := kNewCommand\<rparr>, srv')" using i(1) ok(2) ap b(1) True by (simp add: receiveValue_def Let_def)
    then show ?thesis using f b(2) pre by (auto simp: session_ok_def resetRequest_def pending_def)
  next
    case False
    then have "length (it_data ?i) < totalLen ?i" by (simp add: neededBytes_def)
    then have "receiving hash ?i" using r key total by (simp add: receiving_def)
    moreover have "receiveValue hash buf ss srv = Some (buf', ss\<lparr>ss_currItem := Some ?i\<rparr>, srv)" using i(1) ok(2) ap b(1) False by (simp add: receiveValue_def Let_def)
    moreover have "readableBytes buf' + pending (ss\<lparr>ss_currItem := Some ?i\<rparr>) = readableBytes buf + pending ss" using rb r(1) lb by (simp add: pending_def i)
    ultimately show ?thesis using ok(2) p b(2) pre room by (auto simp: session_ok_def)
  qed
qed

lemma discardValue_ok:
  assumes ok: "session_ok hash ss" "ss_state ss = kDiscardValue" "buf_ok buf" and room: "srv_room hash srv (readableBytes buf + pending ss)"
  shows "\<exists>buf' ss'. discardValue buf ss = Some (buf', ss') \<and> session_ok hash ss' \<and> buf_ok buf' \<and> srv_room hash srv (readableBytes buf' + pending ss') \<and> (\<exists>pre. content buf = pre @ content buf')"
proof -
  have c: "ss_currItem ss = None" "ss_protocol ss = kAscii" using ok(1,2) by (simp_all add: session_ok_def)
  show ?thesis
  proof (cases "readableBytes buf < ss_bytesToDiscard ss")
    case True
    let ?ss = "ss\<lparr>ss_bytesToDiscard := ss_bytesToDiscard ss - readableBytes buf\<rparr>"
    have "discardValue buf ss = Some (retrieveAll buf, ?ss)" using True c ok(2) by (simp add: discardValue_def)
    moreover have "session_ok hash ?ss" "pending ?ss = 0" using c ok(2) by (simp_all add: session_ok_def pending_def)
    moreover have "buf_ok (retrieveAll buf)" "content (retrieveAll buf) = []" using ok(3) by simp_all
    moreover have "srv_room hash srv (readableBytes (retrieveAll buf) + pending ?ss)" by (rule srv_room_mono [OF room]) (simp add: retrieveAll_def buf_defs c pending_def)
    ultimately show ?thesis by auto
  next
    case False
    let ?ss = "(resetRequest (ss\<lparr>ss_bytesToDiscard := 0\<rparr>))\<lparr>ss_state := kNewCommand\<rparr>"
    obtain buf' where b: "retrieve (ss_bytesToDiscard ss) buf = Some buf'" "buf_ok buf'" "content buf' = drop (ss_bytesToDiscard ss) (content buf)"
      using retrieve_ok [OF ok(3), of "ss_bytesToDiscard ss"] False by auto
    have "discardValue buf ss = Some (buf', ?ss)" using False c ok(2) b(1) by (simp add: discardValue_def)
    moreover have "session_ok hash ?ss" "pending ?ss = 0" using c by (simp_all add: session_ok_def pending_def resetRequest_def)
    moreover have "readableBytes buf' \<le> readableBytes buf" using arg_cong [OF b(3), of length] b(2) ok(3) by simp
    then have "srv_room hash srv (readableBytes buf' + pending ?ss)" by (intro srv_room_mono [OF room]) (simp add: c pending_def resetRequest_def)
    moreover have "content buf = take (ss_bytesToDiscard ss) (content buf) @ content buf'" using b(3) by simp
    ultimately show ?thesis using b(2) by blast
  qed
qed

lemma newCommand_ok:
  assumes ok: "session_ok hash ss" "ss_state ss = kNewCommand" "buf_ok buf" and room: "srv_room hash srv (readableBytes buf + pending ss)" and k: "search_at kCRLF (content buf) = Some k"
  shows "if fatal_request (take k (content buf)) then ss_round hash buf ss srv = None
    else \<exists>buf' ss' srv'. ss_round hash buf ss srv = Some (True, buf', ss', srv') \<and> session_ok hash ss' \<and> buf_ok buf' \<and> srv_room hash srv' (readableBytes buf' + pending ss')
      \<and> content buf = take k (content buf) @ kCRLF @ content buf'"
proof -
  have p: "ss_protocol ss = kAscii" using ok(1) by (simp add: session_ok_def)
  note u = retrieveUntil_ok [OF ok(3) k]
  obtain buf' where b: "retrieveUntil (peek buf + k + 2) buf = Some buf'" "buf_ok buf'" "content buf' = drop (k + 2) (content buf)" using u(3) by blast
  have c: "content buf = take k (content buf) @ kCRLF @ content buf'" using crlf_inside(2) [OF k] b(3) by simp
  have le: "readableBytes buf' \<le> readableBytes buf" using arg_cong [OF b(3), of length] b(2) ok(3) by simp
  show ?thesis
  proof (cases "fatal_request (take k (content buf))")
    case True
    then show ?thesis using processRequest_fatal [OF True] p u(1,2) ok(2) by (simp add: ss_round_def)
  next
    case False
    obtain fin ss' srv' where r: "processRequest hash (take k (content buf)) ss srv = Some (fin, ss', srv')" "srv_room hash srv' (readableBytes buf + pending ss)"
        "session_ok hash (if fin then resetRequest ss' else ss')" "pending (if fin then resetRequest ss' else ss') = 0"
      using processRequest_ok [OF ok(1,2) room False] by blast
    have "ss_round hash buf ss srv = Some (True, buf', if fin then resetRequest ss' else ss', srv')" using p u(1,2) ok(2) r(1) b(1) by (simp add: ss_round_def Let_def)
    moreover have "srv_room hash srv' (readableBytes buf' + pending (if fin then resetRequest ss' else ss'))" by (rule srv_room_mono [OF r(2)]) (use le r(4) in simp)
    ultimately show ?thesis using r(3) b(2) c False by auto
  qed
qed

text \<open>One round: the session stays in order and takes bytes from the front of the input, or it aborts at a fatal request.\<close>

lemma ss_round_ok:
  assumes ok: "session_ok hash ss" "buf_ok buf" and room: "srv_room hash srv (readableBytes buf + pending ss)"
  shows "(\<exists>go buf' ss' srv'. ss_round hash buf ss srv = Some (go, buf', ss', srv') \<and> session_ok hash ss' \<and> buf_ok buf' \<and> srv_room hash srv' (readableBytes buf' + pending ss')
      \<and> (\<exists>pre. content buf = pre @ content buf'))
    \<or> ss_round hash buf ss srv = None \<and> (\<exists>request post. content buf = request @ kCRLF @ post \<and> fatal_request request)"
proof (cases "ss_state ss")
  case kNewCommand
  show ?thesis
  proof (cases "search_at kCRLF (content buf)")
    case None
    then have f: "findCRLF buf = None" by (simp add: findCRLF_content)
    have p: "ss_protocol ss = kAscii" using ok(1) by (simp add: session_ok_def)
    let ?ss = "if readableBytes buf > 1024 then ss_shutdown ss else ss"
    have "ss_round hash buf ss srv = Some (False, buf, ?ss, srv)" using p f kNewCommand by (simp add: ss_round_def)
    moreover have "session_ok hash ?ss" "pending ?ss = pending ss" using ok(1) kNewCommand by (simp_all add: session_ok_def ss_shutdown_def pending_def)
    ultimately show ?thesis using ok(2) room by (intro disjI1) auto
  next
    case (Some k)
    show ?thesis
    proof (cases "fatal_request (take k (content buf))")
      case True
      then show ?thesis using newCommand_ok [OF ok(1) kNewCommand ok(2) room Some] crlf_inside(2) [OF Some] by auto
    next
      case False
      then obtain buf' ss' srv' where "ss_round hash buf ss srv = Some (True, buf', ss', srv')" "session_ok hash ss'" "buf_ok buf'" "srv_room hash srv' (readableBytes buf' + pending ss')"
          "content buf = (take k (content buf) @ kCRLF) @ content buf'"
        using newCommand_ok [OF ok(1) kNewCommand ok(2) room Some] by auto
      then show ?thesis by blast
    qed
  qed
next
  case kReceiveValue
  then show ?thesis using receiveValue_ok [OF ok(1) kReceiveValue ok(2) room] by (auto simp: ss_round_def)
next
  case kDiscardValue
  then show ?thesis using discardValue_ok [OF ok(1) kDiscardValue ok(2) room] by (auto simp: ss_round_def)
qed

lemma ss_loop_ok:
  assumes "session_ok hash ss" "buf_ok buf" "srv_room hash srv (readableBytes buf + pending ss)"
  shows "(\<exists>buf' ss' srv'. ss_loop hash buf ss srv = Some (buf', ss', srv') \<and> session_ok hash ss' \<and> buf_ok buf' \<and> srv_room hash srv' (readableBytes buf' + pending ss')
      \<and> (\<exists>pre. content buf = pre @ content buf'))
    \<or> ss_loop hash buf ss srv = None \<and> (\<exists>pre request post. content buf = pre @ request @ kCRLF @ post \<and> fatal_request request)"
  using assms
proof (induction hash buf ss srv rule: ss_loop.induct)
  case (1 hash buf ss srv)
  show ?case
  proof (cases "readableBytes buf > 0")
    case False
    then have "ss_loop hash buf ss srv = Some (buf, ss, srv)" by (simp add: ss_loop.simps)
    then show ?thesis using "1.prems" by auto
  next
    case True
    from ss_round_ok [OF "1.prems"] show ?thesis
    proof (elim disjE exE conjE)
      fix go buf' ss' srv' pre
      assume r: "ss_round hash buf ss srv = Some (go, buf', ss', srv')" "session_ok hash ss'" "buf_ok buf'" "srv_room hash srv' (readableBytes buf' + pending ss')" "content buf = pre @ content buf'"
      have l: "ss_loop hash buf ss srv = (if go then ss_loop hash buf' ss' srv' else Some (buf', ss', srv'))" using True r(1) by (subst ss_loop.simps) simp
      show ?thesis
      proof (cases go)
        case False
        then show ?thesis using l r by auto
      next
        case go: True
        from "1.IH" [OF True r(1) refl refl refl go r(2-4)] show ?thesis
        proof (elim disjE exE conjE)
          fix b s v pre'
          assume "ss_loop hash buf' ss' srv' = Some (b, s, v)" "session_ok hash s" "buf_ok b" "srv_room hash v (readableBytes b + pending s)" "content buf' = pre' @ content b"
          moreover from this have "content buf = (pre @ pre') @ content b" using r(5) by simp
          ultimately show ?thesis using l go by auto
        next
          fix pre' request post
          assume "ss_loop hash buf' ss' srv' = None" "content buf' = pre' @ request @ kCRLF @ post" "fatal_request request"
          moreover from this have "content buf = (pre @ pre') @ request @ kCRLF @ post" using r(5) by simp
          ultimately show ?thesis using l go by metis
        qed
      qed
    next
      fix request post
      assume "ss_round hash buf ss srv = None" "content buf = request @ kCRLF @ post" "fatal_request request"
      moreover from this have "ss_loop hash buf ss srv = None" using True by (subst ss_loop.simps) simp
      ultimately show ?thesis by (metis append_Nil)
    qed
  qed
qed

section \<open>A value that is set and read\<close>

lemma tokens_word:
  assumes "w \<noteq> []" and "CHR '' '' \<notin> set w"
  shows "tokens (w @ CHR '' '' # rest) = w # tokens rest" and "tokens w = [w]"
proof -
  obtain c w' where w: "w = c # w'" "c \<noteq> CHR '' ''" using assms by (cases w) auto
  have t: "takeWhile (\<lambda>c. c \<noteq> CHR '' '') (w @ CHR '' '' # rest) = w" "dropWhile (\<lambda>c. c \<noteq> CHR '' '') (w @ CHR '' '' # rest) = CHR '' '' # rest"
      "takeWhile (\<lambda>c. c \<noteq> CHR '' '') w = w" "dropWhile (\<lambda>c. c \<noteq> CHR '' '') w = []"
    using assms(2) by (auto simp: takeWhile_append dropWhile_append takeWhile_eq_all_conv dropWhile_eq_Nil_conv)
  have d: "dropWhile (\<lambda>c. c = CHR '' '') (w @ r) = w @ r" for r using w by simp
  have sp: "tokens (CHR '' '' # rest) = tokens rest" by (subst (1 2) tokens.simps) simp
  show "tokens (w @ CHR '' '' # rest) = w # tokens rest" by (subst tokens.simps) (use assms(1) in \<open>simp only: d t Let_def sp append_is_Nil_conv if_False simp_thms\<close>)
  have n: "tokens [] = []" by (subst tokens.simps) simp
  show "tokens w = [w]" by (subst tokens.simps) (use assms(1) d [of "[]"] in \<open>simp add: t Let_def n\<close>)
qed

lemma strtoull_dec: "n < 2 ^ 64 \<Longrightarrow> strtoull (dec_nat n) = Some (of_nat n)"
proof -
  assume n: "n < 2 ^ 64"
  obtain c cs where c: "dec_nat n = c # cs" by (cases "dec_nat n") auto
  have d: "isdigit c" "list_all isdigit (c # cs)" using dec_nat_chars [of _ n] c by (auto simp: list_all_iff)
  have h: "c \<noteq> CHR ''-''" "c \<noteq> CHR ''+''" "\<not> isspace c" using d(1) digit_no_space not_digits by metis+
  have "undec (c # cs) = n" using c undec_dec_nat [of n] by simp
  then show ?thesis unfolding strtoull_def c using h d n by (simp add: Let_def)
qed

definition set_line :: "string \<Rightarrow> nat \<Rightarrow> nat \<Rightarrow> nat \<Rightarrow> string" where
  "set_line key flags exptime n = ''set '' @ key @ '' '' @ dec_nat flags @ '' '' @ dec_nat exptime @ '' '' @ dec_nat n"

definition good_key :: "string \<Rightarrow> bool" where
  "good_key key \<longleftrightarrow> key \<noteq> [] \<and> length key \<le> kLongestKeySize \<and> CHR '' '' \<notin> set key \<and> CHR 0x0D \<notin> set key \<and> key \<noteq> ''noreply''"

lemma request_tokens_set:
  assumes "good_key key"
  shows "request_tokens (set_line key flags exptime n) = [''set'', key, dec_nat flags, dec_nat exptime, dec_nat n]" and "fst (strip_noreply (set_line key flags exptime n)) = False"
    and "CHR 0x0D \<notin> set (set_line key flags exptime n)"
proof -
  let ?l = "set_line key flags exptime n"
  have "last ?l = last (dec_nat n)" by (simp add: set_line_def)
  then have "last ?l \<noteq> CHR ''y''" using last_in_set [OF dec_nat_ne_Nil, of n] dec_nat_no [OF not_digits(3), of n] by metis
  moreover have "last ?l = CHR ''y''" if "length ?l \<ge> 8" "drop (length ?l - 8) ?l = '' noreply''"
    using last_drop [of "length ?l - 8" ?l] that by simp
  ultimately have s: "strip_noreply ?l = (False, ?l)" unfolding strip_noreply_def by metis
  then show "fst (strip_noreply ?l) = False" by simp
  have no: "CHR '' '' \<notin> set (dec_nat m)" for m by (rule dec_nat_no) simp
  have k: "key \<noteq> []" "CHR '' '' \<notin> set key" using assms by (simp_all add: good_key_def)
  have "tokens (''set'' @ CHR '' '' # key @ CHR '' '' # dec_nat flags @ CHR '' '' # dec_nat exptime @ CHR '' '' # dec_nat n) = [''set'', key, dec_nat flags, dec_nat exptime, dec_nat n]"
    by (subst tokens_word(1); simp add: tokens_word k no)
  then show "request_tokens ?l = [''set'', key, dec_nat flags, dec_nat exptime, dec_nat n]" unfolding request_tokens_def s by (simp add: set_line_def)
  show "CHR 0x0D \<notin> set ?l" using assms dec_nat_no [OF not_digits(2)] by (simp add: set_line_def good_key_def)
qed

lemma last_word: "pre @ c # w = pre' @ c # w' \<Longrightarrow> c \<notin> set w \<Longrightarrow> c \<notin> set w' \<Longrightarrow> w = w'"
proof -
  assume e: "pre @ c # w = pre' @ c # w'" and n: "c \<notin> set w" "c \<notin> set w'"
  have t: "takeWhile (\<lambda>x. x \<noteq> c) (rev (p @ c # v)) = rev v" if "c \<notin> set v" for p v using that by (auto simp: takeWhile_append takeWhile_eq_all_conv)
  have "rev w = rev w'" using t [OF n(1), of pre] t [OF n(2), of pre'] e by metis
  then show "w = w'" by simp
qed

lemma strip_word:
  assumes "CHR '' '' \<notin> set w" and "w \<noteq> ''noreply''"
  shows "strip_noreply (pre @ CHR '' '' # w) = (False, pre @ CHR '' '' # w)"
proof -
  let ?r = "pre @ CHR '' '' # w"
  have False if "drop (length ?r - 8) ?r = '' noreply''"
  proof -
    have "?r = take (length ?r - 8) ?r @ CHR '' '' # ''noreply''" using append_take_drop_id [of "length ?r - 8" ?r] that by metis
    from last_word [OF this assms(1)] assms(2) show False by simp
  qed
  then show ?thesis unfolding strip_noreply_def by metis
qed

lemma request_tokens_get:
  assumes "good_key key"
  shows "request_tokens (''get '' @ key) = [''get'', key]" and "fst (strip_noreply (''get '' @ key)) = False" and "CHR 0x0D \<notin> set (''get '' @ key)"
proof -
  have k: "key \<noteq> []" "CHR '' '' \<notin> set key" "key \<noteq> ''noreply''" using assms by (simp_all add: good_key_def)
  have s: "strip_noreply (''get '' @ key) = (False, ''get '' @ key)" using strip_word [OF k(2,3), of "''get''"] by simp
  then show "fst (strip_noreply (''get '' @ key)) = False" by simp
  have "tokens (''get'' @ CHR '' '' # key) = [''get'', key]" by (subst tokens_word(1); simp add: tokens_word k)
  then show "request_tokens (''get '' @ key) = [''get'', key]" unfolding request_tokens_def s by simp
  show "CHR 0x0D \<notin> set (''get '' @ key)" using assms by (simp add: good_key_def)
qed

lemma request_tokens_get_two:
  assumes "good_key key" and "CHR '' '' \<notin> set long" "CHR 0x0D \<notin> set long" "kLongestKeySize < length long"
  shows "request_tokens (''get '' @ key @ '' '' @ long) = [''get'', key, long]" and "fst (strip_noreply (''get '' @ key @ '' '' @ long)) = False" and "CHR 0x0D \<notin> set (''get '' @ key @ '' '' @ long)"
proof -
  have k: "key \<noteq> []" "CHR '' '' \<notin> set key" "long \<noteq> []" "long \<noteq> ''noreply''" using assms(1,4) by (auto simp: good_key_def kLongestKeySize_def)
  have s: "strip_noreply (''get '' @ key @ '' '' @ long) = (False, ''get '' @ key @ '' '' @ long)" using strip_word [OF assms(2) k(4), of "''get '' @ key"] by simp
  then show "fst (strip_noreply (''get '' @ key @ '' '' @ long)) = False" by simp
  have "tokens (''get'' @ CHR '' '' # key @ CHR '' '' # long) = [''get'', key, long]" by (subst tokens_word(1); simp add: tokens_word k assms(2))
  then show "request_tokens (''get '' @ key @ '' '' @ long) = [''get'', key, long]" unfolding request_tokens_def s by simp
  show "CHR 0x0D \<notin> set (''get '' @ key @ '' '' @ long)" using assms(1,3) by (simp add: good_key_def)
qed

lemma read_numbers_set:
  assumes "flags < 2 ^ 32" "exptime < 2 ^ 63" "n < 2 ^ 31"
  shows "read_numbers False [dec_nat flags, dec_nat exptime, dec_nat n] = Some (of_nat flags, int exptime, int n, 0)"
proof -
  have e: "sint (of_nat exptime :: 64 word) = int exptime" using assms(2) by (simp add: signed_of_nat signed_take_bit_int_eq_self)
  have b: "sint (ucast (of_nat n :: 64 word) :: 32 word) = int n" using assms(3) by (simp add: unsigned_of_nat signed_of_nat take_bit_nat_eq_self signed_take_bit_int_eq_self)
  have "ucast (of_nat flags :: 64 word) = (of_nat flags :: 32 word)" using assms(1) by (simp add: unsigned_of_nat take_bit_nat_eq_self)
  then show ?thesis using assms e b by (simp add: read_numbers_def strtoull_dec)
qed

text \<open>A session between two requests whose answers reach the client.\<close>

definition idle :: "(string \<Rightarrow> nat) \<Rightarrow> Session \<Rightarrow> bool" where
  "idle hash ss \<longleftrightarrow> session_ok hash ss \<and> ss_state ss = kNewCommand \<and> ss_connected ss"

lemma idle_fields:
  assumes "idle hash ss"
  shows "ss_command ss = []" "\<not> ss_noreply ss" "ss_policy ss = kInvalidPolicy" "ss_currItem ss = None" "ss_bytesToDiscard ss = 0" "ss_protocol ss = kAscii" "ss_state ss = kNewCommand" "ss_connected ss"
  using assms by (auto simp: idle_def session_ok_def)

text \<open>The session after a request, back between two requests: \<open>msg\<close> was sent.\<close>

definition answered :: "string \<Rightarrow> Item \<Rightarrow> Session \<Rightarrow> Session" where
  "answered msg needle ss = ss\<lparr>ss_requestsProcessed := ss_requestsProcessed ss + 1, ss_needle := needle, ss_sent := ss_sent ss @ msg\<rparr>"

lemma idle_answered: "idle hash ss \<Longrightarrow> idle hash (answered msg needle ss)" "ss_needle (answered msg needle ss) = needle" "ss_sent (answered msg needle ss) = ss_sent ss @ msg"
  by (auto simp: idle_def session_ok_def answered_def)

lemma request_round:
  assumes id: "idle hash ss" and b: "buf_ok buf" "content buf = request @ kCRLF @ rest" "CHR 0x0D \<notin> set request"
    and t: "request_tokens request = command # beg" "fst (strip_noreply request) = False"
    and d: "dispatch hash command beg (ss\<lparr>ss_requestsProcessed := ss_requestsProcessed ss + 1, ss_command := command\<rparr>) srv = Some (fin, ss', srv')"
  shows "\<exists>buf'. ss_loop hash buf ss srv = ss_loop hash buf' (if fin then resetRequest ss' else ss') srv' \<and> buf_ok buf' \<and> content buf' = rest"
proof -
  note f = idle_fields [OF id]
  have k: "search_at kCRLF (content buf) = Some (length request)" unfolding b(2) by (rule search_line [OF b(3)])
  note u = retrieveUntil_ok [OF b(1) k]
  obtain buf' where r: "retrieveUntil (peek buf + length request + 2) buf = Some buf'" "buf_ok buf'" "content buf' = rest" using u(3) b(2) line_parts by auto
  have tk: "take (length request) (content buf) = request" unfolding b(2) by simp
  have eq: "ss\<lparr>ss_requestsProcessed := r, ss_noreply := False, ss_command := c\<rparr> = ss\<lparr>ss_requestsProcessed := r, ss_command := c\<rparr>" for r c using f(2) by simp
  have "processRequest hash request ss srv = Some (fin, ss', srv')" using f(1-5) t d by (simp add: processRequest_def request_tokens_def eq Let_def)
  then have "ss_round hash buf ss srv = Some (True, buf', if fin then resetRequest ss' else ss', srv')" using f(6,7) u(1,2) tk r(1) by (simp add: ss_round_def Let_def)
  moreover have "length (content buf) > 0" using b(2) by (simp add: kCRLF_def)
  then have "0 < readableBytes buf" using b(1) by simp
  ultimately have "ss_loop hash buf ss srv = ss_loop hash buf' (if fin then resetRequest ss' else ss') srv'" by (subst ss_loop.simps) simp
  with r(2,3) show ?thesis by blast
qed

lemma set_round:
  assumes id: "idle hash ss" and b: "buf_ok buf" "content buf = set_line key flags exptime (length val) @ kCRLF @ val @ kCRLF @ rest" and key: "good_key key"
    and n: "flags < 2 ^ 32" "exptime < 2 ^ 63" "length val \<le> 1024 * 1024" and room: "srv_room hash srv (length val + 2)"
  defines "e \<equiv> \<lparr>e_flags = of_nat flags, e_exptime = rel_exptime_of (int exptime) (mc_startTime srv), e_text = val, e_cas = mc_g_cas srv + 1\<rparr>"
  shows "\<exists>buf' srv'. ss_loop hash buf ss srv = ss_loop hash buf' (answered (line ''STORED'') (ss_needle ss) ss) srv' \<and> buf_ok buf' \<and> content buf' = rest
    \<and> mc_ok hash srv' \<and> mc_abs hash srv' = (mc_abs hash srv)(key \<mapsto> e)"
proof -
  note f = idle_fields [OF id]
  let ?i = "\<lparr>it_keylen = length key, it_flags = of_nat flags, it_rel_exptime = rel_exptime_of (int exptime) (mc_startTime srv), it_valuelen = length val + 2, it_data = key, it_cas = 0, it_hash = hash key\<rparr>"
  let ?j = "?i\<lparr>it_data := key @ val @ kCRLF\<rparr>"
  let ?s0 = "ss\<lparr>ss_requestsProcessed := ss_requestsProcessed ss + 1, ss_command := ''set''\<rparr>"
  let ?s1 = "?s0\<lparr>ss_policy := kSet, ss_currItem := Some ?i, ss_state := kReceiveValue\<rparr>"
  have two: "sint (of_int (int (length val) + 2) :: 32 word) = int (length val) + 2" using n(3) by (intro bytes_two) simp_all
  have "dispatch hash ''set'' [key, dec_nat flags, dec_nat exptime, dec_nat (length val)] ?s0 srv = Some (False, ?s1, srv)"
    using key n read_numbers_set [of flags exptime "length val"] two makeItem_ok [of "int (length val) + 2" key hash "of_nat flags" "rel_exptime_of (int exptime) (mc_startTime srv)" 0]
    by (simp del: of_int_add add: dispatch_def policy_of_def doUpdate_def good_key_def kLongestKeySize_def Let_def nat_add_distrib)
  with request_round [OF id b request_tokens_set(3) [OF key] request_tokens_set(1) [OF key] request_tokens_set(2) [OF key]]
  obtain buf1 where r1: "ss_loop hash buf ss srv = ss_loop hash buf1 ?s1 srv" "buf_ok buf1" "content buf1 = val @ kCRLF @ rest" by fastforce
  have need: "neededBytes ?i = length val + 2" by (simp add: neededBytes_def totalLen_def)
  have len: "length (content buf1) = length val + 2 + length rest" using r1(3) by (simp add: kCRLF_def)
  then have a: "readableBytes buf1 = length val + 2 + length rest" using r1(2) by simp
  have w: "subrange (peek buf1) (length val + 2) (buffer buf1) = val @ kCRLF"
    using content_window [OF r1(2), of 0 "length val + 2"] a r1(3) by (simp add: peek_def kCRLF_def)
  have ap: "Item_append (val @ kCRLF) ?i = Some ?j" by (simp add: Item_append_def neededBytes_def totalLen_def kCRLF_def Let_def)
  obtain buf2 where r2: "retrieve (length val + 2) buf1 = Some buf2" "buf_ok buf2" "content buf2 = rest"
    using retrieve_prefix [OF r1(2), of "val @ kCRLF" rest "length val + 2"] r1(3) by (auto simp: kCRLF_def)
  have j: "item_ok hash ?j" "it_key ?j = key" "it_text ?j = val" by (rule item_okI [of ?j key val hash]; simp)+
  have e: "entry ?j\<lparr>e_cas := mc_g_cas srv + 1\<rparr> = e" using j(3) by (simp add: entry_def e_def)
  have jv: "it_valuelen ?j = length val + 2" "it_key ?j = key" using j by simp_all
  have ok: "mc_ok hash srv" "unat (mc_g_cas srv) < 2 ^ 64 - 1" using room by (simp_all add: srv_room_def)
  have sz: "totalLen ?j + length (e_text x) + 2 < 2 ^ 31" if "mc_abs hash srv (it_key ?j) = Some x" for x
  proof -
    have "length (e_text x) + (length val + 2) + 254 < 2 ^ 31" using room that unfolding srv_room_def by blast
    then show ?thesis using key by (simp add: totalLen_def good_key_def kLongestKeySize_def)
  qed
  obtain ex srv' where st: "storeItem ?j kSet hash srv = Some (True, ex, srv')" "mc_ok hash srv'" "mc_abs hash srv' = (mc_abs hash srv)(key \<mapsto> e)"
    using storeItem_refines [OF ok(1) j(1) ok(2) _ sz, of kSet] e jv(2) by (auto simp del: fun_upd_apply)
  have "endsWithCRLF ?j" "neededBytes ?j = 0" using j(1) by (simp_all add: item_ok_def neededBytes_def)
  then have "receiveValue hash buf1 ?s1 srv = Some (buf2, answered (line ''STORED'') (ss_needle ss) ss, srv')"
    using a need w ap r2(1) st(1) f by (simp add: receiveValue_def finishValue_def reply_def ss_send_def resetRequest_def answered_def Let_def)
  then have "ss_loop hash buf1 ?s1 srv = ss_loop hash buf2 (answered (line ''STORED'') (ss_needle ss) ss) srv'"
    using a by (subst ss_loop.simps) (simp add: ss_round_def)
  with r1(1) r2(2,3) st(2,3) show ?thesis by auto
qed

text \<open>The text that \<open>get\<close> answers for an entry.\<close>

definition value_text :: "string \<Rightarrow> Entry \<Rightarrow> string" where
  "value_text key e = line (''VALUE '' @ key @ '' '' @ dec_nat (unat (e_flags e)) @ '' '' @ dec_nat (length (e_text e))) @ line (e_text e)"

lemma output_entry:
  assumes "item_ok hash i" and "it_key i = key"
  shows "Item_output False i = value_text key (entry i)"
proof -
  note v = item_value [OF assms(1)]
  have "int (it_valuelen i) - 2 = int (length (it_text i))" using v(3) by simp
  then show ?thesis using v(2) assms(2) by (simp add: Item_output_def value_text_def line_def entry_def dec_int_def)
qed

lemma lookup_key:
  assumes "mc_ok hash srv" and "length key \<le> kLongestKeySize"
  shows "\<exists>needle'. resetKey hash key needle = Some needle' \<and> (case mc_abs hash srv key of
      None \<Rightarrow> getItem needle' srv = None
    | Some e \<Rightarrow> \<exists>i. getItem needle' srv = Some i \<and> Item_output False i = value_text key e)"
proof -
  obtain nd where nd: "resetKey hash key needle = Some nd" "is_needle hash key nd" using resetKey_needle [of key hash needle] assms(2) by (auto simp: kLongestKeySize_def)
  have "case mc_abs hash srv key of None \<Rightarrow> getItem nd srv = None | Some e \<Rightarrow> \<exists>i. getItem nd srv = Some i \<and> Item_output False i = value_text key e"
  proof (cases "getItem nd srv")
    case None
    then show ?thesis using getItem_abs [OF nd(2), of srv] by (cases "mc_abs hash srv key") simp_all
  next
    case (Some i)
    then have "item_ok hash i \<and> it_key i = key" using assms(1) nd(2) by (auto simp: mc_ok_def getItem_def is_needle_def)
    then show ?thesis using Some getItem_abs [OF nd(2), of srv] output_entry by (cases "mc_abs hash srv key") auto
  qed
  with nd(1) show ?thesis by blast
qed

lemma get_round:
  assumes id: "idle hash ss" and b: "buf_ok buf" "content buf = ''get '' @ key @ kCRLF @ rest" and key: "good_key key" and ok: "mc_ok hash srv"
  defines "out \<equiv> ss_outputBuf ss @ (case mc_abs hash srv key of None \<Rightarrow> [] | Some e \<Rightarrow> value_text key e) @ line ''END''"
  shows "\<exists>buf' needle. ss_loop hash buf ss srv = ss_loop hash buf' ((answered out needle ss)\<lparr>ss_outputBuf := []\<rparr>) srv \<and> buf_ok buf' \<and> content buf' = rest"
proof -
  note f = idle_fields [OF id]
  have "length key \<le> kLongestKeySize" using key by (simp add: good_key_def)
  with lookup_key [OF ok this, of "ss_needle ss"] obtain nd where nd: "resetKey hash key (ss_needle ss) = Some nd" "length key \<le> kLongestKeySize"
      "case mc_abs hash srv key of None \<Rightarrow> getItem nd srv = None | Some e \<Rightarrow> \<exists>i. getItem nd srv = Some i \<and> Item_output False i = value_text key e"
    by blast
  let ?s = "ss\<lparr>ss_requestsProcessed := ss_requestsProcessed ss + 1, ss_command := ''get''\<rparr>"
  let ?s' = "?s\<lparr>ss_needle := nd, ss_outputBuf := [], ss_sent := ss_sent ss @ out\<rparr>"
  have "doGet hash False [key] ?s srv = Some ?s'" using nd f(8) by (cases "mc_abs hash srv key") (auto simp: doGet_def out_def ss_send_def Let_def)
  then have "dispatch hash ''get'' [key] ?s srv = Some (True, ?s', srv)" by (simp add: dispatch_def policy_of_def)
  from request_round [OF id b(1) _ request_tokens_get(3) [OF key] request_tokens_get(1,2) [OF key] this] b(2)
  obtain buf' where r: "ss_loop hash buf ss srv = ss_loop hash buf' (resetRequest ?s') srv" "buf_ok buf'" "content buf' = rest" by auto
  have "resetRequest ?s' = (answered out nd ss)\<lparr>ss_outputBuf := []\<rparr>" using f(1-5) by (simp add: resetRequest_def answered_def)
  with r show ?thesis by metis
qed

section \<open>Properties\<close>

lemma new_Session_ok: "\<exists>ss. new_Session hash = Some ss \<and> idle hash ss \<and> ss_outputBuf ss = [] \<and> ss_sent ss = []"
  using makeItem_ok [of 2 "replicate kLongestKeySize (CHR ''x'')" hash 0 0 0] by (simp add: kLongestKeySize_def new_Session_def idle_def session_ok_def)

lemma session_ok_upd [simp]:
  "session_ok hash (s\<lparr>ss_bytesRead := n\<rparr>) = session_ok hash s" "session_ok hash (s\<lparr>ss_outputBuf := out\<rparr>) = session_ok hash s" "pending (s\<lparr>ss_bytesRead := n\<rparr>) = pending s"
  by (cases "ss_state s"; simp add: session_ok_def pending_def)+

lemma idle_upd [simp]: "idle hash (s\<lparr>ss_bytesRead := n\<rparr>) = idle hash s" "idle hash (s\<lparr>ss_outputBuf := out\<rparr>) = idle hash s"
  by (simp_all add: idle_def)

lemma answered_ends:
  assumes "ss_loop hash buf ss srv = ss_loop hash buf' ss' srv'" and "buf_ok buf'" "content buf' = []"
  shows "ss_onMessage hash buf ss srv = Some (buf', ss'\<lparr>ss_bytesRead := ss_bytesRead ss' + readableBytes buf\<rparr>, srv')"
proof -
  have "readableBytes buf' = 0" using arg_cong [OF assms(3), of length] assms(2) by simp
  moreover from this have "ss_loop hash buf' ss' srv' = Some (buf', ss', srv')" by (simp add: ss_loop.simps)
  ultimately show ?thesis using assms(1) by (simp add: ss_onMessage_def)
qed

lemma ss_onMessage_ok:
  assumes "session_ok hash ss" and "buf_ok buf" and "srv_room hash srv (readableBytes buf + pending ss)"
  shows "case ss_onMessage hash buf ss srv of
       Some (buf', ss', srv') \<Rightarrow> session_ok hash ss' \<and> buf_ok buf' \<and> srv_room hash srv' (readableBytes buf' + pending ss') \<and> (\<exists>pre. content buf = pre @ content buf')
     | None \<Rightarrow> \<exists>pre request post. content buf = pre @ request @ kCRLF @ post \<and> fatal_request request"
  using ss_loop_ok [OF assms] by (elim disjE exE conjE) (simp_all add: ss_onMessage_def, blast)

text \<open>All sessions of the server stay in order, whatever connections come, go and send.\<close>

definition host_ok :: "(string \<Rightarrow> nat) \<Rightarrow> McHost \<Rightarrow> bool" where
  "host_ok hash h \<longleftrightarrow> mc_ok hash (mh_server h) \<and> (\<forall>name ss. mh_sessions h name = Some ss \<longrightarrow> session_ok hash ss)"

lemma mc_onConnection_ok:
  assumes "host_ok hash h" and "connected \<longleftrightarrow> mh_sessions h name = None"
  shows "\<exists>h'. mc_onConnection hash connected name h = Some h' \<and> host_ok hash h' \<and> mh_server h' = mh_server h \<and> (\<forall>other. other \<noteq> name \<longrightarrow> mh_sessions h' other = mh_sessions h other)"
proof -
  obtain ss where "new_Session hash = Some ss" "session_ok hash ss" using new_Session_ok by (auto simp: idle_def)
  then show ?thesis using assms by (auto simp: mc_onConnection_def host_ok_def)
qed

lemma mc_onMessage_ok:
  assumes ok: "host_ok hash h" "mh_sessions h name = Some ss" "buf_ok buf" and room: "srv_room hash (mh_server h) (readableBytes buf + pending ss)"
    and r: "\<And>pre request post. content buf = pre @ request @ kCRLF @ post \<Longrightarrow> \<not> fatal_request request"
  shows "\<exists>buf' h'. mc_onMessage hash name buf h = Some (buf', h') \<and> buf_ok buf' \<and> host_ok hash h' \<and> (\<forall>other. other \<noteq> name \<longrightarrow> mh_sessions h' other = mh_sessions h other)"
proof -
  have "session_ok hash ss" using ok(1,2) by (auto simp: host_ok_def)
  from ss_onMessage_ok [OF this ok(3) room] r obtain buf' ss' srv' where
    "ss_onMessage hash buf ss (mh_server h) = Some (buf', ss', srv')" "session_ok hash ss'" "buf_ok buf'" "mc_ok hash srv'"
    by (fastforce simp: srv_room_def split: option.splits)
  then show ?thesis using ok(1,2) by (auto simp: mc_onMessage_def host_ok_def)
qed

text \<open>C35: a memcached session survives every input: whatever bytes arrive, in whatever pieces, the session and the shared table stay in order and bytes are taken from the front of the
  input only, unless the input holds, before an end of line, one of the request texts that abort the server; the loop always ends. (The table must have room: no value may grow to two gigabytes.)\<close>

theorem session_safe:
  assumes "session_ok hash ss" and "buf_ok buf" and "srv_room hash srv (readableBytes buf + pending ss)"
  shows "(\<exists>ss0. new_Session hash = Some ss0 \<and> session_ok hash ss0)
    \<and> (case ss_onMessage hash buf ss srv of
         Some (buf', ss', srv') \<Rightarrow> session_ok hash ss' \<and> buf_ok buf' \<and> srv_room hash srv' (readableBytes buf' + pending ss') \<and> (\<exists>pre. content buf = pre @ content buf')
       | None \<Rightarrow> \<exists>pre request post. content buf = pre @ request @ kCRLF @ post \<and> fatal_request request)"
  using new_Session_ok [of hash] ss_onMessage_ok [OF assms] by (auto simp only: idle_def)

text \<open>C36: what a client stores is what every client reads: a \<open>set\<close> with any key, flags and text of at most one megabyte (line ends included), followed by a \<open>get\<close>, is answered with
  \<open>STORED\<close> and then the same text, flags and length; the table maps the key to the new entry and is otherwise unchanged.\<close>

theorem session_set_get:
  assumes "idle hash ss" and "ss_outputBuf ss = []" and "good_key key" and "flags < 2 ^ 32" and "exptime < 2 ^ 63" and "length val \<le> 1024 * 1024"
    and "buf_ok buf" and "content buf = set_line key flags exptime (length val) @ kCRLF @ val @ kCRLF @ ''get '' @ key @ kCRLF" and "srv_room hash srv (length val + 2)"
  shows "\<exists>buf' ss' srv' e. ss_onMessage hash buf ss srv = Some (buf', ss', srv') \<and> content buf' = [] \<and> idle hash ss'
    \<and> ss_sent ss' = ss_sent ss @ line ''STORED'' @ line (''VALUE '' @ key @ '' '' @ dec_nat flags @ '' '' @ dec_nat (length val)) @ line val @ line ''END''
    \<and> e_text e = val \<and> e_flags e = of_nat flags \<and> mc_abs hash srv' = (mc_abs hash srv)(key \<mapsto> e) \<and> mc_ok hash srv'"
proof -
  define e where "e = \<lparr>e_flags = of_nat flags, e_exptime = rel_exptime_of (int exptime) (mc_startTime srv), e_text = val, e_cas = mc_g_cas srv + 1\<rparr>"
  let ?s1 = "answered (line ''STORED'') (ss_needle ss) ss"
  obtain buf1 srv' where r: "ss_loop hash buf ss srv = ss_loop hash buf1 ?s1 srv'" "buf_ok buf1" "content buf1 = ''get '' @ key @ kCRLF @ []" "mc_ok hash srv'" "mc_abs hash srv' = (mc_abs hash srv)(key \<mapsto> e)"
    using set_round [OF assms(1,7,8,3-6,9)] unfolding e_def by auto
  note id = idle_answered(1) [OF assms(1), of "line ''STORED''" "ss_needle ss"]
  from get_round [OF id r(2,3) assms(3) r(4)] obtain buf2 nd where
    g: "ss_loop hash buf1 ?s1 srv' = ss_loop hash buf2 ((answered (value_text key e @ line ''END'') nd ?s1)\<lparr>ss_outputBuf := []\<rparr>) srv'" "buf_ok buf2" "content buf2 = []"
    using r(5) assms(2) by (auto simp: answered_def)
  note fin = answered_ends [OF trans [OF r(1) g(1)] g(2,3)]
  have "unat (of_nat flags :: 32 word) = flags" using assms(4) by (simp add: unsigned_of_nat take_bit_nat_eq_self)
  then have v: "value_text key e = line (''VALUE '' @ key @ '' '' @ dec_nat flags @ '' '' @ dec_nat (length val)) @ line val" by (simp add: value_text_def e_def)
  have i: "idle hash (((answered (value_text key e @ line ''END'') nd ?s1)\<lparr>ss_outputBuf := []\<rparr>)\<lparr>ss_bytesRead := n\<rparr>)" for n
    using idle_answered(1) [OF id] by simp
  have ef: "e_text e = val" "e_flags e = of_nat flags" by (simp_all add: e_def)
  show ?thesis unfolding fin using i g(3) r(4,5) v ef by (auto simp: answered_def simp del: fun_upd_apply intro!: exI [of _ e])
qed

text \<open>C37: a single line of a client stops the whole server: an update or a deletion without a key, or an update with a negative length, fails an assertion.\<close>

theorem fatal_requests_abort:
  assumes "session_ok hash ss" and "ss_state ss = kNewCommand" and "buf_ok buf" and "content buf = request @ kCRLF @ rest" and "CHR 0x0D \<notin> set request" and "fatal_request request"
  shows "ss_onMessage hash buf ss srv = None"
proof -
  have k: "search_at kCRLF (content buf) = Some (length request)" unfolding assms(4) by (rule search_line [OF assms(5)])
  have t: "take (length request) (content buf) = request" unfolding assms(4) by simp
  have "ss_round hash buf ss srv = None"
    using retrieveUntil_ok [OF assms(3) k] t processRequest_fatal [OF assms(6)] assms(1,2) by (simp add: ss_round_def session_ok_def)
  moreover have "length (content buf) > 0" using assms(4) by (simp add: kCRLF_def)
  then have "0 < readableBytes buf" using assms(3) by simp
  ultimately show ?thesis by (simp add: ss_onMessage_def ss_loop.simps)
qed

text \<open>An answer can carry the values of an earlier request: a \<open>get\<close> of a stored key and a key that is too long is answered with an error and leaves the value in the buffer of
  answers; the next \<open>get\<close>, here of a key that is not stored, is answered with that value.\<close>

theorem stale_answer:
  assumes "idle hash ss" and "ss_outputBuf ss = []" and "good_key key" and "good_key other" and "CHR '' '' \<notin> set long" "CHR 0x0D \<notin> set long" "kLongestKeySize < length long"
    and "buf_ok buf" and "content buf = ''get '' @ key @ '' '' @ long @ kCRLF @ ''get '' @ other @ kCRLF" and "mc_ok hash srv" and "mc_abs hash srv key = Some e" and "mc_abs hash srv other = None"
  shows "\<exists>buf' ss'. ss_onMessage hash buf ss srv = Some (buf', ss', srv)
    \<and> ss_sent ss' = ss_sent ss @ line ''CLIENT_ERROR bad command line format'' @ value_text key e @ line ''END''"
proof -
  note f = idle_fields [OF assms(1)]
  have "length key \<le> kLongestKeySize" using assms(3) by (simp add: good_key_def)
  with lookup_key [OF assms(10) this, of "ss_needle ss"] assms(11) obtain nd i where nd: "resetKey hash key (ss_needle ss) = Some nd" "length key \<le> kLongestKeySize"
      "getItem nd srv = Some i" "Item_output False i = value_text key e"
    by auto
  let ?err = "line ''CLIENT_ERROR bad command line format''"
  let ?s = "ss\<lparr>ss_requestsProcessed := ss_requestsProcessed ss + 1, ss_command := ''get''\<rparr>"
  let ?s' = "?s\<lparr>ss_needle := nd, ss_outputBuf := value_text key e, ss_sent := ss_sent ss @ ?err\<rparr>"
  let ?s1 = "(answered ?err nd ss)\<lparr>ss_outputBuf := value_text key e\<rparr>"
  have "doGet hash False [key, long] ?s srv = Some ?s'" using nd f(2,8) assms(2,7) by (simp add: doGet_def reply_def ss_send_def Let_def)
  then have d: "dispatch hash ''get'' [key, long] ?s srv = Some (True, ?s', srv)" by (simp add: dispatch_def policy_of_def)
  note t = request_tokens_get_two [OF assms(3,5-7)]
  have c: "content buf = (''get '' @ key @ '' '' @ long) @ kCRLF @ ''get '' @ other @ kCRLF @ []" using assms(9) by simp
  have eq: "resetRequest ?s' = ?s1" using f(1-5) by (simp add: resetRequest_def answered_def)
  from request_round [OF assms(1,8) c t(3,1,2) d] obtain buf1 where
    r: "ss_loop hash buf ss srv = ss_loop hash buf1 ?s1 srv" "buf_ok buf1" "content buf1 = ''get '' @ other @ kCRLF @ []" unfolding eq by auto
  have id: "idle hash ?s1" using idle_answered(1) [OF assms(1), of ?err nd] by simp
  from get_round [OF id r(2,3) assms(4,10)] obtain buf2 nd2 where
    g: "ss_loop hash buf1 ?s1 srv = ss_loop hash buf2 ((answered (value_text key e @ line ''END'') nd2 ?s1)\<lparr>ss_outputBuf := []\<rparr>) srv" "buf_ok buf2" "content buf2 = []"
    using assms(12) by auto
  show ?thesis using answered_ends [OF trans [OF r(1) g(1)] g(2,3)] by (simp add: answered_def)
qed

definition ex_session :: Session where
  "ex_session = the (new_Session length)"

lemma ex_session_ok: "idle length ex_session" "session_ok length ex_session" "ss_state ex_session = kNewCommand" "ss_outputBuf ex_session = []" "ss_sent ex_session = []" "pending ex_session = 0"
  using new_Session_ok [of length] by (auto simp: ex_session_def idle_def session_ok_def pending_def)

lemma ex_room: "n < 1000 \<Longrightarrow> srv_room length ex_table n" "n < 1000 \<Longrightarrow> srv_room length ex_table_set n"
proof -
  show "srv_room length ex_table n" if "n < 1000" using that ex_table_ok by (simp add: srv_room_def) (simp add: ex_table_def new_MemcacheServer_def)
  have "mc_abs length ex_table_set k = (if k = ''k'' then Some (entry ex_item) else None)" for k
    by (simp add: mc_abs_def ex_table_set_def put_item_in_def set_shard_def ex_table_def new_MemcacheServer_def ex_item_ok kShards_def)
  then show "srv_room length ex_table_set n" if "n < 1000" using that ex_set_abs(1) ex_sizes by (auto simp: srv_room_def entry_def ex_item_ok split: if_splits)
qed

theorem session_safe_witness:
  "\<exists>buf' ss' srv'. ss_onMessage length (ex_input ''get k'') ex_session ex_table = Some (buf', ss', srv') \<and> session_ok length ss' \<and> buf_ok buf' \<and> mc_ok length srv'"
proof -
  let ?s = "''get k''"
  have "srv_room length ex_table (readableBytes (ex_input ?s) + pending ex_session)" by (rule ex_room) (simp add: ex_input_ok ex_session_ok)
  with session_safe [OF ex_session_ok(2) ex_input_ok(1) [of ?s] this]
  have c: "case ss_onMessage length (ex_input ?s) ex_session ex_table of
       Some (buf', ss', srv') \<Rightarrow> session_ok length ss' \<and> buf_ok buf' \<and> srv_room length srv' (readableBytes buf' + pending ss') \<and> (\<exists>pre. content (ex_input ?s) = pre @ content buf')
     | None \<Rightarrow> \<exists>pre request post. content (ex_input ?s) = pre @ request @ kCRLF @ post \<and> fatal_request request"
    by simp
  have "content (ex_input ?s) \<noteq> pre @ request @ kCRLF @ post" for pre request post
  proof
    assume "content (ex_input ?s) = pre @ request @ kCRLF @ post"
    then have "CHR 0x0D \<in> set (content (ex_input ?s))" by (simp add: kCRLF_def)
    then show False by (simp add: ex_input_ok)
  qed
  with c show ?thesis by (auto simp: srv_room_def split: option.splits)
qed

theorem session_set_get_witness:
  "\<exists>buf' ss' srv'. ss_onMessage length (ex_input (set_line ''k'' 7 0 (length ''hello'') @ kCRLF @ ''hello'' @ kCRLF @ ''get '' @ ''k'' @ kCRLF)) ex_session ex_table = Some (buf', ss', srv')
     \<and> ss_sent ss' = line ''STORED'' @ line (''VALUE '' @ ''k'' @ '' '' @ dec_nat 7 @ '' '' @ dec_nat (length ''hello'')) @ line ''hello'' @ line ''END''"
proof -
  let ?s = "set_line ''k'' 7 0 (length ''hello'') @ kCRLF @ ''hello'' @ kCRLF @ ''get '' @ ''k'' @ kCRLF"
  have k: "good_key ''k''" by (simp add: good_key_def kLongestKeySize_def)
  have "length ?s < 1000" by (simp add: set_line_def dec_nat.simps kCRLF_def)
  from session_set_get [OF ex_session_ok(1,4) k, of 7 0 "''hello''" "ex_input ?s" ex_table] ex_input_ok(1) [OF this] show ?thesis
    using ex_room(1) [of "length ''hello'' + 2"] by (auto simp: ex_input_ok ex_session_ok)
qed

lemma ex_fatal: "fatal_request ''set''" "fatal_request ''delete''" "fatal_request ''set k 0 0 -1''"
proof -
  show "fatal_request ''set''" "fatal_request ''delete''" by (simp_all add: fatal_request_def request_tokens_def strip_noreply_def tokens_word(2) policy_of_def)
  have "strip_noreply ''set k 0 0 -1'' = (False, ''set k 0 0 -1'')" by (simp add: strip_noreply_def)
  moreover have "tokens ''set k 0 0 -1'' = [''set'', ''k'', ''0'', ''0'', ''-1'']"
    using tokens_word(1) [of "''set''" "''k 0 0 -1''"] tokens_word(1) [of "''k''" "''0 0 -1''"] tokens_word(1) [of "''0''" "''0 -1''"] tokens_word(1) [of "''0''" "''-1''"] tokens_word(2) [of "''-1''"]
    by simp
  ultimately have t: "request_tokens ''set k 0 0 -1'' = [''set'', ''k'', ''0'', ''0'', ''-1'']" by (simp add: request_tokens_def)
  have "strtoull ''0'' = Some 0" "strtoull ''-1'' = Some (- 1)" by (simp_all add: strtoull_def isspace_def isdigit_def undec.simps)
  moreover have "sint (ucast (- 1 :: 64 word) :: 32 word) = - 1" by code_simp
  ultimately have "read_numbers False [''0'', ''0'', ''-1''] = Some (0, 0, - 1, 0)" by (simp add: read_numbers_def)
  then show "fatal_request ''set k 0 0 -1''" by (simp add: fatal_request_def t policy_of_def kLongestKeySize_def)
qed

theorem fatal_requests_abort_witness:
  "ss_onMessage length (ex_input (''set'' @ kCRLF)) ex_session ex_table = None \<and> ss_onMessage length (ex_input (''delete'' @ kCRLF)) ex_session ex_table = None
    \<and> ss_onMessage length (ex_input (''set k 0 0 -1'' @ kCRLF)) ex_session ex_table = None"
proof -
  have "ss_onMessage length (ex_input (r @ kCRLF)) ex_session ex_table = None" if "fatal_request r" "CHR 0x0D \<notin> set r" "length r < 900" for r
    using fatal_requests_abort [OF ex_session_ok(2,3) ex_input_ok(1), of "r @ kCRLF" r "[]" ex_table] that by (simp add: ex_input_ok kCRLF_def)
  from this [OF ex_fatal(1)] this [OF ex_fatal(2)] this [OF ex_fatal(3)] show ?thesis by simp
qed

theorem stale_answer_witness:
  "\<exists>buf' ss'. ss_onMessage length (ex_input (''get '' @ ''k'' @ '' '' @ replicate 251 (CHR ''x'') @ kCRLF @ ''get '' @ ''other'' @ kCRLF)) ex_session ex_table_set = Some (buf', ss', ex_table_set)
     \<and> ss_sent ss' = line ''CLIENT_ERROR bad command line format'' @ value_text ''k'' (entry ex_item) @ line ''END''"
proof -
  let ?s = "''get '' @ ''k'' @ '' '' @ replicate 251 (CHR ''x'') @ kCRLF @ ''get '' @ ''other'' @ kCRLF"
  have k: "good_key ''k''" "good_key ''other''" by (simp_all add: good_key_def kLongestKeySize_def)
  have x: "CHR '' '' \<notin> set (replicate 251 (CHR ''x''))" "CHR 0x0D \<notin> set (replicate 251 (CHR ''x''))" "kLongestKeySize < length (replicate 251 (CHR ''x''))" by (simp_all add: kLongestKeySize_def)
  have b: "buf_ok (ex_input ?s)" by (rule ex_input_ok(1)) (simp add: kCRLF_def)
  have o: "mc_abs length ex_table_set ''other'' = None"
    by (simp add: mc_abs_def ex_table_set_def put_item_in_def set_shard_def ex_table_def new_MemcacheServer_def ex_item_ok kShards_def)
  from stale_answer [OF ex_session_ok(1,4) k x b ex_input_ok(2) ex_set_abs(1,2) o] show ?thesis by (simp add: ex_session_ok)
qed

end
