(* ===== verification/Multiplexer.thy ===== *)
theory Multiplexer
  imports Buffer
begin

text \<open>
  \<^verbatim>\<open>examples/multiplexer\<close>: \<^verbatim>\<open>multiplexer.cc\<close> joins the connections of many clients to one connection to a backend, \<^verbatim>\<open>demux.cc\<close> is that backend and splits it into one connection per client to a server.
  Connections are numbers; for each the model has whether it still sends and the bytes it was given. A packet is sent as a whole. The clients of the multiplexer run in several threads: \<open>onClientConnection\<close> is composed of the parts between which it does not hold the mutex, and the steps of the multiplexer are these parts, in any order
  of the clients; the other callbacks, which change the state under the mutex once, are one step. The demultiplexer has one thread.
\<close>

section \<open>Packets\<close>

definition kMaxConns :: nat where
  "kMaxConns = 10"

definition kMaxPacketLen :: nat where
  "kMaxPacketLen = 255"

definition mxHeaderLen :: nat where
  "mxHeaderLen = 3"

text \<open>The header: the length and the two bytes of the identifier.\<close>

definition packet_header :: "nat \<Rightarrow> nat \<Rightarrow> string" where
  "packet_header len cid = [char_of (take_bit 8 len), char_of (take_bit 8 cid), char_of (take_bit 8 (drop_bit 8 cid))]"

text \<open>The loop over the packets of a buffer, which both programs have; \<open>deliver\<close> is what they do with a packet.\<close>

function read_packets :: "(nat \<Rightarrow> string \<Rightarrow> 's \<Rightarrow> 's option) \<Rightarrow> Buffer \<Rightarrow> 's \<Rightarrow> (Buffer \<times> 's) option" where
  "read_packets deliver buf s =
     (if readableBytes buf > mxHeaderLen
      then (let len = of_char (buffer buf ! peek buf)
            in if readableBytes buf < len + mxHeaderLen then Some (buf, s)
               else (let cid = or (of_char (buffer buf ! (peek buf + 1))) (push_bit 8 (of_char (buffer buf ! (peek buf + 2))))
                     in case deliver cid (subrange (peek buf + mxHeaderLen) len (buffer buf)) s of
                          None \<Rightarrow> None
                        | Some s' \<Rightarrow> (case retrieve (len + mxHeaderLen) buf of None \<Rightarrow> None | Some buf' \<Rightarrow> read_packets deliver buf' s')))
      else Some (buf, s))"
  by pat_completeness auto
termination
  by (relation "measure (\<lambda>(deliver, buf, s). readableBytes buf)") (auto simp: mxHeaderLen_def dest!: retrieve_less)

declare read_packets.simps [simp del]

section \<open>The multiplexer\<close>

record MultiplexServer =
  mx_backendConn :: bool
  mx_toBackend :: string
  mx_clientConns :: "nat \<rightharpoonup> nat"
  mx_availIds :: "nat list"
  mx_context :: "nat \<rightharpoonup> nat"
  mx_connected :: "nat set"
  mx_sent :: "nat \<Rightarrow> string"
  mx_transferred :: nat
  mx_receivedMessages :: nat

definition new_MultiplexServer :: MultiplexServer where
  "new_MultiplexServer = \<lparr>mx_backendConn = False, mx_toBackend = [], mx_clientConns = Map.empty, mx_availIds = [], mx_context = Map.empty, mx_connected = {}, mx_sent = (\<lambda>c. []),
     mx_transferred = 0, mx_receivedMessages = 0\<rparr>"

text \<open>\<^verbatim>\<open>send\<close> of a buffer empties it; without a connection to the backend the buffer keeps the packet.\<close>

definition sendBackendPacket :: "nat \<Rightarrow> Buffer \<Rightarrow> MultiplexServer \<Rightarrow> (Buffer \<times> MultiplexServer) option" where
  "sendBackendPacket cid buf mx = do {
     let len = readableBytes buf;
     assert_that (len \<le> kMaxPacketLen);
     buf \<leftarrow> prepend (packet_header len cid) buf;
     Some (if mx_backendConn mx then (retrieveAll buf, mx\<lparr>mx_toBackend := mx_toBackend mx @ content buf\<rparr>) else (buf, mx))
   }"

definition sendBackendString :: "nat \<Rightarrow> string \<Rightarrow> MultiplexServer \<Rightarrow> MultiplexServer option" where
  "sendBackendString cid msg mx = do {
     assert_that (length msg \<le> kMaxPacketLen);
     buf \<leftarrow> new_Buffer kInitialSize;
     buf \<leftarrow> Buffer_append msg buf;
     (buf, mx) \<leftarrow> sendBackendPacket cid buf mx;
     Some mx
   }"

function sendBackendBuffer :: "nat \<Rightarrow> Buffer \<Rightarrow> MultiplexServer \<Rightarrow> (Buffer \<times> MultiplexServer) option" where
  "sendBackendBuffer cid buf mx =
     (if readableBytes buf > kMaxPacketLen
      then (case Option.bind (new_Buffer kInitialSize) (Buffer_append (subrange (peek buf) kMaxPacketLen (buffer buf))) of
              None \<Rightarrow> None
            | Some packet \<Rightarrow>
                (case retrieve kMaxPacketLen buf of
                   None \<Rightarrow> None
                 | Some buf' \<Rightarrow> (case sendBackendPacket cid packet mx of None \<Rightarrow> None | Some (packet', mx') \<Rightarrow> sendBackendBuffer cid buf' mx')))
      else if readableBytes buf > 0 then sendBackendPacket cid buf mx
      else Some (buf, mx))"
  by pat_completeness auto
termination
  by (relation "measure (\<lambda>(cid, buf, mx). readableBytes buf)") (auto simp: kMaxPacketLen_def dest!: retrieve_less)

declare sendBackendBuffer.simps [simp del]

definition mx_send :: "nat \<Rightarrow> string \<Rightarrow> MultiplexServer \<Rightarrow> MultiplexServer" where
  "mx_send conn msg mx = (if conn \<in> mx_connected mx then mx\<lparr>mx_sent := (mx_sent mx)(conn := mx_sent mx conn @ msg)\<rparr> else mx)"

definition packetToClient :: "nat \<Rightarrow> string \<Rightarrow> MultiplexServer \<Rightarrow> MultiplexServer option" where
  "packetToClient cid msg mx = Some (case mx_clientConns mx cid of Some clientConn \<Rightarrow> mx_send clientConn msg mx | None \<Rightarrow> mx)"

definition sendToClient :: "Buffer \<Rightarrow> MultiplexServer \<Rightarrow> (Buffer \<times> MultiplexServer) option" where
  "sendToClient = read_packets packetToClient"

text \<open>What is reported about a client; \<open>peer\<close> is its address. A text that is too long is cut by \<^verbatim>\<open>snprintf\<close>.\<close>

definition conn_text :: "nat \<Rightarrow> string \<Rightarrow> bool \<Rightarrow> string" where
  "conn_text cid peer up = snprintf 256 (''CONN '' @ dec_nat cid @ '' FROM '' @ peer @ (if up then '' IS UP'' else '' IS DOWN'') @ kCRLF)"

text \<open>\<^verbatim>\<open>onClientConnection\<close> takes and gives back an identifier under the mutex, and reports to the backend without it: \<open>takeId\<close> and then \<open>tellUp\<close> for a new client, \<open>tellDown\<close> and then \<open>freeId\<close> for one that goes.\<close>

definition takeId :: "nat \<Rightarrow> MultiplexServer \<Rightarrow> nat option \<times> MultiplexServer" where
  "takeId conn mx =
     (case mx_availIds mx of
        [] \<Rightarrow> (None, mx)
      | cid # ids \<Rightarrow> (Some cid, mx\<lparr>mx_availIds := ids, mx_clientConns := (mx_clientConns mx)(cid \<mapsto> conn)\<rparr>))"

definition tellUp :: "nat \<Rightarrow> string \<Rightarrow> nat option \<Rightarrow> MultiplexServer \<Rightarrow> MultiplexServer option" where
  "tellUp conn peer i mx =
     (if i = None \<or> i = Some 0 then Some (mx\<lparr>mx_connected := mx_connected mx - {conn}\<rparr>)
      else sendBackendString 0 (conn_text (the i) peer True) (mx\<lparr>mx_context := (mx_context mx)(conn \<mapsto> the i)\<rparr>))"

definition tellDown :: "nat \<Rightarrow> string \<Rightarrow> MultiplexServer \<Rightarrow> MultiplexServer option" where
  "tellDown conn peer mx =
     (case mx_context mx conn of
        None \<Rightarrow> Some mx
      | Some cid \<Rightarrow> do {
          assert_that (0 < cid \<and> cid \<le> kMaxConns);
          sendBackendString 0 (conn_text cid peer False) mx
        })"

definition freeId :: "nat \<Rightarrow> MultiplexServer \<Rightarrow> MultiplexServer option" where
  "freeId conn mx =
     (case mx_context mx conn of
        None \<Rightarrow> Some mx
      | Some cid \<Rightarrow>
          if mx_backendConn mx
          then Some (mx\<lparr>mx_availIds := mx_availIds mx @ [cid], mx_clientConns := (mx_clientConns mx)(cid := None)\<rparr>)
          else do {
            assert_that (mx_availIds mx = []);
            assert_that (mx_clientConns mx = Map.empty);
            Some mx
          })"

definition onClientConnection :: "nat \<Rightarrow> string \<Rightarrow> MultiplexServer \<Rightarrow> MultiplexServer option" where
  "onClientConnection conn peer mx =
     (if conn \<in> mx_connected mx
      then (case takeId conn mx of (i, mx) \<Rightarrow> tellUp conn peer i mx)
      else Option.bind (tellDown conn peer mx) (freeId conn))"

definition onClientMessage :: "nat \<Rightarrow> Buffer \<Rightarrow> MultiplexServer \<Rightarrow> (Buffer \<times> MultiplexServer) option" where
  "onClientMessage conn buf mx =
     (let mx = mx\<lparr>mx_transferred := mx_transferred mx + readableBytes buf, mx_receivedMessages := mx_receivedMessages mx + 1\<rparr>
      in case mx_context mx conn of Some cid \<Rightarrow> sendBackendBuffer cid buf mx | None \<Rightarrow> Some (retrieveAll buf, mx))"

text \<open>The new connection to the backend has carried nothing. When it is lost, every client is shut down.\<close>

definition onBackendConnection :: "bool \<Rightarrow> MultiplexServer \<Rightarrow> MultiplexServer option" where
  "onBackendConnection up mx =
     (if up
      then do {
        let mx = mx\<lparr>mx_backendConn := True, mx_toBackend := []\<rparr>;
        assert_that (mx_availIds mx = []);
        Some (mx\<lparr>mx_availIds := [1..<kMaxConns + 1]\<rparr>)
      }
      else Some (mx\<lparr>mx_backendConn := False, mx_clientConns := Map.empty, mx_availIds := [], mx_connected := mx_connected mx - ran (mx_clientConns mx)\<rparr>))"

definition onBackendMessage :: "Buffer \<Rightarrow> MultiplexServer \<Rightarrow> (Buffer \<times> MultiplexServer) option" where
  "onBackendMessage buf mx = sendToClient buf (mx\<lparr>mx_transferred := mx_transferred mx + readableBytes buf, mx_receivedMessages := mx_receivedMessages mx + 1\<rparr>)"

section \<open>The demultiplexer\<close>

record SocksEntry =
  en_connection :: "nat option"
  en_pending :: Buffer

text \<open>\<open>dm_connects\<close> are the identifiers whose clients were told to connect.\<close>

record DemuxServer =
  dm_serverConn :: "nat option"
  dm_socksConns :: "int \<rightharpoonup> SocksEntry"
  dm_connected :: "nat set"
  dm_sent :: "nat \<Rightarrow> string"
  dm_connects :: "int list"

definition new_DemuxServer :: DemuxServer where
  "new_DemuxServer = \<lparr>dm_serverConn = None, dm_socksConns = Map.empty, dm_connected = {}, dm_sent = (\<lambda>c. []), dm_connects = []\<rparr>"

definition dm_send :: "nat \<Rightarrow> string \<Rightarrow> DemuxServer \<Rightarrow> DemuxServer" where
  "dm_send conn msg dm = (if conn \<in> dm_connected dm then dm\<lparr>dm_sent := (dm_sent dm)(conn := dm_sent dm conn @ msg)\<rparr> else dm)"

definition dm_shutdown :: "nat \<Rightarrow> DemuxServer \<Rightarrow> DemuxServer" where
  "dm_shutdown conn dm = dm\<lparr>dm_connected := dm_connected dm - {conn}\<rparr>"

definition onServerConnection :: "nat \<Rightarrow> DemuxServer \<Rightarrow> DemuxServer" where
  "onServerConnection conn dm =
     (if conn \<in> dm_connected dm
      then (if dm_serverConn dm \<noteq> None then dm_shutdown conn dm else dm\<lparr>dm_serverConn := Some conn\<rparr>)
      else if dm_serverConn dm = Some conn then dm\<lparr>dm_serverConn := None, dm_socksConns := Map.empty\<rparr>
      else dm)"

text \<open>\<^verbatim>\<open>atoi\<close>; a number that does not fit, which the language leaves undefined, wraps around.\<close>

definition atoi :: "string \<Rightarrow> int" where
  "atoi s =
     (let s = dropWhile isspace s;
          neg = (s \<noteq> [] \<and> hd s = CHR ''-'');
          ds = takeWhile isdigit (if s \<noteq> [] \<and> (hd s = CHR ''-'' \<or> hd s = CHR ''+'') then tl s else s);
          v = int (undec ds)
      in sint (of_int (if neg then - v else v) :: 32 word))"

text \<open>Indexing a string past its end is undefined: an abort.\<close>

definition doCommand :: "string \<Rightarrow> DemuxServer \<Rightarrow> DemuxServer option" where
  "doCommand cmd dm = do {
     assert_that (length cmd \<ge> 5);
     let connId = atoi (drop 5 cmd);
     let isUp = (search_at '' IS UP'' cmd \<noteq> None);
     if isUp
     then do {
       assert_that (dm_socksConns dm connId = None);
       pending \<leftarrow> new_Buffer kInitialSize;
       Some (dm\<lparr>dm_socksConns := (dm_socksConns dm)(connId \<mapsto> \<lparr>en_connection = None, en_pending = pending\<rparr>), dm_connects := dm_connects dm @ [connId]\<rparr>)
     }
     else do {
       entry \<leftarrow> dm_socksConns dm connId;
       Some (case en_connection entry of Some socksConn \<Rightarrow> dm_shutdown socksConn dm | None \<Rightarrow> dm\<lparr>dm_socksConns := (dm_socksConns dm)(connId := None)\<rparr>)
     }
   }"

definition packetFromServer :: "nat \<Rightarrow> string \<Rightarrow> DemuxServer \<Rightarrow> DemuxServer option" where
  "packetFromServer cid msg dm =
     (if cid \<noteq> 0
      then do {
        entry \<leftarrow> dm_socksConns dm (int cid);
        (case en_connection entry of
           Some socksConn \<Rightarrow> do {
             assert_that (readableBytes (en_pending entry) = 0);
             Some (dm_send socksConn msg dm)
           }
         | None \<Rightarrow> do {
             pending \<leftarrow> Buffer_append msg (en_pending entry);
             Some (dm\<lparr>dm_socksConns := (dm_socksConns dm)(int cid \<mapsto> entry\<lparr>en_pending := pending\<rparr>)\<rparr>)
           })
      }
      else doCommand msg dm)"

definition onServerMessage :: "Buffer \<Rightarrow> DemuxServer \<Rightarrow> (Buffer \<times> DemuxServer) option" where
  "onServerMessage = read_packets packetFromServer"

definition sendServerPacket :: "int \<Rightarrow> Buffer \<Rightarrow> DemuxServer \<Rightarrow> (Buffer \<times> DemuxServer) option" where
  "sendServerPacket connId buf dm = do {
     let len = readableBytes buf;
     assert_that (len \<le> kMaxPacketLen);
     buf \<leftarrow> prepend (packet_header len (nat (connId mod 2 ^ 32))) buf;
     Some (case dm_serverConn dm of
             Some serverConn \<Rightarrow> (if serverConn \<in> dm_connected dm then retrieveAll buf else buf, dm_send serverConn (content buf) dm)
           | None \<Rightarrow> (buf, dm))
   }"

definition onSocksConnection :: "int \<Rightarrow> nat \<Rightarrow> DemuxServer \<Rightarrow> DemuxServer option" where
  "onSocksConnection connId conn dm = do {
     entry \<leftarrow> dm_socksConns dm connId;
     if conn \<in> dm_connected dm
     then let pendingData = en_pending entry
          in Some (if readableBytes pendingData > 0
                   then dm_send conn (content pendingData) (dm\<lparr>dm_socksConns := (dm_socksConns dm)(connId \<mapsto> entry\<lparr>en_connection := Some conn, en_pending := retrieveAll pendingData\<rparr>)\<rparr>)
                   else dm\<lparr>dm_socksConns := (dm_socksConns dm)(connId \<mapsto> entry\<lparr>en_connection := Some conn\<rparr>)\<rparr>)
     else if dm_serverConn dm \<noteq> None
     then do {
       buf \<leftarrow> new_Buffer kInitialSize;
       buf \<leftarrow> Buffer_append (snprintf 256 (''DISCONNECT '' @ dec_int connId @ kCRLF)) buf;
       (buf, dm) \<leftarrow> sendServerPacket 0 buf dm;
       Some dm
     }
     else Some (dm\<lparr>dm_socksConns := (dm_socksConns dm)(connId := None)\<rparr>)
   }"

function socks_packets :: "int \<Rightarrow> Buffer \<Rightarrow> DemuxServer \<Rightarrow> (Buffer \<times> DemuxServer) option" where
  "socks_packets connId buf dm =
     (if readableBytes buf > kMaxPacketLen
      then (case Option.bind (new_Buffer kInitialSize) (Buffer_append (subrange (peek buf) kMaxPacketLen (buffer buf))) of
              None \<Rightarrow> None
            | Some packet \<Rightarrow>
                (case retrieve kMaxPacketLen buf of
                   None \<Rightarrow> None
                 | Some buf' \<Rightarrow> (case sendServerPacket connId packet dm of None \<Rightarrow> None | Some (packet', dm') \<Rightarrow> socks_packets connId buf' dm')))
      else if readableBytes buf > 0 then sendServerPacket connId buf dm
      else Some (buf, dm))"
  by pat_completeness auto
termination
  by (relation "measure (\<lambda>(cid, buf, dm). readableBytes buf)") (auto simp: kMaxPacketLen_def dest!: retrieve_less)

declare socks_packets.simps [simp del]

definition onSocksMessage :: "int \<Rightarrow> Buffer \<Rightarrow> DemuxServer \<Rightarrow> (Buffer \<times> DemuxServer) option" where
  "onSocksMessage connId buf dm = do {
     assert_that (dm_socksConns dm connId \<noteq> None);
     socks_packets connId buf dm
   }"

section \<open>Packets on the wire\<close>

definition packet :: "nat \<times> string \<Rightarrow> string" where
  "packet p = packet_header (length (snd p)) (fst p) @ snd p"

definition packet_ok :: "nat \<times> string \<Rightarrow> bool" where
  "packet_ok p \<longleftrightarrow> fst p < 2 ^ 16 \<and> 0 < length (snd p) \<and> length (snd p) \<le> kMaxPacketLen"

text \<open>The bytes of a packet that is not complete.\<close>

definition incomplete :: "string \<Rightarrow> bool" where
  "incomplete r \<longleftrightarrow> length r \<le> mxHeaderLen \<or> length r < of_char (r ! 0) + mxHeaderLen"

lemma header_length [simp]: "length (packet_header n cid) = 3"
  by (simp add: packet_header_def)

lemma header_bytes:
  assumes "n \<le> kMaxPacketLen" and "cid < 2 ^ 16"
  shows "of_char (packet_header n cid ! 0) = n" and "or (of_char (packet_header n cid ! 1)) (push_bit 8 (of_char (packet_header n cid ! 2))) = cid"
proof -
  show "of_char (packet_header n cid ! 0) = n" using assms(1) by (simp add: packet_header_def kMaxPacketLen_def take_bit_eq_mod)
  have "drop_bit 8 cid < 2 ^ 8" using assms(2) by (simp add: drop_bit_eq_div less_mult_imp_div_less)
  then have "of_char (char_of (take_bit 8 (drop_bit 8 cid))) = drop_bit 8 cid" "of_char (char_of (take_bit 8 cid)) = take_bit 8 cid"
    by (simp_all add: take_bit_eq_mod)
  moreover have "or (take_bit 8 cid) (push_bit 8 (drop_bit 8 cid)) = cid"
  proof (rule bit_eqI)
    show "bit (or (take_bit 8 cid) (push_bit 8 (drop_bit 8 cid))) n = bit cid n" for n by (cases "n < 8") (simp_all add: bit_simps)
  qed
  ultimately show "or (of_char (packet_header n cid ! 1)) (push_bit 8 (of_char (packet_header n cid ! 2))) = cid" by (simp add: packet_header_def)
qed

lemma content_nth: "buf_ok b \<Longrightarrow> k < length (content b) \<Longrightarrow> buffer b ! (readerIndex b + k) = content b ! k"
  by (simp add: content_def subrange_def buf_ok_def)

lemma read_one:
  assumes b: "buf_ok b" "content b = packet p @ rest" and p: "packet_ok p"
  shows "\<exists>b'. read_packets deliver b s = (case deliver (fst p) (snd p) s of None \<Rightarrow> None | Some s' \<Rightarrow> read_packets deliver b' s') \<and> buf_ok b' \<and> content b' = rest"
proof -
  let ?n = "length (snd p)"
  have n: "?n \<le> kMaxPacketLen" "0 < ?n" "fst p < 2 ^ 16" using p by (simp_all add: packet_ok_def)
  have c: "content b = packet_header ?n (fst p) @ snd p @ rest" using b(2) by (simp add: packet_def)
  have rb: "readableBytes b = ?n + 3 + length rest" using arg_cong [OF c, of length] b(1) by simp
  have byte: "buffer b ! (peek b + k) = packet_header ?n (fst p) ! k" if "k < 3" for k
    using content_nth [OF b(1), of k] that c by (simp add: peek_def nth_append)
  have body: "subrange (peek b + 3) ?n (buffer b) = snd p" using content_window [OF b(1), of 3 ?n] rb c by (simp add: peek_def)
  obtain b' where r: "retrieve (?n + 3) b = Some b'" "buf_ok b'" "content b' = rest" using retrieve_prefix [OF b(1), of "packet_header ?n (fst p) @ snd p" rest "?n + 3"] c by auto
  have "read_packets deliver b s = (case deliver (fst p) (snd p) s of None \<Rightarrow> None | Some s' \<Rightarrow> read_packets deliver b' s')"
    using rb n byte [of 0] byte [of 1] byte [of 2] header_bytes [OF n(1,3)] body r(1)
    by (subst read_packets.simps) (simp add: mxHeaderLen_def Let_def split: option.split)
  with r(2,3) show ?thesis by blast
qed

lemma read_rest:
  assumes "buf_ok b" and "incomplete (content b)"
  shows "read_packets deliver b s = Some (b, s)"
proof (cases "readableBytes b > 3")
  case True
  then have "buffer b ! peek b = content b ! 0" using content_nth [OF assms(1), of 0] assms(1) by (simp add: peek_def)
  then show ?thesis using True assms by (subst read_packets.simps) (auto simp: incomplete_def mxHeaderLen_def Let_def)
next
  case False
  then show ?thesis by (subst read_packets.simps) (simp add: mxHeaderLen_def)
qed

lemma read_all:
  assumes "buf_ok b" and "content b = concat (map packet ps) @ r" and "\<And>p. p \<in> set ps \<Longrightarrow> packet_ok p" and "incomplete r"
  shows "\<exists>b'. read_packets deliver b s = map_option (Pair b') (put_all (\<lambda>p. deliver (fst p) (snd p)) ps s) \<and> buf_ok b' \<and> content b' = r"
  using assms
proof (induction ps arbitrary: b s)
  case Nil
  then show ?case using read_rest [of b deliver s] by auto
next
  case (Cons p ps)
  from read_one [of b p "concat (map packet ps) @ r" deliver s] Cons.prems obtain b1 where
    b1: "read_packets deliver b s = (case deliver (fst p) (snd p) s of None \<Rightarrow> None | Some s' \<Rightarrow> read_packets deliver b1 s')" "buf_ok b1" "content b1 = concat (map packet ps) @ r"
    by auto
  show ?case
  proof (cases "deliver (fst p) (snd p) s")
    case None
    obtain b' where "buf_ok b'" "content b' = r" using Cons.IH [OF b1(2,3)] Cons.prems(3,4) by auto
    then show ?thesis using None b1(1) by auto
  next
    case (Some s')
    then show ?thesis using Cons.IH [OF b1(2,3), of s'] Cons.prems(3,4) b1(1) by auto
  qed
qed

text \<open>The packets that a stream is cut into.\<close>

function chunks :: "string \<Rightarrow> string list" where
  "chunks s = (if length s > kMaxPacketLen then take kMaxPacketLen s # chunks (drop kMaxPacketLen s) else if s \<noteq> [] then [s] else [])"
  by pat_completeness auto
termination
  by (relation "measure length") (auto simp: kMaxPacketLen_def)

declare chunks.simps [simp del]

lemma concat_chunks: "concat (chunks s) = s"
  by (induction s rule: chunks.induct) (subst chunks.simps; simp)

lemma chunks_ok: "c \<in> set (chunks s) \<Longrightarrow> cid < 2 ^ 16 \<Longrightarrow> packet_ok (cid, c)"
proof (induction s rule: chunks.induct)
  case (1 s)
  then show ?case by (subst (asm) chunks.simps) (auto simp: packet_ok_def kMaxPacketLen_def split: if_splits)
qed

section \<open>Sending packets\<close>

lemma sendBackendPacket_up:
  assumes "buf_ok buf" and "kCheapPrepend \<le> readerIndex buf" and "readableBytes buf \<le> kMaxPacketLen" and "mx_backendConn mx"
  shows "\<exists>buf'. sendBackendPacket cid buf mx = Some (buf', mx\<lparr>mx_toBackend := mx_toBackend mx @ packet (cid, content buf)\<rparr>) \<and> buf_ok buf' \<and> content buf' = [] \<and> kCheapPrepend \<le> readerIndex buf'"
proof -
  have "length (packet_header (readableBytes buf) cid) \<le> prependableBytes buf" using assms(2) by (simp add: prependableBytes_def kCheapPrepend_def)
  from prepend_ok [OF assms(1) this] obtain b where "prepend (packet_header (readableBytes buf) cid) buf = Some b" "buf_ok b" "content b = packet_header (readableBytes buf) cid @ content buf" by blast
  then show ?thesis using assms(1,3,4) by (simp add: sendBackendPacket_def packet_def Let_def) (simp add: retrieveAll_def)
qed

lemma fresh_buffer:
  assumes "length s \<le> kMaxPacketLen"
  shows "\<exists>b. Option.bind (new_Buffer kInitialSize) (Buffer_append s) = Some b \<and> buf_ok b \<and> content b = s \<and> kCheapPrepend \<le> readerIndex b"
proof -
  from new_Buffer_ok [of kInitialSize] obtain a where a: "new_Buffer kInitialSize = Some a" "buf_ok a" "content a = []" "writerIndex a = kCheapPrepend"
    by (auto simp: kCheapPrepend_def kInitialSize_def vec_max_def)
  have r: "kCheapPrepend \<le> readerIndex a" using a(1) by (auto simp: new_Buffer_def Let_def split: if_splits)
  have "room a (length s)" using a(4) assms by (simp add: room_def kMaxPacketLen_def kCheapPrepend_def vec_max_def)
  from Buffer_append_ok [OF a(2) this] a(3) obtain b where b: "Buffer_append s a = Some b" "buf_ok b" "content b = s" by auto
  from Buffer_append_reader [OF b(1) r] a(1) b show ?thesis by auto
qed

lemma retrieve_reader: "retrieve n b = Some b' \<Longrightarrow> kCheapPrepend \<le> readerIndex b \<Longrightarrow> kCheapPrepend \<le> readerIndex b'"
  by (auto simp: retrieve_def retrieveAll_def split: if_splits)

lemma sendBackendString_up:
  assumes "length s \<le> kMaxPacketLen" and "mx_backendConn mx"
  shows "sendBackendString cid s mx = Some (mx\<lparr>mx_toBackend := mx_toBackend mx @ packet (cid, s)\<rparr>)"
proof -
  obtain b where b: "Option.bind (new_Buffer kInitialSize) (Buffer_append s) = Some b" "buf_ok b" "content b = s" "kCheapPrepend \<le> readerIndex b" using fresh_buffer [OF assms(1)] by blast
  have "readableBytes b \<le> kMaxPacketLen" using b(2,3) assms(1) by (metis length_content)
  from sendBackendPacket_up [OF b(2,4) this assms(2), of cid] obtain b' where "sendBackendPacket cid b mx = Some (b', mx\<lparr>mx_toBackend := mx_toBackend mx @ packet (cid, s)\<rparr>)" using b(3) by auto
  then show ?thesis using b(1) assms(1) by (auto simp: sendBackendString_def abort_elims)
qed

text \<open>Both programs cut a buffer into packets in the same way: \<open>cut\<close> is their loop, \<open>put\<close> sends one packet, \<open>write\<close> is the effect on the stream, as long as the connection is \<open>up\<close>.\<close>

locale packet_sender =
  fixes cid :: nat and put :: "Buffer \<Rightarrow> 's \<Rightarrow> (Buffer \<times> 's) option" and cut :: "Buffer \<Rightarrow> 's \<Rightarrow> (Buffer \<times> 's) option" and "write" :: "string \<Rightarrow> 's \<Rightarrow> 's" and up :: "'s \<Rightarrow> bool"
  assumes put_up: "up s \<Longrightarrow> buf_ok b \<Longrightarrow> kCheapPrepend \<le> readerIndex b \<Longrightarrow> readableBytes b \<le> kMaxPacketLen
      \<Longrightarrow> \<exists>b'. put b s = Some (b', write (packet (cid, content b)) s) \<and> buf_ok b' \<and> content b' = [] \<and> kCheapPrepend \<le> readerIndex b'"
    and write_up: "up s \<Longrightarrow> up (write x s)"
    and write_write: "up s \<Longrightarrow> write y (write x s) = write (x @ y) s"
    and write_Nil: "up s \<Longrightarrow> write [] s = s"
    and cut_loop: "cut b s =
       (if readableBytes b > kMaxPacketLen
        then (case Option.bind (new_Buffer kInitialSize) (Buffer_append (subrange (peek b) kMaxPacketLen (buffer b))) of
                None \<Rightarrow> None
              | Some p \<Rightarrow> (case retrieve kMaxPacketLen b of None \<Rightarrow> None | Some b' \<Rightarrow> (case put p s of None \<Rightarrow> None | Some (p', s') \<Rightarrow> cut b' s')))
        else if readableBytes b > 0 then put b s
        else Some (b, s))"
begin

text \<open>The bytes of the buffer become packets in order.\<close>

lemma cut_up:
  assumes "up s" and "buf_ok b" and "kCheapPrepend \<le> readerIndex b"
  shows "\<exists>b'. cut b s = Some (b', write (concat (map packet (map (Pair cid) (chunks (content b))))) s) \<and> buf_ok b' \<and> content b' = [] \<and> kCheapPrepend \<le> readerIndex b'"
  using assms
proof (induction "readableBytes b" arbitrary: b s rule: less_induct)
  case less
  have len: "length (content b) = readableBytes b" using less.prems(2) by simp
  consider (long) "readableBytes b > kMaxPacketLen" | (short) "readableBytes b \<le> kMaxPacketLen" "readableBytes b > 0" | (empty) "readableBytes b = 0" by linarith
  then show ?case
  proof cases
    case long
    let ?x = "take kMaxPacketLen (content b)"
    have w: "subrange (peek b) kMaxPacketLen (buffer b) = ?x" using content_window [OF less.prems(2), of 0 kMaxPacketLen] long by (simp add: peek_def)
    have lx: "length ?x = kMaxPacketLen" using long len by simp
    obtain p where p: "Option.bind (new_Buffer kInitialSize) (Buffer_append ?x) = Some p" "buf_ok p" "content p = ?x" "kCheapPrepend \<le> readerIndex p" using fresh_buffer [of ?x] lx by auto
    obtain b1 where b1: "retrieve kMaxPacketLen b = Some b1" "buf_ok b1" "content b1 = drop kMaxPacketLen (content b)" using retrieve_ok [OF less.prems(2), of kMaxPacketLen] long by auto
    have small: "readableBytes b1 < readableBytes b" using retrieve_less [OF b1(1)] long by (simp add: kMaxPacketLen_def)
    have "readableBytes p \<le> kMaxPacketLen" using p(2,3) lx by (metis length_content order_refl)
    from put_up [OF less.prems(1) p(2,4) this] obtain p' where "put p s = Some (p', write (packet (cid, ?x)) s)" using p(3) by auto
    then have "cut b s = cut b1 (write (packet (cid, ?x)) s)" using long w p(1) b1(1) by (subst cut_loop) simp
    moreover have "chunks (content b) = ?x # chunks (content b1)" using long len b1(3) by (subst chunks.simps) simp
    ultimately show ?thesis using less.hyps [OF small write_up [OF less.prems(1)] b1(2) retrieve_reader [OF b1(1) less.prems(3)]] write_write [OF less.prems(1)] by auto
  next
    case short
    then have "content b \<noteq> []" using len by auto
    then have "chunks (content b) = [content b]" using short len by (subst chunks.simps) simp
    then show ?thesis using short put_up [OF less.prems short(1)] by (subst cut_loop) simp
  next
    case empty
    then have "content b = []" "chunks (content b) = []" using len by (simp_all add: chunks.simps)
    then show ?thesis using empty less.prems write_Nil [OF less.prems(1)] by (subst cut_loop) simp
  qed
qed

end

interpretation mxs: packet_sender cid "sendBackendPacket cid" "sendBackendBuffer cid" "\<lambda>x mx. mx\<lparr>mx_toBackend := mx_toBackend mx @ x\<rparr>" mx_backendConn for cid
proof unfold_locales
  show "sendBackendBuffer cid b s =
       (if readableBytes b > kMaxPacketLen
        then (case Option.bind (new_Buffer kInitialSize) (Buffer_append (subrange (peek b) kMaxPacketLen (buffer b))) of
                None \<Rightarrow> None
              | Some p \<Rightarrow> (case retrieve kMaxPacketLen b of None \<Rightarrow> None | Some b' \<Rightarrow> (case sendBackendPacket cid p s of None \<Rightarrow> None | Some (p', s') \<Rightarrow> sendBackendBuffer cid b' s')))
        else if readableBytes b > 0 then sendBackendPacket cid b s
        else Some (b, s))" for b s
    by (rule sendBackendBuffer.simps)
qed (use sendBackendPacket_up in auto)

text \<open>The demultiplexer sends the same packets to the multiplexer.\<close>

lemma header_mod: "packet_header n (nat (int cid mod 2 ^ 32)) = packet_header n cid"
proof -
  have "nat (int cid mod 2 ^ 32) = take_bit 32 cid" by (simp add: take_bit_eq_mod nat_mod_distrib)
  then show ?thesis by (simp add: packet_header_def drop_bit_take_bit)
qed

lemma sendServerPacket_up:
  assumes "dm_serverConn dm = Some c \<and> c \<in> dm_connected dm" and "buf_ok buf" and "kCheapPrepend \<le> readerIndex buf" and "readableBytes buf \<le> kMaxPacketLen"
  shows "\<exists>buf'. sendServerPacket (int cid) buf dm = Some (buf', dm_send c (packet (cid, content buf)) dm) \<and> buf_ok buf' \<and> content buf' = [] \<and> kCheapPrepend \<le> readerIndex buf'"
proof -
  let ?h = "packet_header (readableBytes buf) cid"
  have "length ?h \<le> prependableBytes buf" using assms(3) by (simp add: prependableBytes_def kCheapPrepend_def)
  from prepend_ok [OF assms(2) this] obtain b where b: "prepend ?h buf = Some b" "buf_ok b" "content b = ?h @ content buf" by blast
  have "sendServerPacket (int cid) buf dm = Some (retrieveAll b, dm_send c (packet (cid, content buf)) dm)"
    using assms(1,2,4) b header_mod by (simp add: sendServerPacket_def packet_def Let_def)
  then show ?thesis using b(2) by (simp add: retrieveAll_def content_def buf_ok_def)
qed

lemma dm_send_send: "c \<in> dm_connected dm \<Longrightarrow> dm_send c t (dm_send c s dm) = dm_send c (s @ t) dm"
  by (simp add: dm_send_def)

lemma dm_send_fields [simp]: "dm_serverConn (dm_send c s dm) = dm_serverConn dm" "dm_connected (dm_send c s dm) = dm_connected dm" "dm_socksConns (dm_send c s dm) = dm_socksConns dm"
  by (simp_all add: dm_send_def)

interpretation dms: packet_sender cid "sendServerPacket (int cid)" "socks_packets (int cid)" "dm_send c" "\<lambda>dm. dm_serverConn dm = Some c \<and> c \<in> dm_connected dm" for cid c
proof unfold_locales
  show "socks_packets (int cid) b s =
       (if readableBytes b > kMaxPacketLen
        then (case Option.bind (new_Buffer kInitialSize) (Buffer_append (subrange (peek b) kMaxPacketLen (buffer b))) of
                None \<Rightarrow> None
              | Some p \<Rightarrow> (case retrieve kMaxPacketLen b of None \<Rightarrow> None | Some b' \<Rightarrow> (case sendServerPacket (int cid) p s of None \<Rightarrow> None | Some (p', s') \<Rightarrow> socks_packets (int cid) b' s')))
        else if readableBytes b > 0 then sendServerPacket (int cid) b s
        else Some (b, s))" for b s
    by (rule socks_packets.simps)
qed (use sendServerPacket_up dm_send_send in \<open>auto simp: dm_send_def\<close>)

section \<open>Streams\<close>

text \<open>The packets of a sequence of messages, each with its identifier, and what of it is for one connection.\<close>

definition packets_of :: "(nat \<times> string) list \<Rightarrow> (nat \<times> string) list" where
  "packets_of msgs = concat (map (\<lambda>(cid, s). map (Pair cid) (chunks s)) msgs)"

definition wire :: "(nat \<times> string) list \<Rightarrow> string" where
  "wire msgs = concat (map packet (packets_of msgs))"

definition stream_for :: "(nat \<Rightarrow> bool) \<Rightarrow> (nat \<times> string) list \<Rightarrow> string" where
  "stream_for mine msgs = concat (map snd (filter (\<lambda>m. mine (fst m)) msgs))"

lemma stream_for_simps [simp]: "stream_for mine [] = []" "stream_for mine (m # msgs) = (if mine (fst m) then snd m else []) @ stream_for mine msgs" "stream_for mine (xs @ ys) = stream_for mine xs @ stream_for mine ys"
  by (simp_all add: stream_for_def)

lemma stream_for_packets: "stream_for mine (packets_of msgs) = stream_for mine msgs"
proof (induction msgs)
  case (Cons m msgs)
  have "stream_for mine (map (Pair (fst m)) (chunks (snd m))) = (if mine (fst m) then snd m else [])"
    using concat_chunks [of "snd m"] by (simp add: stream_for_def comp_def)
  with Cons show ?case by (cases m) (simp add: packets_of_def)
qed (simp add: packets_of_def)

lemma packets_of_ok: "(\<And>m. m \<in> set msgs \<Longrightarrow> fst m < 2 ^ 16) \<Longrightarrow> p \<in> set (packets_of msgs) \<Longrightarrow> packet_ok p"
  using chunks_ok by (fastforce simp: packets_of_def)

lemma packets_of_ids: "p \<in> set (packets_of msgs) \<Longrightarrow> \<exists>m \<in> set msgs. fst m = fst p"
  by (auto simp: packets_of_def intro: bexI [rotated])

lemma to_clients:
  "put_all (\<lambda>p. packetToClient (fst p) (snd p)) ps mx =
     Some (mx\<lparr>mx_sent := (\<lambda>c. mx_sent mx c @ (if c \<in> mx_connected mx then stream_for (\<lambda>cid. mx_clientConns mx cid = Some c) ps else []))\<rparr>)"
proof (induction ps arbitrary: mx)
  case Nil
  then show ?case by (auto simp: fun_eq_iff intro!: MultiplexServer.equality)
next
  case (Cons p ps)
  obtain mx1 where m: "packetToClient (fst p) (snd p) mx = Some mx1" "mx_connected mx1 = mx_connected mx" "mx_clientConns mx1 = mx_clientConns mx"
    "mx1 = mx\<lparr>mx_sent := (\<lambda>c. mx_sent mx c @ (if c \<in> mx_connected mx \<and> mx_clientConns mx (fst p) = Some c then snd p else []))\<rparr>"
    by (cases "mx_clientConns mx (fst p)") (auto simp: packetToClient_def mx_send_def fun_eq_iff intro!: MultiplexServer.equality)
  show ?case using Cons.IH [of mx1] m by (auto simp: fun_eq_iff intro!: MultiplexServer.equality)
qed

text \<open>The connection that the packets of an identifier go to.\<close>

definition socks_of :: "DemuxServer \<Rightarrow> nat \<Rightarrow> nat option" where
  "socks_of dm cid = Option.bind (dm_socksConns dm (int cid)) en_connection"

text \<open>Bytes wait in an entry only until its connection is there. The states that the callbacks of the demultiplexer can reach, with any connections and any bytes, are such.\<close>

definition entry_ok :: "SocksEntry \<Rightarrow> bool" where
  "entry_ok e \<longleftrightarrow> buf_ok (en_pending e) \<and> (en_connection e \<noteq> None \<longrightarrow> content (en_pending e) = [])"

definition dm_entries :: "DemuxServer \<Rightarrow> bool" where
  "dm_entries dm \<longleftrightarrow> (\<forall>i e. dm_socksConns dm i = Some e \<longrightarrow> entry_ok e)"

inductive dm_reach :: "DemuxServer \<Rightarrow> bool" where
  dm_start: "dm_reach new_DemuxServer"
| dm_open: "dm_reach dm \<Longrightarrow> dm_reach (dm\<lparr>dm_connected := insert c (dm_connected dm)\<rparr>)"
| dm_close: "dm_reach dm \<Longrightarrow> dm_reach (dm\<lparr>dm_connected := dm_connected dm - {c}\<rparr>)"
| dm_server: "dm_reach dm \<Longrightarrow> dm_reach (onServerConnection c dm)"
| dm_message: "dm_reach dm \<Longrightarrow> onServerMessage b dm = Some (b', dm') \<Longrightarrow> dm_reach dm'"
| dm_socks: "dm_reach dm \<Longrightarrow> onSocksConnection i c dm = Some dm' \<Longrightarrow> dm_reach dm'"
| dm_answer: "dm_reach dm \<Longrightarrow> onSocksMessage i b dm = Some (b', dm') \<Longrightarrow> dm_reach dm'"

lemma content_empty: "buf_ok b \<Longrightarrow> content b = [] \<longleftrightarrow> readableBytes b = 0"
  using length_content by (metis length_0_conv)

lemma dm_entriesI:
  assumes "dm_entries dm" and "\<And>i e. dm_socksConns dm' i = Some e \<Longrightarrow> dm_socksConns dm i = Some e \<or> entry_ok e"
  shows "dm_entries dm'"
  using assms unfolding dm_entries_def by blast

lemma new_entry_ok: "new_Buffer kInitialSize = Some b \<Longrightarrow> entry_ok \<lparr>en_connection = None, en_pending = b\<rparr>"
  using new_Buffer_ok [of kInitialSize] by (auto simp: entry_ok_def kInitialSize_def kCheapPrepend_def vec_max_def)

lemma doCommand_entries: "dm_entries dm \<Longrightarrow> doCommand cmd dm = Some dm' \<Longrightarrow> dm_entries dm'"
  by (erule dm_entriesI) (auto simp: doCommand_def dm_shutdown_def Let_def abort_elims new_entry_ok split: if_splits option.splits)

lemma packetFromServer_entries:
  assumes "dm_entries dm" and "packetFromServer cid msg dm = Some dm'"
  shows "dm_entries dm'"
proof (cases "cid = 0")
  case True
  then show ?thesis using assms doCommand_entries by (simp add: packetFromServer_def)
next
  case False
  then obtain e where e: "dm_socksConns dm (int cid) = Some e" using assms(2) by (auto simp: packetFromServer_def abort_elims)
  have ok: "entry_ok e" using assms(1) e by (auto simp: dm_entries_def)
  show ?thesis
  proof (cases "en_connection e")
    case None
    then obtain b where b: "Buffer_append msg (en_pending e) = Some b" "dm' = dm\<lparr>dm_socksConns := (dm_socksConns dm)(int cid \<mapsto> e\<lparr>en_pending := b\<rparr>)\<rparr>"
      using assms(2) False e by (auto simp: packetFromServer_def abort_elims)
    have "entry_ok (e\<lparr>en_pending := b\<rparr>)" using Buffer_append_effect [OF _ b(1)] ok None by (simp add: entry_ok_def)
    then show ?thesis using b(2) by (intro dm_entriesI [OF assms(1)]) (auto split: if_splits)
  next
    case (Some k)
    then show ?thesis using assms False e by (auto simp: packetFromServer_def dm_entries_def abort_elims split: if_splits)
  qed
qed

lemma read_packets_keep:
  assumes "\<forall>cid msg s s'. P s \<longrightarrow> deliver cid msg s = Some s' \<longrightarrow> P s'" and "P s" and "read_packets deliver b s = Some (b', s')"
  shows "P s'"
  using assms
proof (induction deliver b s rule: read_packets.induct)
  case (1 deliver b s)
  let ?len = "of_char (buffer b ! peek b)"
  let ?cid = "or (of_char (buffer b ! (peek b + 1))) (push_bit 8 (of_char (buffer b ! (peek b + 2))))"
  let ?msg = "subrange (peek b + mxHeaderLen) ?len (buffer b)"
  note r = "1.prems"(3) [unfolded read_packets.simps [of deliver b s] Let_def]
  show ?case
  proof (cases "readableBytes b > mxHeaderLen \<and> \<not> readableBytes b < ?len + mxHeaderLen")
    case False
    then show ?thesis using r "1.prems"(2) by (auto split: if_splits)
  next
    case True
    then obtain s1 b1 where d: "deliver ?cid ?msg s = Some s1" "retrieve (?len + mxHeaderLen) b = Some b1" "read_packets deliver b1 s1 = Some (b', s')"
      using r by (auto split: option.splits)
    have "P s1" using "1.prems"(1,2) d(1) by blast
    then show ?thesis using "1.IH" [OF _ refl _ refl d(1,2) "1.prems"(1) _ d(3)] True by blast
  qed
qed

lemma sendServerPacket_socks: "sendServerPacket i b dm = Some (b', dm') \<Longrightarrow> dm_socksConns dm' = dm_socksConns dm"
  by (auto simp: sendServerPacket_def Let_def abort_elims split: option.splits if_splits)

lemma socks_packets_socks: "socks_packets i b dm = Some (b', dm') \<Longrightarrow> dm_socksConns dm' = dm_socksConns dm"
proof (induction i b dm rule: socks_packets.induct)
  case (1 i b dm)
  then show ?case by (subst (asm) (2) socks_packets.simps) (fastforce split: if_splits option.splits dest: sendServerPacket_socks)
qed

lemma onSocksConnection_entries:
  assumes "dm_entries dm" and "onSocksConnection i c dm = Some dm'"
  shows "dm_entries dm'"
proof -
  obtain e where e: "dm_socksConns dm i = Some e" using assms(2) by (auto simp: onSocksConnection_def abort_elims)
  have ok: "entry_ok e" using assms(1) e by (auto simp: dm_entries_def)
  then have "entry_ok (e\<lparr>en_connection := Some c, en_pending := retrieveAll (en_pending e)\<rparr>)" "readableBytes (en_pending e) = 0 \<Longrightarrow> entry_ok (e\<lparr>en_connection := Some c\<rparr>)"
    by (simp_all add: entry_ok_def content_empty)
  then show ?thesis using assms(2) e
    by (intro dm_entriesI [OF assms(1)]) (auto simp: onSocksConnection_def Let_def abort_elims split: if_splits dest!: sendServerPacket_socks)
qed

lemma dm_reach_entries: "dm_reach dm \<Longrightarrow> dm_entries dm"
proof (induction rule: dm_reach.induct)
  case (dm_server dm c)
  then show ?case by (auto simp: onServerConnection_def dm_shutdown_def dm_entries_def)
next
  case (dm_message dm b b' dm')
  then show ?case using read_packets_keep [of dm_entries packetFromServer dm b b' dm'] packetFromServer_entries unfolding onServerMessage_def by blast
next
  case (dm_answer dm i b b' dm')
  then show ?case by (auto simp: onSocksMessage_def dm_entries_def dest!: socks_packets_socks split: if_splits)
next
  case (dm_socks dm i c dm')
  then show ?case by (blast intro: onSocksConnection_entries)
qed (auto simp: new_DemuxServer_def dm_entries_def)

text \<open>The identifiers of messages that the demultiplexer was told of, with memory for what has to wait.\<close>

definition socks_known :: "DemuxServer \<Rightarrow> (nat \<times> string) list \<Rightarrow> bool" where
  "socks_known dm msgs \<longleftrightarrow> (\<forall>m \<in> set msgs. fst m \<noteq> 0 \<and> (\<exists>e. dm_socksConns dm (int (fst m)) = Some e \<and> room (en_pending e) (length (stream_for ((=) (fst m)) msgs))))"

lemma socks_known_packets: "socks_known dm msgs \<Longrightarrow> socks_known dm (packets_of msgs)"
  unfolding socks_known_def stream_for_packets using packets_of_ids by metis

text \<open>What becomes of the entry of an identifier.\<close>

definition waits :: "(nat \<times> string) list \<Rightarrow> DemuxServer \<Rightarrow> DemuxServer \<Rightarrow> bool" where
  "waits ps dm dm' \<longleftrightarrow> (\<forall>i e. dm_socksConns dm (int i) = Some e \<and> en_connection e = None \<longrightarrow>
     (\<exists>b. dm_socksConns dm' (int i) = Some (e\<lparr>en_pending := b\<rparr>) \<and> buf_ok b \<and> content b = content (en_pending e) @ stream_for ((=) i) ps))"

lemma entry_same: "buf_ok (en_pending e) \<Longrightarrow> \<exists>b. e = e\<lparr>en_pending := b\<rparr> \<and> buf_ok b \<and> content b = content (en_pending e)"
  by (intro exI [of _ "en_pending e"]) simp

lemma packet_known:
  assumes "dm_entries dm" and "socks_known dm (p # ps)"
  shows "\<exists>dm1. packetFromServer (fst p) (snd p) dm = Some dm1 \<and> dm_connected dm1 = dm_connected dm \<and> socks_of dm1 = socks_of dm \<and> socks_known dm1 ps \<and> waits [p] dm dm1
    \<and> dm_sent dm1 = (\<lambda>c. dm_sent dm c @ (if c \<in> dm_connected dm \<and> socks_of dm (fst p) = Some c then snd p else []))"
proof -
  obtain e where e: "fst p \<noteq> 0" "dm_socksConns dm (int (fst p)) = Some e" "room (en_pending e) (length (snd p) + length (stream_for ((=) (fst p)) ps))"
    using assms(2) by (auto simp: socks_known_def)
  have ok: "buf_ok (en_pending g)" if "dm_socksConns dm i = Some g" for g i using assms(1) that by (auto simp: dm_entries_def entry_ok_def)
  have known: "\<exists>g. fst m \<noteq> 0 \<and> dm_socksConns dm (int (fst m)) = Some g \<and> room (en_pending g) (length (stream_for ((=) (fst m)) ps))" if m: "m \<in> set ps" for m
  proof -
    obtain g where "fst m \<noteq> 0" "dm_socksConns dm (int (fst m)) = Some g" "room (en_pending g) (length (stream_for ((=) (fst m)) (p # ps)))" using bspec [OF assms(2) [unfolded socks_known_def], of m] m by auto
    then show ?thesis using room_mono_buf [of "en_pending g" _ "length (stream_for ((=) (fst m)) ps)"] by auto
  qed
  show ?thesis
  proof (cases "en_connection e")
    case (Some c)
    have "content (en_pending e) = []" using assms(1) e(2) Some by (auto simp: dm_entries_def entry_ok_def)
    then have "readableBytes (en_pending e) = 0" using length_content [OF ok [OF e(2)]] by simp
    then have d: "packetFromServer (fst p) (snd p) dm = Some (dm_send c (snd p) dm)" using e Some by (simp add: packetFromServer_def)
    moreover have "waits [p] dm (dm_send c (snd p) dm)" using e(2) Some ok by (auto simp: waits_def intro!: entry_same)
    moreover have "socks_of (dm_send c (snd p) dm) = socks_of dm" "socks_known (dm_send c (snd p) dm) ps" using known by (auto simp: socks_of_def socks_known_def fun_eq_iff)
    ultimately show ?thesis using e(2) Some by (auto simp: dm_send_def socks_of_def fun_eq_iff)
  next
    case None
    obtain b where b: "Buffer_append (snd p) (en_pending e) = Some b" "buf_ok b" "content b = content (en_pending e) @ snd p" "\<And>n. room (en_pending e) (length (snd p) + n) \<Longrightarrow> room b n"
      using Buffer_append_ok [OF ok [OF e(2)], of "snd p"] room_mono_buf [OF e(3)] by auto
    let ?d = "dm\<lparr>dm_socksConns := (dm_socksConns dm)(int (fst p) \<mapsto> e\<lparr>en_pending := b\<rparr>)\<rparr>"
    have "packetFromServer (fst p) (snd p) dm = Some ?d" using e None b(1) by (simp add: packetFromServer_def)
    moreover have "waits [p] dm ?d" using e(2) None b ok by (auto simp: waits_def intro!: entry_same)
    moreover have "socks_of ?d = socks_of dm" using e(2) by (auto simp: socks_of_def fun_eq_iff)
    moreover have "socks_known ?d ps" using known b(4) [OF e(3)] by (auto simp: socks_known_def)
    ultimately show ?thesis using e(2) None by (auto simp: socks_of_def fun_eq_iff)
  qed
qed

lemma waits_trans: "waits ps dm dm1 \<Longrightarrow> waits qs dm1 dm2 \<Longrightarrow> waits (ps @ qs) dm dm2"
  unfolding waits_def by fastforce

lemma to_socks:
  assumes "dm_entries dm" and "socks_known dm ps"
  shows "\<exists>dm'. put_all (\<lambda>p. packetFromServer (fst p) (snd p)) ps dm = Some dm' \<and> dm_connected dm' = dm_connected dm \<and> waits ps dm dm'
    \<and> dm_sent dm' = (\<lambda>c. dm_sent dm c @ (if c \<in> dm_connected dm then stream_for (\<lambda>cid. socks_of dm cid = Some c) ps else []))"
  using assms
proof (induction ps arbitrary: dm)
  case Nil
  then have "waits [] dm dm" by (auto simp: waits_def dm_entries_def entry_ok_def intro!: entry_same)
  then show ?case by (auto simp: fun_eq_iff)
next
  case (Cons p ps)
  from packet_known [OF Cons.prems] obtain dm1 where
    d: "packetFromServer (fst p) (snd p) dm = Some dm1" "dm_connected dm1 = dm_connected dm" "socks_of dm1 = socks_of dm" "socks_known dm1 ps" "waits [p] dm dm1"
      "dm_sent dm1 = (\<lambda>c. dm_sent dm c @ (if c \<in> dm_connected dm \<and> socks_of dm (fst p) = Some c then snd p else []))" by blast
  from Cons.IH [OF packetFromServer_entries [OF Cons.prems(1) d(1)] d(4)] obtain dm' where
    e: "put_all (\<lambda>p. packetFromServer (fst p) (snd p)) ps dm1 = Some dm'" "dm_connected dm' = dm_connected dm1" "waits ps dm1 dm'"
      "dm_sent dm' = (\<lambda>c. dm_sent dm1 c @ (if c \<in> dm_connected dm1 then stream_for (\<lambda>cid. socks_of dm1 cid = Some c) ps else []))" by blast
  have "waits (p # ps) dm dm'" using waits_trans [OF d(5) e(3)] by simp
  then show ?case using d e by (auto simp: fun_eq_iff)
qed

text \<open>When the connection is there, what waited is sent on it first.\<close>

lemma socks_connected:
  assumes "dm_socksConns dm i = Some e" and "buf_ok (en_pending e)"
  shows "\<exists>dm'. onSocksConnection i k (dm\<lparr>dm_connected := insert k (dm_connected dm)\<rparr>) = Some dm' \<and> dm_sent dm' k = dm_sent dm k @ content (en_pending e)
    \<and> Option.bind (dm_socksConns dm' i) en_connection = Some k"
  using assms content_empty [OF assms(2)] by (auto simp: onSocksConnection_def dm_send_def Let_def)

section \<open>Identifiers\<close>

text \<open>The steps of the multiplexer. \<open>ClientUp\<close> and \<open>ClientTold\<close>, and \<open>ClientDown\<close> and \<open>ClientGone\<close>, are the two parts of \<^verbatim>\<open>onClientConnection\<close>, which run in the thread of the client: between them any step of another
  connection can come, and none of the same one. A connection is closed once; its object is then gone, and with it its context. The contract: a new connection has a number of its own, a client sends while there is a
  backend (or was refused), and a new connection to the backend is made when the clients of the old one have gone.\<close>

datatype mx_op = ClientUp nat | ClientTold nat string | ClientDown nat string | ClientGone nat | ClientData nat Buffer | BackendUp | BackendDown | BackendData Buffer

text \<open>Where a client is in the callback.\<close>

datatype mx_phase = Taken "nat option" | Leaving

type_synonym mx_sys = "MultiplexServer \<times> (nat \<rightharpoonup> mx_phase)"

fun mx_exec :: "mx_op \<Rightarrow> mx_sys \<Rightarrow> mx_sys option" where
  "mx_exec (ClientUp c) (mx, ph) = (case takeId c (mx\<lparr>mx_connected := insert c (mx_connected mx)\<rparr>) of (i, mx) \<Rightarrow> Some (mx, ph(c \<mapsto> Taken i)))"
| "mx_exec (ClientTold c peer) (mx, ph) = (case ph c of Some (Taken i) \<Rightarrow> map_option (\<lambda>mx. (mx, ph(c := None))) (tellUp c peer i mx) | _ \<Rightarrow> Some (mx, ph))"
| "mx_exec (ClientDown c peer) (mx, ph) = map_option (\<lambda>mx. (mx, ph(c \<mapsto> Leaving))) (tellDown c peer (mx\<lparr>mx_connected := mx_connected mx - {c}\<rparr>))"
| "mx_exec (ClientGone c) (mx, ph) = map_option (\<lambda>mx. (mx\<lparr>mx_context := (mx_context mx)(c := None)\<rparr>, ph(c := None))) (freeId c mx)"
| "mx_exec (ClientData c buf) (mx, ph) = map_option (\<lambda>r. (snd r, ph)) (onClientMessage c buf mx)"
| "mx_exec BackendUp (mx, ph) = map_option (\<lambda>mx. (mx, ph)) (onBackendConnection True mx)"
| "mx_exec BackendDown (mx, ph) = map_option (\<lambda>mx. (mx, ph)) (onBackendConnection False mx)"
| "mx_exec (BackendData buf) (mx, ph) = map_option (\<lambda>r. (snd r, ph)) (onBackendMessage buf mx)"


text \<open>Without another step between them, the two parts are the callback.\<close>

lemma mx_exec_callback:
  shows "Option.bind (mx_exec (ClientUp c) (mx, ph)) (mx_exec (ClientTold c peer)) =
           map_option (\<lambda>mx. (mx, ph(c := None))) (onClientConnection c peer (mx\<lparr>mx_connected := insert c (mx_connected mx)\<rparr>))"
    and "Option.bind (mx_exec (ClientDown c peer) (mx, ph)) (mx_exec (ClientGone c)) =
           map_option (\<lambda>mx. (mx\<lparr>mx_context := (mx_context mx)(c := None)\<rparr>, ph(c := None))) (onClientConnection c peer (mx\<lparr>mx_connected := mx_connected mx - {c}\<rparr>))"
proof -
  show "Option.bind (mx_exec (ClientUp c) (mx, ph)) (mx_exec (ClientTold c peer)) =
           map_option (\<lambda>mx. (mx, ph(c := None))) (onClientConnection c peer (mx\<lparr>mx_connected := insert c (mx_connected mx)\<rparr>))"
    by (auto simp: onClientConnection_def split: prod.split)
  show "Option.bind (mx_exec (ClientDown c peer) (mx, ph)) (mx_exec (ClientGone c)) =
           map_option (\<lambda>mx. (mx\<lparr>mx_context := (mx_context mx)(c := None)\<rparr>, ph(c := None))) (onClientConnection c peer (mx\<lparr>mx_connected := mx_connected mx - {c}\<rparr>))"
    by (cases "tellDown c peer (mx\<lparr>mx_connected := mx_connected mx - {c}\<rparr>)") (simp_all add: onClientConnection_def)
qed











lemma conn_text_short: "length (conn_text cid peer up) \<le> kMaxPacketLen"
  by (simp add: conn_text_def snprintf_def kMaxPacketLen_def)











section \<open>Commands\<close>

lemma digits_front:
  assumes "\<not> isdigit c"
  shows "takeWhile isdigit (dec_nat n @ c # rest) = dec_nat n" and "dropWhile isspace (dec_nat n @ rest) = dec_nat n @ rest" and "hd (dec_nat n @ rest) \<noteq> CHR ''-''" "hd (dec_nat n @ rest) \<noteq> CHR ''+''"
proof -
  show "takeWhile isdigit (dec_nat n @ c # rest) = dec_nat n" using dec_nat_chars [of _ n] assms by (simp add: takeWhile_append2)
  obtain x xs where x: "dec_nat n = x # xs" by (cases "dec_nat n") auto
  have "isdigit x" using dec_nat_chars [of x n] x by simp
  then have "\<not> isspace x" "x \<noteq> CHR ''-''" "x \<noteq> CHR ''+''" using digit_no_space by auto
  then show "dropWhile isspace (dec_nat n @ rest) = dec_nat n @ rest" "hd (dec_nat n @ rest) \<noteq> CHR ''-''" "hd (dec_nat n @ rest) \<noteq> CHR ''+''" using x by simp_all
qed

lemma atoi_dec:
  assumes "n < 2 ^ 31" and "\<not> isdigit c"
  shows "atoi (dec_nat n @ c # rest) = int n"
proof -
  have "sint (of_int (int n) :: 32 word) = int n" using assms(1) by (simp add: signed_of_nat signed_take_bit_int_eq_self)
  then show ?thesis using digits_front [OF assms(2)] by (simp add: atoi_def Let_def)
qed

lemma search_inside: "search_at p (x @ p @ y) \<noteq> None"
  by (induction x) (auto split: option.splits, cases p, auto, cases y, auto)

lemma search_missing:
  assumes "c \<in> set p" and "c \<notin> set s"
  shows "search_at p s = None"
proof (rule ccontr)
  assume "search_at p s \<noteq> None"
  then obtain k where "search_at p s = Some k" by auto
  then have "take (length p) (drop k s) = p" using search_at_Some by blast
  then have "c \<in> set (drop k s)" using assms(1) by (metis in_set_takeD)
  then show False using assms(2) in_set_dropD by metis
qed

text \<open>An address as \<^verbatim>\<open>toIpPort\<close> prints it.\<close>

definition peer_ok :: "string \<Rightarrow> bool" where
  "peer_ok peer \<longleftrightarrow> length peer \<le> 100 \<and> CHR ''U'' \<notin> set peer"

lemma conn_text_full:
  assumes "cid \<le> kMaxConns" and "peer_ok peer"
  shows "conn_text cid peer up = ''CONN '' @ dec_nat cid @ '' FROM '' @ peer @ (if up then '' IS UP'' else '' IS DOWN'') @ kCRLF"
proof -
  have "length (dec_nat cid) \<le> 2" using length_dec_nat [of cid 1] assms(1) by (simp add: kMaxConns_def)
  then show ?thesis using assms(2) by (auto simp: conn_text_def snprintf_def peer_ok_def kCRLF_def)
qed

lemma conn_text_read:
  assumes "cid \<le> kMaxConns" and "peer_ok peer"
  shows "atoi (drop 5 (conn_text cid peer up)) = int cid" and "search_at '' IS UP'' (conn_text cid peer up) \<noteq> None \<longleftrightarrow> up" and "5 \<le> length (conn_text cid peer up)"
proof -
  note t = conn_text_full [OF assms]
  have "cid < 2 ^ 31" using assms(1) by (simp add: kMaxConns_def)
  from atoi_dec [OF this not_digits(1)] show "atoi (drop 5 (conn_text cid peer up)) = int cid" unfolding t by simp
  have no: "CHR ''U'' \<notin> set (dec_nat cid)" by (rule dec_nat_no) (simp add: isdigit_def)
  show "search_at '' IS UP'' (conn_text cid peer up) \<noteq> None \<longleftrightarrow> up"
  proof (cases up)
    case True
    then show ?thesis using search_inside [of "'' IS UP''" "''CONN '' @ dec_nat cid @ '' FROM '' @ peer" kCRLF] unfolding t by simp
  next
    case False
    have "CHR ''U'' \<notin> set (conn_text cid peer up)" unfolding t using no assms(2) False by (simp add: peer_ok_def kCRLF_def)
    from search_missing [OF _ this, of "'' IS UP''"] False show ?thesis by simp
  qed
  show "5 \<le> length (conn_text cid peer up)" unfolding t by simp
qed

lemma new_pending: "\<exists>b. new_Buffer kInitialSize = Some b \<and> content b = [] \<and> readableBytes b = 0"
  using new_Buffer_ok [of kInitialSize] by (auto simp: kInitialSize_def kCheapPrepend_def vec_max_def dest: length_content)

lemma doCommand_text:
  assumes "cid \<le> kMaxConns" and "peer_ok peer"
  shows "doCommand (conn_text cid peer True) dm =
      (if dm_socksConns dm (int cid) = None
       then Some (dm\<lparr>dm_socksConns := (dm_socksConns dm)(int cid \<mapsto> \<lparr>en_connection = None, en_pending = the (new_Buffer kInitialSize)\<rparr>), dm_connects := dm_connects dm @ [int cid]\<rparr>)
       else None)"
    and "doCommand (conn_text cid peer False) dm =
      map_option (\<lambda>e. case en_connection e of Some c \<Rightarrow> dm_shutdown c dm | None \<Rightarrow> dm\<lparr>dm_socksConns := (dm_socksConns dm)(int cid := None)\<rparr>) (dm_socksConns dm (int cid))"
proof -
  note r = conn_text_read [OF assms]
  obtain b where "new_Buffer kInitialSize = Some b" using new_pending by blast
  then show "doCommand (conn_text cid peer True) dm =
      (if dm_socksConns dm (int cid) = None
       then Some (dm\<lparr>dm_socksConns := (dm_socksConns dm)(int cid \<mapsto> \<lparr>en_connection = None, en_pending = the (new_Buffer kInitialSize)\<rparr>), dm_connects := dm_connects dm @ [int cid]\<rparr>)
       else None)"
    using r(1,3) r(2) [of True] by (simp add: doCommand_def Let_def)
  show "doCommand (conn_text cid peer False) dm =
      map_option (\<lambda>e. case en_connection e of Some c \<Rightarrow> dm_shutdown c dm | None \<Rightarrow> dm\<lparr>dm_socksConns := (dm_socksConns dm)(int cid := None)\<rparr>) (dm_socksConns dm (int cid))"
    using r(1,3) r(2) [of False] by (cases "dm_socksConns dm (int cid)") (simp_all add: doCommand_def Let_def)
qed

section \<open>Properties\<close>

text \<open>C38: the bytes of each client reach its own connection at the other end, in order, and back. What a client sends becomes packets with its identifier. A stream of packets of clients that the demultiplexer was told of, however it is
  cut, gives every connection exactly the bytes of its client; the bytes of a client whose connection is not there yet wait behind those that wait already, and when it is there they are sent on it, all of them and in order, and the
  entry has the connection; the bytes of an incomplete packet are kept. The same holds in the other direction. The state of the demultiplexer is any that its callbacks can reach, with the connection to the multiplexer; there is
  memory for the bytes that wait.\<close>

theorem multiplexer_streams:
  assumes buf: "buf_ok buf" "kCheapPrepend \<le> readerIndex buf" and mx: "mx_backendConn mx" "mx_context mx conn = Some cid"
    and dm: "dm_reach dm" "dm_serverConn dm = Some c" "c \<in> dm_connected dm" "dm_socksConns dm (int cid) \<noteq> None"
    and b: "buf_ok b" "content b = wire msgs @ r" "incomplete r" and ids: "\<forall>m \<in> set msgs. fst m < 2 ^ 16" "socks_known dm msgs"
  shows "(\<exists>buf' mx'. onClientMessage conn buf mx = Some (buf', mx') \<and> content buf' = [] \<and> mx_toBackend mx' = mx_toBackend mx @ wire [(cid, content buf)])
    \<and> (\<exists>b' dm'. onServerMessage b dm = Some (b', dm') \<and> content b' = r
        \<and> (\<forall>k \<in> dm_connected dm. dm_sent dm' k = dm_sent dm k @ stream_for (\<lambda>i. socks_of dm i = Some k) msgs)
        \<and> (\<forall>i e. dm_socksConns dm (int i) = Some e \<and> en_connection e = None \<longrightarrow>
             (\<exists>e'. dm_socksConns dm' (int i) = Some e' \<and> en_connection e' = None \<and> content (en_pending e') = content (en_pending e) @ stream_for ((=) i) msgs)
             \<and> (\<forall>k. k \<notin> dm_connected dm \<longrightarrow>
                  (\<exists>dm''. onSocksConnection (int i) k (dm'\<lparr>dm_connected := insert k (dm_connected dm')\<rparr>) = Some dm''
                     \<and> dm_sent dm'' k = dm_sent dm k @ content (en_pending e) @ stream_for ((=) i) msgs \<and> socks_of dm'' i = Some k))))
    \<and> (\<exists>buf' dm'. onSocksMessage (int cid) buf dm = Some (buf', dm') \<and> content buf' = [] \<and> dm_sent dm' c = dm_sent dm c @ wire [(cid, content buf)])
    \<and> (\<exists>b' mx'. onBackendMessage b mx = Some (b', mx') \<and> content b' = r
        \<and> (\<forall>k \<in> mx_connected mx. mx_sent mx' k = mx_sent mx k @ stream_for (\<lambda>i. mx_clientConns mx i = Some k) msgs))"
    (is "?up \<and> ?down \<and> ?socks \<and> ?answer")
proof (intro conjI)
  have w: "wire [(cid, content buf)] = concat (map packet (map (Pair cid) (chunks (content buf))))" by (simp add: wire_def packets_of_def)
  have pk: "packet_ok p" if "p \<in> set (packets_of msgs)" for p using packets_of_ok [OF _ that] ids(1) by blast
  have c: "content b = concat (map packet (packets_of msgs)) @ r" using b(2) by (simp add: wire_def)
  show ?up unfolding w using mxs.cut_up [of "mx\<lparr>mx_transferred := mx_transferred mx + readableBytes buf, mx_receivedMessages := mx_receivedMessages mx + 1\<rparr>" buf cid] mx buf
    by (auto simp: onClientMessage_def)
  show ?socks unfolding w using dms.cut_up [of dm c buf cid] dm buf by (auto simp: onSocksMessage_def dm_send_def)
  obtain dm' where d: "put_all (\<lambda>p. packetFromServer (fst p) (snd p)) (packets_of msgs) dm = Some dm'" "dm_connected dm' = dm_connected dm" "waits (packets_of msgs) dm dm'"
      "dm_sent dm' = (\<lambda>c. dm_sent dm c @ (if c \<in> dm_connected dm then stream_for (\<lambda>cid. socks_of dm cid = Some c) msgs else []))"
    using to_socks [OF dm_reach_entries [OF dm(1)] socks_known_packets [OF ids(2)]] unfolding stream_for_packets by blast
  obtain b' where m: "onServerMessage b dm = Some (b', dm')" "content b' = r" using read_all [OF b(1) c pk b(3), of packetFromServer dm] d(1) by (auto simp: onServerMessage_def)
  have "(\<exists>e'. dm_socksConns dm' (int i) = Some e' \<and> en_connection e' = None \<and> content (en_pending e') = content (en_pending e) @ stream_for ((=) i) msgs)
      \<and> (\<forall>k. k \<notin> dm_connected dm \<longrightarrow>
           (\<exists>dm''. onSocksConnection (int i) k (dm'\<lparr>dm_connected := insert k (dm_connected dm')\<rparr>) = Some dm''
              \<and> dm_sent dm'' k = dm_sent dm k @ content (en_pending e) @ stream_for ((=) i) msgs \<and> socks_of dm'' i = Some k))"
    if e: "dm_socksConns dm (int i) = Some e \<and> en_connection e = None" for i e
  proof -
    obtain b where w: "dm_socksConns dm' (int i) = Some (e\<lparr>en_pending := b\<rparr>)" "buf_ok b" "content b = content (en_pending e) @ stream_for ((=) i) msgs"
      using d(3) e by (auto simp: waits_def stream_for_packets)
    have "\<exists>dm''. onSocksConnection (int i) k (dm'\<lparr>dm_connected := insert k (dm_connected dm')\<rparr>) = Some dm''
        \<and> dm_sent dm'' k = dm_sent dm k @ content (en_pending e) @ stream_for ((=) i) msgs \<and> socks_of dm'' i = Some k" if k: "k \<notin> dm_connected dm" for k
      using socks_connected [OF w(1), of k] w(2,3) d(4) k by (auto simp: socks_of_def)
    with e w show ?thesis by auto
  qed
  then show ?down using m d(4) by auto
  let ?mx = "mx\<lparr>mx_transferred := mx_transferred mx + readableBytes b, mx_receivedMessages := mx_receivedMessages mx + 1\<rparr>"
  from to_clients [of "packets_of msgs" ?mx] read_all [OF b(1) c pk b(3), of packetToClient ?mx] show ?answer
    by (auto simp: onBackendMessage_def sendToClient_def stream_for_packets)
qed


text \<open>C40: the demultiplexer aborts when an identifier is used again: after a client has come and gone, and its connection was closed, the entry of its identifier is still there, and the next client with that identifier,
  which the multiplexer gives out again, fails an assertion.\<close>

theorem reused_id_aborts:
  assumes "cid \<le> kMaxConns" and "peer_ok peer" "peer_ok peer'" and "dm_socksConns dm (int cid) = None" and "dm_serverConn dm = Some s" "s \<in> dm_connected dm" "c \<noteq> s"
  shows "\<exists>dm1 dm2 dm3 dm4. doCommand (conn_text cid peer True) dm = Some dm1
    \<and> onSocksConnection (int cid) c (dm1\<lparr>dm_connected := insert c (dm_connected dm1)\<rparr>) = Some dm2
    \<and> doCommand (conn_text cid peer False) dm2 = Some dm3
    \<and> onSocksConnection (int cid) c (dm3\<lparr>dm_connected := dm_connected dm3 - {c}\<rparr>) = Some dm4
    \<and> doCommand (conn_text cid peer' True) dm4 = None"
proof -
  obtain b where b: "new_Buffer kInitialSize = Some b" "content b = []" "readableBytes b = 0" using new_pending by blast
  let ?e = "\<lparr>en_connection = None, en_pending = b\<rparr>"
  let ?dm1 = "dm\<lparr>dm_socksConns := (dm_socksConns dm)(int cid \<mapsto> ?e), dm_connects := dm_connects dm @ [int cid]\<rparr>"
  let ?dm2 = "?dm1\<lparr>dm_connected := insert c (dm_connected dm), dm_socksConns := (dm_socksConns dm)(int cid \<mapsto> ?e\<lparr>en_connection := Some c\<rparr>)\<rparr>"
  let ?dm3 = "?dm2\<lparr>dm_connected := insert c (dm_connected dm) - {c}\<rparr>"
  let ?text = "snprintf 256 (''DISCONNECT '' @ dec_int (int cid) @ kCRLF)"
  have 1: "doCommand (conn_text cid peer True) dm = Some ?dm1" using doCommand_text(1) [OF assms(1,2), of dm] assms(4) b(1) by simp
  have 2: "onSocksConnection (int cid) c (?dm1\<lparr>dm_connected := insert c (dm_connected ?dm1)\<rparr>) = Some ?dm2" using b(3) by (simp add: onSocksConnection_def Let_def)
  have 3: "doCommand (conn_text cid peer False) ?dm2 = Some ?dm3" using doCommand_text(2) [OF assms(1,2), of ?dm2] by (simp add: dm_shutdown_def)
  have "length ?text \<le> kMaxPacketLen" by (simp add: snprintf_def kMaxPacketLen_def)
  from fresh_buffer [OF this] obtain p where p: "Option.bind (new_Buffer kInitialSize) (Buffer_append ?text) = Some p" "buf_ok p" "content p = ?text" "kCheapPrepend \<le> readerIndex p" by blast
  let ?d = "?dm3\<lparr>dm_connected := dm_connected ?dm3 - {c}\<rparr>"
  have "readableBytes p \<le> kMaxPacketLen" using p(2,3) \<open>length ?text \<le> kMaxPacketLen\<close> by (metis length_content)
  from sendServerPacket_up [of ?d s p 0, OF _ p(2,4) this] assms(5-7) obtain p' where "sendServerPacket 0 p ?d = Some (p', dm_send s (packet (0, content p)) ?d)" by auto
  then have 4: "onSocksConnection (int cid) c ?d = Some (dm_send s (packet (0, content p)) ?d)" using p(1) b(1) assms(5) by (simp add: onSocksConnection_def)
  have 5: "doCommand (conn_text cid peer' True) (dm_send s (packet (0, content p)) ?d) = None" using doCommand_text(1) [OF assms(1,3)] by simp
  show ?thesis using 1 2 3 4 5 by blast
qed

lemma backend_up:
  "onBackendConnection True mx = (if mx_availIds mx = [] then Some (mx\<lparr>mx_backendConn := True, mx_toBackend := [], mx_availIds := [1, 2, 3, 4, 5, 6, 7, 8, 9, 10]\<rparr>) else None)"
proof -
  have ids: "[1..<kMaxConns + 1] = [1, 2, 3, 4, 5, 6, 7, 8, 9, 10]" by (simp add: kMaxConns_def upt_rec)
  show ?thesis unfolding onBackendConnection_def ids by simp
qed

text \<open>Without the contract. A client of an old connection to the backend that goes after a new one is made takes the identifier from the client that has it now.\<close>

lemma reconnect_confuses_clients:
  "\<exists>mx ph. put_all mx_exec [BackendUp, ClientUp 1, ClientTold 1 p, BackendDown, BackendUp, ClientUp 2, ClientTold 2 q, ClientDown 1 p, ClientGone 1] (new_MultiplexServer, Map.empty) = Some (mx, ph)
     \<and> 2 \<in> mx_connected mx \<and> mx_context mx 2 = Some 1 \<and> mx_clientConns mx 1 = None \<and> 1 \<in> set (mx_availIds mx)"
proof -
  have down: "onBackendConnection False mx = Some (mx\<lparr>mx_backendConn := False, mx_clientConns := Map.empty, mx_availIds := [], mx_connected := mx_connected mx - ran (mx_clientConns mx)\<rparr>)" for mx
    by (simp add: onBackendConnection_def)
  show ?thesis
    by (simp add: new_MultiplexServer_def backend_up down takeId_def tellUp_def tellDown_def freeId_def sendBackendString_up [OF conn_text_short] kMaxConns_def)
qed

text \<open>Without a connection to the backend, a message stays in the buffer of the client with a header before it; every further message adds one, until the room before the bytes is used up and an assertion fails.\<close>

lemma message_without_backend:
  assumes "\<not> mx_backendConn mx" and "mx_context mx c = Some cid" and "buf_ok buf" "0 < readableBytes buf" "readableBytes buf \<le> kMaxPacketLen"
  shows "if readerIndex buf < 3 then onClientMessage c buf mx = None
    else \<exists>buf' mx'. onClientMessage c buf mx = Some (buf', mx') \<and> buf_ok buf' \<and> content buf' = packet (cid, content buf) \<and> readerIndex buf' = readerIndex buf - 3"
proof -
  let ?mx = "mx\<lparr>mx_transferred := mx_transferred mx + readableBytes buf, mx_receivedMessages := mx_receivedMessages mx + 1\<rparr>"
  have s: "onClientMessage c buf mx = sendBackendPacket cid buf ?mx" using assms(2,4,5) by (simp add: onClientMessage_def sendBackendBuffer.simps)
  let ?h = "packet_header (readableBytes buf) cid"
  show ?thesis
  proof (cases "readerIndex buf < 3")
    case True
    then have "prepend ?h buf = None" by (simp add: prepend_def prependableBytes_def)
    then show ?thesis using s True by (simp add: sendBackendPacket_def Let_def)
  next
    case False
    then have "length ?h \<le> prependableBytes buf" by (simp add: prependableBytes_def)
    from prepend_ok [OF assms(3) this] obtain b where b: "prepend ?h buf = Some b" "buf_ok b" "content b = ?h @ content buf" by blast
    have "readerIndex b = readerIndex buf - 3" using b(1) False by (auto simp: prepend_def prependableBytes_def Let_def)
    then show ?thesis using s b False assms(1,3,5) by (simp add: sendBackendPacket_def packet_def Let_def)
  qed
qed

definition ex_mx :: MultiplexServer where
  "ex_mx = new_MultiplexServer\<lparr>mx_backendConn := True, mx_clientConns := [1 \<mapsto> 7], mx_context := [7 \<mapsto> 1], mx_connected := {7}\<rparr>"

text \<open>The demultiplexer was told of client 1; its connection is not there yet.\<close>

definition ex_dm :: DemuxServer where
  "ex_dm = new_DemuxServer\<lparr>dm_serverConn := Some 0, dm_socksConns := [1 \<mapsto> \<lparr>en_connection = None, en_pending = the (new_Buffer kInitialSize)\<rparr>], dm_connected := {0}, dm_connects := [1]\<rparr>"

lemma ex_dm_reach: "dm_reach ex_dm"
proof -
  let ?text = "conn_text 1 ''10.0.0.1:4000'' True"
  let ?d = "new_DemuxServer\<lparr>dm_connected := {0}, dm_serverConn := Some 0\<rparr>"
  have "onServerConnection 0 (new_DemuxServer\<lparr>dm_connected := insert 0 (dm_connected new_DemuxServer)\<rparr>) = ?d" by (simp add: onServerConnection_def new_DemuxServer_def)
  with dm_server [OF dm_open [OF dm_start], of 0 0] have r: "dm_reach ?d" by simp
  have ok: "peer_ok ''10.0.0.1:4000''" "1 \<le> kMaxConns" by (simp_all add: peer_ok_def kMaxConns_def)
  have "packetFromServer 0 ?text ?d = Some ex_dm"
    using doCommand_text(1) [OF ok(2,1), of ?d] by (simp add: packetFromServer_def ex_dm_def new_DemuxServer_def)
  moreover have p: "packet_ok (0, ?text)" using conn_text_full [OF ok(2,1), of True] conn_text_short [of 1 "''10.0.0.1:4000''" True] by (auto simp: packet_ok_def)
  moreover have "length (packet (0, ?text)) < 1000" using conn_text_short [of 1 "''10.0.0.1:4000''" True] by (simp add: packet_def kMaxPacketLen_def)
  ultimately obtain b' where "onServerMessage (ex_input (packet (0, ?text))) ?d = Some (b', ex_dm)"
    using read_all [of "ex_input (packet (0, ?text))" "[(0, ?text)]" "[]" packetFromServer ?d] ex_input_ok by (auto simp: onServerMessage_def incomplete_def)
  from dm_message [OF r this] show ?thesis .
qed

lemma ex_wire: "length (wire [(1, ''hi''), (1, ''!'')]) < 1000"
  by (simp add: wire_def packets_of_def packet_def chunks.simps kMaxPacketLen_def)

theorem multiplexer_streams_witness:
  "\<exists>b' dm' e' dm''. onServerMessage (ex_input (wire [(1, ''hi''), (1, ''!'')])) ex_dm = Some (b', dm') \<and> content b' = []
     \<and> dm_socksConns dm' 1 = Some e' \<and> en_connection e' = None \<and> content (en_pending e') = ''hi!''
     \<and> onSocksConnection 1 5 (dm'\<lparr>dm_connected := insert 5 (dm_connected dm')\<rparr>) = Some dm'' \<and> dm_sent dm'' 5 = ''hi!'' \<and> socks_of dm'' 1 = Some 5"
proof -
  let ?msgs = "[(1, ''hi''), (1, ''!'')]"
  let ?b = "ex_input (wire ?msgs)"
  obtain p where p: "new_Buffer kInitialSize = Some p" "buf_ok p" "content p = []" "writerIndex p = kCheapPrepend"
    using new_Buffer_ok [of kInitialSize] by (auto simp: kCheapPrepend_def kInitialSize_def vec_max_def)
  have b: "buf_ok ?b" "kCheapPrepend \<le> readerIndex ?b" "content ?b = wire ?msgs @ []" using ex_input_ok ex_wire by (simp_all add: ex_input_def)
  have mx: "mx_backendConn ex_mx" "mx_context ex_mx 7 = Some 1" by (simp_all add: ex_mx_def)
  have dm: "dm_serverConn ex_dm = Some 0" "0 \<in> dm_connected ex_dm" "dm_socksConns ex_dm (int 1) \<noteq> None" by (simp_all add: ex_dm_def)
  have e: "dm_socksConns ex_dm (int 1) = Some \<lparr>en_connection = None, en_pending = p\<rparr>" "dm_sent ex_dm 5 = []" "5 \<notin> dm_connected ex_dm" using p(1) by (simp_all add: ex_dm_def new_DemuxServer_def)
  have k: "socks_known ex_dm ?msgs" using e(1) p(4) by (simp add: socks_known_def room_def kCheapPrepend_def vec_max_def)
  have r: "incomplete []" "\<forall>m \<in> set ?msgs. fst m < (2 :: nat) ^ 16" by (simp_all add: incomplete_def)
  note w = multiplexer_streams [OF b(1,2) mx ex_dm_reach dm b(1,3) r k]
  obtain b' dm' where o: "onServerMessage ?b ex_dm = Some (b', dm')" "content b' = []" and
    o': "\<forall>i e. dm_socksConns ex_dm (int i) = Some e \<and> en_connection e = None \<longrightarrow>
             (\<exists>e'. dm_socksConns dm' (int i) = Some e' \<and> en_connection e' = None \<and> content (en_pending e') = content (en_pending e) @ stream_for ((=) i) ?msgs)
             \<and> (\<forall>k. k \<notin> dm_connected ex_dm \<longrightarrow>
                  (\<exists>dm''. onSocksConnection (int i) k (dm'\<lparr>dm_connected := insert k (dm_connected dm')\<rparr>) = Some dm''
                     \<and> dm_sent dm'' k = dm_sent ex_dm k @ content (en_pending e) @ stream_for ((=) i) ?msgs \<and> socks_of dm'' i = Some k))"
    using w [THEN conjunct2, THEN conjunct1] by (elim exE conjE)
  note five = o' [rule_format, OF conjI, OF e(1), simplified]
  have "\<exists>e'. dm_socksConns dm' (int 1) = Some e' \<and> en_connection e' = None \<and> content (en_pending e') = ''hi!''"
    and "\<exists>dm''. onSocksConnection (int 1) 5 (dm'\<lparr>dm_connected := insert 5 (dm_connected dm')\<rparr>) = Some dm'' \<and> dm_sent dm'' 5 = ''hi!'' \<and> socks_of dm'' 1 = Some 5"
    using five [THEN conjunct1] five [THEN conjunct2, THEN spec, of 5] e(2,3) p(3) by simp_all
  with o show ?thesis by auto
qed




definition ex_dm0 :: DemuxServer where
  "ex_dm0 = new_DemuxServer\<lparr>dm_serverConn := Some 0, dm_connected := {0}\<rparr>"

theorem reused_id_aborts_witness:
  "\<exists>dm1 dm2 dm3 dm4. doCommand (conn_text 1 ''10.0.0.1:4000'' True) ex_dm0 = Some dm1
    \<and> onSocksConnection 1 5 (dm1\<lparr>dm_connected := insert 5 (dm_connected dm1)\<rparr>) = Some dm2
    \<and> doCommand (conn_text 1 ''10.0.0.1:4000'' False) dm2 = Some dm3
    \<and> onSocksConnection 1 5 (dm3\<lparr>dm_connected := dm_connected dm3 - {5}\<rparr>) = Some dm4
    \<and> doCommand (conn_text 1 ''10.0.0.2:4001'' True) dm4 = None"
  using reused_id_aborts [of 1 "''10.0.0.1:4000''" "''10.0.0.2:4001''" ex_dm0 0 5] by (simp add: kMaxConns_def peer_ok_def ex_dm0_def new_DemuxServer_def)

end
