(* ===== verification/Spec2Isabelle.thy ===== *)
theory Spec2Isabelle
  imports EchoServer TimerQueue Http AsyncLog Workers PollPoller MuduoLoop Client Rpc Hub MemcacheSession Multiplexer LogStream TimeZone StringPiece Date Buffer
begin

text \<open>
  \<^bold>\<open>The program.\<close> The repository holds an epoll-based network library in two versions. The files at the top level (\<^verbatim>\<open>main.cpp\<close>, \<^verbatim>\<open>TcpServer.cpp\<close>,
  \<^verbatim>\<open>EventLoop.cpp\<close>, \<^verbatim>\<open>poller\<close>, \<^verbatim>\<open>base\<close>) are a rewrite that builds an echo server; \<^verbatim>\<open>muduo\<close> is the original library, and \<^verbatim>\<open>examples\<close> are programs on it.
  A program has one event loop per thread. A loop waits in its poller, calls the channels with events, which call the handlers of connections, acceptors and timers, and then runs the functors that were
  queued for it. Connections keep their data in buffers; the protocols (HTTP, framed protocol buffers, remote calls, the hub, memcached, the multiplexer) work on these buffers.

  \<^bold>\<open>Conventions.\<close> A computation that may abort (a failing \<^verbatim>\<open>assert\<close>, \<^verbatim>\<open>LOG_FATAL\<close>, an exception nobody catches, a null or dangling pointer) is an option, \<open>None\<close> the abort; \<open>assert_that\<close> and the \<open>do\<close> blocks are in
  \<open>Prelude\<close>. Structs and classes are records, with a map from numbers to objects where pointers are shared. What the kernel, the clock, the allocator, the scheduler and
  third-party libraries answer is an argument or a field of the state (\<open>m_kernel\<close>, \<open>lf_time\<close>, \<open>cd_adler32\<close>), with what their manuals promise
  as hypotheses. Words are kept at their width where the code masks, converts or may overflow.

  \<^bold>\<open>Theories, in the order of the code.\<close>
  \<^item> \<open>Prelude\<close>: the abort monad, block copies, bytes of machine words, decimal text, C's division, the wrap-around of 32-bit and 64-bit integers (\<open>i32\<close>, \<open>i64\<close>).
  \<^item> \<open>Buffer\<close> (\<^verbatim>\<open>Buffer.h\<close>, \<^verbatim>\<open>Buffer.cpp\<close>, \<^verbatim>\<open>Endian.h\<close>): the locale \<open>byte_queue\<close> is the contract of a FIFO of bytes; the interpretation \<open>bq\<close> shows that the buffer, with its moving, growing and shrinking, refines
    it. Integers read back what was written, on hosts of either byte order.
  \<^item> \<open>Date\<close>, \<open>Timestamp\<close>, \<open>TimeZone\<close>, \<open>StringPiece\<close>, \<open>LogStream\<close> (\<^verbatim>\<open>base\<close>): calendar and time-zone round trips, in the widths of the code and for the years where they do not overflow and \<^verbatim>\<open>gmtime_r\<close> succeeds, the reader of TZif files on the bytes of a file and its errors, the order of string pieces, decimal and hexadecimal conversion, and (locale \<open>text_sink\<close>, interpretation
    \<open>ls\<close>) that no stream writes outside its buffer.
  \<^item> \<open>Channel\<close>, \<open>Poller\<close>, \<open>EventLoop\<close> (files of these names and \<^verbatim>\<open>poller/EPollPoller.cpp\<close>): the interest list of the kernel, the map of the poller and the index of every channel agree in every reachable state; dispatch of events; functors (locale \<open>functor_runner\<close>); that
    the rewritten loop is not woken by other threads: \<open>readiness\<close> is what is pending on the descriptors and \<open>kernel_allows\<close> ties every return of \<^verbatim>\<open>epoll_wait\<close> to it.
  \<^item> \<open>TcpConnection\<close>, \<open>LoopPool\<close>, \<open>TcpServer\<close>, \<open>EchoServer\<close>: the server of \<^verbatim>\<open>main.cpp\<close> as one state. Its invariant is kept by every round of the loop (the interpretation \<open>srv\<close> of \<open>functor_runner\<close>), but for the two events it does not survive, an error of \<^verbatim>\<open>accept4\<close> that is not expected (\<open>accept_error_aborts\<close>) and a hang-up with priority data (\<open>double_close\<close>); each connection has echoed a prefix of what it received, and with
    a kernel that takes bytes all of it.
  \<^item> \<open>TimerQueue\<close> (\<^verbatim>\<open>TimerQueue.cpp\<close> and \<^verbatim>\<open>muduo/net/TimerQueue.cc\<close>): both indices of the timers agree, callbacks may add and cancel timers, an address may be reused; what becomes of every timer, due or not, when an expiration is handled.
  \<^item> \<open>MuduoConnection\<close> (\<^verbatim>\<open>muduo/net/TcpConnection.cc\<close>): a connection called from any thread, where the test of the state and its assignment in \<^verbatim>\<open>send\<close>, \<^verbatim>\<open>shutdown\<close> and \<^verbatim>\<open>forceClose\<close> may come apart, except around the close itself (\<open>closing_race_aborts\<close>); the locale \<open>tc_user\<close> says what the user's callbacks may do, and is interpreted for the default callbacks (\<open>dflt\<close>) and the HTTP server (\<open>http\<close>). One close, an output that is a prefix of what was sent, a shutdown after the last byte.
  \<^item> \<open>MuduoLoop\<close> (\<^verbatim>\<open>muduo/net/EventLoop.cc\<close>): functors queued by any threads run in order, and no wake-up is lost.
  \<^item> \<open>PollPoller\<close> (\<^verbatim>\<open>muduo/net/poller/PollPoller.cc\<close>): the array for \<^verbatim>\<open>poll(2)\<close>, the map and the indices agree.
  \<^item> \<open>Client\<close> (\<^verbatim>\<open>muduo/net/Connector.cc\<close>, \<^verbatim>\<open>muduo/net/TcpClient.cc\<close>): the states of a connection attempt, retries with a growing delay, who owns a descriptor, and that a \<^verbatim>\<open>stop\<close> between the callbacks of the loop is final (\<open>stop_race\<close> is about one inside \<^verbatim>\<open>removeConnection\<close>).
  \<^item> \<open>Http\<close> (\<^verbatim>\<open>muduo/net/http\<close>): the parser ends, does not depend on how the stream is cut, reads back printed requests, and the server's answers.
  \<^item> \<open>Codec\<close> (\<^verbatim>\<open>muduo/net/protobuf/ProtobufCodecLite.cc\<close>) and \<open>Rpc\<close> (\<^verbatim>\<open>muduo/net/protorpc\<close>): frames survive the wire however they are cut, bad frames are rejected; every remote call is answered once, with its own response.
  \<^item> \<open>Hub\<close> (\<^verbatim>\<open>examples/hub\<close>): the server refines an abstract publish-subscribe system, in which a publication reaches exactly the subscribers of its topic; commands survive the wire however they are cut.
  \<^item> \<open>Memcache\<close> and \<open>MemcacheSession\<close> (\<^verbatim>\<open>examples/memcached/server\<close>): the sharded table refines one map from keys to entries; the locale \<open>versioned\<close>, interpreted on the table as \<open>mc\<close>, gives that a version number identifies an entry, so that \<open>cas\<close> detects every change; a session stays well-formed on
    every input, except for the request lines that abort the server, and a value that is set is the value that is read.
  \<^item> \<open>Multiplexer\<close> (\<^verbatim>\<open>examples/multiplexer\<close>): many clients over one connection. The locale \<open>packet_sender\<close> is the loop that cuts a buffer into packets, interpreted for both ends (\<open>mxs\<close>, \<open>dms\<close>); the bytes of every client arrive at its own
    connection, also those that have to wait for it, and in all interleavings of the clients' threads an identifier is free or belongs to one client, as long as the backend returns only after its old clients have gone (\<open>reconnect_confuses_clients\<close>).
  \<^item> \<open>AsyncLog\<close> (\<^verbatim>\<open>base/AsyncLogging.cc\<close>, \<^verbatim>\<open>base/LogFile.cc\<close>, \<^verbatim>\<open>base/FileUtil.cc\<close>) and \<open>Workers\<close> (\<^verbatim>\<open>base/ThreadPool.cc\<close> and the queues): all interleavings at the points where a mutex is released; no line and no task is lost or duplicated, except the buffers that the logger drops and reports; the disk is one where \<^verbatim>\<open>fopen\<close> succeeds and \<^verbatim>\<open>fwrite\<close> takes something (\<open>disk_ok\<close>).

  \<^bold>\<open>Loops and bounds.\<close> Loops over data are structural or have a termination proof (\<open>codec_onMessage\<close>, \<open>hub_onMessage\<close>, \<open>ss_loop\<close>, whose rounds consume input or finish a value, the conversion of integers). \<open>parseRequest\<close> of \<open>Http\<close> has fuel, the number of readable bytes plus one: every round but the last consumes a line, and
  \<open>Http.http_parse_ends\<close> shows that the fuel never runs out. \<open>loop_run\<close> of \<open>EventLoop\<close> consumes a list of the results of \<^verbatim>\<open>epoll_wait\<close> and of the calls of other threads; a loop without further input is blocked. The loops that run forever in the code are step relations. A remote channel makes fewer than \<open>2^64\<close> calls, so that
  its identifiers stay distinct; a buffer stays below the largest size of a vector (\<open>room\<close>); the version counter of memcached does not wrap around and no value grows to two gigabytes (\<open>srv_room\<close>).

  \<^bold>\<open>What the code gets wrong.\<close> Some theorems state a defect: the theorem exhibits a run of the model that aborts or stalls (\<open>EventLoop.no_wakeup\<close>, \<open>EchoServer.started_server_destructor_aborts\<close>, \<open>EchoServer.accept_error_aborts\<close>, \<open>MuduoConnection.closing_race_aborts\<close>, \<open>TimerQueue.first_expiration_aborts\<close>,
  \<open>Http.bad_request_then_more_aborts\<close>, \<open>PollPoller.reenabled_channel_is_deaf\<close>, \<open>Client.connect_again_aborts\<close>, \<open>Workers.stop_strands_producers\<close>, \<open>AsyncLog.log_lines_lost\<close>, \<open>MemcacheSession.fatal_requests_abort\<close>, \<open>MemcacheSession.stale_answer\<close>, \<open>Multiplexer.reused_id_aborts\<close> and others).

  \<^bold>\<open>Not modelled.\<close> \<^verbatim>\<open>muduo/base\<close> and the files of \<^verbatim>\<open>muduo/net\<close> that repeat the top level (buffers, sockets, addresses, thread pools): the models of their twins apply. Wrappers of system calls and of threads, the front end of the logger, \<^verbatim>\<open>GzipFile\<close>, \<^verbatim>\<open>ProcessInfo\<close>, \<^verbatim>\<open>ReadSmallFile\<close>, \<^verbatim>\<open>inspect\<close>, \<^verbatim>\<open>ZlibStream\<close>: pure input and output. Lifetimes behind smart
  pointers appear only where an object is looked up after it may be gone. \<^verbatim>\<open>boost\<close>, \<^verbatim>\<open>protobuf\<close> and zlib are not part of the repository. Of \<^verbatim>\<open>examples\<close> the other programs are left out: most are a few callbacks on the library or benchmarks; the largest (\<^verbatim>\<open>procmon\<close>,
  \<^verbatim>\<open>sudoku\<close>, the balancer of remote calls) format what \<^verbatim>\<open>/proc\<close> reports, relay bytes between connections or solve a puzzle, and add nothing to the behaviour of the library.
\<close>

end
